(* ===== verification/Prelude.thy ===== *)
theory Prelude
  imports Main "HOL-Library.Word"
begin

text \<open>
  Shared vocabulary of the aboot development: the machine integer types of the Alpha ABI
  (LP64, little endian, signed plain \<open>char\<close>), byte memory, little-endian field access, and the
  list lemmas that several components rely on.

  Memory is a total function from addresses to bytes.  Addresses are natural numbers: the code
  never relies on pointer wrap-around.  Lengths and offsets that the C code computes in machine
  words are kept as words in the components where wrap-around can happen.
\<close>

unbundle bit_operations_syntax

type_synonym u8 = "8 word"
type_synonym u16 = "16 word"
type_synonym u32 = "32 word"
type_synonym u64 = "64 word"
type_synonym bytes = "u8 list"
type_synonym mem = "nat \<Rightarrow> u8"

named_theorems mem_simps \<open>reading and writing byte memory\<close>
named_theorems slice_simps \<open>slices of byte lists\<close>

subsection \<open>Byte memory\<close>

definition bytes_at :: "mem \<Rightarrow> nat \<Rightarrow> nat \<Rightarrow> bytes" where
  "bytes_at m a n = map (\<lambda>i. m (a + i)) [0..<n]"

definition poke :: "mem \<Rightarrow> nat \<Rightarrow> bytes \<Rightarrow> mem" where
  "poke m a bs = (\<lambda>x. if a \<le> x \<and> x < a + length bs then bs ! (x - a) else m x)"

definition cstr :: "mem \<Rightarrow> nat \<Rightarrow> bytes \<Rightarrow> bool" where
  "cstr m a s \<longleftrightarrow> bytes_at m a (length s) = s \<and> m (a + length s) = 0 \<and> 0 \<notin> set s"

lemma length_bytes_at [simp]: "length (bytes_at m a n) = n"
  by (simp add: bytes_at_def)

lemma nth_bytes_at [simp]: "i < n \<Longrightarrow> bytes_at m a n ! i = m (a + i)"
  by (simp add: bytes_at_def)

lemma bytes_at_0 [simp]: "bytes_at m a 0 = []"
  by (simp add: bytes_at_def)

lemma bytes_at_Suc [mem_simps]: "bytes_at m a (Suc n) = m a # bytes_at m (Suc a) n"
  by (rule nth_equalityI) (auto simp: nth_Cons split: nat.splits)

lemma bytes_at_add: "bytes_at m a (n + k) = bytes_at m a n @ bytes_at m (a + n) k"
  by (rule nth_equalityI) (auto simp: nth_append)

lemma bytes_at_cong:
  "(\<And>i. i < n \<Longrightarrow> m (a + i) = m' (a + i)) \<Longrightarrow> bytes_at m a n = bytes_at m' a n"
  by (simp add: bytes_at_def)

lemma poke_Nil [simp]: "poke m a [] = m"
  by (rule ext) (auto simp: poke_def)

lemma poke_outside [mem_simps]: "x < a \<or> a + length bs \<le> x \<Longrightarrow> poke m a bs x = m x"
  by (auto simp: poke_def)

lemma poke_inside [mem_simps]: "i < length bs \<Longrightarrow> poke m a bs (a + i) = bs ! i"
  by (simp add: poke_def)

lemma poke_Cons: "poke (m(a := c)) (Suc a) bs = poke m a (c # bs)"
proof
  fix x
  have "bs ! (x - Suc a) = (c # bs) ! (x - a)" if "a < x"
    using that by (simp add: nth_Cons')
  then show "poke (m(a := c)) (Suc a) bs x = poke m a (c # bs) x"
    by (auto simp: poke_def)
qed

lemma poke_snoc: "(poke m a bs)(a + length bs := c) = poke m a (bs @ [c])"
  by (auto simp: poke_def fun_eq_iff nth_append)

lemma poke_append: "poke (poke m a xs) (a + length xs) ys = poke m a (xs @ ys)"
  by (rule ext) (auto simp: poke_def nth_append diff_diff_left)

lemma bytes_at_poke [mem_simps]: "bytes_at (poke m a bs) a (length bs) = bs"
  by (rule nth_equalityI) (auto simp: mem_simps)

lemma bytes_at_poke_other:
  "a + n \<le> b \<or> b + length bs \<le> a \<Longrightarrow> bytes_at (poke m b bs) a n = bytes_at m a n"
  by (rule bytes_at_cong) (auto simp: poke_def)

subsection \<open>C strings in memory\<close>

lemma cstr_Nil [mem_simps]: "cstr m a [] \<longleftrightarrow> m a = 0"
  by (simp add: cstr_def)

lemma cstr_Cons [mem_simps]: "cstr m a (c # s) \<longleftrightarrow> m a = c \<and> c \<noteq> 0 \<and> cstr m (Suc a) s"
  by (auto simp: cstr_def mem_simps)

lemma cstr_append [mem_simps]:
  "cstr m a (s @ t) \<longleftrightarrow> bytes_at m a (length s) = s \<and> 0 \<notin> set s \<and> cstr m (a + length s) t"
  by (auto simp: cstr_def bytes_at_add add.assoc)

lemma cstr_cong:
  assumes "cstr m a s" and "\<And>i. i \<le> length s \<Longrightarrow> m' (a + i) = m (a + i)"
  shows "cstr m' a s"
proof -
  have "bytes_at m' a (length s) = bytes_at m a (length s)"
    by (rule bytes_at_cong) (simp add: assms(2))
  with assms show ?thesis by (simp add: cstr_def)
qed

lemma cstr_nth: "cstr m a s \<Longrightarrow> i < length s \<Longrightarrow> m (a + i) = s ! i"
  by (metis cstr_def nth_bytes_at)

lemma cstr_unique: "cstr m a s \<Longrightarrow> cstr m a t \<Longrightarrow> s = t"
proof (induction s arbitrary: a t)
  case Nil
  then show ?case by (cases t) (auto simp: mem_simps)
next
  case (Cons c s)
  then show ?case by (cases t) (auto simp: mem_simps)
qed

lemma cstr_poke [mem_simps]: "0 \<notin> set s \<Longrightarrow> cstr (poke m a (s @ [0])) a s"
proof -
  assume "0 \<notin> set s"
  moreover have "bytes_at (poke m a (s @ [0])) a (length s) = s"
    by (rule nth_equalityI) (auto simp: poke_def nth_append)
  moreover have "poke m a (s @ [0]) (a + length s) = 0"
    by (simp add: poke_def nth_append)
  ultimately show ?thesis by (simp add: cstr_def)
qed

subsection \<open>Little-endian fields\<close>

text \<open>The value of a byte string read as a little-endian integer, as a load of that width does.\<close>

fun le_word :: "bytes \<Rightarrow> 'a::len word" where
  "le_word [] = 0"
| "le_word (b # bs) = ucast b + 256 * le_word bs"

definition get_le16 :: "mem \<Rightarrow> nat \<Rightarrow> u16" where
  "get_le16 m a = le_word (bytes_at m a 2)"

definition get_le32 :: "mem \<Rightarrow> nat \<Rightarrow> u32" where
  "get_le32 m a = le_word (bytes_at m a 4)"

definition get_le64 :: "mem \<Rightarrow> nat \<Rightarrow> u64" where
  "get_le64 m a = le_word (bytes_at m a 8)"

text \<open>The bytes of a word as a store writes them.\<close>

definition le_encode :: "nat \<Rightarrow> 'a::len word \<Rightarrow> bytes" where
  "le_encode n w = map (\<lambda>i. ucast (drop_bit (8 * i) w)) [0..<n]"

lemma length_le_encode [simp]: "length (le_encode n w) = n"
  by (simp add: le_encode_def)

lemma le_word_bytes: "le_word (map (\<lambda>i. ucast (drop_bit (8 * i) w)) [k..<k + n]) = take_bit (8 * n) (drop_bit (8 * k) w)"
  for w :: "'a::len word"
proof (induction n arbitrary: k)
  case (Suc n)
  let ?b = "ucast (drop_bit (8 * k) w) :: u8" and ?r = "take_bit (8 * n) (drop_bit (8 * Suc k) w)"
  have "le_word (map (\<lambda>i. ucast (drop_bit (8 * i) w)) [k..<k + Suc n]) = ucast ?b + 256 * ?r"
    using Suc [of "Suc k"] upt_conv_Cons [of k "k + Suc n"] by (simp del: upt_Suc)
  also have "256 * ?r = push_bit 8 ?r" by (simp add: push_bit_eq_mult)
  also have "ucast ?b + push_bit 8 ?r = ucast ?b OR push_bit 8 ?r"
    by (rule disjunctive_add_eq_or) (auto simp: bit_eq_iff bit_simps)
  also have "\<dots> = take_bit (8 * Suc n) (drop_bit (8 * k) w)"
    by (rule bit_word_eqI) (auto simp: bit_simps)
  finally show ?case .
qed simp

lemma le_word_encode: "LENGTH('a) \<le> 8 * n \<Longrightarrow> le_word (le_encode n w) = (w :: 'a::len word)"
  using le_word_bytes [of w 0 n] by (simp add: le_encode_def take_bit_word_eq_self)

subsection \<open>Slices of byte lists\<close>

text \<open>The \<open>n\<close> bytes of an image from offset \<open>off\<close>; shorter at the end of the image.\<close>

definition slice :: "nat \<Rightarrow> nat \<Rightarrow> 'a list \<Rightarrow> 'a list" where
  "slice off n xs = take n (drop off xs)"

text \<open>A buffer after \<open>d\<close> has been written to its start.\<close>

definition overwrite :: "'a list \<Rightarrow> 'a list \<Rightarrow> 'a list" where
  "overwrite d buf = d @ drop (length d) buf"

lemma slice_0 [simp]: "slice off 0 xs = []"
  by (simp add: slice_def)

lemma length_slice [slice_simps]: "off + n \<le> length xs \<Longrightarrow> length (slice off n xs) = n"
  by (simp add: slice_def)

lemma slice_append [slice_simps]: "slice off n xs @ slice (off + n) k xs = slice off (n + k) xs"
  by (simp add: slice_def take_add) (simp add: add.commute)

lemma slice_slice [slice_simps]:
  "b + k \<le> n \<Longrightarrow> slice b k (slice off n xs) = slice (off + b) k xs"
  by (simp add: slice_def drop_take min_def add.commute)

lemma take_slice [slice_simps]: "k \<le> n \<Longrightarrow> take k (slice off n xs) = slice off k xs"
  by (simp add: slice_def min_def)

lemma slice_blocks: "slice off (n * b) xs = concat (map (\<lambda>i. slice (off + i * b) b xs) [0..<n])"
proof (induction n)
  case (Suc n)
  have "slice off (Suc n * b) xs = slice off (n * b) xs @ slice (off + n * b) b xs"
    by (simp add: slice_append add.commute)
  with Suc show ?case by simp
qed simp

lemma nth_slice: "i < n \<Longrightarrow> off + i < length xs \<Longrightarrow> slice off n xs ! i = xs ! (off + i)"
  by (simp add: slice_def)

lemma bytes_at_poke_slice: "a + n \<le> length bs \<Longrightarrow> bytes_at (poke f 0 bs) a n = slice a n bs"
  by (rule nth_equalityI) (auto simp: poke_def slice_def)

subsection \<open>Alignment of words\<close>

lemma unat_and_mask: "unat (w AND mask n) = unat w mod 2 ^ n"
  by (simp add: unsigned_take_bit_eq flip: take_bit_eq_mask) (simp add: take_bit_eq_mod)

lemma and_not_mask_eq_minus: "w AND NOT (mask n) = w - (w AND mask n)" for w :: "'a::len word"
proof -
  have "w - (w AND mask n) = w AND NOT (w AND mask n)"
    by (rule disjunctive_diff_eq_and_not) (auto simp: bit_eq_iff bit_simps)
  also have "\<dots> = w AND NOT (mask n)"
    by (auto simp: bit_eq_iff bit_simps)
  finally show ?thesis by simp
qed

lemma unat_and_not_mask: "unat (w AND NOT (mask n)) = unat w - unat w mod 2 ^ n" for w :: "'a::len word"
proof -
  have "w AND mask n \<le> w"
    by (simp add: word_le_nat_alt unat_and_mask)
  then show ?thesis
    by (simp add: and_not_mask_eq_minus unat_sub unat_and_mask)
qed

lemma unat_ucast_up:
  assumes "LENGTH('a) \<le> LENGTH('b)"
  shows "unat (ucast (w :: 'a::len word) :: 'b::len word) = unat w"
proof -
  have "unat w < 2 ^ LENGTH('a)" by (rule unsigned_less)
  also have "\<dots> \<le> 2 ^ LENGTH('b)" using assms by (simp add: power_increasing)
  finally show ?thesis by (simp add: unsigned_ucast_eq take_bit_nat_eq_self)
qed

lemma sint_word_of_int_pos: "0 \<le> x \<Longrightarrow> x < 2 ^ 31 \<Longrightarrow> sint (word_of_int x :: u32) = x"
  by (simp add: sint_sbintrunc' signed_take_bit_int_eq_self)

end
