(* ===== verification/CString.thy ===== *)
theory CString
  imports Prelude
begin

text \<open>
  The string library of the loader (\<^verbatim>\<open>src/lib/string.c\<close>).

  Every function works on byte memory through addresses, as the C code does; a pointer that may
  be NULL is a \<^typ>\<open>nat option\<close>.  A loop that stops only at a NUL byte is a
  \<^theory_text>\<open>partial_function (option)\<close>, so that running off an unterminated string is the value
  \<^const>\<open>None\<close>; a loop over a count is recursion on that count.  Plain \<open>char\<close> is signed on Alpha:
  the comparison functions subtract sign-extended bytes and store the difference in a
  \<open>signed char\<close>.

  The lemmas relate each routine to its meaning on the byte list that a C string denotes
  (\<^const>\<open>cstr\<close>).
\<close>

subsection \<open>Copying and appending\<close>

partial_function (option) strcpy_loop :: "nat \<Rightarrow> nat \<Rightarrow> mem \<Rightarrow> mem option" where
  "strcpy_loop dest src m =
     (let c = m src; m' = m(dest := c)
      in if c \<noteq> 0 then strcpy_loop (Suc dest) (Suc src) m' else Some m')"

definition strcpy :: "nat \<Rightarrow> nat \<Rightarrow> mem \<Rightarrow> (nat \<times> mem) option" where
  "strcpy dest src m = map_option (\<lambda>m'. (dest, m')) (strcpy_loop dest src m)"

primrec strncpy_loop :: "nat \<Rightarrow> nat \<Rightarrow> nat \<Rightarrow> mem \<Rightarrow> mem" where
  "strncpy_loop 0 dest src m = m"
| "strncpy_loop (Suc count) dest src m =
     (let c = m src; m' = m(dest := c)
      in if c \<noteq> 0 then strncpy_loop count (Suc dest) (Suc src) m' else m')"

definition strncpy :: "nat \<Rightarrow> nat \<Rightarrow> nat \<Rightarrow> mem \<Rightarrow> nat \<times> mem" where
  "strncpy dest src count m = (dest, strncpy_loop count dest src m)"

partial_function (option) find_nul :: "nat \<Rightarrow> mem \<Rightarrow> nat option" where
  "find_nul s m = (if m s \<noteq> 0 then find_nul (Suc s) m else Some s)"

definition strcat :: "nat \<Rightarrow> nat \<Rightarrow> mem \<Rightarrow> (nat \<times> mem) option" where
  "strcat dest src m =
     (case find_nul dest m of
        None \<Rightarrow> None
      | Some d \<Rightarrow> map_option (\<lambda>m'. (dest, m')) (strcpy_loop d src m))"

primrec strncat_loop :: "nat \<Rightarrow> nat \<Rightarrow> nat \<Rightarrow> mem \<Rightarrow> mem" where
  "strncat_loop 0 dest src m = m"
| "strncat_loop (Suc count) dest src m =
     (let c = m src; m' = m(dest := c)
      in if c \<noteq> 0 then strncat_loop count (Suc dest) (Suc src) m' else m')"

definition strncat :: "nat \<Rightarrow> nat \<Rightarrow> nat \<Rightarrow> mem \<Rightarrow> (nat \<times> mem) option" where
  "strncat dest src count m =
     (if count \<noteq> 0
      then map_option (\<lambda>d. (dest, strncat_loop count d src m)) (find_nul dest m)
      else Some (dest, m))"

subsection \<open>Comparing\<close>

text \<open>\<open>*cs - *ct\<close> on signed characters, stored in a \<open>signed char\<close>.\<close>

definition char_diff :: "u8 \<Rightarrow> u8 \<Rightarrow> int" where
  "char_diff a b = sint (word_of_int (sint a - sint b) :: u8)"

partial_function (option) strcmp :: "nat \<Rightarrow> nat \<Rightarrow> mem \<Rightarrow> int option" where
  "strcmp cs ct m =
     (let r = char_diff (m cs) (m ct)
      in if r \<noteq> 0 \<or> m cs = 0 then Some r else strcmp (Suc cs) (Suc ct) m)"

fun strncmp_loop :: "nat \<Rightarrow> int \<Rightarrow> nat \<Rightarrow> nat \<Rightarrow> mem \<Rightarrow> int" where
  "strncmp_loop 0 res cs ct m = res"
| "strncmp_loop (Suc count) res cs ct m =
     (let r = char_diff (m cs) (m ct)
      in if r \<noteq> 0 \<or> m cs = 0 then r else strncmp_loop count r (Suc cs) (Suc ct) m)"

definition strncmp :: "nat \<Rightarrow> nat \<Rightarrow> nat \<Rightarrow> mem \<Rightarrow> int" where
  "strncmp cs ct count m = strncmp_loop count 0 cs ct m"

fun memcmp_loop :: "nat \<Rightarrow> int \<Rightarrow> nat \<Rightarrow> nat \<Rightarrow> mem \<Rightarrow> int" where
  "memcmp_loop 0 res su1 su2 m = res"
| "memcmp_loop (Suc count) res su1 su2 m =
     (let r = sint (word_of_int (uint (m su1) - uint (m su2)) :: u8)
      in if r \<noteq> 0 then r else memcmp_loop count r (Suc su1) (Suc su2) m)"

definition memcmp :: "nat \<Rightarrow> nat \<Rightarrow> nat \<Rightarrow> mem \<Rightarrow> int" where
  "memcmp cs ct count m = memcmp_loop count 0 cs ct m"

subsection \<open>Searching and measuring\<close>

partial_function (option) strchr :: "nat \<Rightarrow> u8 \<Rightarrow> mem \<Rightarrow> nat option option" where
  "strchr s c m =
     (if m s \<noteq> c then (if m s = 0 then Some None else strchr (Suc s) c m)
      else Some (Some s))"

text \<open>\<open>while (*s++) if (*s == c) r = s;\<close>: the test reads the byte after the one the guard read.\<close>

partial_function (option) strrchr_loop ::
  "nat \<Rightarrow> u8 \<Rightarrow> nat option \<Rightarrow> mem \<Rightarrow> nat option option" where
  "strrchr_loop s c r m =
     (if m s \<noteq> 0
      then strrchr_loop (Suc s) c (if m (Suc s) = c then Some (Suc s) else r) m
      else Some r)"

definition strrchr :: "nat \<Rightarrow> u8 \<Rightarrow> mem \<Rightarrow> nat option option" where
  "strrchr s c m = strrchr_loop s c None m"

definition strlen :: "nat \<Rightarrow> mem \<Rightarrow> nat option" where
  "strlen s m = map_option (\<lambda>sc. sc - s) (find_nul s m)"

primrec strnlen_loop :: "nat \<Rightarrow> nat \<Rightarrow> mem \<Rightarrow> nat" where
  "strnlen_loop 0 sc m = sc"
| "strnlen_loop (Suc count) sc m = (if m sc \<noteq> 0 then strnlen_loop count (Suc sc) m else sc)"

definition strnlen :: "nat \<Rightarrow> nat \<Rightarrow> mem \<Rightarrow> nat" where
  "strnlen s count m = strnlen_loop count s m - s"

text \<open>The inner loop of \<open>strspn\<close> and \<open>strpbrk\<close>: is the character in the NUL-terminated set?\<close>

partial_function (option) in_cset :: "u8 \<Rightarrow> nat \<Rightarrow> mem \<Rightarrow> bool option" where
  "in_cset c a m =
     (if m a \<noteq> 0 then (if c = m a then Some True else in_cset c (Suc a) m) else Some False)"

partial_function (option) strspn_loop :: "nat \<Rightarrow> nat \<Rightarrow> nat \<Rightarrow> mem \<Rightarrow> nat option" where
  "strspn_loop p accept count m =
     (if m p \<noteq> 0
      then Option.bind (in_cset (m p) accept m)
             (\<lambda>found. if found then strspn_loop (Suc p) accept (Suc count) m else Some count)
      else Some count)"

definition strspn :: "nat \<Rightarrow> nat \<Rightarrow> mem \<Rightarrow> nat option" where
  "strspn s accept m = strspn_loop s accept 0 m"

partial_function (option) strpbrk :: "nat \<Rightarrow> nat \<Rightarrow> mem \<Rightarrow> nat option option" where
  "strpbrk cs ct m =
     (if m cs \<noteq> 0
      then Option.bind (in_cset (m cs) ct m)
             (\<lambda>found. if found then Some (Some cs) else strpbrk (Suc cs) ct m)
      else Some None)"

text \<open>
  \<open>strtok\<close> keeps its place in the static \<open>___strtok\<close>, threaded here as \<open>saved\<close>.  The result is
  the token pointer, the new saved pointer and the memory in which the delimiter was overwritten.
\<close>

definition strtok ::
  "nat option \<Rightarrow> nat \<Rightarrow> nat option \<Rightarrow> mem \<Rightarrow> (nat option \<times> nat option \<times> mem) option" where
  "strtok s ct saved m =
     (case (case s of Some p \<Rightarrow> Some p | None \<Rightarrow> saved) of
        None \<Rightarrow> Some (None, saved, m)
      | Some sbegin0 \<Rightarrow>
          Option.bind (strspn sbegin0 ct m) (\<lambda>n.
            let sbegin = sbegin0 + n
            in if m sbegin = 0 then Some (None, None, m)
               else Option.bind (strpbrk sbegin ct m) (\<lambda>send.
                 case send of
                   Some e \<Rightarrow> if m e \<noteq> 0 then Some (Some sbegin, Some (Suc e), m(e := 0))
                             else Some (Some sbegin, Some e, m)
                 | None \<Rightarrow> Some (Some sbegin, None, m))))"

subsection \<open>Block operations\<close>

primrec memset_loop :: "nat \<Rightarrow> nat \<Rightarrow> u8 \<Rightarrow> mem \<Rightarrow> mem" where
  "memset_loop 0 xs c m = m"
| "memset_loop (Suc count) xs c m = memset_loop count (Suc xs) c (m(xs := c))"

definition memset :: "nat \<Rightarrow> u8 \<Rightarrow> nat \<Rightarrow> mem \<Rightarrow> mem" where
  "memset s c count m = memset_loop count s c m"

primrec memcpy_loop :: "nat \<Rightarrow> nat \<Rightarrow> nat \<Rightarrow> mem \<Rightarrow> mem" where
  "memcpy_loop 0 tmp s m = m"
| "memcpy_loop (Suc count) tmp s m = memcpy_loop count (Suc tmp) (Suc s) (m(tmp := m s))"

definition memcpy :: "nat \<Rightarrow> nat \<Rightarrow> nat \<Rightarrow> mem \<Rightarrow> mem" where
  "memcpy dest src count m = memcpy_loop count dest src m"

text \<open>The descending loop of \<open>memmove\<close>: \<open>*--tmp = *--s\<close> from the ends of both blocks.\<close>

primrec memmove_down :: "nat \<Rightarrow> nat \<Rightarrow> nat \<Rightarrow> mem \<Rightarrow> mem" where
  "memmove_down 0 dest src m = m"
| "memmove_down (Suc count) dest src m =
     memmove_down count dest src (m(dest + count := m (src + count)))"

definition memmove :: "nat \<Rightarrow> nat \<Rightarrow> nat \<Rightarrow> mem \<Rightarrow> mem" where
  "memmove dest src count m =
     (if dest \<le> src then memcpy_loop count dest src m else memmove_down count dest src m)"

subsection \<open>Copying: what the loops compute\<close>

lemma strcpy_loop_cstr:
  assumes "cstr m src s" and "dest \<le> src \<or> src + length s < dest"
  shows "strcpy_loop dest src m = Some (poke m dest (s @ [0]))"
  using assms
proof (induction s arbitrary: dest src m)
  case Nil
  then show ?case
    using poke_Cons [of m dest 0 "[]"] by (simp add: strcpy_loop.simps mem_simps)
next
  case (Cons c s)
  let ?m' = "m(dest := c)"
  from Cons.prems have c: "m src = c" "c \<noteq> 0" and s: "cstr m (Suc src) s"
    by (simp_all add: mem_simps)
  have "cstr ?m' (Suc src) s"
    using s by (rule cstr_cong) (use Cons.prems(2) in auto)
  then have "strcpy_loop (Suc dest) (Suc src) ?m' = Some (poke ?m' (Suc dest) (s @ [0]))"
    by (rule Cons.IH) (use Cons.prems(2) in auto)
  with c show ?case
    by (simp add: strcpy_loop.simps [of dest src m] poke_Cons)
qed

lemma find_nul_cstr: "cstr m a s \<Longrightarrow> find_nul a m = Some (a + length s)"
proof (induction s arbitrary: a)
  case Nil
  then show ?case by (simp add: find_nul.simps mem_simps)
next
  case (Cons c s)
  then show ?case by (simp add: find_nul.simps [of a m] mem_simps)
qed

lemma strlen_cstr [simp]: "cstr m a s \<Longrightarrow> strlen a m = Some (length s)"
  by (simp add: strlen_def find_nul_cstr)

lemma strncpy_loop_cstr:
  assumes "cstr m src s" and "dest \<le> src \<or> src + length s < dest"
  shows "strncpy_loop count dest src m = poke m dest (take count (s @ [0]))"
  using assms
proof (induction count arbitrary: dest src m s)
  case 0
  then show ?case by simp
next
  case (Suc count)
  show ?case
  proof (cases s)
    case Nil
    with Suc.prems show ?thesis
      using poke_Cons [of m dest 0 "[]"] by (simp add: mem_simps)
  next
    case (Cons c t)
    let ?m' = "m(dest := c)"
    from Suc.prems Cons have c: "m src = c" "c \<noteq> 0" and t: "cstr m (Suc src) t"
      by (simp_all add: mem_simps)
    have "cstr ?m' (Suc src) t"
      using t by (rule cstr_cong) (use Suc.prems(2) Cons in auto)
    then have "strncpy_loop count (Suc dest) (Suc src) ?m' = poke ?m' (Suc dest) (take count (t @ [0]))"
      by (rule Suc.IH) (use Suc.prems(2) Cons in auto)
    with c Cons show ?thesis by (simp add: poke_Cons)
  qed
qed

text \<open>\<open>strncat\<close> runs the loop of \<open>strncpy\<close> from the end of the destination.\<close>

lemma strncat_loop_eq: "strncat_loop count dest src m = strncpy_loop count dest src m"
  by (induction count arbitrary: dest src m) (simp_all add: Let_def)

lemma memset_loop_eq: "memset_loop count a c m = poke m a (replicate count c)"
  by (induction count arbitrary: a m) (simp_all add: poke_Cons)

lemma memcpy_loop_eq:
  assumes "dest \<le> src \<or> src + count \<le> dest"
  shows "memcpy_loop count dest src m = poke m dest (bytes_at m src count)"
  using assms
proof (induction count arbitrary: dest src m)
  case 0
  then show ?case by simp
next
  case (Suc count)
  let ?m' = "m(dest := m src)"
  have "memcpy_loop count (Suc dest) (Suc src) ?m' = poke ?m' (Suc dest) (bytes_at ?m' (Suc src) count)"
    by (rule Suc.IH) (use Suc.prems in auto)
  moreover have "bytes_at ?m' (Suc src) count = bytes_at m (Suc src) count"
    by (rule bytes_at_cong) (use Suc.prems in auto)
  ultimately show ?case by (simp add: poke_Cons mem_simps)
qed

lemma memmove_down_eq:
  assumes "src \<le> dest"
  shows "memmove_down count dest src m = poke m dest (bytes_at m src count)"
  using assms
proof (induction count arbitrary: m)
  case 0
  then show ?case by simp
next
  case (Suc count)
  let ?m' = "m(dest + count := m (src + count))"
  have "memmove_down count dest src ?m' = poke ?m' dest (bytes_at ?m' src count)"
    using Suc.prems by (rule Suc.IH)
  also have "bytes_at ?m' src count = bytes_at m src count"
    by (rule bytes_at_cong) (use Suc.prems in auto)
  also have "poke ?m' dest (bytes_at m src count)
      = (poke m dest (bytes_at m src count))(dest + length (bytes_at m src count) := m (src + count))"
    by (auto simp: poke_def fun_eq_iff)
  also have "\<dots> = poke m dest (bytes_at m src count @ [m (src + count)])"
    by (rule poke_snoc)
  also have "bytes_at m src count @ [m (src + count)] = bytes_at m src (Suc count)"
    by (simp add: bytes_at_def)
  finally show ?case by (simp only: memmove_down.simps)
qed

subsection \<open>Searching: what the loops compute\<close>

lemma char_diff_0 [simp]: "char_diff a b = 0 \<longleftrightarrow> a = b"
proof
  assume "char_diff a b = 0"
  then have "(word_of_int (sint a - sint b) :: u8) = 0"
    unfolding char_diff_def by (metis signed_0 signed_word_eqI)
  then have "(word_of_int (sint a) :: u8) = word_of_int (sint b)"
    by simp
  then show "a = b" by simp
qed (simp add: char_diff_def)

lemma char_diff_self [simp]: "char_diff a a = 0"
  by simp

lemma strncmp_loop_0:
  assumes "0 \<notin> set (bytes_at m ct count)"
  shows "strncmp_loop count 0 cs ct m = 0 \<longleftrightarrow> bytes_at m cs count = bytes_at m ct count"
  using assms
proof (induction count arbitrary: cs ct)
  case 0
  then show ?case by simp
next
  case (Suc count)
  then show ?case by (cases "m cs = m ct") (auto simp: mem_simps Let_def simp del: char_diff_0 simp: char_diff_0 [of "m cs" "m ct"])
qed

lemma strcmp_cstr:
  assumes "cstr m a s" and "cstr m b t"
  shows "\<exists>r. strcmp a b m = Some r \<and> (r = 0 \<longleftrightarrow> s = t)"
  using assms
proof (induction s arbitrary: a b t)
  case Nil
  then show ?case
    by (cases t) (auto simp: strcmp.simps [of a b m] mem_simps Let_def)
next
  case (Cons c s)
  show ?case
  proof (cases t)
    case Nil
    with Cons.prems show ?thesis
      by (auto simp: strcmp.simps [of a b m] mem_simps Let_def)
  next
    case (Cons d u)
    with Cons.IH [of "Suc a" "Suc b" u] Cons.prems show ?thesis
      by (auto simp: strcmp.simps [of a b m] mem_simps Let_def)
  qed
qed

lemma memcmp_loop_0: "memcmp_loop count 0 a b m = 0 \<longleftrightarrow> bytes_at m a count = bytes_at m b count"
proof (induction count arbitrary: a b)
  case 0
  then show ?case by simp
next
  case (Suc count)
  have "sint (word_of_int (uint (m a) - uint (m b)) :: u8) = 0 \<longleftrightarrow> m a = m b"
  proof
    assume "sint (word_of_int (uint (m a) - uint (m b)) :: u8) = 0"
    then have "(word_of_int (uint (m a) - uint (m b)) :: u8) = 0"
      by (metis signed_0 signed_word_eqI)
    then show "m a = m b" by simp
  qed simp
  with Suc.IH show ?case by (auto simp: mem_simps Let_def)
qed

lemma strchr_cstr:
  assumes "cstr m a s" and "c \<noteq> 0"
  shows "strchr a c m =
    Some (if c \<in> set s then Some (a + length (takeWhile (\<lambda>x. x \<noteq> c) s)) else None)"
  using assms
proof (induction s arbitrary: a)
  case Nil
  then show ?case by (simp add: strchr.simps [of a c m] mem_simps)
next
  case (Cons x s)
  then show ?case by (auto simp: strchr.simps [of a c m] mem_simps)
qed

lemma in_cset_cstr: "cstr m ct d \<Longrightarrow> in_cset c ct m = Some (c \<in> set d)"
proof (induction d arbitrary: ct)
  case Nil
  then show ?case by (simp add: in_cset.simps [of c ct m] mem_simps)
next
  case (Cons x d)
  then show ?case by (auto simp: in_cset.simps [of c ct m] mem_simps)
qed

lemma strspn_loop_cstr:
  assumes "cstr m a s" and "cstr m ct d"
  shows "strspn_loop a ct n m = Some (n + length (takeWhile (\<lambda>x. x \<in> set d) s))"
  using assms
proof (induction s arbitrary: a n)
  case Nil
  then show ?case by (simp add: strspn_loop.simps [of a ct n m] mem_simps)
next
  case (Cons x s)
  then show ?case by (auto simp: strspn_loop.simps [of a ct n m] in_cset_cstr mem_simps)
qed

lemma strspn_cstr:
  "cstr m a s \<Longrightarrow> cstr m ct d \<Longrightarrow> strspn a ct m = Some (length (takeWhile (\<lambda>x. x \<in> set d) s))"
  by (simp add: strspn_def strspn_loop_cstr)

lemma strpbrk_cstr:
  assumes "cstr m a s" and "cstr m ct d"
  shows "strpbrk a ct m =
    Some (if set s \<inter> set d = {} then None else Some (a + length (takeWhile (\<lambda>x. x \<notin> set d) s)))"
  using assms
proof (induction s arbitrary: a)
  case Nil
  then show ?case by (simp add: strpbrk.simps [of a ct m] mem_simps)
next
  case (Cons x s)
  then show ?case by (auto simp: strpbrk.simps [of a ct m] in_cset_cstr mem_simps)
qed


text \<open>Position of the last occurrence of a character that occurs in the string.\<close>

definition last_pos :: "u8 \<Rightarrow> bytes \<Rightarrow> nat" where
  "last_pos c s = length s - Suc (length (takeWhile (\<lambda>x. x \<noteq> c) (rev s)))"

lemma last_pos_Cons: "c \<in> set s \<Longrightarrow> last_pos c (x # s) = Suc (last_pos c s)"
proof -
  assume "c \<in> set s"
  then have "length (takeWhile (\<lambda>x. x \<noteq> c) (rev s)) < length (rev s)"
    by (metis (mono_tags, lifting) length_takeWhile_le nat_less_le set_rev takeWhile_eq_all_conv
        takeWhile_eq_take take_all)
  with \<open>c \<in> set s\<close> show ?thesis
    by (auto simp: last_pos_def takeWhile_append Suc_diff_Suc)
qed

lemma last_pos_hit: "c \<notin> set s \<Longrightarrow> last_pos c (c # s) = 0"
  by (simp add: last_pos_def takeWhile_append)

lemma strrchr_loop_cstr:
  assumes "cstr m a s" and "c \<noteq> 0"
  shows "strrchr_loop a c r m = Some (if c \<in> set (tl s) then Some (a + last_pos c s) else r)"
  using assms
proof (induction s arbitrary: a r)
  case Nil
  then show ?case by (simp add: strrchr_loop.simps [of a c r m] mem_simps)
next
  case (Cons x s)
  let ?r = "if m (Suc a) = c then Some (Suc a) else r"
  from Cons have step: "strrchr_loop a c r m
      = Some (if c \<in> set (tl s) then Some (Suc a + last_pos c s) else ?r)"
    by (subst strrchr_loop.simps) (simp add: mem_simps)
  show ?case
  proof (cases s)
    case Nil
    with step Cons.prems show ?thesis by (simp add: mem_simps)
  next
    case (Cons y u)
    with Cons.prems have "m (Suc a) = y" by (simp add: mem_simps)
    with step Cons show ?thesis
      by (auto simp: last_pos_Cons last_pos_hit)
  qed
qed

subsection \<open>Tokens\<close>

text \<open>
  The tokens of a string: the maximal runs of characters outside the delimiter set.  A loop
  \<open>strtok(s, d)\<close>, \<open>strtok(NULL, d)\<close>, \<dots> visits exactly these (\<open>strtok_visits_tokens\<close> below).
\<close>

function tokens :: "'a set \<Rightarrow> 'a list \<Rightarrow> 'a list list" where
  "tokens d s =
     (let t = dropWhile (\<lambda>x. x \<in> d) s
      in if t = [] then []
         else takeWhile (\<lambda>x. x \<notin> d) t # tokens d (tl (dropWhile (\<lambda>x. x \<notin> d) t)))"
  by pat_completeness auto
termination
proof (relation "measure (\<lambda>(d, s). length s)", goal_cases)
  case (2 d s t)
  then have "length (tl (dropWhile (\<lambda>x. x \<notin> d) t)) < length t"
    using length_dropWhile_le [of "\<lambda>x. x \<notin> d" t]
    by (cases "dropWhile (\<lambda>x. x \<notin> d) t") (auto simp del: dropWhile_eq_Nil_conv)
  also have "length t \<le> length s"
    using 2 by (simp add: length_dropWhile_le)
  finally show ?case by simp
qed simp

declare tokens.simps [simp del]

lemma tokens_none: "dropWhile (\<lambda>x. x \<in> d) s = [] \<Longrightarrow> tokens d s = []"
  by (subst tokens.simps) simp

lemma tokens_some:
  assumes "dropWhile (\<lambda>x. x \<in> d) s = t" and "t \<noteq> []"
  shows "tokens d s = takeWhile (\<lambda>x. x \<notin> d) t # tokens d (tl (dropWhile (\<lambda>x. x \<notin> d) t))"
  using assms by (subst tokens.simps) (simp add: Let_def)

lemma tokens_nonempty: "t \<in> set (tokens d s) \<Longrightarrow> t \<noteq> [] \<and> set t \<inter> d = {} \<and> set t \<subseteq> set s"
proof (induction d s rule: tokens.induct)
  case (1 d s)
  let ?t = "dropWhile (\<lambda>x. x \<in> d) s"
  have sub: "set ?t \<subseteq> set s" by (auto dest: set_dropWhileD)
  have sub2: "set (tl (dropWhile (\<lambda>x. x \<notin> d) ?t)) \<subseteq> set s"
    using sub by (metis (no_types, lifting) list.set_sel(2) set_dropWhileD subset_iff tl_Nil)
  show ?case
  proof (cases "?t = []")
    case True
    with "1.prems" show ?thesis by (simp add: tokens_none)
  next
    case False
    then have hd: "hd ?t \<notin> d" by (rule hd_dropWhile)
    from "1.prems" False consider
        "t = takeWhile (\<lambda>x. x \<notin> d) ?t" | "t \<in> set (tokens d (tl (dropWhile (\<lambda>x. x \<notin> d) ?t)))"
      by (auto simp: tokens_some [OF refl False])
    then show ?thesis
    proof cases
      case 1
      with False hd sub show ?thesis
        by (cases ?t) (auto dest: set_takeWhileD)
    next
      case 2
      with "1.IH" [OF refl False] sub2 show ?thesis by blast
    qed
  qed
qed

text \<open>One call: where the token is, and what is left for the next call.\<close>

lemma strtok_cases:
  fixes d s :: bytes
  assumes str: "cstr m p s" and delim: "cstr m ct d"
  defines "t \<equiv> dropWhile (\<lambda>x. x \<in> set d) s"
  defines "u \<equiv> takeWhile (\<lambda>x. x \<notin> set d) t" and "v \<equiv> dropWhile (\<lambda>x. x \<notin> set d) t"
  defines "q \<equiv> p + length (takeWhile (\<lambda>x. x \<in> set d) s)"
  shows "strtok (Some p) ct saved m =
    Some (if t = [] then (None, None, m)
          else if v = [] then (Some q, None, m)
          else (Some q, Some (Suc (q + length u)), m(q + length u := 0)))"
    and "cstr m q t" and "t = u @ v" and "q + length t = p + length s"
proof -
  have s: "s = takeWhile (\<lambda>x. x \<in> set d) s @ t" by (simp add: t_def)
  show q: "cstr m q t" using str by (subst (asm) s) (simp add: mem_simps q_def)
  show len: "q + length t = p + length s" by (subst s) (simp add: q_def)
  show t: "t = u @ v" by (simp add: u_def v_def)
  have z: "m q = 0 \<longleftrightarrow> t = []" using q by (cases t) (auto simp: mem_simps)
  have b: "strpbrk q ct m = Some (if v = [] then None else Some (q + length u))"
    using strpbrk_cstr [OF q delim] by (auto simp: v_def u_def)
  have e: "m (q + length u) \<noteq> 0" if "v \<noteq> []"
    using q t that by (cases v) (auto simp: mem_simps)
  show "strtok (Some p) ct saved m =
    Some (if t = [] then (None, None, m)
          else if v = [] then (Some q, None, m)
          else (Some q, Some (Suc (q + length u)), m(q + length u := 0)))"
    using strspn_cstr [OF str delim] b e
    by (simp add: strtok_def z [unfolded q_def] q_def [symmetric] z)
qed

text \<open>The loop that callers of \<open>strtok\<close> run: collect the token pointers until NULL.\<close>

partial_function (option) strtok_all ::
  "nat option \<Rightarrow> nat \<Rightarrow> nat option \<Rightarrow> mem \<Rightarrow> nat list \<Rightarrow> (nat list \<times> mem) option" where
  "strtok_all s ct saved m acc =
     Option.bind (strtok s ct saved m) (\<lambda>(tok, saved', m').
       case tok of
         None \<Rightarrow> Some (acc, m')
       | Some q \<Rightarrow> strtok_all None ct saved' m' (acc @ [q]))"

lemma strtok_saved: "strtok None ct (Some p) m = strtok (Some p) ct None m"
  by (simp add: strtok_def)

lemma strtok_all_end:
  "strtok s ct saved m = Some (None, saved', m') \<Longrightarrow> strtok_all s ct saved m acc = Some (acc, m')"
  by (subst strtok_all.simps) simp

lemma strtok_all_next:
  "strtok s ct saved m = Some (Some q, saved', m') \<Longrightarrow>
     strtok_all s ct saved m acc = strtok_all None ct saved' m' (acc @ [q])"
  by (subst strtok_all.simps) simp

lemma strtok_all_saved: "strtok_all None ct (Some p) m acc = strtok_all (Some p) ct None m acc"
  by (subst (1 2) strtok_all.simps) (simp only: strtok_saved)

lemma strtok_all_NULL: "strtok_all None ct None m acc = Some (acc, m)"
  by (rule strtok_all_end) (simp add: strtok_def)

lemma strtok_all_cstr:
  assumes "cstr m p s" and "cstr m ct d" and "ct + length d < p \<or> p + length s < ct"
  shows "\<exists>qs m'. strtok_all (Some p) ct saved m acc = Some (acc @ qs, m')
           \<and> list_all2 (cstr m') qs (tokens (set d) s)
           \<and> (\<forall>x. x < p \<or> p + length s \<le> x \<longrightarrow> m' x = m x)"
  using assms
proof (induction "length s" arbitrary: p s m saved acc rule: less_induct)
  case less
  define t where "t = dropWhile (\<lambda>x. x \<in> set d) s"
  define u where "u = takeWhile (\<lambda>x. x \<notin> set d) t"
  define v where "v = dropWhile (\<lambda>x. x \<notin> set d) t"
  define q where "q = p + length (takeWhile (\<lambda>x. x \<in> set d) s)"
  note tok = strtok_cases [OF less.prems(1,2), folded t_def, folded u_def v_def q_def]
  have q: "cstr m q (u @ v)" and len: "q + length u + length v = p + length s" and le: "p \<le> q"
    using tok(2-4) by (simp_all add: q_def)
  have toks: "tokens (set d) s = (if t = [] then [] else u # tokens (set d) (tl v))"
    by (simp add: tokens_none tokens_some u_def v_def flip: t_def)
  consider "t = []" | "t \<noteq> []" "v = []" | "t \<noteq> []" "v \<noteq> []" by blast
  then show ?case
  proof cases
    case 1
    with tok(1) [of saved] toks show ?thesis by (simp add: strtok_all_end)
  next
    case 2
    with tok(1) [of saved] have "strtok_all (Some p) ct saved m acc = Some (acc @ [q], m)"
      by (simp add: strtok_all_next strtok_all_NULL)
    with toks q 2 show ?thesis by (auto simp: tokens_none)
  next
    case 3
    let ?e = "q + length u" and ?m = "m(q + length u := 0)"
    from 3 obtain y w where v: "v = y # w" by (cases v) auto
    have "bytes_at ?m q (length u) = bytes_at m q (length u)"
      by (rule bytes_at_cong) simp
    with q have u: "cstr ?m q u" by (simp add: mem_simps) (simp add: cstr_def)
    have e: "cstr m (Suc ?e) w" using q v by (simp add: mem_simps)
    have e: "cstr ?m (Suc ?e) w" using e by (rule cstr_cong) auto
    have ct: "cstr ?m ct d"
      using less.prems(2) by (rule cstr_cong) (use less.prems(3) len v le in auto)
    have "\<exists>qs m'. strtok_all (Some (Suc ?e)) ct None ?m (acc @ [q]) = Some ((acc @ [q]) @ qs, m')
        \<and> list_all2 (cstr m') qs (tokens (set d) w)
        \<and> (\<forall>x. x < Suc ?e \<or> Suc ?e + length w \<le> x \<longrightarrow> m' x = ?m x)"
      by (rule less.hyps [OF _ e ct]) (use less.prems(3) len v le in auto)
    then obtain qs m' where IH: "strtok_all (Some (Suc ?e)) ct None ?m (acc @ [q])
          = Some ((acc @ [q]) @ qs, m')" "list_all2 (cstr m') qs (tokens (set d) w)"
        "\<And>x. x < Suc ?e \<or> Suc ?e + length w \<le> x \<Longrightarrow> m' x = ?m x"
      by blast
    have "strtok_all (Some p) ct saved m acc = Some (acc @ q # qs, m')"
      using tok(1) [of saved] 3 IH(1) by (simp add: strtok_all_next strtok_all_saved)
    moreover have "cstr m' q u" using u by (rule cstr_cong) (use IH(3) in auto)
    moreover have "m' x = m x" if "x < p \<or> p + length s \<le> x" for x
      using IH(3) [of x] that len v le by auto
    ultimately show ?thesis using IH(2) toks 3 v by auto
  qed
qed

subsection \<open>Properties\<close>

text \<open>
  \<open>strcpy\<close> copies a C string together with its NUL byte, changes nothing else, and does so
  even when the regions overlap, provided the destination starts at or below the source.  The
  loader depends on the overlapping case: it shifts \<open>buf\<close>, \<open>kernel_args\<close> and \<open>boot_file\<close> left in
  place with \<open>strcpy\<close>.
\<close>

theorem strcpy_correct:
  assumes "cstr m src s" and "dest \<le> src \<or> src + length s < dest"
  shows "strcpy dest src m = Some (dest, poke m dest (s @ [0]))"
  using strcpy_loop_cstr [OF assms] by (simp add: strcpy_def)

theorem strcpy_correct_witness:
  "strcpy 10 12 (poke (\<lambda>_. 7) 10 [1, 2, 3, 4, 0])
     = Some (10, poke (poke (\<lambda>_. 7) 10 [1, 2, 3, 4, 0]) 10 ([3, 4] @ [0]))"
  by (rule strcpy_correct) (simp_all add: cstr_def bytes_at_def poke_def upt_rec)

text \<open>
  Calling \<open>strtok\<close> first on a string and then on NULL until it returns NULL visits exactly the
  maximal delimiter-free runs of the string, in order, each one NUL-terminated in the final
  memory; memory outside the string is untouched and the loop ends.  This is how the file systems
  split a path into components.
\<close>

theorem strtok_visits_tokens:
  assumes "cstr m p s" and "cstr m ct d" and "ct + length d < p \<or> p + length s < ct"
  shows "\<exists>qs m'. strtok_all (Some p) ct saved m [] = Some (qs, m')
           \<and> list_all2 (cstr m') qs (tokens (set d) s)
           \<and> (\<forall>x. x < p \<or> p + length s \<le> x \<longrightarrow> m' x = m x)"
  using strtok_all_cstr [OF assms, of saved "[]"] by simp

theorem strtok_visits_tokens_witness:
  "\<exists>qs m'. strtok_all (Some 4) 0 None (poke (\<lambda>_. 0) 0 [47, 0, 0, 0, 47, 98, 47, 47, 99, 0]) [] = Some (qs, m')
     \<and> list_all2 (cstr m') qs [[98], [99]]
     \<and> (\<forall>x. x < 4 \<or> 9 \<le> x \<longrightarrow> m' x = poke (\<lambda>_. 0) 0 [47, 0, 0, 0, 47, 98, 47, 47, 99, 0] x)"
proof -
  let ?m = "poke (\<lambda>_. 0) 0 [47, 0, 0, 0, 47, 98, 47, 47, 99, 0] :: mem"
  have "cstr ?m 4 [47, 98, 47, 47, 99]" "cstr ?m 0 [47]"
    by (simp_all add: cstr_def bytes_at_def poke_def upt_rec)
  moreover have "tokens {47} [47, 98, 47, 47, 99 :: u8] = [[98], [99]]"
    by (simp add: tokens.simps)
  ultimately show ?thesis
    using strtok_visits_tokens [of ?m 4 "[47, 98, 47, 47, 99]" 0 "[47]" None] by simp
qed

end
