(* ===== verification/Vsprintf.thy ===== *)
theory Vsprintf
  imports Prelude "HOL-Library.Char_ord"
begin

text \<open>
  Number parsing and formatted output (\<^verbatim>\<open>src/lib/vsprintf.c\<close>).

  Format and result are C strings without their NUL; reading \<open>*fmt\<close> at the end gives NUL, which is
  the empty list here.  The variable argument list is a list of tagged values
  (\<open>varg\<close>); taking an argument of the wrong kind is undefined behaviour in C and the error value
  \<^const>\<open>None\<close> here.  The \<open>flags\<close> bit set is a record of booleans, widths are unbounded integers
  (the sums stay far below \<open>INT_MAX\<close> for every format in the loader), and the number itself is a
  64-bit word, so negation and unsigned division wrap as they do in C.
\<close>

subsection \<open>Characters\<close>

definition is_digit :: "char \<Rightarrow> bool" where
  "is_digit c \<longleftrightarrow> CHR ''0'' \<le> c \<and> c \<le> CHR ''9''"

definition is_xdigit :: "char \<Rightarrow> bool" where
  "is_xdigit c \<longleftrightarrow> is_digit c \<or> (CHR ''A'' \<le> c \<and> c \<le> CHR ''F'') \<or> (CHR ''a'' \<le> c \<and> c \<le> CHR ''f'')"

definition is_lower :: "char \<Rightarrow> bool" where
  "is_lower c \<longleftrightarrow> CHR ''a'' \<le> c \<and> c \<le> CHR ''z''"

text \<open>The macro adds the distance between the cases instead of subtracting it.\<close>

definition to_upper :: "int \<Rightarrow> int" where
  "to_upper c = c + 97 - 65"

definition xvalue :: "char \<Rightarrow> int" where
  "xvalue c =
     (if is_digit c then of_char c - 48
      else (if is_lower c then to_upper (of_char c) else of_char c) - 65 + 10)"

subsection \<open>Parsing numbers\<close>

fun strtoul_loop :: "u64 \<Rightarrow> nat \<Rightarrow> string \<Rightarrow> u64 \<times> string" where
  "strtoul_loop result base [] = (result, [])"
| "strtoul_loop result base (c # cs) =
     (if is_xdigit c \<and> xvalue c < int base
      then strtoul_loop (result * of_nat base + word_of_int (xvalue c)) base cs
      else (result, c # cs))"

definition simple_strtoul :: "string \<Rightarrow> nat \<Rightarrow> u64 \<times> string" where
  "simple_strtoul cp base =
     (if base = 0
      then (case cp of
              c # cp' \<Rightarrow>
                if c = CHR ''0''
                then (case cp' of
                        x # y # cp'' \<Rightarrow>
                          if x = CHR ''x'' \<and> is_xdigit y then strtoul_loop 0 16 (y # cp'')
                          else strtoul_loop 0 8 cp'
                      | _ \<Rightarrow> strtoul_loop 0 8 cp')
                else strtoul_loop 0 10 cp
            | [] \<Rightarrow> strtoul_loop 0 10 cp)
      else strtoul_loop 0 base cp)"

fun skip_atoi :: "int \<Rightarrow> string \<Rightarrow> int \<times> string" where
  "skip_atoi i [] = (i, [])"
| "skip_atoi i (c # cs) =
     (if is_digit c then skip_atoi (i * 10 + of_char c - 48) cs else (i, c # cs))"

subsection \<open>Formatting one number\<close>

record fmt_flags =
  ZEROPAD :: bool
  SIGN :: bool
  PLUS :: bool
  SPACE :: bool
  LEFT :: bool
  SPECIAL :: bool
  LARGE :: bool

definition no_flags :: fmt_flags where
  "no_flags = \<lparr>ZEROPAD = False, SIGN = False, PLUS = False, SPACE = False,
               LEFT = False, SPECIAL = False, LARGE = False\<rparr>"

definition digits_lower :: string where
  "digits_lower = ''0123456789abcdefghijklmnopqrstuvwxyz''"

definition digits_upper :: string where
  "digits_upper = ''0123456789ABCDEFGHIJKLMNOPQRSTUVWXYZ''"

text \<open>\<open>while (num != 0) tmp[i++] = digits[do_div(num,base)]\<close>, least significant digit first.\<close>

function number_digits :: "string \<Rightarrow> nat \<Rightarrow> nat \<Rightarrow> string" where
  "number_digits digits base n =
     (if n = 0 \<or> base < 2 then []
      else digits ! (n mod base) # number_digits digits base (n div base))"
  by pat_completeness auto
termination
  by (relation "measure (\<lambda>(_, _, n). n)") auto

declare number_digits.simps [simp del]

text \<open>\<open>while (size-- > 0) *str++ = c\<close>: what is written and the value of \<open>size\<close> afterwards.\<close>

definition pad_loop :: "int \<Rightarrow> char \<Rightarrow> string \<times> int" where
  "pad_loop sz c = (replicate (nat sz) c, min sz 0 - 1)"

definition number_sign :: "u64 \<Rightarrow> int \<Rightarrow> fmt_flags \<Rightarrow> string \<times> u64 \<times> int" where
  "number_sign num sz type =
     (if SIGN type then
        if sint num < 0 then (''-'', - num, sz - 1)
        else if PLUS type then (''+'', num, sz - 1)
        else if SPACE type then ('' '', num, sz - 1)
        else ([], num, sz)
      else ([], num, sz))"

definition number :: "u64 \<Rightarrow> int \<Rightarrow> int \<Rightarrow> int \<Rightarrow> fmt_flags \<Rightarrow> string option" where
  "number num0 base size0 precision0 type0 =
     (let digits = (if LARGE type0 then digits_upper else digits_lower);
          type = (if LEFT type0 then type0\<lparr>ZEROPAD := False\<rparr> else type0)
      in if base < 2 \<or> base > 36 then None
         else
           let c = (if ZEROPAD type then CHR ''0'' else CHR '' '');
               (sign, num, size1) = number_sign num0 size0 type;
               size2 = (if SPECIAL type
                        then if base = 16 then size1 - 2 else if base = 8 then size1 - 1 else size1
                        else size1);
               tmp = (if num = 0 then ''0'' else number_digits digits (nat base) (unat num));
               precision = max (int (length tmp)) precision0;
               size3 = size2 - precision;
               (lead, size4) = (if \<not> (ZEROPAD type \<or> LEFT type) then pad_loop size3 (CHR '' '')
                                else ([], size3));
               special = (if SPECIAL type
                          then if base = 8 then ''0''
                               else if base = 16 then [CHR ''0'', digits ! 33] else []
                          else []);
               (fill, size5) = (if \<not> LEFT type then pad_loop size4 c else ([], size4));
               zeros = replicate (nat (precision - int (length tmp))) (CHR ''0'');
               (trail, _) = pad_loop size5 (CHR '' '')
           in Some (lead @ sign @ special @ fill @ zeros @ rev tmp @ trail))"

subsection \<open>The format interpreter\<close>

datatype varg =
    AInt u32
  | ALong u64
  | AStr "string option"
  | APtr u64
  | ACount

fun parse_flags :: "string \<Rightarrow> fmt_flags \<Rightarrow> fmt_flags \<times> string" where
  "parse_flags [] fl = (fl, [])"
| "parse_flags (c # cs) fl =
     (if c = CHR ''-'' then parse_flags cs (fl\<lparr>LEFT := True\<rparr>)
      else if c = CHR ''+'' then parse_flags cs (fl\<lparr>PLUS := True\<rparr>)
      else if c = CHR '' '' then parse_flags cs (fl\<lparr>SPACE := True\<rparr>)
      else if c = CHR ''#'' then parse_flags cs (fl\<lparr>SPECIAL := True\<rparr>)
      else if c = CHR ''0'' then parse_flags cs (fl\<lparr>ZEROPAD := True\<rparr>)
      else (fl, c # cs))"

text \<open>An \<open>int\<close> argument of the variable argument list.\<close>

definition take_int :: "varg list \<Rightarrow> (int \<times> varg list) option" where
  "take_int args = (case args of AInt w # rest \<Rightarrow> Some (sint w, rest) | _ \<Rightarrow> None)"

definition parse_width ::
  "string \<Rightarrow> fmt_flags \<Rightarrow> varg list \<Rightarrow> (int \<times> fmt_flags \<times> string \<times> varg list) option" where
  "parse_width fmt fl args =
     (case fmt of
        [] \<Rightarrow> Some (- 1, fl, fmt, args)
      | c # cs \<Rightarrow>
          if is_digit c then (let (w, fmt') = skip_atoi 0 fmt in Some (w, fl, fmt', args))
          else if c = CHR ''*'' then
            (case take_int args of
               None \<Rightarrow> None
             | Some (w, args') \<Rightarrow>
                 if w < 0 then Some (- w, fl\<lparr>LEFT := True\<rparr>, cs, args') else Some (w, fl, cs, args'))
          else Some (- 1, fl, fmt, args))"

definition parse_precision :: "string \<Rightarrow> varg list \<Rightarrow> (int \<times> string \<times> varg list) option" where
  "parse_precision fmt args =
     (case fmt of
        [] \<Rightarrow> Some (- 1, fmt, args)
      | c # cs \<Rightarrow>
          if c = CHR ''.'' then
            (case cs of
               [] \<Rightarrow> Some (0, cs, args)
             | d # ds \<Rightarrow>
                 if is_digit d then (let (p, fmt') = skip_atoi 0 cs in Some (max 0 p, fmt', args))
                 else if d = CHR ''*'' then
                   (case take_int args of None \<Rightarrow> None | Some (p, args') \<Rightarrow> Some (max 0 p, ds, args'))
                 else Some (0, cs, args))
          else Some (- 1, fmt, args))"

definition parse_qualifier :: "string \<Rightarrow> char option \<times> string" where
  "parse_qualifier fmt =
     (case fmt of
        [] \<Rightarrow> (None, fmt)
      | c # cs \<Rightarrow> if c = CHR ''h'' \<or> c = CHR ''l'' \<or> c = CHR ''L'' then (Some c, cs) else (None, fmt))"

text \<open>\<open>%s\<close>: at most \<open>precision\<close> characters (a negative precision is the size_t maximum).\<close>

definition format_string :: "string option \<Rightarrow> int \<Rightarrow> int \<Rightarrow> fmt_flags \<Rightarrow> string" where
  "format_string arg field_width precision fl =
     (let s = (case arg of None \<Rightarrow> ''<NULL>'' | Some t \<Rightarrow> t);
          body = (if precision < 0 then s else take (nat precision) s);
          blanks = replicate (nat (field_width - int (length body))) (CHR '' '')
      in if LEFT fl then body @ blanks else blanks @ body)"

definition format_char :: "u32 \<Rightarrow> int \<Rightarrow> fmt_flags \<Rightarrow> string" where
  "format_char w field_width fl =
     (let blanks = replicate (nat (field_width - 1)) (CHR '' '')
      in if LEFT fl then char_of (unat w mod 256) # blanks else blanks @ [char_of (unat w mod 256)])"

text \<open>The integer argument selected by the qualifier and the sign flag, widened to 64 bits.\<close>

definition take_num :: "char option \<Rightarrow> fmt_flags \<Rightarrow> varg list \<Rightarrow> (u64 \<times> varg list) option" where
  "take_num qualifier fl args =
     (if qualifier = Some (CHR ''l'')
      then (case args of ALong w # rest \<Rightarrow> Some (w, rest) | _ \<Rightarrow> None)
      else (case args of
              AInt w # rest \<Rightarrow> Some (if SIGN fl then scast w else ucast w, rest)
            | _ \<Rightarrow> None))"

text \<open>
  One conversion, after the \<open>%\<close>: the text it produces, the rest of the format, the rest of the
  arguments, and whether it is \<open>%n\<close> (which stores the length so far).
\<close>

definition conversion ::
  "string \<Rightarrow> varg list \<Rightarrow> (string \<times> string \<times> varg list \<times> bool) option" where
  "conversion fmt0 args0 =
     (let (fl, fmt1) = parse_flags fmt0 no_flags
      in case parse_width fmt1 fl args0 of
           None \<Rightarrow> None
         | Some (field_width, fl, fmt2, args1) \<Rightarrow>
      (case parse_precision fmt2 args1 of
           None \<Rightarrow> None
         | Some (precision, fmt3, args2) \<Rightarrow>
      (let (qualifier, fmt4) = parse_qualifier fmt3
      in case fmt4 of
           [] \<Rightarrow> Some (''%'', [], args2, False)
         | c # rest \<Rightarrow>
           if c = CHR ''c'' then
             (case args2 of
                AInt w # args3 \<Rightarrow> Some (format_char w field_width fl, rest, args3, False)
              | _ \<Rightarrow> None)
           else if c = CHR ''s'' then
             (case args2 of
                AStr s # args3 \<Rightarrow> Some (format_string s field_width precision fl, rest, args3, False)
              | _ \<Rightarrow> None)
           else if c = CHR ''p'' then
             (case args2 of
                APtr p # args3 \<Rightarrow>
                  map_option (\<lambda>out. (out, rest, args3, False))
                    (if field_width = - 1 then number p 16 16 precision (fl\<lparr>ZEROPAD := True\<rparr>)
                     else number p 16 field_width precision fl)
              | _ \<Rightarrow> None)
           else if c = CHR ''n'' then
             (case args2 of ACount # args3 \<Rightarrow> Some ([], rest, args3, True) | _ \<Rightarrow> None)
           else if c \<in> {CHR ''o'', CHR ''X'', CHR ''x'', CHR ''d'', CHR ''i'', CHR ''u''} then
             (let fl' = (if c = CHR ''X'' then fl\<lparr>LARGE := True\<rparr>
                         else if c = CHR ''d'' \<or> c = CHR ''i'' then fl\<lparr>SIGN := True\<rparr> else fl);
                  base = (if c = CHR ''o'' then 8
                          else if c = CHR ''X'' \<or> c = CHR ''x'' then 16 else 10)
              in case take_num qualifier fl' args2 of
                   None \<Rightarrow> None
                 | Some (num, args3) \<Rightarrow>
                     map_option (\<lambda>out. (out, rest, args3, False))
                       (number num base field_width precision fl'))
           else Some ((if c \<noteq> CHR ''%'' then ''%'' else []) @ [c], rest, args2, False))))"

lemma skip_atoi_length: "length (snd (skip_atoi i s)) \<le> length s"
  by (induction i s rule: skip_atoi.induct) auto

lemma parse_flags_length: "length (snd (parse_flags s fl)) \<le> length s"
  by (induction s fl rule: parse_flags.induct) auto

lemma parse_width_length:
  "parse_width s fl args = Some (w, fl', s', args') \<Longrightarrow> length s' \<le> length s"
  using skip_atoi_length [of 0 s]
  by (auto simp: parse_width_def split: list.splits if_splits option.splits prod.splits)

lemma parse_precision_length:
  assumes "parse_precision s args = Some (p, s', args')"
  shows "length s' \<le> length s"
  using assms skip_atoi_length [of 0 "tl s"]
  by (auto simp: parse_precision_def split: list.splits if_splits option.splits prod.splits)

lemma parse_qualifier_length: "length (snd (parse_qualifier s)) \<le> length s"
  by (auto simp: parse_qualifier_def split: list.splits)

lemma conversion_length:
  assumes "conversion s args = Some (out, s', args', n)"
  shows "length s' \<le> length s"
proof -
  obtain fl s1 where 1: "parse_flags s no_flags = (fl, s1)" by (cases "parse_flags s no_flags")
  obtain w fl2 s2 a2 where 2: "parse_width s1 fl args = Some (w, fl2, s2, a2)"
    using assms 1 by (auto simp: conversion_def split: option.splits prod.splits)
  obtain p s3 a3 where 3: "parse_precision s2 a2 = Some (p, s3, a3)"
    using assms 1 2 by (auto simp: conversion_def split: option.splits prod.splits)
  obtain q s4 where 4: "parse_qualifier s3 = (q, s4)" by (cases "parse_qualifier s3")
  have "s' = [] \<or> (\<exists>c. s4 = c # s')"
    using assms 1 2 3 4
    by (auto simp: conversion_def Let_def split: list.splits if_splits varg.splits option.splits)
  moreover have "length s4 \<le> length s"
    using parse_flags_length [of s no_flags] parse_width_length [OF 2]
      parse_precision_length [OF 3] parse_qualifier_length [of s3] 1 4 by simp
  ultimately show ?thesis by auto
qed

text \<open>
  The main loop.  The state is what has been written so far and the counts stored by \<open>%n\<close>; the
  result leaves out the terminating NUL, so the returned length is the length of the string.
\<close>

function vsprintf_loop ::
  "string \<Rightarrow> varg list \<Rightarrow> string \<Rightarrow> nat list \<Rightarrow> (string \<times> nat list) option" where
  "vsprintf_loop [] args str counts = Some (str, counts)"
| "vsprintf_loop (c # fmt) args str counts =
     (if c \<noteq> CHR ''%'' then vsprintf_loop fmt args (str @ [c]) counts
      else (case conversion fmt args of
              None \<Rightarrow> None
            | Some (out, fmt', args', is_n) \<Rightarrow>
                vsprintf_loop fmt' args' (str @ out)
                  (if is_n then counts @ [length str] else counts)))"
  by pat_completeness auto
termination
  by (relation "measure (\<lambda>(fmt, _). length fmt)") (auto dest!: conversion_length)

definition vsprintf :: "string \<Rightarrow> varg list \<Rightarrow> string option" where
  "vsprintf fmt args = map_option fst (vsprintf_loop fmt args [] [])"

subsection \<open>Digits denote the number\<close>

definition digit_value :: "string \<Rightarrow> bool" where
  "digit_value digits \<longleftrightarrow>
     (\<forall>i < 16. is_xdigit (digits ! i) \<and> xvalue (digits ! i) = int i)"

lemma digit_value_upper: "digit_value digits_upper"
proof -
  have "list_all (\<lambda>i. is_xdigit (digits_upper ! i) \<and> xvalue (digits_upper ! i) = int i) [0..<16]"
    by code_simp
  then show ?thesis by (simp add: digit_value_def list_all_iff)
qed

lemma digit_value_decimal:
  assumes "i < (10::nat)"
  shows "is_xdigit (digits_lower ! i)" and "xvalue (digits_lower ! i) = int i"
proof -
  have "list_all (\<lambda>i. is_xdigit (digits_lower ! i) \<and> xvalue (digits_lower ! i) = int i) [0..<10]"
    by code_simp
  with assms show "is_xdigit (digits_lower ! i)" "xvalue (digits_lower ! i) = int i"
    by (simp_all add: list_all_iff)
qed

lemma number_digits_0 [simp]: "number_digits digits base 0 = []"
  by (subst number_digits.simps) simp

text \<open>Reading the printed digits, most significant first, accumulates the number.\<close>

lemma strtoul_loop_digits:
  assumes "2 \<le> base"
    and "\<And>i. i < base \<Longrightarrow> is_xdigit (digits ! i) \<and> xvalue (digits ! i) = int i"
  shows "strtoul_loop acc base (rev (number_digits digits base n) @ rest)
       = strtoul_loop (acc * of_nat base ^ length (number_digits digits base n) + of_nat n) base rest"
  using assms
proof (induction digits base n arbitrary: rest rule: number_digits.induct)
  case (1 digits base n)
  show ?case
  proof (cases "n = 0")
    case True
    then show ?thesis by simp
  next
    case False
    let ?ds = "number_digits digits base (n div base)" and ?b = "of_nat base :: u64"
    let ?r = "acc * ?b ^ length ?ds + of_nat (n div base)"
    have split: "of_nat n = of_nat (n div base) * ?b + of_nat (n mod base)"
      by (metis div_mult_mod_eq of_nat_add of_nat_mult)
    have d: "is_xdigit (digits ! (n mod base))" "xvalue (digits ! (n mod base)) = int (n mod base)"
      using "1.prems" by simp_all
    have "strtoul_loop acc base (rev (number_digits digits base n) @ rest)
        = strtoul_loop acc base (rev ?ds @ digits ! (n mod base) # rest)"
      using False "1.prems"(1) by (simp add: number_digits.simps [of digits base n])
    also have "\<dots> = strtoul_loop ?r base (digits ! (n mod base) # rest)"
      using False "1.prems" by (intro "1.IH") auto
    also have "\<dots> = strtoul_loop (?r * ?b + of_nat (n mod base)) base rest"
      using d "1.prems"(1) by simp
    also have "?r * ?b + of_nat (n mod base)
        = acc * ?b ^ length (number_digits digits base n) + of_nat n"
      using False "1.prems"(1) split
      by (simp add: number_digits.simps [of digits base n] algebra_simps)
    finally show ?thesis .
  qed
qed

lemma number_digits_length: "2 \<le> base \<Longrightarrow> n < base ^ k \<Longrightarrow> length (number_digits digits base n) \<le> k"
proof (induction k arbitrary: n)
  case 0
  then show ?case by (simp add: number_digits.simps [of digits base n])
next
  case (Suc k)
  then have "n div base < base ^ k" by (simp add: less_mult_imp_div_less mult.commute)
  with Suc show ?case by (subst number_digits.simps) simp
qed

lemma number_digits_Nil: "2 \<le> base \<Longrightarrow> number_digits digits base n = [] \<longleftrightarrow> n = 0"
  by (subst number_digits.simps) auto

text \<open>\<open>number\<close> without flags, width and precision writes the digits and nothing else.\<close>

lemma number_plain:
  assumes "2 \<le> base" "base \<le> 36" and "fl = no_flags\<lparr>LARGE := large\<rparr>"
  shows "number num (int base) (- 1) (- 1) fl
    = Some (if num = 0 then ''0''
            else rev (number_digits (if large then digits_upper else digits_lower) base (unat num)))"
  using assms by (auto simp: number_def number_sign_def pad_loop_def no_flags_def Let_def)

subsection \<open>Properties\<close>

text \<open>
  Printing any 64-bit value in decimal with \<open>number\<close> and parsing the text with
  \<open>simple_strtoul\<close> gives the value back and consumes the whole text.
\<close>

theorem number_strtoul_decimal:
  "\<exists>s. number num 10 (- 1) (- 1) no_flags = Some s \<and> simple_strtoul s 10 = (num, [])"
proof (cases "num = 0")
  case True
  have "simple_strtoul ''0'' 10 = (0, [])"
    by (simp add: simple_strtoul_def is_xdigit_def is_digit_def xvalue_def less_eq_char_def)
  with True show ?thesis
    using number_plain [of 10 no_flags False num] by (simp add: no_flags_def)
next
  case False
  have "strtoul_loop 0 10 (rev (number_digits digits_lower 10 (unat num)) @ []) = (num, [])"
    by (subst strtoul_loop_digits) (simp_all add: digit_value_decimal)
  with False show ?thesis
    using number_plain [of 10 no_flags False num]
    by (simp add: no_flags_def simple_strtoul_def)
qed

text \<open>
  Upper-case hexadecimal (\<open>%X\<close>) is read back exactly by \<open>simple_strtoul\<close> in base 16.
\<close>

theorem number_strtoul_hex:
  "\<exists>s. number num 16 (- 1) (- 1) (no_flags\<lparr>LARGE := True\<rparr>) = Some s \<and> simple_strtoul s 16 = (num, [])"
proof (cases "num = 0")
  case True
  have "simple_strtoul ''0'' 16 = (0, [])"
    by (simp add: simple_strtoul_def is_xdigit_def is_digit_def xvalue_def less_eq_char_def)
  with True show ?thesis
    using number_plain [of 16 "no_flags\<lparr>LARGE := True\<rparr>" True num] by (simp add: no_flags_def)
next
  case False
  have "strtoul_loop 0 16 (rev (number_digits digits_upper 16 (unat num)) @ []) = (num, [])"
    by (subst strtoul_loop_digits)
      (use digit_value_upper in \<open>simp_all add: digit_value_def\<close>)
  with False show ?thesis
    using number_plain [of 16 "no_flags\<lparr>LARGE := True\<rparr>" True num]
    by (simp add: no_flags_def simple_strtoul_def)
qed

end
