(* ===== verification/Console.thy ===== *)
theory Console
  imports Vsprintf
begin

text \<open>
  The console layer (\<^verbatim>\<open>src/cons.c\<close>): device reads of arbitrary extent on top of a firmware that
  reads whole sectors, output with partial writes, polling input and environment variables.

  The SRM firmware behind \<open>dispatch\<close> is not part of the program.  Each callback the code uses is a
  parameter: for \<open>CCB_READ\<close> a function from byte count and sector number to the return value and the
  bytes placed in the buffer; for the callbacks that are called repeatedly with changing results
  (\<open>CCB_PUTS\<close>, \<open>CCB_GETC\<close>) the list of results of the successive calls.
\<close>

definition SECT_SIZE :: nat where
  "SECT_SIZE = 512"

type_synonym ccb_read = "int \<Rightarrow> int \<Rightarrow> int \<times> bytes"

subsection \<open>Reading\<close>

text \<open>
  The loop of \<open>cons_read\<close> for an unaligned request.  \<open>blockoffset\<close> is \<open>offset % SECT_SIZE\<close> in the
  first round and 0 afterwards, so its bound always holds; it is part of the guard only because a
  total function needs it to terminate.
\<close>

function cons_read_loop ::
  "ccb_read \<Rightarrow> int \<Rightarrow> int \<Rightarrow> nat \<Rightarrow> int \<Rightarrow> bytes \<Rightarrow> int \<times> bytes" where
  "cons_read_loop rd bytesleft iocount blockoffset lbn buf =
     (if bytesleft > 0 \<and> blockoffset < SECT_SIZE then
        if blockoffset = 0 \<and> bytesleft \<ge> int SECT_SIZE then
          (let (retval, d) = rd (int SECT_SIZE) lbn
           in if retval \<noteq> int SECT_SIZE then (- 1, buf @ d)
              else cons_read_loop rd (bytesleft - int SECT_SIZE) (iocount + int SECT_SIZE) 0
                     (lbn + 1) (buf @ d))
        else
          (let (retval, readbuf) = rd (int SECT_SIZE) lbn
           in if retval \<noteq> int SECT_SIZE then (- 1, buf)
              else let iosize = (if int blockoffset + bytesleft \<ge> int SECT_SIZE
                                 then SECT_SIZE - blockoffset else nat bytesleft)
                   in cons_read_loop rd (bytesleft - int iosize) (iocount + int iosize) 0
                        (lbn + 1) (buf @ slice blockoffset iosize readbuf))
      else (iocount, buf))"
  by pat_completeness auto
termination
  by (relation "measure (\<lambda>(rd, bytesleft, iocount, blockoffset, lbn, buf). nat bytesleft)")
    (auto simp: SECT_SIZE_def)

declare cons_read_loop.simps [simp del]

definition cons_read :: "ccb_read \<Rightarrow> int \<Rightarrow> nat \<Rightarrow> int \<times> bytes" where
  "cons_read rd count offset =
     (if count mod int SECT_SIZE = 0 \<and> offset mod SECT_SIZE = 0
      then rd count (int (offset div SECT_SIZE))
      else cons_read_loop rd count 0 (offset mod SECT_SIZE) (int (offset div SECT_SIZE)) [])"

subsection \<open>Output\<close>

datatype console_result = Written string | Halted string | Waiting string

text \<open>The status word of \<open>CCB_PUTS\<close>: \<open>written\<close> in the low half, \<open>v_sts1\<close> bit 62, \<open>v_err\<close> bit 63.\<close>

definition sts_written :: "u64 \<Rightarrow> int" where
  "sts_written w = sint (ucast w :: u32)"

definition sts_v_err :: "u64 \<Rightarrow> bool" where
  "sts_v_err w = bit w 63"

definition sts_v_sts1 :: "u64 \<Rightarrow> bool" where
  "sts_v_sts1 w = bit w 62"

text \<open>
  \<open>cons_puts\<close> against the list of results of its calls to the firmware.  The characters that reach
  the terminal are collected in the result; \<open>Waiting\<close> means that the list ended before the loop.
\<close>

fun cons_puts_loop :: "u64 list \<Rightarrow> string \<Rightarrow> int \<Rightarrow> string \<Rightarrow> console_result" where
  "cons_puts_loop sts str remaining out =
     (if remaining = 0 then Written out
      else case sts of
             [] \<Rightarrow> Waiting out
           | w # sts' \<Rightarrow>
               if \<not> sts_v_err w
               then cons_puts_loop sts' (drop (nat (sts_written w)) str)
                      (remaining - sts_written w) (out @ take (nat (sts_written w)) str)
               else if sts_v_sts1 w then Halted out
               else cons_puts_loop sts' str remaining out)"

declare cons_puts_loop.simps [simp del]

definition cons_puts :: "u64 list \<Rightarrow> string \<Rightarrow> int \<Rightarrow> console_result" where
  "cons_puts sts str len = cons_puts_loop sts str len []"

definition cons_putchar :: "u64 list \<Rightarrow> char \<Rightarrow> console_result" where
  "cons_putchar sts c = cons_puts sts [c] 1"

subsection \<open>Input, environment, devices\<close>

text \<open>\<open>cons_getchar\<close> polls until the firmware returns a non-negative value.\<close>

fun cons_getchar :: "int list \<Rightarrow> (int \<times> int list) option" where
  "cons_getchar [] = None"
| "cons_getchar (c # cs) = (if c < 0 then cons_getchar cs else Some (c, cs))"

text \<open>
  \<open>cons_getenv\<close>: the firmware's return value and the bytes it stored in \<open>tmp\<close>.  The result is the
  return value and, when it is not negative, the contents written to \<open>envval\<close>.
\<close>

definition cons_getenv :: "(nat \<Rightarrow> nat \<Rightarrow> int \<times> string) \<Rightarrow> nat \<Rightarrow> nat \<Rightarrow> int \<times> string option" where
  "cons_getenv get_env index maxlen =
     (let (len, tmp) = get_env index (maxlen - 1)
      in (len, if len \<ge> 0 then Some (take (nat len) tmp @ [CHR 0x00]) else None))"

definition cons_open :: "(string \<Rightarrow> nat \<Rightarrow> int) \<Rightarrow> string \<Rightarrow> int" where
  "cons_open ccb_open devname = ccb_open devname (length devname)"

definition cons_close :: "(int \<Rightarrow> int) \<Rightarrow> int \<Rightarrow> int" where
  "cons_close ccb_close dev = ccb_close dev"

text \<open>\<open>cons_init\<close>: the console device number, or \<^const>\<open>None\<close> when it halts the machine.\<close>

definition cons_init :: "(nat \<Rightarrow> nat \<Rightarrow> int \<times> string) \<Rightarrow> nat \<Rightarrow> u64 option" where
  "cons_init get_env ENV_TTY_DEV =
     (case cons_getenv get_env ENV_TTY_DEV 256 of
        (len, None) \<Rightarrow> None
      | (len, Some envval) \<Rightarrow>
          Some (fst (simple_strtoul (takeWhile (\<lambda>c. c \<noteq> CHR 0x00) envval) 10)))"

subsection \<open>A device that holds an image\<close>

text \<open>
  What the loader relies on of the firmware's read callback: a request for whole sectors inside
  the medium returns the requested count and delivers those bytes.  \<open>image_read\<close> is such a
  device; beyond the end it returns what is there, and a negative request returns 0.
\<close>

definition sector_device :: "bytes \<Rightarrow> ccb_read \<Rightarrow> bool" where
  "sector_device img rd \<longleftrightarrow>
     (\<forall>n lbn. (lbn + n) * SECT_SIZE \<le> length img \<longrightarrow>
        rd (int (n * SECT_SIZE)) (int lbn) = (int (n * SECT_SIZE), slice (lbn * SECT_SIZE) (n * SECT_SIZE) img))"

definition image_read :: "bytes \<Rightarrow> ccb_read" where
  "image_read img count lbn =
     (let d = slice (nat lbn * SECT_SIZE) (nat count) img in (int (length d), d))"

lemma sector_device_image_read [simp]: "sector_device img (image_read img)"
  by (auto simp: sector_device_def image_read_def Let_def slice_def algebra_simps
      simp del: of_nat_mult simp flip: of_nat_mult)

lemma sector_deviceD:
  "sector_device img rd \<Longrightarrow> (lbn + n) * SECT_SIZE \<le> length img \<Longrightarrow>
     rd (int (n * SECT_SIZE)) (int lbn) = (int (n * SECT_SIZE), slice (lbn * SECT_SIZE) (n * SECT_SIZE) img)"
  by (simp add: sector_device_def)

lemma sector_device_one:
  assumes "sector_device img rd" and "(lbn + 1) * SECT_SIZE \<le> length img"
  shows "rd (int SECT_SIZE) (int lbn) = (int SECT_SIZE, slice (lbn * SECT_SIZE) SECT_SIZE img)"
  using sector_deviceD [of img rd lbn 1] assms by simp

lemma cons_read_loop_done: "cons_read_loop rd 0 k b lbn buf = (k, buf)"
  by (subst cons_read_loop.simps) simp

text \<open>One round delivers the bytes up to the next sector boundary or the end of the request.\<close>

lemma cons_read_loop_step:
  assumes dev: "sector_device img rd" and "b < SECT_SIZE" and "0 < left"
    and "(lbn + 1) * SECT_SIZE \<le> length img"
  defines "n \<equiv> min left (SECT_SIZE - b)"
  shows "cons_read_loop rd (int left) k b (int lbn) buf
       = cons_read_loop rd (int (left - n)) (k + int n) 0 (int (Suc lbn))
           (buf @ slice (lbn * SECT_SIZE + b) n img)"
proof (cases "b = 0 \<and> SECT_SIZE \<le> left")
  case True
  then have n: "n = SECT_SIZE" by (simp add: n_def)
  have "cons_read_loop rd (int left) k b (int lbn) buf
      = cons_read_loop rd (int left - int SECT_SIZE) (k + int SECT_SIZE) 0 (int lbn + 1)
          (buf @ slice (lbn * SECT_SIZE) SECT_SIZE img)"
    using assms(2,3) True sector_device_one [OF dev assms(4)]
    by (subst cons_read_loop.simps) simp
  with True n show ?thesis by (simp add: of_nat_diff add.commute)
next
  case False
  have io: "(if int b + int left \<ge> int SECT_SIZE then SECT_SIZE - b else nat (int left)) = n"
    using assms(2) by (auto simp: n_def min_def)
  have sl: "slice b n (slice (lbn * SECT_SIZE) SECT_SIZE img) = slice (lbn * SECT_SIZE + b) n img"
    using assms(2) by (intro slice_slice) (auto simp: n_def)
  have "cons_read_loop rd (int left) k b (int lbn) buf
      = cons_read_loop rd (int left - int n) (k + int n) 0 (int lbn + 1)
          (buf @ slice b n (slice (lbn * SECT_SIZE) SECT_SIZE img))"
    using assms(2,3) False sector_device_one [OF dev assms(4)] io
    by (subst cons_read_loop.simps) (auto simp: Let_def)
  with sl show ?thesis by (simp add: n_def of_nat_diff add.commute)
qed

lemma cons_read_loop_slice:
  assumes "sector_device img rd" and "b < SECT_SIZE"
    and "lbn * SECT_SIZE + b + left \<le> length img" and "SECT_SIZE dvd length img"
  shows "cons_read_loop rd (int left) k b (int lbn) buf
       = (k + int left, buf @ slice (lbn * SECT_SIZE + b) left img)"
  using assms
proof (induction left arbitrary: k b lbn buf rule: less_induct)
  case (less left)
  show ?case
  proof (cases "left = 0")
    case True
    then show ?thesis by (simp add: cons_read_loop_done)
  next
    case False
    let ?n = "min left (SECT_SIZE - b)"
    have in_img: "(lbn + 1) * SECT_SIZE \<le> length img"
    proof -
      have "lbn * SECT_SIZE < length img" using less.prems False by simp
      moreover from less.prems(4) obtain q where "length img = q * SECT_SIZE"
        by (metis dvd_def mult.commute)
      ultimately have "lbn + 1 \<le> q" by (simp add: Suc_le_eq)
      then have "(lbn + 1) * SECT_SIZE \<le> q * SECT_SIZE" by (rule mult_le_mono1)
      with \<open>length img = q * SECT_SIZE\<close> show ?thesis by simp
    qed
    have n: "0 < ?n" "?n \<le> left" using False less.prems(2) by auto
    have "cons_read_loop rd (int (left - ?n)) (k + int ?n) 0 (int (Suc lbn))
            (buf @ slice (lbn * SECT_SIZE + b) ?n img)
        = (k + int ?n + int (left - ?n),
           (buf @ slice (lbn * SECT_SIZE + b) ?n img) @ slice (Suc lbn * SECT_SIZE + 0) (left - ?n) img)"
      using less.prems n in_img by (intro less.IH) (auto simp: SECT_SIZE_def min_def)
    moreover have "slice (lbn * SECT_SIZE + b) ?n img @ slice (Suc lbn * SECT_SIZE + 0) (left - ?n) img
        = slice (lbn * SECT_SIZE + b) left img"
    proof (cases "left \<le> SECT_SIZE - b")
      case True
      then show ?thesis by simp
    next
      case False
      then have "Suc lbn * SECT_SIZE + 0 = lbn * SECT_SIZE + b + ?n" "left = ?n + (left - ?n)"
        using less.prems(2) by auto
      then show ?thesis by (metis slice_append)
    qed
    ultimately show ?thesis
      using cons_read_loop_step [OF less.prems(1,2) _ in_img, of left k buf] False n by simp
  qed
qed

text \<open>A failing sector read makes the whole request fail.\<close>

lemma cons_read_loop_error:
  assumes "0 < left" and "b < SECT_SIZE" and "fst (rd (int SECT_SIZE) lbn) \<noteq> int SECT_SIZE"
  shows "fst (cons_read_loop rd left k b lbn buf) = - 1"
  using assms by (subst cons_read_loop.simps) (auto simp: Let_def split: prod.splits)

lemma cons_read_image:
  assumes "sector_device img rd" and "SECT_SIZE dvd length img" and "offset + count \<le> length img"
  shows "cons_read rd (int count) offset = (int count, slice offset count img)"
proof (cases "SECT_SIZE dvd count \<and> SECT_SIZE dvd offset")
  case True
  then obtain n l where "count = n * SECT_SIZE" "offset = l * SECT_SIZE"
    by (metis dvd_def mult.commute)
  then show ?thesis
    using sector_deviceD [OF assms(1), of l n] assms(3)
    by (simp add: cons_read_def algebra_simps SECT_SIZE_def)
next
  case False
  then have "\<not> (int count mod int SECT_SIZE = 0 \<and> offset mod SECT_SIZE = 0)"
    by (simp add: dvd_eq_mod_eq_0 flip: of_nat_mod)
  then have "cons_read rd (int count) offset
      = cons_read_loop rd (int count) 0 (offset mod SECT_SIZE) (int (offset div SECT_SIZE)) []"
    by (simp only: cons_read_def if_False)
  also have "\<dots> = (int count, slice offset count img)"
    using cons_read_loop_slice [OF assms(1), of "offset mod SECT_SIZE" "offset div SECT_SIZE" count 0 "[]"]
      assms(2,3) by (simp add: SECT_SIZE_def)
  finally show ?thesis .
qed

subsection \<open>Devices that deliver an image\<close>

text \<open>
  What the file systems rely on: a read inside the image returns the requested count and the bytes of
  the image at that offset.  \<open>cons_read\<close> provides it on top of whole sectors.
\<close>

locale block_device =
  fixes dev_read :: "int \<Rightarrow> nat \<Rightarrow> int \<times> bytes" and img :: bytes
  assumes read_slice: "off + n \<le> length img \<Longrightarrow> dev_read (int n) off = (int n, slice off n img)"
begin

lemma read_append:
  "off + n + k \<le> length img \<Longrightarrow>
     dev_read (int (n + k)) off = (int (n + k), snd (dev_read (int n) off) @ snd (dev_read (int k) (off + n)))"
  using read_slice [of off "n + k"] read_slice [of off n] read_slice [of "off + n" k] by (simp add: slice_append)

end

definition whole_sectors :: "bytes \<Rightarrow> bytes" where
  "whole_sectors img = take (length img div SECT_SIZE * SECT_SIZE) img"

lemma whole_sectors_dvd: "SECT_SIZE dvd length (whole_sectors img)"
proof -
  have "length (whole_sectors img) = length img div SECT_SIZE * SECT_SIZE"
    using div_times_less_eq_dividend [of "length img" SECT_SIZE] by (simp add: whole_sectors_def)
  then show ?thesis by simp
qed

interpretation cons: block_device "cons_read (image_read (whole_sectors img))" "whole_sectors img" for img
  by unfold_locales (simp add: cons_read_image whole_sectors_dvd)

lemma cons_block_device:
  "sector_device img rd \<Longrightarrow> SECT_SIZE dvd length img \<Longrightarrow> block_device (cons_read rd) img"
  by (simp add: block_device_def cons_read_image)

subsection \<open>Properties\<close>

text \<open>
  C24.  On a device that delivers whole sectors of an image, \<open>cons_read\<close> returns the requested count
  and exactly the requested bytes, for every offset and length inside the image, aligned to sectors
  or not.
\<close>

theorem cons_read_slice:
  assumes "sector_device img rd" and "SECT_SIZE dvd length img" and "offset + count \<le> length img"
  shows "cons_read rd (int count) offset = (int count, slice offset count img)"
  using assms by (rule cons_read_image)

theorem cons_read_slice_witness:
  "cons_read (image_read (replicate 1024 7)) (int 520) 3 = (int 520, slice 3 520 (replicate 1024 7))"
  by (rule cons_read_slice) (simp_all add: SECT_SIZE_def)

text \<open>
  C34.  \<open>cons_puts\<close> delivers the whole string however the firmware splits it: when every accepted
  write is positive and no larger than what remains, a run that ends has printed exactly the string,
  and it ends as soon as enough writes have been accepted.  Soft errors are retried.
\<close>

definition puts_ok :: "u64 \<Rightarrow> int \<Rightarrow> bool" where
  "puts_ok w remaining \<longleftrightarrow> \<not> sts_v_err w \<and> 0 < sts_written w \<and> sts_written w \<le> remaining"

fun puts_legal :: "u64 list \<Rightarrow> int \<Rightarrow> bool" where
  "puts_legal [] remaining = True"
| "puts_legal (w # sts) remaining =
     (remaining = 0
      \<or> puts_ok w remaining \<and> puts_legal sts (remaining - sts_written w)
      \<or> sts_v_err w \<and> \<not> sts_v_sts1 w \<and> puts_legal sts remaining)"

lemma cons_puts_loop_complete:
  assumes "puts_legal sts (int (length str))"
    and "length str \<le> length (filter (\<lambda>w. \<not> sts_v_err w) sts)"
  shows "cons_puts_loop sts str (int (length str)) out = Written (out @ str)"
  using assms
proof (induction sts arbitrary: str out)
  case Nil
  then show ?case by (simp add: cons_puts_loop.simps)
next
  case (Cons w sts)
  show ?case
  proof (cases "str = []")
    case True
    then show ?thesis by (simp add: cons_puts_loop.simps)
  next
    case False
    let ?n = "nat (sts_written w)"
    from Cons.prems(1) False consider
        "puts_ok w (int (length str))" "puts_legal sts (int (length str) - sts_written w)"
      | "sts_v_err w" "\<not> sts_v_sts1 w" "puts_legal sts (int (length str))"
      by auto
    then show ?thesis
    proof cases
      case 1
      then have n: "sts_written w = int ?n" "0 < ?n" "?n \<le> length str"
        by (auto simp: puts_ok_def)
      have "cons_puts_loop sts (drop ?n str) (int (length (drop ?n str))) (out @ take ?n str)
          = Written ((out @ take ?n str) @ drop ?n str)"
        by (rule Cons.IH) (use 1 n Cons.prems(2) in \<open>auto simp: puts_ok_def of_nat_diff\<close>)
      with 1 n False show ?thesis
        by (subst cons_puts_loop.simps) (simp add: puts_ok_def of_nat_diff)
    next
      case 2
      with Cons False show ?thesis by (subst cons_puts_loop.simps) simp
    qed
  qed
qed

theorem cons_puts_complete:
  assumes "puts_legal sts (int (length str))"
    and "length str \<le> length (filter (\<lambda>w. \<not> sts_v_err w) sts)"
  shows "cons_puts sts str (int (length str)) = Written str"
  using cons_puts_loop_complete [OF assms] by (simp add: cons_puts_def)

theorem cons_puts_complete_witness:
  "cons_puts [2, 0x8000000000000000, 1, 5] ''abc'' (int (length ''abc'')) = Written ''abc''"
  by (rule cons_puts_complete)
    (simp_all add: puts_ok_def sts_v_err_def sts_v_sts1_def sts_written_def bit_numeral_simps)

end
