(* ===== verification/Utils.thy ===== *)
theory Utils
  imports Console
begin

text \<open>
  The loader's runtime (\<^verbatim>\<open>src/utils.c\<close>): \<open>printf\<close>, the switch to OSF/1 PALcode, the check of
  load addresses against the firmware's memory clusters, the allocator that grows down from the
  end of memory, and line input.

  Physical page numbers, addresses and page-table entries are 64-bit words, so that shifts and
  sums wrap as in C.  An error that ends in \<open>longjmp\<close> or in a halted machine is a value of the
  result.
\<close>

subsection \<open>printf\<close>

definition LF :: char where
  "LF = CHR 0x0A"

definition CR :: char where
  "CR = CHR 0x0D"

text \<open>
  The in-place expansion: \<open>src\<close> runs from the NUL down to the start of the buffer, \<open>dst\<close> starts
  \<open>num_lf\<close> further up.  \<open>i\<close> counts the characters still to move, so \<open>src = i - 1\<close>.
\<close>

primrec expand_loop :: "nat \<Rightarrow> nat \<Rightarrow> string \<Rightarrow> string" where
  "expand_loop 0 dst buf = buf"
| "expand_loop (Suc i) dst buf =
     (if buf ! i = LF
      then expand_loop i (dst - 2) ((buf[dst := CR])[dst - 1 := buf ! i])
      else expand_loop i (dst - 1) (buf[dst := buf ! i]))"

definition printf_bufsize :: nat where
  "printf_bufsize = 1024"

text \<open>
  \<open>printf\<close> formats into a static buffer of 1024 characters and expands the line feeds there.
  \<^const>\<open>None\<close> is undefined behaviour: a missing argument or a text that does not fit.  \<open>old\<close> is the
  previous content of the buffer.
\<close>

definition printf_text :: "string \<Rightarrow> string \<Rightarrow> varg list \<Rightarrow> string option" where
  "printf_text old fmt args =
     (case vsprintf fmt args of
        None \<Rightarrow> None
      | Some s \<Rightarrow>
          let len = length s; num_lf = length (filter (\<lambda>c. c = LF) (takeWhile (\<lambda>c. c \<noteq> CHR 0x00) s));
              buf = s @ [CHR 0x00] @ drop (len + 1) old;
              end = length (takeWhile (\<lambda>c. c \<noteq> CHR 0x00) s)
          in if len + num_lf \<ge> printf_bufsize then None
             else Some (take (len + num_lf)
                    (if num_lf \<noteq> 0 then expand_loop (end + 1) (end + num_lf) buf else buf)))"

definition printf :: "u64 list \<Rightarrow> string \<Rightarrow> string \<Rightarrow> varg list \<Rightarrow> console_result option" where
  "printf sts old fmt args =
     map_option (\<lambda>out. cons_puts sts out (int (length out))) (printf_text old fmt args)"

subsection \<open>Page tables and the switch to OSF/1 PALcode\<close>

definition find_pa :: "(nat \<Rightarrow> u64) \<Rightarrow> u64 \<Rightarrow> u64" where
  "find_pa vptb address =
     (let result = vptb (unat (drop_bit 13 address))
      in push_bit 13 (drop_bit 32 result) OR (address AND 0x1fff))"

record pcb_struct =
  ksp :: u64
  usp :: u64
  ptbr :: u64
  pcc :: u32
  asn :: u32
  pcb_unique :: u64
  pcb_flags :: u64

definition HWRPB_VPTB :: nat where
  "HWRPB_VPTB = 15"

definition HWRPB_CHKSUM :: nat where
  "HWRPB_CHKSUM = 36"

text \<open>
  The machine state that \<open>pal_init\<close> touches: the level-1 page table, the temporary PCB, the HWRPB
  as a vector of quadwords, and the boot processor's slot.
\<close>

record pal_state =
  L1 :: "u64 list"
  pcb :: pcb_struct
  hwrpb :: "u64 list"
  pal_revision :: u64
  palcode_avail :: "u64 list"

definition new_vptb :: u64 where
  "new_vptb = 0xfffffffe00000000"

definition hwrpb_sum :: "u64 list \<Rightarrow> u64" where
  "hwrpb_sum h = foldl (+) 0 (take HWRPB_CHKSUM h)"

text \<open>
  \<open>pal_init\<close>: \<open>vptb\<close> is the old virtual page table, \<open>switch\<close> the firmware's answer to
  \<open>switch_to_osf_pal\<close> (0 for success), given the physical address of the PCB.  A failure halts with
  the code.
\<close>

definition pal_init :: "(nat \<Rightarrow> u64) \<Rightarrow> (u64 \<Rightarrow> u64) \<Rightarrow> pal_state \<Rightarrow> u64 + pal_state" where
  "pal_init vptb switch_to_osf_pal st =
     (let st1 = st\<lparr>L1 := (L1 st)[1023 := L1 st ! 1]\<rparr>;
          st2 = st1\<lparr>pcb := (pcb st1)\<lparr>ksp := 0, usp := 0, ptbr := drop_bit 32 (L1 st1 ! 1),
                    asn := 0, pcc := 0, pcb_unique := 0, pcb_flags := 1\<rparr>\<rparr>;
          pcb_pa = find_pa vptb 0x20000000;
          i = switch_to_osf_pal pcb_pa
      in if i \<noteq> 0 then Inl i
         else let st3 = st2\<lparr>pal_revision := palcode_avail st2 ! 2\<rparr>;
                  st4 = st3\<lparr>hwrpb := (hwrpb st3)[HWRPB_VPTB := new_vptb]\<rparr>;
                  st5 = st4\<lparr>hwrpb := (hwrpb st4)[HWRPB_CHKSUM := hwrpb_sum (hwrpb st4)]\<rparr>
              in Inr (st5\<lparr>L1 := (L1 st5)[1 := 0]\<rparr>))"

subsection \<open>Memory clusters\<close>

record memclust_struct =
  start_pfn :: u64
  numpages :: u64
  usage :: u64

definition EBUSY :: int where
  "EBUSY = 16"

definition ENOMEM :: int where
  "ENOMEM = 12"

definition PAGE_SHIFT :: nat where
  "PAGE_SHIFT = 13"

text \<open>A superpage address (VA<63:41> = 0x7ffffe) is sign extended from bit 40.\<close>

definition phys_addr :: "u64 \<Rightarrow> u64" where
  "phys_addr start =
     (if sint (signed_drop_bit 41 start) = - 2
      then signed_drop_bit (64 - 41) (push_bit (64 - 41) start) else start)"

definition overlaps :: "memclust_struct \<Rightarrow> u64 \<Rightarrow> u64 \<Rightarrow> bool" where
  "overlaps c s e \<longleftrightarrow> \<not> (start_pfn c > e \<or> start_pfn c + numpages c \<le> s)"

fun check_memory_loop :: "memclust_struct list \<Rightarrow> u64 \<Rightarrow> u64 \<Rightarrow> int" where
  "check_memory_loop [] s e = - ENOMEM"
| "check_memory_loop (c # cs) s e =
     (if start_pfn c > e \<or> start_pfn c + numpages c \<le> s then check_memory_loop cs s e
      else if usage c AND 3 \<noteq> 0 then - EBUSY
      else let e' = (if start_pfn c \<le> e then start_pfn c - 1 else e);
               s' = (if start_pfn c + numpages c > s then start_pfn c + numpages c else s)
           in if e' < s' then 0 else check_memory_loop cs s' e')"

definition check_memory :: "memclust_struct list \<Rightarrow> u64 \<Rightarrow> u64 \<Rightarrow> int" where
  "check_memory clusters start sz =
     check_memory_loop clusters (drop_bit PAGE_SHIFT (phys_addr start))
       (drop_bit PAGE_SHIFT (phys_addr start + sz - 1))"

definition page_offset :: u64 where
  "page_offset = 0xfffffc0000000000"

fun memory_end_loop :: "memclust_struct list \<Rightarrow> u64 \<Rightarrow> u64" where
  "memory_end_loop [] high = high"
| "memory_end_loop (c # cs) high =
     (if usage c \<noteq> 0 then memory_end_loop cs high
      else let tmp = push_bit PAGE_SHIFT (start_pfn c + numpages c)
           in memory_end_loop cs (if tmp > high then tmp else high))"

definition memory_end :: "memclust_struct list \<Rightarrow> u64" where
  "memory_end clusters = page_offset + memory_end_loop clusters 0"

subsection \<open>The allocator\<close>

text \<open>
  \<open>free_mem_ptr\<close> is 0 until the first call; it is moved to \<open>malloc_ptr\<close> also when the request fails.
  \<^const>\<open>None\<close> is \<open>error("out of memory")\<close>, which leaves
  by \<open>longjmp\<close>.
\<close>

definition malloc_ptr :: "memclust_struct list \<Rightarrow> u64 \<Rightarrow> u64 \<Rightarrow> u64" where
  "malloc_ptr clusters free_mem_ptr sz =
     ((if free_mem_ptr = 0 then memory_end clusters else free_mem_ptr) - sz) AND NOT 7"

definition malloc :: "memclust_struct list \<Rightarrow> u64 \<Rightarrow> u64 \<Rightarrow> u64 \<Rightarrow> u64 \<Rightarrow> u64 option" where
  "malloc clusters pagesize dest_addr free_mem_ptr sz =
     (let p = malloc_ptr clusters free_mem_ptr sz
      in if p \<le> dest_addr + pagesize then None else Some p)"

subsection \<open>Line input\<close>

text \<open>
  \<open>getline\<close>: the characters come from \<open>cons_getchar\<close>; plain \<open>char\<close> is signed, so \<open>c >= ' '\<close> holds
  only for the characters 32 to 127.  The result is the line, the echoed text and the input that is
  left; \<^const>\<open>None\<close> means that the input ended before a line end.
\<close>

definition erase_echo :: string where
  "erase_echo = [CHR 0x08, CHR '' '', CHR 0x08]"

definition getline_char :: "int \<Rightarrow> char \<Rightarrow> string \<Rightarrow> string \<Rightarrow> string \<times> string" where
  "getline_char maxlen c buf echo =
     (if c = CHR 0x00 \<or> c = LF \<or> c = CR then (buf, echo)
      else if c = CHR 0x08 \<or> c = CHR 0x7F then
        (if buf \<noteq> [] then (butlast buf, echo @ erase_echo) else (buf, echo))
      else if int (length buf) < maxlen - 1 \<and> CHR '' '' \<le> c \<and> c \<le> CHR 0x7F
           then (buf @ [c], echo @ [c]) else (buf, echo))"

fun getline_loop :: "int \<Rightarrow> string \<Rightarrow> string \<Rightarrow> string \<Rightarrow> (string \<times> string \<times> string) option" where
  "getline_loop maxlen buf echo [] = None"
| "getline_loop maxlen buf echo (c # inp) =
     (let (buf', echo') = getline_char maxlen c buf echo
      in if c \<noteq> CR \<and> c \<noteq> LF then getline_loop maxlen buf' echo' inp else Some (buf', echo', inp))"

definition getline :: "int \<Rightarrow> string \<Rightarrow> (string \<times> string \<times> string) option" where
  "getline maxlen inp = getline_loop maxlen [] [] inp"

subsection \<open>The line feed expansion\<close>

definition crlf :: "char \<Rightarrow> string" where
  "crlf c = (if c = LF then [LF, CR] else [c])"

definition num_lf :: "string \<Rightarrow> nat" where
  "num_lf s = length (filter (\<lambda>c. c = LF) s)"

lemma length_crlf: "length (concat (map crlf s)) = length s + num_lf s"
  by (induction s) (auto simp: crlf_def num_lf_def)

lemma drop_update: "i < length xs \<Longrightarrow> drop i (xs[i := x]) = x # drop (Suc i) xs"
  by (metis Cons_nth_drop_Suc drop_update_cancel length_list_update lessI nth_list_update_eq)

lemma expand_loop_correct:
  assumes "i = 0 \<or> Suc dst = i + num_lf (take i buf)"
    and "i + num_lf (take i buf) \<le> length buf"
  shows "expand_loop i dst buf
       = concat (map crlf (take i buf)) @ drop (i + num_lf (take i buf)) buf"
  using assms
proof (induction i arbitrary: dst buf)
  case 0
  then show ?case by (simp add: num_lf_def)
next
  case (Suc i)
  let ?c = "buf ! i" and ?k = "num_lf (take i buf)"
  have i: "i < length buf" using Suc.prems by auto
  have tk: "take (Suc i) buf = take i buf @ [?c]" using i by (rule take_Suc_conv_app_nth)
  show ?case
  proof (cases "?c = LF")
    case True
    let ?buf = "(buf[dst := CR])[dst - 1 := LF]"
    have k: "num_lf (take (Suc i) buf) = Suc ?k" using True by (simp add: tk num_lf_def)
    then have dst: "dst = Suc (i + ?k)" and len: "dst < length buf" using Suc.prems by auto
    have same: "take i ?buf = take i buf" using dst by simp
    have "drop (i + ?k) ?buf = [LF, CR] @ drop (Suc (Suc (i + ?k))) buf"
      using dst len by (simp add: drop_update)
    moreover have "expand_loop i (dst - 2) ?buf
        = concat (map crlf (take i ?buf)) @ drop (i + num_lf (take i ?buf)) ?buf"
      using dst len same by (intro Suc.IH) auto
    ultimately show ?thesis using True k same by (simp add: tk crlf_def [of LF])
  next
    case False
    let ?buf = "buf[dst := ?c]"
    have k: "num_lf (take (Suc i) buf) = ?k" using False by (simp add: tk num_lf_def)
    then have dst: "dst = i + ?k" and len: "dst < length buf" using Suc.prems by auto
    have same: "take i ?buf = take i buf" using dst by simp
    have "drop (i + ?k) ?buf = ?c # drop (Suc (i + ?k)) buf"
      using dst len by (simp add: drop_update)
    moreover have "expand_loop i (dst - 1) ?buf
        = concat (map crlf (take i ?buf)) @ drop (i + num_lf (take i ?buf)) ?buf"
      using dst len same by (intro Suc.IH) auto
    ultimately show ?thesis using False k same by (simp add: tk crlf_def [of ?c])
  qed
qed

lemma printf_text_eq:
  assumes "vsprintf fmt args = Some s" and "CHR 0x00 \<notin> set s"
    and "length s + num_lf s < printf_bufsize" and "length old = printf_bufsize"
  shows "printf_text old fmt args = Some (concat (map crlf s))"
proof -
  let ?buf = "s @ CHR 0x00 # drop (Suc (length s)) old"
  have nul: "takeWhile (\<lambda>c. c \<noteq> CHR 0x00) s = s" using assms(2) by (auto simp: takeWhile_eq_all_conv)
  have tk: "take (Suc (length s)) ?buf = s @ [CHR 0x00]" by simp
  have k: "num_lf (s @ [CHR 0x00]) = num_lf s" by (simp add: num_lf_def LF_def)
  have "expand_loop (Suc (length s)) (length s + num_lf s) ?buf
      = concat (map crlf (s @ [CHR 0x00])) @ drop (Suc (length s) + num_lf s) ?buf"
    using expand_loop_correct [of "Suc (length s)" "length s + num_lf s" ?buf] assms(3,4)
    by (simp only: tk k) simp
  moreover have "concat (map crlf s) = s" if "num_lf s = 0"
    using that by (induction s) (auto simp: num_lf_def crlf_def split: if_splits)
  ultimately show ?thesis
    using assms(1,3) length_crlf [of s]
    by (simp add: printf_text_def Let_def nul del: expand_loop.simps flip: num_lf_def)
qed

subsection \<open>Memory clusters\<close>

text \<open>
  The clusters the firmware describes: no wrap-around, and page 0 never heads a cluster that is
  free for the operating system (it belongs to the console).
\<close>

definition cluster_ok :: "memclust_struct \<Rightarrow> bool" where
  "cluster_ok c \<longleftrightarrow> start_pfn c \<le> start_pfn c + numpages c \<and> (usage c AND 3 = 0 \<longrightarrow> start_pfn c \<noteq> 0)"

lemma pred_less: "(x :: u64) \<noteq> 0 \<Longrightarrow> x \<le> y \<Longrightarrow> x - 1 < y"
  using unat_minus_one [of x] unat_gt_0 [of x] by (simp add: word_less_nat_alt word_le_nat_alt)

lemma check_memory_loop_first:
  assumes "list_all cluster_ok cs"
  shows "check_memory_loop cs s e =
    (case find (\<lambda>c. overlaps c s e) cs of
       None \<Rightarrow> - ENOMEM
     | Some c \<Rightarrow> if usage c AND 3 \<noteq> 0 then - EBUSY else 0)"
  using assms
proof (induction cs)
  case Nil
  then show ?case by simp
next
  case (Cons c cs)
  show ?case
  proof (cases "overlaps c s e \<and> usage c AND 3 = 0")
    case True
    with Cons.prems have "start_pfn c - 1 < start_pfn c + numpages c"
      by (intro pred_less) (auto simp: cluster_ok_def)
    moreover from True have "start_pfn c \<le> e" "start_pfn c + numpages c > s"
      by (auto simp: overlaps_def)
    ultimately show ?thesis using True by (simp add: overlaps_def Let_def)
  next
    case False
    with Cons show ?thesis by (auto simp: overlaps_def)
  qed
qed

lemma memory_end_loop_ge: "high \<le> memory_end_loop cs high"
proof (induction cs arbitrary: high)
  case (Cons c cs)
  then show ?case by (auto simp: Let_def not_less intro: order_trans order_less_imp_le)
qed simp

lemma memory_end_loop_free:
  "c \<in> set cs \<Longrightarrow> usage c = 0 \<Longrightarrow> push_bit PAGE_SHIFT (start_pfn c + numpages c) \<le> memory_end_loop cs high"
proof (induction cs arbitrary: high)
  case (Cons d cs)
  show ?case
  proof (cases "c = d")
    case True
    let ?t = "push_bit PAGE_SHIFT (start_pfn c + numpages c)"
    have "?t \<le> (if ?t > high then ?t else high)" by auto
    also have "\<dots> \<le> memory_end_loop cs (if ?t > high then ?t else high)" by (rule memory_end_loop_ge)
    finally show ?thesis using Cons.prems(2) unfolding True by (simp add: Let_def)
  next
    case False
    with Cons show ?thesis by (auto simp: Let_def)
  qed
qed simp

lemma memory_end_loop_attained:
  "memory_end_loop cs high = high \<or>
   (\<exists>c \<in> set cs. usage c = 0 \<and> memory_end_loop cs high = push_bit PAGE_SHIFT (start_pfn c + numpages c))"
proof (induction cs arbitrary: high)
  case (Cons c cs)
  show ?case
    using Cons.IH [of high] Cons.IH [of "push_bit PAGE_SHIFT (start_pfn c + numpages c)"]
    by (auto simp: Let_def)
qed simp

subsection \<open>The allocator\<close>

lemma unat_and_not7: "unat ((p :: u64) AND NOT 7) = unat p - unat p mod 8"
  using unat_and_not_mask [of p 3] by (simp add: mask_eq_exp_minus_1)

lemma malloc_SomeD:
  assumes "malloc cl pg dest fp sz = Some p"
  defines "p0 \<equiv> (if fp = 0 then memory_end cl else fp)"
  shows "p = (p0 - sz) AND NOT 7" and "dest + pg < p"
  using assms by (auto simp: malloc_def malloc_ptr_def Let_def not_le split: if_splits)

subsection \<open>Line input\<close>

definition printable :: "char \<Rightarrow> bool" where
  "printable c \<longleftrightarrow> CHR '' '' \<le> c \<and> c < CHR 0x7F"

lemma getline_char_bounds:
  assumes "getline_char maxlen c buf echo = (buf', echo')"
    and "int (length buf) \<le> max 0 (maxlen - 1)" and "list_all printable buf"
  shows "int (length buf') \<le> max 0 (maxlen - 1)" and "list_all printable buf'"
  using assms
  by (auto simp: getline_char_def printable_def list_all_iff split: if_splits dest: in_set_butlastD)

lemma getline_loop_bounds:
  assumes "getline_loop maxlen buf echo inp = Some (line, echo', rest)"
    and "int (length buf) \<le> max 0 (maxlen - 1)" and "list_all printable buf"
  shows "int (length line) \<le> max 0 (maxlen - 1) \<and> list_all printable line"
  using assms
proof (induction inp arbitrary: buf echo)
  case Nil
  then show ?case by simp
next
  case (Cons c inp)
  obtain b e where be: "getline_char maxlen c buf echo = (b, e)" by fastforce
  note inv = getline_char_bounds [OF be Cons.prems(2,3)]
  show ?case
    using Cons.IH [OF _ inv, of e] Cons.prems(1) inv be by (auto split: if_splits)
qed

lemma getline_loop_ends: "LF \<in> set inp \<or> CR \<in> set inp \<Longrightarrow> \<exists>r. getline_loop maxlen buf echo inp = Some r"
proof (induction maxlen buf echo inp rule: getline_loop.induct)
  case (1 maxlen buf echo)
  then show ?case by simp
next
  case (2 maxlen buf echo c inp)
  show ?case
  proof (cases "c \<noteq> CR \<and> c \<noteq> LF")
    case True
    with "2.prems" have "LF \<in> set inp \<or> CR \<in> set inp" by auto
    with "2.IH" True show ?thesis by (auto simp: Let_def split: prod.splits)
  next
    case False
    then show ?thesis by (auto split: prod.splits)
  qed
qed

subsection \<open>Properties\<close>

text \<open>
  The verdict of \<open>check_memory\<close> is decided by the first cluster of the firmware's table that
  overlaps the page range: a reserved one gives \<open>-EBUSY\<close>, a free one 0, and no overlap gives
  \<open>-ENOMEM\<close>.  Only clusters after the first overlapping one are never looked at.
\<close>

theorem check_memory_first_overlap:
  assumes "list_all cluster_ok cs"
  shows "check_memory cs start sz =
    (case find (\<lambda>c. overlaps c (drop_bit PAGE_SHIFT (phys_addr start))
                      (drop_bit PAGE_SHIFT (phys_addr start + sz - 1))) cs of
       None \<Rightarrow> - ENOMEM
     | Some c \<Rightarrow> if usage c AND 3 \<noteq> 0 then - EBUSY else 0)"
  unfolding check_memory_def using assms by (rule check_memory_loop_first)

theorem check_memory_first_overlap_witness:
  "check_memory [\<lparr>start_pfn = 0, numpages = 256, usage = 1\<rparr>, \<lparr>start_pfn = 256, numpages = 4096, usage = 0\<rparr>]
     0xfffffc0000310000 0x1000 = 0"
proof -
  let ?cs = "[\<lparr>start_pfn = 0, numpages = 256, usage = 1\<rparr>, \<lparr>start_pfn = 256, numpages = 4096, usage = 0\<rparr>]"
  have "list_all cluster_ok ?cs" by (simp add: cluster_ok_def)
  from check_memory_first_overlap [OF this, of "0xfffffc0000310000" "0x1000"] show ?thesis
    by (simp add: phys_addr_def overlaps_def PAGE_SHIFT_def)
qed



text \<open>
  C26.  \<open>getline\<close> always returns once the input contains a line end, and then the line fits the
  buffer together with its NUL and consists of printable ASCII characters only.
\<close>

theorem getline_safe:
  assumes "1 \<le> maxlen" and "LF \<in> set inp \<or> CR \<in> set inp"
  shows "\<exists>line echo rest. getline maxlen inp = Some (line, echo, rest)
           \<and> int (length line) + 1 \<le> maxlen \<and> list_all printable line"
proof -
  obtain line echo rest where "getline maxlen inp = Some (line, echo, rest)"
    using getline_loop_ends [OF assms(2), of maxlen "[]" "[]"] by (auto simp: getline_def)
  moreover from this have "int (length line) \<le> max 0 (maxlen - 1) \<and> list_all printable line"
    unfolding getline_def by (rule getline_loop_bounds) simp_all
  ultimately show ?thesis using assms(1) by (auto simp: max_def)
qed

theorem getline_safe_witness:
  "\<exists>line echo rest. getline 4 (''ab'' @ [CHR 0x08] @ ''cdefg'' @ [LF]) = Some (line, echo, rest)
     \<and> int (length line) + 1 \<le> 4 \<and> list_all printable line"
  by (rule getline_safe) simp_all

text \<open>
  \<open>printf\<close> sends the formatted text with every line feed expanded to two characters, in place
  and without loss, as long as the expanded text fits the static buffer.
\<close>

theorem printf_expands:
  assumes "vsprintf fmt args = Some s" and "CHR 0x00 \<notin> set s"
    and "length s + num_lf s < printf_bufsize" and "length old = printf_bufsize"
  shows "printf sts old fmt args
       = Some (cons_puts sts (concat (map crlf s)) (int (length s + num_lf s)))"
  using printf_text_eq [OF assms] length_crlf [of s] by (simp add: printf_def)

theorem printf_expands_witness:
  "printf [] (replicate 1024 (CHR 0x00)) (''a%s'' @ [LF]) [AStr (Some ''bc'')]
     = Some (cons_puts [] (concat (map crlf (''abc'' @ [LF]))) (int (length (''abc'' @ [LF]) + num_lf (''abc'' @ [LF]))))"
  by (rule printf_expands)
    (simp_all add: vsprintf_def conversion_def no_flags_def parse_width_def parse_precision_def
      parse_qualifier_def format_string_def is_digit_def less_eq_char_def LF_def num_lf_def
      printf_bufsize_def)

text \<open>
  After a successful switch to OSF/1 PALcode the HWRPB is consistent: its checksum is the sum
  of the quadwords before it and it names the new virtual page table; the level-1 self-map has moved
  from entry 1 to entry 1023.
\<close>

theorem pal_init_consistent:
  assumes "pal_init vptb switch_to_osf_pal st = Inr st'"
    and "length (hwrpb st) > HWRPB_CHKSUM" and "length (L1 st) = 1024"
  shows "hwrpb st' ! HWRPB_CHKSUM = hwrpb_sum (hwrpb st')
    \<and> hwrpb st' ! HWRPB_VPTB = new_vptb
    \<and> L1 st' ! 1023 = L1 st ! 1 \<and> L1 st' ! 1 = 0
    \<and> ptbr (pcb st') = drop_bit 32 (L1 st ! 1)
    \<and> pal_revision st' = palcode_avail st ! 2"
  using assms
  by (auto simp: pal_init_def Let_def hwrpb_sum_def HWRPB_CHKSUM_def HWRPB_VPTB_def nth_list_update
      split: if_splits)

definition example_pal_state :: pal_state where
  "example_pal_state =
     \<lparr>L1 = replicate 1024 0x500000000,
      pcb = \<lparr>ksp = 1, usp = 1, ptbr = 1, pcc = 1, asn = 1, pcb_unique = 1, pcb_flags = 0\<rparr>,
      hwrpb = replicate 40 3, pal_revision = 0, palcode_avail = replicate 16 0x10203\<rparr>"

theorem pal_init_consistent_witness:
  "\<exists>st'. pal_init (\<lambda>_. 0) (\<lambda>_. 0) example_pal_state = Inr st'
     \<and> hwrpb st' ! HWRPB_CHKSUM = hwrpb_sum (hwrpb st')
     \<and> L1 st' ! 1 = 0"
proof -
  obtain st' where st': "pal_init (\<lambda>_. 0) (\<lambda>_. 0) example_pal_state = Inr st'"
    by (auto simp: pal_init_def Let_def)
  moreover have "hwrpb st' ! HWRPB_CHKSUM = hwrpb_sum (hwrpb st')
    \<and> hwrpb st' ! HWRPB_VPTB = new_vptb
    \<and> L1 st' ! 1023 = L1 example_pal_state ! 1 \<and> L1 st' ! 1 = 0
    \<and> ptbr (pcb st') = drop_bit 32 (L1 example_pal_state ! 1)
    \<and> pal_revision st' = palcode_avail example_pal_state ! 2"
    by (rule pal_init_consistent [OF st']) (simp_all add: example_pal_state_def HWRPB_CHKSUM_def)
  ultimately show ?thesis by auto
qed

end
