(* ===== verification/Elf.thy ===== *)
theory Elf
  imports Utils
begin

text \<open>
  The ELF header check of the loader (\<open>is_loadable_elf\<close> in \<^verbatim>\<open>src/aboot.c\<close>) and the load
  description it leaves in the globals \<open>chunks\<close>, \<open>nchunks\<close>, \<open>start_addr\<close>, \<open>entry_addr\<close>,
  \<open>bss_start\<close> and \<open>bss_size\<close>.

  The buffer is byte memory read from its own start; header fields are read little endian at the
  offsets of \<open>Elf64_Ehdr\<close> and \<open>Elf64_Phdr\<close>.  Sums of header fields are 64-bit words and wrap.  The
  diagnostic that the code prints before it returns false is the reason of the rejection here.
\<close>

subsection \<open>Data\<close>

record segment =
  seg_addr :: u64
  seg_offset :: u64
  seg_size :: u64

record elf_phdr =
  p_type :: u32
  p_offset :: u64
  p_vaddr :: u64
  p_filesz :: u64
  p_memsz :: u64

record elf_globals =
  chunks :: "segment list"
  nchunks :: nat
  start_addr :: u64
  entry_addr :: u64
  bss_start :: u64
  bss_size :: u64
  free_mem_ptr :: u64

datatype elf_error =
    Not_elf
  | Wrong_machine
  | Not_executable
  | Headers_not_in_first_block
  | Memory_not_found nat
  | Memory_busy nat
  | Multiple_bss nat

datatype elf_verdict = Loadable | Rejected elf_error | Out_of_memory

text \<open>What the code reads of the machine: the firmware's memory table and page size, \<open>dest_addr\<close>.\<close>

record machine =
  clusters :: "memclust_struct list"
  pagesize :: u64
  dest_addr :: u64

subsection \<open>Header fields\<close>

definition e_type :: "mem \<Rightarrow> u16" where
  "e_type buf = get_le16 buf 16"

definition e_machine :: "mem \<Rightarrow> u16" where
  "e_machine buf = get_le16 buf 18"

definition e_entry :: "mem \<Rightarrow> u64" where
  "e_entry buf = get_le64 buf 24"

definition e_phoff :: "mem \<Rightarrow> u64" where
  "e_phoff buf = get_le64 buf 32"

definition e_phnum :: "mem \<Rightarrow> u16" where
  "e_phnum buf = get_le16 buf 56"

definition sizeof_phdr :: nat where
  "sizeof_phdr = 56"

definition read_phdr :: "mem \<Rightarrow> nat \<Rightarrow> elf_phdr" where
  "read_phdr buf a =
     \<lparr>p_type = get_le32 buf a, p_offset = get_le64 buf (a + 8), p_vaddr = get_le64 buf (a + 16),
      p_filesz = get_le64 buf (a + 32), p_memsz = get_le64 buf (a + 40)\<rparr>"

definition phdrs_of :: "mem \<Rightarrow> elf_phdr list" where
  "phdrs_of buf =
     map (\<lambda>i. read_phdr buf (unat (e_phoff buf) + i * sizeof_phdr)) [0..<unat (e_phnum buf)]"

definition PT_LOAD :: u32 where
  "PT_LOAD = 1"

definition EM_ALPHA :: u16 where
  "EM_ALPHA = 0x9026"

definition ET_EXEC :: u16 where
  "ET_EXEC = 2"

definition segment_of :: "elf_phdr \<Rightarrow> segment" where
  "segment_of p = \<lparr>seg_addr = p_vaddr p, seg_offset = p_offset p, seg_size = p_filesz p\<rparr>"

subsection \<open>The check\<close>

text \<open>The loop over the program headers; \<open>i\<close> is the header's index, \<open>j\<close> the chunks filled so far.\<close>

fun phdr_loop ::
  "machine \<Rightarrow> elf_phdr list \<Rightarrow> nat \<Rightarrow> segment list \<Rightarrow> elf_globals \<Rightarrow> elf_verdict \<times> elf_globals" where
  "phdr_loop mc [] i j g = (Loadable, g\<lparr>chunks := j, nchunks := length j\<rparr>)"
| "phdr_loop mc (p # ps) i j g =
     (if p_type p \<noteq> PT_LOAD then phdr_loop mc ps (Suc i) j g
      else
        let j' = j @ [segment_of p];
            status = check_memory (clusters mc) (p_vaddr p) (p_filesz p)
        in if status \<noteq> 0
           then (Rejected (if status = - ENOMEM then Memory_not_found i else Memory_busy i),
                 g\<lparr>chunks := j'\<rparr>)
           else if p_memsz p > p_filesz p then
             if sint (bss_size g) > 0 then (Rejected (Multiple_bss i), g\<lparr>chunks := j'\<rparr>)
             else phdr_loop mc ps (Suc i) j'
                    (g\<lparr>bss_start := p_vaddr p + p_filesz p, bss_size := p_memsz p - p_filesz p\<rparr>)
           else phdr_loop mc ps (Suc i) j' g)"

definition is_loadable_elf :: "machine \<Rightarrow> mem \<Rightarrow> int \<Rightarrow> elf_globals \<Rightarrow> elf_verdict \<times> elf_globals" where
  "is_loadable_elf mc buf blocksize g =
     (if buf 0 \<noteq> 0x7f \<or> buf 1 \<noteq> 0x45 \<or> buf 2 \<noteq> 0x4c \<or> buf 3 \<noteq> 0x46 then (Rejected Not_elf, g)
      else if buf 4 \<noteq> 2 \<or> buf 5 \<noteq> 1 \<or> e_machine buf \<noteq> EM_ALPHA then (Rejected Wrong_machine, g)
      else if e_type buf \<noteq> ET_EXEC then (Rejected Not_executable, g)
      else if e_phoff buf + of_nat (unat (e_phnum buf) * sizeof_phdr)
              > ucast (word_of_int blocksize :: u32)
      then (Rejected Headers_not_in_first_block, g)
      else
        case malloc (clusters mc) (pagesize mc) (dest_addr mc) (free_mem_ptr g)
               (of_nat (24 * unat (e_phnum buf))) of
          None \<Rightarrow> (Out_of_memory, g\<lparr>free_mem_ptr := malloc_ptr (clusters mc) (free_mem_ptr g)
                                  (of_nat (24 * unat (e_phnum buf)))\<rparr>)
        | Some ptr \<Rightarrow>
            phdr_loop mc (phdrs_of buf) 0 []
              (g\<lparr>free_mem_ptr := ptr, chunks := [],
                 start_addr := p_vaddr (read_phdr buf (unat (e_phoff buf))),
                 entry_addr := e_entry buf\<rparr>))"

subsection \<open>What a successful check means\<close>

definition load_phdrs :: "elf_phdr list \<Rightarrow> elf_phdr list" where
  "load_phdrs ps = filter (\<lambda>p. p_type p = PT_LOAD) ps"

definition has_bss :: "elf_phdr \<Rightarrow> bool" where
  "has_bss p \<longleftrightarrow> p_memsz p > p_filesz p"

text \<open>
  A program header list is acceptable when all loadable segments lie in free memory and no
  segment with a BSS part follows a positive \<open>bss_size\<close>.
\<close>

fun bss_acceptable :: "u64 \<Rightarrow> elf_phdr list \<Rightarrow> bool" where
  "bss_acceptable b [] = True"
| "bss_acceptable b (p # ps) =
     (if has_bss p then \<not> sint b > 0 \<and> bss_acceptable (p_memsz p - p_filesz p) ps
      else bss_acceptable b ps)"

fun last_bss :: "elf_phdr list \<Rightarrow> u64 \<times> u64 \<Rightarrow> u64 \<times> u64" where
  "last_bss [] b = b"
| "last_bss (p # ps) b =
     last_bss ps (if has_bss p then (p_vaddr p + p_filesz p, p_memsz p - p_filesz p) else b)"

lemma load_phdrs_Cons:
  "load_phdrs (p # ps) = (if p_type p = PT_LOAD then p # load_phdrs ps else load_phdrs ps)"
  by (simp add: load_phdrs_def)

lemma load_phdrs_Nil [simp]: "load_phdrs [] = []"
  by (simp add: load_phdrs_def)

lemma phdr_loop_Loadable:
  "fst (phdr_loop mc ps i j g) = Loadable \<longleftrightarrow>
     (\<forall>p \<in> set (load_phdrs ps). check_memory (clusters mc) (p_vaddr p) (p_filesz p) = 0)
     \<and> bss_acceptable (bss_size g) (load_phdrs ps)"
proof (induction ps arbitrary: i j g)
  case Nil
  then show ?case by simp
next
  case (Cons p ps)
  then show ?case by (auto simp: load_phdrs_Cons has_bss_def Let_def)
qed

lemma phdr_loop_result:
  assumes "phdr_loop mc ps i j g = (Loadable, g')"
  shows "g' = g\<lparr>chunks := j @ map segment_of (load_phdrs ps),
                nchunks := length j + length (load_phdrs ps),
                bss_start := fst (last_bss (load_phdrs ps) (bss_start g, bss_size g)),
                bss_size := snd (last_bss (load_phdrs ps) (bss_start g, bss_size g))\<rparr>"
  using assms
proof (induction ps arbitrary: i j g)
  case Nil
  then have "g' = g\<lparr>chunks := j, nchunks := length j\<rparr>" by simp
  then show ?case by simp
next
  case (Cons p ps)
  show ?case
  proof (cases "p_type p = PT_LOAD")
    case False
    with Cons show ?thesis by (simp add: load_phdrs_Cons)
  next
    case True
    let ?g = "if has_bss p
              then g\<lparr>bss_start := p_vaddr p + p_filesz p, bss_size := p_memsz p - p_filesz p\<rparr> else g"
    have "phdr_loop mc ps (Suc i) (j @ [segment_of p]) ?g = (Loadable, g')"
      using Cons.prems True by (auto simp: has_bss_def Let_def split: if_splits)
    from Cons.IH [OF this] True show ?thesis by (simp add: load_phdrs_Cons)
  qed
qed

lemma bss_acceptable_stale:
  "sint b > 0 \<Longrightarrow> p \<in> set ps \<Longrightarrow> has_bss p \<Longrightarrow> \<not> bss_acceptable b ps"
  by (induction ps) auto

text \<open>The header fields that decide the early rejections.\<close>

definition elf_ident_ok :: "mem \<Rightarrow> bool" where
  "elf_ident_ok buf \<longleftrightarrow> bytes_at buf 0 6 = [0x7f, 0x45, 0x4c, 0x46, 2, 1]
     \<and> e_machine buf = EM_ALPHA \<and> e_type buf = ET_EXEC"

definition phdrs_in_block :: "mem \<Rightarrow> int \<Rightarrow> bool" where
  "phdrs_in_block buf blocksize \<longleftrightarrow>
     e_phoff buf + of_nat (unat (e_phnum buf) * sizeof_phdr) \<le> ucast (word_of_int blocksize :: u32)"

lemma bytes_at_6: "bytes_at buf 0 6 = [buf 0, buf 1, buf 2, buf 3, buf 4, buf 5]"
  by (simp add: bytes_at_def upt_rec eval_nat_numeral)

definition elf_malloc :: "machine \<Rightarrow> mem \<Rightarrow> elf_globals \<Rightarrow> u64 option" where
  "elf_malloc mc buf g = malloc (clusters mc) (pagesize mc) (dest_addr mc) (free_mem_ptr g)
     (of_nat (24 * unat (e_phnum buf)))"

lemma is_loadable_elf_accepted:
  assumes "elf_ident_ok buf" and "phdrs_in_block buf blocksize" and "elf_malloc mc buf g = Some ptr"
  shows "is_loadable_elf mc buf blocksize g =
    phdr_loop mc (phdrs_of buf) 0 []
      (g\<lparr>free_mem_ptr := ptr, chunks := [],
         start_addr := p_vaddr (read_phdr buf (unat (e_phoff buf))), entry_addr := e_entry buf\<rparr>)"
  using assms
  by (auto simp: is_loadable_elf_def elf_ident_ok_def bytes_at_6 phdrs_in_block_def elf_malloc_def
      dest: leD)

lemma is_loadable_elf_LoadableD:
  assumes "fst (is_loadable_elf mc buf blocksize g) = Loadable"
  shows "elf_ident_ok buf" and "phdrs_in_block buf blocksize" and "\<exists>ptr. elf_malloc mc buf g = Some ptr"
  using assms
  by (auto simp: is_loadable_elf_def elf_ident_ok_def bytes_at_6 phdrs_in_block_def elf_malloc_def
      not_less split: if_splits option.splits)

subsection \<open>Which bytes are read\<close>

lemma get_le_cong:
  assumes "\<forall>i<n. b i = b' i"
  shows "a + 2 \<le> n \<Longrightarrow> get_le16 b a = get_le16 b' a"
    and "a + 4 \<le> n \<Longrightarrow> get_le32 b a = get_le32 b' a"
    and "a + 8 \<le> n \<Longrightarrow> get_le64 b a = get_le64 b' a"
proof -
  have "bytes_at b a k = bytes_at b' a k" if "a + k \<le> n" for k
    by (rule bytes_at_cong) (use assms that in auto)
  then show "a + 2 \<le> n \<Longrightarrow> get_le16 b a = get_le16 b' a"
    and "a + 4 \<le> n \<Longrightarrow> get_le32 b a = get_le32 b' a"
    and "a + 8 \<le> n \<Longrightarrow> get_le64 b a = get_le64 b' a"
    by (simp_all add: get_le16_def get_le32_def get_le64_def)
qed

lemma read_phdr_cong:
  assumes "\<forall>i<n. b i = b' i" and "a + sizeof_phdr \<le> n"
  shows "read_phdr b a = read_phdr b' a"
  using assms(2) get_le_cong [OF assms(1)]
  by (simp add: read_phdr_def sizeof_phdr_def)

lemma header_cong:
  assumes "\<forall>i<n. b i = b' i" and "64 \<le> n"
  shows "e_type b = e_type b'" and "e_machine b = e_machine b'" and "e_entry b = e_entry b'"
    and "e_phoff b = e_phoff b'" and "e_phnum b = e_phnum b'"
  using assms(2) get_le_cong [OF assms(1)]
  by (simp_all add: e_type_def e_machine_def e_entry_def e_phoff_def e_phnum_def)

lemma phdrs_of_cong:
  assumes same: "\<forall>i<n. b i = b' i" and "64 \<le> n"
    and "unat (e_phoff b) + unat (e_phnum b) * sizeof_phdr \<le> n"
  shows "phdrs_of b = phdrs_of b'"
proof -
  have "read_phdr b (unat (e_phoff b) + i * sizeof_phdr) = read_phdr b' (unat (e_phoff b) + i * sizeof_phdr)"
    if "i < unat (e_phnum b)" for i
  proof (rule read_phdr_cong [OF same])
    have "Suc i * sizeof_phdr \<le> unat (e_phnum b) * sizeof_phdr"
      using that by (intro mult_le_mono1) simp
    with assms(3) show "unat (e_phoff b) + i * sizeof_phdr + sizeof_phdr \<le> n" by simp
  qed
  then show ?thesis
    using header_cong [OF same assms(2)] by (simp add: phdrs_of_def)
qed

subsection \<open>Properties\<close>

text \<open>An example kernel image: one loadable segment with a BSS part.\<close>

definition example_elf :: bytes where
  "example_elf =
     [0x7f, 0x45, 0x4c, 0x46, 2, 1, 1, 0, 0, 0, 0, 0, 0, 0, 0, 0,
      2, 0, 0x26, 0x90, 1, 0, 0, 0, 0, 0, 0x31, 0, 0, 0xfc, 0xff, 0xff,
      64, 0, 0, 0, 0, 0, 0, 0, 0, 0, 0, 0, 0, 0, 0, 0,
      0, 0, 0, 0, 64, 0, 56, 0, 1, 0, 0, 0, 0, 0, 0, 0,
      1, 0, 0, 0, 7, 0, 0, 0, 120, 0, 0, 0, 0, 0, 0, 0,
      0, 0, 0x31, 0, 0, 0xfc, 0xff, 0xff, 0, 0, 0x31, 0, 0, 0xfc, 0xff, 0xff,
      4, 0, 0, 0, 0, 0, 0, 0, 8, 0, 0, 0, 0, 0, 0, 0,
      0, 0x20, 0, 0, 0, 0, 0, 0]"

definition example_machine :: machine where
  "example_machine =
     \<lparr>clusters = [\<lparr>start_pfn = 0, numpages = 256, usage = 1\<rparr>, \<lparr>start_pfn = 256, numpages = 4096, usage = 0\<rparr>],
      pagesize = 8192, dest_addr = 0\<rparr>"

definition example_globals :: elf_globals where
  "example_globals =
     \<lparr>chunks = [], nchunks = 0, start_addr = 0, entry_addr = 0, bss_start = 0, bss_size = 0, free_mem_ptr = 0\<rparr>"

lemma example_length: "length example_elf = 120"
  by (simp add: example_elf_def)

definition holds_example :: "mem \<Rightarrow> bool" where
  "holds_example b \<longleftrightarrow> bytes_at b 0 120 = example_elf"

lemma holds_example_poke [simp]: "holds_example (poke f 0 example_elf)"
  using bytes_at_poke [of f 0 example_elf] by (simp add: holds_example_def example_length)

lemma example_bytes:
  assumes "holds_example b" and "a + n \<le> 120"
  shows "bytes_at b a n = slice a n example_elf"
proof (rule nth_equalityI)
  fix i assume "i < length (bytes_at b a n)"
  then have "i < n" by simp
  then show "bytes_at b a n ! i = slice a n example_elf ! i"
    using assms nth_bytes_at [of "a + i" 120 b 0] by (simp add: holds_example_def nth_slice example_length)
qed (use assms in \<open>simp add: slice_simps example_length\<close>)

lemma example_fields:
  assumes "holds_example b"
  shows "elf_ident_ok b" "e_phoff b = 64" "e_phnum b = 1" "e_entry b = 0xfffffc0000310000"
    "read_phdr b 64 =
     \<lparr>p_type = 1, p_offset = 120, p_vaddr = 0xfffffc0000310000, p_filesz = 4, p_memsz = 8\<rparr>"
  by (simp_all add: elf_ident_ok_def e_machine_def e_type_def EM_ALPHA_def ET_EXEC_def e_phoff_def
      e_phnum_def e_entry_def read_phdr_def get_le16_def get_le32_def get_le64_def example_bytes [OF assms])
    (simp_all add: slice_def example_elf_def)

lemma example_phdrs:
  "holds_example b \<Longrightarrow> load_phdrs (phdrs_of b) =
     [\<lparr>p_type = 1, p_offset = 120, p_vaddr = 0xfffffc0000310000, p_filesz = 4, p_memsz = 8\<rparr>]"
  by (simp add: phdrs_of_def example_fields load_phdrs_def PT_LOAD_def)

definition example_segment :: segment where
  "example_segment = \<lparr>seg_addr = 0xfffffc0000310000, seg_offset = 120, seg_size = 4\<rparr>"

lemma example_loadable_if:
  assumes "holds_example b" and "120 \<le> blocksize" and "blocksize < 2 ^ 31"
    and "bss_size g0 = 0" and ptr: "elf_malloc example_machine b g0 = Some ptr"
  shows "\<exists>g. is_loadable_elf example_machine b blocksize g0 = (Loadable, g)
           \<and> chunks g = [example_segment] \<and> nchunks g = 1"
proof -
  let ?l = "is_loadable_elf example_machine b blocksize g0"
  have "(120 :: u64) \<le> ucast (word_of_int blocksize :: u32)"
    using assms(2,3) by (simp add: word_le_nat_alt unat_ucast_up unsigned_of_int take_bit_int_eq_self)
  then have blk: "phdrs_in_block b blocksize"
    by (simp add: phdrs_in_block_def example_fields [OF assms(1)] sizeof_phdr_def)
  note eq = is_loadable_elf_accepted [OF example_fields(1) [OF assms(1)] blk ptr]
  have "fst ?l = Loadable"
    unfolding eq
    by (simp add: phdr_loop_Loadable example_phdrs [OF assms(1)] assms(4)
        example_machine_def has_bss_def check_memory_def phys_addr_def PAGE_SHIFT_def)
  then obtain g where g: "?l = (Loadable, g)" by (metis prod.collapse)
  from phdr_loop_result [OF g [unfolded eq]] example_phdrs [OF assms(1)]
  have "chunks g = [example_segment]" "nchunks g = 1"
    by (simp_all add: segment_of_def example_segment_def)
  with g show ?thesis by blast
qed

lemma example_bss:
  assumes "holds_example b" and "is_loadable_elf example_machine b blocksize g0 = (Loadable, g)"
  shows "bss_start g = 0xfffffc0000310004" and "bss_size g = 4" and "start_addr g = 0xfffffc0000310000" and "entry_addr g = 0xfffffc0000310000"
proof -
  from assms(2) have "fst (is_loadable_elf example_machine b blocksize g0) = Loadable" by simp
  from is_loadable_elf_LoadableD [OF this] obtain ptr where
    *: "elf_ident_ok b" "phdrs_in_block b blocksize" "elf_malloc example_machine b g0 = Some ptr" by blast
  from phdr_loop_result [OF assms(2) [unfolded is_loadable_elf_accepted [OF *]]] example_phdrs [OF assms(1)]
  show "bss_start g = 0xfffffc0000310004" "bss_size g = 4" "start_addr g = 0xfffffc0000310000" "entry_addr g = 0xfffffc0000310000"
    by (simp_all add: has_bss_def example_fields [OF assms(1)])
qed

lemma example_elf_loadable:
  assumes "holds_example b" and "120 \<le> blocksize" and "blocksize < 2 ^ 31"
  shows "\<exists>g. is_loadable_elf example_machine b blocksize example_globals = (Loadable, g)
           \<and> chunks g = [example_segment] \<and> nchunks g = 1"
proof -
  obtain ptr where "elf_malloc example_machine b example_globals = Some ptr"
    by (simp add: elf_malloc_def example_machine_def example_globals_def example_fields [OF assms(1)]
        malloc_def malloc_ptr_def memory_end_def page_offset_def PAGE_SHIFT_def)
  with assms show ?thesis by (intro example_loadable_if) (simp_all add: example_globals_def)
qed

text \<open>
  C5.  \<open>is_loadable_elf\<close> accepts exactly the 64-bit little-endian Alpha executables whose program
  headers end inside the first block (as computed in 64-bit arithmetic), whose loadable segments all
  pass the memory check, and in which no segment with a BSS part meets a positive \<open>bss_size\<close>,
  provided the table for the segments can be allocated.
\<close>

theorem is_loadable_elf_iff:
  "fst (is_loadable_elf mc buf blocksize g) = Loadable \<longleftrightarrow>
     elf_ident_ok buf \<and> phdrs_in_block buf blocksize \<and> elf_malloc mc buf g \<noteq> None
     \<and> list_all (\<lambda>p. check_memory (clusters mc) (p_vaddr p) (p_filesz p) = 0) (load_phdrs (phdrs_of buf))
     \<and> bss_acceptable (bss_size g) (load_phdrs (phdrs_of buf))"
proof
  assume l: "fst (is_loadable_elf mc buf blocksize g) = Loadable"
  from is_loadable_elf_LoadableD [OF l] obtain ptr where
    *: "elf_ident_ok buf" "phdrs_in_block buf blocksize" "elf_malloc mc buf g = Some ptr" by blast
  from l [unfolded is_loadable_elf_accepted [OF *]] * show "elf_ident_ok buf \<and> phdrs_in_block buf blocksize
     \<and> elf_malloc mc buf g \<noteq> None
     \<and> list_all (\<lambda>p. check_memory (clusters mc) (p_vaddr p) (p_filesz p) = 0) (load_phdrs (phdrs_of buf))
     \<and> bss_acceptable (bss_size g) (load_phdrs (phdrs_of buf))"
    by (simp add: phdr_loop_Loadable list_all_iff)
next
  assume "elf_ident_ok buf \<and> phdrs_in_block buf blocksize \<and> elf_malloc mc buf g \<noteq> None
     \<and> list_all (\<lambda>p. check_memory (clusters mc) (p_vaddr p) (p_filesz p) = 0) (load_phdrs (phdrs_of buf))
     \<and> bss_acceptable (bss_size g) (load_phdrs (phdrs_of buf))"
  then show "fst (is_loadable_elf mc buf blocksize g) = Loadable"
    by (auto simp: is_loadable_elf_accepted phdr_loop_Loadable list_all_iff)
qed

text \<open>
  After acceptance the load description is the program header table: \<open>chunks\<close> holds address,
  file offset and file size of the loadable headers in order, \<open>nchunks\<close> their number, the entry point
  is the header's, and the BSS is the one of the last segment that has any.
\<close>

theorem is_loadable_elf_chunks:
  assumes "is_loadable_elf mc buf blocksize g = (Loadable, g')"
  shows "chunks g' = map segment_of (load_phdrs (phdrs_of buf))
    \<and> nchunks g' = length (chunks g')
    \<and> entry_addr g' = e_entry buf
    \<and> start_addr g' = p_vaddr (read_phdr buf (unat (e_phoff buf)))
    \<and> (bss_start g', bss_size g') = last_bss (load_phdrs (phdrs_of buf)) (bss_start g, bss_size g)"
proof -
  have "fst (is_loadable_elf mc buf blocksize g) = Loadable" using assms by simp
  from is_loadable_elf_LoadableD [OF this] obtain ptr where
    *: "elf_ident_ok buf" "phdrs_in_block buf blocksize" "elf_malloc mc buf g = Some ptr" by blast
  from phdr_loop_result [OF assms [unfolded is_loadable_elf_accepted [OF *]]] show ?thesis by simp
qed

theorem is_loadable_elf_chunks_witness:
  "\<exists>g'. is_loadable_elf example_machine (poke (\<lambda>_. 0) 0 example_elf) 1024 example_globals = (Loadable, g')
     \<and> nchunks g' = length (chunks g')
     \<and> entry_addr g' = e_entry (poke (\<lambda>_. 0) 0 example_elf)"
proof -
  obtain g' where g': "is_loadable_elf example_machine (poke (\<lambda>_. 0) 0 example_elf) 1024 example_globals
      = (Loadable, g')"
    using example_elf_loadable [of "poke (\<lambda>_. 0) 0 example_elf" 1024] by auto
  with is_loadable_elf_chunks [OF g'] show ?thesis by blast
qed

text \<open>
  The check reads only the first block: when the program header table does not wrap around
  the address space and has at least one entry, two buffers that agree on the first \<open>blocksize\<close>
  bytes give the same verdict and the same load description.
\<close>

theorem is_loadable_elf_reads_first_block:
  assumes same: "bytes_at buf 0 blocksize = bytes_at buf' 0 blocksize"
    and "64 \<le> blocksize" and "blocksize < 2 ^ 32"
    and nowrap: "unat (e_phoff buf) + unat (e_phnum buf) * sizeof_phdr < 2 ^ 64"
    and "0 < e_phnum buf"
  shows "is_loadable_elf mc buf (int blocksize) g = is_loadable_elf mc buf' (int blocksize) g"
proof -
  have eq: "\<forall>i<blocksize. buf i = buf' i"
    using same by (metis add_0 nth_bytes_at)
  note hdr = header_cong [OF eq assms(2)]
  have "buf i = buf' i" if "i < 6" for i using eq that assms(2) by simp
  then have ident: "buf 0 = buf' 0" "buf 1 = buf' 1" "buf 2 = buf' 2" "buf 3 = buf' 3"
    "buf 4 = buf' 4" "buf 5 = buf' 5" by simp_all
  show ?thesis
  proof (cases "e_phoff buf + of_nat (unat (e_phnum buf) * sizeof_phdr)
                  > ucast (word_of_int (int blocksize) :: u32)")
    case True
    with hdr ident show ?thesis by (simp add: is_loadable_elf_def)
  next
    case False
    have "unat (e_phoff buf + of_nat (unat (e_phnum buf) * sizeof_phdr))
        = unat (e_phoff buf) + unat (e_phnum buf) * sizeof_phdr"
      using nowrap by (simp add: unat_word_ariths unat_of_nat del: of_nat_mult)
    moreover have "unat (ucast (word_of_int (int blocksize) :: u32) :: u64) = blocksize"
      using assms(3) by (simp add: unsigned_ucast_eq unsigned_of_nat take_bit_nat_eq_self)
    ultimately have in_block: "unat (e_phoff buf) + unat (e_phnum buf) * sizeof_phdr \<le> blocksize"
      using False by (simp add: word_le_nat_alt not_less)
    have "sizeof_phdr \<le> unat (e_phnum buf) * sizeof_phdr"
      using assms(5) by (simp add: word_less_nat_alt)
    with in_block have first: "unat (e_phoff buf) + sizeof_phdr \<le> blocksize" by linarith
    have "read_phdr buf (unat (e_phoff buf)) = read_phdr buf' (unat (e_phoff buf))"
      by (rule read_phdr_cong [OF eq first])
    moreover note phdrs_of_cong [OF eq assms(2) in_block]
    ultimately show ?thesis using hdr ident by (simp add: is_loadable_elf_def split: option.split)
  qed
qed

theorem is_loadable_elf_reads_first_block_witness:
  "is_loadable_elf example_machine (poke (\<lambda>_. 0) 0 example_elf) (int 120) example_globals
     = is_loadable_elf example_machine (poke (\<lambda>_. 99) 0 example_elf) (int 120) example_globals"
  by (rule is_loadable_elf_reads_first_block)
    (simp_all add: example_bytes example_fields sizeof_phdr_def)

text \<open>
  \<open>bss_size\<close> is never reset: once an accepted or half-checked image has left a positive
  \<open>bss_size\<close>, every further image with a BSS part is rejected, so a kernel can not be loaded a second
  time after a failed attempt.
\<close>

theorem is_loadable_elf_stale_bss:
  assumes "sint (bss_size g) > 0" and "p \<in> set (load_phdrs (phdrs_of buf))" and "has_bss p"
  shows "fst (is_loadable_elf mc buf blocksize g) \<noteq> Loadable"
proof
  assume l: "fst (is_loadable_elf mc buf blocksize g) = Loadable"
  from is_loadable_elf_LoadableD [OF l] obtain ptr where
    *: "elf_ident_ok buf" "phdrs_in_block buf blocksize" "elf_malloc mc buf g = Some ptr" by blast
  from l [unfolded is_loadable_elf_accepted [OF *]]
  have "bss_acceptable (bss_size g) (load_phdrs (phdrs_of buf))" by (simp add: phdr_loop_Loadable)
  with bss_acceptable_stale [OF assms] show False by simp
qed

theorem is_loadable_elf_stale_bss_witness:
  "fst (is_loadable_elf example_machine (poke (\<lambda>_. 0) 0 example_elf) 1024 (example_globals\<lparr>bss_size := 4096\<rparr>)) \<noteq> Loadable"
  by (rule is_loadable_elf_stale_bss [of _ "hd (load_phdrs (phdrs_of (poke (\<lambda>_. 0) 0 example_elf)))"])
    (simp_all add: example_phdrs has_bss_def)

end
