(* ===== verification/Crc32.thy ===== *)
theory Crc32
  imports Prelude
begin

text \<open>
  The CRC of the gzip reader (\<open>crc_32_tab\<close> and \<open>updcrc\<close> in \<^verbatim>\<open>src/zip/misc.c\<close>) and its equivalence
  with the bit-serial definition of CRC-32.

  The shift register is an \<open>unsigned long\<close>, 64 bits wide, as in the code.
\<close>

definition crc_32_tab :: "u32 list" where
  "crc_32_tab =
     [0x00000000, 0x77073096, 0xee0e612c, 0x990951ba, 0x076dc419, 0x706af48f,
      0xe963a535, 0x9e6495a3, 0x0edb8832, 0x79dcb8a4, 0xe0d5e91e, 0x97d2d988,
      0x09b64c2b, 0x7eb17cbd, 0xe7b82d07, 0x90bf1d91, 0x1db71064, 0x6ab020f2,
      0xf3b97148, 0x84be41de, 0x1adad47d, 0x6ddde4eb, 0xf4d4b551, 0x83d385c7,
      0x136c9856, 0x646ba8c0, 0xfd62f97a, 0x8a65c9ec, 0x14015c4f, 0x63066cd9,
      0xfa0f3d63, 0x8d080df5, 0x3b6e20c8, 0x4c69105e, 0xd56041e4, 0xa2677172,
      0x3c03e4d1, 0x4b04d447, 0xd20d85fd, 0xa50ab56b, 0x35b5a8fa, 0x42b2986c,
      0xdbbbc9d6, 0xacbcf940, 0x32d86ce3, 0x45df5c75, 0xdcd60dcf, 0xabd13d59,
      0x26d930ac, 0x51de003a, 0xc8d75180, 0xbfd06116, 0x21b4f4b5, 0x56b3c423,
      0xcfba9599, 0xb8bda50f, 0x2802b89e, 0x5f058808, 0xc60cd9b2, 0xb10be924,
      0x2f6f7c87, 0x58684c11, 0xc1611dab, 0xb6662d3d, 0x76dc4190, 0x01db7106,
      0x98d220bc, 0xefd5102a, 0x71b18589, 0x06b6b51f, 0x9fbfe4a5, 0xe8b8d433,
      0x7807c9a2, 0x0f00f934, 0x9609a88e, 0xe10e9818, 0x7f6a0dbb, 0x086d3d2d,
      0x91646c97, 0xe6635c01, 0x6b6b51f4, 0x1c6c6162, 0x856530d8, 0xf262004e,
      0x6c0695ed, 0x1b01a57b, 0x8208f4c1, 0xf50fc457, 0x65b0d9c6, 0x12b7e950,
      0x8bbeb8ea, 0xfcb9887c, 0x62dd1ddf, 0x15da2d49, 0x8cd37cf3, 0xfbd44c65,
      0x4db26158, 0x3ab551ce, 0xa3bc0074, 0xd4bb30e2, 0x4adfa541, 0x3dd895d7,
      0xa4d1c46d, 0xd3d6f4fb, 0x4369e96a, 0x346ed9fc, 0xad678846, 0xda60b8d0,
      0x44042d73, 0x33031de5, 0xaa0a4c5f, 0xdd0d7cc9, 0x5005713c, 0x270241aa,
      0xbe0b1010, 0xc90c2086, 0x5768b525, 0x206f85b3, 0xb966d409, 0xce61e49f,
      0x5edef90e, 0x29d9c998, 0xb0d09822, 0xc7d7a8b4, 0x59b33d17, 0x2eb40d81,
      0xb7bd5c3b, 0xc0ba6cad, 0xedb88320, 0x9abfb3b6, 0x03b6e20c, 0x74b1d29a,
      0xead54739, 0x9dd277af, 0x04db2615, 0x73dc1683, 0xe3630b12, 0x94643b84,
      0x0d6d6a3e, 0x7a6a5aa8, 0xe40ecf0b, 0x9309ff9d, 0x0a00ae27, 0x7d079eb1,
      0xf00f9344, 0x8708a3d2, 0x1e01f268, 0x6906c2fe, 0xf762575d, 0x806567cb,
      0x196c3671, 0x6e6b06e7, 0xfed41b76, 0x89d32be0, 0x10da7a5a, 0x67dd4acc,
      0xf9b9df6f, 0x8ebeeff9, 0x17b7be43, 0x60b08ed5, 0xd6d6a3e8, 0xa1d1937e,
      0x38d8c2c4, 0x4fdff252, 0xd1bb67f1, 0xa6bc5767, 0x3fb506dd, 0x48b2364b,
      0xd80d2bda, 0xaf0a1b4c, 0x36034af6, 0x41047a60, 0xdf60efc3, 0xa867df55,
      0x316e8eef, 0x4669be79, 0xcb61b38c, 0xbc66831a, 0x256fd2a0, 0x5268e236,
      0xcc0c7795, 0xbb0b4703, 0x220216b9, 0x5505262f, 0xc5ba3bbe, 0xb2bd0b28,
      0x2bb45a92, 0x5cb36a04, 0xc2d7ffa7, 0xb5d0cf31, 0x2cd99e8b, 0x5bdeae1d,
      0x9b64c2b0, 0xec63f226, 0x756aa39c, 0x026d930a, 0x9c0906a9, 0xeb0e363f,
      0x72076785, 0x05005713, 0x95bf4a82, 0xe2b87a14, 0x7bb12bae, 0x0cb61b38,
      0x92d28e9b, 0xe5d5be0d, 0x7cdcefb7, 0x0bdbdf21, 0x86d3d2d4, 0xf1d4e242,
      0x68ddb3f8, 0x1fda836e, 0x81be16cd, 0xf6b9265b, 0x6fb077e1, 0x18b74777,
      0x88085ae6, 0xff0f6a70, 0x66063bca, 0x11010b5c, 0x8f659eff, 0xf862ae69,
      0x616bffd3, 0x166ccf45, 0xa00ae278, 0xd70dd2ee, 0x4e048354, 0x3903b3c2,
      0xa7672661, 0xd06016f7, 0x4969474d, 0x3e6e77db, 0xaed16a4a, 0xd9d65adc,
      0x40df0b66, 0x37d83bf0, 0xa9bcae53, 0xdebb9ec5, 0x47b2cf7f, 0x30b5ffe9,
      0xbdbdf21c, 0xcabac28a, 0x53b39330, 0x24b4a3a6, 0xbad03605, 0xcdd70693,
      0x54de5729, 0x23d967bf, 0xb3667a2e, 0xc4614ab8, 0x5d681b02, 0x2a6f2b94,
      0xb40bbe37, 0xc30c8ea1, 0x5a05df1b, 0x2d02ef8d]"

text \<open>\<open>while (n--) c = crc_32_tab[((int)c ^ ( *s++)) & 0xff] ^ (c >> 8)\<close>\<close>

fun updcrc_loop :: "bytes \<Rightarrow> u64 \<Rightarrow> u64" where
  "updcrc_loop [] c = c"
| "updcrc_loop (b # bs) c =
     updcrc_loop bs (ucast (crc_32_tab ! unat ((c XOR ucast b) AND 0xff)) XOR drop_bit 8 c)"

text \<open>
  \<open>updcrc(s, n)\<close>: the returned value and the new register.  A NULL \<open>s\<close> resets the register.
\<close>

definition updcrc :: "bytes option \<Rightarrow> u64 \<Rightarrow> u64 \<times> u64" where
  "updcrc s crc =
     (let c = (case s of None \<Rightarrow> 0xffffffff | Some bs \<Rightarrow> updcrc_loop bs crc)
      in (c XOR 0xffffffff, c))"

subsection \<open>Bit-serial CRC-32\<close>

definition crc_step :: "u32 \<Rightarrow> u32" where
  "crc_step c = (if bit c 0 then drop_bit 1 c XOR 0xEDB88320 else drop_bit 1 c)"

fun crc_bits :: "nat \<Rightarrow> u32 \<Rightarrow> u32" where
  "crc_bits 0 c = c"
| "crc_bits (Suc n) c = crc_bits n (crc_step c)"

definition crc_ref_byte :: "u32 \<Rightarrow> u8 \<Rightarrow> u32" where
  "crc_ref_byte c b = crc_bits 8 (c XOR ucast b)"

definition crc32_ref :: "bytes \<Rightarrow> u32" where
  "crc32_ref bs = foldl crc_ref_byte 0xffffffff bs XOR 0xffffffff"

lemma crc_bits_8:
  "crc_bits 8 w = crc_step (crc_step (crc_step (crc_step (crc_step (crc_step (crc_step (crc_step w)))))))"
  by (simp add: eval_nat_numeral)

text \<open>All byte values, as the index set of the table.\<close>

definition byte_values :: "u32 list" where
  "byte_values =
     [0, 1, 2, 3, 4, 5, 6, 7, 8, 9, 10, 11, 12, 13, 14, 15, 16, 17, 18, 19,
      20, 21, 22, 23, 24, 25, 26, 27, 28, 29, 30, 31, 32, 33, 34, 35, 36, 37, 38, 39,
      40, 41, 42, 43, 44, 45, 46, 47, 48, 49, 50, 51, 52, 53, 54, 55, 56, 57, 58, 59,
      60, 61, 62, 63, 64, 65, 66, 67, 68, 69, 70, 71, 72, 73, 74, 75, 76, 77, 78, 79,
      80, 81, 82, 83, 84, 85, 86, 87, 88, 89, 90, 91, 92, 93, 94, 95, 96, 97, 98, 99,
      100, 101, 102, 103, 104, 105, 106, 107, 108, 109, 110, 111, 112, 113, 114, 115, 116, 117, 118, 119,
      120, 121, 122, 123, 124, 125, 126, 127, 128, 129, 130, 131, 132, 133, 134, 135, 136, 137, 138, 139,
      140, 141, 142, 143, 144, 145, 146, 147, 148, 149, 150, 151, 152, 153, 154, 155, 156, 157, 158, 159,
      160, 161, 162, 163, 164, 165, 166, 167, 168, 169, 170, 171, 172, 173, 174, 175, 176, 177, 178, 179,
      180, 181, 182, 183, 184, 185, 186, 187, 188, 189, 190, 191, 192, 193, 194, 195, 196, 197, 198, 199,
      200, 201, 202, 203, 204, 205, 206, 207, 208, 209, 210, 211, 212, 213, 214, 215, 216, 217, 218, 219,
      220, 221, 222, 223, 224, 225, 226, 227, 228, 229, 230, 231, 232, 233, 234, 235, 236, 237, 238, 239,
      240, 241, 242, 243, 244, 245, 246, 247, 248, 249, 250, 251, 252, 253, 254, 255]"

lemma crc_tab_bits: "map (crc_bits 8) byte_values = crc_32_tab"
  by (simp add: crc_bits_8 crc_step_def crc_32_tab_def byte_values_def)

lemma byte_values_nth: "byte_values = map of_nat [0..<256]"
  by (simp add: byte_values_def upt_rec)

lemma crc_32_tab_nth: "i < 256 \<Longrightarrow> crc_32_tab ! i = crc_bits 8 (of_nat i)"
  by (simp add: crc_tab_bits [symmetric] byte_values_nth)

subsection \<open>Linearity over exclusive or\<close>

lemma crc_step_xor: "crc_step (x XOR y) = crc_step x XOR crc_step y"
  by (cases "bit x 0"; cases "bit y 0")
    (simp_all add: crc_step_def drop_bit_xor bit_xor_iff xor.assoc xor.left_commute xor.commute)

lemma crc_bits_xor: "crc_bits n (x XOR y) = crc_bits n x XOR crc_bits n y"
  by (induction n arbitrary: x y) (simp_all add: crc_step_xor)

lemma crc_bits_clear: "\<forall>i<n. \<not> bit y i \<Longrightarrow> crc_bits n y = drop_bit n y"
proof (induction n arbitrary: y)
  case 0
  then show ?case by simp
next
  case (Suc n)
  then have "crc_step y = drop_bit 1 y" by (simp add: crc_step_def)
  moreover have "crc_bits n (drop_bit 1 y) = drop_bit n (drop_bit 1 y)"
    by (rule Suc.IH) (use Suc.prems in \<open>auto simp: bit_drop_bit_eq\<close>)
  ultimately show ?case by (simp add: drop_bit_drop_bit)
qed

lemma ff_mask: "(0xff :: u32) = mask 8" "(0xff :: u64) = mask 8" "(0xffffffff :: u64) = mask 32"
  "(0xffffffff :: u32) = mask 32"
  by (simp_all add: mask_eq_exp_minus_1)

lemma crc_bits_8_split: "crc_bits 8 w = crc_bits 8 (w AND 0xff) XOR drop_bit 8 w"
  unfolding ff_mask
proof -
  have "w = (w AND mask 8) XOR (w AND NOT (mask 8))"
    by (rule bit_word_eqI) (auto simp: bit_simps)
  then have "crc_bits 8 w = crc_bits 8 (w AND mask 8) XOR crc_bits 8 (w AND NOT (mask 8))"
    by (metis crc_bits_xor)
  also have "crc_bits 8 (w AND NOT (mask 8)) = drop_bit 8 (w AND NOT (mask 8))"
    by (rule crc_bits_clear) (auto simp: bit_simps)
  also have "drop_bit 8 (w AND NOT (mask 8)) = drop_bit 8 w"
    by (rule bit_word_eqI) (auto simp: bit_simps dest: bit_imp_le_length)
  finally show "crc_bits 8 w = crc_bits 8 (w AND mask 8) XOR drop_bit 8 w" .
qed

text \<open>One round of the table-driven loop on a register that holds a 32-bit value.\<close>

lemma updcrc_round:
  fixes r :: u32 and b :: u8
  shows "ucast (crc_32_tab ! unat ((ucast r XOR ucast b :: u64) AND 0xff)) XOR drop_bit 8 (ucast r)
       = (ucast (crc_ref_byte r b) :: u64)"
proof -
  let ?i = "(ucast r XOR ucast b :: u64) AND 0xff" and ?w = "r XOR ucast b"
  have i: "?i = ucast (?w AND 0xff)"
    unfolding ff_mask by (rule bit_word_eqI) (auto simp: bit_simps)
  have "unat ?i = unat (?w AND 0xff)"
    unfolding i by (rule unat_ucast_up) simp
  moreover have "?w AND 0xff = ?w AND mask 8" by (simp add: mask_eq_exp_minus_1)
  then have lt: "unat (?w AND 0xff) < 256" by (simp add: unat_and_mask)
  ultimately have tab: "crc_32_tab ! unat ?i = crc_bits 8 (?w AND 0xff)"
    by (simp add: crc_32_tab_nth)
  have "drop_bit 8 ?w = drop_bit 8 r"
    by (rule bit_word_eqI) (auto simp: bit_simps dest: bit_imp_le_length)
  then have "crc_ref_byte r b = crc_bits 8 (?w AND 0xff) XOR drop_bit 8 r"
    using crc_bits_8_split [of ?w] by (simp add: crc_ref_byte_def)
  then show ?thesis
    by (simp add: tab) (rule bit_word_eqI, auto simp: bit_simps dest: bit_imp_le_length)
qed

lemma updcrc_loop_ref: "updcrc_loop bs (ucast r) = ucast (foldl crc_ref_byte r bs)"
  by (induction bs arbitrary: r) (simp_all add: updcrc_round)

lemma updcrc_loop_append: "updcrc_loop (xs @ ys) c = updcrc_loop ys (updcrc_loop xs c)"
  by (induction xs arbitrary: c) simp_all

lemma updcrc_pieces:
  "foldl (\<lambda>c w. snd (updcrc (Some w) c)) c ws = updcrc_loop (concat ws) c"
  by (induction ws arbitrary: c) (simp_all add: updcrc_def updcrc_loop_append Let_def)

lemma crc32_pieces:
  "fst (updcrc (Some []) (foldl (\<lambda>c w. snd (updcrc (Some w) c)) (snd (updcrc None crc)) ws))
     = ucast (crc32_ref (concat ws))"
proof -
  have "foldl (\<lambda>c w. snd (updcrc (Some w) c)) (ucast (0xffffffff :: u32)) ws
      = ucast (foldl crc_ref_byte 0xffffffff (concat ws))"
    by (simp only: updcrc_pieces updcrc_loop_ref)
  moreover have "ucast (x XOR 0xffffffff :: u32) = (ucast x XOR 0xffffffff :: u64)" for x :: u32
    unfolding ff_mask by (rule bit_word_eqI) (auto simp: bit_simps)
  ultimately show ?thesis
    by (simp add: crc32_ref_def updcrc_def [of None] updcrc_def [of "Some []"] Let_def)
qed

subsection \<open>Properties\<close>

text \<open>
  C23.  The table-driven register computes CRC-32: after a reset, any sequence of window flushes
  followed by the final call with no data (as \<open>unzip\<close> makes it) returns the bit-serial CRC-32 of all
  the bytes, independently of how they were split.
\<close>

theorem updcrc_is_crc32:
  "fst (updcrc (Some []) (foldl (\<lambda>c w. snd (updcrc (Some w) c)) (snd (updcrc None crc)) ws))
     = ucast (crc32_ref (concat ws))"
  by (rule crc32_pieces)

end
