(* ===== verification/Gzip_io.thy ===== *)
theory Gzip_io
  imports Elf Crc32 CString
begin

text \<open>
  Buffers of the gzip reader (\<^verbatim>\<open>src/zip/misc.c\<close>): the input buffer that is refilled from the boot
  file system, and the output window that is flushed into the kernel's segments.

  The globals of \<^verbatim>\<open>misc.c\<close>, \<^verbatim>\<open>inflate.c\<close> and \<^verbatim>\<open>unzip.c\<close> are one record, \<open>gz\<close>, together with the
  load description of the ELF check, the memory that the kernel is copied to, and the state \<open>fs_st\<close> of
  the file system that the input is read from, whose type is a parameter.  A computation returns an outcome and the new state: \<open>unzip_error\<close> and \<open>error\<close> print a message and leave by
  \<open>longjmp\<close>, which is \<open>Throw\<close>; the state survives it.  \<open>Crash\<close> is undefined behaviour, \<open>Timeout\<close>
  says that a loop used up its fuel, and \<open>Halt\<close> is a call of \<open>halt\<close>.
\<close>

definition INBUFSIZ :: nat where
  "INBUFSIZ = 0x20000"

definition WSIZE :: nat where
  "WSIZE = 0x8000"

text \<open>
  A decoding table of \<^verbatim>\<open>inflate.c\<close> (\<open>struct huft\<close>).  Tables live in a store and a pointer to a table is
  its index there.  An entry that no statement has written, or that was computed from the
  uninitialised part of an array, is \<^const>\<open>None\<close>.
\<close>

datatype huft_v = HN nat | HT nat | HX

record huft =
  huft_e :: nat
  huft_b :: nat
  huft_v :: huft_v

type_synonym huft_table = "huft option list"

record 'fs gz =
  inbuf :: bytes
  insize :: nat
  inptr :: nat
  window :: bytes
  outcnt :: nat
  bytes_out :: u64
  gz_method :: int
  block_number :: int
  chunk :: nat
  file_offset :: u64
  crc :: u64
  bb :: u64
  bk :: nat
  hufts :: nat
  tables :: "huft_table list"
  pkzip :: bool
  extended :: bool
  elf :: elf_globals
  memory :: mem
  fs_st :: 'fs

text \<open>
  What the reader is given: the machine, and block size and read function of the open file.  Loops
  whose end depends on the compressed data run for at most \<open>fuel\<close> rounds.
\<close>

record 'fs gz_env =
  fuel :: nat
  mach :: machine
  bfs_blocksize :: nat
  bfs_bread :: "int \<Rightarrow> int \<Rightarrow> 'fs \<Rightarrow> ((int \<times> bytes) \<times> 'fs) option"

datatype 'a outcome = Ret 'a | Throw string | Crash | Timeout | Halt

type_synonym ('s, 'a) prog = "'s \<Rightarrow> 'a outcome \<times> 's"
type_synonym ('fs, 'a) gzm = "('fs gz, 'a) prog"

definition ret_gz :: "'a \<Rightarrow> ('s, 'a) prog" where
  "ret_gz x s = (Ret x, s)"

definition unzip_error :: "string \<Rightarrow> ('s, 'a) prog" where
  "unzip_error x s = (Throw x, s)"

definition bind_gz :: "('s, 'a) prog \<Rightarrow> ('a \<Rightarrow> ('s, 'b) prog) \<Rightarrow> ('s, 'b) prog" where
  "bind_gz m f s = (case m s of (Ret x, s') \<Rightarrow> f x s' | (Throw e, s') \<Rightarrow> (Throw e, s') | (Crash, s') \<Rightarrow> (Crash, s')
     | (Timeout, s') \<Rightarrow> (Timeout, s') | (Halt, s') \<Rightarrow> (Halt, s'))"

definition modify_gz :: "('s \<Rightarrow> 's) \<Rightarrow> ('s, unit) prog" where
  "modify_gz f s = (Ret (), f s)"

definition gets_gz :: "('s \<Rightarrow> 'a) \<Rightarrow> ('s, 'a) prog" where
  "gets_gz f s = (Ret (f s), s)"

named_theorems gz_simps \<open>unfolding of the outcome monad\<close>

lemma gz_monad_simps [gz_simps]:
  "ret_gz x s = (Ret x, s)"
  "modify_gz f s = (Ret (), f s)"
  "gets_gz g s = (Ret (g s), s)"
  "unzip_error e s = (Throw e, s)"
  by (simp_all add: ret_gz_def modify_gz_def gets_gz_def unzip_error_def)

lemma bind_gz_Ret: "m s = (Ret x, s') \<Longrightarrow> bind_gz m f s = f x s'"
  by (simp add: bind_gz_def)

lemma bind_gz_simps [gz_simps]:
  "bind_gz (ret_gz x) f s = f x s"
  "bind_gz (modify_gz h) f' s = f' () (h s)"
  "bind_gz (gets_gz g) f'' s = f'' (g s) s"
  "bind_gz (unzip_error e) f''' s = (Throw e, s)"
  by (simp_all add: bind_gz_def gz_monad_simps)

subsection \<open>Input\<close>

text \<open>A short read is taken for the end of the file; the buffer then counts as full.\<close>

definition fill_inbuf :: "'fs gz_env \<Rightarrow> ('fs, u8) gzm" where
  "fill_inbuf env s =
     (if INBUFSIZ mod bfs_blocksize env \<noteq> 0 then unzip_error ''bad block-size'' s
      else if block_number s < 0 then unzip_error ''attempted to read past eof'' s
      else
        let nblocks = int (INBUFSIZ div bfs_blocksize env); full = nblocks * int (bfs_blocksize env)
        in case bfs_bread env (block_number s) nblocks (fs_st s) of
             None \<Rightarrow> (Crash, s)
           | Some ((nread, d), fs') \<Rightarrow>
               let s1 = s\<lparr>inbuf := d @ drop (length d) (inbuf s), fs_st := fs'\<rparr>
               in if nread < full
                  then (Ret (inbuf s1 ! 0), s1\<lparr>insize := nat full, block_number := - 1, inptr := 1\<rparr>)
                  else if nread > full then unzip_error ''read error'' s1
                  else (Ret (inbuf s1 ! 0),
                        s1\<lparr>block_number := block_number s + nblocks, insize := INBUFSIZ, inptr := 1\<rparr>))"

definition get_byte :: "'fs gz_env \<Rightarrow> ('fs, u8) gzm" where
  "get_byte env s =
     (if inptr s < insize s then (Ret (inbuf s ! inptr s), s\<lparr>inptr := inptr s + 1\<rparr>)
      else fill_inbuf env s)"

definition clear_bufs :: "'fs gz \<Rightarrow> 'fs gz" where
  "clear_bufs s = s\<lparr>outcnt := 0, insize := 0, inptr := 0, block_number := 0, bytes_out := 0,
                    chunk := 0, file_offset := 0\<rparr>"

subsection \<open>Output\<close>

text \<open>
  The bytes from the start of the window upwards.  \<open>uncompress_kernel\<close> allocates the input buffer
  first and the window directly below it, so the input buffer follows the window in memory.
\<close>

definition window_mem :: "'fs gz \<Rightarrow> mem" where
  "window_mem s i = (if i < length (window s @ inbuf s) then (window s @ inbuf s) ! i else 0)"

text \<open>
  The loop that distributes the window over the segments.  Offsets and sizes come from the ELF
  header and are 64-bit words; differences are read as signed.  A negative count handed to
  \<open>memcpy\<close> is \<open>Crash\<close>.
\<close>

definition flush_src :: "'fs gz \<Rightarrow> segment \<Rightarrow> nat" where
  "flush_src s c =
     (let chunk_offset = sint (file_offset s - seg_offset c)
      in if chunk_offset < 0 then nat (- chunk_offset) else 0)"

definition flush_dest :: "'fs gz \<Rightarrow> segment \<Rightarrow> nat" where
  "flush_dest s c =
     (let chunk_offset = sint (file_offset s - seg_offset c)
      in if chunk_offset < 0 then unat (seg_addr c)
         else unat (seg_addr c + (file_offset s - seg_offset c)))"

definition flush_count :: "'fs gz \<Rightarrow> segment \<Rightarrow> int" where
  "flush_count s c =
     (let to_copy = sint (seg_offset c + seg_size c - file_offset s)
      in if to_copy > int (outcnt s) then int (outcnt s) else to_copy)"

function flush_loop :: "('fs, unit) gzm" where
  "flush_loop s =
     (if chunk s < nchunks (elf s) then
        let c = chunks (elf s) ! chunk s; src = flush_src s c; to_copy = flush_count s c
        in if src \<ge> outcnt s
           then (Ret (), s\<lparr>file_offset := file_offset s + of_nat (outcnt s)\<rparr>)
           else if to_copy < 0 then (Crash, s)
           else
             let s1 = s\<lparr>memory := poke (memory s) (flush_dest s c) (bytes_at (window_mem s) src (nat to_copy)),
                        file_offset := file_offset s + of_int to_copy\<rparr>
             in if to_copy < int (outcnt s)
                then flush_loop (s1\<lparr>outcnt := outcnt s - nat to_copy, chunk := chunk s + 1\<rparr>)
                else (Ret (), s1)
      else (Ret (), s))"
  by pat_completeness auto
termination
  by (relation "measure (\<lambda>s. nchunks (elf s) - chunk s)") auto

declare flush_loop.simps [simp del]

definition flush_window :: "'fs gz_env \<Rightarrow> ('fs, unit) gzm" where
  "flush_window env s =
     (if outcnt s = 0 then (Ret (), s)
      else
        let s1 = s\<lparr>crc := snd (updcrc (Some (take (outcnt s) (window s))) (crc s))\<rparr>
        in if bytes_out s1 = 0 then
             (case is_loadable_elf (mach env) (window_mem s1) (int (outcnt s1)) (elf s1) of
                (Loadable, g) \<Rightarrow>
                  flush_loop (s1\<lparr>elf := g, bytes_out := bytes_out s1 + of_nat (outcnt s1)\<rparr>)
              | (Rejected e, g) \<Rightarrow> unzip_error ''invalid exec header'' (s1\<lparr>elf := g\<rparr>)
              | (Out_of_memory, g) \<Rightarrow> unzip_error ''out of memory'' (s1\<lparr>elf := g\<rparr>))
           else flush_loop (s1\<lparr>bytes_out := bytes_out s1 + of_nat (outcnt s1)\<rparr>))"

text \<open>The loop changes nothing but the kernel's memory and the position in the image.\<close>

definition flush_frame :: "'fs gz \<Rightarrow> 'fs gz \<Rightarrow> bool" where
  "flush_frame s t \<longleftrightarrow>
     t = s\<lparr>memory := memory t, file_offset := file_offset t, outcnt := outcnt t, chunk := chunk t\<rparr>
     \<and> outcnt t \<le> outcnt s"

lemma flush_frame_fields:
  assumes "flush_frame s t"
  shows "window t = window s" and "crc t = crc s" and "bytes_out t = bytes_out s" and "elf t = elf s"
    and "pkzip t = pkzip s" and "outcnt t \<le> outcnt s"
proof -
  obtain m f n k where t: "t = s\<lparr>memory := m, file_offset := f, outcnt := n, chunk := k\<rparr>"
    using assms unfolding flush_frame_def by blast
  then show "window t = window s" "crc t = crc s" "bytes_out t = bytes_out s" "elf t = elf s" "pkzip t = pkzip s" by simp_all
  show "outcnt t \<le> outcnt s" using assms by (simp add: flush_frame_def)
qed

lemma flush_frame_trans:
  assumes "flush_frame s t" and "flush_frame t u"
  shows "flush_frame s u"
proof -
  obtain m f n k where t: "t = s\<lparr>memory := m, file_offset := f, outcnt := n, chunk := k\<rparr>"
    using assms(1) unfolding flush_frame_def by blast
  obtain m' f' n' k' where u: "u = t\<lparr>memory := m', file_offset := f', outcnt := n', chunk := k'\<rparr>"
    using assms(2) unfolding flush_frame_def by blast
  have "outcnt u \<le> outcnt s" using assms by (simp add: flush_frame_def)
  then show ?thesis by (simp add: flush_frame_def u t)
qed

lemma flush_loop_frame: "flush_frame s (snd (flush_loop s))"
proof (induction "nchunks (elf s) - chunk s" arbitrary: s rule: less_induct)
  case less
  define c src cnt where defs: "c = chunks (elf s) ! chunk s" "src = flush_src s c" "cnt = flush_count s c"
  define s1 where "s1 = s\<lparr>memory := poke (memory s) (flush_dest s c) (bytes_at (window_mem s) src (nat cnt)),
      file_offset := file_offset s + of_int cnt\<rparr>"
  let ?t = "s1\<lparr>outcnt := outcnt s - nat cnt, chunk := chunk s + 1\<rparr>"
  have unfold: "flush_loop s =
      (if chunk s < nchunks (elf s) then
         if src \<ge> outcnt s then (Ret (), s\<lparr>file_offset := file_offset s + of_nat (outcnt s)\<rparr>)
         else if cnt < 0 then (Crash, s)
         else if cnt < int (outcnt s) then flush_loop ?t
         else (Ret (), s1)
       else (Ret (), s))"
    by (subst flush_loop.simps) (simp add: Let_def defs s1_def)
  have "flush_frame s (snd (flush_loop ?t))" if "chunk s < nchunks (elf s)"
  proof (rule flush_frame_trans)
    show "flush_frame s ?t" by (simp add: flush_frame_def s1_def)
    show "flush_frame ?t (snd (flush_loop ?t))" using that by (intro less) (simp add: s1_def)
  qed
  then show ?case by (auto simp: unfold) (simp_all add: flush_frame_def s1_def)
qed

subsection \<open>Loading a kernel with one segment\<close>

text \<open>
  The bytes of \<open>file\<close> before position \<open>n\<close> that belong to segment \<open>c\<close> are in memory at the segment's
  address.
\<close>

definition loaded_upto :: "segment \<Rightarrow> bytes \<Rightarrow> nat \<Rightarrow> mem \<Rightarrow> bool" where
  "loaded_upto c file n m \<longleftrightarrow>
     (\<forall>j. unat (seg_offset c) \<le> j \<and> j < min n (unat (seg_offset c) + unat (seg_size c)) \<longrightarrow>
        m (unat (seg_addr c) + (j - unat (seg_offset c))) = file ! j)"

text \<open>Segment and image stay clear of the places where 64-bit arithmetic wraps.\<close>

definition segment_sane :: "segment \<Rightarrow> bool" where
  "segment_sane c \<longleftrightarrow> unat (seg_offset c) + unat (seg_size c) < 2 ^ 62
     \<and> unat (seg_addr c) + unat (seg_offset c) + unat (seg_size c) < 2 ^ 64"

text \<open>The reader has flushed \<open>n\<close> bytes of the image of a kernel whose only segment is \<open>c\<close>.\<close>

definition flushed :: "segment \<Rightarrow> bytes \<Rightarrow> nat \<Rightarrow> 'fs gz \<Rightarrow> bool" where
  "flushed c file n s \<longleftrightarrow>
     nchunks (elf s) = 1 \<and> chunks (elf s) = [c]
     \<and> (chunk s = 0 \<and> unat (file_offset s) = n \<and> n \<le> unat (seg_offset c) + unat (seg_size c)
          \<and> loaded_upto c file n (memory s)
        \<or> chunk s = 1 \<and> unat (seg_offset c) + unat (seg_size c) \<le> n \<and> loaded_upto c file n (memory s))"

lemma sint_of_int_small: "- (2 ^ 63) \<le> k \<Longrightarrow> k < 2 ^ 63 \<Longrightarrow> sint (word_of_int k :: u64) = k"
  by (simp add: signed_of_int signed_take_bit_int_eq_self)

lemma sint_minus_small:
  fixes x y :: u64
  assumes "unat x < 2 ^ 62" and "unat y < 2 ^ 62"
  shows "sint (x - y) = int (unat x) - int (unat y)"
proof -
  define a b where "a = unat x" and "b = unat y"
  have "x - y = word_of_int (int a - int b)" by (simp add: a_def b_def)
  moreover have "- (2 ^ 63) \<le> int a - int b" "int a - int b < 2 ^ 63"
    using assms by (simp_all add: a_def [symmetric] b_def [symmetric])
  ultimately have "sint (x - y) = int a - int b"
    by (simp only: sint_of_int_small)
  then show ?thesis by (simp only: a_def b_def)
qed

lemma unat_plus_small:
  fixes x y :: u64
  shows "unat x + unat y < 2 ^ 64 \<Longrightarrow> unat (x + y) = unat x + unat y"
  by (simp add: unat_word_ariths)

lemma window_mem_window: "i < length (window s) \<Longrightarrow> window_mem s i = window s ! i"
  by (simp add: window_mem_def nth_append)

text \<open>Copying the window to a segment extends the loaded part by the bytes of the window.\<close>

lemma loaded_upto_poke:
  assumes old: "loaded_upto c file n m" and win: "\<forall>i < len. wm i = file ! (n + i)"
    and k: "n + k = min (n + len) (unat (seg_offset c) + unat (seg_size c))"
    and src: "src = unat (seg_offset c) - n" "dst = unat (seg_addr c) + (n - unat (seg_offset c))"
    and "src < len"
  shows "loaded_upto c file (n + len) (poke m dst (bytes_at wm src k))"
  unfolding loaded_upto_def
proof (intro allI impI)
  fix j
  let ?o = "unat (seg_offset c)" and ?z = "unat (seg_size c)" and ?a = "unat (seg_addr c)"
  assume j: "?o \<le> j \<and> j < min (n + len) (?o + ?z)"
  show "poke m dst (bytes_at wm src k) (?a + (j - ?o)) = file ! j"
  proof (cases "j < n")
    case True
    then have "?a + (j - ?o) < dst" using j src by auto
    then have "poke m dst (bytes_at wm src k) (?a + (j - ?o)) = m (?a + (j - ?o))"
      by (simp add: poke_outside)
    also have "\<dots> = file ! j" using old True j by (simp add: loaded_upto_def)
    finally show ?thesis .
  next
    case False
    define i where "i = ?a + (j - ?o) - dst"
    have pos: "?a + (j - ?o) = dst + i" and i: "i < k" and nj: "n + (src + i) = j" "src + i < len"
      using False j src k by (auto simp: i_def)
    have "poke m dst (bytes_at wm src k) (dst + i) = wm (src + i)"
      using i by (simp add: poke_inside)
    with win nj pos show ?thesis by (metis add.commute)
  qed
qed

lemma flush_loop_one_segment:
  assumes inv: "flushed c file n s" and sane: "segment_sane c"
    and win: "\<forall>i < outcnt s. window s ! i = file ! (n + i)" "outcnt s \<le> length (window s)"
    and len: "n + outcnt s \<le> length file" "length file < 2 ^ 62"
  shows "\<exists>s'. flush_loop s = (Ret (), s') \<and> flushed c file (n + outcnt s) s'
           \<and> elf s' = elf s \<and> bytes_out s' = bytes_out s \<and> length (window s') = length (window s)"
proof (cases "chunk s = 1")
  case True
  with inv show ?thesis
    by (subst flush_loop.simps) (auto simp: flushed_def loaded_upto_def)
next
  case False
  define off siz adr where o: "off = unat (seg_offset c)" "siz = unat (seg_size c)" "adr = unat (seg_addr c)"
  have c: "chunk s = 0" "nchunks (elf s) = 1" "chunks (elf s) = [c]" "unat (file_offset s) = n"
    "n \<le> off + siz" and ld: "loaded_upto c file n (memory s)"
    using inv False by (auto simp: flushed_def o)
  have sn: "off + siz < 2 ^ 62" "adr + off + siz < 2 ^ 64" using sane by (auto simp: segment_sane_def o)
  have n62: "n < 2 ^ 62" using len by simp
  have dif: "sint (file_offset s - seg_offset c) = int n - int off"
    using sint_minus_small [of "file_offset s" "seg_offset c"] c(4) n62 sn by (simp add: o [symmetric])
  have oz: "unat (seg_offset c + seg_size c) = off + siz"
    using sn unat_plus_small [of "seg_offset c" "seg_size c"] by (simp add: o [symmetric])
  have lft: "sint (seg_offset c + seg_size c - file_offset s) = int (off + siz) - int n"
    using sint_minus_small [of "seg_offset c + seg_size c" "file_offset s"] oz c(4) n62 sn by simp
  have dest: "unat (seg_addr c + (file_offset s - seg_offset c)) = adr + (n - off)" if "off \<le> n"
  proof -
    have "unat (file_offset s - seg_offset c) = n - off"
      using that c(4) by (simp add: unat_sub word_le_nat_alt o)
    with sn that c(5) show ?thesis
      using unat_plus_small [of "seg_addr c" "file_offset s - seg_offset c"] by (simp add: o [symmetric])
  qed
  let ?src = "off - n" and ?dst = "adr + (n - off)"
  have src: "flush_src s c = ?src" using dif by (auto simp: flush_src_def Let_def)
  have dst: "flush_dest s c = ?dst" using dif dest o(3) by (auto simp: flush_dest_def Let_def)
  have advance: "unat (file_offset s + of_nat k) = n + k" if "k \<le> outcnt s" for k
    using that len c(4) by (subst unat_plus_small) (auto simp: unat_of_nat)
  show ?thesis
  proof (cases "?src \<ge> outcnt s")
    case True
    let ?s' = "s\<lparr>file_offset := file_offset s + of_nat (outcnt s)\<rparr>"
    have "flush_loop s = (Ret (), ?s')"
      using c True src by (subst flush_loop.simps) (simp add: Let_def)
    moreover have "loaded_upto c file (n + outcnt s) (memory s)"
      using ld True by (auto simp: loaded_upto_def o)
    ultimately show ?thesis using c True advance [of "outcnt s"] by (simp add: flushed_def o)
  next
    case False
    define k where "k = min (outcnt s) (off + siz - n)"
    have k: "flush_count s c = int k"
      using c(5) lft by (auto simp: flush_count_def Let_def k_def)
    let ?m = "poke (memory s) ?dst (bytes_at (window_mem s) ?src k)"
    let ?s1 = "s\<lparr>memory := ?m, file_offset := file_offset s + of_nat k\<rparr>"
    have step: "flush_loop s =
        (if k < outcnt s then flush_loop (?s1\<lparr>outcnt := outcnt s - k, chunk := 1\<rparr>) else (Ret (), ?s1))"
      using c False src dst k by (subst flush_loop.simps) (simp add: Let_def)
    have ld': "loaded_upto c file (n + outcnt s) ?m"
      by (rule loaded_upto_poke [OF ld, where len = "outcnt s"])
        (use win False c(5) in \<open>auto simp: k_def window_mem_window o\<close>)
    show ?thesis
    proof (cases "k < outcnt s")
      case True
      then have "off + siz \<le> n + outcnt s" by (auto simp: k_def)
      moreover have "flush_loop (?s1\<lparr>outcnt := outcnt s - k, chunk := 1\<rparr>)
          = (Ret (), ?s1\<lparr>outcnt := outcnt s - k, chunk := 1\<rparr>)"
        using c by (subst flush_loop.simps) simp
      ultimately show ?thesis using step True c ld' by (simp add: flushed_def o)
    next
      case False
      then have "k = outcnt s" "n + outcnt s \<le> off + siz" using c(5) by (auto simp: k_def)
      with step ld' c advance [of "outcnt s"] show ?thesis by (simp add: flushed_def o)
    qed
  qed
qed

subsection \<open>A whole image\<close>

text \<open>The decompressor fills the window with the next piece of the image and flushes it.\<close>

definition fill_window :: "bytes \<Rightarrow> 'fs gz \<Rightarrow> 'fs gz" where
  "fill_window w s = s\<lparr>window := w @ drop (length w) (window s), outcnt := length w\<rparr>"

fun flush_all :: "'fs gz_env \<Rightarrow> bytes list \<Rightarrow> ('fs, unit) gzm" where
  "flush_all env [] = ret_gz ()"
| "flush_all env (w # ws) = (\<lambda>s. bind_gz (flush_window env) (\<lambda>_. flush_all env ws) (fill_window w s))"

lemma flush_window_next:
  assumes "outcnt s \<noteq> 0" and "bytes_out s \<noteq> 0"
  shows "flush_window env s = flush_loop
    (s\<lparr>crc := snd (updcrc (Some (take (outcnt s) (window s))) (crc s)),
       bytes_out := bytes_out s + of_nat (outcnt s)\<rparr>)"
  using assms by (simp add: flush_window_def Let_def)

lemma window_mem_crc [simp]: "window_mem (s\<lparr>crc := x\<rparr>) = window_mem s"
  by (rule ext) (simp add: window_mem_def)

lemma flush_window_first:
  assumes "outcnt s \<noteq> 0" and "bytes_out s = 0"
    and "is_loadable_elf (mach env) (window_mem s) (int (outcnt s)) (elf s) = (Loadable, g)"
  shows "flush_window env s = flush_loop
    (s\<lparr>crc := snd (updcrc (Some (take (outcnt s) (window s))) (crc s)), elf := g,
       bytes_out := of_nat (outcnt s)\<rparr>)"
  using assms by (simp add: flush_window_def Let_def)

lemma flush_all_one_segment:
  assumes "flushed c file n s" and "segment_sane c" and "length file < 2 ^ 62"
    and "bytes_out s = of_nat n" and "0 < n" and "n + length (concat ws) = length file"
    and "drop n file = concat ws" and "\<forall>w \<in> set ws. w \<noteq> [] \<and> length w \<le> length (window s)"
  shows "\<exists>s'. flush_all env ws s = (Ret (), s') \<and> flushed c file (length file) s'"
  using assms
proof (induction ws arbitrary: n s)
  case Nil
  then show ?case by (simp add: gz_simps)
next
  case (Cons w ws)
  define s0 where "s0 = fill_window w s"
  define s1 where "s1 = s0\<lparr>crc := snd (updcrc (Some (take (outcnt s0) (window s0))) (crc s0)),
                             bytes_out := bytes_out s0 + of_nat (outcnt s0)\<rparr>"
  have w: "w \<noteq> []" "length w \<le> length (window s)" using Cons.prems(8) by auto
  have dr: "drop n file = w @ concat ws" using Cons.prems(7) by simp
  have "bytes_out s \<noteq> 0"
  proof
    assume "bytes_out s = 0"
    with Cons.prems(4) have "unat (of_nat n :: u64) = 0" by simp
    with Cons.prems(3,5,6) show False by (simp add: unat_of_nat)
  qed
  then have fw: "flush_window env s0 = flush_loop s1"
    using w by (simp add: flush_window_next s0_def s1_def fill_window_def)
  have "file ! (n + i) = w ! i" if "i < length w" for i
    using dr that Cons.prems(6) by (metis nth_append nth_drop le_add1)
  then have "\<forall>i < outcnt s1. window s1 ! i = file ! (n + i)"
    by (simp add: s1_def s0_def fill_window_def nth_append)
  moreover have "flushed c file n s1"
    using Cons.prems(1) by (simp add: flushed_def s1_def s0_def fill_window_def)
  moreover have "outcnt s1 = length w" "length (window s1) = length (window s)"
    using w by (simp_all add: s1_def s0_def fill_window_def)
  ultimately obtain s' where s': "flush_loop s1 = (Ret (), s')" "flushed c file (n + length w) s'"
      "bytes_out s' = bytes_out s1" "length (window s') = length (window s)"
    using flush_loop_one_segment [of c "file" n s1] Cons.prems w by auto
  have "\<exists>s''. flush_all env ws s' = (Ret (), s'') \<and> flushed c file (length file) s''"
  proof (rule Cons.IH [OF s'(2) Cons.prems(2,3)])
    show "bytes_out s' = of_nat (n + length w)"
      using s'(3) Cons.prems(4) by (simp add: s1_def s0_def fill_window_def)
    show "drop (n + length w) file = concat ws"
      using dr by (metis append_eq_conv_conj drop_drop add.commute)
  qed (use Cons.prems s'(4) w in auto)
  then show ?case
    using s'(1) fw by (simp add: bind_gz_def s0_def [symmetric])
qed

subsection \<open>Properties\<close>

text \<open>
  C22.  A compressed kernel with a single loadable segment is loaded correctly: when the first
  window of the decompressed image carries an acceptable ELF header, flushing the image window by
  window succeeds and leaves every byte of the segment at its load address, although the copy from
  the window that contains the start of the segment reads beyond the window.
\<close>

theorem flush_all_loads_segment:
  assumes "is_loadable_elf (mach env) (window_mem (fill_window w s)) (int (length w)) (elf s) = (Loadable, g)"
    and "chunks g = [c]" and "nchunks g = 1" and "segment_sane c"
    and "chunk s = 0" and "file_offset s = 0" and "bytes_out s = 0"
    and "length (w @ concat ws) < 2 ^ 62"
    and "list_all (\<lambda>v. v \<noteq> [] \<and> length v \<le> length (window s)) (w # ws)"
    and "unat (seg_offset c) + unat (seg_size c) \<le> length (w @ concat ws)"
  shows "\<exists>s'. flush_all env (w # ws) s = (Ret (), s')
           \<and> bytes_at (memory s') (unat (seg_addr c)) (unat (seg_size c))
             = slice (unat (seg_offset c)) (unat (seg_size c)) (w @ concat ws)"
proof -
  let ?file = "w @ concat ws"
  define s0 where "s0 = fill_window w s"
  define s1 where "s1 = s0\<lparr>crc := snd (updcrc (Some (take (outcnt s0) (window s0))) (crc s0)), elf := g,
                             bytes_out := of_nat (outcnt s0)\<rparr>"
  have w: "w \<noteq> []" "length w \<le> length (window s)" using assms(9) by auto
  have s0: "outcnt s0 = length w" "bytes_out s0 = 0" "elf s0 = elf s"
    using assms(7) by (simp_all add: s0_def fill_window_def)
  have fw: "flush_window env s0 = flush_loop s1"
    using flush_window_first [of s0 env g] s0 w assms(1) by (simp add: s1_def s0_def)
  have inv: "flushed c ?file 0 s1"
    using assms(2,3,5,6) by (simp add: flushed_def s1_def s0_def fill_window_def loaded_upto_def)
  obtain s' where s': "flush_loop s1 = (Ret (), s')" "flushed c ?file (length w) s'"
      "bytes_out s' = bytes_out s1" "length (window s') = length (window s)"
    using flush_loop_one_segment [OF inv assms(4)] w assms(8)
    by (auto simp: s1_def s0_def fill_window_def nth_append)
  have "\<exists>s''. flush_all env ws s' = (Ret (), s'') \<and> flushed c ?file (length ?file) s''"
    by (rule flush_all_one_segment [OF s'(2) assms(4,8)])
      (use s' w assms(9) in \<open>auto simp: s1_def s0 list_all_iff\<close>)
  then obtain s'' where s'': "flush_all env ws s' = (Ret (), s'')" "flushed c ?file (length ?file) s''"
    by blast
  then have "loaded_upto c ?file (length ?file) (memory s'')" by (auto simp: flushed_def)
  then have "memory s'' (unat (seg_addr c) + i) = ?file ! (unat (seg_offset c) + i)"
    if "i < unat (seg_size c)" for i
    using that assms(10) unfolding loaded_upto_def
    by (metis add_diff_cancel_left' add_less_cancel_left le_add1 min.absorb2)
  then have "bytes_at (memory s'') (unat (seg_addr c)) (unat (seg_size c))
      = slice (unat (seg_offset c)) (unat (seg_size c)) ?file"
    using assms(10) by (intro nth_equalityI) (auto simp: nth_slice length_slice)
  moreover have "flush_all env (w # ws) s = (Ret (), s'')"
    using s'(1) s''(1) fw by (simp add: bind_gz_def s0_def [symmetric])
  ultimately show ?thesis by blast
qed

definition example_gz :: "unit gz" where
  "example_gz =
     \<lparr>inbuf = [], insize = 0, inptr = 0, window = replicate 200 0, outcnt = 0, bytes_out = 0, gz_method = 8,
      block_number = 0, chunk = 0, file_offset = 0, crc = 0xffffffff, bb = 0, bk = 0, hufts = 0, tables = [],
      pkzip = False, extended = False, elf = example_globals, memory = (\<lambda>_. 0), fs_st = ()\<rparr>"

theorem flush_all_loads_segment_witness:
  "\<exists>s'. flush_all \<lparr>fuel = 100, mach = example_machine, bfs_blocksize = 1024, bfs_bread = (\<lambda>_ _ s. Some ((0, []), s))\<rparr>
          [example_elf @ [1, 2], [3, 4]] example_gz = (Ret (), s')
     \<and> bytes_at (memory s') 0xfffffc0000310000 4 = [1, 2, 3, 4]"
proof -
  let ?env = "\<lparr>fuel = 100, mach = example_machine, bfs_blocksize = 1024, bfs_bread = (\<lambda>_ _ s. Some ((0, []), s))\<rparr>"
  let ?w = "example_elf @ [1, 2]" and ?b = "window_mem (fill_window (example_elf @ [1, 2]) example_gz)"
  have "?b i = example_elf ! i" if "i < 120" for i
    using that by (simp add: window_mem_def fill_window_def example_gz_def nth_append example_length)
  then have "holds_example ?b"
    unfolding holds_example_def by (intro nth_equalityI) (simp_all add: example_length)
  then obtain g where g: "is_loadable_elf example_machine ?b 122 example_globals = (Loadable, g)"
      "chunks g = [example_segment]" "nchunks g = 1"
    using example_elf_loadable [of ?b 122] by auto
  have "\<exists>s'. flush_all ?env (?w # [[3, 4]]) example_gz = (Ret (), s')
     \<and> bytes_at (memory s') (unat (seg_addr example_segment)) (unat (seg_size example_segment))
       = slice (unat (seg_offset example_segment)) (unat (seg_size example_segment)) (?w @ concat [[3, 4]])"
    by (rule flush_all_loads_segment [of _ _ _ g])
      (use g in \<open>simp_all add: example_gz_def example_length segment_sane_def example_segment_def\<close>)
  then show ?thesis by (simp add: example_segment_def slice_def example_length)
qed

text \<open>
  With two segments in one window the second segment is copied from the start of the window instead
  of from its own position: the loader's source pointer is not advanced past the first segment.
\<close>

theorem flush_loop_second_segment_wrong:
  "\<exists>s'. flush_loop (example_gz\<lparr>window := [1, 2, 3, 4, 5, 6, 7, 8], outcnt := 8,
          elf := example_globals\<lparr>nchunks := 2,
            chunks := [\<lparr>seg_addr = 100, seg_offset = 0, seg_size = 4\<rparr>,
                       \<lparr>seg_addr = 200, seg_offset = 4, seg_size = 4\<rparr>]\<rparr>\<rparr>) = (Ret (), s')
     \<and> bytes_at (memory s') 100 4 = [1, 2, 3, 4] \<and> bytes_at (memory s') 200 4 = [1, 2, 3, 4]"
  apply (subst flush_loop.simps, simp add: example_gz_def flush_src_def flush_count_def flush_dest_def
      window_mem_def bytes_at_def poke_def upt_rec)
  apply (subst flush_loop.simps, simp add: example_gz_def flush_src_def flush_count_def flush_dest_def
      window_mem_def bytes_at_def poke_def upt_rec)
  done

end
