(* ===== verification/Inflate.thy ===== *)
theory Inflate
  imports Gzip_io
begin

text \<open>
  The decompressor (\<^verbatim>\<open>src/zip/inflate.c\<close>): bit buffer, construction of the Huffman decoding tables,
  the loop that decodes a block, the three block types and the driver \<open>inflate\<close>.

  The local copies \<open>b\<close>, \<open>k\<close> and \<open>w\<close> of the globals \<open>bb\<close>, \<open>bk\<close> and \<open>outcnt\<close> are arguments and results
  here, so the globals change exactly where the code restores them.  Counters that stay far below
  the width of their C type are natural numbers; subtractions that can wrap are written out.
\<close>

subsection \<open>Bit buffer\<close>

definition mask_bits :: "nat list" where
  "mask_bits = [0x0000,
     0x0001, 0x0003, 0x0007, 0x000f, 0x001f, 0x003f, 0x007f, 0x00ff,
     0x01ff, 0x03ff, 0x07ff, 0x0fff, 0x1fff, 0x3fff, 0x7fff, 0xffff]"

text \<open>\<open>(unsigned)b & mask_bits[n]\<close>; the table has 17 entries.\<close>

definition masked :: "u64 \<Rightarrow> nat \<Rightarrow> nat" where
  "masked b n = unat (b AND of_nat (mask_bits ! n))"

lemma bind_gz_cong [fundef_cong]:
  assumes "m s = m' s'" and "\<And>x t. m' s' = (Ret x, t) \<Longrightarrow> f x t = f' x t"
  shows "bind_gz m f s = bind_gz m' f' s'"
  using assms by (auto simp: bind_gz_def split: prod.splits outcome.splits)

function NEEDBITS :: "'fs gz_env \<Rightarrow> nat \<Rightarrow> u64 \<Rightarrow> nat \<Rightarrow> ('fs, u64 \<times> nat) gzm" where
  "NEEDBITS env n b k s =
     (if k < n
      then bind_gz (get_byte env) (\<lambda>c. NEEDBITS env n (b OR push_bit k (ucast c)) (k + 8)) s
      else (Ret (b, k), s))"
  by pat_completeness auto
termination
  by (relation "measure (\<lambda>(env, n, b, k, s). n - k)") auto

declare NEEDBITS.simps [simp del]

definition DUMPBITS :: "nat \<Rightarrow> u64 \<Rightarrow> nat \<Rightarrow> u64 \<times> nat" where
  "DUMPBITS n b k = (drop_bit n b, if n \<le> k then k - n else k + 2 ^ 32 - n)"

subsection \<open>Building the decoding tables\<close>

definition BMAX :: nat where
  "BMAX = 16"

definition N_MAX :: nat where
  "N_MAX = 288"

definition count_lengths :: "nat list \<Rightarrow> nat list" where
  "count_lengths b = foldl (\<lambda>c l. c[l := c ! l + 1]) (replicate (BMAX + 1) 0) b"

function min_length :: "nat list \<Rightarrow> nat \<Rightarrow> nat" where
  "min_length c j = (if j \<le> BMAX then if c ! j \<noteq> 0 then j else min_length c (j + 1) else j)"
  by pat_completeness auto
termination
  by (relation "measure (\<lambda>(c, j). BMAX + 1 - j)") auto

declare min_length.simps [simp del]

fun max_length :: "nat list \<Rightarrow> nat \<Rightarrow> nat" where
  "max_length c 0 = 0"
| "max_length c (Suc i) = (if c ! Suc i \<noteq> 0 then Suc i else max_length c i)"

text \<open>
  The loop that counts the unused codes \<open>y\<close>, starting at length \<open>j\<close>; \<^const>\<open>None\<close> is \<open>return 2\<close>.
\<close>

function unused_codes :: "nat list \<Rightarrow> nat \<Rightarrow> nat \<Rightarrow> int \<Rightarrow> int option" where
  "unused_codes c j i y =
     (if j < i then
        let y' = y - int (c ! j) in if y' < 0 then None else unused_codes c (j + 1) i (2 * y')
      else let y' = y - int (c ! i) in if y' < 0 then None else Some y')"
  by pat_completeness auto
termination
  by (relation "measure (\<lambda>(c, j, i, y). i - j)") auto

declare unused_codes.simps [simp del]

text \<open>\<open>while (--i) *xp++ = (j += *p++)\<close>\<close>

fun start_offsets :: "nat list \<Rightarrow> nat \<Rightarrow> nat \<Rightarrow> nat list" where
  "start_offsets [] i j = []"
| "start_offsets (n # c) i j = (if i > 1 then (j + n) # start_offsets c (i - 1) (j + n) else [])"

definition offset_table :: "nat list \<Rightarrow> nat \<Rightarrow> nat list" where
  "offset_table c g =
     (let xs = [0, 0] @ start_offsets (tl c) g 0 in xs @ replicate (BMAX + 1 - length xs) 0)"

text \<open>
  \<open>v[x[j]++] = i\<close>.  Entries of \<open>v\<close> that were never written are \<^const>\<open>None\<close>; a write outside the
  array makes the result \<^const>\<open>None\<close>.
\<close>

fun value_table :: "nat list \<Rightarrow> nat \<Rightarrow> nat list \<Rightarrow> nat option list \<Rightarrow> (nat list \<times> nat option list) option" where
  "value_table [] i x v = Some (x, v)"
| "value_table (j # b) i x v =
     (if j = 0 then value_table b (i + 1) x v
      else if x ! j < length v
      then value_table b (i + 1) (x[j := x ! j + 1]) (v[x ! j := Some i])
      else None)"

text \<open>Locals of the table-building loop.  \<open>hb_root\<close> is what \<open>*t\<close> of the caller holds.\<close>

record hb =
  hb_h :: int
  hb_w :: int
  hb_i :: nat
  hb_p :: nat
  hb_z :: nat
  hb_q :: nat
  hb_x :: "nat list"
  hb_u :: "nat list"
  hb_root :: "nat option"

text \<open>The search for the table size: \<open>while (++j < z)\<close>.\<close>

function smaller_table :: "nat list \<Rightarrow> nat \<Rightarrow> nat \<Rightarrow> nat \<Rightarrow> nat \<Rightarrow> nat" where
  "smaller_table c xp j z f =
     (if j + 1 < z then
        if 2 * f \<le> c ! (xp + 1) then j + 1
        else smaller_table c (xp + 1) (j + 1) z (2 * f - c ! (xp + 1))
      else j + 1)"
  by pat_completeness auto
termination
  by (relation "measure (\<lambda>(c, xp, j, z, f). z - j)") auto

declare smaller_table.simps [simp del]

definition gz_malloc :: "'fs gz_env \<Rightarrow> nat \<Rightarrow> ('fs, unit) gzm" where
  "gz_malloc env n s =
     (let mc = mach env; g = elf s; s' = s\<lparr>elf := g\<lparr>free_mem_ptr := malloc_ptr (clusters mc) (free_mem_ptr g) (of_nat n)\<rparr>\<rparr>
      in case malloc (clusters mc) (pagesize mc) (dest_addr mc) (free_mem_ptr g) (of_nat n) of
           None \<Rightarrow> unzip_error ''out of memory'' s'
         | Some p \<Rightarrow> (Ret (), s'))"

definition set_entry :: "nat \<Rightarrow> nat \<Rightarrow> huft option \<Rightarrow> ('fs, unit) gzm" where
  "set_entry q j r s =
     (if q < length (tables s) \<and> j < length (tables s ! q)
      then (Ret (), s\<lparr>tables := (tables s)[q := (tables s ! q)[j := r]]\<rparr>)
      else (Crash, s))"

text \<open>
  \<open>while (k > w + l)\<close>: make tables up to the required level.  \<open>a\<close> is the number of codes of length
  \<open>k\<close> left after the current one.  \<open>l\<close> is never 0; that it is positive makes the loop end.
\<close>

definition table_bits :: "nat list \<Rightarrow> nat \<Rightarrow> nat \<Rightarrow> nat \<Rightarrow> nat \<Rightarrow> nat \<Rightarrow> nat" where
  "table_bits c g l k a w =
     (let z = min (g - w) l; j = k - w; f = 2 ^ j
      in if f > a + 1 then smaller_table c k j z (f - (a + 1)) else j)"

definition new_table :: "'fs gz_env \<Rightarrow> nat list \<Rightarrow> nat \<Rightarrow> nat \<Rightarrow> nat \<Rightarrow> nat \<Rightarrow> hb \<Rightarrow> ('fs, hb) gzm" where
  "new_table env c g l k a m =
     (let h = hb_h m + 1; w = hb_w m + int l;
          j = table_bits c g l k a (nat w); z = 2 ^ j
      in bind_gz (gz_malloc env ((z + 1) * 16)) (\<lambda>_.
         bind_gz (gets_gz (\<lambda>s. length (tables s))) (\<lambda>q.
         bind_gz (modify_gz (\<lambda>s. s\<lparr>hufts := hufts s + z + 1, tables := tables s @ [replicate z None]\<rparr>)) (\<lambda>_.
           if h < 0 \<or> nat h \<ge> length (hb_u m) then (\<lambda>s. (Crash, s))
           else
             let m' = m\<lparr>hb_h := h, hb_w := w, hb_z := z, hb_q := q, hb_u := (hb_u m)[nat h := q],
                        hb_root := (case hb_root m of None \<Rightarrow> Some q | Some t \<Rightarrow> Some t)\<rparr>
             in if h = 0 then ret_gz m'
                else
                  bind_gz (set_entry (hb_u m' ! nat (h - 1)) (drop_bit (nat w - l) (hb_i m))
                     (Some \<lparr>huft_e = 16 + j, huft_b = l, huft_v = HT q\<rparr>)) (\<lambda>_.
                    ret_gz (m'\<lparr>hb_x := (hb_x m)[nat h := hb_i m]\<rparr>))))))"

lemma new_table_w:
  "new_table env c g l k a m s = (Ret m', s') \<Longrightarrow> hb_w m' = hb_w m + int l"
  by (auto simp: new_table_def bind_gz_def Let_def gz_simps split: prod.splits outcome.splits if_splits)

function make_tables :: "'fs gz_env \<Rightarrow> nat list \<Rightarrow> nat \<Rightarrow> nat \<Rightarrow> nat \<Rightarrow> nat \<Rightarrow> hb \<Rightarrow> ('fs, hb) gzm" where
  "make_tables env c g l k a m s =
     (if l > 0 \<and> int k > hb_w m + int l
      then bind_gz (new_table env c g l k a m) (\<lambda>m'. make_tables env c g l k a m') s
      else (Ret m, s))"
  by pat_completeness auto
termination
  by (relation "measure (\<lambda>(env, c, g, l, k, a, m, s). nat (int k - hb_w m))") (auto dest!: new_table_w)

declare make_tables.simps [simp del]

text \<open>The entry for the current code and the advance of \<open>p\<close>.\<close>

definition code_entry ::
  "nat option list \<Rightarrow> nat \<Rightarrow> nat \<Rightarrow> nat list \<Rightarrow> nat list \<Rightarrow> nat \<Rightarrow> nat \<Rightarrow> huft option \<times> nat" where
  "code_entry v n s d e p kw =
     (if p \<ge> n then (Some \<lparr>huft_e = 99, huft_b = kw, huft_v = HX\<rparr>, p)
      else case v ! p of
        None \<Rightarrow> (None, p + 1)
      | Some val \<Rightarrow>
          (if val < s
           then (Some \<lparr>huft_e = (if val < 256 then 16 else 15), huft_b = kw, huft_v = HN val\<rparr>, p + 1)
           else if val - s < length e \<and> val - s < length d
           then (Some \<lparr>huft_e = e ! (val - s), huft_b = kw, huft_v = HN (d ! (val - s))\<rparr>, p + 1)
           else (None, p + 1)))"

text \<open>\<open>for (j = i >> w; j < z; j += f) q[j] = r\<close>\<close>

function fill_entries :: "huft_table \<Rightarrow> nat \<Rightarrow> nat \<Rightarrow> nat \<Rightarrow> huft option \<Rightarrow> huft_table" where
  "fill_entries q j f z r = (if j < z \<and> f > 0 then fill_entries (q[j := r]) (j + f) f z r else q)"
  by pat_completeness auto
termination
  by (relation "measure (\<lambda>(q, j, f, z, r). z - j)") auto

declare fill_entries.simps [simp del]

text \<open>Backwards increment of the \<open>k\<close>-bit code \<open>i\<close>; the argument is the position above the bit \<open>j\<close>.\<close>

fun increment_code :: "nat \<Rightarrow> nat \<Rightarrow> nat" where
  "increment_code 0 i = i"
| "increment_code (Suc m) i =
     (if i AND 2 ^ m \<noteq> 0 then increment_code m (i XOR 2 ^ m) else i XOR 2 ^ m)"

text \<open>Backing up over finished tables; reading \<open>x[-1]\<close> is \<^const>\<open>None\<close>.\<close>

function back_up :: "nat list \<Rightarrow> nat \<Rightarrow> nat \<Rightarrow> int \<Rightarrow> int \<Rightarrow> (int \<times> int) option" where
  "back_up x l i h w =
     (if h < 0 then None
      else if i AND (2 ^ nat w - 1) \<noteq> x ! nat h then back_up x l i (h - 1) (w - int l)
      else Some (h, w))"
  by pat_completeness auto
termination
  by (relation "measure (\<lambda>(x, l, i, h, w). nat (h + 1))") auto

declare back_up.simps [simp del]

definition one_code ::
  "'fs gz_env \<Rightarrow> nat list \<Rightarrow> nat option list \<Rightarrow> nat \<Rightarrow> nat \<Rightarrow> nat list \<Rightarrow> nat list \<Rightarrow> nat \<Rightarrow> nat \<Rightarrow> nat \<Rightarrow> nat \<Rightarrow> hb \<Rightarrow> ('fs, hb) gzm" where
  "one_code env c v n s d e g l k a m =
     bind_gz (make_tables env c g l k a m) (\<lambda>m.
       let (r, p) = code_entry v n s d e (hb_p m) (k - nat (hb_w m))
       in bind_gz (\<lambda>st. if hb_q m < length (tables st)
                        then (Ret (), st\<lparr>tables := (tables st)[hb_q m :=
                                fill_entries (tables st ! hb_q m) (drop_bit (nat (hb_w m)) (hb_i m))
                                  (2 ^ (k - nat (hb_w m))) (hb_z m) r]\<rparr>)
                        else (Crash, st)) (\<lambda>_.
          let i = increment_code k (hb_i m)
          in case back_up (hb_x m) l i (hb_h m) (hb_w m) of
               None \<Rightarrow> (\<lambda>st. (Crash, st))
             | Some (h, w) \<Rightarrow> ret_gz (m\<lparr>hb_p := p, hb_i := i, hb_h := h, hb_w := w\<rparr>)))"

text \<open>\<open>while (a--)\<close> and \<open>for (; k <= g; k++)\<close>; the latter counts the lengths that are left.\<close>

primrec codes_of_length ::
  "nat \<Rightarrow> 'fs gz_env \<Rightarrow> nat list \<Rightarrow> nat option list \<Rightarrow> nat \<Rightarrow> nat \<Rightarrow> nat list \<Rightarrow> nat list \<Rightarrow> nat \<Rightarrow> nat \<Rightarrow> nat \<Rightarrow> hb \<Rightarrow> ('fs, hb) gzm" where
  "codes_of_length 0 env c v n s d e g l k m = ret_gz m"
| "codes_of_length (Suc a) env c v n s d e g l k m =
     bind_gz (one_code env c v n s d e g l k a m) (\<lambda>m'. codes_of_length a env c v n s d e g l k m')"

primrec all_codes ::
  "nat \<Rightarrow> 'fs gz_env \<Rightarrow> nat list \<Rightarrow> nat option list \<Rightarrow> nat \<Rightarrow> nat \<Rightarrow> nat list \<Rightarrow> nat list \<Rightarrow> nat \<Rightarrow> nat \<Rightarrow> nat \<Rightarrow> hb \<Rightarrow> ('fs, hb) gzm" where
  "all_codes 0 env c v n s d e g l k m = ret_gz m"
| "all_codes (Suc r) env c v n s d e g l k m =
     bind_gz (codes_of_length (c ! k) env c v n s d e g l k m) (\<lambda>m'.
       all_codes r env c v n s d e g l (k + 1) m')"

text \<open>
  \<open>huft_build\<close>.  The result is the return value, the pointer stored in \<open>*t\<close> and the value stored in
  \<open>*m\<close>.  The code assumes at least one and at most \<open>N_MAX\<close> lengths, none above \<open>BMAX\<close>.
\<close>

definition huft_build ::
  "'fs gz_env \<Rightarrow> nat list \<Rightarrow> nat \<Rightarrow> nat list \<Rightarrow> nat list \<Rightarrow> nat \<Rightarrow> ('fs, nat \<times> nat option \<times> nat) gzm" where
  "huft_build env b s d e m =
     (if b = [] \<or> length b > N_MAX \<or> list_ex (\<lambda>l. l > BMAX) b then (\<lambda>st. (Crash, st))
      else
        let n = length b; c = count_lengths b
        in if c ! 0 = n then ret_gz (0, None, 0)
           else
             let j = min_length c 1; i = max_length c BMAX;
                 l = (if m < j then j else m); l = (if l > i then i else l)
             in case unused_codes c j i (2 ^ j) of
                  None \<Rightarrow> ret_gz (2, None, l)
                | Some y \<Rightarrow>
                    let c = c[i := c ! i + nat y]
                    in case value_table b 0 (offset_table c i) (replicate N_MAX None) of
                         None \<Rightarrow> (\<lambda>st. (Crash, st))
                       | Some (x, v) \<Rightarrow>
                           bind_gz (all_codes (i + 1 - j) env c v n s d e i l j
                              \<lparr>hb_h = - 1, hb_w = - int l, hb_i = 0, hb_p = 0, hb_z = 0, hb_q = 0,
                               hb_x = x[0 := 0], hb_u = replicate BMAX 0, hb_root = None\<rparr>) (\<lambda>r.
                             ret_gz (if y \<noteq> 0 \<and> i \<noteq> 1 then 1 else 0, hb_root r, l)))"

subsection \<open>Decoding a block\<close>

definition flush_output :: "'fs gz_env \<Rightarrow> nat \<Rightarrow> ('fs, unit) gzm" where
  "flush_output env w s = flush_window env (s\<lparr>outcnt := w\<rparr>)"

text \<open>\<open>if (w == WSIZE) { flush_output(w); w = 0; }\<close>\<close>

definition wrap_window :: "'fs gz_env \<Rightarrow> nat \<Rightarrow> ('fs, nat) gzm" where
  "wrap_window env w =
     (if w = WSIZE then bind_gz (flush_output env w) (\<lambda>_. ret_gz 0) else ret_gz w)"

definition put_slide :: "'fs gz_env \<Rightarrow> u8 \<Rightarrow> nat \<Rightarrow> ('fs, nat) gzm" where
  "put_slide env c w s =
     (if w < length (window s) then wrap_window env (w + 1) (s\<lparr>window := (window s)[w := c]\<rparr>)
      else (Crash, s))"

text \<open>
  The table entry for the next \<open>n\<close> bits of \<open>b\<close>.  The \<open>NULL\<close> table, an index outside the table and an
  entry without a defined value are undefined behaviour.
\<close>

definition lookup :: "nat option \<Rightarrow> u64 \<Rightarrow> nat \<Rightarrow> ('fs, huft) gzm" where
  "lookup t b n s =
     (case t of
        None \<Rightarrow> (Crash, s)
      | Some q \<Rightarrow>
          if n < length mask_bits \<and> q < length (tables s) \<and> masked b n < length (tables s ! q) then
            (case tables s ! q ! masked b n of None \<Rightarrow> (Crash, s) | Some r \<Rightarrow> (Ret r, s))
          else (Crash, s))"

text \<open>
  The \<open>do ... while (e > 16)\<close> loop through the sub-tables and the \<open>DUMPBITS\<close> after it;
  \<^const>\<open>None\<close> is \<open>return 1\<close> for an invalid code.
\<close>

primrec subtable_loop :: "nat \<Rightarrow> 'fs gz_env \<Rightarrow> huft \<Rightarrow> u64 \<Rightarrow> nat \<Rightarrow> ('fs, (huft \<times> u64 \<times> nat) option) gzm" where
  "subtable_loop 0 env t b k = (\<lambda>s. (Timeout, s))"
| "subtable_loop (Suc f) env t b k =
     (if huft_e t > 16 then
        if huft_e t = 99 then ret_gz None
        else
          let (b, k) = DUMPBITS (huft_b t) b k; e = huft_e t - 16
          in case huft_v t of
               HT q \<Rightarrow>
                 bind_gz (NEEDBITS env e b k) (\<lambda>(b, k).
                 bind_gz (lookup (Some q) b e) (\<lambda>t'. subtable_loop f env t' b k))
             | _ \<Rightarrow> (\<lambda>s. (Crash, s))
      else let (b, k) = DUMPBITS (huft_b t) b k in ret_gz (Some (t, b, k)))"

definition decode_symbol :: "'fs gz_env \<Rightarrow> nat option \<Rightarrow> nat \<Rightarrow> u64 \<Rightarrow> nat \<Rightarrow> ('fs, (huft \<times> u64 \<times> nat) option) gzm" where
  "decode_symbol env tab bits b k =
     bind_gz (NEEDBITS env bits b k) (\<lambda>(b, k).
     bind_gz (lookup tab b bits) (\<lambda>t. subtable_loop (fuel env) env t b k))"

text \<open>\<open>t->v.n\<close> plus the next \<open>e\<close> bits.\<close>

definition extra_value :: "'fs gz_env \<Rightarrow> huft \<Rightarrow> u64 \<Rightarrow> nat \<Rightarrow> ('fs, nat \<times> u64 \<times> nat) gzm" where
  "extra_value env t b k =
     (case huft_v t of
        HN n \<Rightarrow>
          if huft_e t < length mask_bits then
            bind_gz (NEEDBITS env (huft_e t) b k) (\<lambda>(b, k).
              let (b', k') = DUMPBITS (huft_e t) b k
              in ret_gz (n + masked b (huft_e t), b', k'))
          else (\<lambda>s. (Crash, s))
      | _ \<Rightarrow> (\<lambda>s. (Crash, s)))"

text \<open>
  The copy inside the window.  \<open>memcpy\<close> is used when source and destination do not overlap in the
  harmful direction, and a byte loop otherwise.
\<close>

definition window_memcpy :: "bytes \<Rightarrow> nat \<Rightarrow> nat \<Rightarrow> nat \<Rightarrow> bytes" where
  "window_memcpy win w d e = take w win @ slice d e win @ drop (w + e) win"

primrec window_slow :: "nat \<Rightarrow> bytes \<Rightarrow> nat \<Rightarrow> nat \<Rightarrow> bytes" where
  "window_slow 0 win w d = win"
| "window_slow (Suc e) win w d = window_slow e (win[w := win ! d]) (w + 1) (d + 1)"

text \<open>\<open>w - d >= e\<close> is an unsigned comparison: it also holds when \<open>d\<close> is above \<open>w\<close>.\<close>

definition window_copy :: "bytes \<Rightarrow> nat \<Rightarrow> nat \<Rightarrow> nat \<Rightarrow> bytes" where
  "window_copy win w d e =
     (if w < d \<or> w - d \<ge> e then window_memcpy win w d e else window_slow e win w d)"

function copy_loop :: "'fs gz_env \<Rightarrow> nat \<Rightarrow> nat \<Rightarrow> nat \<Rightarrow> ('fs, nat) gzm" where
  "copy_loop env n w d s =
     (if w < WSIZE \<and> WSIZE \<le> length (window s) then
        let d = d mod WSIZE; e = WSIZE - (if d > w then d else w); e = (if e > n then n else e)
        in bind_gz (wrap_window env (w + e)) (\<lambda>w'.
             if n - e \<noteq> 0 then copy_loop env (n - e) w' (d + e) else ret_gz w')
             (s\<lparr>window := window_copy (window s) w d e\<rparr>)
      else (Crash, s))"
  by pat_completeness auto
termination
  by (relation "measure (\<lambda>(env, n, w, d, s). n)") (auto simp: WSIZE_def split: if_splits)

declare copy_loop.simps [simp del]

text \<open>The distance is subtracted from \<open>w\<close> in 32-bit arithmetic.\<close>

definition copy_source :: "nat \<Rightarrow> nat \<Rightarrow> nat" where
  "copy_source w dist = nat ((int w - int dist) mod 2 ^ 32)"

text \<open>
  One round of the decoding loop.  The result is \<open>Inl\<close> of the returned error code, or \<open>Inr\<close> of the new
  locals and whether the block has ended.
\<close>

definition codes_step ::
  "'fs gz_env \<Rightarrow> nat option \<Rightarrow> nat option \<Rightarrow> nat \<Rightarrow> nat \<Rightarrow> u64 \<Rightarrow> nat \<Rightarrow> nat
     \<Rightarrow> ('fs, nat + bool \<times> u64 \<times> nat \<times> nat) gzm" where
  "codes_step env t_l t_d bl bd b k w =
     bind_gz (decode_symbol env t_l bl b k) (\<lambda>r. case r of
       None \<Rightarrow> ret_gz (Inl 1)
     | Some (t, b, k) \<Rightarrow>
         if huft_e t = 16 then
           (case huft_v t of
              HN n \<Rightarrow> bind_gz (put_slide env (of_nat n) w) (\<lambda>w. ret_gz (Inr (False, b, k, w)))
            | _ \<Rightarrow> (\<lambda>s. (Crash, s)))
         else if huft_e t = 15 then ret_gz (Inr (True, b, k, w))
         else
           bind_gz (extra_value env t b k) (\<lambda>(n, b, k).
           bind_gz (decode_symbol env t_d bd b k) (\<lambda>r. case r of
             None \<Rightarrow> ret_gz (Inl 1)
           | Some (t, b, k) \<Rightarrow>
               bind_gz (extra_value env t b k) (\<lambda>(dist, b, k).
               bind_gz (copy_loop env n w (copy_source w dist)) (\<lambda>w.
                 ret_gz (Inr (False, b, k, w)))))))"

primrec codes_loop ::
  "nat \<Rightarrow> 'fs gz_env \<Rightarrow> nat option \<Rightarrow> nat option \<Rightarrow> nat \<Rightarrow> nat \<Rightarrow> u64 \<Rightarrow> nat \<Rightarrow> nat
     \<Rightarrow> ('fs, nat + u64 \<times> nat \<times> nat) gzm" where
  "codes_loop 0 env t_l t_d bl bd b k w = (\<lambda>s. (Timeout, s))"
| "codes_loop (Suc f) env t_l t_d bl bd b k w =
     bind_gz (codes_step env t_l t_d bl bd b k w) (\<lambda>r. case r of
       Inl e \<Rightarrow> ret_gz (Inl e)
     | Inr (eob, b, k, w) \<Rightarrow>
         if eob then ret_gz (Inr (b, k, w)) else codes_loop f env t_l t_d bl bd b k w)"

definition restore_globals :: "u64 \<Rightarrow> nat \<Rightarrow> nat \<Rightarrow> ('fs, unit) gzm" where
  "restore_globals b k w = modify_gz (\<lambda>s. s\<lparr>outcnt := w, bb := b, bk := k\<rparr>)"

definition inflate_codes :: "'fs gz_env \<Rightarrow> nat option \<Rightarrow> nat option \<Rightarrow> nat \<Rightarrow> nat \<Rightarrow> ('fs, nat) gzm" where
  "inflate_codes env t_l t_d bl bd s =
     bind_gz (codes_loop (fuel env) env t_l t_d bl bd (bb s) (bk s) (outcnt s)) (\<lambda>r. case r of
       Inl e \<Rightarrow> ret_gz e
     | Inr (b, k, w) \<Rightarrow> bind_gz (restore_globals b k w) (\<lambda>_. ret_gz 0)) s"

subsection \<open>Block types\<close>

primrec stored_loop :: "nat \<Rightarrow> 'fs gz_env \<Rightarrow> u64 \<Rightarrow> nat \<Rightarrow> nat \<Rightarrow> ('fs, u64 \<times> nat \<times> nat) gzm" where
  "stored_loop 0 env b k w = ret_gz (b, k, w)"
| "stored_loop (Suc n) env b k w =
     bind_gz (NEEDBITS env 8 b k) (\<lambda>(b, k).
     bind_gz (put_slide env (ucast b) w) (\<lambda>w.
       let (b, k) = DUMPBITS 8 b k in stored_loop n env b k w))"

definition inflate_stored :: "'fs gz_env \<Rightarrow> ('fs, nat) gzm" where
  "inflate_stored env s =
     (let w = outcnt s; (b, k) = DUMPBITS (bk s mod 8) (bb s) (bk s)
      in bind_gz (NEEDBITS env 16 b k) (\<lambda>(b, k).
           let n = unat (b AND 0xffff); (b, k) = DUMPBITS 16 b k
           in bind_gz (NEEDBITS env 16 b k) (\<lambda>(b, k).
                if n \<noteq> unat (NOT b AND 0xffff) then ret_gz 1
                else
                  let (b, k) = DUMPBITS 16 b k
                  in bind_gz (stored_loop n env b k w) (\<lambda>(b, k, w).
                     bind_gz (restore_globals b k w) (\<lambda>_. ret_gz 0)))) s)"

definition cplens :: "nat list" where
  "cplens = [3, 4, 5, 6, 7, 8, 9, 10, 11, 13, 15, 17, 19, 23, 27, 31,
     35, 43, 51, 59, 67, 83, 99, 115, 131, 163, 195, 227, 258, 0, 0]"

definition cplext :: "nat list" where
  "cplext = [0, 0, 0, 0, 0, 0, 0, 0, 1, 1, 1, 1, 2, 2, 2, 2,
     3, 3, 3, 3, 4, 4, 4, 4, 5, 5, 5, 5, 0, 99, 99]"

definition cpdist :: "nat list" where
  "cpdist = [1, 2, 3, 4, 5, 7, 9, 13, 17, 25, 33, 49, 65, 97, 129, 193,
     257, 385, 513, 769, 1025, 1537, 2049, 3073, 4097, 6145,
     8193, 12289, 16385, 24577]"

definition cpdext :: "nat list" where
  "cpdext = [0, 0, 0, 0, 1, 1, 2, 2, 3, 3, 4, 4, 5, 5, 6, 6,
     7, 7, 8, 8, 9, 9, 10, 10, 11, 11, 12, 12, 13, 13]"

definition fixed_lengths :: "nat list" where
  "fixed_lengths = replicate 144 8 @ replicate 112 9 @ replicate 24 7 @ replicate 8 8"

definition inflate_fixed :: "'fs gz_env \<Rightarrow> ('fs, nat) gzm" where
  "inflate_fixed env =
     bind_gz (huft_build env fixed_lengths 257 cplens cplext 7) (\<lambda>(i, t_l, bl).
       if i \<noteq> 0 then ret_gz i
       else
         bind_gz (huft_build env (replicate 30 5) 0 cpdist cpdext 5) (\<lambda>(i, t_d, bd).
           if i > 1 then ret_gz i
           else
             bind_gz (inflate_codes env t_l t_d bl bd) (\<lambda>i.
               if i \<noteq> 0 then ret_gz 1 else ret_gz 0)))"

definition border :: "nat list" where
  "border = [16, 17, 18, 0, 8, 7, 9, 6, 10, 5, 11, 4, 12, 3, 13, 2, 14, 1, 15]"

text \<open>A field of \<open>n\<close> bits: \<open>NEEDBITS(n)\<close>, its value, \<open>DUMPBITS(n)\<close>.\<close>

definition field :: "'fs gz_env \<Rightarrow> nat \<Rightarrow> u64 \<Rightarrow> nat \<Rightarrow> ('fs, nat \<times> u64 \<times> nat) gzm" where
  "field env n b k =
     bind_gz (NEEDBITS env n b k) (\<lambda>(b, k).
       let (b', k') = DUMPBITS n b k in ret_gz (unat (b AND mask n), b', k'))"

text \<open>The code lengths of the bit-length code, in the order of \<open>border\<close>; absent ones are 0.\<close>

fun border_loop :: "'fs gz_env \<Rightarrow> nat list \<Rightarrow> nat \<Rightarrow> nat list \<Rightarrow> u64 \<Rightarrow> nat \<Rightarrow> ('fs, nat list \<times> u64 \<times> nat) gzm" where
  "border_loop env [] nb ll b k = ret_gz (ll, b, k)"
| "border_loop env (o_j # os) nb ll b k =
     (if nb > 0
      then bind_gz (field env 3 b k) (\<lambda>(x, b, k). border_loop env os (nb - 1) (ll[o_j := x]) b k)
      else border_loop env os nb (ll[o_j := 0]) b k)"

text \<open>\<open>while (j--) ll[i++] = l\<close>\<close>

primrec fill_lengths :: "nat \<Rightarrow> nat \<Rightarrow> nat \<Rightarrow> nat list \<Rightarrow> nat list" where
  "fill_lengths 0 i l ll = ll"
| "fill_lengths (Suc j) i l ll = fill_lengths j (i + 1) l (ll[i := l])"

text \<open>The literal and distance code lengths; \<^const>\<open>None\<close> is \<open>return 1\<close>.\<close>

function lengths_loop ::
  "'fs gz_env \<Rightarrow> nat option \<Rightarrow> nat \<Rightarrow> nat \<Rightarrow> nat \<Rightarrow> nat \<Rightarrow> nat list \<Rightarrow> u64 \<Rightarrow> nat
     \<Rightarrow> ('fs, (nat list \<times> u64 \<times> nat) option) gzm" where
  "lengths_loop env t_l bl n i l ll b k s =
     (if i < n then
        bind_gz (NEEDBITS env bl b k) (\<lambda>(b, k).
        bind_gz (lookup t_l b bl) (\<lambda>t_d.
          let (b, k) = DUMPBITS (huft_b t_d) b k
          in case huft_v t_d of
               HN j \<Rightarrow>
                 if j < 16 then lengths_loop env t_l bl n (i + 1) j (ll[i := j]) b k
                 else
                   let (nbits, base, val) = (if j = 16 then (2, 3, l) else if j = 17 then (3, 3, 0) else (7, 11, 0))
                   in bind_gz (field env nbits b k) (\<lambda>(x, b, k).
                        if i + (base + x) > n then ret_gz None
                        else lengths_loop env t_l bl n (i + (base + x)) val
                               (fill_lengths (base + x) i val ll) b k)
             | _ \<Rightarrow> (\<lambda>s. (Crash, s)))) s
      else (Ret (Some (ll, b, k)), s))"
  by pat_completeness auto
termination
  by (relation "measure (\<lambda>(env, t_l, bl, n, i, l, ll, b, k, s). n - i)") (auto split: if_splits)

declare lengths_loop.simps [simp del]

definition build_and_decode :: "'fs gz_env \<Rightarrow> nat list \<Rightarrow> nat \<Rightarrow> nat \<Rightarrow> ('fs, nat) gzm" where
  "build_and_decode env ll nl nd =
     bind_gz (huft_build env (take nl ll) 257 cplens cplext 9) (\<lambda>(i, t_l, bl).
       if i \<noteq> 0 then if i = 1 then unzip_error ''incomplete literal tree'' else ret_gz i
       else
         bind_gz (huft_build env (take nd (drop nl ll)) 0 cpdist cpdext 6) (\<lambda>(i, t_d, bd).
           if i \<noteq> 0 then if i = 1 then unzip_error ''incomplete distance tree'' else ret_gz i
           else
             bind_gz (inflate_codes env t_l t_d bl bd) (\<lambda>i.
               if i \<noteq> 0 then ret_gz 1 else ret_gz 0)))"

definition inflate_dynamic :: "'fs gz_env \<Rightarrow> ('fs, nat) gzm" where
  "inflate_dynamic env =
     bind_gz (gets_gz (\<lambda>s. (bb s, bk s))) (\<lambda>(b, k).
     bind_gz (field env 5 b k) (\<lambda>(nl, b, k).
     bind_gz (field env 5 b k) (\<lambda>(nd, b, k).
     bind_gz (field env 4 b k) (\<lambda>(nb, b, k).
       let nl = 257 + nl; nd = 1 + nd; nb = 4 + nb
       in if nl > 286 \<or> nd > 30 then ret_gz 1
          else
            bind_gz (border_loop env border nb (replicate 316 0) b k) (\<lambda>(ll, b, k).
            bind_gz (huft_build env (take 19 ll) 19 [] [] 7) (\<lambda>(i, t_l, bl).
              if i \<noteq> 0 then ret_gz i
              else
                bind_gz (lengths_loop env t_l bl (nl + nd) 0 0 ll b k) (\<lambda>r. case r of
                  None \<Rightarrow> ret_gz 1
                | Some (ll, b, k) \<Rightarrow>
                    bind_gz (modify_gz (\<lambda>s. s\<lparr>bb := b, bk := k\<rparr>)) (\<lambda>_.
                      build_and_decode env ll nl nd))))))))"

text \<open>The result is the return value and the last-block flag \<open>*e\<close>.\<close>

definition inflate_block :: "'fs gz_env \<Rightarrow> ('fs, nat \<times> bool) gzm" where
  "inflate_block env =
     bind_gz (gets_gz (\<lambda>s. (bb s, bk s))) (\<lambda>(b, k).
     bind_gz (field env 1 b k) (\<lambda>(e, b, k).
     bind_gz (field env 2 b k) (\<lambda>(t, b, k).
     bind_gz (modify_gz (\<lambda>s. s\<lparr>bb := b, bk := k\<rparr>)) (\<lambda>_.
     bind_gz (if t = 2 then inflate_dynamic env
              else if t = 0 then inflate_stored env
              else if t = 1 then inflate_fixed env
              else ret_gz 2) (\<lambda>r. ret_gz (r, e = 1))))))"

text \<open>\<open>while (bk >= 8) { bk -= 8; inptr--; }\<close>\<close>

function undo_lookahead :: "'fs gz \<Rightarrow> 'fs gz" where
  "undo_lookahead s =
     (if bk s \<ge> 8 then undo_lookahead (s\<lparr>bk := bk s - 8, inptr := (if inptr s = 0 then 2 ^ 32 - 1 else inptr s - 1)\<rparr>) else s)"
  by pat_completeness auto
termination
  by (relation "measure bk") auto

declare undo_lookahead.simps [simp del]

primrec block_loop :: "nat \<Rightarrow> 'fs gz_env \<Rightarrow> ('fs, nat) gzm" where
  "block_loop 0 env = (\<lambda>s. (Timeout, s))"
| "block_loop (Suc f) env =
     bind_gz (modify_gz (\<lambda>s. s\<lparr>hufts := 0\<rparr>)) (\<lambda>_.
     bind_gz (inflate_block env) (\<lambda>(r, e).
       if r \<noteq> 0 then ret_gz r else if e then ret_gz 0 else block_loop f env))"

definition inflate :: "'fs gz_env \<Rightarrow> ('fs, nat) gzm" where
  "inflate env =
     bind_gz (modify_gz (\<lambda>s. s\<lparr>outcnt := 0, bk := 0, bb := 0\<rparr>)) (\<lambda>_.
     bind_gz (block_loop (fuel env) env) (\<lambda>r.
       if r \<noteq> 0 then ret_gz r
       else
         bind_gz (modify_gz undo_lookahead) (\<lambda>_.
         bind_gz (gets_gz outcnt) (\<lambda>w.
         bind_gz (flush_output env w) (\<lambda>_. ret_gz 0)))))"


definition example_env :: "unit gz_env" where
  "example_env = \<lparr>fuel = 100, mach = example_machine, bfs_blocksize = 1024, bfs_bread = (\<lambda>_ _ s. Some ((0, []), s))\<rparr>"



subsection \<open>The result code of the table construction\<close>

text \<open>Space taken by a code set, in units of \<open>2 ^ - BMAX\<close> of the code space.\<close>

definition code_space :: "nat list \<Rightarrow> nat" where
  "code_space b = (\<Sum>l \<leftarrow> filter (\<lambda>l. l \<noteq> 0) b. 2 ^ (BMAX - l))"

definition longest :: "nat list \<Rightarrow> nat" where
  "longest b = Max (set b)"

definition lengths_ok :: "nat list \<Rightarrow> bool" where
  "lengths_ok b \<longleftrightarrow> b \<noteq> [] \<and> length b \<le> N_MAX \<and> list_all (\<lambda>l. l \<le> BMAX) b"

definition build_code :: "nat list \<Rightarrow> nat" where
  "build_code b =
     (if list_all (\<lambda>l. l = 0) b then 0
      else if code_space b > 2 ^ BMAX then 2
      else if code_space b < 2 ^ BMAX \<and> longest b \<noteq> 1 then 1
      else 0)"

lemma count_lengths_step:
  "list_all (\<lambda>l. l < length c) b \<Longrightarrow>
     foldl (\<lambda>c l. c[l := c ! l + 1]) c b = map (\<lambda>i. c ! i + count_list b i) [0..<length c]"
proof (induction b arbitrary: c)
  case Nil
  then show ?case by (simp add: map_nth)
next
  case (Cons l b)
  have "foldl (\<lambda>c l. c[l := c ! l + 1]) c (l # b)
      = map (\<lambda>i. c[l := c ! l + 1] ! i + count_list b i) [0..<length c]"
    using Cons.IH [of "c[l := c ! l + 1]"] Cons.prems by simp
  also have "\<dots> = map (\<lambda>i. c ! i + count_list (l # b) i) [0..<length c]"
    using Cons.prems by (intro map_cong) (auto simp: nth_list_update)
  finally show ?case .
qed

lemma count_lengths_nth:
  assumes "lengths_ok b" and "i \<le> BMAX"
  shows "count_lengths b ! i = count_list b i"
proof -
  define z where "z = replicate (BMAX + 1) (0::nat)"
  have z: "length z = BMAX + 1" "z ! i = 0" using assms(2) by (simp_all add: z_def del: replicate_Suc)
  have "list_all (\<lambda>l. l < length z) b"
    using assms(1) z by (auto simp: lengths_ok_def list_all_iff)
  from count_lengths_step [OF this]
  have "count_lengths b = map (\<lambda>i. z ! i + count_list b i) [0..<BMAX + 1]"
    by (simp add: count_lengths_def z_def z(1) del: upt_Suc)
  with assms(2) z show ?thesis by (simp del: upt_Suc)
qed

lemma length_count_lengths: "length (count_lengths b) = BMAX + 1"
proof -
  have "length (foldl (\<lambda>c l. c[l := c ! l + 1]) c b) = length c" for c :: "nat list"
    by (induction b arbitrary: c) auto
  then show ?thesis by (simp add: count_lengths_def)
qed

lemma min_length_least:
  "\<exists>i. j \<le> i \<and> i \<le> BMAX \<and> c ! i \<noteq> 0 \<Longrightarrow>
     j \<le> min_length c j \<and> min_length c j \<le> BMAX \<and> c ! min_length c j \<noteq> 0
     \<and> (\<forall>i. j \<le> i \<longrightarrow> i < min_length c j \<longrightarrow> c ! i = 0)"
proof (induction c j rule: min_length.induct)
  case (1 c j)
  show ?case
  proof (cases "c ! j = 0")
    case True
    with 1(2) have *: "\<exists>i. j + 1 \<le> i \<and> i \<le> BMAX \<and> c ! i \<noteq> 0" "j \<le> BMAX"
      by (metis add.commute le_neq_implies_less less_eq_Suc_le plus_1_eq_Suc, auto)
    have "min_length c j = min_length c (j + 1)"
      using True *(2) by (subst min_length.simps) simp
    with 1(1) [OF *(2) _ *(1)] True show ?thesis
      by (metis Suc_eq_plus1 Suc_leD le_neq_implies_less less_eq_Suc_le)
  next
    case False
    with 1(2) have "min_length c j = j" by (subst min_length.simps) auto
    with False 1(2) show ?thesis by auto
  qed
qed

lemma max_length_greatest:
  "\<exists>i. 1 \<le> i \<and> i \<le> n \<and> c ! i \<noteq> 0 \<Longrightarrow>
     1 \<le> max_length c n \<and> max_length c n \<le> n \<and> c ! max_length c n \<noteq> 0
     \<and> (\<forall>i. max_length c n < i \<longrightarrow> i \<le> n \<longrightarrow> c ! i = 0)"
proof (induction n)
  case 0
  then show ?case by simp
next
  case (Suc n)
  show ?case
  proof (cases "c ! Suc n = 0")
    case True
    with Suc.prems have "\<exists>i. 1 \<le> i \<and> i \<le> n \<and> c ! i \<noteq> 0" by (metis le_Suc_eq)
    with Suc.IH True show ?thesis by (auto simp: le_Suc_eq)
  qed auto
qed

text \<open>The loop computes the signed amount of unused code space at the longest length.\<close>

lemma unused_codes_sum:
  "j \<le> i \<Longrightarrow> unused_codes c j i y =
     (let r = y * 2 ^ (i - j) - (\<Sum>l = j..i. int (c ! l) * 2 ^ (i - l)) in if r < 0 then None else Some r)"
proof (induction c j i y rule: unused_codes.induct)
  case (1 c j i y)
  define y' where "y' = y - int (c ! j)"
  show ?case
  proof (cases "j < i")
    case False
    with 1(2) show ?thesis by (subst unused_codes.simps) (simp add: Let_def)
  next
    case True
    define rest where "rest = (\<Sum>l = Suc j..i. int (c ! l) * 2 ^ (i - l))"
    have rest: "rest \<ge> 0" unfolding rest_def by (intro sum_nonneg) simp
    have "i - j = Suc (i - Suc j)" using True by simp
    then have p: "(2::int) ^ (i - j) = 2 * 2 ^ (i - Suc j)" by simp
    have total: "y * 2 ^ (i - j) - (\<Sum>l = j..i. int (c ! l) * 2 ^ (i - l)) = 2 * y' * 2 ^ (i - Suc j) - rest"
      using 1(2) p by (simp add: sum.atLeast_Suc_atMost rest_def y'_def algebra_simps)
    show ?thesis
    proof (cases "y' < 0")
      case neg: True
      then have "2 * y' * 2 ^ (i - Suc j) < (0::int)" by (simp add: mult_neg_pos)
      with rest have "2 * y' * 2 ^ (i - Suc j) - rest < 0" by simp
      moreover have "unused_codes c j i y = None"
        using True neg by (subst unused_codes.simps) (simp add: y'_def)
      ultimately show ?thesis by (simp add: total Let_def)
    next
      case False
      then have "unused_codes c j i y = unused_codes c (j + 1) i (2 * y')"
        using True by (subst unused_codes.simps) (simp add: y'_def)
      also have "\<dots> = (let r = 2 * y' * 2 ^ (i - Suc j) - rest in if r < 0 then None else Some r)"
        using 1(1) [OF True] True False by (simp add: y'_def rest_def)
      finally show ?thesis by (simp add: total)
    qed
  qed
qed

lemma code_space_counts:
  assumes "list_all (\<lambda>l. l \<le> BMAX) b"
  shows "code_space b = (\<Sum>l = 1..BMAX. count_list b l * 2 ^ (BMAX - l))"
  using assms
proof (induction b)
  case Nil
  then show ?case by (simp add: code_space_def)
next
  case (Cons l b)
  have "(\<Sum>m = 1..BMAX. count_list (l # b) m * 2 ^ (BMAX - m))
      = (\<Sum>m = 1..BMAX. (if m = l then 2 ^ (BMAX - m) else 0) + count_list b m * 2 ^ (BMAX - m))"
    by (intro sum.cong) auto
  also have "\<dots> = (if l \<noteq> 0 then 2 ^ (BMAX - l) else 0) + code_space b"
    using Cons by (simp add: sum.distrib)
  finally show ?case by (simp add: code_space_def)
qed

lemma code_space_scaled:
  assumes "lengths_ok b" and "c = count_lengths b"
    and "1 \<le> j" "j \<le> i" "i \<le> BMAX" and "\<forall>l. 1 \<le> l \<longrightarrow> l < j \<longrightarrow> c ! l = 0"
    and "\<forall>l. i < l \<longrightarrow> l \<le> BMAX \<longrightarrow> c ! l = 0"
  shows "code_space b = 2 ^ (BMAX - i) * (\<Sum>l = j..i. c ! l * 2 ^ (i - l))"
proof -
  have "code_space b = (\<Sum>l = 1..BMAX. c ! l * 2 ^ (BMAX - l))"
    using assms(1,2) by (simp add: code_space_counts count_lengths_nth lengths_ok_def)
  also have "\<dots> = (\<Sum>l = j..i. c ! l * 2 ^ (BMAX - l))"
    using assms(3-7) by (intro sum.mono_neutral_right) auto
  also have "\<dots> = (\<Sum>l = j..i. 2 ^ (BMAX - i) * (c ! l * 2 ^ (i - l)))"
    using assms(5) by (intro sum.cong) (auto simp flip: power_add)
  finally show ?thesis by (simp add: sum_distrib_left)
qed

lemma code_space_unused:
  assumes "lengths_ok b" and "\<not> list_all (\<lambda>l. l = 0) b" and "c = count_lengths b"
    and j: "j = min_length c 1" and i: "i = max_length c BMAX"
  shows "unused_codes c j i (2 ^ j) =
           (if code_space b > 2 ^ BMAX then None else Some ((2 ^ BMAX - int (code_space b)) div 2 ^ (BMAX - i)))"
    and "(2 ^ BMAX - int (code_space b)) div 2 ^ (BMAX - i) = 0 \<longleftrightarrow> code_space b = 2 ^ BMAX"
    and "i = longest b"
proof -
  have b: "list_all (\<lambda>l. l \<le> BMAX) b" using assms(1) by (simp add: lengths_ok_def)
  have nth: "c ! l = count_list b l" if "l \<le> BMAX" for l
    using count_lengths_nth [OF assms(1) that] assms(3) by simp
  obtain l where l: "l \<in> set b" "l \<noteq> 0" "l \<le> BMAX"
    using assms(2) b by (auto simp: list_all_iff)
  have "c ! l \<noteq> 0" using nth [OF l(3)] l(1) count_list_0_iff [of b l] by simp
  with l have ex: "\<exists>i. 1 \<le> i \<and> i \<le> BMAX \<and> c ! i \<noteq> 0"
    by (intro exI [of _ l]) simp
  from min_length_least [OF this] j have J: "1 \<le> j" "j \<le> BMAX" "c ! j \<noteq> 0" "\<forall>i. 1 \<le> i \<longrightarrow> i < j \<longrightarrow> c ! i = 0"
    by auto
  from max_length_greatest [OF ex] i have I: "1 \<le> i" "i \<le> BMAX" "c ! i \<noteq> 0"
      "\<forall>l. i < l \<longrightarrow> l \<le> BMAX \<longrightarrow> c ! l = 0" by auto
  have ji: "j \<le> i" using J I by (meson leI)
  define S where "S = (\<Sum>l = j..i. c ! l * 2 ^ (i - l))"
  have cs: "code_space b = 2 ^ (BMAX - i) * S"
    unfolding S_def by (rule code_space_scaled [OF assms(1,3) J(1) ji I(2) J(4) I(4)])
  have pw: "(2::nat) ^ BMAX = 2 ^ (BMAX - i) * 2 ^ i" using I(2) by (simp flip: power_add)
  have dv: "(2 ^ BMAX - int (code_space b)) div 2 ^ (BMAX - i) = 2 ^ i - int S"
  proof -
    have "2 ^ BMAX - int (code_space b) = 2 ^ (BMAX - i) * (2 ^ i - int S)"
      using arg_cong [OF pw, of int] by (simp add: cs right_diff_distrib)
    then show ?thesis by simp
  qed
  have gt: "code_space b > 2 ^ BMAX \<longleftrightarrow> S > 2 ^ i" and eq: "code_space b = 2 ^ BMAX \<longleftrightarrow> S = 2 ^ i"
    by (simp_all add: cs pw)
  have "unused_codes c j i (2 ^ j) = (if 2 ^ i - int S < 0 then None else Some (2 ^ i - int S))"
    using ji by (simp add: unused_codes_sum Let_def S_def flip: power_add)
  moreover have "2 ^ i - int S < 0 \<longleftrightarrow> S > 2 ^ i" and e0: "2 ^ i - int S = 0 \<longleftrightarrow> S = 2 ^ i"
    by (metis diff_less_0_iff_less numeral_power_less_of_nat_cancel_iff, metis eq_iff_diff_eq_0 of_nat_eq_iff of_nat_numeral of_nat_power)
  ultimately show "unused_codes c j i (2 ^ j) =
           (if code_space b > 2 ^ BMAX then None else Some ((2 ^ BMAX - int (code_space b)) div 2 ^ (BMAX - i)))"
    by (simp add: gt dv)
  show "(2 ^ BMAX - int (code_space b)) div 2 ^ (BMAX - i) = 0 \<longleftrightarrow> code_space b = 2 ^ BMAX"
    by (simp only: dv eq e0)
  have "i \<in> set b" using I nth [of i] by (simp add: count_list_0_iff)
  moreover have "l \<le> i" if "l \<in> set b" for l
  proof (rule ccontr)
    assume "\<not> l \<le> i"
    moreover have "l \<le> BMAX" using that b by (auto simp: list_all_iff)
    ultimately show False using I(4) nth [of l] that by (simp add: count_list_0_iff)
  qed
  ultimately show "i = longest b" unfolding longest_def by (intro Max_eqI [symmetric]) auto
qed

lemma all_zero_count: "lengths_ok b \<Longrightarrow> count_lengths b ! 0 = length b \<longleftrightarrow> list_all (\<lambda>l. l = 0) b"
proof -
  have "count_list b 0 = length b \<longleftrightarrow> list_all (\<lambda>l. l = 0) b" for b :: "nat list"
  proof (induction b)
    case (Cons l b)
    have "count_list b 0 \<le> length b" by (rule count_le_length)
    with Cons show ?case by auto
  qed simp
  then show "lengths_ok b \<Longrightarrow> ?thesis" by (simp add: count_lengths_nth)
qed

text \<open>
  The result code of \<open>huft_build\<close> classifies the code set as the comment on the function says: 0 for
  an all-zero set and for a complete one, 2 for an oversubscribed set, 1 for an incomplete set, except
  that an incomplete set whose longest code has one bit also gives 0.  The measure is the Kraft sum of
  the lengths, which the code never computes as such.
\<close>

theorem huft_build_code:
  assumes "lengths_ok b" and "huft_build env b s d e m st = (Ret (r, t, m'), st')"
  shows "r = build_code b"
proof -
  have pre: "(b = [] \<or> length b > N_MAX \<or> list_ex (\<lambda>l. l > BMAX) b) = False"
    using assms(1) by (auto simp: lengths_ok_def list_ex_iff list_all_iff)
  note zero = all_zero_count [OF assms(1)]
  show ?thesis
  proof (cases "list_all (\<lambda>l. l = 0) b")
    case True
    with assms(2) zero show ?thesis
      unfolding huft_build_def pre if_False build_code_def Let_def by (simp add: gz_simps)
  next
    case False
    note u = code_space_unused [OF assms(1) False refl refl refl]
    show ?thesis
    proof (cases "code_space b > 2 ^ BMAX")
      case True
      with assms(2) zero u(1) False show ?thesis
        unfolding huft_build_def pre if_False build_code_def Let_def by (simp add: gz_simps)
    next
      case le: False
      with assms(2) zero u(1,2) False show ?thesis
        unfolding huft_build_def pre if_False build_code_def Let_def u(3) [symmetric]
        by (auto simp: gz_simps bind_gz_def split: option.splits prod.splits outcome.splits if_splits)
    qed
  qed
qed


theorem huft_build_code_witness:
  "huft_build example_env [1, 2, 1, 2] 0 [] [] 7 example_gz = (Ret (build_code [1, 2, 1, 2], None, 2), example_gz)
   \<and> build_code [1, 2, 1, 2] = 2"
proof -
  have c: "count_lengths [1, 2, 1, 2] = [0, 2, 2, 0, 0, 0, 0, 0, 0, 0, 0, 0, 0, 0, 0, 0, 0]"
    by (simp add: count_lengths_def BMAX_def numeral_eq_Suc)
  let ?c = "[0, 2, 2, 0, 0, 0, 0, 0, 0, 0, 0, 0, 0, 0, 0, 0, 0]"
  have "min_length ?c 1 = 1" "max_length ?c BMAX = 2" "unused_codes ?c 1 2 2 = None"
    by (simp_all add: min_length.simps unused_codes.simps BMAX_def numeral_eq_Suc)
  with c have "huft_build example_env [1, 2, 1, 2] 0 [] [] 7 example_gz = (Ret (2, None, 2), example_gz)"
    by (simp add: huft_build_def Let_def N_MAX_def BMAX_def gz_simps)
  moreover from huft_build_code [OF _ this] have "2 = build_code [1, 2, 1, 2]"
    by (simp add: lengths_ok_def N_MAX_def BMAX_def)
  ultimately show ?thesis by simp
qed


subsection \<open>The bit buffer as a queue of bits\<close>

definition bits_of_byte :: "u8 \<Rightarrow> bool list" where
  "bits_of_byte c = map (bit c) [0..<8]"

definition buffered :: "u64 \<Rightarrow> nat \<Rightarrow> bool list" where
  "buffered b k = map (bit b) [0..<k]"

text \<open>Nothing is set above the \<open>k\<close> buffered bits.\<close>

definition clean :: "u64 \<Rightarrow> nat \<Rightarrow> bool" where
  "clean b k \<longleftrightarrow> take_bit k b = b"

text \<open>Successive calls of \<open>get_byte\<close> deliver the bytes \<open>cs\<close>.\<close>

fun reads :: "'fs gz_env \<Rightarrow> bytes \<Rightarrow> 'fs gz \<Rightarrow> 'fs gz \<Rightarrow> bool" where
  "reads env [] s s' \<longleftrightarrow> s' = s"
| "reads env (c # cs) s s' \<longleftrightarrow> fst (get_byte env s) = Ret c \<and> reads env cs (snd (get_byte env s)) s'"

lemma bind_gz_RetE:
  assumes "bind_gz m f s = (Ret y, s')"
  obtains x t where "m s = (Ret x, t)" and "f x t = (Ret y, s')"
  using assms by (auto simp: bind_gz_def split: prod.splits outcome.splits)

lemma NEEDBITS_done: "\<not> k < n \<Longrightarrow> NEEDBITS env n b k s = (Ret (b, k), s)"
  by (subst NEEDBITS.simps) simp

lemma NEEDBITS_more:
  "k < n \<Longrightarrow> NEEDBITS env n b k s =
     bind_gz (get_byte env) (\<lambda>c. NEEDBITS env n (b OR push_bit k (ucast c)) (k + 8)) s"
  by (subst NEEDBITS.simps) simp

lemma clean_bit: "clean b k \<longleftrightarrow> (\<forall>i. k \<le> i \<longrightarrow> \<not> bit b i)"
  by (auto simp: clean_def bit_eq_iff bit_take_bit_iff not_le)
    (use bit_imp_le_length [where w = b] in fastforce)

lemma buffered_append_byte:
  assumes "clean b k" and "k + 8 \<le> 64"
  shows "buffered (b OR push_bit k (ucast c)) (k + 8) = buffered b k @ bits_of_byte c"
    and "clean (b OR push_bit k (ucast c)) (k + 8)"
proof -
  have "bit (b OR push_bit k (ucast c)) i = (if i < k then bit b i else bit c (i - k))" if "i < k + 8" for i
    using assms that by (auto simp: bit_or_iff bit_push_bit_iff bit_ucast_iff clean_bit)
  then show "buffered (b OR push_bit k (ucast c)) (k + 8) = buffered b k @ bits_of_byte c"
    by (intro nth_equalityI) (auto simp: buffered_def bits_of_byte_def nth_append)
  show "clean (b OR push_bit k (ucast c)) (k + 8)"
    using assms(1) by (auto simp: clean_bit bit_or_iff bit_push_bit_iff bit_ucast_iff dest: bit_imp_le_length)
qed

lemma NEEDBITS_bits:
  "NEEDBITS env n b k s = (Ret (b', k'), s') \<Longrightarrow> clean b k \<Longrightarrow> n \<le> 57 \<Longrightarrow>
     \<exists>cs. reads env cs s s' \<and> buffered b' k' = buffered b k @ concat (map bits_of_byte cs)
       \<and> clean b' k' \<and> n \<le> k' \<and> k' \<le> max k (n + 7)"
proof (induction env n b k s rule: NEEDBITS.induct)
  case (1 env n b k s)
  show ?case
  proof (cases "k < n")
    case False
    with 1(2,3) show ?thesis by (intro exI [of _ "[]"]) (auto simp: NEEDBITS_done)
  next
    case True
    with 1(2) obtain c t where c: "get_byte env s = (Ret c, t)"
        and r: "NEEDBITS env n (b OR push_bit k (ucast c)) (k + 8) t = (Ret (b', k'), s')"
      by (auto simp: NEEDBITS_more elim: bind_gz_RetE)
    have k: "k + 8 \<le> 64" using True 1(4) by simp
    note B = buffered_append_byte [OF 1(3) k, of c]
    obtain cs where cs: "reads env cs t s'" "clean b' k'" "n \<le> k'" "k' \<le> max (k + 8) (n + 7)"
        "buffered b' k' = (buffered b k @ bits_of_byte c) @ concat (map bits_of_byte cs)"
      using 1(1) [OF True c r B(2) 1(4)] unfolding B(1) by blast
    show ?thesis
      using cs c True by (intro exI [of _ "c # cs"]) auto
  qed
qed

lemma DUMPBITS_bits:
  assumes "clean b k" and "n \<le> k"
  shows "DUMPBITS n b k = (drop_bit n b, k - n)" and "buffered (drop_bit n b) (k - n) = drop n (buffered b k)"
    and "clean (drop_bit n b) (k - n)"
proof -
  show "DUMPBITS n b k = (drop_bit n b, k - n)" using assms by (simp add: DUMPBITS_def)
  show "buffered (drop_bit n b) (k - n) = drop n (buffered b k)"
    by (rule nth_equalityI) (auto simp: buffered_def bit_drop_bit_eq)
  show "clean (drop_bit n b) (k - n)" using assms by (auto simp: clean_bit bit_drop_bit_eq)
qed

lemma low_bits_value:
  assumes "n \<le> k"
  shows "unat (b AND mask n) = horner_sum of_bool 2 (take n (buffered b k))"
proof -
  have "take n (buffered b k) = map (bit b) [0..<n]"
    using assms by (simp add: buffered_def take_map)
  moreover have "map (bit b) [0..<n] = map (bit (unat b)) [0..<n]"
    by (simp add: bit_unsigned_iff)
  moreover have "unat (b AND mask n) = take_bit n (unat b)"
    by (simp add: unsigned_take_bit_eq flip: take_bit_eq_mask)
  ultimately show ?thesis by (simp add: horner_sum_bit_eq_take_bit)
qed

text \<open>
  C27.  Bit buffer and input together are a queue of bits: reading a field of up to 16 bits returns the
  first \<open>n\<close> bits of the buffered bits followed by the input bytes, least significant bit first, and
  leaves exactly the remaining bits buffered.
\<close>

theorem field_reads_bits:
  assumes "field env n b k s = (Ret (v, b', k'), s')" and "clean b k" and "n \<le> 16"
  shows "\<exists>cs. reads env cs s s' \<and> clean b' k'
           \<and> (let bits = buffered b k @ concat (map bits_of_byte cs)
              in v = horner_sum of_bool 2 (take n bits) \<and> buffered b' k' = drop n bits)"
proof -
  from assms(1) obtain b1 k1 where N: "NEEDBITS env n b k s = (Ret (b1, k1), s')"
      and D: "DUMPBITS n b1 k1 = (b', k')" and v: "v = unat (b1 AND mask n)"
    by (auto simp: field_def gz_simps elim!: bind_gz_RetE split: prod.splits)
  obtain cs where cs: "reads env cs s s'" "buffered b1 k1 = buffered b k @ concat (map bits_of_byte cs)"
      "clean b1 k1" "n \<le> k1"
    using NEEDBITS_bits [OF N assms(2)] assms(3) by auto
  with DUMPBITS_bits [OF cs(3,4)] D v low_bits_value [OF cs(4), of b1] show ?thesis
    by (intro exI [of _ cs]) (auto simp: Let_def)
qed

theorem field_reads_bits_witness:
  "\<exists>cs. reads example_env cs (example_gz\<lparr>inbuf := [0xa6], insize := 1\<rparr>) (example_gz\<lparr>inbuf := [0xa6], insize := 1, inptr := 1\<rparr>)
     \<and> clean 0x14 5
     \<and> (let bits = buffered 5 3 @ concat (map bits_of_byte cs)
        in 53 = (horner_sum of_bool 2 (take 6 bits) :: nat) \<and> buffered 0x14 5 = drop 6 bits)"
proof -
  let ?s = "example_gz\<lparr>inbuf := [0xa6], insize := 1\<rparr>" and ?s' = "example_gz\<lparr>inbuf := [0xa6], insize := 1, inptr := 1\<rparr>"
  have "field example_env 6 5 3 ?s = (Ret (53, 0x14, 5), ?s')"
    by (simp add: field_def bind_gz_def NEEDBITS_more NEEDBITS_done get_byte_def example_gz_def DUMPBITS_def
        mask_eq_exp_minus_1 push_bit_eq_mult drop_bit_eq_div gz_simps)
  moreover have "clean 5 3" by (simp add: clean_def take_bit_eq_mask mask_eq_exp_minus_1)
  ultimately show ?thesis by (rule field_reads_bits) simp
qed

subsection \<open>Stored blocks\<close>

text \<open>Whole bytes that the bit buffer holds beyond the current byte boundary.\<close>

definition whole_bytes :: "u64 \<Rightarrow> nat \<Rightarrow> bytes" where
  "whole_bytes b k = map (\<lambda>i. ucast (drop_bit (k mod 8 + 8 * i) b)) [0..<k div 8]"

text \<open>The byte-level reading of a stored block: pending bytes first, then the input.\<close>

definition next_byte :: "'fs gz_env \<Rightarrow> bytes \<Rightarrow> ('fs, u8 \<times> bytes) gzm" where
  "next_byte env p =
     (case p of [] \<Rightarrow> bind_gz (get_byte env) (\<lambda>c. ret_gz (c, [])) | c # p' \<Rightarrow> ret_gz (c, p'))"

primrec copy_stored :: "nat \<Rightarrow> 'fs gz_env \<Rightarrow> bytes \<Rightarrow> nat \<Rightarrow> ('fs, bytes \<times> nat) gzm" where
  "copy_stored 0 env p w = ret_gz (p, w)"
| "copy_stored (Suc n) env p w =
     bind_gz (next_byte env p) (\<lambda>(c, p). bind_gz (put_slide env c w) (\<lambda>w. copy_stored n env p w))"

definition stored_block :: "'fs gz_env \<Rightarrow> bytes \<Rightarrow> ('fs, nat) gzm" where
  "stored_block env p s =
     bind_gz (next_byte env p) (\<lambda>(lo, p). bind_gz (next_byte env p) (\<lambda>(hi, p).
     bind_gz (next_byte env p) (\<lambda>(nlo, p). bind_gz (next_byte env p) (\<lambda>(nhi, p).
       if lo \<noteq> NOT nlo \<or> hi \<noteq> NOT nhi then ret_gz 1
       else
         bind_gz (copy_stored (unat lo + 256 * unat hi) env p (outcnt s)) (\<lambda>(p, w).
         bind_gz (restore_globals (le_word p) (8 * length p) w) (\<lambda>_. ret_gz 0)))))) s"

lemma le_word_or: "(le_word (c # p) :: u64) = ucast c OR push_bit 8 (le_word p)"
proof -
  have "256 * (le_word p :: u64) = push_bit 8 (le_word p)" by (simp add: push_bit_eq_mult)
  moreover have "(ucast c :: u64) + push_bit 8 (le_word p) = ucast c OR push_bit 8 (le_word p)"
    by (rule disjunctive_add_eq_or) (auto simp: bit_eq_iff bit_simps dest: bit_imp_le_length)
  ultimately show ?thesis by simp
qed

lemma bit_le_word:
  "bit (le_word p :: u64) i \<longleftrightarrow> i < 64 \<and> i div 8 < length p \<and> bit (p ! (i div 8)) (i mod 8)"
proof (induction p arbitrary: i)
  case Nil
  then show ?case by simp
next
  case (Cons c p)
  show ?case
  proof (cases "i < 8")
    case True
    then show ?thesis by (simp add: le_word_or bit_simps del: le_word.simps)
  next
    case False
    then have "i div 8 = Suc ((i - 8) div 8)" "i mod 8 = (i - 8) mod 8"
      by (simp_all add: le_div_geq le_mod_geq)
    with False show ?thesis
      by (auto simp: le_word_or bit_simps Cons.IH simp del: le_word.simps dest: bit_imp_le_length)
  qed
qed

lemma div_mod_8_less: "i < 8 * n \<longleftrightarrow> i div 8 < (n::nat)"
  by (simp add: less_mult_imp_div_less div_less_iff_less_mult mult.commute)

lemma clean_le_word: "clean (le_word p) (8 * length p)"
  by (auto simp: clean_bit bit_le_word simp flip: div_mod_8_less)

lemma le_word_append_byte:
  assumes "length p \<le> 7"
  shows "le_word p OR push_bit (8 * length p) (ucast c) = (le_word (p @ [c]) :: u64)"
proof -
  have "bit (le_word p OR push_bit (8 * length p) (ucast c) :: u64) i = bit (le_word (p @ [c]) :: u64) i"
    if "i < 64" for i
  proof -
    consider "i div 8 < length p" | "i div 8 = length p" | "i div 8 > length p" by linarith
    then show ?thesis
    proof cases
      case 1
      then have "i < 8 * length p" by (simp add: div_mod_8_less)
      with 1 that show ?thesis by (simp add: bit_simps bit_le_word nth_append)
    next
      case 2
      then have "i - 8 * length p = i mod 8" "8 * length p \<le> i" by (metis minus_mult_div_eq_mod, metis div_mod_8_less nat_less_le not_le)
      moreover have "i mod 8 < 64" using mod_less_divisor [of 8 i] by linarith
      ultimately show ?thesis using 2 that by (simp add: bit_simps bit_le_word nth_append)
    next
      case 3
      then have "8 * Suc (length p) \<le> i" by (metis Suc_leI div_mod_8_less not_le)
      then have "\<not> bit c (i - 8 * length p)" by (auto dest: bit_imp_le_length)
      with 3 that show ?thesis by (simp add: bit_simps bit_le_word)
    qed
  qed
  then show ?thesis by (simp add: bit_eq_iff)
qed

lemma drop_bit_le_word: "length p \<le> 7 \<Longrightarrow> drop_bit 8 (le_word (c # p)) = (le_word p :: u64)"
proof (rule bit_word_eqI)
  fix n
  assume "length p \<le> 7" and "n < LENGTH(64)"
  moreover have "(8 + n) div 8 = Suc (n div 8)" by simp
  ultimately show "bit (drop_bit 8 (le_word (c # p)) :: u64) n = bit (le_word p :: u64) n"
    by (auto simp: bit_drop_bit_eq bit_le_word simp del: le_word.simps simp flip: div_mod_8_less)
qed

lemma ucast_le_word: "ucast (le_word (c # p) :: u64) = c"
  by (rule bit_word_eqI) (auto simp: bit_simps bit_le_word simp del: le_word.simps)

lemma NEEDBITS_bytes_8:
  assumes "length p \<le> 7"
  shows "NEEDBITS env 8 (le_word p) (8 * length p) s =
     bind_gz (next_byte env p) (\<lambda>(c, p). ret_gz (le_word (c # p), 8 * length (c # p))) s"
proof (cases p)
  case Nil
  show ?thesis
    unfolding Nil
    by (auto simp: NEEDBITS_more NEEDBITS_done next_byte_def gz_simps bind_gz_def split: prod.split outcome.split)
next
  case (Cons c p')
  then show ?thesis by (simp add: NEEDBITS_done next_byte_def gz_simps del: le_word.simps)
qed

lemma NEEDBITS_bytes_16:
  assumes "length p \<le> 6"
  shows "NEEDBITS env 16 (le_word p) (8 * length p) s =
     bind_gz (next_byte env p) (\<lambda>(c, p). bind_gz (next_byte env p) (\<lambda>(d, p).
       ret_gz (le_word (c # d # p), 8 * length (c # d # p)))) s"
proof -
  have two: "NEEDBITS env 16 (le_word [c]) 8 t =
      bind_gz (get_byte env) (\<lambda>d. ret_gz (le_word [c, d], 16)) t" for c t
    using le_word_append_byte [of "[c]"]
    by (simp add: NEEDBITS_more NEEDBITS_done gz_simps bind_gz_def del: le_word.simps split: prod.split outcome.split)
  consider "p = []" | c where "p = [c]" | c d p' where "p = c # d # p'"
    by (metis neq_Nil_conv)
  then show ?thesis
  proof cases
    case 1
    have z: "(0 :: u64) OR push_bit 0 (ucast c) = le_word [c]" for c :: u8 by simp
    show ?thesis
      using 1 NEEDBITS_more [of 0 16 env 0 s] two unfolding z
      by (simp add: next_byte_def gz_simps bind_gz_def del: le_word.simps(2) split: prod.split outcome.split)
  next
    case 2
    then show ?thesis
      using two by (simp add: next_byte_def gz_simps bind_gz_def del: le_word.simps split: prod.split outcome.split)
  next
    case 3
    then show ?thesis by (simp add: NEEDBITS_done next_byte_def gz_simps del: le_word.simps)
  qed
qed

lemma DUMPBITS_bytes:
  "length p \<le> 7 \<Longrightarrow> DUMPBITS 8 (le_word (c # p)) (8 * length (c # p)) = (le_word p, 8 * length p)"
  "length p \<le> 6 \<Longrightarrow> DUMPBITS 16 (le_word (c # d # p)) (8 * length (c # d # p)) = (le_word p, 8 * length p)"
proof -
  show "length p \<le> 7 \<Longrightarrow> DUMPBITS 8 (le_word (c # p)) (8 * length (c # p)) = (le_word p, 8 * length p)"
    by (simp add: DUMPBITS_def drop_bit_le_word del: le_word.simps)
  assume p: "length p \<le> 6"
  have "drop_bit 16 (le_word (c # d # p) :: u64) = drop_bit 8 (drop_bit 8 (le_word (c # d # p)))"
    by (simp add: drop_bit_drop_bit del: le_word.simps)
  with p show "DUMPBITS 16 (le_word (c # d # p)) (8 * length (c # d # p)) = (le_word p, 8 * length p)"
    by (simp add: DUMPBITS_def drop_bit_le_word del: le_word.simps)
qed

lemma next_byte_length:
  "next_byte env p s = (Ret (c, p'), s') \<Longrightarrow> length p' \<le> length p"
  by (auto simp: next_byte_def gz_simps bind_gz_def split: list.splits prod.splits outcome.splits)

lemma bind_gz_assoc: "bind_gz (\<lambda>s. bind_gz m f s) g s = bind_gz m (\<lambda>x. bind_gz (f x) g) s"
  by (auto simp: bind_gz_def split: prod.splits outcome.splits)

lemma stored_loop_bytes:
  "length p \<le> 7 \<Longrightarrow> stored_loop n env (le_word p) (8 * length p) w s =
     bind_gz (copy_stored n env p w) (\<lambda>(p, w). ret_gz (le_word p, 8 * length p, w)) s"
proof (induction n arbitrary: p w s)
  case 0
  then show ?case by (simp add: bind_gz_def ret_gz_def)
next
  case (Suc n)
  show ?case
  proof (cases "next_byte env p s")
    case (Pair r t)
    show ?thesis
    proof (cases r)
      case (Ret x)
      obtain c p' where x: "x = (c, p')" by (cases x)
      have p': "length p' \<le> 7" using next_byte_length [of env p s c p' t] Pair Ret x Suc.prems by simp
      have "NEEDBITS env 8 (le_word p) (8 * length p) s = (Ret (le_word (c # p'), 8 * length (c # p')), t)"
        using Pair Ret x by (simp add: NEEDBITS_bytes_8 [OF Suc.prems] bind_gz_def gz_simps del: le_word.simps)
      then have "stored_loop (Suc n) env (le_word p) (8 * length p) w s =
          bind_gz (put_slide env c w) (\<lambda>w. stored_loop n env (le_word p') (8 * length p') w) t"
        using DUMPBITS_bytes(1) [OF p', of c]
        by (simp add: bind_gz_Ret ucast_le_word Let_def del: le_word.simps list.size)
      also have "\<dots> = bind_gz (put_slide env c w) (\<lambda>w. bind_gz (copy_stored n env p' w)
                        (\<lambda>(p, w). ret_gz (le_word p, 8 * length p, w))) t"
        using Suc.IH [OF p'] by (auto simp: bind_gz_def split: prod.split outcome.split)
      finally show ?thesis
        using Pair Ret x by (simp add: bind_gz_def split: prod.split outcome.split)
    qed (use Pair in \<open>simp_all add: bind_gz_def NEEDBITS_bytes_8 [OF Suc.prems] del: le_word.simps\<close>)
  qed
qed

lemma le_word_whole_bytes:
  assumes "clean b k"
  shows "le_word (whole_bytes b k) = drop_bit (k mod 8) b"
proof (rule bit_word_eqI)
  fix i
  assume "i < LENGTH(64)"
  then have i: "i < 64" by simp
  have e: "k mod 8 + 8 * (i div 8) + i mod 8 = k mod 8 + i" by simp
  show "bit (le_word (whole_bytes b k) :: u64) i = bit (drop_bit (k mod 8) b) i"
  proof (cases "i div 8 < k div 8")
    case True
    then show ?thesis
      using i e by (auto simp: bit_le_word whole_bytes_def bit_simps add_ac)
  next
    case False
    then have "8 * (k div 8) \<le> i" by (metis div_mod_8_less not_le)
    then have "k \<le> k mod 8 + i" using mult_div_mod_eq [of 8 k] by linarith
    with assms False show ?thesis by (simp add: bit_le_word whole_bytes_def bit_drop_bit_eq clean_bit)
  qed
qed

lemma stored_length_fields:
  assumes "length p \<le> 6"
  shows "unat ((le_word (lo # hi # p) :: u64) AND 0xffff) = unat lo + 256 * unat hi"
    and "unat (NOT (le_word (lo # hi # p) :: u64) AND 0xffff) = unat (NOT lo) + 256 * unat (NOT hi)"
proof -
  have m: "(0xffff :: u64) = mask 16" by (simp add: mask_eq_exp_minus_1)
  have d: "n div 8 = 0 \<or> n div 8 = 1" if "n < 16" for n :: nat using that by linarith
  have two: "unat (le_word [x, y] :: u64) = unat x + 256 * unat y" for x y :: u8
  proof -
    have "unat x < 256" "unat y < 256" using unsigned_less [of x] unsigned_less [of y] by simp_all
    then show ?thesis
      by (simp add: unat_word_ariths unat_ucast_up)
  qed
  have "le_word (lo # hi # p) AND mask 16 = (le_word [lo, hi] :: u64)"
    by (rule bit_word_eqI) (auto simp: bit_simps bit_le_word nth_Cons' simp del: le_word.simps dest!: d)
  then show "unat ((le_word (lo # hi # p) :: u64) AND 0xffff) = unat lo + 256 * unat hi"
    by (simp only: m two)
  have "NOT (le_word (lo # hi # p)) AND mask 16 = (le_word [NOT lo, NOT hi] :: u64)"
    by (rule bit_word_eqI) (auto simp: bit_simps bit_le_word nth_Cons' simp del: le_word.simps dest!: d)
  then show "unat (NOT (le_word (lo # hi # p) :: u64) AND 0xffff) = unat (NOT lo) + 256 * unat (NOT hi)"
    by (simp only: m two)
qed

lemma two_bytes:
  assumes "length p \<le> 6"
    and F: "\<And>c d p t. length p \<le> 6 \<Longrightarrow> F (le_word (c # d # p), 8 * length (c # d # p)) t = G c d p t"
  shows "bind_gz (NEEDBITS env 16 (le_word p) (8 * length p)) F s =
     bind_gz (next_byte env p) (\<lambda>(c, p). bind_gz (next_byte env p) (\<lambda>(d, p). G c d p)) s"
proof -
  have "F (le_word (c # d # p2), 8 * length (c # d # p2)) u = G c d p2 u"
    if "next_byte env p s = (Ret (c, p1), t)" and "next_byte env p1 t = (Ret (d, p2), u)" for c p1 t d p2 u
    using next_byte_length [OF that(1)] next_byte_length [OF that(2)] assms(1) by (intro F) simp
  then show ?thesis
    by (auto simp: bind_gz_def NEEDBITS_bytes_16 [OF assms(1)] gz_simps
        simp del: le_word.simps list.size split: prod.split outcome.split)
qed

lemma byte_pair_neq:
  fixes a b c d :: u8
  shows "unat a + 256 * unat b \<noteq> unat c + 256 * unat d \<longleftrightarrow> a \<noteq> c \<or> b \<noteq> d"
proof -
  have "x = x' \<and> y = y'" if "x < 256" "x' < 256" "x + 256 * y = x' + 256 * y'" for x y x' y' :: nat
  proof -
    have "y = y'" using that arg_cong [OF that(3), of "\<lambda>n. n div 256"] by simp
    with that show ?thesis by simp
  qed
  moreover have "unat x < 256" for x :: u8 using unsigned_less [of x] by simp
  ultimately show ?thesis by (metis word_unat_eq_iff)
qed

lemma inflate_stored_eq:
  assumes "clean (bb s) (bk s)" and "bk s \<le> 48"
  shows "inflate_stored env s = stored_block env (whole_bytes (bb s) (bk s)) s"
proof -
  define p where "p = whole_bytes (bb s) (bk s)"
  have p: "length p \<le> 6" "8 * length p = bk s - bk s mod 8"
    using assms(2) by (simp_all add: p_def whole_bytes_def minus_mod_eq_mult_div)
  have D: "DUMPBITS (bk s mod 8) (bb s) (bk s) = (le_word p, 8 * length p)"
    unfolding p(2) using le_word_whole_bytes [OF assms(1)] by (simp add: p_def DUMPBITS_def)
  have eq: "unat lo + 256 * unat hi \<noteq> unat (NOT nlo) + 256 * unat (NOT nhi) \<longleftrightarrow> lo \<noteq> NOT nlo \<or> hi \<noteq> NOT nhi"
    for lo hi nlo nhi :: u8
    by (rule byte_pair_neq)
  let ?F2 = "\<lambda>n (b, k). if n \<noteq> unat (NOT b AND 0xffff) then ret_gz 1
      else let (b, k) = DUMPBITS 16 b k
           in bind_gz (stored_loop n env b k (outcnt s)) (\<lambda>(b, k, w). bind_gz (restore_globals b k w) (\<lambda>_. ret_gz 0))"
  let ?F1 = "\<lambda>(b, k). let n = unat (b AND 0xffff); (b, k) = DUMPBITS 16 b k in bind_gz (NEEDBITS env 16 b k) (?F2 n)"
  let ?copy = "\<lambda>lo hi nlo nhi p. if lo \<noteq> NOT nlo \<or> hi \<noteq> NOT nhi then ret_gz 1
      else bind_gz (copy_stored (unat lo + 256 * unat hi) env p (outcnt s)) (\<lambda>(p, w).
             bind_gz (restore_globals (le_word p) (8 * length p) w) (\<lambda>_. ret_gz 0))"
  let ?rest = "\<lambda>lo hi p. bind_gz (next_byte env p) (\<lambda>(nlo, p). bind_gz (next_byte env p) (\<lambda>(nhi, p). ?copy lo hi nlo nhi p))"
  have F2: "?F2 (unat lo + 256 * unat hi) (le_word (nlo # nhi # p), 8 * length (nlo # nhi # p)) t = ?copy lo hi nlo nhi p t"
    if "length p \<le> 6" for lo hi nlo nhi p t
  proof -
    have "?F2 (unat lo + 256 * unat hi) (le_word (nlo # nhi # p), 8 * length (nlo # nhi # p)) t =
       (if lo \<noteq> NOT nlo \<or> hi \<noteq> NOT nhi then ret_gz 1 else
        bind_gz (stored_loop (unat lo + 256 * unat hi) env (le_word p) (8 * length p) (outcnt s))
           (\<lambda>(b, k, w). bind_gz (restore_globals b k w) (\<lambda>_. ret_gz 0))) t"
      by (simp only: DUMPBITS_bytes(2) [OF that] prod.case stored_length_fields(2) [OF that] eq Let_def)
    also have "\<dots> = ?copy lo hi nlo nhi p t"
      using that by (simp add: bind_gz_def stored_loop_bytes ret_gz_def split: prod.split outcome.split)
    finally show ?thesis .
  qed
  have F1: "?F1 (le_word (lo # hi # p), 8 * length (lo # hi # p)) t = ?rest lo hi p t"
    if "length p \<le> 6" for lo hi p t
  proof -
    have "?F1 (le_word (lo # hi # p), 8 * length (lo # hi # p)) t
        = bind_gz (NEEDBITS env 16 (le_word p) (8 * length p)) (?F2 (unat lo + 256 * unat hi)) t"
      by (simp only: DUMPBITS_bytes(2) [OF that] prod.case stored_length_fields(1) [OF that] Let_def)
    also have "\<dots> = ?rest lo hi p t"
      by (rule two_bytes [OF that, where G = "?copy lo hi"]) (rule F2)
    finally show ?thesis .
  qed
  have "bind_gz (NEEDBITS env 16 (le_word p) (8 * length p)) ?F1 s =
      bind_gz (next_byte env p) (\<lambda>(lo, p). bind_gz (next_byte env p) (\<lambda>(hi, p). ?rest lo hi p)) s"
    by (rule two_bytes [OF p(1), where G = ?rest]) (rule F1)
  then show ?thesis
    by (simp only: inflate_stored_def stored_block_def D Let_def prod.case p_def [symmetric])
qed

text \<open>
  A stored block is read byte by byte: after skipping to a byte boundary, \<open>inflate_stored\<close> does
  exactly what the byte-level reading does (length, complemented length, that many bytes copied to the
  window), for every input, including errors and flushes, whatever whole bytes the bit buffer already
  holds.
\<close>

theorem inflate_stored_bytes:
  assumes "clean (bb s) (bk s)" and "bk s \<le> 48"
  shows "inflate_stored env s = stored_block env (whole_bytes (bb s) (bk s)) s"
  using assms by (rule inflate_stored_eq)

theorem inflate_stored_bytes_witness:
  "inflate_stored example_env (example_gz\<lparr>bb := 5, bk := 3, inbuf := [2, 0, 0xfd, 0xff, 65, 66], insize := 6,
       window := [0, 0, 0, 0]\<rparr>)
   = (Ret 0, example_gz\<lparr>bb := 0, bk := 0, inbuf := [2, 0, 0xfd, 0xff, 65, 66], insize := 6, inptr := 6,
       window := [65, 66, 0, 0], outcnt := 2\<rparr>)"
proof -
  let ?s = "example_gz\<lparr>bb := 5, bk := 3, inbuf := [2, 0, 0xfd, 0xff, 65, 66], insize := 6, window := [0, 0, 0, 0]\<rparr>"
  have "clean (bb ?s) (bk ?s)" by (simp add: clean_def take_bit_eq_mask mask_eq_exp_minus_1)
  then have "inflate_stored example_env ?s = stored_block example_env (whole_bytes (bb ?s) (bk ?s)) ?s"
    by (rule inflate_stored_bytes) simp
  moreover have two: "copy_stored 2 env p w = copy_stored (Suc (Suc 0)) env p w" for env p w
    by (simp add: numeral_2_eq_2)
  moreover have "stored_block example_env (whole_bytes (bb ?s) (bk ?s)) ?s = (Ret 0, example_gz\<lparr>bb := 0, bk := 0, inbuf := [2, 0, 0xfd, 0xff, 65, 66], insize := 6, inptr := 6,
       window := [65, 66, 0, 0], outcnt := 2\<rparr>)"
    by (simp add: stored_block_def whole_bytes_def next_byte_def bind_gz_def gz_simps get_byte_def example_gz_def
        put_slide_def wrap_window_def WSIZE_def restore_globals_def two)
  ultimately show ?thesis by simp
qed


subsection \<open>Copying inside the window\<close>

text \<open>Reference: one byte at a time through the circular window.\<close>

primrec copy_bytewise :: "nat \<Rightarrow> 'fs gz_env \<Rightarrow> nat \<Rightarrow> nat \<Rightarrow> ('fs, nat) gzm" where
  "copy_bytewise 0 env w d = ret_gz w"
| "copy_bytewise (Suc n) env w d =
     (\<lambda>s. bind_gz (put_slide env (window s ! (d mod WSIZE)) w) (\<lambda>w'. copy_bytewise n env w' (d + 1)) s)"

lemma flush_loop_window: "window (snd (flush_loop s)) = window s"
  using flush_frame_fields(1) [OF flush_loop_frame] .

lemma flush_window_window: "window (snd (flush_window env s)) = window s"
  by (auto simp: flush_window_def flush_loop_window Let_def unzip_error_def
      split: prod.split elf_verdict.split)

lemma wrap_window_window: "window (snd (wrap_window env w s)) = window s"
  using flush_window_window [of env "s\<lparr>outcnt := w\<rparr>"]
  by (auto simp: wrap_window_def bind_gz_def ret_gz_def flush_output_def split: prod.split outcome.split)

lemma wrap_window_Ret:
  assumes "wrap_window env w s = (Ret w', s')" and "w \<le> WSIZE"
  shows "window s' = window s" and "w' < WSIZE" and "w' = w mod WSIZE"
  using assms wrap_window_window [of env w s]
  by (auto simp: wrap_window_def bind_gz_def ret_gz_def WSIZE_def split: if_splits prod.splits outcome.splits)

lemma wrap_window_small: "w < WSIZE \<Longrightarrow> wrap_window env w s = (Ret w, s)"
  by (simp add: wrap_window_def ret_gz_def)

lemma length_window_slow [simp]: "length (window_slow e win w d) = length win"
  by (induction e arbitrary: win w d) auto

lemma copy_bytewise_mod:
  "d mod WSIZE = d' mod WSIZE \<Longrightarrow> copy_bytewise n env w d = copy_bytewise n env w d'"
proof (induction n arbitrary: w d d')
  case (Suc n)
  have "(d + 1) mod WSIZE = (d' + 1) mod WSIZE" using Suc.prems by (metis mod_add_left_eq)
  then have "copy_bytewise n env w' (d + 1) = copy_bytewise n env w' (d' + 1)" for w' by (rule Suc.IH)
  with Suc.prems show ?case by (simp only: copy_bytewise.simps)
qed simp

lemma copy_bytewise_chunk:
  assumes "w < WSIZE" and "w + e \<le> WSIZE" and "d + e \<le> WSIZE" and "length (window s) = WSIZE"
  shows "copy_bytewise (e + m) env w d s =
     bind_gz (wrap_window env (w + e)) (\<lambda>w'. copy_bytewise m env w' (d + e))
       (s\<lparr>window := window_slow e (window s) w d\<rparr>)"
  using assms
proof (induction e arbitrary: w d s)
  case 0
  then show ?case by (simp add: wrap_window_small bind_gz_def)
next
  case (Suc e)
  let ?s = "s\<lparr>window := (window s)[w := window s ! d]\<rparr>"
  have put: "copy_bytewise (Suc e + m) env w d s =
      bind_gz (wrap_window env (w + 1)) (\<lambda>w'. copy_bytewise (e + m) env w' (d + 1)) ?s"
    using Suc.prems by (simp add: put_slide_def bind_gz_def)
  show ?case
  proof (cases "e = 0")
    case True
    with put show ?thesis by simp
  next
    case False
    with put Suc.prems have "copy_bytewise (Suc e + m) env w d s = copy_bytewise (e + m) env (w + 1) (d + 1) ?s"
      by (simp add: wrap_window_small bind_gz_def)
    with Suc.IH [of "w + 1" "d + 1" ?s] Suc.prems False show ?thesis by simp
  qed
qed

lemma window_slow_memcpy:
  "w < d \<or> d + e \<le> w \<Longrightarrow> w + e \<le> length win \<Longrightarrow> d + e \<le> length win \<Longrightarrow>
     window_slow e win w d = window_memcpy win w d e"
proof (induction e arbitrary: win w d)
  case 0
  then show ?case by (simp add: window_memcpy_def)
next
  case (Suc e)
  let ?win = "win[w := win ! d]"
  have "window_slow (Suc e) win w d = window_memcpy ?win (w + 1) (d + 1) e"
    using Suc.prems by (simp only: window_slow.simps, intro Suc.IH) auto
  also have "\<dots> = take w win @ [win ! d] @ slice (d + 1) e win @ drop (w + Suc e) win"
  proof -
    have "take (w + 1) ?win = take w win @ [win ! d]"
      using Suc.prems by (simp add: take_Suc_conv_app_nth)
    moreover have "slice (d + 1) e ?win = slice (d + 1) e win"
      using Suc.prems by (auto intro!: nth_equalityI simp: slice_def nth_list_update)
    ultimately show ?thesis by (simp add: window_memcpy_def)
  qed
  also have "\<dots> = take w win @ slice d (Suc e) win @ drop (w + Suc e) win"
    using Suc.prems by (simp add: slice_def Cons_nth_drop_Suc [symmetric])
  finally show ?case by (simp add: window_memcpy_def)
qed

lemma window_copy_slow:
  assumes "w + e \<le> length win" and "d + e \<le> length win"
  shows "window_copy win w d e = window_slow e win w d"
proof -
  have "w < d \<or> d + e \<le> w" if "w < d \<or> w - d \<ge> e" using that by linarith
  with window_slow_memcpy [of w d e win] assms show ?thesis by (auto simp: window_copy_def)
qed

lemma copy_loop_bytewise:
  assumes "w < WSIZE" and "length (window s) = WSIZE"
  shows "copy_loop env n w d s = copy_bytewise n env w d s"
  using assms
proof (induction n arbitrary: w d s rule: less_induct)
  case (less n)
  define d' where "d' = d mod WSIZE"
  define e where "e = (if WSIZE - (if d' > w then d' else w) > n then n else WSIZE - (if d' > w then d' else w))"
  have d': "d' < WSIZE" by (simp add: d'_def WSIZE_def)
  have bounds: "w + e \<le> WSIZE" "d' + e \<le> WSIZE" "e \<le> n" using less.prems(1) d' by (auto simp: e_def)
  have pos: "n - e < n" if "n - e \<noteq> 0" using that less.prems(1) d' by (auto simp: e_def)
  have cond: "(w < WSIZE \<and> WSIZE \<le> length (window s)) = True" using less.prems by simp
  let ?s = "s\<lparr>window := window_slow e (window s) w d'\<rparr>"
  have win: "window_copy (window s) w d' e = window_slow e (window s) w d'"
    using bounds less.prems(2) by (intro window_copy_slow) simp_all
  have "copy_loop env n w d s = bind_gz (wrap_window env (w + e)) (\<lambda>w'.
      if n - e \<noteq> 0 then copy_loop env (n - e) w' (d' + e) else ret_gz w') ?s"
    by (subst copy_loop.simps) (simp only: cond if_True Let_def d'_def [symmetric] e_def [symmetric] win)
  also have "\<dots> = bind_gz (wrap_window env (w + e)) (\<lambda>w'. copy_bytewise (n - e) env w' (d' + e)) ?s"
  proof (rule bind_gz_cong [OF refl])
    fix w' t
    assume "wrap_window env (w + e) ?s = (Ret w', t)"
    from wrap_window_Ret [OF this bounds(1)] have "w' < WSIZE" "length (window t) = WSIZE"
      using less.prems(2) by simp_all
    then show "(if n - e \<noteq> 0 then copy_loop env (n - e) w' (d' + e) else ret_gz w') t
        = copy_bytewise (n - e) env w' (d' + e) t"
      using less.IH [of "n - e" w' t "d' + e"] pos by (auto simp: ret_gz_def)
  qed
  also have "\<dots> = copy_bytewise (e + (n - e)) env w d' s"
    using copy_bytewise_chunk [OF less.prems(1) bounds(1,2) less.prems(2), of "n - e" env] by simp
  also have "\<dots> = copy_bytewise n env w d s"
    using bounds(3) copy_bytewise_mod [of d' d n env w] by (simp add: d'_def)
  finally show ?case .
qed

subsection \<open>The window as the tail of the output\<close>

text \<open>
  The LZ77 view: a literal appends a byte, a match appends \<open>n\<close> bytes each of which repeats the byte
  \<open>dist\<close> positions before it.
\<close>

primrec lz_copy :: "nat \<Rightarrow> nat \<Rightarrow> bytes \<Rightarrow> bytes" where
  "lz_copy 0 dist out = out"
| "lz_copy (Suc n) dist out = lz_copy n dist (out @ [out ! (length out - dist)])"

text \<open>The circular window holds the last \<open>WSIZE\<close> bytes of the output and \<open>w\<close> is the next position.\<close>

definition slides :: "bytes \<Rightarrow> nat \<Rightarrow> bytes \<Rightarrow> bool" where
  "slides out w win \<longleftrightarrow>
     w = length out mod WSIZE \<and> length win = WSIZE
     \<and> (\<forall>j < length out. length out \<le> j + WSIZE \<longrightarrow> win ! (j mod WSIZE) = out ! j)"

lemma WSIZE_pos [simp]: "0 < WSIZE"
  by (simp add: WSIZE_def)

lemma slides_nth:
  "slides out w win \<Longrightarrow> 0 < dist \<Longrightarrow> dist \<le> WSIZE \<Longrightarrow> dist \<le> length out \<Longrightarrow>
     win ! ((length out - dist) mod WSIZE) = out ! (length out - dist)"
  unfolding slides_def by auto

lemma mod_WSIZE_neq:
  assumes "j < n" and "n < j + WSIZE"
  shows "j mod WSIZE \<noteq> n mod WSIZE"
proof
  assume "j mod WSIZE = n mod WSIZE"
  with assms(1) have "WSIZE dvd n - j" by (metis less_imp_le mod_eq_dvd_iff_nat)
  moreover have "0 < n - j" "n - j < WSIZE" using assms by auto
  ultimately show False using nat_dvd_not_less by blast
qed

lemma put_slide_slides:
  assumes "slides out w (window s)" and "put_slide env c w s = (Ret w', s')"
  shows "slides (out @ [c]) w' (window s')"
proof -
  let ?win = "(window s)[w := c]"
  have w: "w = length out mod WSIZE" "length (window s) = WSIZE" "w < WSIZE"
    using assms(1) by (auto simp: slides_def)
  then have "wrap_window env (w + 1) (s\<lparr>window := ?win\<rparr>) = (Ret w', s')"
    using assms(2) by (simp add: put_slide_def)
  from wrap_window_Ret [OF this] w have s': "window s' = ?win" "w' = (w + 1) mod WSIZE" by auto
  have "?win ! (j mod WSIZE) = (out @ [c]) ! j" if "j < length out + 1" "length out + 1 \<le> j + WSIZE" for j
  proof (cases "j = length out")
    case True
    with w show ?thesis by simp
  next
    case False
    with that have "j mod WSIZE \<noteq> w" using mod_WSIZE_neq [of j "length out"] w by auto
    moreover have "window s ! (j mod WSIZE) = out ! j" using assms(1) that False by (simp add: slides_def)
    ultimately show ?thesis using that False by (simp add: nth_append)
  qed
  with s' w show ?thesis by (auto simp: slides_def mod_Suc_eq)
qed

lemma copy_bytewise_slides:
  assumes "slides out w (window s)" and "0 < dist" "dist \<le> WSIZE" "dist \<le> length out"
    and "d mod WSIZE = (length out - dist) mod WSIZE"
    and "copy_bytewise n env w d s = (Ret w', s')"
  shows "slides (lz_copy n dist out) w' (window s')"
  using assms
proof (induction n arbitrary: out w d s)
  case 0
  then show ?case by (simp add: ret_gz_def)
next
  case (Suc n)
  let ?c = "out ! (length out - dist)"
  have c: "window s ! (d mod WSIZE) = ?c"
    using slides_nth [OF Suc.prems(1-4)] Suc.prems(5) by simp
  with Suc.prems(6) obtain w1 t where put: "put_slide env ?c w s = (Ret w1, t)"
      and rest: "copy_bytewise n env w1 (d + 1) t = (Ret w', s')"
    by (auto simp: bind_gz_def split: prod.splits outcome.splits)
  have "(d + 1) mod WSIZE = (length (out @ [?c]) - dist) mod WSIZE"
    using Suc.prems(4,5) by (simp add: Suc_diff_le) (metis mod_Suc_eq)
  with Suc.IH [OF put_slide_slides [OF Suc.prems(1) put] Suc.prems(2,3) _ _ rest] Suc.prems(4)
  show ?case by simp
qed

lemma copy_source_mod:
  assumes "w < WSIZE" and "w mod WSIZE = n mod WSIZE" and "dist \<le> n" "dist \<le> WSIZE"
  shows "copy_source w dist mod WSIZE = (n - dist) mod WSIZE"
proof -
  have "int (copy_source w dist mod WSIZE) = ((int w - int dist) mod 2 ^ 32) mod int WSIZE"
    by (simp add: copy_source_def zmod_int)
  also have "\<dots> = (int w - int dist) mod int WSIZE"
    by (rule mod_mod_cancel) (simp add: WSIZE_def)
  also have "\<dots> = (int n - int dist) mod int WSIZE"
    using assms(2) by (metis mod_diff_left_eq zmod_int)
  also have "\<dots> = int ((n - dist) mod WSIZE)" using assms(3) by (simp add: zmod_int of_nat_diff)
  finally show ?thesis by simp
qed

text \<open>
  C4.  Copying a match through the 32K window is LZ77 copying on the whole output: if the window holds
  the tail of the output before, it holds the tail of the output extended by \<open>n\<close> bytes, each repeating
  the byte \<open>dist\<close> positions earlier, however the copy is split at the window's end, flushed, and done by
  \<open>memcpy\<close> or by the byte loop.
\<close>

theorem copy_loop_lz77:
  assumes "slides out w (window s)" and "0 < dist" "dist \<le> WSIZE" "dist \<le> length out"
    and "copy_loop env n w (copy_source w dist) s = (Ret w', s')"
  shows "slides (lz_copy n dist out) w' (window s')"
proof -
  have w: "w < WSIZE" "w = length out mod WSIZE" "length (window s) = WSIZE"
    using assms(1) by (auto simp: slides_def)
  have "copy_bytewise n env w (copy_source w dist) s = (Ret w', s')"
    using assms(5) w by (simp add: copy_loop_bytewise)
  moreover have "copy_source w dist mod WSIZE = (length out - dist) mod WSIZE"
    using w assms(3,4) by (intro copy_source_mod) simp_all
  ultimately show ?thesis using copy_bytewise_slides assms(1-4) by blast
qed

lemma slides_prefix: "length out < WSIZE \<Longrightarrow> length (out @ z) = WSIZE \<Longrightarrow> slides out (length out) (out @ z)"
  by (simp add: slides_def nth_append)

theorem copy_loop_lz77_witness:
  "\<exists>w' s'. copy_loop \<lparr>fuel = 1, mach = example_machine, bfs_blocksize = 1024, bfs_bread = (\<lambda>_ _ s. Some ((0, []), s))\<rparr>
       5 3 (copy_source 3 2) (example_gz\<lparr>window := [7, 8, 9] @ replicate (WSIZE - 3) 0\<rparr>) = (Ret w', s')
     \<and> slides [7, 8, 9, 8, 9, 8, 9, 8] w' (window s')"
proof -
  let ?env = "\<lparr>fuel = 1, mach = example_machine, bfs_blocksize = 1024, bfs_bread = (\<lambda>_ _ s. Some ((0, []), s))\<rparr>"
  let ?s = "example_gz\<lparr>window := [7, 8, 9] @ replicate (WSIZE - 3) 0\<rparr>"
  have "3 < WSIZE" by (simp add: WSIZE_def)
  then have sl: "slides [7, 8, 9] 3 (window ?s)"
    using slides_prefix [of "[7, 8, 9]" "replicate (WSIZE - 3) 0"] by (simp add: eval_nat_numeral)
  have run: "copy_loop ?env 5 3 (copy_source 3 2) ?s = (Ret 8, ?s\<lparr>window := window_copy (window ?s) 3 1 5\<rparr>)"
    by (subst copy_loop.simps) (simp add: copy_source_def WSIZE_def Let_def wrap_window_def gz_simps)
  moreover have "lz_copy 5 2 [7, 8, 9] = [7, 8, 9, 8, 9, 8, 9, 8]" by (simp add: eval_nat_numeral)
  moreover have "2 \<le> WSIZE" by (simp add: WSIZE_def)
  moreover from this have "slides (lz_copy 5 2 [7, 8, 9]) 8 (window (?s\<lparr>window := window_copy (window ?s) 3 1 5\<rparr>))"
    using copy_loop_lz77 [OF sl _ _ _ run] by simp
  ultimately show ?thesis using run by metis
qed

end
