(* ===== verification/Unzip.thy ===== *)
theory Unzip
  imports Inflate
begin

text \<open>
  The gzip container (\<^verbatim>\<open>src/zip/unzip.c\<close>, and \<open>get_method\<close> and \<open>uncompress_kernel\<close> of
  \<^verbatim>\<open>src/zip/misc.c\<close>): the header, the decompression, the trailer with checksum and length.

  What decompression preserves is stated once, in the locale \<open>gz_invariant\<close>: any property of the
  reader's state that survives reading input, allocating, writing into the window and flushing it
  survives the whole of \<open>inflate\<close>.  The interpretation at the end of the locale's use is the one that
  matters for loading: memory, checksum register and byte counter always describe one and the same
  image.
\<close>

subsection \<open>Header fields\<close>

definition SH :: "bytes \<Rightarrow> nat \<Rightarrow> u64" where
  "SH p i = ucast (p ! i) OR push_bit 8 (ucast (p ! (i + 1)))"

definition LG :: "bytes \<Rightarrow> nat \<Rightarrow> u64" where
  "LG p i = SH p i OR push_bit 16 (SH p (i + 2))"

definition LOCSIG :: u64 where "LOCSIG = 0x04034b50"
definition LOCCRC :: nat where "LOCCRC = 14"
definition LOCSIZ :: nat where "LOCSIZ = 18"
definition LOCLEN :: nat where "LOCLEN = 22"
definition EXTHDR :: nat where "EXTHDR = 16"

definition STORED :: int where "STORED = 0"
definition DEFLATED :: int where "DEFLATED = 8"

definition GZIP_MAGIC :: "u8 \<times> u8" where "GZIP_MAGIC = (0x1f, 0x8b)"
definition OLD_GZIP_MAGIC :: "u8 \<times> u8" where "OLD_GZIP_MAGIC = (0x1f, 0x9e)"

definition CONTINUATION :: u8 where "CONTINUATION = 0x02"
definition EXTRA_FIELD :: u8 where "EXTRA_FIELD = 0x04"
definition ORIG_NAME :: u8 where "ORIG_NAME = 0x08"
definition COMMENT :: u8 where "COMMENT = 0x10"
definition ENCRYPTED :: u8 where "ENCRYPTED = 0x20"
definition RESERVED :: u8 where "RESERVED = 0xC0"

subsection \<open>The gzip header\<close>

primrec skip_bytes :: "nat \<Rightarrow> 'fs gz_env \<Rightarrow> ('fs, unit) gzm" where
  "skip_bytes 0 env = ret_gz ()"
| "skip_bytes (Suc n) env = bind_gz (get_byte env) (\<lambda>_. skip_bytes n env)"

text \<open>\<open>while (get_byte() != 0)\<close>\<close>

primrec skip_string :: "nat \<Rightarrow> 'fs gz_env \<Rightarrow> ('fs, unit) gzm" where
  "skip_string 0 env = (\<lambda>s. (Timeout, s))"
| "skip_string (Suc f) env = bind_gz (get_byte env) (\<lambda>c. if c \<noteq> 0 then skip_string f env else ret_gz ())"

definition set_method :: "int \<Rightarrow> ('fs, unit) gzm" where
  "set_method m = modify_gz (\<lambda>s. s\<lparr>gz_method := m\<rparr>)"

definition skip_optional_fields :: "'fs gz_env \<Rightarrow> u8 \<Rightarrow> ('fs, unit) gzm" where
  "skip_optional_fields env flags =
     bind_gz (if flags AND EXTRA_FIELD \<noteq> 0
              then bind_gz (get_byte env) (\<lambda>lo. bind_gz (get_byte env) (\<lambda>hi.
                     skip_bytes (unat lo + 256 * unat hi) env))
              else ret_gz ()) (\<lambda>_.
     bind_gz (if flags AND ORIG_NAME \<noteq> 0 then skip_string (fuel env) env else ret_gz ()) (\<lambda>_.
       if flags AND COMMENT \<noteq> 0 then skip_string (fuel env) env else ret_gz ()))"

definition get_method :: "'fs gz_env \<Rightarrow> ('fs, int) gzm" where
  "get_method env =
     bind_gz (get_byte env) (\<lambda>m0. bind_gz (get_byte env) (\<lambda>m1.
     bind_gz (set_method (- 1)) (\<lambda>_.
       if (m0, m1) = GZIP_MAGIC \<or> (m0, m1) = OLD_GZIP_MAGIC then
         bind_gz (get_byte env) (\<lambda>c. bind_gz (set_method (uint c)) (\<lambda>_.
         bind_gz (get_byte env) (\<lambda>flags.
           if flags AND ENCRYPTED \<noteq> 0 then unzip_error ''input is encrypted''
           else if flags AND CONTINUATION \<noteq> 0 then unzip_error ''multi part input''
           else if flags AND RESERVED \<noteq> 0 then unzip_error ''input has invalid flags''
           else
             bind_gz (skip_bytes 6 env) (\<lambda>_.
             bind_gz (skip_optional_fields env flags) (\<lambda>_. gets_gz gz_method)))))
       else unzip_error ''unknown compression method'')))"

subsection \<open>Decompression and validation\<close>

definition put_char :: "'fs gz_env \<Rightarrow> u8 \<Rightarrow> ('fs, unit) gzm" where
  "put_char env c s =
     (if outcnt s < length (window s) then
        let s1 = s\<lparr>window := (window s)[outcnt s := c], outcnt := outcnt s + 1\<rparr>
        in if outcnt s1 = WSIZE then flush_window env s1 else (Ret (), s1)
      else (Crash, s))"

primrec stored_entry :: "nat \<Rightarrow> 'fs gz_env \<Rightarrow> ('fs, unit) gzm" where
  "stored_entry 0 env = ret_gz ()"
| "stored_entry (Suc n) env =
     bind_gz (get_byte env) (\<lambda>c. bind_gz (put_char env c) (\<lambda>_. stored_entry n env))"

primrec get_bytes :: "nat \<Rightarrow> 'fs gz_env \<Rightarrow> ('fs, bytes) gzm" where
  "get_bytes 0 env = ret_gz []"
| "get_bytes (Suc n) env =
     bind_gz (get_byte env) (\<lambda>c. bind_gz (get_bytes n env) (\<lambda>cs. ret_gz (c # cs)))"

definition init_crc :: "('fs, unit) gzm" where
  "init_crc = modify_gz (\<lambda>s. s\<lparr>crc := snd (updcrc None (crc s))\<rparr>)"

text \<open>The part of \<open>unzip\<close> that depends on the method.\<close>

definition decompress :: "'fs gz_env \<Rightarrow> ('fs, unit) gzm" where
  "decompress env s =
     (if gz_method s = DEFLATED then
        bind_gz (inflate env) (\<lambda>res.
          if res = 3 then unzip_error ''out of memory''
          else if res \<noteq> 0 then unzip_error ''invalid compressed format''
          else ret_gz ()) s
      else if pkzip s \<and> gz_method s = STORED then
        let n = LG (inbuf s) LOCLEN
        in if n \<noteq> LG (inbuf s) LOCSIZ then unzip_error ''length mismatch'' s
           else stored_entry (unat n) env s
      else unzip_error ''internal error, invalid method'' s)"

text \<open>
  Checksum and length of the trailer; for a pkzip file without extended header they are those of the
  local header, read before decompression.
\<close>

definition read_trailer :: "'fs gz_env \<Rightarrow> u64 \<times> u64 \<Rightarrow> ('fs, u64 \<times> u64) gzm" where
  "read_trailer env orig s =
     (if \<not> pkzip s then bind_gz (get_bytes 8 env) (\<lambda>buf. ret_gz (LG buf 0, LG buf 4)) s
      else if extended s then bind_gz (get_bytes EXTHDR env) (\<lambda>buf. ret_gz (LG buf 4, LG buf 12)) s
      else ret_gz orig s)"

definition validate :: "u64 \<times> u64 \<Rightarrow> ('fs, unit) gzm" where
  "validate orig s =
     (let (orig_crc, orig_len) = orig; (c, crc') = updcrc (Some []) (crc s); s = s\<lparr>crc := crc'\<rparr>
      in if orig_crc \<noteq> c then unzip_error ''crc error'' s
         else if orig_len \<noteq> bytes_out s then unzip_error ''length error'' s
         else if pkzip s \<and> inptr s + 4 < insize s \<and> LG (inbuf s) (inptr s) = LOCSIG
         then unzip_error ''zip file has more than one entry'' s
         else (Ret (), s\<lparr>extended := False, pkzip := False\<rparr>))"

definition unzip :: "'fs gz_env \<Rightarrow> ('fs, unit) gzm" where
  "unzip env =
     bind_gz init_crc (\<lambda>_.
     bind_gz (gets_gz (\<lambda>s. if pkzip s \<and> \<not> extended s then (LG (inbuf s) LOCCRC, LG (inbuf s) LOCLEN) else (0, 0)))
       (\<lambda>orig.
     bind_gz (decompress env) (\<lambda>_.
     bind_gz (read_trailer env orig) validate)))"

text \<open>
  \<open>uncompress_kernel\<close>; \<open>raw_in\<close> and \<open>raw_win\<close> are what the freshly allocated buffers happen to contain.
\<close>

definition uncompress_kernel :: "'fs gz_env \<Rightarrow> bytes \<Rightarrow> bytes \<Rightarrow> ('fs, int) gzm" where
  "uncompress_kernel env raw_in raw_win =
     bind_gz (gz_malloc env INBUFSIZ) (\<lambda>_.
     bind_gz (gz_malloc env WSIZE) (\<lambda>_.
     bind_gz (modify_gz (\<lambda>s. clear_bufs (s\<lparr>inbuf := raw_in, window := raw_win\<rparr>))) (\<lambda>_.
     bind_gz (get_method env) (\<lambda>m.
     bind_gz (set_method m) (\<lambda>_.
     bind_gz (unzip env) (\<lambda>_. ret_gz 1))))))"

subsection \<open>Invariants of the reader\<close>

text \<open>When \<open>m\<close> returns, \<open>P\<close> still holds and the value satisfies \<open>R\<close>.\<close>

definition keeps :: "('s \<Rightarrow> bool) \<Rightarrow> ('s, 'a) prog \<Rightarrow> ('a \<Rightarrow> bool) \<Rightarrow> bool" where
  "keeps P m R \<longleftrightarrow> (\<forall>s x s'. P s \<longrightarrow> m s = (Ret x, s') \<longrightarrow> P s' \<and> R x)"

named_theorems keeps_rules \<open>invariance of the constructs of the outcome monad\<close>

lemma keepsI: "(\<And>s x s'. P s \<Longrightarrow> m s = (Ret x, s') \<Longrightarrow> P s' \<and> R x) \<Longrightarrow> keeps P m R"
  by (auto simp: keeps_def)

lemma keepsD: "keeps P m R \<Longrightarrow> P s \<Longrightarrow> m s = (Ret x, s') \<Longrightarrow> P s' \<and> R x"
  by (auto simp: keeps_def)

lemma keeps_bind:
  assumes "keeps P m R" and "\<And>x. R x \<Longrightarrow> keeps P (f x) R'"
  shows "keeps P (bind_gz m f) R'"
proof (rule keepsI)
  fix s y s'
  assume "P s" and "bind_gz m f s = (Ret y, s')"
  then obtain x t where x: "m s = (Ret x, t)" "f x t = (Ret y, s')" by (elim bind_gz_RetE)
  with keepsD [OF assms(1) \<open>P s\<close>] have "P t" "R x" by auto
  with assms(2) x(2) show "P s' \<and> R' y" by (blast dest: keepsD)
qed

lemma keeps_weaken: "keeps P m R \<Longrightarrow> (\<And>x. R x \<Longrightarrow> R' x) \<Longrightarrow> keeps P m R'"
  by (auto simp: keeps_def)

lemma keeps_stop [keeps_rules]:
  "keeps P (unzip_error e) R" "keeps P (\<lambda>s. (Crash, s)) R" "keeps P (\<lambda>s. (Timeout, s)) R"
  by (simp_all add: keeps_def unzip_error_def)

lemma keeps_ret [keeps_rules]: "R x \<Longrightarrow> keeps P (ret_gz x) R"
  by (simp add: keeps_def ret_gz_def)

lemma keeps_gets: "(\<And>s. P s \<Longrightarrow> R (f s)) \<Longrightarrow> keeps P (gets_gz f) R"
  by (simp add: keeps_def gets_gz_def)

lemma keeps_modify: "(\<And>s. P s \<Longrightarrow> P (f s)) \<Longrightarrow> R () \<Longrightarrow> keeps P (modify_gz f) R"
  by (auto simp: keeps_def modify_gz_def)

lemma keeps_cases [keeps_rules]:
  "(c \<Longrightarrow> keeps P m R) \<Longrightarrow> (\<not> c \<Longrightarrow> keeps P m' R) \<Longrightarrow> keeps P (if c then m else m') R"
  "(\<And>a b. p = (a, b) \<Longrightarrow> keeps P (f a b) R) \<Longrightarrow> keeps P (case p of (a, b) \<Rightarrow> f a b) R"
  "keeps P (g v) R \<Longrightarrow> keeps P (Let v g) R"
  "(x = None \<Longrightarrow> keeps P n R) \<Longrightarrow> (\<And>y. x = Some y \<Longrightarrow> keeps P (h y) R) \<Longrightarrow>
     keeps P (case x of None \<Rightarrow> n | Some y \<Rightarrow> h y) R"
  "(\<And>k. u = HN k \<Longrightarrow> keeps P (j k) R) \<Longrightarrow> (\<And>k. u = HT k \<Longrightarrow> keeps P (l k) R) \<Longrightarrow>
     (u = HX \<Longrightarrow> keeps P o' R) \<Longrightarrow> keeps P (case u of HN k \<Rightarrow> j k | HT k \<Rightarrow> l k | HX \<Rightarrow> o') R"
  by (simp_all split: prod.split option.split huft_v.split)

text \<open>The window position that the decoding loop returns is inside the window.\<close>

fun step_ok :: "nat + bool \<times> u64 \<times> nat \<times> nat \<Rightarrow> bool" where
  "step_ok (Inl e) = True"
| "step_ok (Inr (eob, b, k, w)) = (w \<le> WSIZE)"

fun loop_ok :: "nat + u64 \<times> nat \<times> nat \<Rightarrow> bool" where
  "loop_ok (Inl e) = True"
| "loop_ok (Inr (b, k, w)) = (w \<le> WSIZE)"

text \<open>An invariant of reading the input is an invariant of reading the gzip header.\<close>

locale gz_reader =
  fixes env :: "'fs gz_env" and P :: "'fs gz \<Rightarrow> bool"
  assumes input: "keeps P (get_byte env) (\<lambda>_. True)"
    and set_meth: "P s \<Longrightarrow> P (s\<lparr>gz_method := m\<rparr>)"
begin

lemma set_method_keeps: "keeps P (set_method m) (\<lambda>_. True)"
  unfolding set_method_def by (rule keeps_modify) (simp_all add: set_meth)

lemma skip_bytes_keeps: "keeps P (skip_bytes n env) (\<lambda>_. True)"
  by (induction n) (auto intro!: keeps_rules keeps_bind [OF input])

lemma skip_string_keeps: "keeps P (skip_string f env) (\<lambda>_. True)"
  by (induction f) (auto intro!: keeps_rules keeps_bind [OF input])

lemma get_bytes_keeps: "keeps P (get_bytes n env) (\<lambda>cs. length cs = n)"
  by (induction n) (auto intro!: keeps_rules keeps_bind [OF input] elim!: keeps_bind)

lemma skip_optional_fields_keeps: "keeps P (skip_optional_fields env flags) (\<lambda>_. True)"
  unfolding skip_optional_fields_def
  by (intro keeps_bind [where R = "\<lambda>_. True"] keeps_rules input skip_bytes_keeps skip_string_keeps TrueI)

lemma get_method_keeps: "keeps P (get_method env) (\<lambda>_. True)"
  unfolding get_method_def
  by (intro keeps_bind [where R = "\<lambda>_. True"] keeps_rules input set_method_keeps skip_bytes_keeps
      skip_optional_fields_keeps keeps_gets TrueI)

end

text \<open>An invariant of the remaining effects as well is an invariant of decompression.\<close>

locale gz_invariant = gz_reader +
  assumes window_size: "P s \<Longrightarrow> length (window s) = WSIZE"
    and outcnt_bound: "P s \<Longrightarrow> outcnt s \<le> WSIZE"
    and alloc: "P s \<Longrightarrow> P (s\<lparr>elf := (elf s)\<lparr>free_mem_ptr := p\<rparr>\<rparr>)"
    and store: "P s \<Longrightarrow> P (s\<lparr>hufts := h, tables := t\<rparr>)"
    and locals: "P s \<Longrightarrow> w \<le> WSIZE \<Longrightarrow> P (s\<lparr>outcnt := w, bb := b, bk := k\<rparr>)"
    and position: "P s \<Longrightarrow> P (s\<lparr>bk := k, inptr := i\<rparr>)"
    and slide: "P s \<Longrightarrow> length win = WSIZE \<Longrightarrow> P (s\<lparr>window := win\<rparr>)"
    and flush: "keeps P (flush_window env) (\<lambda>_. True)"
begin

lemma NEEDBITS_keeps [keeps_rules]: "keeps P (NEEDBITS env n b k) (\<lambda>_. True)"
proof (induction "n - k" arbitrary: b k rule: less_induct)
  case less
  have "NEEDBITS env n b k =
      (if k < n then bind_gz (get_byte env) (\<lambda>c. NEEDBITS env n (b OR push_bit k (ucast c)) (k + 8))
       else ret_gz (b, k))"
    by (rule ext) (subst NEEDBITS.simps, simp add: ret_gz_def)
  then show ?case
    by (auto intro!: keeps_rules keeps_bind [OF input] less)
qed

lemma field_keeps [keeps_rules]: "keeps P (field env n b k) (\<lambda>_. True)"
  unfolding field_def by (intro keeps_bind [OF NEEDBITS_keeps] keeps_rules TrueI)

lemma gz_malloc_keeps: "keeps P (gz_malloc env n) (\<lambda>_. True)"
  by (rule keepsI) (auto simp: gz_malloc_def Let_def unzip_error_def alloc split: option.splits)

lemma store_keeps: "keeps P (modify_gz (\<lambda>s. s\<lparr>hufts := h s, tables := t s\<rparr>)) (\<lambda>_. True)"
  by (rule keeps_modify) (simp_all add: store)

lemma set_entry_keeps: "keeps P (set_entry q j r) (\<lambda>_. True)"
proof (rule keepsI)
  fix s x s'
  assume "P s" and "set_entry q j r s = (Ret x, s')"
  then show "P s' \<and> True"
    using store [of s "(tables s)[q := (tables s ! q)[j := r]]" "hufts s"]
    by (auto simp: set_entry_def split: if_splits)
qed

lemma new_table_keeps: "keeps P (new_table env c g l k a m) (\<lambda>_. True)"
  unfolding new_table_def
  by (intro keeps_rules keeps_bind [OF gz_malloc_keeps] keeps_bind [OF keeps_gets [where R = "\<lambda>_. True"]]
      keeps_bind [OF store_keeps] keeps_bind [OF set_entry_keeps] TrueI)

lemma make_tables_keeps: "keeps P (make_tables env c g l k a m) (\<lambda>_. True)"
proof (induction "nat (int k - hb_w m)" arbitrary: m rule: less_induct)
  case less
  have eq: "make_tables env c g l k a m =
      (if l > 0 \<and> int k > hb_w m + int l then bind_gz (new_table env c g l k a m) (make_tables env c g l k a)
       else ret_gz m)"
    by (rule ext) (subst make_tables.simps, simp add: ret_gz_def)
  have "keeps P (bind_gz (new_table env c g l k a m) (make_tables env c g l k a)) (\<lambda>_. True)"
    if "l > 0" "int k > hb_w m + int l"
  proof (rule keepsI)
    fix s x s'
    assume "P s" and "bind_gz (new_table env c g l k a m) (make_tables env c g l k a) s = (Ret x, s')"
    then obtain m' t where m': "new_table env c g l k a m s = (Ret m', t)" "make_tables env c g l k a m' t = (Ret x, s')"
      by (elim bind_gz_RetE)
    have "P t" using keepsD [OF new_table_keeps \<open>P s\<close> m'(1)] by simp
    moreover have "keeps P (make_tables env c g l k a m') (\<lambda>_. True)"
      using that new_table_w [OF m'(1)] by (intro less) simp
    ultimately show "P s' \<and> True" using m'(2) by (blast dest: keepsD)
  qed
  then show ?case unfolding eq by (auto intro!: keeps_rules)
qed

lemma fill_keeps:
  "keeps P (\<lambda>st. if c st then (Ret (), st\<lparr>tables := f st\<rparr>) else (Crash, st)) (\<lambda>_. True)"
proof (rule keepsI)
  fix s x s'
  assume "P s" and "(if c s then (Ret (), s\<lparr>tables := f s\<rparr>) else (Crash, s)) = (Ret x, s')"
  then show "P s' \<and> True" using store [of s "f s" "hufts s"] by (auto split: if_splits)
qed

lemma one_code_keeps: "keeps P (one_code env c v n s d e g l k a m) (\<lambda>_. True)"
  unfolding one_code_def
  by (intro keeps_bind [OF make_tables_keeps] keeps_rules keeps_bind [OF fill_keeps] TrueI)

lemma codes_of_length_keeps: "keeps P (codes_of_length a env c v n s d e g l k m) (\<lambda>_. True)"
  by (induction a arbitrary: m) (auto intro!: keeps_rules keeps_bind [OF one_code_keeps])

lemma all_codes_keeps: "keeps P (all_codes r env c v n s d e g l k m) (\<lambda>_. True)"
  by (induction r arbitrary: k m) (auto intro!: keeps_rules keeps_bind [OF codes_of_length_keeps])

lemma huft_build_keeps: "keeps P (huft_build env b s d e m) (\<lambda>_. True)"
  unfolding huft_build_def by (intro keeps_rules keeps_bind [OF all_codes_keeps] TrueI)

lemma flush_output_keeps: "w \<le> WSIZE \<Longrightarrow> keeps P (flush_output env w) (\<lambda>_. True)"
proof (rule keepsI)
  fix s x s'
  assume "w \<le> WSIZE" and "P s" and "flush_output env w s = (Ret x, s')"
  moreover from this(1,2) have "P (s\<lparr>outcnt := w\<rparr>)" using locals [of s w "bk s" "bb s"] by simp
  ultimately show "P s' \<and> True" using keepsD [OF flush] by (auto simp: flush_output_def)
qed

lemma wrap_window_keeps: "w \<le> WSIZE \<Longrightarrow> keeps P (wrap_window env w) (\<lambda>w'. w' \<le> WSIZE)"
  unfolding wrap_window_def
  by (intro keeps_rules keeps_bind [OF flush_output_keeps]) simp_all

lemma put_slide_keeps: "keeps P (put_slide env c w) (\<lambda>w'. w' \<le> WSIZE)"
proof (rule keepsI)
  fix s w' s'
  assume s: "P s" and p: "put_slide env c w s = (Ret w', s')"
  then have "w + 1 \<le> WSIZE" "wrap_window env (w + 1) (s\<lparr>window := (window s)[w := c]\<rparr>) = (Ret w', s')"
    using window_size [OF s] by (auto simp: put_slide_def split: if_splits)
  moreover have "P (s\<lparr>window := (window s)[w := c]\<rparr>)" using slide [OF s] window_size [OF s] by simp
  ultimately show "P s' \<and> w' \<le> WSIZE" using keepsD [OF wrap_window_keeps] by blast
qed

lemma lookup_keeps: "keeps P (lookup t b n) (\<lambda>_. True)"
  by (rule keepsI) (auto simp: lookup_def split: option.splits if_splits)

lemma subtable_loop_keeps: "keeps P (subtable_loop f env t b k) (\<lambda>_. True)"
  by (induction f arbitrary: t b k)
    (auto intro!: keeps_rules keeps_bind [OF NEEDBITS_keeps] keeps_bind [OF lookup_keeps] simp: Let_def)

lemma decode_symbol_keeps: "keeps P (decode_symbol env tab bits b k) (\<lambda>_. True)"
  unfolding decode_symbol_def
  by (intro keeps_bind [OF NEEDBITS_keeps] keeps_rules keeps_bind [OF lookup_keeps] subtable_loop_keeps)

lemma extra_value_keeps: "keeps P (extra_value env t b k) (\<lambda>_. True)"
  unfolding extra_value_def by (intro keeps_rules keeps_bind [OF NEEDBITS_keeps] TrueI)

lemma copy_loop_keeps: "w \<le> WSIZE \<Longrightarrow> keeps P (copy_loop env n w d) (\<lambda>w'. w' \<le> WSIZE)"
proof (rule keepsI)
  have byte: "keeps P (copy_bytewise m env v q) (\<lambda>w'. w' \<le> WSIZE)" if "v \<le> WSIZE" for m v q
    using that
  proof (induction m arbitrary: v q)
    case (Suc m)
    show ?case
    proof (rule keepsI)
      fix s w' s'
      assume "P s" and "copy_bytewise (Suc m) env v q s = (Ret w', s')"
      moreover have "keeps P (bind_gz (put_slide env c v) (\<lambda>w'. copy_bytewise m env w' (q + 1))) (\<lambda>w'. w' \<le> WSIZE)" for c
        using Suc.IH by (intro keeps_bind [OF put_slide_keeps])
      ultimately show "P s' \<and> w' \<le> WSIZE" by (auto dest: keepsD)
    qed
  qed (auto intro: keeps_rules)
  fix s w' s'
  assume "w \<le> WSIZE" and s: "P s" and r: "copy_loop env n w d s = (Ret w', s')"
  then have "w < WSIZE" by (subst (asm) copy_loop.simps) (auto split: if_splits)
  then have "copy_bytewise n env w d s = (Ret w', s')"
    using r window_size [OF s] by (simp add: copy_loop_bytewise)
  with byte s \<open>w < WSIZE\<close> show "P s' \<and> w' \<le> WSIZE" by (metis keepsD less_imp_le)
qed

lemma codes_step_keeps:
  "w \<le> WSIZE \<Longrightarrow> keeps P (codes_step env t_l t_d bl bd b k w) step_ok"
  unfolding codes_step_def
  by (intro keeps_bind [OF decode_symbol_keeps] keeps_bind [OF put_slide_keeps] keeps_bind [OF extra_value_keeps]
      keeps_bind [OF copy_loop_keeps] keeps_rules) auto

lemma codes_loop_keeps:
  "w \<le> WSIZE \<Longrightarrow> keeps P (codes_loop f env t_l t_d bl bd b k w) loop_ok"
proof (induction f arbitrary: b k w)
  case (Suc f)
  then show ?case
    by (auto intro!: keeps_bind [OF codes_step_keeps] keeps_rules split: sum.splits)
qed (auto intro: keeps_rules)

lemma restore_globals_keeps: "w \<le> WSIZE \<Longrightarrow> keeps P (restore_globals b k w) (\<lambda>_. True)"
  unfolding restore_globals_def by (rule keeps_modify) (simp_all add: locals)

lemma inflate_codes_keeps: "keeps P (inflate_codes env t_l t_d bl bd) (\<lambda>_. True)"
proof (rule keepsI)
  fix s x s'
  assume s: "P s" and r: "inflate_codes env t_l t_d bl bd s = (Ret x, s')"
  have "keeps P (bind_gz (codes_loop (fuel env) env t_l t_d bl bd (bb s) (bk s) (outcnt s)) (\<lambda>r. case r of
       Inl e \<Rightarrow> ret_gz e | Inr (b, k, w) \<Rightarrow> bind_gz (restore_globals b k w) (\<lambda>_. ret_gz 0))) (\<lambda>_. True)"
    by (auto intro!: keeps_bind [OF codes_loop_keeps [OF outcnt_bound [OF s]]] keeps_rules
        keeps_bind [OF restore_globals_keeps] split: sum.splits)
  from keepsD [OF this s] r show "P s' \<and> True" unfolding inflate_codes_def by blast
qed

lemma stored_loop_keeps: "w \<le> WSIZE \<Longrightarrow> keeps P (stored_loop n env b k w) (\<lambda>(b, k, w'). w' \<le> WSIZE)"
  by (induction n arbitrary: b k w)
    (auto intro!: keeps_rules keeps_bind [OF NEEDBITS_keeps] keeps_bind [OF put_slide_keeps] simp: Let_def)

lemma inflate_stored_keeps: "keeps P (inflate_stored env) (\<lambda>_. True)"
proof (rule keepsI)
  fix s x s'
  assume s: "P s" and r: "inflate_stored env s = (Ret x, s')"
  note w = outcnt_bound [OF s]
  let ?F2 = "\<lambda>n (b, k). if n \<noteq> unat (NOT b AND 0xffff) then ret_gz 1
      else let (b, k) = DUMPBITS 16 b k
           in bind_gz (stored_loop n env b k (outcnt s)) (\<lambda>(b, k, w). bind_gz (restore_globals b k w) (\<lambda>_. ret_gz 0))"
  let ?F1 = "\<lambda>(b, k). let n = unat (b AND 0xffff); (b, k) = DUMPBITS 16 b k in bind_gz (NEEDBITS env 16 b k) (?F2 n)"
  have "keeps P (bind_gz (NEEDBITS env 16 b k) ?F1) (\<lambda>_. True)" for b k
    by (intro keeps_bind [OF NEEDBITS_keeps] keeps_rules keeps_bind [OF stored_loop_keeps [OF w]]
        keeps_bind [OF restore_globals_keeps] TrueI) auto
  from keepsD [OF this s] r show "P s' \<and> True"
    unfolding inflate_stored_def Let_def by (auto split: prod.splits)
qed

lemma inflate_fixed_keeps: "keeps P (inflate_fixed env) (\<lambda>_. True)"
  unfolding inflate_fixed_def
  by (intro keeps_bind [OF huft_build_keeps] keeps_bind [OF inflate_codes_keeps] keeps_rules TrueI)

lemma border_loop_keeps: "keeps P (border_loop env os nb ll b k) (\<lambda>_. True)"
  by (induction os arbitrary: nb ll b k) (auto intro!: keeps_rules keeps_bind [OF field_keeps])

lemma lengths_loop_keeps: "keeps P (lengths_loop env t_l bl n i l ll b k) (\<lambda>_. True)"
proof (induction "n - i" arbitrary: i l ll b k rule: less_induct)
  case less
  have eq: "lengths_loop env t_l bl n i l ll b k =
     (if i < n then
        bind_gz (NEEDBITS env bl b k) (\<lambda>(b, k).
        bind_gz (lookup t_l b bl) (\<lambda>t_d.
          let (b, k) = DUMPBITS (huft_b t_d) b k
          in case huft_v t_d of
               HN j \<Rightarrow>
                 if j < 16 then lengths_loop env t_l bl n (i + 1) j (ll[i := j]) b k
                 else
                   let (nbits, base, val) = (if j = 16 then (2, 3, l) else if j = 17 then (3, 3, 0) else (7, 11, 0))
                   in bind_gz (field env nbits b k) (\<lambda>(x, b, k).
                        if i + (base + x) > n then ret_gz None
                        else lengths_loop env t_l bl n (i + (base + x)) val
                               (fill_lengths (base + x) i val ll) b k)
             | _ \<Rightarrow> (\<lambda>s. (Crash, s))))
      else ret_gz (Some (ll, b, k)))"
    by (rule ext) (subst lengths_loop.simps, simp add: ret_gz_def)
  show ?case
    unfolding eq
    by (intro keeps_rules keeps_bind [OF NEEDBITS_keeps] keeps_bind [OF lookup_keeps] keeps_bind [OF field_keeps] TrueI less)
      (auto split: if_splits)
qed

lemma build_and_decode_keeps: "keeps P (build_and_decode env ll nl nd) (\<lambda>_. True)"
  unfolding build_and_decode_def
  by (intro keeps_bind [OF huft_build_keeps] keeps_bind [OF inflate_codes_keeps] keeps_rules TrueI)

lemma buffer_keeps: "keeps P (modify_gz (\<lambda>s. s\<lparr>bb := b, bk := k\<rparr>)) (\<lambda>_. True)"
proof (rule keeps_modify)
  fix s assume "P s"
  then show "P (s\<lparr>bb := b, bk := k\<rparr>)" using locals [of s "outcnt s" k b] outcnt_bound [of s] by simp
qed simp

lemma inflate_dynamic_keeps: "keeps P (inflate_dynamic env) (\<lambda>_. True)"
  unfolding inflate_dynamic_def
  by (intro keeps_bind [OF keeps_gets [where R = "\<lambda>_. True"]] keeps_bind [OF field_keeps]
      keeps_bind [OF border_loop_keeps] keeps_bind [OF huft_build_keeps] keeps_bind [OF lengths_loop_keeps]
      keeps_bind [OF buffer_keeps] build_and_decode_keeps keeps_rules TrueI)

lemma block_type_keeps:
  "keeps P (if t = 2 then inflate_dynamic env else if t = 0 then inflate_stored env
            else if t = (1::nat) then inflate_fixed env else ret_gz 2) (\<lambda>_. True)"
  by (intro keeps_rules inflate_dynamic_keeps inflate_stored_keeps inflate_fixed_keeps TrueI)

lemma inflate_block_keeps: "keeps P (inflate_block env) (\<lambda>_. True)"
  unfolding inflate_block_def
  by (intro keeps_bind [OF keeps_gets [where R = "\<lambda>_. True"]] keeps_bind [OF field_keeps]
      keeps_bind [OF buffer_keeps] keeps_bind [OF block_type_keeps] keeps_rules TrueI)

lemma block_loop_keeps: "keeps P (block_loop f env) (\<lambda>_. True)"
proof (induction f)
  case (Suc f)
  have "keeps P (modify_gz (\<lambda>s. s\<lparr>hufts := 0\<rparr>)) (\<lambda>_. True)"
    using store_keeps [of tables "\<lambda>_. 0"] by simp
  with Suc show ?case
    by (auto intro!: keeps_bind [OF inflate_block_keeps] keeps_rules elim!: keeps_bind)
qed (auto intro: keeps_rules)

lemma undo_lookahead_keeps: "P s \<Longrightarrow> P (undo_lookahead s)"
proof (induction s rule: undo_lookahead.induct)
  case (1 s)
  then show ?case by (subst undo_lookahead.simps) (auto simp: position)
qed

lemma inflate_keeps: "keeps P (inflate env) (\<lambda>_. True)"
proof -
  have "keeps P (modify_gz (\<lambda>s. s\<lparr>outcnt := 0, bk := 0, bb := 0\<rparr>)) (\<lambda>_. True)"
  proof (rule keeps_modify)
    fix s assume "P s"
    then have "P (s\<lparr>outcnt := 0, bb := 0, bk := 0\<rparr>)" by (rule locals) simp
    also have "s\<lparr>outcnt := 0, bb := 0, bk := 0\<rparr> = s\<lparr>outcnt := 0, bk := 0, bb := 0\<rparr>" by simp
    finally show "P (s\<lparr>outcnt := 0, bk := 0, bb := 0\<rparr>)" .
  qed simp
  then show ?thesis
    unfolding inflate_def
    by (rule keeps_bind)
      (intro keeps_bind [OF block_loop_keeps] keeps_rules keeps_bind [OF keeps_modify [where R = "\<lambda>_. True"]]
        undo_lookahead_keeps keeps_bind [OF keeps_gets [where R = "\<lambda>w. w \<le> WSIZE"]] outcnt_bound
        keeps_bind [OF flush_output_keeps] TrueI)
qed

end

subsection \<open>Memory, checksum and length describe one image\<close>

text \<open>
  The image produced so far: the checksum register and the byte counter are those of \<open>img\<close>, and when
  the kernel has a single segment that stays clear of arithmetic wrap-around, the bytes of \<open>img\<close> that
  belong to it are at its load address.
\<close>

definition one_segment :: "segment \<Rightarrow> 'fs gz \<Rightarrow> bool" where
  "one_segment c s \<longleftrightarrow> nchunks (elf s) = 1 \<and> chunks (elf s) = [c] \<and> segment_sane c"

definition produced :: "bytes \<Rightarrow> 'fs gz \<Rightarrow> bool" where
  "produced img s \<longleftrightarrow>
     crc s = updcrc_loop img 0xffffffff \<and> bytes_out s = of_nat (length img)
     \<and> (img = [] \<longrightarrow> chunk s = 0 \<and> file_offset s = 0)
     \<and> (\<forall>c. img \<noteq> [] \<longrightarrow> one_segment c s \<longrightarrow> length img < 2 ^ 62 \<longrightarrow> flushed c img (length img) s)"

definition consistent :: "'fs gz \<Rightarrow> bool" where
  "consistent s \<longleftrightarrow>
     length (window s) = WSIZE \<and> outcnt s \<le> WSIZE \<and> \<not> pkzip s \<and> (\<exists>img. produced img s)"

lemma get_byte_frame:
  assumes "get_byte env s = (Ret c, s')"
  shows "\<exists>d i j n f. s' = s\<lparr>inbuf := d, insize := i, inptr := j, block_number := n, fs_st := f\<rparr>"
proof -
  have "s' = s\<lparr>inbuf := inbuf s', insize := insize s', inptr := inptr s', block_number := block_number s', fs_st := fs_st s'\<rparr>"
    using assms by (auto simp: get_byte_def fill_inbuf_def Let_def unzip_error_def split: if_splits prod.splits option.splits)
  then show ?thesis by blast
qed

lemma consistent_update:
  "consistent s \<Longrightarrow> consistent (s\<lparr>inbuf := d, insize := i, inptr := j, block_number := n, fs_st := f\<rparr>)"
  "consistent s \<Longrightarrow> consistent (s\<lparr>gz_method := m\<rparr>)"
  "consistent s \<Longrightarrow> consistent (s\<lparr>elf := (elf s)\<lparr>free_mem_ptr := p\<rparr>\<rparr>)"
  "consistent s \<Longrightarrow> consistent (s\<lparr>hufts := h, tables := t\<rparr>)"
  "consistent s \<Longrightarrow> w \<le> WSIZE \<Longrightarrow> consistent (s\<lparr>outcnt := w, bb := b, bk := k\<rparr>)"
  "consistent s \<Longrightarrow> consistent (s\<lparr>bk := k, inptr := j\<rparr>)"
  "consistent s \<Longrightarrow> length win = WSIZE \<Longrightarrow> consistent (s\<lparr>window := win\<rparr>)"
  by (simp_all add: consistent_def produced_def one_segment_def flushed_def)

lemma flushed_append: "flushed c img (length img) s \<Longrightarrow> flushed c (img @ w) (length img) s"
  by (auto simp: flushed_def loaded_upto_def nth_append)

text \<open>One flush extends the image by the contents of the window.\<close>

lemma flush_loop_produced:
  assumes old: "\<And>c. one_segment c s2 \<Longrightarrow> length (img @ w) < 2 ^ 62 \<Longrightarrow> flushed c (img @ w) (length img) s2"
    and w: "w = take (outcnt s2) (window s2)" "w \<noteq> []" "outcnt s2 \<le> length (window s2)"
    and s2: "crc s2 = updcrc_loop (img @ w) 0xffffffff" "bytes_out s2 = of_nat (length (img @ w))"
    and run: "flush_loop s2 = (Ret u, s')"
  shows "produced (img @ w) s'"
proof -
  note fr = flush_frame_fields [OF flush_loop_frame [of s2], unfolded run snd_conv]
  have "flushed c (img @ w) (length (img @ w)) s'" if c: "one_segment c s'" "length (img @ w) < 2 ^ 62" for c
  proof -
    have c2: "one_segment c s2" using c(1) fr(4) by (simp add: one_segment_def)
    have len: "length w = outcnt s2" using w by simp
    obtain s'' where "flush_loop s2 = (Ret (), s'')" "flushed c (img @ w) (length img + outcnt s2) s''"
      using flush_loop_one_segment [OF old [OF c2 c(2)]] c2 w c(2) len
      by (auto simp: one_segment_def nth_append)
    with run len show ?thesis by simp
  qed
  then show ?thesis using fr s2 w(2) by (simp add: produced_def)
qed

lemma flush_window_consistent:
  assumes "consistent s" and run: "flush_window env s = (Ret u, s')"
  shows "consistent s'"
proof (cases "outcnt s = 0")
  case True
  with run assms(1) show ?thesis by (simp add: flush_window_def)
next
  case False
  define w where "w = take (outcnt s) (window s)"
  obtain img where img: "produced img s" and win: "length (window s) = WSIZE" "outcnt s \<le> WSIZE" "\<not> pkzip s"
    using assms(1) by (auto simp: consistent_def)
  have w: "w \<noteq> []" "length w = outcnt s" using False win by (auto simp: w_def WSIZE_def)
  define s1 where "s1 = s\<lparr>crc := updcrc_loop (img @ w) 0xffffffff, bytes_out := of_nat (length (img @ w))\<rparr>"
  have upd: "s\<lparr>crc := snd (updcrc (Some w) (crc s)), elf := g, bytes_out := bytes_out s + of_nat (outcnt s)\<rparr> = s1\<lparr>elf := g\<rparr>" for g
    using img w by (simp add: s1_def produced_def updcrc_def updcrc_loop_append Let_def)
  have fields: "take (outcnt s1) (window s1) = w" "outcnt s1 \<le> length (window s1)"
    using win by (simp_all add: s1_def w_def)
  have "\<exists>g. flush_loop (s1\<lparr>elf := g\<rparr>) = (Ret u, s')
      \<and> (\<forall>c. one_segment c (s1\<lparr>elf := g\<rparr>) \<longrightarrow> length (img @ w) < 2 ^ 62 \<longrightarrow> flushed c (img @ w) (length img) (s1\<lparr>elf := g\<rparr>))"
  proof (cases "bytes_out s = 0")
    case True
    with run False obtain g where "flush_loop (s\<lparr>crc := snd (updcrc (Some w) (crc s)), elf := g,
        bytes_out := bytes_out s + of_nat (outcnt s)\<rparr>) = (Ret u, s')"
      by (auto simp: flush_window_def w_def Let_def unzip_error_def split: prod.splits elf_verdict.splits)
    moreover have "flushed c (img @ w) (length img) (s1\<lparr>elf := g\<rparr>)"
      if "one_segment c (s1\<lparr>elf := g\<rparr>)" "length (img @ w) < 2 ^ 62" for c
    proof -
      have "unat (of_nat (length img) :: u64) = 0" using True img by (simp add: produced_def)
      with that(2) have "img = []" by (simp add: unat_of_nat)
      with img that(1) show ?thesis by (auto simp: flushed_def one_segment_def produced_def s1_def loaded_upto_def)
    qed
    ultimately show ?thesis unfolding upd by blast
  next
    case nz: False
    then have "img \<noteq> []" using img by (auto simp: produced_def)
    with img have "flushed c (img @ w) (length img) (s1\<lparr>elf := elf s\<rparr>)"
      if "one_segment c (s1\<lparr>elf := elf s\<rparr>)" "length (img @ w) < 2 ^ 62" for c
      using that flushed_append [of c img s w] by (auto simp: produced_def one_segment_def flushed_def s1_def)
    moreover have "flush_loop (s1\<lparr>elf := elf s\<rparr>) = (Ret u, s')"
      using run flush_window_next [OF False nz] upd [of "elf s"] by (simp add: w_def)
    ultimately show ?thesis by blast
  qed
  then obtain g where g: "flush_loop (s1\<lparr>elf := g\<rparr>) = (Ret u, s')"
      "\<And>c. one_segment c (s1\<lparr>elf := g\<rparr>) \<Longrightarrow> length (img @ w) < 2 ^ 62 \<Longrightarrow> flushed c (img @ w) (length img) (s1\<lparr>elf := g\<rparr>)"
    by blast
  have "produced (img @ w) s'"
    by (rule flush_loop_produced [OF g(2) _ w(1) _ _ _ g(1)]) (use fields in \<open>simp_all add: s1_def\<close>)
  moreover note fr = flush_frame_fields [OF flush_loop_frame [of "s1\<lparr>elf := g\<rparr>"], unfolded g(1) snd_conv]
  ultimately show ?thesis using win unfolding consistent_def by (auto simp: s1_def)
qed


lemma consistent_bounds: "consistent s \<Longrightarrow> length (window s) = WSIZE" "consistent s \<Longrightarrow> outcnt s \<le> WSIZE"
  by (simp_all add: consistent_def)

interpretation image: gz_invariant env consistent for env
proof
  show "keeps consistent (get_byte env) (\<lambda>_. True)"
    by (rule keepsI) (metis consistent_update(1) get_byte_frame)
  show "keeps consistent (flush_window env) (\<lambda>_. True)"
    by (rule keepsI) (simp add: flush_window_consistent)
qed (simp_all add: consistent_update consistent_bounds)

text \<open>Between \<open>clear_bufs\<close> and the reset of the checksum register nothing has been produced.\<close>

definition fresh :: "'fs gz \<Rightarrow> bool" where
  "fresh s \<longleftrightarrow> length (window s) = WSIZE \<and> outcnt s = 0 \<and> bytes_out s = 0 \<and> chunk s = 0
     \<and> file_offset s = 0 \<and> \<not> pkzip s"

interpretation start: gz_reader env fresh for env
proof
  show "keeps fresh (get_byte env) (\<lambda>_. True)"
  proof (rule keepsI)
    fix s c s'
    assume "fresh s" and "get_byte env s = (Ret c, s')"
    moreover from this(2) obtain d i j n f where "s' = s\<lparr>inbuf := d, insize := i, inptr := j, block_number := n, fs_st := f\<rparr>"
      using get_byte_frame by blast
    ultimately show "fresh s' \<and> True" by (simp add: fresh_def)
  qed
qed (simp add: fresh_def)

lemma get_bytes_reads: "get_bytes n env s = (Ret cs, s') \<Longrightarrow> reads env cs s s'"
  by (induction n arbitrary: s cs) (auto simp: gz_simps elim!: bind_gz_RetE)

lemma decompress_consistent:
  assumes "consistent s" and "decompress env s = (Ret u, s')"
  shows "consistent s'"
proof -
  have "\<not> pkzip s" using assms(1) by (simp add: consistent_def)
  with assms(2) obtain r where "inflate env s = (Ret r, s')"
    by (auto simp: decompress_def unzip_error_def ret_gz_def elim!: bind_gz_RetE split: if_splits)
  with keepsD [OF image.inflate_keeps assms(1)] show ?thesis by blast
qed

lemma crc_value: "fst (updcrc (Some []) (updcrc_loop img 0xffffffff)) = ucast (crc32_ref img)"
  using crc32_pieces [of 0 "[img]"] by (simp add: updcrc_def Let_def)

lemma unzip_success:
  assumes "fresh s" and "unzip env s = (Ret u, s')"
  shows "\<exists>img trailer t t'. reads env trailer t t' \<and> length trailer = 8
    \<and> ucast (crc32_ref img) = LG trailer 0 \<and> of_nat (length img) = LG trailer 4
    \<and> produced img t' \<and> s' = t'\<lparr>extended := False, pkzip := False\<rparr>"
proof -
  define orig :: "u64 \<times> u64" where "orig = (0, 0)"
  have "bind_gz (decompress env) (\<lambda>_. bind_gz (read_trailer env orig) validate)
      (s\<lparr>crc := snd (updcrc None (crc s))\<rparr>) = (Ret u, s')"
    using assms by (simp add: unzip_def init_crc_def gz_simps orig_def fresh_def)
  then obtain v t where d: "decompress env (s\<lparr>crc := snd (updcrc None (crc s))\<rparr>) = (Ret v, t)"
      and "bind_gz (read_trailer env orig) validate t = (Ret u, s')"
    by (rule bind_gz_RetE)
  from this(2) obtain trailer_vals t' where
      tr: "read_trailer env orig t = (Ret trailer_vals, t')"
    and va: "validate trailer_vals t' = (Ret u, s')"
    by (rule bind_gz_RetE)
  have "produced [] (s\<lparr>crc := snd (updcrc None (crc s))\<rparr>)"
    using assms(1) by (simp add: produced_def fresh_def updcrc_def)
  then have "consistent (s\<lparr>crc := snd (updcrc None (crc s))\<rparr>)"
    using assms(1) by (auto simp: consistent_def fresh_def)
  from decompress_consistent [OF this d] have c: "consistent t" .
  then have "\<not> pkzip t" by (simp add: consistent_def)
  with tr obtain buf where buf: "get_bytes 8 env t = (Ret buf, t')" "trailer_vals = (LG buf 0, LG buf 4)"
    by (auto simp: read_trailer_def gz_simps elim!: bind_gz_RetE)
  have c': "consistent t'" "length buf = 8" using keepsD [OF image.get_bytes_keeps c buf(1)] by auto
  then obtain img where img: "produced img t'" by (auto simp: consistent_def)
  have "LG buf 0 = fst (updcrc (Some []) (crc t')) \<and> LG buf 4 = bytes_out t'
      \<and> s' = t'\<lparr>extended := False, pkzip := False\<rparr>"
    using va c'(1) unfolding buf(2) validate_def
    by (auto simp: Let_def unzip_error_def consistent_def updcrc_def split: if_splits)
  with img crc_value [of img] c'(2) get_bytes_reads [OF buf(1)] show ?thesis
    by (intro exI [of _ img] exI [of _ buf] exI [of _ t] exI [of _ t']) (auto simp: produced_def)
qed



text \<open>An example: the example kernel and four bytes of its segment in a stored block.\<close>

definition le32 :: "u32 \<Rightarrow> bytes" where
  "le32 x = [ucast x, ucast (drop_bit 8 x), ucast (drop_bit 16 x), ucast (drop_bit 24 x)]"

definition example_image :: bytes where
  "example_image = example_elf @ [1, 2, 3, 4]"

definition example_gzip :: bytes where
  "example_gzip =
     [0x1f, 0x8b, 8, 0, 0, 0, 0, 0, 0, 3, 0x01, 124, 0, 0x83, 0xff]
     @ example_image @ le32 (crc32_ref example_image) @ le32 124"

definition gzip_env :: "unit gz_env" where
  "gzip_env = \<lparr>fuel = 2, mach = example_machine, bfs_blocksize = 1024, bfs_bread = (\<lambda>_ _ s. Some ((147, example_gzip), s))\<rparr>"

lemma le32_length [simp]: "length (le32 x) = 4"
  by (simp add: le32_def)

lemma LG_le32:
  assumes "i + 4 \<le> length p" and "slice i 4 p = le32 x"
  shows "LG p i = ucast x"
proof -
  have nth: "p ! (i + j) = le32 x ! j" if "j < 4" for j
    using that assms nth_slice [of j 4 i p] by simp
  have "p ! i = ucast x" "p ! (i + 1) = ucast (drop_bit 8 x)" "p ! (i + 2) = ucast (drop_bit 16 x)"
    "p ! (i + 3) = ucast (drop_bit 24 x)"
    using nth [of 0] nth [of 1] nth [of 2] nth [of 3] by (simp_all add: le32_def)
  then have LG: "LG p i = (ucast (ucast x :: u8) OR push_bit 8 (ucast (ucast (drop_bit 8 x) :: u8)))
      OR push_bit 16 (ucast (ucast (drop_bit 16 x) :: u8) OR push_bit 8 (ucast (ucast (drop_bit 24 x) :: u8)))"
    by (simp add: LG_def SH_def numeral_3_eq_3)
  show ?thesis
  proof (rule bit_word_eqI)
    fix n
    assume "n < LENGTH(64)"
    then have n: "n < 64" by simp
    consider "n < 8" | "8 \<le> n" "n < 16" | "16 \<le> n" "n < 24" | "24 \<le> n" "n < 32" | "32 \<le> n" by linarith
    then show "bit (LG p i) n = bit (ucast x :: u64) n"
      by cases (use n in \<open>auto simp: LG bit_simps dest: bit_imp_le_length\<close>)
  qed
qed

lemma get_byte_direct:
  "inptr s < insize s \<Longrightarrow> get_byte env s = (Ret (inbuf s ! inptr s), s\<lparr>inptr := inptr s + 1\<rparr>)"
  by (simp add: get_byte_def)

lemma get_bytes_direct:
  "inptr s + n \<le> insize s \<Longrightarrow> insize s \<le> length (inbuf s) \<Longrightarrow>
     get_bytes n env s = (Ret (slice (inptr s) n (inbuf s)), s\<lparr>inptr := inptr s + n\<rparr>)"
proof (induction n arbitrary: s)
  case 0
  then show ?case by (simp add: ret_gz_def)
next
  case (Suc n)
  have "slice (inptr s) (Suc n) (inbuf s) = inbuf s ! inptr s # slice (inptr s + 1) n (inbuf s)"
    using Suc.prems by (simp add: slice_def Cons_nth_drop_Suc [symmetric])
  with Suc.IH [of "s\<lparr>inptr := inptr s + 1\<rparr>"] Suc.prems show ?case
    by (simp add: bind_gz_Ret get_byte_direct ret_gz_def)
qed

lemma copy_stored_direct:
  "inptr s + n \<le> insize s \<Longrightarrow> insize s \<le> length (inbuf s) \<Longrightarrow> w + n < WSIZE \<Longrightarrow> length (window s) = WSIZE \<Longrightarrow>
     copy_stored n env [] w s =
       (Ret ([], w + n), s\<lparr>inptr := inptr s + n,
          window := take w (window s) @ slice (inptr s) n (inbuf s) @ drop (w + n) (window s)\<rparr>)"
proof (induction n arbitrary: w s)
  case 0
  then show ?case by (simp add: ret_gz_def)
next
  case (Suc n)
  let ?c = "inbuf s ! inptr s"
  let ?s = "s\<lparr>inptr := inptr s + 1, window := (window s)[w := ?c]\<rparr>"
  have split: "slice (inptr s) (Suc n) (inbuf s) = ?c # slice (inptr s + 1) n (inbuf s)"
    using Suc.prems by (simp add: slice_def Cons_nth_drop_Suc [symmetric])
  have "copy_stored (Suc n) env [] w s = copy_stored n env [] (w + 1) ?s"
    using Suc.prems by (simp add: next_byte_def bind_gz_def get_byte_direct ret_gz_def put_slide_def wrap_window_small)
  also have "\<dots> = (Ret ([], w + Suc n), ?s\<lparr>inptr := inptr s + Suc n,
      window := take (w + 1) (window ?s) @ slice (inptr s + 1) n (inbuf s) @ drop (w + Suc n) (window ?s)\<rparr>)"
    using Suc.prems by (subst Suc.IH) simp_all
  finally show ?case using Suc.prems split by (simp add: take_Suc_conv_app_nth)
qed


lemma example_gzip_length: "length example_gzip = 147" "length example_image = 124"
  by (simp_all add: example_gzip_def example_image_def example_length le32_def)

lemma example_gzip_slices:
  "slice 15 124 example_gzip = example_image"
  "slice 139 8 example_gzip = le32 (crc32_ref example_image) @ le32 124"
proof -
  define hdr :: bytes where "hdr = [0x1f, 0x8b, 8, 0, 0, 0, 0, 0, 0, 3, 0x01, 124, 0, 0x83, 0xff]"
  have g: "example_gzip = hdr @ example_image @ le32 (crc32_ref example_image) @ le32 124" and h: "length hdr = 15"
    by (simp_all add: example_gzip_def hdr_def)
  show "slice 15 124 example_gzip = example_image"
    unfolding g by (simp add: slice_def h example_gzip_length)
  show "slice 139 8 example_gzip = le32 (crc32_ref example_image) @ le32 124"
    unfolding g by (simp add: slice_def h example_gzip_length le32_def)
qed

definition example_globals2 :: elf_globals where
  "example_globals2 = example_globals\<lparr>free_mem_ptr := 0xfffffc00021d8000\<rparr>"

definition gzip_start :: "bytes \<Rightarrow> bytes \<Rightarrow> unit gz" where
  "gzip_start raw_in raw_win = clear_bufs (example_gz\<lparr>elf := example_globals2, inbuf := raw_in, window := raw_win\<rparr>)"

lemma example_mallocs:
  "gz_malloc gzip_env INBUFSIZ example_gz = (Ret (), example_gz\<lparr>elf := example_globals\<lparr>free_mem_ptr := 0xfffffc00021e0000\<rparr>\<rparr>)"
  "gz_malloc gzip_env WSIZE (example_gz\<lparr>elf := example_globals\<lparr>free_mem_ptr := 0xfffffc00021e0000\<rparr>\<rparr>)
     = (Ret (), example_gz\<lparr>elf := example_globals2\<rparr>)"
  by (simp_all add: gz_malloc_def gzip_env_def example_machine_def example_gz_def example_globals_def
      example_globals2_def malloc_def malloc_ptr_def memory_end_def page_offset_def PAGE_SHIFT_def INBUFSIZ_def WSIZE_def Let_def)

definition gzip_body :: "bytes \<Rightarrow> bytes \<Rightarrow> unit gz" where
  "gzip_body raw_in raw_win = (gzip_start raw_in raw_win)\<lparr>inbuf := example_gzip @ drop 147 raw_in, insize := 131072,
     inptr := 10, block_number := - 1, gz_method := 8\<rparr>"

lemma example_header: "get_method gzip_env (gzip_start raw_in raw_win) = (Ret 8, gzip_body raw_in raw_win)"
proof -
  have six: "skip_bytes 6 env = skip_bytes (Suc (Suc (Suc (Suc (Suc (Suc 0)))))) env" for env
    by (simp add: eval_nat_numeral)
  show ?thesis
    by (simp add: get_method_def bind_gz_def gz_simps get_byte_def fill_inbuf_def gzip_env_def gzip_start_def gzip_body_def
        clear_bufs_def example_gz_def INBUFSIZ_def example_gzip_length set_method_def GZIP_MAGIC_def six
        ENCRYPTED_def CONTINUATION_def RESERVED_def skip_optional_fields_def EXTRA_FIELD_def ORIG_NAME_def COMMENT_def)
      (simp add: example_gzip_def)
qed

lemma example_loadable:
  assumes "holds_example b"
  shows "\<exists>g. is_loadable_elf example_machine b 124 example_globals2 = (Loadable, g)
           \<and> chunks g = [example_segment] \<and> nchunks g = 1"
proof -
  obtain ptr where "elf_malloc example_machine b example_globals2 = Some ptr"
    by (simp add: elf_malloc_def example_machine_def example_globals2_def example_globals_def
        example_fields [OF assms] malloc_def malloc_ptr_def)
  with assms show ?thesis
    by (intro example_loadable_if) (simp_all add: example_globals2_def example_globals_def)
qed

lemma example_stored:
  assumes raw: "length raw_in = INBUFSIZ" "length raw_win = WSIZE"
    and s: "s = (gzip_body raw_in raw_win)\<lparr>crc := c, hufts := 0, outcnt := 0, bk := 5, bb := 0, inptr := 11\<rparr>"
  shows "inflate_stored gzip_env s =
    (Ret 0, s\<lparr>bk := 0, inptr := 139, window := example_image @ drop 124 raw_win, outcnt := 124\<rparr>)"
proof -
  have nth: "inbuf s ! 11 = 124" "inbuf s ! 12 = 0" "inbuf s ! 13 = 0x83" "inbuf s ! 14 = 0xff"
    by (simp_all add: s gzip_body_def example_gzip_def)
  have f: "inptr s = 11" "insize s = 131072" "window s = raw_win" "length (inbuf s) = 131072" "bb s = 0" "bk s = 5" "outcnt s = 0"
    using raw by (simp_all add: s gzip_body_def gzip_start_def clear_bufs_def example_gzip_length INBUFSIZ_def)
  have sl: "slice 15 124 (inbuf s) = example_image"
  proof -
    have "inbuf s = example_gzip @ drop 147 raw_in" by (simp add: s gzip_body_def)
    then have "slice 15 124 (inbuf s) = slice 15 124 example_gzip"
      by (simp add: slice_def example_gzip_length)
    then show ?thesis by (simp add: example_gzip_slices)
  qed
  have "inflate_stored gzip_env s = stored_block gzip_env [] s"
    using inflate_stored_eq [of s gzip_env] f by (simp add: clean_def whole_bytes_def)
  also have "\<dots> = bind_gz (copy_stored 124 gzip_env [] 0) (\<lambda>(p, w).
         bind_gz (restore_globals (le_word p) (8 * length p) w) (\<lambda>_. ret_gz 0)) (s\<lparr>inptr := 15\<rparr>)"
    using f nth by (simp add: stored_block_def next_byte_def bind_gz_def get_byte_direct gz_simps)
  also have "\<dots> = (Ret 0, s\<lparr>bk := 0, inptr := 139, window := example_image @ drop 124 raw_win, outcnt := 124\<rparr>)"
    using copy_stored_direct [of "s\<lparr>inptr := 15\<rparr>" 124 0 gzip_env] f sl raw
    by (simp add: bind_gz_Ret restore_globals_def gz_simps WSIZE_def s)
  finally show ?thesis .
qed

lemma example_flush:
  assumes "length raw_win = WSIZE"
    and s: "s = (gzip_body raw_in raw_win)\<lparr>crc := 0xffffffff, hufts := 0, bk := 0, bb := 0, inptr := 139,
              window := example_image @ drop 124 raw_win, outcnt := 124\<rparr>"
  shows "\<exists>s'. flush_window gzip_env s = (Ret (), s') \<and> flush_frame (s\<lparr>crc := updcrc_loop example_image 0xffffffff, elf := elf s', bytes_out := 124\<rparr>) s'"
proof -
  have win: "take 124 (window s) = example_image" "length (window s) = WSIZE"
    using assms(1) by (simp_all add: s example_gzip_length WSIZE_def)
  have "window_mem s i = example_elf ! i" if "i < 120" for i
    using that by (simp add: window_mem_def s example_image_def nth_append example_length)
  then have "holds_example (window_mem s)"
    unfolding holds_example_def by (intro nth_equalityI) (simp_all add: example_length)
  from example_loadable [OF this] obtain g where
    g: "is_loadable_elf example_machine (window_mem s) 124 example_globals2 = (Loadable, g)"
      "chunks g = [example_segment]" "nchunks g = 1" by blast
  define s1 where "s1 = s\<lparr>crc := updcrc_loop example_image 0xffffffff, elf := g, bytes_out := 124\<rparr>"
  have f: "outcnt s = 124" "bytes_out s = 0" "elf s = example_globals2" "crc s = 0xffffffff" "chunk s = 0" "file_offset s = 0"
    by (simp_all add: s gzip_body_def gzip_start_def clear_bufs_def)
  have fw: "flush_window gzip_env s = flush_loop s1"
    using flush_window_first [of s gzip_env g] f g(1) win(1)
    by (simp add: gzip_env_def s1_def updcrc_def Let_def)
  have "flushed example_segment example_image 0 s1"
    using g(2,3) f by (simp add: flushed_def s1_def loaded_upto_def)
  moreover have "\<forall>i < outcnt s1. window s1 ! i = example_image ! (0 + i)"
    using f nth_take [of _ 124 "window s"] win(1) by (simp add: s1_def)
  ultimately obtain s' where "flush_loop s1 = (Ret (), s')" "elf s' = elf s1"
    using flush_loop_one_segment [of example_segment example_image 0 s1] f win
    by (auto simp: segment_sane_def example_segment_def s1_def WSIZE_def example_gzip_length)
  moreover from this have "flush_frame s1 s'" using flush_loop_frame [of s1] by simp
  ultimately show ?thesis using fw by (auto simp: s1_def)
qed

lemma example_inflate:
  assumes raw: "length raw_in = INBUFSIZ" "length raw_win = WSIZE"
  shows "\<exists>s'. inflate gzip_env ((gzip_body raw_in raw_win)\<lparr>crc := 0xffffffff\<rparr>) = (Ret 0, s')
           \<and> inptr s' = 139 \<and> insize s' = 131072 \<and> inbuf s' = example_gzip @ drop 147 raw_in
           \<and> crc s' = updcrc_loop example_image 0xffffffff \<and> bytes_out s' = 124 \<and> \<not> pkzip s'"
proof -
  let ?body = "(gzip_body raw_in raw_win)\<lparr>crc := 0xffffffff\<rparr>"
  let ?s0 = "?body\<lparr>outcnt := 0, bk := 0, bb := 0, hufts := 0\<rparr>"
  let ?s1 = "(gzip_body raw_in raw_win)\<lparr>crc := 0xffffffff, outcnt := 0, hufts := 0, inptr := 11, bb := 0, bk := 5\<rparr>"
  let ?s2 = "?s1\<lparr>bk := 0, inptr := 139, window := example_image @ drop 124 raw_win, outcnt := 124\<rparr>"
  have byte: "get_byte gzip_env (?s0) = (Ret 1, ?s0\<lparr>inptr := 11\<rparr>)"
    by (simp add: get_byte_def gzip_body_def example_gzip_def)
  have "inflate_block gzip_env ?s0 = (Ret (0, True), ?s2)"
    using byte example_stored [OF raw, of ?s1 "0xffffffff"]
    by (simp add: inflate_block_def gz_simps field_def bind_gz_def NEEDBITS_more NEEDBITS_done DUMPBITS_def
        mask_eq_exp_minus_1 drop_bit_eq_div)
  then have "block_loop 2 gzip_env (?body\<lparr>outcnt := 0, bk := 0, bb := 0\<rparr>) = (Ret 0, ?s2)"
    by (simp add: numeral_2_eq_2 gz_simps bind_gz_def)
  moreover have "undo_lookahead ?s2 = ?s2" by (subst undo_lookahead.simps) simp
  ultimately have inf: "inflate gzip_env ?body = bind_gz (flush_output gzip_env 124) (\<lambda>_. ret_gz 0) ?s2"
    by (simp add: inflate_def gz_simps bind_gz_Ret gzip_env_def)
  obtain s' where fl: "flush_window gzip_env ?s2 = (Ret (), s')"
      and fr: "flush_frame (?s2\<lparr>crc := updcrc_loop example_image 0xffffffff, elf := elf s', bytes_out := 124\<rparr>) s'"
    using example_flush [OF raw(2), of ?s2 raw_in] by auto
  from fr obtain e m f n k where "s' = ?s2\<lparr>crc := updcrc_loop example_image 0xffffffff, elf := e, bytes_out := 124,
      memory := m, file_offset := f, outcnt := n, chunk := k\<rparr>"
    unfolding flush_frame_def by blast
  with inf fl show ?thesis
    by (intro exI [of _ s']) (auto simp: bind_gz_def flush_output_def ret_gz_def gzip_body_def gzip_start_def clear_bufs_def example_gz_def)
qed

lemma example_unzip:
  assumes raw: "length raw_in = INBUFSIZ" "length raw_win = WSIZE"
  shows "\<exists>s'. uncompress_kernel gzip_env raw_in raw_win example_gz = (Ret 1, s')"
proof -
  let ?b = "gzip_body raw_in raw_win" and ?sum = "crc32_ref example_image"
  obtain t where t: "inflate gzip_env (?b\<lparr>crc := 0xffffffff\<rparr>) = (Ret 0, t)" "inptr t = 139" "insize t = 131072"
      "inbuf t = example_gzip @ drop 147 raw_in" "crc t = updcrc_loop example_image 0xffffffff"
      "bytes_out t = 124" "\<not> pkzip t"
    using example_inflate [OF raw] by blast
  have "slice 139 8 (inbuf t) = le32 ?sum @ le32 124"
    using t(4) example_gzip_slices(2) by (simp add: slice_def example_gzip_length)
  then have tr: "get_bytes 8 gzip_env t = (Ret (le32 ?sum @ le32 124), t\<lparr>inptr := 147\<rparr>)"
    using get_bytes_direct [of t 8 gzip_env] t(2-4) raw by (simp add: example_gzip_length INBUFSIZ_def)
  have LG: "LG (le32 ?sum @ le32 124) 0 = ucast ?sum" "LG (le32 ?sum @ le32 124) 4 = 124"
    using LG_le32 [of 0 "le32 ?sum @ le32 124" ?sum] LG_le32 [of 4 "le32 ?sum @ le32 124" 124]
    by (simp_all add: slice_def le32_def)
  have "validate (ucast ?sum, 124) (t\<lparr>inptr := 147\<rparr>) = (Ret (), (t\<lparr>inptr := 147\<rparr>)\<lparr>extended := False, pkzip := False\<rparr>)"
    using t(5-7) crc_value [of example_image] by (simp add: validate_def Let_def updcrc_def)
  moreover have "decompress gzip_env (?b\<lparr>crc := 0xffffffff\<rparr>) = (Ret (), t)"
    using t(1) by (simp add: decompress_def gzip_body_def DEFLATED_def bind_gz_Ret ret_gz_def)
  moreover have "\<not> pkzip ?b" "gz_method ?b = 8"
    by (simp_all add: gzip_body_def gzip_start_def clear_bufs_def example_gz_def)
  ultimately have "\<exists>s'. unzip gzip_env ?b = (Ret (), s')"
    using tr t(7) by (simp add: unzip_def init_crc_def gz_simps updcrc_def Let_def bind_gz_Ret read_trailer_def LG)
  moreover have "?b\<lparr>gz_method := 8\<rparr> = ?b" by (simp add: gzip_body_def)
  ultimately show ?thesis
    using example_mallocs example_header [of raw_in raw_win]
    by (auto simp: uncompress_kernel_def gzip_start_def [symmetric] bind_gz_Ret gz_simps set_method_def)
qed

end
