(* ===== verification/Ext2.thy ===== *)
theory Ext2
  imports Console CString
begin

text \<open>
  The ext2/ext4 reader (\<^verbatim>\<open>src/fs/ext2.c\<close>): mounting, the inode table, the block map with its
  one-block caches, reading of block ranges, directories, path lookup and symbolic links.

  On-disk structures stay byte strings; a field is the little-endian word at its offset.  The console
  read routine is the argument \<open>rd\<close> of every operation that reads, as a function from count and
  offset; the properties instantiate it with \<open>cons_read\<close>.  The globals of the file are the record
  \<open>ext2_state\<close>, with the static variables of \<open>ext2_readdiri\<close>.  A pointer into the inode table is the
  index of its slot, \<^const>\<open>None\<close> is \<open>NULL\<close>.

  Operations whose loops depend on disk contents that can make them run on, or read outside their
  buffers, return an option: \<^const>\<open>None\<close> means that the code has no defined result there.
  Allocation of the buffers is not modelled: each buffer is a list of its own.
\<close>

type_synonym reader = "int \<Rightarrow> nat \<Rightarrow> int \<times> bytes"

text \<open>Offsets are computed in signed 64-bit arithmetic; a negative one is outside every device.\<close>

definition read_at :: "reader \<Rightarrow> int \<Rightarrow> int \<Rightarrow> int \<times> bytes" where
  "read_at rd count offset = (if offset < 0 then (- 1, []) else rd count (nat offset))"

subsection \<open>On-disk structures\<close>

definition le16_at :: "bytes \<Rightarrow> nat \<Rightarrow> u16" where
  "le16_at bs a = le_word (slice a 2 bs)"

definition le32_at :: "bytes \<Rightarrow> nat \<Rightarrow> u32" where
  "le32_at bs a = le_word (slice a 4 bs)"

definition sizeof_sb :: nat where "sizeof_sb = 1024"
definition sizeof_group_desc :: nat where "sizeof_group_desc = 32"
definition sizeof_inode :: nat where "sizeof_inode = 128"

definition s_blocks_count :: "bytes \<Rightarrow> u32" where "s_blocks_count b = le32_at b 4"
definition s_first_data_block :: "bytes \<Rightarrow> u32" where "s_first_data_block b = le32_at b 20"
definition s_log_block_size :: "bytes \<Rightarrow> u32" where "s_log_block_size b = le32_at b 24"
definition s_blocks_per_group :: "bytes \<Rightarrow> u32" where "s_blocks_per_group b = le32_at b 32"
definition s_inodes_per_group :: "bytes \<Rightarrow> u32" where "s_inodes_per_group b = le32_at b 40"
definition s_magic :: "bytes \<Rightarrow> u16" where "s_magic b = le16_at b 56"
definition s_rev_level :: "bytes \<Rightarrow> u32" where "s_rev_level b = le32_at b 76"
definition s_inode_size :: "bytes \<Rightarrow> u16" where "s_inode_size b = le16_at b 88"

definition EXT2_SUPER_MAGIC :: u16 where "EXT2_SUPER_MAGIC = 0xEF53"
definition EXT2_MIN_BLOCK_SIZE :: int where "EXT2_MIN_BLOCK_SIZE = 1024"
definition EXT2_NDIR_BLOCKS :: int where "EXT2_NDIR_BLOCKS = 12"
definition EXT2_IND_BLOCK :: nat where "EXT2_IND_BLOCK = 12"
definition EXT2_DIND_BLOCK :: nat where "EXT2_DIND_BLOCK = 13"
definition EXT2_ROOT_INO :: int where "EXT2_ROOT_INO = 2"
definition EXT4_EXTENTS_FL :: u32 where "EXT4_EXTENTS_FL = 0x00080000"
definition EXT4_EXT_MAGIC :: u16 where "EXT4_EXT_MAGIC = 0xf30a"
definition MAX_OPEN_FILES :: nat where "MAX_OPEN_FILES = 5"

definition block_size_of :: "bytes \<Rightarrow> int" where
  "block_size_of b = uint (push_bit (unat (s_log_block_size b)) (1024 :: u32))"

definition inode_size_of :: "bytes \<Rightarrow> int" where
  "inode_size_of b = (if s_rev_level b = 0 then 128 else uint (s_inode_size b))"

definition i_mode :: "bytes \<Rightarrow> u16" where "i_mode ip = le16_at ip 0"
definition i_uid :: "bytes \<Rightarrow> u16" where "i_uid ip = le16_at ip 2"
definition i_size :: "bytes \<Rightarrow> u32" where "i_size ip = le32_at ip 4"
definition i_atime :: "bytes \<Rightarrow> u32" where "i_atime ip = le32_at ip 8"
definition i_ctime :: "bytes \<Rightarrow> u32" where "i_ctime ip = le32_at ip 12"
definition i_mtime :: "bytes \<Rightarrow> u32" where "i_mtime ip = le32_at ip 16"
definition i_gid :: "bytes \<Rightarrow> u16" where "i_gid ip = le16_at ip 24"
definition i_links_count :: "bytes \<Rightarrow> u16" where "i_links_count ip = le16_at ip 26"
definition i_blocks :: "bytes \<Rightarrow> u32" where "i_blocks ip = le32_at ip 28"
definition i_flags :: "bytes \<Rightarrow> u32" where "i_flags ip = le32_at ip 32"

definition i_block :: "bytes \<Rightarrow> nat \<Rightarrow> u32" where
  "i_block ip n = le32_at ip (40 + 4 * n)"

definition S_ISDIR :: "u16 \<Rightarrow> bool" where "S_ISDIR m \<longleftrightarrow> m AND 0xf000 = 0x4000"
definition S_ISLNK :: "u16 \<Rightarrow> bool" where "S_ISLNK m \<longleftrightarrow> m AND 0xf000 = 0xa000"

subsection \<open>State\<close>

record inode_table_entry =
  slot_inode :: bytes
  slot_inumber :: int
  slot_free :: bool
  slot_old_mode :: u16

record ext2_state =
  e2_sb :: bytes
  gds :: bytes
  root_inode :: "nat option"
  ngroups :: int
  directlim :: int
  ind1lim :: int
  ind2lim :: int
  ptrs_per_blk :: int
  blkbuf :: bytes
  cached_iblkno :: int
  iblkbuf :: bytes
  cached_diblkno :: int
  diblkbuf :: bytes
  partition_offset :: int
  inode_table :: "inode_table_entry list"
  e2_blocksize :: int
  diroffset :: int
  blockoffset :: int

subsection \<open>Mounting\<close>

text \<open>\<open>raw\<close> stands for the contents of the three freshly allocated block buffers.\<close>

definition clear_slot :: "inode_table_entry \<Rightarrow> inode_table_entry" where
  "clear_slot e = e\<lparr>slot_free := True, slot_inumber := 0\<rparr>"

definition group_count :: "bytes \<Rightarrow> int" where
  "group_count b =
     uint ((s_blocks_count b - s_first_data_block b + s_blocks_per_group b - 1) div s_blocks_per_group b)"

definition ext2_mount ::
  "reader \<Rightarrow> bytes \<times> bytes \<times> bytes \<Rightarrow> int \<Rightarrow> ext2_state \<Rightarrow> int \<times> ext2_state" where
  "ext2_mount rd raw p_offset st =
     (let st = st\<lparr>partition_offset := p_offset, inode_table := map clear_slot (inode_table st), root_inode := None\<rparr>;
          (n, d) = read_at rd (int sizeof_sb) (p_offset + EXT2_MIN_BLOCK_SIZE);
          st = st\<lparr>e2_sb := d @ drop (length d) (e2_sb st)\<rparr>
      in if n \<noteq> int sizeof_sb then (- 1, st)
         else if s_magic (e2_sb st) \<noteq> EXT2_SUPER_MAGIC then (- 1, st)
         else
           let ng = group_count (e2_sb st); bs = block_size_of (e2_sb st); (b1, b2, b3) = raw;
               (_, g) = read_at rd (ng * int sizeof_group_desc) (p_offset + bs * (EXT2_MIN_BLOCK_SIZE div bs + 1));
               ptrs = bs div 4; dl = EXT2_NDIR_BLOCKS - 1
           in (0, st\<lparr>ngroups := ng, e2_blocksize := bs, blkbuf := b1, iblkbuf := b2, diblkbuf := b3, gds := g,
                     directlim := dl, ptrs_per_blk := ptrs, ind1lim := ptrs + dl, ind2lim := ptrs * ptrs + dl\<rparr>))"

subsection \<open>The inode table\<close>

fun find_free :: "inode_table_entry list \<Rightarrow> nat \<Rightarrow> nat option" where
  "find_free [] i = None"
| "find_free (e # es) i = (if slot_free e then Some i else find_free es (Suc i))"

definition bg_inode_table :: "bytes \<Rightarrow> nat \<Rightarrow> u32" where
  "bg_inode_table g i = le32_at g (sizeof_group_desc * i + 8)"

text \<open>
  The division by \<open>s_inodes_per_group\<close> is unsigned.  A group number outside the group descriptors
  reads past them.
\<close>

definition inode_offset :: "ext2_state \<Rightarrow> int \<Rightarrow> int option" where
  "inode_offset st ino =
     (let n = word_of_int (ino - 1) :: u32; per = s_inodes_per_group (e2_sb st);
          group = unat (n div per)
      in if per = 0 \<or> sizeof_group_desc * (group + 1) > length (gds st) then None
         else Some (partition_offset st + uint (bg_inode_table (gds st) group) * e2_blocksize st
                    + uint (n mod per) * inode_size_of (e2_sb st)))"

definition ext2_iget :: "reader \<Rightarrow> int \<Rightarrow> ext2_state \<Rightarrow> (nat option \<times> ext2_state) option" where
  "ext2_iget rd ino st =
     (case find_free (inode_table st) 0 of
        None \<Rightarrow> Some (None, st)
      | Some i \<Rightarrow>
          (case inode_offset st ino of
             None \<Rightarrow> None
           | Some off \<Rightarrow>
               let (n, d) = read_at rd (int sizeof_inode) off;
                   e = inode_table st ! i;
                   e1 = e\<lparr>slot_inode := d @ drop (length d) (slot_inode e)\<rparr>
               in if n \<noteq> int sizeof_inode then Some (None, st\<lparr>inode_table := (inode_table st)[i := e1]\<rparr>)
                  else Some (Some i, st\<lparr>inode_table := (inode_table st)[i :=
                         e1\<lparr>slot_free := False, slot_inumber := ino, slot_old_mode := i_mode (slot_inode e1)\<rparr>]\<rparr>)))"

definition ext2_iput :: "nat \<Rightarrow> ext2_state \<Rightarrow> ext2_state" where
  "ext2_iput i st =
     st\<lparr>inode_table := (inode_table st)[i := (inode_table st ! i)\<lparr>slot_inumber := 0, slot_free := True\<rparr>]\<rparr>"

subsection \<open>The block map\<close>

definition ptr_at :: "bytes \<Rightarrow> int \<Rightarrow> int" where
  "ptr_at buf i = sint (le32_at buf (4 * nat i))"

text \<open>\<open>cons_read\<close> of block \<open>no\<close> into the single-indirect buffer unless it is the cached one.\<close>

definition read_iblk :: "reader \<Rightarrow> int \<Rightarrow> ext2_state \<Rightarrow> bool \<times> ext2_state" where
  "read_iblk rd no st =
     (if cached_iblkno st \<noteq> no then
        let (n, d) = read_at rd (e2_blocksize st) (partition_offset st + no * e2_blocksize st);
            st1 = st\<lparr>iblkbuf := d @ drop (length d) (iblkbuf st)\<rparr>
        in if n \<noteq> e2_blocksize st then (False, st1) else (True, st1\<lparr>cached_iblkno := no\<rparr>)
      else (True, st))"

definition read_diblk :: "reader \<Rightarrow> int \<Rightarrow> ext2_state \<Rightarrow> bool \<times> ext2_state" where
  "read_diblk rd no st =
     (if cached_diblkno st \<noteq> no then
        let (n, d) = read_at rd (e2_blocksize st) (partition_offset st + no * e2_blocksize st);
            st1 = st\<lparr>diblkbuf := d @ drop (length d) (diblkbuf st)\<rparr>
        in if n \<noteq> e2_blocksize st then (False, st1) else (True, st1\<lparr>cached_diblkno := no\<rparr>)
      else (True, st))"

definition ext2_blkno :: "reader \<Rightarrow> bytes \<Rightarrow> nat \<Rightarrow> ext2_state \<Rightarrow> int \<times> ext2_state" where
  "ext2_blkno rd ip blk st =
     (let blkoff = int blk
      in if blkoff \<le> directlim st then (sint (i_block ip blk), st)
         else if blkoff \<le> ind1lim st then
           let iblkno = sint (i_block ip EXT2_IND_BLOCK)
           in if iblkno = 0 then (0, st)
              else
                (case read_iblk rd iblkno st of
                   (False, st) \<Rightarrow> (0, st)
                 | (True, st) \<Rightarrow> (ptr_at (iblkbuf st) (blkoff - (directlim st + 1)), st))
         else if blkoff \<le> ind2lim st then
           let diblkno = sint (i_block ip EXT2_DIND_BLOCK)
           in if diblkno = 0 then (0, st)
              else
                (case read_diblk rd diblkno st of
                   (False, st) \<Rightarrow> (0, st)
                 | (True, st) \<Rightarrow>
                     let iblkno = ptr_at (diblkbuf st) ((blkoff - (ind1lim st + 1)) div ptrs_per_blk st)
                     in if iblkno = 0 then (0, st)
                        else
                          (case read_iblk rd iblkno st of
                             (False, st) \<Rightarrow> (0, st)
                           | (True, st) \<Rightarrow>
                               (ptr_at (iblkbuf st) ((blkoff - (ind1lim st + 1)) mod ptrs_per_blk st), st)))
         else (0, st))"

subsection \<open>Reading blocks\<close>

text \<open>The result is the return value and the bytes placed in the buffer.\<close>

definition ext4_breadi :: "reader \<Rightarrow> bytes \<Rightarrow> int \<Rightarrow> int \<Rightarrow> ext2_state \<Rightarrow> int \<times> bytes" where
  "ext4_breadi rd ip blkno nblks st =
     (let eh_magic = le16_at ip 40; eh_entries = le16_at ip 42;
          ee_block = le32_at ip 52; ee_len = uint (le16_at ip 56);
          ee_start = push_bit 32 (uint (le16_at ip 58)) + uint (le32_at ip 60)
      in if eh_magic \<noteq> EXT4_EXT_MAGIC then (- 1, [])
         else if eh_entries \<noteq> 1 then (- 1, [])
         else if ee_block \<noteq> 0 then (- 1, [])
         else if nblks > ee_len then (- 1, [])
         else
           let nblks = (if blkno + nblks > ee_len then ee_len - blkno else nblks);
               offset = partition_offset st + (ee_start + blkno) * e2_blocksize st;
               nbytes = nblks * e2_blocksize st;
               (n, d) = read_at rd nbytes offset
           in if n \<noteq> nbytes then (- 1, d) else (n, d))"

text \<open>
  The \<open>do ... while\<close> loop that groups contiguous blocks: the number of blocks in the group.  The code
  enters it with \<open>nblks\<close> at least 1.
\<close>

fun group_blocks :: "reader \<Rightarrow> bytes \<Rightarrow> int \<Rightarrow> nat \<Rightarrow> nat \<Rightarrow> nat \<Rightarrow> ext2_state \<Rightarrow> nat \<times> ext2_state" where
  "group_blocks rd ip dev_blkno blkno ncontig 0 st = (ncontig, st)"
| "group_blocks rd ip dev_blkno blkno ncontig (Suc nblks) st =
     (if nblks = 0 then (ncontig + 1, st)
      else
        let (b, st) = ext2_blkno rd ip (blkno + 1) st
        in if b = dev_blkno + int (ncontig + 1)
           then group_blocks rd ip dev_blkno (blkno + 1) (ncontig + 1) nblks st
           else (ncontig + 1, st))"

lemma group_blocks_bounds:
  "nblks > 0 \<Longrightarrow> fst (group_blocks rd ip dev_blkno blkno ncontig nblks st) > ncontig
     \<and> fst (group_blocks rd ip dev_blkno blkno ncontig nblks st) \<le> ncontig + nblks"
proof (induction rd ip dev_blkno blkno ncontig nblks st rule: group_blocks.induct)
  case (2 rd ip dev_blkno blkno ncontig nblks st)
  then show ?case by (auto simp: Let_def split: prod.split) fastforce+
qed simp

function ext2_breadi_loop ::
  "reader \<Rightarrow> bytes \<Rightarrow> nat \<Rightarrow> nat \<Rightarrow> bytes \<Rightarrow> ext2_state \<Rightarrow> (int \<times> bytes) \<times> ext2_state" where
  "ext2_breadi_loop rd ip blkno nblks buf st =
     (if nblks = 0 then ((int (length buf), buf), st)
      else
        let (dev_blkno, st) = ext2_blkno rd ip blkno st;
            (ncontig, st) = group_blocks rd ip dev_blkno blkno 0 nblks st;
            nbytes = int ncontig * e2_blocksize st
        in if dev_blkno = 0
           then ext2_breadi_loop rd ip (blkno + ncontig) (nblks - ncontig) (buf @ replicate (nat nbytes) 0) st
           else
             let (n, d) = read_at rd nbytes (partition_offset st + dev_blkno * e2_blocksize st)
             in if n \<noteq> nbytes then ((- 1, buf @ d), st)
                else ext2_breadi_loop rd ip (blkno + ncontig) (nblks - ncontig) (buf @ d) st)"
  by pat_completeness auto
termination
proof (relation "measure (\<lambda>(rd, ip, blkno, nblks, buf, st). nblks)", goal_cases)
  case 1
  then show ?case by simp
next
  case (2 rd ip blkno nblks buf st x dev st' y ncontig st'' nbytes)
  then show ?case using group_blocks_bounds [of nblks 0 rd ip dev blkno st'] by (metis (no_types, lifting) case_prod_conv diff_less fst_conv in_measure neq0_conv)
next
  case (3 rd ip blkno nblks buf st x dev st' y ncontig st'' nbytes z n d)
  then show ?case using group_blocks_bounds [of nblks 0 rd ip dev blkno st'] by (metis (no_types, lifting) case_prod_conv diff_less fst_conv in_measure neq0_conv)
qed

declare ext2_breadi_loop.simps [simp del]

text \<open>A negative number of blocks makes the loop run away.\<close>

definition clip_blocks :: "bytes \<Rightarrow> nat \<Rightarrow> nat \<Rightarrow> ext2_state \<Rightarrow> int" where
  "clip_blocks ip blkno nblks st =
     (if int (blkno + nblks) * e2_blocksize st > uint (i_size ip)
      then uint ((i_size ip + word_of_int (e2_blocksize st)) div word_of_int (e2_blocksize st)) - int blkno
      else int nblks)"

definition ext2_breadi ::
  "reader \<Rightarrow> bytes \<Rightarrow> nat \<Rightarrow> nat \<Rightarrow> ext2_state \<Rightarrow> ((int \<times> bytes) \<times> ext2_state) option" where
  "ext2_breadi rd ip blkno nblks st =
     (if i_flags ip AND EXT4_EXTENTS_FL \<noteq> 0 then Some ((- 1, []), st)
      else
        let n = clip_blocks ip blkno nblks st
        in if n < 0 then None else Some (ext2_breadi_loop rd ip blkno (nat n) [] st))"

definition extn_breadi ::
  "reader \<Rightarrow> bytes \<Rightarrow> nat \<Rightarrow> nat \<Rightarrow> ext2_state \<Rightarrow> ((int \<times> bytes) \<times> ext2_state) option" where
  "extn_breadi rd ip blkno nblks st =
     (if i_flags ip AND EXT4_EXTENTS_FL \<noteq> 0
      then Some (ext4_breadi rd ip (int blkno) (int nblks) st, st)
      else ext2_breadi rd ip blkno nblks st)"

subsection \<open>Directories\<close>

definition d_inode :: "bytes \<Rightarrow> nat \<Rightarrow> u32" where "d_inode buf off = le32_at buf off"
definition d_rec_len :: "bytes \<Rightarrow> nat \<Rightarrow> u16" where "d_rec_len buf off = le16_at buf (off + 4)"
definition d_name_len :: "bytes \<Rightarrow> nat \<Rightarrow> nat" where "d_name_len buf off = unat (buf ! (off + 6))"

text \<open>One block of the directory into \<open>blkbuf\<close>; \<^const>\<open>False\<close> when the read failed.\<close>

definition read_dir_block :: "reader \<Rightarrow> bytes \<Rightarrow> nat \<Rightarrow> ext2_state \<Rightarrow> (bool \<times> ext2_state) option" where
  "read_dir_block rd ip blk st =
     (case extn_breadi rd ip blk 1 st of
        None \<Rightarrow> None
      | Some ((n, d), st) \<Rightarrow> Some (\<not> n < 0, st\<lparr>blkbuf := d @ drop (length d) (blkbuf st)\<rparr>))"

text \<open>
  The next entry, as its offset in \<open>blkbuf\<close>.  An entry whose header does not fit in the block is
  read from memory behind it.
\<close>

definition next_entry :: "ext2_state \<Rightarrow> (nat option \<times> ext2_state) option" where
  "next_entry st =
     (let off = nat (blockoffset st)
      in if off + 8 > length (blkbuf st) then None
         else Some (Some off, st\<lparr>blockoffset := blockoffset st + uint (d_rec_len (blkbuf st) off)\<rparr>))"

definition ext2_readdiri :: "reader \<Rightarrow> bytes \<Rightarrow> bool \<Rightarrow> ext2_state \<Rightarrow> (nat option \<times> ext2_state) option" where
  "ext2_readdiri rd ip rewind st =
     (case (if rewind then read_dir_block rd ip 0 (st\<lparr>diroffset := 0, blockoffset := 0\<rparr>) else Some (True, st)) of
        None \<Rightarrow> None
      | Some (False, st) \<Rightarrow> Some (None, st)
      | Some (True, st) \<Rightarrow>
          if blockoffset st \<ge> e2_blocksize st then
            let st = st\<lparr>diroffset := diroffset st + e2_blocksize st\<rparr>
            in if diroffset st \<ge> uint (i_size ip) then Some (None, st)
               else
                 (case read_dir_block rd ip (nat (diroffset st div e2_blocksize st)) st of
                    None \<Rightarrow> None
                  | Some (False, st) \<Rightarrow> Some (None, st)
                  | Some (True, st) \<Rightarrow> next_entry (st\<lparr>blockoffset := 0\<rparr>))
          else next_entry st)"

text \<open>
  The search for a component.  The result is \<open>next_ino\<close>, negative when there is no such entry.  The
  fuel bounds the number of entries looked at: an entry of length 0 is read over and over.
\<close>

primrec search_dir :: "nat \<Rightarrow> reader \<Rightarrow> bytes \<Rightarrow> bytes \<Rightarrow> bool \<Rightarrow> ext2_state \<Rightarrow> (int \<times> ext2_state) option" where
  "search_dir 0 rd ip component rewind st = None"
| "search_dir (Suc f) rd ip component rewind st =
     (case ext2_readdiri rd ip rewind st of
        None \<Rightarrow> None
      | Some (None, st) \<Rightarrow> Some (- 1, st)
      | Some (Some off, st) \<Rightarrow>
          if d_name_len (blkbuf st) off = length component then
            if off + 8 + length component > length (blkbuf st) then None
            else if slice (off + 8) (length component) (blkbuf st) = component
            then Some (sint (d_inode (blkbuf st) off), st)
            else search_dir f rd ip component False st
          else search_dir f rd ip component False st)"

subsection \<open>Path lookup\<close>

fun namei_walk :: "nat \<Rightarrow> reader \<Rightarrow> bytes list \<Rightarrow> nat \<Rightarrow> ext2_state \<Rightarrow> (nat option \<times> ext2_state) option" where
  "namei_walk f rd [] dir st = Some (Some dir, st)"
| "namei_walk f rd (c # cs) dir st =
     (case search_dir f rd (slot_inode (inode_table st ! dir)) c True st of
        None \<Rightarrow> None
      | Some (next_ino, st) \<Rightarrow>
          let st = (if root_inode st \<noteq> Some dir then ext2_iput dir st else st)
          in if next_ino < 0 then Some (None, st)
             else
               (case ext2_iget rd next_ino st of
                  None \<Rightarrow> None
                | Some (None, st) \<Rightarrow> Some (None, st)
                | Some (Some d, st) \<Rightarrow> namei_walk f rd cs d st))"

definition get_root :: "reader \<Rightarrow> ext2_state \<Rightarrow> (nat option \<times> ext2_state) option" where
  "get_root rd st =
     (case root_inode st of
        Some r \<Rightarrow> Some (Some r, st)
      | None \<Rightarrow>
          (case ext2_iget rd EXT2_ROOT_INO st of
             None \<Rightarrow> None
           | Some (r, st) \<Rightarrow> Some (r, st\<lparr>root_inode := r\<rparr>)))"

text \<open>The name is first copied to a buffer of 256 bytes.\<close>

definition ext2_namei :: "nat \<Rightarrow> reader \<Rightarrow> bytes \<Rightarrow> ext2_state \<Rightarrow> (nat option \<times> ext2_state) option" where
  "ext2_namei f rd name st =
     (if length name \<ge> 256 then None
      else
        case get_root rd st of
          None \<Rightarrow> None
        | Some (None, st) \<Rightarrow> Some (None, st)
        | Some (Some r, st) \<Rightarrow> namei_walk f rd (tokens {47} name) r st)"

text \<open>A C string at the start of a buffer; \<^const>\<open>None\<close> when it has no end inside the buffer.\<close>

definition string_in :: "bytes \<Rightarrow> bytes option" where
  "string_in buf = (if 0 \<in> set buf then Some (takeWhile (\<lambda>c. c \<noteq> 0) buf) else None)"

text \<open>The position that \<open>strrchr(base, '/')\<close> finds: \<open>strrchr\<close> does not look at the first character.\<close>

fun last_slash :: "bytes \<Rightarrow> nat \<Rightarrow> nat option" where
  "last_slash base 0 = None"
| "last_slash base (Suc i) =
     (if Suc i < length base \<and> base ! Suc i = 47 then Some (Suc i) else last_slash base i)"

definition link_target :: "bytes \<Rightarrow> bytes \<Rightarrow> bytes" where
  "link_target base linkto =
     (if take 1 linkto = [47] then linkto
      else case last_slash base (length base) of Some e \<Rightarrow> take (e + 1) base @ linkto | None \<Rightarrow> linkto)"

definition ext2_follow_link :: "nat \<Rightarrow> reader \<Rightarrow> nat \<Rightarrow> bytes \<Rightarrow> ext2_state \<Rightarrow> (nat option \<times> ext2_state) option" where
  "ext2_follow_link f rd from base st =
     (let ip = slot_inode (inode_table st ! from)
      in if i_blocks ip \<noteq> 0 then
           (case extn_breadi rd ip 0 1 st of
              None \<Rightarrow> None
            | Some ((n, d), st) \<Rightarrow>
                let st = st\<lparr>blkbuf := d @ drop (length d) (blkbuf st)\<rparr>
                in if n = - 1 then Some (None, st)
                   else case string_in (blkbuf st) of
                          None \<Rightarrow> None
                        | Some linkto \<Rightarrow> ext2_namei f rd (link_target base linkto) st)
         else
           case string_in (drop 40 ip) of
             None \<Rightarrow> None
           | Some linkto \<Rightarrow> ext2_namei f rd (link_target base linkto) st)"

primrec follow_links :: "nat \<Rightarrow> nat \<Rightarrow> reader \<Rightarrow> bytes \<Rightarrow> nat \<Rightarrow> ext2_state \<Rightarrow> (int \<times> ext2_state) option" where
  "follow_links 0 f rd filename i st = None"
| "follow_links (Suc n) f rd filename i st =
     (if S_ISLNK (i_mode (slot_inode (inode_table st ! i))) then
        (case ext2_follow_link f rd i filename st of
           None \<Rightarrow> None
         | Some (None, st) \<Rightarrow> Some (- 1, st)
         | Some (Some j, st) \<Rightarrow> follow_links n f rd filename j st)
      else Some (int i, st))"

definition ext2_open :: "nat \<Rightarrow> reader \<Rightarrow> bytes \<Rightarrow> ext2_state \<Rightarrow> (int \<times> ext2_state) option" where
  "ext2_open f rd filename st =
     (case ext2_namei f rd filename st of
        None \<Rightarrow> None
      | Some (None, st) \<Rightarrow> Some (- 1, st)
      | Some (Some i, st) \<Rightarrow> follow_links f f rd filename i st)"

subsection \<open>The operations of \<open>ext2fs\<close>\<close>

definition ext2_bread :: "reader \<Rightarrow> nat \<Rightarrow> nat \<Rightarrow> nat \<Rightarrow> ext2_state \<Rightarrow> ((int \<times> bytes) \<times> ext2_state) option" where
  "ext2_bread rd fd blkno nblks st =
     (if fd < length (inode_table st) then extn_breadi rd (slot_inode (inode_table st ! fd)) blkno nblks st
      else None)"

text \<open>The name is terminated in place, which overwrites a byte of the block buffer.\<close>

definition ext2_readdir :: "reader \<Rightarrow> nat \<Rightarrow> bool \<Rightarrow> ext2_state \<Rightarrow> (bytes option \<times> ext2_state) option" where
  "ext2_readdir rd fd rewind st =
     (if fd < length (inode_table st) then
        let ip = slot_inode (inode_table st ! fd)
        in if \<not> S_ISDIR (i_mode ip) then Some (None, st)
           else
             (case ext2_readdiri rd ip rewind st of
                None \<Rightarrow> None
              | Some (None, st) \<Rightarrow> Some (None, st)
              | Some (Some off, st) \<Rightarrow>
                  let e = off + 8 + d_name_len (blkbuf st) off
                  in if e < length (blkbuf st) then
                       let buf = (blkbuf st)[e := 0]
                       in Some (Some (takeWhile (\<lambda>c. c \<noteq> 0) (drop (off + 8) buf)), st\<lparr>blkbuf := buf\<rparr>)
                     else None)
      else None)"

record stat =
  st_ino :: int
  st_mode :: u32
  st_nlink :: u32
  st_uid :: u16
  st_gid :: u16
  st_size :: u32
  st_blocks :: u32
  st_atime :: u32
  st_mtime :: u32
  st_ctime :: u32

definition ext2_fstat :: "nat \<Rightarrow> ext2_state \<Rightarrow> stat option" where
  "ext2_fstat fd st =
     (if fd \<ge> MAX_OPEN_FILES then None
      else
        let e = inode_table st ! fd; ip = slot_inode e
        in Some \<lparr>st_ino = slot_inumber e, st_mode = ucast (i_mode ip), st_nlink = ucast (i_links_count ip), st_uid = i_uid ip,
                 st_gid = i_gid ip, st_size = i_size ip, st_blocks = i_blocks ip, st_atime = i_atime ip,
                 st_mtime = i_mtime ip, st_ctime = i_ctime ip\<rparr>)"

definition ext2_close :: "nat \<Rightarrow> ext2_state \<Rightarrow> ext2_state" where
  "ext2_close fd st = (if root_inode st \<noteq> Some fd then ext2_iput fd st else st)"


subsection \<open>The block map without caches\<close>

definition block_at :: "bytes \<Rightarrow> ext2_state \<Rightarrow> int \<Rightarrow> bytes" where
  "block_at img st no = slice (nat (partition_offset st + no * e2_blocksize st)) (nat (e2_blocksize st)) img"

definition block_in :: "bytes \<Rightarrow> ext2_state \<Rightarrow> int \<Rightarrow> bool" where
  "block_in img st no \<longleftrightarrow> 0 \<le> no \<and> partition_offset st + (no + 1) * e2_blocksize st \<le> int (length img)"

definition geometry_ok :: "ext2_state \<Rightarrow> bool" where
  "geometry_ok st \<longleftrightarrow> 0 < e2_blocksize st \<and> 0 \<le> partition_offset st \<and> directlim st = 11
     \<and> 0 < ptrs_per_blk st"

text \<open>The disk block of block \<open>blk\<close> of a file, read from the image alone; 0 is a hole.\<close>

definition file_block :: "bytes \<Rightarrow> ext2_state \<Rightarrow> bytes \<Rightarrow> nat \<Rightarrow> int" where
  "file_block img st ip blk =
     (if int blk \<le> directlim st then sint (i_block ip blk)
      else if int blk \<le> ind1lim st then
        let i = sint (i_block ip EXT2_IND_BLOCK)
        in if i = 0 then 0 else ptr_at (block_at img st i) (int blk - (directlim st + 1))
      else if int blk \<le> ind2lim st then
        let d = sint (i_block ip EXT2_DIND_BLOCK)
        in if d = 0 then 0
           else
             let i = ptr_at (block_at img st d) ((int blk - (ind1lim st + 1)) div ptrs_per_blk st)
             in if i = 0 then 0
                else ptr_at (block_at img st i) ((int blk - (ind1lim st + 1)) mod ptrs_per_blk st)
      else 0)"

text \<open>The indirect blocks that lead to block \<open>blk\<close> lie inside the image.\<close>

definition map_ok :: "bytes \<Rightarrow> ext2_state \<Rightarrow> bytes \<Rightarrow> nat \<Rightarrow> bool" where
  "map_ok img st ip blk \<longleftrightarrow>
     (let i = sint (i_block ip EXT2_IND_BLOCK); d = sint (i_block ip EXT2_DIND_BLOCK)
      in if int blk \<le> directlim st then True
         else if int blk \<le> ind1lim st then i = 0 \<or> block_in img st i
         else if int blk \<le> ind2lim st then
           d = 0 \<or> block_in img st d
             \<and> (let j = ptr_at (block_at img st d) ((int blk - (ind1lim st + 1)) div ptrs_per_blk st)
                in j = 0 \<or> block_in img st j)
         else True)"

definition cache_ok :: "bytes \<Rightarrow> ext2_state \<Rightarrow> bool" where
  "cache_ok img st \<longleftrightarrow>
     int (length (iblkbuf st)) = e2_blocksize st \<and> int (length (diblkbuf st)) = e2_blocksize st
     \<and> (0 \<le> cached_iblkno st \<longrightarrow> iblkbuf st = block_at img st (cached_iblkno st))
     \<and> (0 \<le> cached_diblkno st \<longrightarrow> diblkbuf st = block_at img st (cached_diblkno st))"

definition cache_frame :: "ext2_state \<Rightarrow> ext2_state \<Rightarrow> bool" where
  "cache_frame st st' \<longleftrightarrow>
     (\<exists>a b c d. st' = st\<lparr>iblkbuf := a, cached_iblkno := b, diblkbuf := c, cached_diblkno := d\<rparr>)"

lemma cache_frame_refl: "cache_frame st st"
  unfolding cache_frame_def
  by (intro exI [of _ "iblkbuf st"] exI [of _ "cached_iblkno st"] exI [of _ "diblkbuf st"] exI [of _ "cached_diblkno st"]) simp

lemma cache_frame_trans: "cache_frame st st' \<Longrightarrow> cache_frame st' st'' \<Longrightarrow> cache_frame st st''"
proof (unfold cache_frame_def, elim exE)
  fix a b c d a' b' c' d'
  assume 1: "st' = st\<lparr>iblkbuf := a, cached_iblkno := b, diblkbuf := c, cached_diblkno := d\<rparr>"
    and 2: "st'' = st'\<lparr>iblkbuf := a', cached_iblkno := b', diblkbuf := c', cached_diblkno := d'\<rparr>"
  have "st'' = st\<lparr>iblkbuf := a', cached_iblkno := b', diblkbuf := c', cached_diblkno := d'\<rparr>"
    unfolding 2 1 by simp
  then show "\<exists>a b c d. st'' = st\<lparr>iblkbuf := a, cached_iblkno := b, diblkbuf := c, cached_diblkno := d\<rparr>" by blast
qed

lemma cache_frame_fields:
  assumes "cache_frame st st'"
  shows "e2_blocksize st' = e2_blocksize st" "partition_offset st' = partition_offset st"
    "directlim st' = directlim st" "ind1lim st' = ind1lim st" "ind2lim st' = ind2lim st"
    "ptrs_per_blk st' = ptrs_per_blk st" "inode_table st' = inode_table st" "blkbuf st' = blkbuf st"
    "root_inode st' = root_inode st"
  using assms by (auto simp: cache_frame_def)

lemma cache_frame_cong:
  assumes "cache_frame st st'"
  shows "block_at img st' = block_at img st" and "block_in img st' = block_in img st"
    and "file_block img st' = file_block img st" and "map_ok img st' = map_ok img st"
    and "geometry_ok st' = geometry_ok st"
proof -
  note f = cache_frame_fields [OF assms]
  show b: "block_at img st' = block_at img st" "block_in img st' = block_in img st"
    by (simp_all add: fun_eq_iff block_at_def block_in_def f)
  show "file_block img st' = file_block img st" "map_ok img st' = map_ok img st" "geometry_ok st' = geometry_ok st"
    by (simp_all add: fun_eq_iff file_block_def map_ok_def geometry_ok_def Let_def f b)
qed

text \<open>
  What block \<open>blk\<close> of the file contains.  \<open>data_ok\<close> says that it is a hole or a block of the image that
  is not block 1, which belongs to the file system's own structures.
\<close>

definition file_data :: "bytes \<Rightarrow> ext2_state \<Rightarrow> bytes \<Rightarrow> nat \<Rightarrow> bytes" where
  "file_data img st ip blk =
     (let no = file_block img st ip blk
      in if no = 0 then replicate (nat (e2_blocksize st)) 0 else block_at img st no)"

definition data_ok :: "bytes \<Rightarrow> ext2_state \<Rightarrow> bytes \<Rightarrow> nat \<Rightarrow> bool" where
  "data_ok img st ip blk \<longleftrightarrow>
     map_ok img st ip blk
     \<and> (let no = file_block img st ip blk in no = 0 \<or> 2 \<le> no \<and> block_in img st no)"

lemma cache_frame_data:
  assumes "cache_frame st st'"
  shows "file_data img st' = file_data img st" and "data_ok img st' = data_ok img st"
  by (simp_all add: fun_eq_iff file_data_def data_ok_def Let_def cache_frame_cong [OF assms] cache_frame_fields [OF assms])

context block_device
begin

lemma read_at_block:
  assumes "geometry_ok st" and "block_in img st no"
  shows "read_at dev_read (e2_blocksize st) (partition_offset st + no * e2_blocksize st)
           = (e2_blocksize st, block_at img st no)"
    and "int (length (block_at img st no)) = e2_blocksize st"
proof -
  let ?off = "partition_offset st + no * e2_blocksize st"
  have off: "0 \<le> ?off" using assms by (simp add: geometry_ok_def block_in_def)
  have "?off + e2_blocksize st \<le> int (length img)" using assms(2) by (simp add: block_in_def algebra_simps)
  then have "int (nat ?off + nat (e2_blocksize st)) \<le> int (length img)"
    using off assms(1) by (simp add: geometry_ok_def del: of_nat_le_iff)
  then have le: "nat ?off + nat (e2_blocksize st) \<le> length img" by (simp only: of_nat_le_iff)
  have bs: "int (nat (e2_blocksize st)) = e2_blocksize st" using assms(1) by (simp add: geometry_ok_def)
  show "read_at dev_read (e2_blocksize st) ?off = (e2_blocksize st, block_at img st no)"
    using off read_slice [OF le] unfolding bs by (simp add: read_at_def block_at_def)
  show "int (length (block_at img st no)) = e2_blocksize st"
    using le bs by (simp add: block_at_def length_slice)
qed

lemma read_iblk_cached:
  assumes g: "geometry_ok st" and b: "block_in img st no" and c: "cache_ok img st"
  shows "\<exists>st'. read_iblk dev_read no st = (True, st') \<and> cache_frame st st' \<and> cache_ok img st'
           \<and> iblkbuf st' = block_at img st no"
proof (cases "cached_iblkno st = no")
  case True
  with b c show ?thesis
    by (auto simp: read_iblk_def cache_ok_def block_in_def intro: cache_frame_refl)
next
  case False
  let ?st = "st\<lparr>iblkbuf := block_at img st no, cached_iblkno := no\<rparr>"
  have "block_at img st no @ drop (length (block_at img st no)) (iblkbuf st) = block_at img st no"
    using c read_at_block(2) [OF g b] by (simp add: cache_ok_def)
  then have "read_iblk dev_read no st = (True, ?st)"
    using False read_at_block(1) [OF g b] by (simp add: read_iblk_def)
  moreover have f: "cache_frame st ?st"
    unfolding cache_frame_def
    by (intro exI [of _ "block_at img st no"] exI [of _ no] exI [of _ "diblkbuf st"] exI [of _ "cached_diblkno st"]) simp
  moreover have "cache_ok img ?st"
    using c read_at_block(2) [OF g b] cache_frame_cong(1) [OF f] by (simp add: cache_ok_def)
  ultimately show ?thesis by auto
qed

lemma read_diblk_cached:
  assumes g: "geometry_ok st" and b: "block_in img st no" and c: "cache_ok img st"
  shows "\<exists>st'. read_diblk dev_read no st = (True, st') \<and> cache_frame st st' \<and> cache_ok img st'
           \<and> diblkbuf st' = block_at img st no"
proof (cases "cached_diblkno st = no")
  case True
  with b c show ?thesis
    by (auto simp: read_diblk_def cache_ok_def block_in_def intro: cache_frame_refl)
next
  case False
  let ?st = "st\<lparr>diblkbuf := block_at img st no, cached_diblkno := no\<rparr>"
  have "block_at img st no @ drop (length (block_at img st no)) (diblkbuf st) = block_at img st no"
    using c read_at_block(2) [OF g b] by (simp add: cache_ok_def)
  then have "read_diblk dev_read no st = (True, ?st)"
    using False read_at_block(1) [OF g b] by (simp add: read_diblk_def)
  moreover have f: "cache_frame st ?st"
    unfolding cache_frame_def
    by (intro exI [of _ "iblkbuf st"] exI [of _ "cached_iblkno st"] exI [of _ "block_at img st no"] exI [of _ no]) simp
  moreover have "cache_ok img ?st"
    using c read_at_block(2) [OF g b] cache_frame_cong(1) [OF f] by (simp add: cache_ok_def)
  ultimately show ?thesis by auto
qed

lemma blkno_map:
  assumes g: "geometry_ok st" and c: "cache_ok img st" and m: "map_ok img st ip blk"
  shows "\<exists>st'. ext2_blkno dev_read ip blk st = (file_block img st ip blk, st')
           \<and> cache_frame st st' \<and> cache_ok img st'"
proof -
  let ?i = "sint (i_block ip EXT2_IND_BLOCK)" and ?d = "sint (i_block ip EXT2_DIND_BLOCK)"
  let ?n = "(int blk - (ind1lim st + 1))"
  consider (dir) "int blk \<le> directlim st"
    | (ind0) "\<not> int blk \<le> directlim st" "int blk \<le> ind1lim st" "?i = 0"
    | (ind) "\<not> int blk \<le> directlim st" "int blk \<le> ind1lim st" "?i \<noteq> 0"
    | (dind0) "\<not> int blk \<le> directlim st" "\<not> int blk \<le> ind1lim st" "int blk \<le> ind2lim st" "?d = 0"
    | (dind) "\<not> int blk \<le> directlim st" "\<not> int blk \<le> ind1lim st" "int blk \<le> ind2lim st" "?d \<noteq> 0"
    | (big) "\<not> int blk \<le> directlim st" "\<not> int blk \<le> ind1lim st" "\<not> int blk \<le> ind2lim st" by blast
  then show ?thesis
  proof cases
    case ind
    then have "block_in img st ?i" using m by (simp add: map_ok_def)
    from read_iblk_cached [OF g this c] obtain st' where
      "read_iblk dev_read ?i st = (True, st')" "cache_frame st st'" "cache_ok img st'" "iblkbuf st' = block_at img st ?i"
      by blast
    with ind cache_frame_fields [OF this(2)] show ?thesis by (simp add: ext2_blkno_def file_block_def)
  next
    case dind
    then have b: "block_in img st ?d" using m by (simp add: map_ok_def Let_def)
    from read_diblk_cached [OF g b c] obtain st1 where
      s1: "read_diblk dev_read ?d st = (True, st1)" "cache_frame st st1" "cache_ok img st1" "diblkbuf st1 = block_at img st ?d"
      by blast
    define j where "j = ptr_at (block_at img st ?d) (?n div ptrs_per_blk st)"
    show ?thesis
    proof (cases "j = 0")
      case True
      with dind s1 cache_frame_fields [OF s1(2)] show ?thesis
        by (simp add: ext2_blkno_def file_block_def Let_def j_def)
    next
      case False
      then have "block_in img st1 j"
        using m dind cache_frame_cong(2) [OF s1(2)] by (simp add: map_ok_def Let_def j_def)
      moreover have "geometry_ok st1" using g cache_frame_cong(5) [OF s1(2)] by simp
      ultimately obtain st2 where s2: "read_iblk dev_read j st1 = (True, st2)" "cache_frame st1 st2"
          "cache_ok img st2" "iblkbuf st2 = block_at img st1 j"
        using read_iblk_cached s1(3) by blast
      with dind s1 False cache_frame_fields [OF s1(2)] cache_frame_fields [OF s2(2)]
        cache_frame_cong(1) [OF s1(2)] cache_frame_trans [OF s1(2) s2(2)]
      show ?thesis by (simp add: ext2_blkno_def file_block_def Let_def j_def)
    qed
  qed (use c cache_frame_refl in \<open>simp_all add: ext2_blkno_def file_block_def Let_def\<close>)
qed


lemma group_blocks_map:
  assumes "geometry_ok st" and "cache_ok img st" and "0 < m"
    and "\<forall>i < nc + m. map_ok img st ip (base + i)"
    and "\<forall>i \<le> nc. file_block img st ip (base + i) = dev + int i"
  shows "\<exists>nc' st'. group_blocks dev_read ip dev (base + nc) nc m st = (nc', st') \<and> nc < nc' \<and> nc' \<le> nc + m
           \<and> (\<forall>i < nc'. file_block img st ip (base + i) = dev + int i) \<and> cache_frame st st' \<and> cache_ok img st'"
  using assms
proof (induction m arbitrary: nc st)
  case (Suc m)
  show ?case
  proof (cases "m = 0")
    case True
    with Suc.prems show ?thesis by (auto simp: less_Suc_eq_le intro: cache_frame_refl)
  next
    case False
    let ?blk = "base + (nc + 1)"
    have "map_ok img st ip ?blk" using Suc.prems(4) [rule_format, of "nc + 1"] False by simp
    from blkno_map [OF Suc.prems(1,2) this] obtain st1 where
      s1: "ext2_blkno dev_read ip ?blk st = (file_block img st ip ?blk, st1)" "cache_frame st st1" "cache_ok img st1" by blast
    show ?thesis
    proof (cases "file_block img st ip ?blk = dev + int (nc + 1)")
      case neq: False
      with s1 False Suc.prems(5) show ?thesis by (auto simp: less_Suc_eq_le)
    next
      case eq: True
      have "\<exists>nc' st'. group_blocks dev_read ip dev (base + (nc + 1)) (nc + 1) m st1 = (nc', st')
          \<and> nc + 1 < nc' \<and> nc' \<le> nc + 1 + m
          \<and> (\<forall>i < nc'. file_block img st1 ip (base + i) = dev + int i) \<and> cache_frame st1 st' \<and> cache_ok img st'"
      proof (rule Suc.IH)
        show "\<forall>i \<le> nc + 1. file_block img st1 ip (base + i) = dev + int i"
          using Suc.prems(5) eq cache_frame_cong(3) [OF s1(2)] by (auto simp: le_Suc_eq)
      qed (use Suc.prems s1(3) False cache_frame_cong [OF s1(2)] in auto)
      then obtain nc' st' where "group_blocks dev_read ip dev (base + (nc + 1)) (nc + 1) m st1 = (nc', st')"
          "nc + 1 < nc'" "nc' \<le> nc + 1 + m" "\<forall>i < nc'. file_block img st1 ip (base + i) = dev + int i"
          "cache_frame st1 st'" "cache_ok img st'" by blast
      with s1 eq False cache_frame_trans [OF s1(2)] cache_frame_cong(3) [OF s1(2)] show ?thesis by auto
    qed
  qed
qed simp

lemma read_at_blocks:
  assumes g: "geometry_ok st" and n: "0 < n" and "\<forall>i < n. block_in img st (no + int i)"
  shows "read_at dev_read (int n * e2_blocksize st) (partition_offset st + no * e2_blocksize st)
           = (int n * e2_blocksize st, concat (map (\<lambda>i. block_at img st (no + int i)) [0..<n]))"
proof -
  define off bs where "off = nat (partition_offset st + no * e2_blocksize st)" and "bs = nat (e2_blocksize st)"
  have "block_in img st no" using assms(3) [rule_format, of 0] n by simp
  then have no: "0 \<le> no" by (simp add: block_in_def)
  have ints: "int off = partition_offset st + no * e2_blocksize st" "int bs = e2_blocksize st"
    using g no by (simp_all add: off_def bs_def geometry_ok_def)
  have "block_in img st (no + int (n - 1))" using assms(3) [rule_format, of "n - 1"] n by simp
  then have "partition_offset st + (no + int n) * e2_blocksize st \<le> int (length img)"
    using n by (simp add: block_in_def of_nat_diff algebra_simps)
  then have "int (off + n * bs) \<le> int (length img)" using ints by (simp add: algebra_simps)
  then have le: "off + n * bs \<le> length img" by (simp only: of_nat_le_iff)
  have "read_at dev_read (int (n * bs)) (int off) = (int (n * bs), slice off (n * bs) img)"
    using read_slice [OF le] by (simp add: read_at_def)
  moreover have "slice off (n * bs) img = concat (map (\<lambda>i. block_at img st (no + int i)) [0..<n])"
  proof -
    have "slice (off + i * bs) bs img = block_at img st (no + int i)" for i
    proof -
      have "int (off + i * bs) = partition_offset st + (no + int i) * e2_blocksize st"
        using ints by (simp add: algebra_simps)
      then show ?thesis by (metis block_at_def bs_def nat_int)
    qed
    then show ?thesis by (simp add: slice_blocks)
  qed
  ultimately show ?thesis using ints by simp
qed


lemma length_file_range:
  assumes "geometry_ok st" and "\<forall>i < n. data_ok img st ip (blkno + i)"
  shows "int (length (concat (map (\<lambda>i. file_data img st ip (blkno + i)) [0..<n]))) = int n * e2_blocksize st"
proof -
  have "length (file_data img st ip (blkno + i)) = nat (e2_blocksize st)" if "i < n" for i
    using assms that read_at_block(2) [OF assms(1), of "file_block img st ip (blkno + i)"]
    by (auto simp: file_data_def data_ok_def Let_def)
  then have "map (\<lambda>i. length (file_data img st ip (blkno + i))) [0..<n] = map (\<lambda>i. nat (e2_blocksize st)) [0..<n]"
    by (auto intro!: map_cong)
  then have "sum_list (map (\<lambda>i. length (file_data img st ip (blkno + i))) [0..<n]) = n * nat (e2_blocksize st)"
    by (simp only: sum_list_triv) (simp add: sum_list_triv)
  with assms(1) show ?thesis by (simp add: length_concat comp_def geometry_ok_def)
qed

lemma breadi_loop_data:
  assumes "geometry_ok st" and "cache_ok img st" and "\<forall>i < n. data_ok img st ip (blkno + i)"
  shows "\<exists>st'. ext2_breadi_loop dev_read ip blkno n buf st
             = ((int (length buf) + int n * e2_blocksize st,
                 buf @ concat (map (\<lambda>i. file_data img st ip (blkno + i)) [0..<n])), st')
           \<and> cache_frame st st' \<and> cache_ok img st'"
  using assms
proof (induction n arbitrary: blkno buf st rule: less_induct)
  case (less n)
  show ?case
  proof (cases "n = 0")
    case True
    with less.prems(2) show ?thesis by (subst ext2_breadi_loop.simps) (auto intro: cache_frame_refl)
  next
    case False
    define dev where "dev = file_block img st ip blkno"
    have ok: "data_ok img st ip (blkno + i)" if "i < n" for i using less.prems(3) that by blast
    then have mp: "map_ok img st ip (blkno + i)" if "i < n" for i using that by (simp add: data_ok_def)
    from blkno_map [OF less.prems(1,2) mp [of 0]] False obtain st1 where
      s1: "ext2_blkno dev_read ip blkno st = (dev, st1)" "cache_frame st st1" "cache_ok img st1"
      by (auto simp: dev_def)
    have g1: "geometry_ok st1" using less.prems(1) cache_frame_cong(5) [OF s1(2)] by simp
    have "\<exists>nc st'. group_blocks dev_read ip dev (blkno + 0) 0 n st1 = (nc, st') \<and> 0 < nc \<and> nc \<le> 0 + n
           \<and> (\<forall>i < nc. file_block img st1 ip (blkno + i) = dev + int i) \<and> cache_frame st1 st' \<and> cache_ok img st'"
      using g1 s1(3) False mp cache_frame_cong [OF s1(2)] by (intro group_blocks_map) (auto simp: dev_def)
    then obtain nc st2 where s2: "group_blocks dev_read ip dev blkno 0 n st1 = (nc, st2)" "0 < nc" "nc \<le> n"
        "\<forall>i < nc. file_block img st ip (blkno + i) = dev + int i" "cache_frame st1 st2" "cache_ok img st2"
      using cache_frame_cong(3) [OF s1(2)] by auto
    note fr = cache_frame_trans [OF s1(2) s2(5)]
    note f = cache_frame_fields [OF fr] and cg = cache_frame_cong [OF fr] and dt = cache_frame_data [OF fr]
    let ?bs = "e2_blocksize st"
    define d where "d = concat (map (\<lambda>i. file_data img st ip (blkno + i)) [0..<nc])"
    have bs: "0 < ?bs" using less.prems(1) by (simp add: geometry_ok_def)
    have step: "ext2_breadi_loop dev_read ip blkno n buf st = ext2_breadi_loop dev_read ip (blkno + nc) (n - nc) (buf @ d) st2"
      and len: "int (length d) = int nc * ?bs"
    proof -
      show "int (length d) = int nc * ?bs"
        unfolding d_def using ok s2(3) by (intro length_file_range [OF less.prems(1)]) auto
      show "ext2_breadi_loop dev_read ip blkno n buf st = ext2_breadi_loop dev_read ip (blkno + nc) (n - nc) (buf @ d) st2"
      proof (cases "dev = 0")
        case True
        have "nc = 1"
        proof (rule ccontr)
          assume "nc \<noteq> 1"
          then have "1 < nc" using s2(2) by simp
          with s2(3,4) True ok [of 1] show False by (auto simp: data_ok_def Let_def)
        qed
        then have "d = replicate (nat ?bs) 0" using True by (simp add: d_def file_data_def dev_def)
        with True False s1 s2 f \<open>nc = 1\<close> show ?thesis
          by (subst ext2_breadi_loop.simps) simp
      next
        case nz: False
        have blk: "block_in img st (dev + int i) \<and> dev + int i \<noteq> 0" if "i < nc" for i
        proof -
          have "0 < dev" using ok [of 0] False nz by (auto simp: data_ok_def Let_def dev_def)
          then show ?thesis using ok [of i] that s2(3,4) by (auto simp: data_ok_def Let_def)
        qed
        then have d: "d = concat (map (\<lambda>i. block_at img st (dev + int i)) [0..<nc])"
          unfolding d_def using s2(4) by (intro arg_cong [of _ _ concat] map_cong) (auto simp: file_data_def Let_def)
        have "read_at dev_read (int nc * ?bs) (partition_offset st + dev * ?bs) = (int nc * ?bs, d)"
          unfolding d using blk by (intro read_at_blocks [OF less.prems(1) s2(2)]) blast
        with nz False s1 s2 f show ?thesis by (subst ext2_breadi_loop.simps) simp
      qed
    qed
    have "\<exists>st'. ext2_breadi_loop dev_read ip (blkno + nc) (n - nc) (buf @ d) st2
        = ((int (length (buf @ d)) + int (n - nc) * e2_blocksize st2,
            (buf @ d) @ concat (map (\<lambda>i. file_data img st2 ip (blkno + nc + i)) [0..<n - nc])), st')
        \<and> cache_frame st2 st' \<and> cache_ok img st'"
      using s2(2,3,6) less.prems(1,3) cg dt False by (intro less.IH) (auto simp: add.assoc)
    then obtain st' where st': "ext2_breadi_loop dev_read ip (blkno + nc) (n - nc) (buf @ d) st2
        = ((int (length (buf @ d)) + int (n - nc) * ?bs,
            (buf @ d) @ concat (map (\<lambda>i. file_data img st ip (blkno + nc + i)) [0..<n - nc])), st')"
        "cache_frame st2 st'" "cache_ok img st'"
      unfolding f dt by blast
    have "d @ concat (map (\<lambda>i. file_data img st ip (blkno + nc + i)) [0..<n - nc])
        = concat (map (\<lambda>i. file_data img st ip (blkno + i)) [0..<nc + (n - nc)])"
    proof -
      have "[nc..<nc + (n - nc)] = map (\<lambda>i. i + nc) [0..<n - nc]" by (simp add: map_add_upt add.commute)
      then show ?thesis unfolding d_def upt_add_eq_append [OF le0] by (simp add: comp_def add_ac)
    qed
    moreover have "int (length (buf @ d)) + int (n - nc) * ?bs = int (length buf) + int n * ?bs"
      using len s2(3) by (simp add: of_nat_diff algebra_simps)
    ultimately show ?thesis
      using st' step s2(3) cache_frame_trans [OF fr st'(2)] by auto
  qed
qed

end

subsection \<open>What reading leaves alone\<close>

lemma cache_frameI:
  "cache_frame st (st\<lparr>iblkbuf := a\<rparr>)" "cache_frame st (st\<lparr>iblkbuf := a, cached_iblkno := b\<rparr>)"
  "cache_frame st (st\<lparr>diblkbuf := c\<rparr>)" "cache_frame st (st\<lparr>diblkbuf := c, cached_diblkno := d\<rparr>)"
proof -
  have all: "cache_frame st (st\<lparr>iblkbuf := a, cached_iblkno := b, diblkbuf := c, cached_diblkno := d\<rparr>)" for a b c d
    unfolding cache_frame_def by blast
  from all [where b = "cached_iblkno st" and c = "diblkbuf st" and d = "cached_diblkno st"]
    all [where c = "diblkbuf st" and d = "cached_diblkno st"]
    all [where a = "iblkbuf st" and b = "cached_iblkno st" and d = "cached_diblkno st"]
    all [where a = "iblkbuf st" and b = "cached_iblkno st"]
  show "cache_frame st (st\<lparr>iblkbuf := a\<rparr>)" "cache_frame st (st\<lparr>iblkbuf := a, cached_iblkno := b\<rparr>)"
    "cache_frame st (st\<lparr>diblkbuf := c\<rparr>)" "cache_frame st (st\<lparr>diblkbuf := c, cached_diblkno := d\<rparr>)" by simp_all
qed

lemma read_iblk_frame: "cache_frame st (snd (read_iblk rd no st))"
  by (simp add: read_iblk_def Let_def cache_frameI cache_frame_refl split: prod.split)

lemma read_diblk_frame: "cache_frame st (snd (read_diblk rd no st))"
  by (simp add: read_diblk_def Let_def cache_frameI cache_frame_refl split: prod.split)

lemma ext2_blkno_frame: "cache_frame st (snd (ext2_blkno rd ip blk st))"
proof -
  have i: "cache_frame st st'" if "read_iblk rd no st = (r, st')" for no r st' st
    using read_iblk_frame [of st rd no] that by simp
  have d: "cache_frame st st'" if "read_diblk rd no st = (r, st')" for no r st'
    using read_diblk_frame [of st rd no] that by simp
  show ?thesis
    by (auto simp: ext2_blkno_def Let_def intro: cache_frame_refl i d cache_frame_trans [OF d i] split: prod.split bool.split)
qed

lemma group_blocks_frame: "cache_frame st (snd (group_blocks rd ip dev blkno nc m st))"
proof (induction m arbitrary: blkno nc st)
  case (Suc m)
  have "cache_frame st st'" if "ext2_blkno rd ip (blkno + 1) st = (b, st')" for b st'
    using ext2_blkno_frame [of st rd ip "blkno + 1"] that by simp
  with Suc show ?case
    by (auto simp: Let_def intro: cache_frame_refl cache_frame_trans split: prod.split)
qed (simp add: cache_frame_refl)

lemma breadi_loop_frame: "cache_frame st (snd (ext2_breadi_loop rd ip blkno n buf st))"
proof (induction n arbitrary: blkno buf st rule: less_induct)
  case (less n)
  show ?case
  proof (cases "n = 0")
    case True
    then show ?thesis by (subst ext2_breadi_loop.simps) (simp add: cache_frame_refl)
  next
    case False
    obtain dev st1 nc st2 where s: "ext2_blkno rd ip blkno st = (dev, st1)" "group_blocks rd ip dev blkno 0 n st1 = (nc, st2)"
      by (metis surj_pair)
    have fr: "cache_frame st st2"
      using ext2_blkno_frame [of st rd ip blkno] group_blocks_frame [of st1 rd ip dev blkno 0 n] s
      by (auto intro: cache_frame_trans)
    have "0 < nc" using group_blocks_bounds [of n 0 rd ip dev blkno st1] s False by simp
    then have "cache_frame st (snd (ext2_breadi_loop rd ip (blkno + nc) (n - nc) b st2))" for b
      using less [of "n - nc" st2] False by (intro cache_frame_trans [OF fr]) simp
    with False s fr show ?thesis
      by (subst ext2_breadi_loop.simps) (auto simp: Let_def split: prod.split)
  qed
qed

lemma extn_breadi_frame: "extn_breadi rd ip blkno n st = Some (r, st') \<Longrightarrow> cache_frame st st'"
  using breadi_loop_frame [of st rd ip blkno "nat (clip_blocks ip blkno n st)" "[]"]
  by (auto simp: extn_breadi_def ext2_breadi_def Let_def cache_frame_refl split: if_splits)

text \<open>Directory reading changes block buffers and positions, not the inode table.\<close>

definition same_inodes :: "ext2_state \<Rightarrow> ext2_state \<Rightarrow> bool" where
  "same_inodes st st' \<longleftrightarrow> inode_table st' = inode_table st \<and> root_inode st' = root_inode st"

lemma read_dir_block_inodes: "read_dir_block rd ip blk st = Some (r, st') \<Longrightarrow> same_inodes st st'"
  by (auto simp: read_dir_block_def same_inodes_def cache_frame_fields split: option.splits dest!: extn_breadi_frame)

lemma readdiri_inodes: "ext2_readdiri rd ip rewind st = Some (r, st') \<Longrightarrow> same_inodes st st'"
proof -
  assume r: "ext2_readdiri rd ip rewind st = Some (r, st')"
  have n: "same_inodes s s'" if "next_entry s = Some (q, s')" for s q s'
    using that by (auto simp: next_entry_def same_inodes_def Let_def split: if_splits)
  show ?thesis
    using r
    by (auto simp: ext2_readdiri_def Let_def same_inodes_def
        split: option.splits prod.splits bool.splits if_splits dest!: read_dir_block_inodes n)
qed

lemma search_dir_inodes: "search_dir f rd ip c rewind st = Some (r, st') \<Longrightarrow> same_inodes st st'"
proof (induction f arbitrary: rewind st)
  case (Suc f)
  from Suc.prems show ?case
    by (auto split: option.splits prod.splits if_splits dest!: readdiri_inodes dest: Suc.IH simp: same_inodes_def)
qed simp


subsection \<open>Slots of the inode table\<close>

definition used :: "ext2_state \<Rightarrow> nat set" where
  "used st = {i. i < length (inode_table st) \<and> \<not> slot_free (inode_table st ! i)}"

lemma same_inodes_used: "same_inodes st st' \<Longrightarrow> used st' = used st"
  by (simp add: same_inodes_def used_def)

lemma find_free_Some:
  "find_free es n = Some i \<Longrightarrow> n \<le> i \<and> i < n + length es \<and> slot_free (es ! (i - n))"
  by (induction es arbitrary: n) (fastforce simp: nth_Cons' split: if_splits)+

lemma ext2_iget_slot:
  assumes "ext2_iget rd ino st = Some (r, st')"
  shows "root_inode st' = root_inode st" and "length (inode_table st') = length (inode_table st)"
    and "r = None \<Longrightarrow> used st' = used st"
    and "r = Some i \<Longrightarrow> i < length (inode_table st) \<and> i \<notin> used st \<and> used st' = insert i (used st)"
  using assms
  by (auto simp: ext2_iget_def used_def Let_def nth_list_update dest!: find_free_Some
      split: option.splits prod.splits if_splits)

lemma ext2_iput_used: "used (ext2_iput i st) = used st - {i}"
proof (rule set_eqI)
  fix x
  show "x \<in> used (ext2_iput i st) \<longleftrightarrow> x \<in> used st - {i}"
    by (cases "x = i") (auto simp: ext2_iput_def used_def)
qed

lemma ext2_iput_root: "root_inode (ext2_iput i st) = root_inode st" "length (inode_table (ext2_iput i st)) = length (inode_table st)"
  by (simp_all add: ext2_iput_def)

text \<open>A directory that has been searched is given back, unless it is the root.\<close>

definition walk_base :: "nat set \<Rightarrow> nat \<Rightarrow> nat option \<Rightarrow> nat set" where
  "walk_base U dir root = (if root = Some dir then U else U - {dir})"

definition root_held :: "ext2_state \<Rightarrow> bool" where
  "root_held st \<longleftrightarrow> (\<forall>r. root_inode st = Some r \<longrightarrow> r \<in> used st)"

lemma namei_walk_used:
  "namei_walk f rd cs dir st = Some (r, st') \<Longrightarrow> dir \<in> used st \<Longrightarrow> root_held st \<Longrightarrow>
     root_inode st' = root_inode st
     \<and> (case r of
          None \<Rightarrow> used st' = walk_base (used st) dir (root_inode st)
        | Some i \<Rightarrow> used st' = insert i (walk_base (used st) dir (root_inode st))
            \<and> (if cs = [] then i = dir else i \<notin> walk_base (used st) dir (root_inode st)))"
proof (induction cs arbitrary: dir st)
  case Nil
  then show ?case by (auto simp: walk_base_def)
next
  case (Cons c cs)
  define ip where "ip = slot_inode (inode_table st ! dir)"
  from Cons.prems(1) obtain ino st1 where s1: "search_dir f rd ip c True st = Some (ino, st1)"
    by (auto simp: ip_def split: option.splits)
  define st2 where "st2 = (if root_inode st1 \<noteq> Some dir then ext2_iput dir st1 else st1)"
  note si = search_dir_inodes [OF s1]
  have u2: "used st2 = walk_base (used st) dir (root_inode st)" "root_inode st2 = root_inode st"
    using same_inodes_used [OF si] si
    by (auto simp: st2_def ext2_iput_used ext2_iput_root walk_base_def same_inodes_def)
  show ?case
  proof (cases "ino < 0")
    case True
    with Cons.prems(1) s1 u2 show ?thesis by (auto simp: ip_def st2_def)
  next
    case False
    with Cons.prems(1) s1 obtain q st3 where s3: "ext2_iget rd ino st2 = Some (q, st3)"
      by (auto simp: ip_def st2_def Let_def split: option.splits)
    note g = ext2_iget_slot [OF s3]
    show ?thesis
    proof (cases q)
      case None
      with Cons.prems(1) s1 s3 False u2 g show ?thesis by (auto simp: ip_def st2_def Let_def)
    next
      case (Some d)
      with Cons.prems(1) s1 s3 False have w: "namei_walk f rd cs d st3 = Some (r, st')"
        by (auto simp: ip_def st2_def Let_def)
      have d: "d \<notin> used st2" "used st3 = insert d (used st2)" using g(4) [of d] Some by auto
      have root: "root_inode st2 \<noteq> Some d" "root_held st3"
        using d u2 g(1) Cons.prems(3) by (auto simp: root_held_def walk_base_def split: if_splits)
      from Cons.IH [OF w _ root(2)] d g(1) have ih: "root_inode st' = root_inode st2"
        "case r of None \<Rightarrow> used st' = walk_base (insert d (used st2)) d (root_inode st2)
         | Some i \<Rightarrow> used st' = insert i (walk_base (insert d (used st2)) d (root_inode st2))
             \<and> (if cs = [] then i = d else i \<notin> walk_base (insert d (used st2)) d (root_inode st2))"
        by (auto split: option.splits)
      have "walk_base (insert d (used st2)) d (root_inode st2) = used st2"
        using d root by (auto simp: walk_base_def)
      then show ?thesis using ih d u2 by (cases r) (auto split: if_splits)
    qed
  qed
qed

lemma get_root_used:
  assumes "get_root rd st = Some (q, st')" and "root_held st"
  shows "root_held st'" and "used st' = used st \<union> set_option (root_inode st')" and "root_inode st' = q"
proof -
  have "root_held st' \<and> used st' = used st \<union> set_option (root_inode st') \<and> root_inode st' = q"
  proof (cases "root_inode st")
    case (Some r)
    with assms show ?thesis by (auto simp: get_root_def root_held_def)
  next
    case None
    with assms(1) obtain st1 where "ext2_iget rd EXT2_ROOT_INO st = Some (q, st1)" "st' = st1\<lparr>root_inode := q\<rparr>"
      by (auto simp: get_root_def split: option.splits)
    moreover have "used (st1\<lparr>root_inode := q\<rparr>) = used st1" by (simp add: used_def)
    ultimately show ?thesis using ext2_iget_slot(3,4) [of rd EXT2_ROOT_INO st q st1]
      by (cases q) (auto simp: root_held_def)
  qed
  then show "root_held st'" and "used st' = used st \<union> set_option (root_inode st')" and "root_inode st' = q" by blast+
qed

text \<open>An example: a mounted file system with the root inode in slot 0.\<close>

definition example_slot :: inode_table_entry where
  "example_slot = \<lparr>slot_inode = replicate 128 0, slot_inumber = 0, slot_free = True, slot_old_mode = 0\<rparr>"

definition example_ext2 :: ext2_state where
  "example_ext2 =
     \<lparr>e2_sb = replicate 1024 0, gds = [], root_inode = Some 0, ngroups = 1, directlim = 11, ind1lim = 267,
      ind2lim = 65547, ptrs_per_blk = 256, blkbuf = replicate 1024 0, cached_iblkno = - 1,
      iblkbuf = replicate 1024 0, cached_diblkno = - 1, diblkbuf = replicate 1024 0, partition_offset = 0,
      inode_table = [example_slot\<lparr>slot_free := False\<rparr>, example_slot, example_slot, example_slot, example_slot],
      e2_blocksize = 1024, diroffset = 0, blockoffset = 0\<rparr>"

text \<open>
  Path lookup does not leak inode slots: when the root inode is held, a failed lookup leaves
  exactly the slots in use that were in use before (and the root's), and a successful one adds the
  slot of the inode it returns, which was free, and no other.
\<close>

theorem ext2_namei_slots:
  assumes "ext2_namei f rd name st = Some (r, st')" and "root_held st"
  shows "root_held st'
     \<and> (case r of
          None \<Rightarrow> used st' = used st \<union> set_option (root_inode st')
        | Some i \<Rightarrow> used st' = insert i (used st \<union> set_option (root_inode st'))
            \<and> (i \<notin> used st \<or> root_inode st' = Some i))"
proof -
  from assms(1) obtain q st1 where r: "get_root rd st = Some (q, st1)"
    by (auto simp: ext2_namei_def split: if_splits option.splits)
  note g = get_root_used [OF r assms(2)]
  show ?thesis
  proof (cases q)
    case None
    with assms(1) r g show ?thesis by (auto simp: ext2_namei_def split: if_splits)
  next
    case (Some d)
    with assms(1) r have w: "namei_walk f rd (tokens {47} name) d st1 = Some (r, st')"
      by (auto simp: ext2_namei_def split: if_splits)
    have d: "root_inode st1 = Some d" "d \<in> used st1" using g Some by (auto simp: root_held_def)
    then have "walk_base (used st1) d (root_inode st1) = used st1" by (simp add: walk_base_def)
    with namei_walk_used [OF w d(2) g(1)] d g show ?thesis
      by (cases r) (auto simp: root_held_def split: if_splits)
  qed
qed

theorem ext2_namei_slots_witness:
  "\<exists>st'. ext2_namei 1 (\<lambda>_ _. (0, [])) [47] example_ext2 = Some (Some 0, st') \<and> root_held st'
     \<and> used st' = insert 0 (used example_ext2 \<union> set_option (root_inode st'))"
proof -
  have "ext2_namei 1 (\<lambda>_ _. (0, [])) [47] example_ext2 = Some (Some 0, example_ext2)"
    by (simp add: ext2_namei_def get_root_def example_ext2_def tokens_none)
  moreover have "root_held example_ext2" by (simp add: root_held_def used_def example_ext2_def)
  ultimately show ?thesis using ext2_namei_slots by fastforce
qed


subsection \<open>Symbolic links\<close>

lemma le_word_zeros [simp]: "le_word (replicate n 0) = 0"
  by (induction n) simp_all

lemma ext2_iget_other:
  assumes "ext2_iget rd ino st = Some (q, st')" and "r \<in> used st"
  shows "inode_table st' ! r = inode_table st ! r"
proof (cases "find_free (inode_table st) 0")
  case None
  with assms(1) show ?thesis by (simp add: ext2_iget_def)
next
  case (Some i)
  then have "i \<noteq> r" using find_free_Some [of "inode_table st" 0 i] assms(2) by (auto simp: used_def)
  with Some assms(1) show ?thesis by (auto simp: ext2_iget_def Let_def split: option.splits prod.splits if_splits)
qed

lemma namei_walk_root:
  "namei_walk f rd cs dir st = Some (q, st') \<Longrightarrow> root_inode st = Some r \<Longrightarrow> r \<in> used st \<Longrightarrow> dir \<in> used st \<Longrightarrow>
     slot_inode (inode_table st' ! r) = slot_inode (inode_table st ! r)
     \<and> length (inode_table st') = length (inode_table st) \<and> root_inode st' = Some r"
proof (induction cs arbitrary: dir st)
  case Nil
  then show ?case by simp
next
  case (Cons c cs)
  define ip where "ip = slot_inode (inode_table st ! dir)"
  from Cons.prems(1) obtain ino st1 where s1: "search_dir f rd ip c True st = Some (ino, st1)"
    by (auto simp: ip_def split: option.splits)
  define st2 where "st2 = (if root_inode st1 \<noteq> Some dir then ext2_iput dir st1 else st1)"
  note si = search_dir_inodes [OF s1]
  have st2: "root_inode st2 = Some r" "r \<in> used st2" "length (inode_table st2) = length (inode_table st)"
      "slot_inode (inode_table st2 ! r) = slot_inode (inode_table st ! r)"
    using same_inodes_used [OF si] si Cons.prems(2,3)
    by (auto simp: st2_def ext2_iput_used ext2_iput_root same_inodes_def ext2_iput_def nth_list_update used_def)
  show ?case
  proof (cases "ino < 0")
    case True
    with Cons.prems(1) s1 st2 show ?thesis by (auto simp: ip_def st2_def)
  next
    case False
    with Cons.prems(1) s1 obtain p st3 where s3: "ext2_iget rd ino st2 = Some (p, st3)"
      by (auto simp: ip_def st2_def Let_def split: option.splits)
    have st3: "slot_inode (inode_table st3 ! r) = slot_inode (inode_table st2 ! r)"
      using ext2_iget_other [OF s3 st2(2)] by simp
    note g = ext2_iget_slot [OF s3]
    show ?thesis
    proof (cases p)
      case None
      with Cons.prems(1) s1 s3 False st2 st3 g show ?thesis by (auto simp: ip_def st2_def Let_def)
    next
      case (Some d)
      with Cons.prems(1) s1 s3 False have "namei_walk f rd cs d st3 = Some (q, st')"
        by (auto simp: ip_def st2_def Let_def)
      from Cons.IH [OF this] g(1,2) g(4) [of d] Some st2 st3 show ?thesis by auto
    qed
  qed
qed

lemma follow_link_slots:
  assumes "ext2_follow_link f rd i base st = Some (Some j, st')"
    and "root_inode st = Some r" and "r \<in> used st"
  shows "root_inode st' = Some r" and "slot_inode (inode_table st' ! r) = slot_inode (inode_table st ! r)"
    and "length (inode_table st') = length (inode_table st)"
    and "used st' = insert j (used st)" and "j \<notin> used st \<or> j = r"
proof -
  from assms(1) obtain name s where n: "ext2_namei f rd name s = Some (Some j, st')" and s: "same_inodes st s"
    by (auto simp: ext2_follow_link_def Let_def same_inodes_def cache_frame_fields
        split: if_splits option.splits dest!: extn_breadi_frame)
  have h: "root_held s" "root_inode s = Some r" "r \<in> used s" "used s = used st"
    using assms(2,3) s same_inodes_used [OF s] by (auto simp: root_held_def same_inodes_def)
  have w: "namei_walk f rd (tokens {47} name) r s = Some (Some j, st')"
    using n h(2) by (auto simp: ext2_namei_def get_root_def split: if_splits)
  from namei_walk_root [OF w h(2,3,3)] s show
    "root_inode st' = Some r" "slot_inode (inode_table st' ! r) = slot_inode (inode_table st ! r)"
    "length (inode_table st') = length (inode_table st)"
    by (simp_all add: same_inodes_def)
  from namei_walk_used [OF w h(3,1)] h show "used st' = insert j (used st)" "j \<notin> used st \<or> j = r"
    by (auto simp: walk_base_def split: if_splits)
qed

definition free_slots :: "ext2_state \<Rightarrow> nat" where
  "free_slots st = length (inode_table st) - card (used st)"

lemma used_finite: "finite (used st)" "used st \<subseteq> {..<length (inode_table st)}"
  by (auto simp: used_def)

lemma follow_links_bound:
  assumes "root_inode st = Some r" and "r \<in> used st"
    and "\<not> S_ISLNK (i_mode (slot_inode (inode_table st ! r)))" and "free_slots st + 2 \<le> k"
  shows "follow_links (k + n) f rd filename i st = follow_links k f rd filename i st"
  using assms
proof (induction k arbitrary: i st)
  case (Suc k)
  show ?case
  proof (cases "S_ISLNK (i_mode (slot_inode (inode_table st ! i)))")
    case False
    then show ?thesis by simp
  next
    case link: True
    show ?thesis
    proof (cases "\<exists>j st'. ext2_follow_link f rd i filename st = Some (Some j, st')")
      case False
      then show ?thesis using link by (auto split: option.splits prod.splits)
    next
      case True
      then obtain j st' where fl: "ext2_follow_link f rd i filename st = Some (Some j, st')" by blast
      note sl = follow_link_slots [OF fl Suc.prems(1,2)]
      have "follow_links (k + n) f rd filename j st' = follow_links k f rd filename j st'"
      proof (cases "j = r")
        case True
        obtain k' where "k = Suc k'" using Suc.prems(4) by (cases k) auto
        then show ?thesis using True sl(2) Suc.prems(3) by simp
      next
        case False
        then have "card (used st') = Suc (card (used st))" using sl(4,5) used_finite by simp
        moreover have "card (used st') \<le> length (inode_table st')"
          using card_mono [OF _ used_finite(2) [of st']] by simp
        ultimately have "free_slots st' + 2 \<le> k" using Suc.prems(4) sl(3) by (simp add: free_slots_def)
        then show ?thesis using Suc.prems sl by (intro Suc.IH) auto
      qed
      then show ?thesis using link fl by simp
    qed
  qed
qed simp



subsection \<open>Properties of the block map\<close>

text \<open>
  The one-block caches of the indirect blocks are invisible: \<open>ext2_blkno\<close> returns the block number
  that the block map on disk gives, in the direct, single- and double-indirect range alike, and keeps
  the caches consistent with the disk.
\<close>

theorem ext2_blkno_cached:
  assumes "sector_device img rd" and "SECT_SIZE dvd length img"
    and "geometry_ok st" and "cache_ok img st" and "map_ok img st ip blk"
  shows "\<exists>st'. ext2_blkno (cons_read rd) ip blk st = (file_block img st ip blk, st')
           \<and> cache_frame st st' \<and> cache_ok img st'"
  by (rule block_device.blkno_map [OF cons_block_device]) (use assms in auto)

theorem ext2_blkno_cached_witness:
  "\<exists>st'. ext2_blkno (cons_read (image_read (replicate 4096 7))) (replicate 128 0) 12 example_ext2
       = (file_block (replicate 4096 7) example_ext2 (replicate 128 0) 12, st')
     \<and> cache_frame example_ext2 st' \<and> cache_ok (replicate 4096 7) st'"
proof -
  have z: "i_block (replicate 128 0) n = 0" if "n < 22" for n
    using that by (simp add: i_block_def le32_at_def slice_def min_def)
  show ?thesis
    by (rule ext2_blkno_cached)
      (simp_all add: SECT_SIZE_def geometry_ok_def cache_ok_def map_ok_def example_ext2_def EXT2_IND_BLOCK_def EXT2_DIND_BLOCK_def z)
qed


definition example_inode :: bytes where
  "example_inode = replicate 4 0 @ [0xb8, 0x0b, 0, 0] @ replicate 32 0 @ [3, 0, 0, 0] @ replicate 84 0"

lemma example_inode_fields:
  "i_flags example_inode = 0" "i_size example_inode = 3000" "i_block example_inode 0 = 3" "i_block example_inode (Suc 0) = 0"
  by (simp_all add: example_inode_def i_flags_def i_size_def i_block_def le32_at_def slice_def)


subsection \<open>Mounting again\<close>

text \<open>
  Mounting replaces the indirect-block buffers but not the record of what they hold.  After a second
  successful mount, a file whose single-indirect block is the one remembered from before is mapped
  through the uninitialised contents of the new buffer, and the disk is not consulted.
\<close>

theorem ext2_remount_stale:
  assumes "ext2_mount rd (b1, b2, b3) p_offset st = (0, st')"
    and "cached_iblkno st = sint (i_block ip EXT2_IND_BLOCK)" and "cached_iblkno st \<noteq> 0"
    and "12 \<le> blk" and "int blk < 12 + ptrs_per_blk st'"
  shows "fst (ext2_blkno rd' ip blk st') = ptr_at b2 (int blk - 12)"
proof -
  have "cached_iblkno st' = cached_iblkno st" "iblkbuf st' = b2" "directlim st' = 11" "ind1lim st' = ptrs_per_blk st' + 11"
    using assms(1) by (auto simp: ext2_mount_def Let_def EXT2_NDIR_BLOCKS_def split: prod.splits if_splits)
  with assms(2-5) show ?thesis by (simp add: ext2_blkno_def read_iblk_def)
qed

definition example_sb :: bytes where
  "example_sb = replicate 32 0 @ [0, 32, 0, 0] @ replicate 20 0 @ [0x53, 0xef] @ replicate 966 0"

lemma example_sb_fields:
  "length example_sb = 1024" "s_magic example_sb = 0xef53" "s_log_block_size example_sb = 0"
  by (simp_all add: example_sb_def s_magic_def s_log_block_size_def le16_at_def le32_at_def slice_def)

theorem ext2_remount_stale_witness:
  "fst (ext2_blkno (\<lambda>_ _. (- 1, [])) (replicate 88 0 @ [9, 0, 0, 0] @ replicate 36 0) 12
     (snd (ext2_mount (\<lambda>n _. (n, example_sb)) ([], [5, 0, 0, 0], []) 0 (example_ext2\<lparr>cached_iblkno := 9\<rparr>)))) = 5"
proof -
  let ?m = "ext2_mount (\<lambda>n _. (n, example_sb)) ([], [5, 0, 0, 0], []) 0 (example_ext2\<lparr>cached_iblkno := 9\<rparr>)"
  let ?ip = "replicate 88 0 @ [9, 0, 0, 0] @ replicate 36 0 :: bytes"
  have "drop 1024 (replicate 1024 (0 :: u8)) = []" by simp
  then have m: "fst ?m = 0" "ptrs_per_blk (snd ?m) = 256"
    by (simp_all add: ext2_mount_def Let_def read_at_def example_ext2_def example_sb_fields sizeof_sb_def
        EXT2_SUPER_MAGIC_def EXT2_MIN_BLOCK_SIZE_def block_size_of_def)
  have "fst (ext2_blkno (\<lambda>_ _. (- 1, [])) ?ip 12 (snd ?m)) = ptr_at [5, 0, 0, 0] (int 12 - 12)"
    by (rule ext2_remount_stale [where st = "example_ext2\<lparr>cached_iblkno := 9\<rparr>"])
      (use m in \<open>simp_all add: prod_eq_iff i_block_def le32_at_def slice_def EXT2_IND_BLOCK_def\<close>)
  then show ?thesis by (simp add: ptr_at_def le32_at_def slice_def)
qed


end
