(* ===== verification/Ufs.thy ===== *)
theory Ufs
  imports Ext2
begin

text \<open>
  The reader for the Berkeley fast file system (\<^verbatim>\<open>src/fs/ufs.c\<close>, \<^verbatim>\<open>src/include/ufs.h\<close>): mounting, inodes, the
  block map with one cached block per level of indirection, reading of block ranges with fragments, directory search and
  path lookup.

  Super-block, inodes and directory entries stay byte strings with little-endian fields.  \<open>daddr_t\<close> is a 32-bit \<open>int\<close> and \<open>ino_t\<close> a
  32-bit \<open>unsigned int\<close>, as in the C library of the Alpha.  The products that turn block numbers into byte
  offsets are computed in \<open>int\<close> and wrap.  Shift counts of the super-block are taken as they are.

  The globals are the record \<open>ufs_state\<close>, an entry of the inode table is a \<open>ufs_file\<close>; a pointer into the table is an index.
  Operations that can read outside their buffers, divide by zero, dereference \<open>NULL\<close> or loop forever return an option, and \<^const>\<open>None\<close>
  means that the code has no defined result there.  Sizes passed to \<open>malloc\<close> are logged in the file entry; \<open>free\<close> does nothing.
\<close>

subsection \<open>Constants\<close>

definition DEV_BSIZE :: u32 where "DEV_BSIZE = 512"
definition SBSIZE :: int where "SBSIZE = 8192"
definition SBLOCK :: int where "SBLOCK = 16"
definition MAXBSIZE :: int where "MAXBSIZE = 8192"
definition MAXPATHLEN :: nat where "MAXPATHLEN = 1024"
definition NDADDR :: int where "NDADDR = 12"
definition NIADDR :: nat where "NIADDR = 3"
definition ROOTINO :: u32 where "ROOTINO = 2"
definition FS_MAGIC :: u32 where "FS_MAGIC = 0x011954"
definition IFMT :: u16 where "IFMT = 0xf000"
definition IFDIR :: u16 where "IFDIR = 0x4000"
definition IFLNK :: u16 where "IFLNK = 0xa000"

subsection \<open>The super-block\<close>

text \<open>\<open>struct fs\<close>: all fields up to \<open>fs_magic\<close> are 32 bits wide but for one array of characters and one of shorts.\<close>

definition sizeof_fs :: int where "sizeof_fs = 1380"

definition fs_iblkno :: "bytes \<Rightarrow> u32" where "fs_iblkno fs = le32_at fs 16"
definition fs_cgoffset :: "bytes \<Rightarrow> u32" where "fs_cgoffset fs = le32_at fs 24"
definition fs_cgmask :: "bytes \<Rightarrow> u32" where "fs_cgmask fs = le32_at fs 28"
definition fs_bsize :: "bytes \<Rightarrow> int" where "fs_bsize fs = sint (le32_at fs 48)"
definition fs_fsize :: "bytes \<Rightarrow> int" where "fs_fsize fs = sint (le32_at fs 52)"
definition fs_bmask :: "bytes \<Rightarrow> int" where "fs_bmask fs = sint (le32_at fs 72)"
definition fs_fmask :: "bytes \<Rightarrow> int" where "fs_fmask fs = sint (le32_at fs 76)"
definition fs_bshift :: "bytes \<Rightarrow> nat" where "fs_bshift fs = unat (le32_at fs 80)"
definition fs_fshift :: "bytes \<Rightarrow> nat" where "fs_fshift fs = unat (le32_at fs 84)"
definition fs_fragshift :: "bytes \<Rightarrow> nat" where "fs_fragshift fs = unat (le32_at fs 96)"
definition fs_fsbtodb :: "bytes \<Rightarrow> nat" where "fs_fsbtodb fs = unat (le32_at fs 100)"
definition fs_nindir :: "bytes \<Rightarrow> u32" where "fs_nindir fs = le32_at fs 116"
definition fs_inopb :: "bytes \<Rightarrow> u32" where "fs_inopb fs = le32_at fs 120"
definition fs_ipg :: "bytes \<Rightarrow> u32" where "fs_ipg fs = le32_at fs 184"
definition fs_fpg :: "bytes \<Rightarrow> u32" where "fs_fpg fs = le32_at fs 188"
definition fs_magic :: "bytes \<Rightarrow> u32" where "fs_magic fs = le32_at fs 1372"

text \<open>The macros for addresses inside the file system.\<close>

definition fsbtodb :: "bytes \<Rightarrow> int \<Rightarrow> u32" where
  "fsbtodb fs b = push_bit (fs_fsbtodb fs) (word_of_int b)"

definition cgbase :: "bytes \<Rightarrow> u32 \<Rightarrow> u32" where
  "cgbase fs c = fs_fpg fs * c"

definition cgstart :: "bytes \<Rightarrow> u32 \<Rightarrow> u32" where
  "cgstart fs c = cgbase fs c + fs_cgoffset fs * (c AND NOT (fs_cgmask fs))"

definition cgimin :: "bytes \<Rightarrow> u32 \<Rightarrow> u32" where
  "cgimin fs c = cgstart fs c + fs_iblkno fs"

definition itoo :: "bytes \<Rightarrow> u32 \<Rightarrow> nat" where
  "itoo fs x = unat (x mod fs_inopb fs)"

definition itod :: "bytes \<Rightarrow> u32 \<Rightarrow> int" where
  "itod fs x = sint (cgimin fs (x div fs_ipg fs) + push_bit (fs_fragshift fs) (x mod fs_ipg fs div fs_inopb fs))"

definition blkoff :: "bytes \<Rightarrow> int \<Rightarrow> int" where
  "blkoff fs loc = loc AND NOT (fs_bmask fs)"

definition numfrags :: "bytes \<Rightarrow> int \<Rightarrow> int" where
  "numfrags fs loc = drop_bit (fs_fshift fs) loc"

definition fragroundup :: "bytes \<Rightarrow> int \<Rightarrow> int" where
  "fragroundup fs sz = (sz + fs_fsize fs - 1) AND fs_fmask fs"

subsection \<open>State\<close>

text \<open>\<open>struct icommon\<close>, the 128 bytes of an inode.\<close>

definition sizeof_dinode :: nat where "sizeof_dinode = 128"
definition ic_mode :: "bytes \<Rightarrow> u16" where "ic_mode ic = le16_at ic 0"
definition ic_size :: "bytes \<Rightarrow> int" where "ic_size ic = sint (le_word (slice 8 8 ic) :: u64)"
definition ic_db :: "bytes \<Rightarrow> nat \<Rightarrow> int" where "ic_db ic i = sint (le32_at ic (40 + 4 * i))"
definition ic_ib :: "bytes \<Rightarrow> nat \<Rightarrow> int" where "ic_ib ic i = sint (le32_at ic (88 + 4 * i))"

record ufs_file =
  f_inuse :: int
  i_ic :: bytes
  f_nindir :: "u32 list"
  f_blk :: "bytes option list"
  f_blkno :: "int list"
  f_buf :: bytes
  f_allocated :: "nat list"

record ufs_state =
  ufs_partition_offset :: int
  ufs_sb :: bytes
  ufs_blocksize :: int
  ufs_table :: "ufs_file list"

definition zero_file :: ufs_file where
  "zero_file = \<lparr>f_inuse = 0, i_ic = replicate 128 0, f_nindir = replicate (NIADDR + 1) 0, f_blk = replicate NIADDR None,
     f_blkno = replicate NIADDR 0, f_buf = [], f_allocated = []\<rparr>"

text \<open>The byte offset of a block: the product is an \<open>int\<close>.\<close>

definition db_offset :: "ufs_state \<Rightarrow> int \<Rightarrow> int" where
  "db_offset st b = sint (fsbtodb (ufs_sb st) b * DEV_BSIZE) + ufs_partition_offset st"

definition blksize :: "bytes \<Rightarrow> bytes \<Rightarrow> int \<Rightarrow> int" where
  "blksize fs ic lbn =
     (if lbn \<ge> NDADDR \<or> ic_size ic \<ge> push_bit (fs_bshift fs) (lbn + 1) then fs_bsize fs
      else fragroundup fs (blkoff fs (ic_size ic)))"

subsection \<open>Inodes\<close>

text \<open>The result of \<open>read_inode\<close> is 0, or 1 on a read error.\<close>

definition read_inode :: "reader \<Rightarrow> ufs_state \<Rightarrow> u32 \<Rightarrow> ufs_file \<Rightarrow> (int \<times> ufs_file) option" where
  "read_inode rd st inumber fp =
     (let fs = ufs_sb st
      in if fs_ipg fs = 0 \<or> fs_inopb fs = 0 then None
         else
           let (n, d) = read_at rd (fs_bsize fs) (db_offset st (itod fs inumber));
               fp = fp\<lparr>f_buf := overwrite d (f_buf fp)\<rparr>
           in if n \<noteq> fs_bsize fs then Some (1, fp)
              else if sizeof_dinode * (itoo fs inumber + 1) > length (f_buf fp) then None
              else Some (0, fp\<lparr>i_ic := slice (sizeof_dinode * itoo fs inumber) sizeof_dinode (f_buf fp),
                               f_blk := replicate NIADDR None, f_blkno := replicate NIADDR (- 1)\<rparr>))"

subsection \<open>The block map\<close>

text \<open>The level of indirection, and the block number relative to the first block of that level.\<close>

fun find_level :: "u32 list \<Rightarrow> nat \<Rightarrow> int \<Rightarrow> nat \<times> int" where
  "find_level [] level b = (level, b)"
| "find_level (n # ns) level b = (if b < sint n then (level, b) else find_level ns (Suc level) (b - sint n))"

text \<open>
  The block of one level, from the cache or from the disk.  A failed read leaves the new buffer under the
  old block number.
\<close>

definition read_indirect :: "reader \<Rightarrow> ufs_state \<Rightarrow> nat \<Rightarrow> int \<Rightarrow> ufs_file \<Rightarrow> bool \<times> ufs_file" where
  "read_indirect rd st level no fp =
     (if f_blkno fp ! level \<noteq> no then
        let bs = fs_bsize (ufs_sb st);
            (n, d) = read_at rd bs (db_offset st no);
            fp = fp\<lparr>f_blk := (f_blk fp)[level := Some d], f_allocated := f_allocated fp @ [nat bs]\<rparr>
        in if n \<noteq> bs then (False, fp) else (True, fp\<lparr>f_blkno := (f_blkno fp)[level := no]\<rparr>)
      else (True, fp))"

definition ind_index :: "ufs_file \<Rightarrow> nat \<Rightarrow> int \<Rightarrow> (int \<times> int) option" where
  "ind_index fp level b =
     (if level > 0 then
        let n = sint (f_nindir fp ! (level - 1)) in if n \<le> 0 then None else Some (b div n, b mod n)
      else Some (b, b))"

text \<open>The loop over the levels, from level \<open>k - 1\<close> down to 0.\<close>

primrec ind_walk :: "reader \<Rightarrow> ufs_state \<Rightarrow> nat \<Rightarrow> int \<Rightarrow> int \<Rightarrow> ufs_file \<Rightarrow> (int \<times> ufs_file) option" where
  "ind_walk rd st 0 no b fp = Some (no, fp)"
| "ind_walk rd st (Suc level) no b fp =
     (if no = 0 then Some (0, fp)
      else
        case read_indirect rd st level no fp of
          (False, fp) \<Rightarrow> Some (- 1, fp)
        | (True, fp) \<Rightarrow>
            (case (ind_index fp level b, f_blk fp ! level) of
               (Some (idx, b'), Some buf) \<Rightarrow>
                 if idx < 0 \<or> 4 * (nat idx + 1) > length buf then None
                 else ind_walk rd st level (ptr_at buf idx) b' fp
             | _ \<Rightarrow> None))"

definition block_map :: "reader \<Rightarrow> ufs_state \<Rightarrow> int \<Rightarrow> ufs_file \<Rightarrow> (int \<times> ufs_file) option" where
  "block_map rd st blk fp =
     (if blk < NDADDR then
        if blk < 0 then None else Some (ic_db (i_ic fp) (nat blk), fp)
      else
        case find_level (take NIADDR (f_nindir fp)) 0 (blk - NDADDR) of
          (level, b) \<Rightarrow>
            if level = NIADDR then Some (- 1, fp)
            else ind_walk rd st (Suc level) (ic_ib (i_ic fp) level) b fp)"

subsection \<open>Reading blocks\<close>

text \<open>
  The \<open>do ... while\<close> loop of \<open>breadi\<close>: the number of blocks in the group and their bytes.  \<open>ncontig\<close> counts fragments.
\<close>

fun frag_group ::
  "reader \<Rightarrow> ufs_state \<Rightarrow> int \<Rightarrow> nat \<Rightarrow> nat \<Rightarrow> nat \<Rightarrow> int \<Rightarrow> int \<Rightarrow> ufs_file \<Rightarrow> ((nat \<times> int) \<times> ufs_file) option" where
  "frag_group rd st disk_block blkno 0 m ncontig nbytes fp = Some ((m, nbytes), fp)"
| "frag_group rd st disk_block blkno (Suc nblks) m ncontig nbytes fp =
     (let block_size = blksize (ufs_sb st) (i_ic fp) (int blkno);
          nbytes = nbytes + block_size; ncontig = ncontig + numfrags (ufs_sb st) block_size
      in if nblks = 0 then Some ((m + 1, nbytes), fp)
         else
           case block_map rd st (int (blkno + 1)) fp of
             None \<Rightarrow> None
           | Some (b, fp) \<Rightarrow>
               if b = disk_block + ncontig then frag_group rd st disk_block (blkno + 1) nblks (m + 1) ncontig nbytes fp
               else Some ((m + 1, nbytes), fp))"

lemma frag_group_bounds:
  "frag_group rd st d blkno nblks m nc nb fp = Some ((m', nb'), fp') \<Longrightarrow> 0 < nblks \<Longrightarrow> m < m' \<and> m' \<le> m + nblks"
proof (induction rd st d blkno nblks m nc nb fp rule: frag_group.induct)
  case (2 rd st d blkno nblks m nc nb fp)
  then show ?case by (fastforce simp: Let_def split: if_splits option.splits)
qed simp

function breadi :: "reader \<Rightarrow> ufs_state \<Rightarrow> nat \<Rightarrow> nat \<Rightarrow> int \<Rightarrow> bytes \<Rightarrow> ufs_file \<Rightarrow> ((int \<times> bytes) \<times> ufs_file) option" where
  "breadi rd st blkno nblks tot_bytes buffer fp =
     (if nblks = 0 then Some ((tot_bytes, buffer), fp)
      else
        case block_map rd st (int blkno) fp of
          None \<Rightarrow> None
        | Some (disk_block, fp) \<Rightarrow>
            (case frag_group rd st disk_block blkno nblks 0 0 0 fp of
               None \<Rightarrow> None
             | Some ((m, nbytes), fp) \<Rightarrow>
                 if disk_block = 0
                 then breadi rd st (blkno + m) (nblks - m) (tot_bytes + nbytes) (buffer @ replicate (nat nbytes) 0) fp
                 else
                   let (n, d) = read_at rd nbytes (db_offset st disk_block)
                   in if n \<noteq> nbytes then Some ((- 1, buffer @ d), fp)
                      else breadi rd st (blkno + m) (nblks - m) (tot_bytes + nbytes) (buffer @ d) fp))"
  by pat_completeness auto
termination
  by (relation "measure (\<lambda>(rd, st, blkno, nblks, tot, buffer, fp). nblks)") (auto dest!: frag_group_bounds)

declare breadi.simps [simp del]

subsection \<open>What reading leaves alone\<close>

definition map_frame :: "ufs_file \<Rightarrow> ufs_file \<Rightarrow> bool" where
  "map_frame fp fp' \<longleftrightarrow> i_ic fp' = i_ic fp \<and> f_nindir fp' = f_nindir fp \<and> f_buf fp' = f_buf fp \<and> f_inuse fp' = f_inuse fp"

lemma map_frame_refl: "map_frame fp fp"
  by (simp add: map_frame_def)

lemma map_frame_trans: "map_frame a b \<Longrightarrow> map_frame b c \<Longrightarrow> map_frame a c"
  by (simp add: map_frame_def)

lemma map_frame_fields:
  assumes "map_frame fp fp'"
  shows "i_ic fp' = i_ic fp" "f_nindir fp' = f_nindir fp" "f_buf fp' = f_buf fp" "f_inuse fp' = f_inuse fp"
  using assms by (simp_all add: map_frame_def)

lemma read_indirect_frame: "read_indirect rd st level no fp = (r, fp') \<Longrightarrow> map_frame fp fp'"
  by (auto simp: read_indirect_def Let_def map_frame_def split: if_splits prod.splits)

lemma ind_walk_frame: "ind_walk rd st k no b fp = Some (r, fp') \<Longrightarrow> map_frame fp fp'"
proof (induction k arbitrary: no b fp)
  case (Suc k)
  then show ?case
    by (auto simp: map_frame_refl split: if_splits prod.splits bool.splits option.splits
        dest!: read_indirect_frame intro: map_frame_trans)
qed (simp add: map_frame_refl)

lemma block_map_frame: "block_map rd st blk fp = Some (r, fp') \<Longrightarrow> map_frame fp fp'"
  by (auto simp: block_map_def map_frame_refl simp del: ind_walk.simps split: if_splits prod.splits intro: ind_walk_frame)

lemma frag_group_frame: "frag_group rd st d blkno nblks m nc nb fp = Some (r, fp') \<Longrightarrow> map_frame fp fp'"
proof (induction rd st d blkno nblks m nc nb fp rule: frag_group.induct)
  case (2 rd st d blkno nblks m nc nb fp)
  then show ?case
    by (auto simp: Let_def map_frame_refl split: if_splits option.splits dest!: block_map_frame intro: map_frame_trans)
qed (simp add: map_frame_refl)

lemma breadi_frame: "breadi rd st blkno nblks tot buf fp = Some (r, fp') \<Longrightarrow> map_frame fp fp'"
proof (induction nblks arbitrary: blkno tot buf fp rule: less_induct)
  case (less nblks)
  have step: "map_frame fp fp'"
    if "block_map rd st (int blkno) fp = Some (d, fp1)" "frag_group rd st d blkno nblks 0 0 0 fp1 = Some ((m, nb), fp2)"
      "breadi rd st (blkno + m) (nblks - m) t b fp2 = Some (r, fp')" "0 < nblks" for d fp1 m nb fp2 t b
  proof -
    have "nblks - m < nblks" using frag_group_bounds [OF that(2,4)] that(4) by simp
    from less.IH [OF this that(3)] show ?thesis
      using block_map_frame [OF that(1)] frag_group_frame [OF that(2)] by (blast intro: map_frame_trans)
  qed
  from less.prems show ?case
    by (subst (asm) breadi.simps)
      (auto simp: Let_def map_frame_refl split: option.splits prod.splits if_splits
        intro: step map_frame_trans [OF block_map_frame frag_group_frame])
qed

subsection \<open>Directories\<close>

definition ud_ino :: "bytes \<Rightarrow> nat \<Rightarrow> u32" where "ud_ino buf off = le32_at buf off"
definition ud_reclen :: "bytes \<Rightarrow> nat \<Rightarrow> nat" where "ud_reclen buf off = unat (le16_at buf (off + 4))"
definition ud_namlen :: "bytes \<Rightarrow> nat \<Rightarrow> nat" where "ud_namlen buf off = unat (le16_at buf (off + 6))"

text \<open>\<open>strcmp(name, dp->d_name) == 0\<close>; \<^const>\<open>None\<close> when the comparison runs out of the buffer.\<close>

definition name_equal :: "bytes \<Rightarrow> nat \<Rightarrow> bytes \<Rightarrow> bool option" where
  "name_equal buf off name =
     (let s = slice (off + 8) (length name + 1) buf
      in if s = name @ [0] then Some True
         else if length s \<le> length name \<and> s = take (length s) name then None
         else Some False)"

text \<open>
  The entries of one block: the inode number of the name.  An entry with length 0 stops the progress of the loop.
\<close>

function search_entries :: "int \<Rightarrow> bytes \<Rightarrow> bytes \<Rightarrow> nat \<Rightarrow> u32 option option" where
  "search_entries bs name buf off =
     (if int off \<ge> bs then Some None
      else if off + 8 > length buf then None
      else
        let next = (if ud_reclen buf off = 0 then None
                    else search_entries bs name buf (off + ud_reclen buf off))
        in if ud_ino buf off \<noteq> 0 \<and> ud_namlen buf off = length name then
             case name_equal buf off name of
               None \<Rightarrow> None
             | Some True \<Rightarrow> Some (Some (ud_ino buf off))
             | Some False \<Rightarrow> next
           else next)"
  by pat_completeness auto
termination
  by (relation "measure (\<lambda>(bs, name, buf, off). length buf - off)") auto

declare search_entries.simps [simp del]

text \<open>
  The loop over the blocks of a directory.  The block size is positive after a successful mount; it is part of the
  guard only because a total function needs it to terminate.
\<close>

function ufs_search_dir :: "reader \<Rightarrow> ufs_state \<Rightarrow> bytes \<Rightarrow> int \<Rightarrow> ufs_file \<Rightarrow> (u32 option \<times> ufs_file) option" where
  "ufs_search_dir rd st name offset fp =
     (let bs = fs_bsize (ufs_sb st)
      in if offset < ic_size (i_ic fp) \<and> 0 < bs then
           case breadi rd st (nat (offset div bs)) 1 0 [] fp of
             None \<Rightarrow> None
           | Some ((r, d), fp') \<Rightarrow>
               if length d > length (f_buf fp') then None
               else
                 let fp' = fp'\<lparr>f_buf := overwrite d (f_buf fp')\<rparr>
                 in if r < 0 then Some (None, fp')
                    else case search_entries bs name (f_buf fp') 0 of
                      None \<Rightarrow> None
                    | Some (Some ino) \<Rightarrow> Some (Some ino, fp')
                    | Some None \<Rightarrow> ufs_search_dir rd st name (offset + bs) fp'
         else Some (None, fp))"
  by pat_completeness auto
termination
  by (relation "measure (\<lambda>(rd, st, name, offset, fp). nat (ic_size (i_ic fp) - offset))")
    (auto dest!: breadi_frame map_frame_fields(1))

declare ufs_search_dir.simps [simp del]

subsection \<open>Operations of the file system\<close>

definition ufs_mount :: "reader \<Rightarrow> int \<Rightarrow> ufs_state \<Rightarrow> int \<times> ufs_state" where
  "ufs_mount rd p_offset st =
     (let st = st\<lparr>ufs_table := [zero_file], ufs_partition_offset := p_offset\<rparr>;
          (rc, d) = read_at rd SBSIZE (SBLOCK * uint DEV_BSIZE + p_offset);
          st = st\<lparr>ufs_sb := overwrite d (ufs_sb st)\<rparr>; fs = ufs_sb st
      in if rc \<noteq> SBSIZE then (- 1, st)
         else if fs_magic fs \<noteq> FS_MAGIC \<or> fs_bsize fs > MAXBSIZE \<or> fs_bsize fs < sizeof_fs then (- 1, st)
         else (0, st\<lparr>ufs_blocksize := fs_bsize fs\<rparr>))"

text \<open>
  The walk over the components of the path.  When a component is a symbolic link, the code takes the length of the string at
  \<open>cp\<close>, which is still \<open>NULL\<close>.
\<close>

fun ufs_walk :: "reader \<Rightarrow> ufs_state \<Rightarrow> bytes list \<Rightarrow> ufs_file \<Rightarrow> (int \<times> ufs_file) option" where
  "ufs_walk rd st [] fp = Some (0, fp)"
| "ufs_walk rd st (c # cs) fp =
     (if ic_mode (i_ic fp) AND IFMT \<noteq> IFDIR then Some (- 1, fp)
      else
        case ufs_search_dir rd st c 0 fp of
          None \<Rightarrow> None
        | Some (None, fp) \<Rightarrow> Some (- 1, fp)
        | Some (Some inumber, fp) \<Rightarrow>
            (case read_inode rd st inumber fp of
               None \<Rightarrow> None
             | Some (r, fp) \<Rightarrow>
                 if r \<noteq> 0 then Some (- 1, fp)
                 else if ic_mode (i_ic fp) AND IFMT = IFLNK then None
                 else ufs_walk rd st cs fp))"

text \<open>\<open>mult\<close> is an \<open>int\<close>.\<close>

definition indirect_counts :: "u32 \<Rightarrow> u32 list" where
  "indirect_counts n = [n, n * n, n * n * n]"

text \<open>
  The result of reading the root inode is compared with \<open>< 0\<close> and never is.  \<open>raw\<close> is what the memory of the new buffer
  contains.  The entry is never marked as used; were it marked, the search for a free entry would leave the table.
\<close>

definition ufs_open :: "reader \<Rightarrow> bytes \<Rightarrow> bytes \<Rightarrow> ufs_state \<Rightarrow> (int \<times> ufs_state) option" where
  "ufs_open rd raw path st =
     (let fp = ufs_table st ! 0; bs = nat (fs_bsize (ufs_sb st));
          upd = (\<lambda>fp. st\<lparr>ufs_table := (ufs_table st)[0 := fp]\<rparr>)
      in if path = [] then Some (- 1, st)
         else if f_inuse fp \<noteq> 0 \<or> length path > MAXPATHLEN then None
         else
           case read_inode rd st ROOTINO (fp\<lparr>f_buf := take bs (raw @ replicate bs 0), f_allocated := f_allocated fp @ [bs]\<rparr>) of
             None \<Rightarrow> None
           | Some (_, fp) \<Rightarrow>
               (case ufs_walk rd st (tokens {47} path) fp of
                  None \<Rightarrow> None
                | Some (r, fp) \<Rightarrow>
                    if r < 0 then Some (- 1, upd fp)
                    else Some (0, upd (fp\<lparr>f_nindir := indirect_counts (fs_nindir (ufs_sb st)) @ drop NIADDR (f_nindir fp)\<rparr>))))"

definition ufs_bread :: "reader \<Rightarrow> nat \<Rightarrow> nat \<Rightarrow> nat \<Rightarrow> ufs_state \<Rightarrow> ((int \<times> bytes) \<times> ufs_state) option" where
  "ufs_bread rd fd blkno nblks st =
     (if fd \<ge> length (ufs_table st) then None
      else map_option (\<lambda>(r, fp). (r, st\<lparr>ufs_table := (ufs_table st)[fd := fp]\<rparr>))
             (breadi rd st blkno nblks 0 [] (ufs_table st ! fd)))"

definition ufs_close :: "nat \<Rightarrow> ufs_state \<Rightarrow> ufs_state" where
  "ufs_close fd st = st\<lparr>ufs_table := (ufs_table st)[fd := (ufs_table st ! fd)\<lparr>f_inuse := 0\<rparr>]\<rparr>"

definition ufs_readdir :: "nat \<Rightarrow> bool \<Rightarrow> ufs_state \<Rightarrow> (bytes option \<times> ufs_state) option" where
  "ufs_readdir fd rewind st = Some (None, st)"

text \<open>\<open>ufs_fstat\<close> returns -1 and leaves the caller's buffer as it is.\<close>

definition ufs_fstat :: "nat \<Rightarrow> ufs_state \<Rightarrow> stat option" where
  "ufs_fstat fd st = None"

subsection \<open>The block map without caches\<close>

text \<open>
  The geometry of a file system whose super-block is consistent: the fragment is a power of two of sectors, the masks and shifts
  belong to the sizes, and an indirect block holds \<open>fs_nindir\<close> numbers.
\<close>

definition ufs_geometry :: "ufs_state \<Rightarrow> bool" where
  "ufs_geometry st \<longleftrightarrow>
     (let fs = ufs_sb st
      in 0 \<le> ufs_partition_offset st \<and> fs_bsize fs = 2 ^ fs_bshift fs \<and> fs_fsize fs = 2 ^ fs_fshift fs
       \<and> fs_fshift fs = 9 + fs_fsbtodb fs \<and> fs_fshift fs \<le> fs_bshift fs \<and> fs_bsize fs \<le> MAXBSIZE \<and> sizeof_fs \<le> fs_bsize fs
       \<and> fs_bmask fs = - fs_bsize fs \<and> fs_fmask fs = - fs_fsize fs \<and> 4 * sint (fs_nindir fs) = fs_bsize fs)"

text \<open>A range of fragments that lies in the image and below the 2 GB that the \<open>int\<close> product can express.\<close>

definition frags_in :: "bytes \<Rightarrow> ufs_state \<Rightarrow> int \<Rightarrow> int \<Rightarrow> bool" where
  "frags_in img st no nbytes \<longleftrightarrow>
     0 \<le> no \<and> no * fs_fsize (ufs_sb st) < 2 ^ 31
     \<and> ufs_partition_offset st + no * fs_fsize (ufs_sb st) + nbytes \<le> int (length img)"

definition frag_bytes :: "bytes \<Rightarrow> ufs_state \<Rightarrow> int \<Rightarrow> int \<Rightarrow> bytes" where
  "frag_bytes img st no nbytes = slice (nat (ufs_partition_offset st + no * fs_fsize (ufs_sb st))) (nat nbytes) img"

lemma db_offset_eq:
  assumes "ufs_geometry st" and "frags_in img st no n"
  shows "db_offset st no = ufs_partition_offset st + no * fs_fsize (ufs_sb st)"
proof -
  let ?k = "fs_fsbtodb (ufs_sb st)"
  have f: "fs_fsize (ufs_sb st) = 2 ^ ?k * 512" using assms(1) by (simp add: ufs_geometry_def Let_def power_add)
  have "push_bit ?k (word_of_int no :: u32) * 512 = word_of_int (no * (2 ^ ?k * 512))"
    by (simp add: push_bit_eq_mult word_of_int_2p mult.assoc)
  moreover have "sint (word_of_int (no * (2 ^ ?k * 512)) :: u32) = no * (2 ^ ?k * 512)"
    using assms(2) by (intro sint_word_of_int_pos) (simp_all add: frags_in_def f)
  ultimately show ?thesis by (simp add: db_offset_def fsbtodb_def DEV_BSIZE_def f)
qed

text \<open>The walk through the indirect blocks, read from the image alone.\<close>

definition ind_split :: "u32 list \<Rightarrow> nat \<Rightarrow> int \<Rightarrow> int \<times> int" where
  "ind_split ns level b = (if level > 0 then (b div sint (ns ! (level - 1)), b mod sint (ns ! (level - 1))) else (b, b))"

primrec ufs_ind :: "bytes \<Rightarrow> ufs_state \<Rightarrow> nat \<Rightarrow> int \<Rightarrow> int \<Rightarrow> int" where
  "ufs_ind img st 0 no b = no"
| "ufs_ind img st (Suc level) no b =
     (if no = 0 then 0
      else case ind_split (indirect_counts (fs_nindir (ufs_sb st))) level b of
        (idx, b') \<Rightarrow> ufs_ind img st level (ptr_at (frag_bytes img st no (fs_bsize (ufs_sb st))) idx) b')"

primrec ind_ok :: "bytes \<Rightarrow> ufs_state \<Rightarrow> nat \<Rightarrow> int \<Rightarrow> int \<Rightarrow> bool" where
  "ind_ok img st 0 no b = True"
| "ind_ok img st (Suc level) no b \<longleftrightarrow>
     no = 0 \<or> frags_in img st no (fs_bsize (ufs_sb st))
       \<and> (case ind_split (indirect_counts (fs_nindir (ufs_sb st))) level b of
            (idx, b') \<Rightarrow> ind_ok img st level (ptr_at (frag_bytes img st no (fs_bsize (ufs_sb st))) idx) b')"

text \<open>The address of block \<open>blk\<close> of a file and the condition that the indirect blocks on the way lie in the image.\<close>

definition ufs_level :: "ufs_state \<Rightarrow> nat \<Rightarrow> nat \<times> int" where
  "ufs_level st blk = find_level (indirect_counts (fs_nindir (ufs_sb st))) 0 (int blk - NDADDR)"

definition ufs_block :: "bytes \<Rightarrow> ufs_state \<Rightarrow> bytes \<Rightarrow> nat \<Rightarrow> int" where
  "ufs_block img st ic blk =
     (if blk < 12 then ic_db ic blk
      else case ufs_level st blk of (level, b) \<Rightarrow> if level = NIADDR then - 1 else ufs_ind img st (Suc level) (ic_ib ic level) b)"

definition ufs_map_ok :: "bytes \<Rightarrow> ufs_state \<Rightarrow> bytes \<Rightarrow> nat \<Rightarrow> bool" where
  "ufs_map_ok img st ic blk \<longleftrightarrow>
     blk < 12 \<or> (case ufs_level st blk of (level, b) \<Rightarrow> level = NIADDR \<or> ind_ok img st (Suc level) (ic_ib ic level) b)"

text \<open>A file that \<open>ufs_open\<close> has opened: the counts are set and every cached block is the block of the image.\<close>

definition ufs_cache_ok :: "bytes \<Rightarrow> ufs_state \<Rightarrow> ufs_file \<Rightarrow> bool" where
  "ufs_cache_ok img st fp \<longleftrightarrow>
     length (f_blk fp) = NIADDR \<and> length (f_blkno fp) = NIADDR
     \<and> (\<exists>x. f_nindir fp = indirect_counts (fs_nindir (ufs_sb st)) @ x)
     \<and> (\<forall>l < NIADDR. 0 < f_blkno fp ! l \<longrightarrow> f_blk fp ! l = Some (frag_bytes img st (f_blkno fp ! l) (fs_bsize (ufs_sb st))))"

lemma nindir_cases:
  assumes "ufs_geometry st"
  shows "fs_nindir (ufs_sb st) = 512 \<or> fs_nindir (ufs_sb st) = 1024 \<or> fs_nindir (ufs_sb st) = 2048"
    and "fs_bsize (ufs_sb st) = 4 * sint (fs_nindir (ufs_sb st))"
proof -
  let ?k = "fs_bshift (ufs_sb st)" and ?n = "fs_nindir (ufs_sb st)"
  have b: "4 * sint ?n = 2 ^ ?k" "(2 :: int) ^ ?k \<le> 2 ^ 13" "(1380 :: int) \<le> 2 ^ ?k"
    using assms by (auto simp: ufs_geometry_def Let_def MAXBSIZE_def sizeof_fs_def)
  have "?k \<le> 13" using b(2) by (simp only: power_increasing_iff)
  moreover have "10 < ?k"
  proof (rule ccontr)
    assume "\<not> 10 < ?k"
    then have "(2 :: int) ^ ?k \<le> 2 ^ 10" by (intro power_increasing) auto
    with b(3) show False by simp
  qed
  ultimately have "?k = 11 \<or> ?k = 12 \<or> ?k = 13" by auto
  then have "sint ?n = sint (512 :: u32) \<or> sint ?n = sint (1024 :: u32) \<or> sint ?n = sint (2048 :: u32)"
    using b(1) by auto
  then show "?n = 512 \<or> ?n = 1024 \<or> ?n = 2048" by (metis signed_word_eqI)
  show "fs_bsize (ufs_sb st) = 4 * sint ?n" using assms by (simp add: ufs_geometry_def Let_def)
qed

lemma count_values:
  assumes "ufs_geometry st"
  defines "n \<equiv> sint (fs_nindir (ufs_sb st))" and "ns \<equiv> indirect_counts (fs_nindir (ufs_sb st))"
  shows "0 < n" and "sint (ns ! 0) = n" and "sint (ns ! 1) = n * n" and "sint (ns ! 2) \<le> n * n * n"
  using nindir_cases(1) [OF assms(1)] by (auto simp: n_def ns_def indirect_counts_def)

lemma find_level_bound:
  "find_level ns l b = (l', b') \<Longrightarrow> 0 \<le> b \<Longrightarrow> \<exists>i. l' = l + i \<and> i \<le> length ns \<and> 0 \<le> b' \<and> (i < length ns \<longrightarrow> b' < sint (ns ! i))"
proof (induction ns arbitrary: l b)
  case (Cons n ns)
  show ?case
  proof (cases "b < sint n")
    case True
    with Cons.prems show ?thesis by (intro exI [of _ 0]) auto
  next
    case False
    with Cons.prems have "find_level ns (Suc l) (b - sint n) = (l', b')" by simp
    from Cons.IH [OF this] False obtain i where "l' = Suc l + i" "i \<le> length ns" "0 \<le> b'" "i < length ns \<longrightarrow> b' < sint (ns ! i)"
      by auto
    then show ?thesis by (intro exI [of _ "Suc i"]) auto
  qed
qed simp

text \<open>The relative block number fits the level that it is looked up in.\<close>

lemma ufs_level_bound:
  assumes "ufs_geometry st" and "12 \<le> blk" and "ufs_level st blk = (level, b)"
  defines "n \<equiv> sint (fs_nindir (ufs_sb st))"
  shows "level \<le> NIADDR" and "0 \<le> b" and "level < NIADDR \<Longrightarrow> b < n ^ (level + 1)"
proof -
  let ?ns = "indirect_counts (fs_nindir (ufs_sb st))"
  have len: "length ?ns = NIADDR" by (simp add: indirect_counts_def NIADDR_def)
  from find_level_bound [OF assms(3) [unfolded ufs_level_def]] assms(2) len
  have *: "level \<le> NIADDR" "0 \<le> b" "level < NIADDR \<longrightarrow> b < sint (?ns ! level)" by (auto simp: NDADDR_def)
  then show "level \<le> NIADDR" "0 \<le> b" by auto
  show "b < n ^ (level + 1)" if l: "level < NIADDR"
  proof -
    from l consider "level = 0" | "level = 1" | "level = 2" unfolding NIADDR_def by linarith
    then have "sint (?ns ! level) \<le> n ^ (level + 1)"
      using count_values [OF assms(1)] by cases (simp_all add: n_def power2_eq_square power3_eq_cube numeral_2_eq_2)
    with *(3) l show ?thesis by linarith
  qed
qed

lemma int_div_less: "0 < m \<Longrightarrow> b < q * m \<Longrightarrow> b div m < q" for b :: int
proof (rule ccontr)
  assume "0 < m" "b < q * m" "\<not> b div m < q"
  then have "q * m \<le> b div m * m" by (intro mult_right_mono) auto
  moreover have "b div m * m \<le> b" using \<open>0 < m\<close> div_mult_mod_eq [of b m] pos_mod_sign [of m b] by linarith
  ultimately show False using \<open>b < q * m\<close> by simp
qed

text \<open>One step down: the index is in the block and the rest fits the next level.\<close>

lemma ind_split_bound:
  assumes "ufs_geometry st" and "level < NIADDR" and "0 \<le> b" and "b < n ^ (level + 1)"
    and "ind_split (indirect_counts (fs_nindir (ufs_sb st))) level b = (idx, b')" and "n = sint (fs_nindir (ufs_sb st))"
  shows "0 \<le> idx" and "idx < n" and "0 \<le> b'" and "0 < level \<Longrightarrow> b' < n ^ level"
proof -
  let ?ns = "indirect_counts (fs_nindir (ufs_sb st))"
  note c = count_values [OF assms(1), folded assms(6)]
  have "0 \<le> idx \<and> idx < n \<and> 0 \<le> b' \<and> (0 < level \<longrightarrow> b' < n ^ level)"
  proof (cases level)
    case 0
    then show ?thesis using assms(3-5) by (auto simp: ind_split_def)
  next
    case (Suc k)
    then have "k = 0 \<or> k = 1" using assms(2) by (auto simp: NIADDR_def)
    then have m: "sint (?ns ! k) = n ^ level" using c(2,3) Suc by (auto simp: power2_eq_square)
    have pos: "0 < n ^ level" using c(1) by simp
    have "idx = b div n ^ level" "b' = b mod n ^ level" using assms(5) Suc m by (auto simp: ind_split_def)
    moreover have "b div n ^ level < n" using int_div_less [OF pos] assms(4) by simp

    ultimately show ?thesis using pos assms(3) by (simp add: pos_imp_zdiv_nonneg_iff)
  qed
  then show "0 \<le> idx" "idx < n" "0 \<le> b'" "0 < level \<Longrightarrow> b' < n ^ level" by auto
qed

context block_device
begin

lemma read_frags:
  assumes "ufs_geometry st" and "frags_in img st no n" and "0 \<le> n"
  shows "read_at dev_read n (db_offset st no) = (n, frag_bytes img st no n)" and "int (length (frag_bytes img st no n)) = n"
proof -
  let ?off = "ufs_partition_offset st + no * fs_fsize (ufs_sb st)"
  have off: "0 \<le> ?off" using assms(1,2) by (simp add: ufs_geometry_def frags_in_def Let_def)
  have "?off + n \<le> int (length img)" using assms(2) by (simp add: frags_in_def)
  then have le: "nat ?off + nat n \<le> length img" using off assms(3) by linarith
  have i: "int (nat n) = n" using assms(3) by simp
  show "read_at dev_read n (db_offset st no) = (n, frag_bytes img st no n)"
    using off read_slice [OF le] unfolding i by (simp add: db_offset_eq [OF assms(1,2)] read_at_def frag_bytes_def)
  show "int (length (frag_bytes img st no n)) = n" using le i by (simp add: frag_bytes_def length_slice)
qed

lemma read_indirect_cached:
  assumes g: "ufs_geometry st" and c: "ufs_cache_ok img st fp" and l: "level < NIADDR"
    and b: "frags_in img st no (fs_bsize (ufs_sb st))" and "no \<noteq> 0"
  shows "\<exists>fp'. read_indirect dev_read st level no fp = (True, fp') \<and> map_frame fp fp' \<and> ufs_cache_ok img st fp'
           \<and> f_blk fp' ! level = Some (frag_bytes img st no (fs_bsize (ufs_sb st)))"
proof (cases "f_blkno fp ! level = no")
  case True
  then have "0 < f_blkno fp ! level" using b assms(5) by (simp add: frags_in_def)
  with True c l show ?thesis by (intro exI [of _ fp]) (auto simp: read_indirect_def ufs_cache_ok_def map_frame_refl)
next
  case False
  let ?bs = "fs_bsize (ufs_sb st)"
  let ?d = "frag_bytes img st no ?bs"
  let ?fp = "fp\<lparr>f_blk := (f_blk fp)[level := Some ?d], f_allocated := f_allocated fp @ [nat ?bs], f_blkno := (f_blkno fp)[level := no]\<rparr>"
  have "0 \<le> ?bs" using nindir_cases(2) [OF g] count_values(1) [OF g] by simp
  then have "read_indirect dev_read st level no fp = (True, ?fp)"
    using False read_frags(1) [OF g b] by (simp add: read_indirect_def Let_def)
  moreover have "map_frame fp ?fp" by (simp add: map_frame_def)
  moreover have "ufs_cache_ok img st ?fp" using c l by (auto simp: ufs_cache_ok_def nth_list_update)
  moreover have "f_blk ?fp ! level = Some ?d" using c l by (simp add: ufs_cache_ok_def)
  ultimately show ?thesis by blast
qed

lemma cache_counts:
  assumes "ufs_geometry st" and "ufs_cache_ok img st fp" and "level < NIADDR"
  shows "ind_index fp level b = Some (ind_split (indirect_counts (fs_nindir (ufs_sb st))) level b)"
proof -
  obtain x where x: "f_nindir fp = indirect_counts (fs_nindir (ufs_sb st)) @ x" using assms(2) by (auto simp: ufs_cache_ok_def)
  note c = count_values [OF assms(1)]
  from assms(3) have "level = 0 \<or> level = 1 \<or> level = 2" by (auto simp: NIADDR_def)
  then show ?thesis
    using c x by (auto simp: ind_index_def ind_split_def nth_append indirect_counts_def Let_def mult_le_0_iff)
qed

lemma ind_walk_map:
  assumes "ufs_geometry st" and "ufs_cache_ok img st fp" and "k \<le> NIADDR" and "ind_ok img st k no b"
    and "0 \<le> b" and "0 < k \<longrightarrow> b < sint (fs_nindir (ufs_sb st)) ^ k"
  shows "\<exists>fp'. ind_walk dev_read st k no b fp = Some (ufs_ind img st k no b, fp') \<and> map_frame fp fp' \<and> ufs_cache_ok img st fp'"
  using assms
proof (induction k arbitrary: no b fp)
  case (Suc k)
  let ?bs = "fs_bsize (ufs_sb st)" and ?n = "sint (fs_nindir (ufs_sb st))"
  show ?case
  proof (cases "no = 0")
    case True
    with Suc.prems show ?thesis by (auto intro: map_frame_refl)
  next
    case False
    obtain idx b' where sp: "ind_split (indirect_counts (fs_nindir (ufs_sb st))) k b = (idx, b')" by fastforce
    let ?d = "frag_bytes img st no ?bs"
    have k: "k < NIADDR" and fr: "frags_in img st no ?bs" and ok: "ind_ok img st k (ptr_at ?d idx) b'"
      using Suc.prems(3,4) False sp by auto
    from read_indirect_cached [OF Suc.prems(1,2) k fr False] obtain fp1 where
      f1: "read_indirect dev_read st k no fp = (True, fp1)" "map_frame fp fp1" "ufs_cache_ok img st fp1" "f_blk fp1 ! k = Some ?d"
      by blast
    note bd = ind_split_bound [OF Suc.prems(1) k Suc.prems(5) _ sp refl]
    have idx: "0 \<le> idx" "idx < ?n" "0 \<le> b'" "0 < k \<longrightarrow> b' < ?n ^ k" using bd Suc.prems(6) by auto
    have "int (length ?d) = 4 * ?n"
      using read_frags(2) [OF Suc.prems(1) fr] nindir_cases(2) [OF Suc.prems(1)] count_values(1) [OF Suc.prems(1)] by simp
    then have "int (4 * (nat idx + 1)) \<le> int (length ?d)" using idx(1,2) by simp
    then have "4 * (nat idx + 1) \<le> length ?d" by (simp only: of_nat_le_iff)
    moreover obtain fp' where "ind_walk dev_read st k (ptr_at ?d idx) b' fp1 = Some (ufs_ind img st k (ptr_at ?d idx) b', fp')"
        "map_frame fp1 fp'" "ufs_cache_ok img st fp'"
      using Suc.IH [OF Suc.prems(1) f1(3) _ ok idx(3,4)] k by auto
    ultimately show ?thesis
      using False f1 sp idx(1) cache_counts [OF Suc.prems(1) f1(3) k, of b] map_frame_trans [OF f1(2)] by auto
  qed
qed (auto intro: map_frame_refl)

lemma block_map_uncached:
  assumes "ufs_geometry st" and "ufs_cache_ok img st fp" and "ufs_map_ok img st (i_ic fp) blk"
  shows "\<exists>fp'. block_map dev_read st (int blk) fp = Some (ufs_block img st (i_ic fp) blk, fp') \<and> map_frame fp fp' \<and> ufs_cache_ok img st fp'"
proof (cases "blk < 12")
  case True
  with assms(2) show ?thesis by (auto simp: block_map_def ufs_block_def NDADDR_def intro: map_frame_refl)
next
  case False
  obtain level b where l: "ufs_level st blk = (level, b)" by fastforce
  note bd = ufs_level_bound [OF assms(1) _ l]
  obtain x where "f_nindir fp = indirect_counts (fs_nindir (ufs_sb st)) @ x" using assms(2) by (auto simp: ufs_cache_ok_def)
  then have t: "take NIADDR (f_nindir fp) = indirect_counts (fs_nindir (ufs_sb st))" by (simp add: NIADDR_def indirect_counts_def)
  have bm: "block_map dev_read st (int blk) fp
      = (if level = NIADDR then Some (- 1, fp) else ind_walk dev_read st (Suc level) (ic_ib (i_ic fp) level) b fp)"
    using False l t by (simp add: block_map_def NDADDR_def ufs_level_def del: ind_walk.simps)
  have ub: "ufs_block img st (i_ic fp) blk = (if level = NIADDR then - 1 else ufs_ind img st (Suc level) (ic_ib (i_ic fp) level) b)"
    using False l by (simp add: ufs_block_def del: ufs_ind.simps)
  show ?thesis
  proof (cases "level = NIADDR")
    case True
    with bm ub assms(2) show ?thesis by (auto intro: map_frame_refl)
  next
    case lt: False
    then have "Suc level \<le> NIADDR" "ind_ok img st (Suc level) (ic_ib (i_ic fp) level) b" "0 \<le> b"
        "0 < Suc level \<longrightarrow> b < sint (fs_nindir (ufs_sb st)) ^ Suc level"
      using bd False assms(3) l by (auto simp: ufs_map_ok_def simp del: ind_ok.simps)
    from ind_walk_map [OF assms(1,2) this] show ?thesis using bm ub lt by simp
  qed
qed

end

subsection \<open>Fragments\<close>

lemma int_and_mask: "x AND (2 ^ n - 1) = x mod 2 ^ n" for x :: int
  by (simp add: take_bit_eq_mod flip: mask_eq_exp_minus_1 take_bit_eq_mask)

lemma int_and_minus: "x AND - (2 ^ n) = x div 2 ^ n * 2 ^ n" for x :: int
proof -
  have "- (2 ^ n) = (NOT (mask n) :: int)" by (simp add: mask_eq_exp_minus_1 not_eq_complement)
  moreover have "x AND NOT (mask n) = x - (x AND mask n)"
  proof -
    have "x - (x AND mask n) = x AND NOT (x AND mask n)"
      by (rule disjunctive_diff_eq_and_not) (auto simp: bit_eq_iff bit_simps)
    also have "\<dots> = x AND NOT (mask n)" by (auto simp: bit_eq_iff bit_simps)
    finally show ?thesis by simp
  qed
  ultimately show ?thesis by (simp add: mask_eq_exp_minus_1 int_and_mask minus_mod_eq_div_mult)
qed

lemma blksize_frags:
  assumes "ufs_geometry st"
  defines "fs \<equiv> ufs_sb st" and "f \<equiv> fs_fsize (ufs_sb st)"
  shows "0 < f" and "0 \<le> blksize fs ic lbn" and "blksize fs ic lbn \<le> fs_bsize fs"
    and "numfrags fs (blksize fs ic lbn) * f = blksize fs ic lbn" and "numfrags fs (blksize fs ic lbn) * f \<le> fs_bsize fs"
proof -
  let ?k = "fs_bshift fs" and ?j = "fs_fshift fs"
  have g: "fs_bsize fs = 2 ^ ?k" "f = 2 ^ ?j" "?j \<le> ?k" "fs_bmask fs = - (2 ^ ?k)" "fs_fmask fs = - (2 ^ ?j)"
    using assms by (auto simp: ufs_geometry_def Let_def)
  have dv: "f dvd fs_bsize fs" unfolding g using g(3) by (rule le_imp_power_dvd)
  show f: "0 < f" by (simp add: g)
  define x where "x = blkoff fs (ic_size ic)"
  have x: "0 \<le> x" "x < fs_bsize fs" unfolding x_def blkoff_def g(1,4) by (simp_all add: not_eq_complement int_and_mask)
  have r: "fragroundup fs x = (x + f - 1) div f * f"
    using int_and_minus [of "x + f - 1" ?j] by (simp add: fragroundup_def g(2,5) flip: f_def fs_def) (use assms g in \<open>simp add: f_def fs_def\<close>)
  have "(x + f - 1) div f * f \<le> fs_bsize fs"
  proof -
    obtain q where q: "fs_bsize fs = f * q" using dv by auto
    have "x + f - 1 < f * (q + 1)" using x(2) q by (simp add: algebra_simps)
    then have "(x + f - 1) div f < q + 1" using f int_div_less [of f "x + f - 1" "q + 1"] by (simp add: mult.commute)
    then show ?thesis using q f by (simp add: mult.commute)
  qed
  moreover have "0 \<le> (x + f - 1) div f * f" using x(1) f by (simp add: pos_imp_zdiv_nonneg_iff)
  moreover have "f dvd blksize fs ic lbn" using dv r by (simp add: blksize_def x_def)
  ultimately show "0 \<le> blksize fs ic lbn" "blksize fs ic lbn \<le> fs_bsize fs"
      "numfrags fs (blksize fs ic lbn) * f = blksize fs ic lbn" "numfrags fs (blksize fs ic lbn) * f \<le> fs_bsize fs"
    using r g(1) by (auto simp: blksize_def x_def numfrags_def drop_bit_eq_div g(2))
qed

subsection \<open>The data of a file\<close>

text \<open>
  What block \<open>blk\<close> of a file contains.  \<open>ufs_data_ok\<close> says that it is not empty and a hole, or lies in the image behind the first block of the
  partition, which belongs to the boot program.
\<close>

definition ufs_data :: "bytes \<Rightarrow> ufs_state \<Rightarrow> bytes \<Rightarrow> nat \<Rightarrow> bytes" where
  "ufs_data img st ic blk =
     (let no = ufs_block img st ic blk; n = blksize (ufs_sb st) ic (int blk)
      in if no = 0 then replicate (nat n) 0 else frag_bytes img st no n)"

definition ufs_data_ok :: "bytes \<Rightarrow> ufs_state \<Rightarrow> bytes \<Rightarrow> nat \<Rightarrow> bool" where
  "ufs_data_ok img st ic blk \<longleftrightarrow>
     ufs_map_ok img st ic blk \<and> 0 < blksize (ufs_sb st) ic (int blk)
     \<and> (let no = ufs_block img st ic blk
        in no = 0 \<or> fs_bsize (ufs_sb st) < no * fs_fsize (ufs_sb st) \<and> frags_in img st no (blksize (ufs_sb st) ic (int blk)))"

definition ufs_range :: "bytes \<Rightarrow> ufs_state \<Rightarrow> bytes \<Rightarrow> nat \<Rightarrow> nat \<Rightarrow> bytes" where
  "ufs_range img st ic blkno n = concat (map (\<lambda>i. ufs_data img st ic (blkno + i)) [0..<n])"

lemma ufs_range_Suc: "ufs_range img st ic blkno (Suc n) = ufs_range img st ic blkno n @ ufs_data img st ic (blkno + n)"
  by (simp add: ufs_range_def)

lemma ufs_range_add: "ufs_range img st ic blkno (m + n) = ufs_range img st ic blkno m @ ufs_range img st ic (blkno + m) n"
  by (induction n) (simp_all add: ufs_range_Suc ufs_range_def add.assoc)

text \<open>Ranges of fragments that follow each other.\<close>

lemma frag_bytes_append:
  assumes "ufs_geometry st" and "0 \<le> no" and "0 \<le> k" and "0 \<le> n"
  shows "frag_bytes img st no (k * fs_fsize (ufs_sb st)) @ frag_bytes img st (no + k) n = frag_bytes img st no (k * fs_fsize (ufs_sb st) + n)"
proof -
  let ?f = "fs_fsize (ufs_sb st)" and ?p = "ufs_partition_offset st"
  have f: "0 < ?f" by (rule blksize_frags(1) [OF assms(1)])
  have p: "0 \<le> ?p" using assms(1) by (simp add: ufs_geometry_def Let_def)
  have "nat (?p + (no + k) * ?f) = nat (?p + no * ?f) + nat (k * ?f)"
    using p assms f by (simp add: algebra_simps flip: nat_add_distrib)
  moreover have "nat (k * ?f + n) = nat (k * ?f) + nat n" using assms f by (simp add: nat_add_distrib)
  ultimately show ?thesis by (simp add: frag_bytes_def slice_append)
qed

text \<open>None of this depends on the table of open files.\<close>

lemma ufs_table_frags:
  "ufs_geometry (st\<lparr>ufs_table := t\<rparr>) = ufs_geometry st" "frag_bytes img (st\<lparr>ufs_table := t\<rparr>) = frag_bytes img st"
  "frags_in img (st\<lparr>ufs_table := t\<rparr>) = frags_in img st" "ufs_level (st\<lparr>ufs_table := t\<rparr>) = ufs_level st"
  by (simp_all add: fun_eq_iff ufs_geometry_def frag_bytes_def frags_in_def ufs_level_def)

lemma ufs_table_ind:
  "ufs_ind img (st\<lparr>ufs_table := t\<rparr>) k no b = ufs_ind img st k no b" "ind_ok img (st\<lparr>ufs_table := t\<rparr>) k no b = ind_ok img st k no b"
  by (induction k arbitrary: no b) (simp_all add: ufs_table_frags split: prod.split)

lemma ufs_table_data:
  "ufs_block img (st\<lparr>ufs_table := t\<rparr>) = ufs_block img st" "ufs_data_ok img (st\<lparr>ufs_table := t\<rparr>) = ufs_data_ok img st"
  "ufs_range img (st\<lparr>ufs_table := t\<rparr>) = ufs_range img st" "ufs_cache_ok img (st\<lparr>ufs_table := t\<rparr>) = ufs_cache_ok img st"
proof -
  show b: "ufs_block img (st\<lparr>ufs_table := t\<rparr>) = ufs_block img st"
    by (simp add: fun_eq_iff ufs_block_def ufs_table_frags ufs_table_ind del: ufs_ind.simps split: prod.split)
  have d: "ufs_data img (st\<lparr>ufs_table := t\<rparr>) = ufs_data img st"
    by (simp add: fun_eq_iff ufs_data_def Let_def b ufs_table_frags)
  show "ufs_data_ok img (st\<lparr>ufs_table := t\<rparr>) = ufs_data_ok img st" "ufs_range img (st\<lparr>ufs_table := t\<rparr>) = ufs_range img st"
      "ufs_cache_ok img (st\<lparr>ufs_table := t\<rparr>) = ufs_cache_ok img st"
    by (simp_all add: fun_eq_iff ufs_data_ok_def ufs_range_def d ufs_map_ok_def ufs_cache_ok_def ufs_table_frags ufs_table_ind b
        del: ind_ok.simps split: prod.split)
qed

definition group_ok :: "bytes \<Rightarrow> ufs_state \<Rightarrow> bytes \<Rightarrow> nat \<Rightarrow> int \<Rightarrow> nat \<Rightarrow> int \<Rightarrow> bool" where
  "group_ok img st ic blkno disk m nb \<longleftrightarrow>
     (if disk = 0 then m \<le> 1 \<and> nb = (if m = 0 then 0 else blksize (ufs_sb st) ic (int blkno))
      else ufs_range img st ic blkno m = frag_bytes img st disk nb \<and> (0 < m \<longrightarrow> frags_in img st disk nb))"

context block_device
begin

lemma frag_group_data:
  assumes "ufs_geometry st" and "ufs_cache_ok img st fp" and "0 < nblks" and "\<forall>i < m + nblks. ufs_data_ok img st (i_ic fp) (blkno + i)"
    and "disk = ufs_block img st (i_ic fp) blkno" and "ufs_block img st (i_ic fp) (blkno + m) = disk + nc"
    and "nb = nc * fs_fsize (ufs_sb st)" and "0 \<le> nc" and "group_ok img st (i_ic fp) blkno disk m nb" and "disk = 0 \<longrightarrow> m = 0"
  shows "\<exists>m' nb' fp'. frag_group dev_read st disk (blkno + m) nblks m nc nb fp = Some ((m', nb'), fp') \<and> m < m' \<and> m' \<le> m + nblks
           \<and> map_frame fp fp' \<and> ufs_cache_ok img st fp' \<and> group_ok img st (i_ic fp) blkno disk m' nb' \<and> 0 \<le> nb'"
  using assms
proof (induction nblks arbitrary: m nc nb fp)
  case (Suc nblks)
  let ?fs = "ufs_sb st" and ?f = "fs_fsize (ufs_sb st)" and ?ic = "i_ic fp"
  define sz where "sz = blksize ?fs ?ic (int (blkno + m))"
  define nf where "nf = numfrags ?fs sz"
  note bf = blksize_frags(2-5) [OF Suc.prems(1), where ic = ?ic and lbn = "int (blkno + m)", folded sz_def nf_def]
  have dat: "ufs_data_ok img st ?ic (blkno + m)" using Suc.prems(4) by simp
  have f: "0 < ?f" and sz: "0 \<le> sz" "nf * ?f = sz" and sz_pos: "0 < sz"
    using blksize_frags(1) [OF Suc.prems(1)] bf dat by (auto simp: ufs_data_ok_def sz_def)
  have nf: "0 < nf" using sz(2) sz_pos f by (metis zero_less_mult_pos2)
  have nb: "nb + sz = (nc + nf) * ?f" using Suc.prems(7) sz(2) by (simp add: distrib_right)
  have pos: "0 \<le> nb + sz" using Suc.prems(7,8) sz(1) f by simp
  have disk0: "0 \<le> disk"
    using Suc.prems(4,5) f by (auto simp: ufs_data_ok_def Let_def frags_in_def dest!: spec [of _ 0])
  have dm: "frags_in img st (disk + nc) sz" if "disk \<noteq> 0"
    using dat Suc.prems(6,8) disk0 that by (auto simp: ufs_data_ok_def Let_def sz_def)
  have grp: "group_ok img st ?ic blkno disk (Suc m) (nb + sz)"
  proof (cases "disk = 0")
    case True
    with Suc.prems show ?thesis by (simp add: group_ok_def sz_def)
  next
    case False
    have "ufs_data img st ?ic (blkno + m) = frag_bytes img st (disk + nc) sz"
      using Suc.prems(6,8) False disk0 by (simp add: ufs_data_def Let_def sz_def)
    moreover have "frags_in img st disk (nb + sz)"
      using dm [OF False] Suc.prems(7,8) disk0 f by (auto simp: frags_in_def algebra_simps) (smt (verit) mult_nonneg_nonneg)
    ultimately show ?thesis
      using False Suc.prems(7-9) frag_bytes_append [OF Suc.prems(1) disk0 Suc.prems(8) sz(1), of img]
      by (simp add: group_ok_def ufs_range_Suc)
  qed
  show ?case
  proof (cases "nblks = 0")
    case True
    with grp Suc.prems(2) pos show ?thesis
      by (auto simp: Let_def sz_def intro: map_frame_refl)
  next
    case False
    have "ufs_data_ok img st ?ic (blkno + m + 1)" using Suc.prems(4) [rule_format, of "m + 1"] False by simp
    then have "ufs_map_ok img st ?ic (blkno + m + 1)" by (simp add: ufs_data_ok_def)
    from block_map_uncached [OF Suc.prems(1,2) this] obtain fp1 where
      f1: "block_map dev_read st (int (blkno + m + 1)) fp = Some (ufs_block img st ?ic (blkno + m + 1), fp1)" "map_frame fp fp1"
        "ufs_cache_ok img st fp1" by blast
    show ?thesis
    proof (cases "ufs_block img st ?ic (blkno + m + 1) = disk + (nc + nf)")
      case neq: False
      with f1 False grp pos show ?thesis by (auto simp: Let_def sz_def nf_def)
    next
      case eq: True
      have nz: "disk \<noteq> 0"
      proof
        assume z: "disk = 0"
        then have "nc = 0" using Suc.prems(5,6,10) by simp
        with z eq have "ufs_block img st ?ic (blkno + m + 1) = nf" by simp
        moreover have "nf * ?f \<le> fs_bsize ?fs" using bf by simp
        ultimately show False
          using \<open>ufs_data_ok img st ?ic (blkno + m + 1)\<close> nf by (auto simp: ufs_data_ok_def Let_def)
      qed
      note fr = map_frame_fields(1) [OF f1(2)]
      have "\<exists>m' nb' fp'. frag_group dev_read st disk (blkno + Suc m) nblks (Suc m) (nc + nf) (nb + sz) fp1 = Some ((m', nb'), fp')
          \<and> Suc m < m' \<and> m' \<le> Suc m + nblks \<and> map_frame fp1 fp' \<and> ufs_cache_ok img st fp'
          \<and> group_ok img st (i_ic fp1) blkno disk m' nb' \<and> 0 \<le> nb'"
        by (rule Suc.IH) (use Suc.prems f1(3) False eq nb nf grp nz fr in auto)
      then obtain m' nb' fp' where "frag_group dev_read st disk (blkno + Suc m) nblks (Suc m) (nc + nf) (nb + sz) fp1 = Some ((m', nb'), fp')"
          "Suc m < m'" "m' \<le> Suc m + nblks" "map_frame fp1 fp'" "ufs_cache_ok img st fp'"
          "group_ok img st (i_ic fp1) blkno disk m' nb'" "0 \<le> nb'" by blast
      with f1 eq False fr map_frame_trans [OF f1(2)] show ?thesis by (auto simp: Let_def sz_def nf_def)
    qed
  qed
qed simp

lemma breadi_data:
  assumes "ufs_geometry st" and "ufs_cache_ok img st fp" and "\<forall>i < n. ufs_data_ok img st (i_ic fp) (blkno + i)"
  shows "\<exists>fp'. breadi dev_read st blkno n tot buf fp
             = Some ((tot + int (length (ufs_range img st (i_ic fp) blkno n)), buf @ ufs_range img st (i_ic fp) blkno n), fp')
           \<and> map_frame fp fp' \<and> ufs_cache_ok img st fp'"
  using assms
proof (induction n arbitrary: blkno tot buf fp rule: less_induct)
  case (less n)
  let ?ic = "i_ic fp"
  show ?case
  proof (cases "n = 0")
    case True
    with less.prems(2) show ?thesis by (subst breadi.simps) (auto simp: ufs_range_def intro: map_frame_refl)
  next
    case False
    define disk where "disk = ufs_block img st ?ic blkno"
    have ok0: "ufs_data_ok img st ?ic blkno" using less.prems(3) False by (metis add.right_neutral gr0I)
    then have "ufs_map_ok img st ?ic blkno" by (simp add: ufs_data_ok_def)
    from block_map_uncached [OF less.prems(1,2) this] obtain fp1 where
      f1: "block_map dev_read st (int blkno) fp = Some (disk, fp1)" "map_frame fp fp1" "ufs_cache_ok img st fp1"
      by (auto simp: disk_def)
    note i1 = map_frame_fields(1) [OF f1(2)]
    have "\<exists>m nb fp2. frag_group dev_read st disk (blkno + 0) n 0 0 0 fp1 = Some ((m, nb), fp2) \<and> 0 < m \<and> m \<le> 0 + n
        \<and> map_frame fp1 fp2 \<and> ufs_cache_ok img st fp2 \<and> group_ok img st (i_ic fp1) blkno disk m nb \<and> 0 \<le> nb"
      by (rule frag_group_data [OF less.prems(1) f1(3)])
        (use less.prems(3) False i1 in \<open>auto simp: disk_def group_ok_def ufs_range_def frag_bytes_def\<close>)
    then obtain m nb fp2 where f2: "frag_group dev_read st disk blkno n 0 0 0 fp1 = Some ((m, nb), fp2)" "0 < m" "m \<le> n"
        "map_frame fp1 fp2" "ufs_cache_ok img st fp2" "group_ok img st ?ic blkno disk m nb" "0 \<le> nb"
      using i1 by auto
    let ?d = "ufs_range img st ?ic blkno m"
    have step: "breadi dev_read st blkno n tot buf fp = breadi dev_read st (blkno + m) (n - m) (tot + nb) (buf @ ?d) fp2"
      and len: "int (length ?d) = nb"
    proof -
      show "int (length ?d) = nb"
      proof (cases "disk = 0")
        case True
        with f2(2,6) have "m = 1" by (simp add: group_ok_def)
        with True f2(6,7) show ?thesis by (simp add: group_ok_def ufs_range_def ufs_data_def Let_def disk_def)
      next
        case nz: False
        with f2(2,6) show ?thesis using read_frags(2) [OF less.prems(1) _ f2(7), of disk] by (simp add: group_ok_def)
      qed
      show "breadi dev_read st blkno n tot buf fp = breadi dev_read st (blkno + m) (n - m) (tot + nb) (buf @ ?d) fp2"
      proof (cases "disk = 0")
        case True
        with f2(2,6) have "m = 1" by (simp add: group_ok_def)
        with True f2(6) have "?d = replicate (nat nb) 0" by (simp add: group_ok_def ufs_range_def ufs_data_def Let_def disk_def)
        with True False f1 f2 show ?thesis by (subst breadi.simps) simp
      next
        case nz: False
        with f2(2,6) have "?d = frag_bytes img st disk nb" "frags_in img st disk nb" by (simp_all add: group_ok_def)
        with nz False f1 f2 read_frags(1) [OF less.prems(1) _ f2(7), of disk] show ?thesis by (subst breadi.simps) simp
      qed
    qed
    note fr = map_frame_trans [OF f1(2) f2(4)]
    note i2 = map_frame_fields(1) [OF fr]
    have "\<exists>fp'. breadi dev_read st (blkno + m) (n - m) (tot + nb) (buf @ ?d) fp2
        = Some ((tot + nb + int (length (ufs_range img st (i_ic fp2) (blkno + m) (n - m))),
            (buf @ ?d) @ ufs_range img st (i_ic fp2) (blkno + m) (n - m)), fp') \<and> map_frame fp2 fp' \<and> ufs_cache_ok img st fp'"
      by (rule less.IH) (use f2(2,3,5) less.prems(1,3) i2 False in \<open>auto simp: add.assoc\<close>)
    moreover have "ufs_range img st ?ic blkno n = ?d @ ufs_range img st ?ic (blkno + m) (n - m)"
      using ufs_range_add [of img st ?ic blkno m "n - m"] f2(3) by simp
    ultimately show ?thesis using step len i2 map_frame_trans [OF fr] by auto
  qed
qed

end

subsection \<open>Properties\<close>

text \<open>
  The block map of the fast file system with its cached block per level returns the address that the inode and the indirect blocks on disk
  give, for direct, single-, double- and triple-indirect blocks and holes, and keeps the caches consistent with the disk.
\<close>

theorem block_map_cached:
  assumes "sector_device img rd" and "SECT_SIZE dvd length img"
    and "ufs_geometry st" and "ufs_cache_ok img st fp" and "ufs_map_ok img st (i_ic fp) blk"
  shows "\<exists>fp'. block_map (cons_read rd) st (int blk) fp = Some (ufs_block img st (i_ic fp) blk, fp')
           \<and> map_frame fp fp' \<and> ufs_cache_ok img st fp'"
  by (rule block_device.block_map_uncached [OF cons_block_device]) (use assms in auto)


definition ufs_example_sb :: bytes where
  "ufs_example_sb = replicate 16 0 @ [16, 0, 0, 0] @ replicate 8 0 @ [255, 255, 255, 255] @ replicate 16 0 @ [0, 32, 0, 0, 0, 4, 0, 0]
     @ replicate 16 0 @ [0, 0xe0, 255, 255, 0, 0xfc, 255, 255, 13, 0, 0, 0, 10, 0, 0, 0] @ replicate 8 0 @ [3, 0, 0, 0, 1, 0, 0, 0]
     @ replicate 12 0 @ [0, 8, 0, 0, 64, 0, 0, 0] @ replicate 60 0 @ [64, 0, 0, 0, 0, 32, 0, 0] @ replicate 1180 0 @ [0x54, 0x19, 1, 0]
     @ replicate 6816 0"

definition ufs_example_inode :: bytes where
  "ufs_example_inode = [0, 0x81] @ replicate 6 0 @ [0, 0x24] @ replicate 30 0 @ [24] @ replicate 87 0"

definition ufs_example :: ufs_state where
  "ufs_example = \<lparr>ufs_partition_offset = 0, ufs_sb = ufs_example_sb, ufs_blocksize = 8192,
     ufs_table = [zero_file\<lparr>i_ic := ufs_example_inode, f_nindir := [2048, 0x400000, 0, 0], f_blkno := [-1, -1, -1]\<rparr>]\<rparr>"

lemma ufs_example_fields:
  "fs_bsize ufs_example_sb = 8192" "fs_fsize ufs_example_sb = 1024" "fs_bmask ufs_example_sb = - 8192" "fs_fmask ufs_example_sb = - 1024"
  "fs_bshift ufs_example_sb = 13" "fs_fshift ufs_example_sb = 10" "fs_fsbtodb ufs_example_sb = 1" "fs_nindir ufs_example_sb = 2048"
  "fs_inopb ufs_example_sb = 64" "fs_ipg ufs_example_sb = 64" "fs_magic ufs_example_sb = FS_MAGIC" "length ufs_example_sb = 8192"
  "fs_iblkno ufs_example_sb = 16" "fs_cgoffset ufs_example_sb = 0" "fs_fpg ufs_example_sb = 8192" "fs_fragshift ufs_example_sb = 3"
  by (simp_all add: ufs_example_sb_def fs_iblkno_def fs_cgoffset_def fs_fpg_def fs_fragshift_def fs_bsize_def fs_fsize_def fs_bmask_def fs_fmask_def fs_bshift_def fs_fshift_def fs_fsbtodb_def
      fs_nindir_def fs_inopb_def fs_ipg_def fs_magic_def FS_MAGIC_def le32_at_def slice_def)

lemma ufs_example_inode_fields:
  "ic_size ufs_example_inode = 9216" "ic_db ufs_example_inode 0 = 24" "ic_db ufs_example_inode (Suc 0) = 0"
  by (simp_all add: ufs_example_inode_def ic_size_def ic_db_def le32_at_def slice_def)

lemma ufs_example_geometry: "ufs_geometry ufs_example"
  by (simp add: ufs_geometry_def ufs_example_def ufs_example_fields MAXBSIZE_def sizeof_fs_def)

lemma ufs_example_cache: "ufs_cache_ok img ufs_example (ufs_table ufs_example ! 0)"
proof -
  have "l = 0 \<or> l = 1 \<or> l = 2" if "l < NIADDR" for l using that by (auto simp: NIADDR_def)
  then show ?thesis
    by (auto simp: ufs_cache_ok_def ufs_example_def ufs_example_fields indirect_counts_def zero_file_def NIADDR_def less_Suc_eq numeral_3_eq_3)
qed

definition ufs_image :: bytes where
  "ufs_image = replicate 24576 0 @ replicate 8192 7"

lemma ufs_image_facts: "length ufs_image = 32768" "SECT_SIZE dvd length ufs_image" "sector_device ufs_image (image_read ufs_image)"
  by (simp_all add: ufs_image_def SECT_SIZE_def)

lemma ufs_example_data:
  "ufs_block ufs_image ufs_example ufs_example_inode 0 = 24" "ufs_block ufs_image ufs_example ufs_example_inode (Suc 0) = 0"
  "blksize (ufs_sb ufs_example) ufs_example_inode 0 = 8192" "blksize (ufs_sb ufs_example) ufs_example_inode 1 = 1024"
  by (simp_all add: ufs_block_def ufs_example_inode_fields blksize_def ufs_example_def ufs_example_fields NDADDR_def blkoff_def fragroundup_def
      not_eq_complement push_bit_eq_mult)


theorem block_map_cached_witness:
  "\<exists>fp'. block_map (cons_read (image_read ufs_image)) ufs_example (int 12) (ufs_table ufs_example ! 0) = Some (0, fp')"
proof -
  let ?fp = "ufs_table ufs_example ! 0"
  have l: "ufs_level ufs_example 12 = (0, 0)"
    by (simp add: ufs_level_def NDADDR_def indirect_counts_def ufs_example_def ufs_example_fields)
  have ib: "ic_ib (i_ic ?fp) 0 = 0"
    by (simp add: ufs_example_def ufs_example_inode_def ic_ib_def le32_at_def slice_def)
  have "ufs_map_ok ufs_image ufs_example (i_ic ?fp) 12" "ufs_block ufs_image ufs_example (i_ic ?fp) 12 = 0"
    by (simp_all add: ufs_map_ok_def ufs_block_def l ib NIADDR_def)
  with block_map_cached [OF ufs_image_facts(3,2) ufs_example_geometry ufs_example_cache, of 12] show ?thesis by auto
qed

subsection \<open>Where the reader fails\<close>

text \<open>
  Symbolic links cannot be followed: when a component of the path is a symbolic link, \<open>ufs_open\<close> has no defined result, because
  it takes the length of the string at a pointer that is still \<open>NULL\<close>.
\<close>

theorem ufs_open_symlink:
  assumes "path \<noteq> []" and "length path \<le> MAXPATHLEN" and "f_inuse (ufs_table st ! 0) = 0" and "bs = nat (fs_bsize (ufs_sb st))"
    and "read_inode rd st ROOTINO ((ufs_table st ! 0)\<lparr>f_buf := take bs (raw @ replicate bs 0),
           f_allocated := f_allocated (ufs_table st ! 0) @ [bs]\<rparr>) = Some (r, root)"
    and "tokens {47} path = c # cs" and "ic_mode (i_ic root) AND IFMT = IFDIR"
    and "ufs_search_dir rd st c 0 root = Some (Some inumber, fp)" and "read_inode rd st inumber fp = Some (0, link)"
    and "ic_mode (i_ic link) AND IFMT = IFLNK"
  shows "ufs_open rd raw path st = None"
  using assms by (simp add: ufs_open_def)

text \<open>
  A fragment behind the first 2 GB of a partition is looked for 4 GB in front of its place.
\<close>

theorem ufs_offset_wraps:
  assumes "ufs_geometry st" and "2 ^ 31 \<le> no * fs_fsize (ufs_sb st)" and "no * fs_fsize (ufs_sb st) < 2 ^ 32"
  shows "db_offset st no = ufs_partition_offset st + no * fs_fsize (ufs_sb st) - 2 ^ 32"
proof -
  let ?k = "fs_fsbtodb (ufs_sb st)" and ?x = "no * fs_fsize (ufs_sb st)"
  have f: "fs_fsize (ufs_sb st) = 2 ^ ?k * 512" using assms(1) by (simp add: ufs_geometry_def Let_def power_add)
  have "push_bit ?k (word_of_int no :: u32) * 512 = word_of_int ?x"
    by (simp add: f push_bit_eq_mult word_of_int_2p mult.assoc)
  also have "word_of_int ?x = (word_of_int (?x - 2 ^ 32) :: u32)" by (simp add: word_of_int_eq_iff take_bit_eq_mod)
  also have "sint (word_of_int (?x - 2 ^ 32) :: u32) = ?x - 2 ^ 32"
    using assms(2,3) by (subst sint_sbintrunc') (simp add: signed_take_bit_int_eq_self)
  finally show ?thesis by (simp add: db_offset_def fsbtodb_def DEV_BSIZE_def)
qed

text \<open>With blocks of 8 KB the count of the triple-indirect blocks wraps to 0, and they cannot be reached.\<close>

theorem ufs_triple_unreachable:
  assumes "fs_nindir (ufs_sb st) = 2048" and "12 + 2048 + 2048 * 2048 \<le> blk"
  shows "ufs_block img st ic blk = - 1"
  using assms by (simp add: ufs_block_def ufs_level_def indirect_counts_def NDADDR_def NIADDR_def)

text \<open>A medium on which every block is the same: it serves as inode table and as root directory with the link \<open>a\<close>.\<close>

definition link_block :: bytes where
  "link_block = [3, 0, 0, 0, 12, 0, 1, 0, 97, 0, 0, 0] @ replicate 244 0
     @ [0, 0x40] @ replicate 6 0 @ [0, 32] @ replicate 30 0 @ [1] @ replicate 87 0 @ [0, 0xa0] @ replicate 7806 0"

definition link_reader :: reader where
  "link_reader n off = (n, link_block)"

definition link_ufs :: ufs_state where
  "link_ufs = ufs_example\<lparr>ufs_table := [zero_file]\<rparr>"

definition link_root :: ufs_file where
  "link_root = zero_file\<lparr>i_ic := slice 256 128 link_block, f_buf := link_block, f_blkno := [-1, -1, -1], f_allocated := [8192]\<rparr>"

lemma link_block_facts:
  "length link_block = 8192" "ic_mode (slice 256 128 link_block) = 0x4000" "ic_size (slice 256 128 link_block) = 8192"
  "ic_db (slice 256 128 link_block) 0 = 1" "ic_mode (slice 384 128 link_block) = 0xa000"
  "ud_ino link_block 0 = 3" "ud_namlen link_block 0 = 1" "slice 8 2 link_block = [97, 0]"
  by (simp_all add: link_block_def ic_mode_def ic_size_def ic_db_def ud_ino_def ud_namlen_def le16_at_def le32_at_def slice_def)

lemma link_read_inode:
  assumes "x < 64" and "length (f_buf fp) = 8192" and "length (f_blk fp) = NIADDR" and "length (f_blkno fp) = NIADDR"
    and "0 \<le> db_offset link_ufs (itod ufs_example_sb x)"
  shows "read_inode link_reader link_ufs x fp
     = Some (0, fp\<lparr>f_buf := link_block, i_ic := slice (128 * unat x) 128 link_block, f_blk := replicate NIADDR None, f_blkno := replicate NIADDR (- 1)\<rparr>)"
proof -
  have u: "unat (x mod 64) = unat x" "unat x < 64" using assms(1) by (simp_all add: unat_mod word_less_nat_alt)
  show ?thesis
    using assms u
    by (simp add: read_inode_def link_ufs_def ufs_example_def ufs_example_fields read_at_def link_reader_def overwrite_def link_block_facts itoo_def
        sizeof_dinode_def)
qed

lemma link_offsets: "0 \<le> db_offset link_ufs (itod ufs_example_sb 2)" "0 \<le> db_offset link_ufs (itod ufs_example_sb 3)"
  by (simp_all add: db_offset_def fsbtodb_def DEV_BSIZE_def itod_def cgimin_def cgstart_def cgbase_def ufs_example_fields)
    (simp_all add: link_ufs_def ufs_example_def ufs_example_fields push_bit_eq_mult)

lemma link_search: "ufs_search_dir link_reader link_ufs [97] 0 link_root = Some (Some 3, link_root)"
proof -
  have fs: "ufs_sb link_ufs = ufs_example_sb" "ufs_partition_offset link_ufs = 0" by (simp_all add: link_ufs_def ufs_example_def)
  have ic: "i_ic link_root = slice 256 128 link_block" "f_buf link_root = link_block" by (simp_all add: link_root_def)
  have bm: "block_map link_reader link_ufs 0 link_root = Some (1, link_root)"
    by (simp add: block_map_def NDADDR_def ic link_block_facts)
  have bs: "blksize ufs_example_sb (slice 256 128 link_block) 0 = 8192"
    by (simp add: blksize_def ufs_example_fields link_block_facts NDADDR_def push_bit_eq_mult)
  have "0 \<le> db_offset link_ufs 1" by (simp add: db_offset_def fs ufs_example_fields fsbtodb_def DEV_BSIZE_def push_bit_eq_mult)
  then have "breadi link_reader link_ufs 0 1 0 [] link_root = Some ((8192, link_block), link_root)"
    using bm bs by (subst breadi.simps) (simp add: fs ic read_at_def link_reader_def breadi.simps [of _ _ _ 0])
  moreover have "search_entries 8192 [97] link_block 0 = Some (Some 3)"
    by (subst search_entries.simps) (simp add: link_block_facts name_equal_def Let_def link_block_facts(8) [unfolded numeral_2_eq_2])
  moreover have "link_root\<lparr>f_buf := link_block\<rparr> = link_root" by (simp add: link_root_def)
  ultimately show ?thesis
    by (subst ufs_search_dir.simps) (simp add: fs ic ufs_example_fields link_block_facts overwrite_def)
qed

lemma link_root_read:
  "read_inode link_reader link_ufs ROOTINO ((ufs_table link_ufs ! 0)\<lparr>f_buf := take 8192 ([] @ replicate 8192 0),
     f_allocated := f_allocated (ufs_table link_ufs ! 0) @ [8192]\<rparr>) = Some (0, link_root)"
  using link_read_inode [of 2 "zero_file\<lparr>f_buf := replicate 8192 0, f_allocated := [8192]\<rparr>"] link_offsets(1)
  by (simp add: ROOTINO_def link_root_def link_ufs_def zero_file_def NIADDR_def numeral_3_eq_3)

theorem ufs_open_symlink_witness: "ufs_open link_reader [] [47, 97] link_ufs = None"
proof -
  have bs: "8192 = nat (fs_bsize (ufs_sb link_ufs))" by (simp add: link_ufs_def ufs_example_def ufs_example_fields)
  have "length (f_blk link_root) = NIADDR" "length (f_blkno link_root) = NIADDR" "length (f_buf link_root) = 8192"
    by (simp_all add: link_root_def zero_file_def NIADDR_def link_block_facts)
  then have "\<exists>fp. read_inode link_reader link_ufs 3 link_root = Some (0, fp) \<and> i_ic fp = slice 384 128 link_block"
    using link_read_inode [of 3 link_root] link_offsets(2) by simp
  then obtain fp where fp: "read_inode link_reader link_ufs 3 link_root = Some (0, fp)" "i_ic fp = slice 384 128 link_block" by blast
  have mode: "ic_mode (i_ic fp) AND IFMT = IFLNK" by (simp add: fp(2) link_block_facts IFMT_def IFLNK_def)
  show ?thesis
    by (rule ufs_open_symlink [OF _ _ _ bs link_root_read _ _ link_search fp(1) mode])
      (simp_all add: tokens.simps link_root_def link_block_facts IFMT_def IFDIR_def MAXPATHLEN_def link_ufs_def zero_file_def)
qed

end
