(* ===== verification/Rock.thy ===== *)
theory Rock
  imports Ext2
begin

text \<open>
  The number formats of ISO 9660 and the Rock Ridge extensions (\<^verbatim>\<open>src/lib/isolib.c\<close>, \<^verbatim>\<open>src/include/iso.h\<close>): alternate names, POSIX attributes
  and symbolic links in the system use area of a directory record.

  A record is a position in a buffer.  The three parsers share the loop over the entries of a system use area and
  the continuation in another block, here \<open>susp_loop\<close> and \<open>susp_areas\<close> with one handler per parser.  Reading outside a buffer gives \<^const>\<open>None\<close>, as do
  continuations without end when the fuel is used up.  \<open>raw\<close> is the content of memory that is not initialised: it matters, because
  \<open>strncat\<close> of this program does not terminate a string that it cuts off.
\<close>

subsection \<open>Numbers\<close>

definition isonum_711 :: "bytes \<Rightarrow> nat \<Rightarrow> int" where
  "isonum_711 b p = uint (b ! p)"

definition isonum_712 :: "bytes \<Rightarrow> nat \<Rightarrow> int" where
  "isonum_712 b p = sint (b ! p)"

definition isonum_721 :: "bytes \<Rightarrow> nat \<Rightarrow> int" where
  "isonum_721 b p = uint (b ! p) OR push_bit 8 (uint (b ! (p + 1)))"

definition isonum_722 :: "bytes \<Rightarrow> nat \<Rightarrow> int" where
  "isonum_722 b p = push_bit 8 (uint (b ! p)) OR uint (b ! (p + 1))"

definition isonum_723 :: "bytes \<Rightarrow> nat \<Rightarrow> int" where
  "isonum_723 b p = isonum_721 b p"

text \<open>The shift of the highest byte reaches the sign of the \<open>int\<close>.\<close>

definition isonum_731 :: "bytes \<Rightarrow> nat \<Rightarrow> int" where
  "isonum_731 b p =
     sint (ucast (b ! p) OR push_bit 8 (ucast (b ! (p + 1))) OR push_bit 16 (ucast (b ! (p + 2)))
           OR push_bit 24 (ucast (b ! (p + 3))) :: u32)"

definition isonum_732 :: "bytes \<Rightarrow> nat \<Rightarrow> int" where
  "isonum_732 b p =
     sint (push_bit 24 (ucast (b ! p)) OR push_bit 16 (ucast (b ! (p + 1))) OR push_bit 8 (ucast (b ! (p + 2)))
           OR ucast (b ! (p + 3)) :: u32)"

definition isonum_733 :: "bytes \<Rightarrow> nat \<Rightarrow> int" where
  "isonum_733 b p = isonum_731 b p"

subsection \<open>System use areas\<close>

definition ISOFS_BLOCK_SIZE :: nat where "ISOFS_BLOCK_SIZE = 2048"
definition ISOFS_BLOCK_BITS :: nat where "ISOFS_BLOCK_BITS = 11"
definition sizeof_record :: nat where "sizeof_record = 33"
definition RR_PX :: u8 where "RR_PX = 1"
definition RR_SL :: u8 where "RR_SL = 4"
definition RR_NM :: u8 where "RR_NM = 8"
definition RR_CL :: u8 where "RR_CL = 16"
definition RR_TF :: u8 where "RR_TF = 128"

definition rr_sig :: "bytes \<Rightarrow> nat \<Rightarrow> char \<times> char \<Rightarrow> bool" where
  "rr_sig buf p ab \<longleftrightarrow> buf ! p = of_char (fst ab) \<and> buf ! (p + 1) = of_char (snd ab)"

definition rr_len :: "bytes \<Rightarrow> nat \<Rightarrow> nat" where
  "rr_len buf p = unat (buf ! (p + 2))"

text \<open>The continuation that a \<open>CE\<close> entry announces, and what the parser has collected.\<close>

record 'a susp =
  cont_extent :: int
  cont_offset :: int
  cont_size :: int
  found :: 'a

definition susp_start :: "'a \<Rightarrow> 'a susp" where
  "susp_start x = \<lparr>cont_extent = 0, cont_offset = 0, cont_size = 0, found = x\<rparr>"

text \<open>\<open>SETUP_ROCK_RIDGE\<close>: where the area of the record at \<open>p\<close> starts, and its length.\<close>

definition SETUP_ROCK_RIDGE :: "bytes \<Rightarrow> nat \<Rightarrow> nat \<times> int" where
  "SETUP_ROCK_RIDGE buf p =
     (let len = sizeof_record + unat (buf ! (p + 32)); len = (if odd len then len + 1 else len)
      in (p + len, uint (buf ! p) - int len))"

definition CHECK_CE :: "bytes \<Rightarrow> nat \<Rightarrow> 'a susp \<Rightarrow> ('a susp \<times> bool) option" where
  "CHECK_CE buf p a =
     (if p + 24 > length buf then None
      else Some (a\<lparr>cont_extent := isonum_733 buf (p + 4), cont_offset := isonum_733 buf (p + 12), cont_size := isonum_733 buf (p + 20)\<rparr>, False))"

definition CHECK_SP :: "bytes \<Rightarrow> nat \<Rightarrow> 'a susp \<Rightarrow> ('a susp \<times> bool) option" where
  "CHECK_SP buf p a = (if p + 6 > length buf then None else Some (a, buf ! (p + 4) \<noteq> 0xbe \<or> buf ! (p + 5) \<noteq> 0xef))"

definition CHECK_RR :: "u8 \<Rightarrow> bytes \<Rightarrow> nat \<Rightarrow> 'a susp \<Rightarrow> ('a susp \<times> bool) option" where
  "CHECK_RR flags buf p a = (if p + 5 > length buf then None else Some (a, buf ! (p + 4) AND flags = 0))"

text \<open>
  The loop over the entries.  A handler returns the new state and whether it leaves by \<open>goto out\<close>.  An entry of
  length 0 ends the loop; \<open>zero_out\<close> says whether by \<open>goto out\<close>.
\<close>

lemma uint_pos: "w \<noteq> 0 \<Longrightarrow> 0 < uint w"
  using uint_nonnegative [of w] by (simp add: less_le uint_0_iff)

function susp_loop ::
  "(bytes \<Rightarrow> nat \<Rightarrow> 'a susp \<Rightarrow> ('a susp \<times> bool) option) \<Rightarrow> bool \<Rightarrow> bytes \<Rightarrow> nat \<Rightarrow> int \<Rightarrow> 'a susp \<Rightarrow> ('a susp \<times> bool) option" where
  "susp_loop h zero_out buf chr len a =
     (if len > 1 then
        if chr + 3 > length buf then None
        else if buf ! (chr + 2) = 0 then Some (a, zero_out)
        else
          case h buf chr a of
            None \<Rightarrow> None
          | Some (a, True) \<Rightarrow> Some (a, True)
          | Some (a, False) \<Rightarrow> susp_loop h zero_out buf (chr + rr_len buf chr) (len - int (rr_len buf chr)) a
      else Some (a, False))"
  by pat_completeness auto
termination
  by (relation "measure (\<lambda>(h, zero_out, buf, chr, len, a). nat len)") (auto simp: rr_len_def uint_pos)

declare susp_loop.simps [simp del]

text \<open>
  The byte offset of a continuation is an \<open>int\<close>.  After a failed read one parser gives up by \<open>goto out\<close> (\<open>fail_out\<close>), the others go on without the
  continuation.  \<open>base\<close> is where the continuation is taken to start in its buffer.
\<close>

definition cont_pos :: "'a susp \<Rightarrow> int" where
  "cont_pos a = sint (word_of_int (cont_extent a * int ISOFS_BLOCK_SIZE + cont_offset a) :: u32)"

primrec susp_areas ::
  "nat \<Rightarrow> reader \<Rightarrow> (bytes \<Rightarrow> nat \<Rightarrow> 'a susp \<Rightarrow> ('a susp \<times> bool) option) \<Rightarrow> bool \<Rightarrow> bool \<Rightarrow> ('a susp \<Rightarrow> int)
     \<Rightarrow> bytes \<Rightarrow> nat \<Rightarrow> int \<Rightarrow> 'a susp \<Rightarrow> ('a susp \<times> bool) option" where
  "susp_areas 0 rd h zero_out fail_out base buf chr len a = None"
| "susp_areas (Suc n) rd h zero_out fail_out base buf chr len a =
     (case susp_loop h zero_out buf chr len a of
        None \<Rightarrow> None
      | Some (a, True) \<Rightarrow> Some (a, True)
      | Some (a, False) \<Rightarrow>
          if cont_extent a = 0 then Some (a, False)
          else if cont_size a < 0 \<or> base a < 0 then None
          else
            let (r, d) = read_at rd (cont_size a) (cont_pos a)
            in if r \<noteq> cont_size a then Some (a, fail_out)
               else susp_areas n rd h zero_out fail_out base d (nat (base a)) (cont_size a)
                      (a\<lparr>cont_extent := 0, cont_offset := 0, cont_size := 0\<rparr>))"

subsection \<open>Strings in buffers\<close>

text \<open>
  The loop of \<open>strncat\<close> from the end of the string in the destination \<open>d\<close>: the byte that uses up the count is the last one written.
  \<open>cs\<close> is the rest of the source.  The other string routines end with a NUL byte.
\<close>

primrec copy_n :: "bytes \<Rightarrow> nat \<Rightarrow> nat \<Rightarrow> bytes \<Rightarrow> bytes option" where
  "copy_n [] i count d = None"
| "copy_n (c # cs) i count d =
     (if i \<ge> length d then None
      else if c = 0 \<or> count = 1 then Some (d[i := c])
      else copy_n cs (i + 1) (count - 1) (d[i := c]))"

definition buf_strncat :: "bytes \<Rightarrow> bytes \<Rightarrow> nat \<Rightarrow> bytes option" where
  "buf_strncat d cs count =
     (if count = 0 then Some d
      else case string_in d of None \<Rightarrow> None | Some s \<Rightarrow> copy_n cs (length s) count d)"

definition write_at :: "nat \<Rightarrow> bytes \<Rightarrow> bytes \<Rightarrow> bytes option" where
  "write_at i xs d = (if i + length xs \<le> length d then Some (take i d @ xs @ drop (i + length xs) d) else None)"

definition buf_strcat :: "bytes \<Rightarrow> bytes \<Rightarrow> bytes option" where
  "buf_strcat d t = (case string_in d of None \<Rightarrow> None | Some s \<Rightarrow> write_at (length s) (t @ [0]) d)"

text \<open>A count is a \<open>size_t\<close>.\<close>

definition size_t :: "int \<Rightarrow> nat" where
  "size_t i = nat (i mod 2 ^ 64)"

subsection \<open>Names\<close>

record rr_name =
  retname :: bytes
  retnamlen :: int
  truncated :: bool

definition add_name :: "bytes \<Rightarrow> nat \<Rightarrow> rr_name \<Rightarrow> rr_name option" where
  "add_name buf p x =
     (if truncated x then Some x
      else if p + 5 > length buf then None
      else if buf ! (p + 4) AND 6 \<noteq> 0 then Some x
      else if buf ! (p + 4) AND NOT 1 \<noteq> 0 then Some x
      else
        case string_in (retname x) of
          None \<Rightarrow> None
        | Some s \<Rightarrow>
            if size_t (int (length s) + int (rr_len buf p) - 5) \<ge> 254 then
              let i = 254 - int (length s)
              in map_option (\<lambda>d. x\<lparr>retname := d, retnamlen := retnamlen x + i, truncated := True\<rparr>)
                   (buf_strncat (retname x) (drop (p + 5) buf) (size_t i))
            else
              map_option (\<lambda>d. x\<lparr>retname := d, retnamlen := retnamlen x + (int (rr_len buf p) - 5)\<rparr>)
                (buf_strncat (retname x) (drop (p + 5) buf) (size_t (int (rr_len buf p) - 5))))"

definition filename_entry :: "bytes \<Rightarrow> nat \<Rightarrow> rr_name susp \<Rightarrow> (rr_name susp \<times> bool) option" where
  "filename_entry buf p a =
     (if rr_sig buf p (CHR ''R'', CHR ''R'') then CHECK_RR RR_NM buf p a
      else if rr_sig buf p (CHR ''S'', CHR ''P'') then CHECK_SP buf p a
      else if rr_sig buf p (CHR ''C'', CHR ''E'') then CHECK_CE buf p a
      else if rr_sig buf p (CHR ''N'', CHR ''M'') then map_option (\<lambda>x. (a\<lparr>found := x\<rparr>, False)) (add_name buf p (found a))
      else if rr_sig buf p (CHR ''R'', CHR ''E'') then Some (a, True)
      else Some (a, False))"

text \<open>
  The length of the name, 0 when there is none, and the buffer.  \<open>raw\<close> is the buffer before the call.  A continuation is
  looked for at its offset in the block although the buffer already starts there.
\<close>

definition get_rock_ridge_filename :: "nat \<Rightarrow> reader \<Rightarrow> bool \<Rightarrow> bytes \<Rightarrow> nat \<Rightarrow> bytes \<Rightarrow> (int \<times> bytes) option" where
  "get_rock_ridge_filename f rd rock buf p raw =
     (if \<not> rock then Some (0, raw)
      else if p + sizeof_record > length buf \<or> raw = [] then None
      else
        let (chr, len) = SETUP_ROCK_RIDGE buf p; x = \<lparr>retname = raw[0 := 0], retnamlen = 0, truncated = False\<rparr>
        in case susp_areas f rd filename_entry False True cont_offset buf chr len (susp_start x) of
             None \<Rightarrow> None
           | Some (a, True) \<Rightarrow> Some (0, retname (found a))
           | Some (a, False) \<Rightarrow> Some (retnamlen (found a), retname (found a)))"

subsection \<open>Symbolic links\<close>

text \<open>
  The loop over the components of an \<open>SL\<close> entry with flags \<open>fl\<close>; \<open>part\<close> is what a parser does with the component at a position, \<open>sep\<close> what
  it does for a separator.
\<close>

function sl_loop ::
  "(bytes \<Rightarrow> nat \<Rightarrow> 'x \<Rightarrow> 'x option) \<Rightarrow> ('x \<Rightarrow> 'x option) \<Rightarrow> u8 \<Rightarrow> bytes \<Rightarrow> nat \<Rightarrow> int \<Rightarrow> 'x \<Rightarrow> 'x option" where
  "sl_loop part sep fl buf p slen x =
     (if slen > 1 then
        if p + 2 > length buf then None
        else
          case part buf p x of
            None \<Rightarrow> None
          | Some x \<Rightarrow>
              let n = unat (buf ! (p + 1)) + 2; slen' = slen - int n
              in if slen' < 2 then
                   (if fl AND 1 \<noteq> 0 \<and> buf ! p AND 1 = 0 then sep x else Some x)
                 else
                   case (if buf ! p AND NOT 1 \<noteq> 8 \<and> buf ! p AND 1 = 0 then sep x else Some x) of
                     None \<Rightarrow> None
                   | Some x \<Rightarrow> sl_loop part sep fl buf (p + n) slen' x
      else Some x)"
  by pat_completeness auto
termination
  by (relation "measure (\<lambda>(part, sep, fl, buf, p, slen, x). nat slen)") (simp, simp only: in_measure prod.case)

declare sl_loop.simps [simp del]

subsection \<open>Attributes\<close>

record rr_inode =
  rr_mode :: u32
  rr_nlink :: int
  rr_size :: u32
  symlink_len :: u32

definition sl_size_comp :: "bytes \<Rightarrow> nat \<Rightarrow> u32 \<Rightarrow> u32 option" where
  "sl_size_comp buf p n =
     (let fl = buf ! p AND NOT 1
      in if fl = 0 then Some (n + ucast (buf ! (p + 1)))
         else if fl = 2 then Some (n + 1)
         else if fl = 4 then Some (n + 2)
         else if fl = 8 then Some (n + 1)
         else Some n)"

definition sl_size_sep :: "u32 \<Rightarrow> u32 option" where
  "sl_size_sep n = Some (n + 1)"

definition add_link :: "bytes \<Rightarrow> nat \<Rightarrow> rr_inode \<Rightarrow> rr_inode option" where
  "add_link buf p x =
     map_option (\<lambda>n. x\<lparr>rr_size := n, symlink_len := n\<rparr>)
       (sl_loop sl_size_comp sl_size_sep (buf ! (p + 4)) buf (p + 5) (int (rr_len buf p) - 5) (symlink_len x))"

definition inode_entry :: "bytes \<Rightarrow> nat \<Rightarrow> rr_inode susp \<Rightarrow> (rr_inode susp \<times> bool) option" where
  "inode_entry buf p a =
     (if rr_sig buf p (CHR ''R'', CHR ''R'') then CHECK_RR (RR_PX OR RR_TF OR RR_SL OR RR_CL) buf p a
      else if rr_sig buf p (CHR ''S'', CHR ''P'') then CHECK_SP buf p a
      else if rr_sig buf p (CHR ''C'', CHR ''E'') then CHECK_CE buf p a
      else if rr_sig buf p (CHR ''P'', CHR ''X'') then
        if p + 16 > length buf then None
        else Some (a\<lparr>found := (found a)\<lparr>rr_mode := word_of_int (isonum_733 buf (p + 4)), rr_nlink := isonum_733 buf (p + 12)\<rparr>\<rparr>, False)
      else if rr_sig buf p (CHR ''S'', CHR ''L'') then map_option (\<lambda>x. (a\<lparr>found := x\<rparr>, False)) (add_link buf p (found a))
      else if rr_sig buf p (CHR ''R'', CHR ''E'') then Some (a, True)
      else Some (a, False))"

text \<open>What an entry has set stays when the parser gives up later.\<close>

definition parse_rock_ridge_inode ::
  "nat \<Rightarrow> reader \<Rightarrow> bool \<Rightarrow> bytes \<Rightarrow> nat \<Rightarrow> rr_inode \<Rightarrow> (bool \<times> rr_inode) option" where
  "parse_rock_ridge_inode f rd rock buf p x =
     (if \<not> rock then Some (False, x)
      else if p + sizeof_record > length buf then None
      else
        let (chr, len) = SETUP_ROCK_RIDGE buf p
        in map_option (\<lambda>(a, gone). (\<not> gone, found a))
             (susp_areas f rd inode_entry True False (\<lambda>a. 0) buf chr len (susp_start (x\<lparr>symlink_len := 0\<rparr>))))"

subsection \<open>The text of a symbolic link\<close>

text \<open>The buffer \<open>rpnt\<close> has one byte more than the size in the inode; it is allocated by the first component.\<close>

definition sl_buffer :: "u32 \<Rightarrow> (nat \<Rightarrow> u8) \<Rightarrow> bytes" where
  "sl_buffer n raw = (map raw [0..<unat (n + 1)])[0 := 0]"

definition sl_text_comp :: "u32 \<Rightarrow> (nat \<Rightarrow> u8) \<Rightarrow> bytes \<Rightarrow> nat \<Rightarrow> bytes option \<Rightarrow> bytes option option" where
  "sl_text_comp n raw buf p rpnt =
     (let d = (case rpnt of None \<Rightarrow> sl_buffer n raw | Some d \<Rightarrow> d); fl = buf ! p AND NOT 1
      in map_option Some
           (if fl = 0 then buf_strncat d (drop (p + 2) buf) (unat (buf ! (p + 1)))
            else if fl = 2 then buf_strcat d [46]
            else if fl = 4 then buf_strcat d [46, 46]
            else if fl = 8 then buf_strcat d [47]
            else Some d))"

definition sl_text_sep :: "bytes option \<Rightarrow> bytes option option" where
  "sl_text_sep rpnt = (case rpnt of None \<Rightarrow> None | Some d \<Rightarrow> map_option Some (buf_strcat d [47]))"

definition symlink_entry ::
  "u32 \<Rightarrow> (nat \<Rightarrow> u8) \<Rightarrow> bytes \<Rightarrow> nat \<Rightarrow> bytes option susp \<Rightarrow> (bytes option susp \<times> bool) option" where
  "symlink_entry n raw buf p a =
     (if rr_sig buf p (CHR ''R'', CHR ''R'') then CHECK_RR RR_SL buf p a
      else if rr_sig buf p (CHR ''S'', CHR ''P'') then CHECK_SP buf p a
      else if rr_sig buf p (CHR ''S'', CHR ''L'') then
        map_option (\<lambda>x. (a\<lparr>found := x\<rparr>, False))
          (sl_loop (sl_text_comp n raw) sl_text_sep (buf ! (p + 4)) buf (p + 5) (int (rr_len buf p) - 5) (found a))
      else if rr_sig buf p (CHR ''C'', CHR ''E'') then CHECK_CE buf p a
      else Some (a, False))"

text \<open>\<open>ino\<close> and \<open>n\<close> are the number and the size of the inode; a result of \<^const>\<open>None\<close> in the option is \<open>NULL\<close>.\<close>

definition get_rock_ridge_symlink ::
  "nat \<Rightarrow> reader \<Rightarrow> bool \<Rightarrow> int \<Rightarrow> u32 \<Rightarrow> (nat \<Rightarrow> u8) \<Rightarrow> bytes option option" where
  "get_rock_ridge_symlink f rd rock ino n raw =
     (if \<not> rock then Some None
      else
        let off = nat (ino mod int ISOFS_BLOCK_SIZE);
            (r, buf) = read_at rd (int ISOFS_BLOCK_SIZE) (push_bit ISOFS_BLOCK_BITS (drop_bit ISOFS_BLOCK_BITS ino))
        in if r \<noteq> int ISOFS_BLOCK_SIZE then Some None
           else if off \<ge> length buf then None
           else if off + unat (buf ! off) > ISOFS_BLOCK_SIZE then Some None
           else if off + sizeof_record > length buf then None
           else
             let (chr, len) = SETUP_ROCK_RIDGE buf off
             in case susp_areas f rd (symlink_entry n raw) True False (\<lambda>a. 0) buf chr len (susp_start None) of
                  None \<Rightarrow> None
                | Some (a, True) \<Rightarrow> Some None
                | Some (a, False) \<Rightarrow> Some (found a))"

subsection \<open>Entries of an area\<close>

definition entry_ok :: "bytes \<Rightarrow> bool" where
  "entry_ok e \<longleftrightarrow> 4 \<le> length e \<and> length e < 256 \<and> e ! 2 = of_nat (length e)"

text \<open>Entry \<open>e\<close> is at position \<open>p\<close>.\<close>

definition entry_at :: "bytes \<Rightarrow> nat \<Rightarrow> bytes \<Rightarrow> bool" where
  "entry_at buf p e \<longleftrightarrow> entry_ok e \<and> slice p (length e) buf = e"

definition has_sig :: "string \<Rightarrow> bytes \<Rightarrow> bool" where
  "has_sig sg e \<longleftrightarrow> take 2 e = map of_char sg"

text \<open>The record at \<open>p\<close> has exactly the entries \<open>es\<close> in its system use area.\<close>

definition has_area :: "bytes \<Rightarrow> nat \<Rightarrow> bytes list \<Rightarrow> bool" where
  "has_area buf p es \<longleftrightarrow>
     p + sizeof_record \<le> length buf \<and> snd (SETUP_ROCK_RIDGE buf p) = int (length (concat es))
     \<and> slice (fst (SETUP_ROCK_RIDGE buf p)) (length (concat es)) buf = concat es \<and> (\<forall>e \<in> set es. entry_ok e)"

lemma slice_eq_appendD:
  assumes "slice p (length xs + length ys) buf = xs @ ys"
  shows "slice p (length xs) buf = xs" "slice (p + length xs) (length ys) buf = ys"
proof -
  have "take (length xs) (slice p (length xs + length ys) buf) = slice p (length xs) buf"
    by (simp add: take_slice)
  with assms show 1: "slice p (length xs) buf = xs" by simp
  show "slice (p + length xs) (length ys) buf = ys"
    using assms slice_append [of p "length xs" buf "length ys"] by (simp add: 1)
qed

lemma slice_eq_length: "slice p (length e) buf = e \<Longrightarrow> e \<noteq> [] \<Longrightarrow> p + length e \<le> length buf"
  by (drule arg_cong [where f = length]) (auto simp: slice_def min_def simp flip: length_greater_0_conv split: if_splits)

lemma slice_eq_nth: "slice p (length e) buf = e \<Longrightarrow> i < length e \<Longrightarrow> buf ! (p + i) = e ! i"
  using slice_eq_length [of p e buf] nth_slice [of i "length e" p buf] by fastforce

lemma entry_atD:
  assumes "entry_at buf p e"
  shows "p + length e \<le> length buf" "rr_len buf p = length e" "buf ! (p + 2) \<noteq> 0" "4 \<le> length e"
    "i < length e \<Longrightarrow> buf ! (p + i) = e ! i"
proof -
  have e: "4 \<le> length e" "length e < 256" "e ! 2 = of_nat (length e)" "slice p (length e) buf = e"
    using assms by (auto simp: entry_at_def entry_ok_def)
  show "p + length e \<le> length buf" using slice_eq_length e by fastforce
  show "4 \<le> length e" by (rule e(1))
  have b: "buf ! (p + 2) = of_nat (length e)" using slice_eq_nth [OF e(4), of 2] e by simp
  have l: "unat (of_nat (length e) :: u8) = length e"
    using e(2) by (simp add: unat_of_nat)
  then show "rr_len buf p = length e" using b by (simp add: rr_len_def)
  show "buf ! (p + 2) \<noteq> 0" using l b e(1) by (metis not_numeral_le_zero unsigned_0)
  show "i < length e \<Longrightarrow> buf ! (p + i) = e ! i" by (rule slice_eq_nth [OF e(4)])
qed

lemma rr_sig_entry:
  assumes "entry_at buf p e"
  shows "rr_sig buf p (a, b) \<longleftrightarrow> has_sig [a, b] e"
proof -
  have "buf ! p = e ! 0" "buf ! (p + 1) = e ! 1" "4 \<le> length e"
    using entry_atD(4) [OF assms] entry_atD(5) [OF assms, of 0] entry_atD(5) [OF assms, of 1] by fastforce+
  moreover obtain x y e' where "e = x # y # e'"
    using \<open>4 \<le> length e\<close> by (cases e; cases "List.tl e") auto
  ultimately show ?thesis by (simp add: rr_sig_def has_sig_def numeral_2_eq_2)
qed

text \<open>One turn of the loop, and entries that the handler passes over.\<close>

lemma susp_loop_entry:
  assumes "entry_at buf p e"
  shows "susp_loop h z buf p (int (length e) + int n) a =
     (case h buf p a of
        None \<Rightarrow> None
      | Some (a, True) \<Rightarrow> Some (a, True)
      | Some (a, False) \<Rightarrow> susp_loop h z buf (p + length e) (int n) a)"
  using entry_atD [OF assms] by (subst susp_loop.simps) (simp split: option.split prod.split bool.split)

lemma susp_loop_end [simp]: "susp_loop h z buf p 0 a = Some (a, False)"
  by (subst susp_loop.simps) simp

text \<open>Every entry \<open>e\<close> changes what has been collected by \<open>g e\<close>.\<close>

lemma susp_loop_fold:
  assumes "slice p (length (concat es) + n) buf = concat es @ ys" "length ys = n" "\<forall>e \<in> set es. entry_ok e"
    and "\<forall>e \<in> set es. \<forall>q x. entry_at buf q e \<longrightarrow> h buf q (susp_start x) = Some (susp_start (g e x), False)"
  shows "susp_loop h z buf p (int (length (concat es)) + int n) (susp_start x)
     = susp_loop h z buf (p + length (concat es)) (int n) (susp_start (fold g es x))"
  using assms
proof (induction es arbitrary: p x)
  case (Cons e es)
  have "slice p (length e + length (concat es @ ys)) buf = e @ (concat es @ ys)"
    using Cons.prems(1,2) by (simp add: add.assoc)
  note s = slice_eq_appendD [OF this]
  have e: "entry_at buf p e" using s(1) Cons.prems(3) by (simp add: entry_at_def)
  have "susp_loop h z buf p (int (length e) + int (length (concat es) + n)) (susp_start x)
      = susp_loop h z buf (p + length e) (int (length (concat es) + n)) (susp_start (g e x))"
    using susp_loop_entry [OF e, of h z "length (concat es) + n" "susp_start x"] Cons.prems(4) e by simp
  also have "\<dots> = susp_loop h z buf (p + length e + length (concat es)) (int n) (susp_start (fold g es (g e x)))"
    using Cons.IH [of "p + length e" "g e x"] s(2) Cons.prems by simp
  finally show ?case by (simp add: add.assoc)
qed simp

text \<open>An area with one entry \<open>e0\<close> that is special.\<close>

lemma susp_areas_one:
  assumes "has_area buf p (es1 @ e0 # es2)"
    and other: "\<forall>e \<in> set es1 \<union> set es2. \<forall>q x. entry_at buf q e \<longrightarrow> h buf q (susp_start x) = Some (susp_start (g e x), False)"
    and act: "\<And>q. entry_at buf q e0 \<Longrightarrow> h buf q (susp_start (fold g es1 x)) = Some (susp_start y, False)"
  shows "susp_areas (Suc f) rd h z out base buf (fst (SETUP_ROCK_RIDGE buf p)) (snd (SETUP_ROCK_RIDGE buf p)) (susp_start x)
     = Some (susp_start (fold g es2 y), False)"
proof -
  let ?q = "fst (SETUP_ROCK_RIDGE buf p)" and ?n1 = "length (concat es1)" and ?n2 = "length (concat es2)"
  have a: "slice ?q (?n1 + (length e0 + ?n2)) buf = concat es1 @ (e0 @ concat es2)"
    "snd (SETUP_ROCK_RIDGE buf p) = int ?n1 + int (length e0 + ?n2)"
    "\<forall>e \<in> set es1. entry_ok e" "\<forall>e \<in> set es2. entry_ok e" "entry_ok e0"
    using assms(1) by (auto simp: has_area_def)
  have "slice (?q + ?n1) (length e0 + ?n2) buf = e0 @ concat es2"
    using slice_eq_appendD(2) [of ?q "concat es1" "e0 @ concat es2" buf] a(1) by simp
  note c = slice_eq_appendD [OF this]
  have e: "entry_at buf (?q + ?n1) e0" using a(5) c(1) by (simp add: entry_at_def)
  have "susp_loop h z buf ?q (int ?n1 + int (length e0 + ?n2)) (susp_start x)
      = susp_loop h z buf (?q + ?n1) (int (length e0 + ?n2)) (susp_start (fold g es1 x))"
    using a(1,3) other by (intro susp_loop_fold [where ys = "e0 @ concat es2"]) auto
  also have "\<dots> = susp_loop h z buf (?q + ?n1 + length e0) (int ?n2) (susp_start y)"
    using susp_loop_entry [OF e, of h z ?n2] act [OF e] by simp
  also have "\<dots> = Some (susp_start (fold g es2 y), False)"
    using susp_loop_fold [where es = es2 and n = 0 and ys = "[]" and p = "?q + ?n1 + length e0" and x = y and buf = buf and g = g]
      c(2) a(4) other by auto
  finally show ?thesis by (simp add: a(2) susp_start_def)
qed

subsection \<open>Names are found\<close>

definition nm_entry :: "bytes \<Rightarrow> bytes" where
  "nm_entry s = [78, 77, of_nat (length s + 5), 1, 0] @ s"

lemma string_in_eq: "0 \<notin> set t \<Longrightarrow> string_in (t @ 0 # r) = Some t"
  by (simp add: string_in_def takeWhile_append)

lemma copy_n_count:
  assumes "0 \<notin> set s" "s \<noteq> []" "i + length s \<le> length d"
  shows "copy_n (s @ cs) i (length s) d = Some (take i d @ s @ drop (i + length s) d)"
  using assms
proof (induction s arbitrary: i d)
  case (Cons c s)
  show ?case
  proof (cases "s = []")
    case True
    with Cons.prems show ?thesis by (simp add: upd_conv_take_nth_drop)
  next
    case False
    have "take (Suc i) (d[i := c]) = take i d @ [c]"
      using Cons.prems by (simp add: take_Suc_conv_app_nth)
    moreover have "copy_n (s @ cs) (i + 1) (length s) (d[i := c])
        = Some (take (i + 1) (d[i := c]) @ s @ drop (i + 1 + length s) (d[i := c]))"
      using Cons.prems False by (intro Cons.IH) auto
    ultimately show ?thesis using Cons.prems False by simp
  qed
qed simp

lemma buf_strncat_count:
  assumes "0 \<notin> set t" "0 \<notin> set s" "length s \<le> length r + 1"
  shows "buf_strncat (t @ 0 # r) (s @ cs) (length s) = Some (t @ s @ drop (length s) (0 # r))"
  using assms copy_n_count [of s "length t" "t @ 0 # r" cs]
  by (cases "s = []") (simp_all add: buf_strncat_def string_in_eq)

lemma fold_idem: "fold (\<lambda>e x. x) es y = y"
  by (induction es) simp_all

lemma size_t_id: "n < 2 ^ 64 \<Longrightarrow> size_t (int n) = n"
  by (simp add: size_t_def nat_mod_distrib)

lemma entry_at_drop: "entry_at buf p e \<Longrightarrow> k \<le> length e \<Longrightarrow> drop (p + k) buf = drop k e @ drop (p + length e) buf"
proof -
  assume e: "entry_at buf p e" and k: "k \<le> length e"
  have "drop (p + k) buf = drop k (drop p buf)" by (simp add: add.commute)
  also have "drop p buf = e @ drop (p + length e) buf"
    using e append_take_drop_id [of "length e" "drop p buf"] by (simp add: entry_at_def slice_def add.commute)
  finally show ?thesis using k by simp
qed

lemma add_name_nm:
  assumes e: "entry_at buf q (nm_entry s)" and s: "0 \<notin> set s" "length s < 254" "length s \<le> length raw"
  shows "add_name buf q \<lparr>retname = 0 # raw, retnamlen = 0, truncated = False\<rparr>
     = Some \<lparr>retname = s @ drop (length s) (0 # raw), retnamlen = int (length s), truncated = False\<rparr>"
proof -
  have len: "length (nm_entry s) = length s + 5" by (simp add: nm_entry_def)
  note d = entry_atD [OF e, unfolded len]
  have fl: "buf ! (q + 4) = 0" using d(5) [of 4] by (simp add: nm_entry_def)
  have n: "int (rr_len buf q) - 5 = int (length s)" using d(2) by simp
  have dr: "drop (q + 5) buf = s @ drop (q + (length s + 5)) buf"
    using entry_at_drop [OF e, of 5] by (simp add: len) (simp add: nm_entry_def)
  show ?thesis
    using d(1) s buf_strncat_count [of "[]" s raw]
    by (simp add: add_name_def fl n dr string_in_eq [of "[]", simplified] size_t_id)
qed

lemma filename_entry_skip:
  assumes "entry_at buf q e" "\<not> has_sig ''RR'' e" "\<not> has_sig ''SP'' e" "\<not> has_sig ''CE'' e" "\<not> has_sig ''NM'' e" "\<not> has_sig ''RE'' e"
  shows "filename_entry buf q a = Some (a, False)"
  using assms(2-) by (simp add: filename_entry_def rr_sig_entry [OF assms(1)])

lemma filename_entry_nm:
  assumes "entry_at buf q (nm_entry s)"
  shows "filename_entry buf q a = map_option (\<lambda>x. (a\<lparr>found := x\<rparr>, False)) (add_name buf q (found a))"
  by (simp add: filename_entry_def rr_sig_entry [OF assms]) (simp add: has_sig_def nm_entry_def of_char_def)

lemma get_rock_ridge_filename_nm:
  assumes a: "has_area buf p (es1 @ nm_entry s # es2)" and s: "0 \<notin> set s" "length s < 254" "length s < length raw"
    and o: "\<forall>e \<in> set es1 \<union> set es2. \<forall>sg \<in> {''RR'', ''SP'', ''CE'', ''NM'', ''RE''}. \<not> has_sig sg e"
  shows "get_rock_ridge_filename (Suc f) rd True buf p raw
     = Some (int (length s), s @ drop (length s) (raw[0 := 0]))"
proof -
  obtain c r where raw: "raw = c # r" using s(3) by (cases raw) auto
  let ?x = "\<lparr>retname = 0 # r, retnamlen = 0, truncated = False\<rparr>"
  let ?y = "\<lparr>retname = s @ drop (length s) (0 # r), retnamlen = int (length s), truncated = False\<rparr>"
  have "susp_areas (Suc f) rd filename_entry False True cont_offset buf (fst (SETUP_ROCK_RIDGE buf p))
      (snd (SETUP_ROCK_RIDGE buf p)) (susp_start ?x) = Some (susp_start (fold (\<lambda>e x. x) es2 ?y), False)"
  proof (rule susp_areas_one [OF a])
    show "filename_entry buf q (susp_start (fold (\<lambda>e x. x) es1 ?x)) = Some (susp_start ?y, False)"
      if "entry_at buf q (nm_entry s)" for q
      using add_name_nm [OF that s(1,2), of r] s(3) raw
      by (simp add: filename_entry_nm [OF that] fold_idem susp_start_def)
  qed (use o in \<open>auto intro!: filename_entry_skip\<close>)
  then show ?thesis
    using a raw by (simp add: get_rock_ridge_filename_def has_area_def split_beta fold_idem susp_start_def del: susp_areas.simps)
qed

subsection \<open>Symbolic links are rebuilt\<close>

text \<open>The components of a link as an \<open>SL\<close> entry stores them, and the text that they stand for.\<close>

datatype sl_part = Name bytes | Continued bytes | Here | Up | Root

fun sl_component :: "sl_part \<Rightarrow> bytes" where
  "sl_component (Name s) = 0 # of_nat (length s) # s"
| "sl_component (Continued s) = 1 # of_nat (length s) # s"
| "sl_component Here = [2, 0]"
| "sl_component Up = [4, 0]"
| "sl_component Root = [8, 0]"

fun part_text :: "sl_part \<Rightarrow> bytes" where
  "part_text (Name s) = s"
| "part_text (Continued s) = s"
| "part_text Here = [46]"
| "part_text Up = [46, 46]"
| "part_text Root = [47]"

fun part_ends :: "sl_part \<Rightarrow> bool" where
  "part_ends (Continued s) \<longleftrightarrow> False"
| "part_ends Root \<longleftrightarrow> False"
| "part_ends c \<longleftrightarrow> True"

fun link_text :: "sl_part list \<Rightarrow> bytes" where
  "link_text [] = []"
| "link_text (c # cs) = part_text c @ (if cs \<noteq> [] \<and> part_ends c then [47] else []) @ link_text cs"

definition sl_entry :: "sl_part list \<Rightarrow> bytes" where
  "sl_entry cs = [83, 76, of_nat (length (concat (map sl_component cs)) + 5), 1, 0] @ concat (map sl_component cs)"

lemma length_sl_component: "length (sl_component c) \<ge> 2"
  by (cases c) auto

text \<open>One turn of the loop over the components.\<close>

lemma sl_loop_end [simp]: "sl_loop part sep fl buf p 0 x = Some x"
  by (subst sl_loop.simps) simp

lemma sl_loop_component:
  assumes "slice p (length (sl_component c)) buf = sl_component c" "length (sl_component c) < 256" "n = 0 \<or> n \<ge> 2"
  shows "sl_loop part sep 0 buf p (int (length (sl_component c)) + int n) x =
     (case part buf p x of
        None \<Rightarrow> None
      | Some x \<Rightarrow>
          (case (if n \<noteq> 0 \<and> part_ends c then sep x else Some x) of
             None \<Rightarrow> None
           | Some x \<Rightarrow> sl_loop part sep 0 buf (p + length (sl_component c)) (int n) x))"
proof -
  have l: "p + length (sl_component c) \<le> length buf"
    using slice_eq_length [OF assms(1)] length_sl_component [of c] by fastforce
  have b: "buf ! p = sl_component c ! 0" "buf ! (p + 1) = sl_component c ! 1"
    using slice_eq_nth [OF assms(1), of 0] slice_eq_nth [OF assms(1), of 1] length_sl_component [of c] by fastforce+
  have n: "unat (buf ! (p + 1)) + 2 = length (sl_component c)"
    using b(2) assms(2) by (cases c) (auto simp: unat_of_nat)
  have f: "(buf ! p AND NOT 1 \<noteq> 8 \<and> buf ! p AND 1 = 0) \<longleftrightarrow> part_ends c"
    using b(1) by (cases c) auto
  show ?thesis
    by (subst sl_loop.simps) (use l n f assms(3) length_sl_component [of c] in \<open>auto simp: Let_def split: option.split\<close>)
qed


text \<open>A representation \<open>rep\<close> of the text so far that every component and separator extends, as long as the text is \<open>ok\<close>.\<close>

lemma sl_loop_components:
  assumes part: "\<And>q c t. c \<in> set cs \<Longrightarrow> slice q (length (sl_component c)) buf = sl_component c \<Longrightarrow> ok (t @ part_text c)
      \<Longrightarrow> part buf q (rep t) = Some (rep (t @ part_text c))"
    and sep: "\<And>t. ok (t @ [47]) \<Longrightarrow> sep (rep t) = Some (rep (t @ [47]))"
    and pre: "\<And>u v. ok (u @ v) \<Longrightarrow> ok u"
    and "slice p (length (concat (map sl_component cs))) buf = concat (map sl_component cs)"
    and "length (concat (map sl_component cs)) < 256" "ok (t @ link_text cs)"
  shows "sl_loop part sep 0 buf p (int (length (concat (map sl_component cs)))) (rep t) = Some (rep (t @ link_text cs))"
  using assms(1,4-)
proof (induction cs arbitrary: p t)
  case (Cons c cs)
  let ?r = "concat (map sl_component cs)" and ?l = "length (sl_component c)"
    and ?u = "t @ part_text c @ (if cs \<noteq> [] \<and> part_ends c then [47] else [])"
  have s: "slice p ?l buf = sl_component c" "slice (p + ?l) (length ?r) buf = ?r"
    using slice_eq_appendD [of p "sl_component c" ?r buf] Cons.prems(2) by simp_all
  have r: "length ?r = 0 \<longleftrightarrow> cs = []" "length ?r = 0 \<or> length ?r \<ge> 2"
    using length_sl_component [of "hd cs"] by (cases cs; auto)+
  have ok: "ok (?u @ link_text cs)" using Cons.prems(4) by simp
  have u: "ok ?u" by (rule pre [OF ok])
  have IH: "sl_loop part sep 0 buf (p + ?l) (int (length ?r)) (rep ?u) = Some (rep (?u @ link_text cs))"
    by (rule Cons.IH) (use Cons.prems s ok in auto)
  have "ok (t @ part_text c)" by (rule pre [where v = "drop (length (t @ part_text c)) ?u"]) (use u in auto)
  then have "part buf p (rep t) = Some (rep (t @ part_text c))"
    using s(1) by (intro Cons.prems(1)) auto
  moreover have "sep (rep (t @ part_text c)) = Some (rep ?u)" if "cs \<noteq> [] \<and> part_ends c"
    using sep [of "t @ part_text c"] u that by simp
  ultimately show ?case
    using sl_loop_component [OF s(1), of "length ?r" part sep "rep t"] Cons.prems(3) r IH
    by (cases "cs \<noteq> [] \<and> part_ends c") auto
qed simp

definition parts_ok :: "sl_part list \<Rightarrow> bool" where
  "parts_ok cs \<longleftrightarrow> length (concat (map sl_component cs)) + 5 < 256 \<and> (\<forall>c \<in> set cs. 0 \<notin> set (part_text c))"

lemma component_small: "parts_ok cs \<Longrightarrow> c \<in> set cs \<Longrightarrow> length (sl_component c) < 256"
  by (induction cs) (auto simp: parts_ok_def)

lemma component_bytes:
  assumes "slice q (length (sl_component c)) buf = sl_component c"
  shows "buf ! q = sl_component c ! 0" "buf ! (q + 1) = sl_component c ! 1"
    "drop (q + 2) buf = drop 2 (sl_component c) @ drop (q + length (sl_component c)) buf"
proof -
  show "buf ! q = sl_component c ! 0" "buf ! (q + 1) = sl_component c ! 1"
    using slice_eq_nth [OF assms(1), of 0] slice_eq_nth [OF assms(1), of 1] length_sl_component [of c] by fastforce+
  have "drop q buf = sl_component c @ drop (q + length (sl_component c)) buf"
    using assms append_take_drop_id [of "length (sl_component c)" "drop q buf"] by (simp add: slice_def add.commute)
  then have "drop 2 (drop q buf) = drop 2 (sl_component c) @ drop (q + length (sl_component c)) buf"
    using length_sl_component [of c] by simp
  then show "drop (q + 2) buf = drop 2 (sl_component c) @ drop (q + length (sl_component c)) buf"
    by (simp add: add.commute)
qed

lemma ucast_of_nat_length: "n < 256 \<Longrightarrow> ucast (of_nat n :: u8) = (of_nat n :: u32)"
  by (simp add: word_unat_eq_iff unat_ucast_up unat_of_nat)

lemma sl_size_part:
  assumes "slice q (length (sl_component c)) buf = sl_component c" "length (sl_component c) < 256"
  shows "sl_size_comp buf q (of_nat (length t)) = Some (of_nat (length (t @ part_text c)))"
  using component_bytes [OF assms(1)] assms(2)
  by (cases c) (simp_all add: sl_size_comp_def ucast_of_nat_length)


text \<open>A link buffer of \<open>N + 1\<close> bytes, cleared when it was allocated, that holds the text \<open>t\<close>.\<close>

definition zbuf :: "nat \<Rightarrow> bytes \<Rightarrow> bytes" where
  "zbuf N t = t @ replicate (N + 1 - length t) 0"

lemma zbuf_Cons: "length t \<le> N \<Longrightarrow> zbuf N t = t @ 0 # replicate (N - length t) 0"
  by (simp add: zbuf_def Suc_diff_le)

lemma buf_strncat_zbuf:
  assumes "0 \<notin> set t" "0 \<notin> set s" "length t + length s \<le> N"
  shows "buf_strncat (zbuf N t) (s @ cs) (length s) = Some (zbuf N (t @ s))"
proof -
  have "0 # replicate (N - length t) (0::u8) = replicate (N + 1 - length t) 0"
    using assms(3) by (simp add: Suc_diff_le)
  then show ?thesis
    using buf_strncat_count [OF assms(1,2), of "replicate (N - length t) 0" cs] assms(3)
    by (simp add: zbuf_Cons) (simp add: Suc_diff_le)
qed

lemma buf_strcat_zbuf:
  assumes "0 \<notin> set t" "length t + length u \<le> N"
  shows "buf_strcat (zbuf N t) u = Some (zbuf N (t @ u))"
  using assms by (simp add: zbuf_Cons buf_strcat_def string_in_eq write_at_def)

lemma sl_buffer_zero: "unat n + 1 < 2 ^ 32 \<Longrightarrow> sl_buffer n (\<lambda>i. 0) = zbuf (unat n) []"
  by (simp add: sl_buffer_def zbuf_def map_replicate_const unat_plus_if' del: upt_Suc)

lemma sl_text_part:
  assumes "slice q (length (sl_component c)) buf = sl_component c" "length (sl_component c) < 256"
    and "0 \<notin> set t" "0 \<notin> set (part_text c)" "length t + length (part_text c) \<le> N"
  shows "sl_text_comp n raw buf q (Some (zbuf N t)) = Some (Some (zbuf N (t @ part_text c)))"
  using component_bytes [OF assms(1)] assms(2-)
  by (cases c) (simp_all add: sl_text_comp_def buf_strncat_zbuf buf_strcat_zbuf unat_of_nat)

lemma sl_text_comp_None: "sl_text_comp n raw buf q None = sl_text_comp n raw buf q (Some (sl_buffer n raw))"
  by (simp add: sl_text_comp_def)

lemma sl_loop_text_None:
  assumes "slen > 1"
  shows "sl_loop (sl_text_comp n raw) sep fl buf p slen None = sl_loop (sl_text_comp n raw) sep fl buf p slen (Some (sl_buffer n raw))"
  unfolding sl_loop.simps [of _ _ _ _ _ _ None] sl_loop.simps [of _ _ _ _ _ _ "Some (sl_buffer n raw)"]
  using assms by (simp add: sl_text_comp_None)

lemma link_text_nonzero: "\<forall>c \<in> set cs. 0 \<notin> set (part_text c) \<Longrightarrow> 0 \<notin> set (link_text cs)"
  by (induction cs rule: link_text.induct) auto


lemma sl_entry_at:
  assumes "entry_at buf q (sl_entry cs)"
  shows "rr_len buf q = length (concat (map sl_component cs)) + 5" "buf ! (q + 4) = 0"
    "slice (q + 5) (length (concat (map sl_component cs))) buf = concat (map sl_component cs)"
proof -
  let ?r = "concat (map sl_component cs)"
  show "rr_len buf q = length ?r + 5" using entry_atD(2) [OF assms] by (simp add: sl_entry_def)
  show "buf ! (q + 4) = 0" using entry_atD(5) [OF assms, of 4] by (simp add: sl_entry_def)
  show "slice (q + 5) (length ?r) buf = ?r"
    using slice_eq_appendD(2) [of q "[83, 76, of_nat (length ?r + 5), 1, 0]" ?r buf] assms
    by (simp add: entry_at_def sl_entry_def eval_nat_numeral)
qed

lemma add_link_sl:
  assumes "entry_at buf q (sl_entry cs)" "parts_ok cs" "symlink_len x = 0"
  shows "add_link buf q x = Some (x\<lparr>rr_size := of_nat (length (link_text cs)), symlink_len := of_nat (length (link_text cs))\<rparr>)"
proof -
  note e = sl_entry_at [OF assms(1)]
  have "sl_loop sl_size_comp sl_size_sep 0 buf (q + 5) (int (length (concat (map sl_component cs)))) (of_nat (length ([] :: bytes)))
      = Some (of_nat (length ([] @ link_text cs)))"
    by (rule sl_loop_components [where ok = "\<lambda>t. True" and rep = "\<lambda>t. of_nat (length t)"])
      (use e(3) assms(2) component_small [OF assms(2)] in \<open>auto simp: parts_ok_def sl_size_part sl_size_sep_def\<close>)
  then show ?thesis by (simp add: add_link_def e(1,2) assms(3))
qed

lemma symlink_sl:
  assumes "entry_at buf q (sl_entry cs)" "parts_ok cs" "cs \<noteq> []" "length (link_text cs) \<le> unat n" "unat n + 1 < 2 ^ 32"
  shows "sl_loop (sl_text_comp n (\<lambda>i. 0)) sl_text_sep (buf ! (q + 4)) buf (q + 5) (int (rr_len buf q) - 5) None
     = Some (Some (zbuf (unat n) (link_text cs)))"
proof -
  note e = sl_entry_at [OF assms(1)]
  let ?r = "concat (map sl_component cs)"
  have "length ?r > 1" using assms(3) length_sl_component [of "hd cs"] by (cases cs) auto
  then have "sl_loop (sl_text_comp n (\<lambda>i. 0)) sl_text_sep 0 buf (q + 5) (int (length ?r)) None
      = sl_loop (sl_text_comp n (\<lambda>i. 0)) sl_text_sep 0 buf (q + 5) (int (length ?r)) (Some (zbuf (unat n) []))"
    using assms(5) by (simp add: sl_loop_text_None sl_buffer_zero)
  also have "\<dots> = Some (Some (zbuf (unat n) ([] @ link_text cs)))"
  proof (rule sl_loop_components [where rep = "\<lambda>t. Some (zbuf (unat n) t)" and ok = "\<lambda>t. length t \<le> unat n \<and> 0 \<notin> set t"])
    show "sl_text_comp n (\<lambda>i. 0) buf p (Some (zbuf (unat n) t)) = Some (Some (zbuf (unat n) (t @ part_text c)))"
      if "c \<in> set cs" "slice p (length (sl_component c)) buf = sl_component c"
        "length (t @ part_text c) \<le> unat n \<and> 0 \<notin> set (t @ part_text c)" for p c t
      using that component_small [OF assms(2)] by (intro sl_text_part) auto
    show "sl_text_sep (Some (zbuf (unat n) t)) = Some (Some (zbuf (unat n) (t @ [47])))"
      if "length (t @ [47]) \<le> unat n \<and> 0 \<notin> set (t @ [47])" for t
      using that by (simp add: sl_text_sep_def buf_strcat_zbuf)
  qed (use e(3) assms in \<open>auto simp: parts_ok_def link_text_nonzero\<close>)
  finally show ?thesis by (simp add: e(1,2))
qed

lemma inode_entry_sl:
  assumes "entry_at buf q (sl_entry cs)"
  shows "inode_entry buf q a = map_option (\<lambda>x. (a\<lparr>found := x\<rparr>, False)) (add_link buf q (found a))"
    "symlink_entry n raw buf q b = map_option (\<lambda>x. (b\<lparr>found := x\<rparr>, False))
       (sl_loop (sl_text_comp n raw) sl_text_sep (buf ! (q + 4)) buf (q + 5) (int (rr_len buf q) - 5) (found b))"
  by (simp_all add: inode_entry_def symlink_entry_def rr_sig_entry [OF assms])
    (simp_all add: has_sig_def sl_entry_def of_char_def)


text \<open>The attributes that the entries of a symbolic link leave behind, and the link text.\<close>

definition px_set :: "bytes \<Rightarrow> rr_inode \<Rightarrow> rr_inode" where
  "px_set e x =
     (if has_sig ''PX'' e then x\<lparr>rr_mode := word_of_int (isonum_733 e 4), rr_nlink := isonum_733 e 12\<rparr> else x)"

definition other_entry :: "bytes \<Rightarrow> bool" where
  "other_entry e \<longleftrightarrow>
     \<not> has_sig ''RR'' e \<and> \<not> has_sig ''SP'' e \<and> \<not> has_sig ''CE'' e \<and> \<not> has_sig ''SL'' e \<and> \<not> has_sig ''RE'' e
     \<and> (has_sig ''PX'' e \<longrightarrow> 16 \<le> length e)"

lemma isonum_733_entry:
  assumes "entry_at buf q e" "k + 4 \<le> length e"
  shows "isonum_733 buf (q + k) = isonum_733 e k"
proof -
  have "buf ! (q + k + i) = e ! (k + i)" if "i < 4" for i
    using entry_atD(5) [OF assms(1), of "k + i"] assms(2) that by (simp add: add.assoc)
  from this [of 0] this [of 1] this [of 2] this [of 3] show ?thesis
    by (simp add: isonum_733_def isonum_731_def)
qed

lemma inode_entry_other:
  assumes e: "entry_at buf q e" and o: "other_entry e"
  shows "inode_entry buf q (susp_start x) = Some (susp_start (px_set e x), False)"
    "symlink_entry n raw buf q b = Some (b, False)"
proof -
  show "symlink_entry n raw buf q b = Some (b, False)"
    using o by (simp add: symlink_entry_def rr_sig_entry [OF e] other_entry_def)
  show "inode_entry buf q (susp_start x) = Some (susp_start (px_set e x), False)"
    using o entry_atD(1) [OF e] isonum_733_entry [OF e, of 4] isonum_733_entry [OF e, of 12]
    by (auto simp: inode_entry_def rr_sig_entry [OF e] other_entry_def px_set_def susp_start_def)
qed

lemma fold_px_set [simp]: "rr_size (fold px_set es x) = rr_size x" "symlink_len (fold px_set es x) = symlink_len x"
  by (induction es arbitrary: x) (simp_all add: px_set_def)

lemma px_mode_cong: "rr_mode x = rr_mode y \<Longrightarrow> rr_mode (fold px_set es x) = rr_mode (fold px_set es y)"
proof (induction es arbitrary: x y)
  case (Cons e es)
  have "rr_mode (px_set e x) = rr_mode (px_set e y)" using Cons.prems by (simp add: px_set_def)
  from Cons.IH [OF this] show ?case by simp
qed simp

lemma length_link_text: "length (link_text cs) \<le> 2 * length (concat (map sl_component cs))"
proof (induction cs rule: link_text.induct)
  case (2 c cs)
  have "length (part_text c) + 1 \<le> 2 * length (sl_component c)" by (cases c) auto
  with 2 show ?case by simp
qed simp

lemma parse_symlink:
  assumes a: "has_area buf p (es1 @ sl_entry cs # es2)" and cs: "parts_ok cs" and o: "\<forall>e \<in> set es1 \<union> set es2. other_entry e"
  shows "\<exists>y. parse_rock_ridge_inode (Suc f) rd True buf p x = Some (True, y)
     \<and> rr_size y = of_nat (length (link_text cs)) \<and> rr_mode y = rr_mode (fold px_set (es1 @ es2) x)"
proof -
  let ?n = "of_nat (length (link_text cs)) :: u32" and ?x = "fold px_set es1 (x\<lparr>symlink_len := 0\<rparr>)"
  let ?y = "?x\<lparr>rr_size := ?n, symlink_len := ?n\<rparr>"
  have "susp_areas (Suc f) rd inode_entry True False (\<lambda>a. 0) buf (fst (SETUP_ROCK_RIDGE buf p))
      (snd (SETUP_ROCK_RIDGE buf p)) (susp_start (x\<lparr>symlink_len := 0\<rparr>)) = Some (susp_start (fold px_set es2 ?y), False)"
  proof (rule susp_areas_one [OF a])
    show "inode_entry buf q (susp_start ?x) = Some (susp_start ?y, False)" if "entry_at buf q (sl_entry cs)" for q
      using add_link_sl [OF that cs, of ?x] by (simp add: inode_entry_sl(1) [OF that] susp_start_def)
  qed (use o inode_entry_other(1) in blast)
  moreover have "rr_mode (fold px_set es2 ?y) = rr_mode (fold px_set (es1 @ es2) x)"
    by (simp, rule px_mode_cong, simp, rule px_mode_cong, simp)
  ultimately show ?thesis
    using a by (simp add: parse_rock_ridge_inode_def has_area_def split_beta susp_start_def del: susp_areas.simps)
qed

lemma symlink_text:
  assumes a: "has_area buf (nat (ino mod 2048)) (es1 @ sl_entry cs # es2)" and cs: "parts_ok cs" "cs \<noteq> []"
    and o: "\<forall>e \<in> set es1 \<union> set es2. other_entry e"
    and rd: "read_at rd 2048 (push_bit 11 (drop_bit 11 ino)) = (2048, buf)" "nat (ino mod 2048) + unat (buf ! nat (ino mod 2048)) \<le> 2048"
    and n: "n = of_nat (length (link_text cs))"
  shows "get_rock_ridge_symlink (Suc f) rd True ino n (\<lambda>i. 0) = Some (Some (link_text cs @ [0]))"
proof -
  let ?p = "nat (ino mod 2048)"
  have un: "unat n = length (link_text cs)"
    using length_link_text [of cs] cs(1) by (simp add: n unat_of_nat parts_ok_def)
  have n1: "unat n + 1 < 2 ^ 32" using length_link_text [of cs] cs(1) un by (simp add: parts_ok_def)
  have "susp_areas (Suc f) rd (symlink_entry n (\<lambda>i. 0)) True False (\<lambda>a. 0) buf (fst (SETUP_ROCK_RIDGE buf ?p))
      (snd (SETUP_ROCK_RIDGE buf ?p)) (susp_start None) = Some (susp_start (fold (\<lambda>e x. x) es2 (Some (zbuf (unat n) (link_text cs)))), False)"
  proof (rule susp_areas_one [OF a])
    show "symlink_entry n (\<lambda>i. 0) buf q (susp_start (fold (\<lambda>e x. x) es1 None)) = Some (susp_start (Some (zbuf (unat n) (link_text cs))), False)"
      if "entry_at buf q (sl_entry cs)" for q
      using symlink_sl [OF that cs, of n] un n1 by (simp add: inode_entry_sl(2) [OF that] fold_idem susp_start_def)
  qed (use o in \<open>auto simp: inode_entry_other(2)\<close>)
  then show ?thesis
    using a rd un by (simp add: get_rock_ridge_symlink_def ISOFS_BLOCK_SIZE_def ISOFS_BLOCK_BITS_def has_area_def sizeof_record_def split_beta
      fold_idem susp_start_def zbuf_def del: susp_areas.simps)
qed


subsection \<open>Continuations\<close>

definition ce_state :: "bytes \<Rightarrow> 'a \<Rightarrow> 'a susp" where
  "ce_state e x = \<lparr>cont_extent = isonum_733 e 4, cont_offset = isonum_733 e 12, cont_size = isonum_733 e 20, found = x\<rparr>"

lemma cont_pos_ce: "cont_pos (ce_state e x) = sint (word_of_int (isonum_733 e 4 * 2048 + isonum_733 e 12) :: u32)"
  by (simp add: cont_pos_def ce_state_def ISOFS_BLOCK_SIZE_def)

lemma ce_handlers:
  assumes "entry_at buf q e" "has_sig ''CE'' e"
  shows "filename_entry buf q a = CHECK_CE buf q a" "inode_entry buf q b = CHECK_CE buf q b"
  using assms(2) by (simp_all add: filename_entry_def inode_entry_def rr_sig_entry [OF assms(1)]) (simp_all add: has_sig_def of_char_def)

text \<open>An area that is one \<open>CE\<close> entry: the parser goes on with the block that it names.\<close>

lemma susp_areas_continued:
  assumes a: "has_area buf p [e]" and ce: "24 \<le> length e"
    and h: "\<And>q. entry_at buf q e \<Longrightarrow> h buf q (susp_start x) = CHECK_CE buf q (susp_start x)"
    and r: "isonum_733 e 4 \<noteq> 0" "0 \<le> isonum_733 e 20" "read_at rd (isonum_733 e 20) (cont_pos (ce_state e x)) = (isonum_733 e 20, d)"
    and b: "0 \<le> base (ce_state e x)"
  shows "susp_areas (Suc f) rd h z out base buf (fst (SETUP_ROCK_RIDGE buf p)) (snd (SETUP_ROCK_RIDGE buf p)) (susp_start x)
     = susp_areas f rd h z out base d (nat (base (ce_state e x))) (isonum_733 e 20) (susp_start x)"
proof -
  let ?q = "fst (SETUP_ROCK_RIDGE buf p)"
  have e: "entry_at buf ?q e" and n: "snd (SETUP_ROCK_RIDGE buf p) = int (length e)"
    using a by (auto simp: has_area_def entry_at_def)
  have "CHECK_CE buf ?q (susp_start x) = Some (ce_state e x, False)"
    using entry_atD(1) [OF e] ce isonum_733_entry [OF e, of 4] isonum_733_entry [OF e, of 12] isonum_733_entry [OF e, of 20]
    by (simp add: CHECK_CE_def susp_start_def ce_state_def)
  then have "susp_loop h z buf ?q (int (length e)) (susp_start x) = Some (ce_state e x, False)"
    using susp_loop_entry [OF e, of h z 0 "susp_start x"] by (simp add: h [OF e])
  moreover have "cont_extent (ce_state e x) = isonum_733 e 4" "cont_size (ce_state e x) = isonum_733 e 20"
    "(ce_state e x)\<lparr>cont_extent := 0, cont_offset := 0, cont_size := 0\<rparr> = susp_start x"
    by (simp_all add: ce_state_def susp_start_def)
  ultimately show ?thesis using r b by (simp add: n)
qed

subsection \<open>Properties\<close>

definition demo_record :: "bytes list \<Rightarrow> bytes" where
  "demo_record es =
     (let area = concat es in of_nat (34 + length area) # replicate 31 0 @ [1, 65] @ area)"

definition demo_ce :: bytes where
  "demo_ce = [67, 69, 28, 1, 18, 0, 0, 0, 0, 0, 0, 0, 6, 0, 0, 0, 0, 0, 0, 0, 5, 0, 0, 0, 0, 0, 0, 0]"

text \<open>
  A directory record whose system use area has one \<open>NM\<close> entry with a name \<open>s\<close> of at most 253 bytes, among entries that are no \<open>RR\<close>, \<open>SP\<close>,
  \<open>CE\<close>, \<open>NM\<close> or \<open>RE\<close> entries: \<open>get_rock_ridge_filename\<close> returns the length of the name and has the name at the start of the buffer.  The buffer goes on with what was there
  before: no NUL byte is written after the name.
\<close>

theorem rock_ridge_name_found:
  assumes "has_area buf p (es1 @ nm_entry s # es2)" and "0 \<notin> set s" and "length s < 254" and "length s < length raw"
    and "\<forall>e \<in> set es1 \<union> set es2. \<forall>sg \<in> {''RR'', ''SP'', ''CE'', ''NM'', ''RE''}. \<not> has_sig sg e"
  shows "get_rock_ridge_filename (Suc f) rd True buf p raw = Some (int (length s), s @ drop (length s) (raw[0 := 0]))"
  using get_rock_ridge_filename_nm [OF assms] .

theorem rock_ridge_name_found_witness:
  "get_rock_ridge_filename 1 (\<lambda>n off. (0, [])) True (demo_record [nm_entry [97, 98, 99]]) 0 (replicate 256 7)
     = Some (3, [97, 98, 99] @ replicate 253 7)"
proof -
  have "has_area (demo_record [nm_entry [97, 98, 99]]) 0 ([] @ nm_entry [97, 98, 99] # [])"
    by code_simp
  from rock_ridge_name_found [OF this, of "replicate 256 7" 0 "\<lambda>n off. (0, [])"] show ?thesis
    by simp
qed



text \<open>
  A continuation area: for a record whose area is a \<open>CE\<close> entry, \<open>parse_rock_ridge_inode\<close> goes on at the start of the bytes it has read, but
  \<open>get_rock_ridge_filename\<close> goes on at the offset of the area in its block, although the buffer only holds the area: where the offset is not smaller
  than the size of the area, it reads outside the buffer.
\<close>

theorem continuation_offset_twice:
  assumes "has_area buf p [e]" and "has_sig ''CE'' e" and "24 \<le> length e" and "isonum_733 e 4 \<noteq> 0"
    and "1 < isonum_733 e 20" and "isonum_733 e 20 \<le> isonum_733 e 12"
    and "read_at rd (isonum_733 e 20) (sint (word_of_int (isonum_733 e 4 * 2048 + isonum_733 e 12) :: u32)) = (isonum_733 e 20, d)"
    and "length d = nat (isonum_733 e 20)" and "raw \<noteq> []"
  shows "get_rock_ridge_filename (Suc (Suc f)) rd True buf p raw = None
    \<and> parse_rock_ridge_inode (Suc f) rd True buf p x =
      map_option (\<lambda>(a, gone). (\<not> gone, found a))
        (susp_areas f rd inode_entry True False (\<lambda>a. 0) d 0 (isonum_733 e 20) (susp_start (x\<lparr>symlink_len := 0\<rparr>)))"
proof (intro conjI)
  have b: "p + sizeof_record \<le> length buf" using assms(1) by (simp add: has_area_def)
  have o: "cont_offset (ce_state e y) = isonum_733 e 12" for y by (simp add: ce_state_def)
  have out: "susp_loop h z d (nat (isonum_733 e 12)) (isonum_733 e 20) a = None" for h z a
    using assms(5,6,8) by (subst susp_loop.simps) (auto simp: nat_less_iff)
  have "susp_areas (Suc (Suc f)) rd filename_entry False True cont_offset buf (fst (SETUP_ROCK_RIDGE buf p)) (snd (SETUP_ROCK_RIDGE buf p)) (susp_start y)
      = susp_areas (Suc f) rd filename_entry False True cont_offset d (nat (cont_offset (ce_state e y))) (isonum_733 e 20) (susp_start y)" for y
    by (rule susp_areas_continued [OF assms(1,3) _ assms(4)]) (use assms ce_handlers in \<open>auto simp: cont_pos_ce o\<close>)
  then show "get_rock_ridge_filename (Suc (Suc f)) rd True buf p raw = None"
    using b assms(9) by (simp add: get_rock_ridge_filename_def split_beta o out del: susp_areas.simps(2)) (simp add: out)
  have "susp_areas (Suc f) rd inode_entry True False (\<lambda>a. 0) buf (fst (SETUP_ROCK_RIDGE buf p)) (snd (SETUP_ROCK_RIDGE buf p)) (susp_start y)
      = susp_areas f rd inode_entry True False (\<lambda>a. 0) d (nat ((\<lambda>a. 0) (ce_state e y))) (isonum_733 e 20) (susp_start y)" for y
    by (rule susp_areas_continued [OF assms(1,3) _ assms(4)]) (use assms ce_handlers in \<open>auto simp: cont_pos_ce\<close>)
  then show "parse_rock_ridge_inode (Suc f) rd True buf p x =
      map_option (\<lambda>(a, gone). (\<not> gone, found a))
        (susp_areas f rd inode_entry True False (\<lambda>a. 0) d 0 (isonum_733 e 20) (susp_start (x\<lparr>symlink_len := 0\<rparr>)))"
    using b by (simp add: parse_rock_ridge_inode_def split_beta del: susp_areas.simps)
qed

theorem continuation_offset_twice_witness:
  "get_rock_ridge_filename 2 (\<lambda>n off. (n, replicate (nat n) 7)) True (demo_record [demo_ce]) 0 [1] = None"
proof -
  have "has_area (demo_record [demo_ce]) 0 [demo_ce]" by code_simp
  moreover have "has_sig ''CE'' demo_ce" "24 \<le> length demo_ce" "isonum_733 demo_ce 4 = 18" "isonum_733 demo_ce 12 = 6" "isonum_733 demo_ce 20 = 5"
    by code_simp+
  ultimately show ?thesis
    using conjunct1 [OF continuation_offset_twice [of "demo_record [demo_ce]" 0 demo_ce "\<lambda>n off. (n, replicate (nat n) 7)" "replicate 5 7" "[1]" 0]]
    by (simp add: read_at_def numeral_2_eq_2)
qed

end
