(* ===== verification/Iso.thy ===== *)
theory Iso
  imports Rock
begin

text \<open>
  The ISO 9660 reader (\<^verbatim>\<open>src/lib/isolib.c\<close>): the volume descriptor, the inode table, directories, path lookup, symbolic links,
  reading of blocks and the directory listing.

  The globals of the file are the record \<open>iso_state\<close> with the super block \<open>isofs_super_block\<close>, the two static buffers and the static offsets of
  \<open>iso_readdir_i\<close>.  A pointer into the inode table is the index of its slot.  Inode numbers, extents and directory positions are 32-bit
  words, as in the code: an extent beyond 4 GB wraps around.  \<open>iso_dev_read\<close> is the argument \<open>rd\<close>, and \<open>raw k\<close> is the content of
  stack or heap memory before it is initialised.  \<^const>\<open>None\<close> as the result of an operation means that the code has no defined result
  there: it reads or writes outside a buffer, or its fuel is used up.  Messages are left out.
\<close>

subsection \<open>State\<close>

record isofs_super_block =
  s_nzones :: u64
  s_firstdatazone :: int
  s_log_zone_size :: nat
  s_max_size :: u64
  s_high_sierra :: nat
  s_mapping :: char
  s_conversion :: char
  s_rock :: bool
  s_cruft :: char
  s_blocksize :: nat
  s_blocksize_bits :: nat
  s_unhide :: char
  s_mode :: u32

record iso_slot =
  i_first_extent :: u32
  i_backlink :: u32
  i_file_format :: nat
  iso_inumber :: int
  iso_free :: bool
  iso_size :: u32
  iso_nlink :: int
  iso_mode :: u32

record iso_state =
  iso_table :: "iso_slot list"
  iso_root :: int
  sb :: isofs_super_block
  data_block :: bytes
  big_data_block :: bytes
  rd_blockoffset :: u32
  rd_diroffset :: u32

definition ISOFS_FILE_UNKNOWN :: nat where "ISOFS_FILE_UNKNOWN = 0"
definition ISOFS_FILE_TEXT :: nat where "ISOFS_FILE_TEXT = 1"
definition ISOFS_FILE_BINARY :: nat where "ISOFS_FILE_BINARY = 2"
definition ISOFS_FILE_TEXT_M :: nat where "ISOFS_FILE_TEXT_M = 3"
definition ISO_VD_PRIMARY :: int where "ISO_VD_PRIMARY = 1"

definition S_IRUGO :: u32 where "S_IRUGO = 0x124"
definition S_IXUGO :: u32 where "S_IXUGO = 0x49"
definition S_IFDIR :: u32 where "S_IFDIR = 0x4000"
definition S_IFREG :: u32 where "S_IFREG = 0x8000"
definition iso_isdir :: "u32 \<Rightarrow> bool" where "iso_isdir m \<longleftrightarrow> m AND 0xf000 = 0x4000"
definition iso_islnk :: "u32 \<Rightarrow> bool" where "iso_islnk m \<longleftrightarrow> m AND 0xf000 = 0xa000"

text \<open>A directory record at a position in a buffer.\<close>

definition de_length :: "bytes \<Rightarrow> nat \<Rightarrow> nat" where "de_length buf p = unat (buf ! p)"
definition de_ext_attr_length :: "bytes \<Rightarrow> nat \<Rightarrow> int" where "de_ext_attr_length buf p = isonum_711 buf (p + 1)"
definition de_extent :: "bytes \<Rightarrow> nat \<Rightarrow> int" where "de_extent buf p = isonum_733 buf (p + 2)"
definition de_size :: "bytes \<Rightarrow> nat \<Rightarrow> int" where "de_size buf p = isonum_733 buf (p + 10)"
definition de_flags :: "isofs_super_block \<Rightarrow> bytes \<Rightarrow> nat \<Rightarrow> u8" where "de_flags s buf p = buf ! (p + 25 - s_high_sierra s)"
definition de_interleave :: "bytes \<Rightarrow> nat \<Rightarrow> u8" where "de_interleave buf p = buf ! (p + 27)"
definition de_name_len :: "bytes \<Rightarrow> nat \<Rightarrow> nat" where "de_name_len buf p = unat (buf ! (p + 32))"
definition de_name :: "bytes \<Rightarrow> nat \<Rightarrow> bytes" where "de_name buf p = drop (p + sizeof_record) buf"

text \<open>The byte position of the data of a record.\<close>

definition de_position :: "isofs_super_block \<Rightarrow> bytes \<Rightarrow> nat \<Rightarrow> u32" where
  "de_position s buf p = push_bit (s_log_zone_size s) (word_of_int (de_extent buf p + de_ext_attr_length buf p))"

subsection \<open>Blocks\<close>

definition iso_bmap :: "isofs_super_block \<Rightarrow> iso_slot \<Rightarrow> int \<Rightarrow> int" where
  "iso_bmap s inode block =
     (if block < 0 then 0 else sint (drop_bit (s_blocksize_bits s) (i_first_extent inode) + word_of_int block))"

text \<open>The result of \<open>iso_breadi\<close> is an \<open>int\<close>.\<close>

definition iso_breadi :: "reader \<Rightarrow> isofs_super_block \<Rightarrow> iso_slot \<Rightarrow> int \<Rightarrow> int \<Rightarrow> int \<times> bytes" where
  "iso_breadi rd s ip blkno nblks =
     (if i_first_extent ip = 0 then (- 1, [])
      else
        let bs = int (s_blocksize s); i_size = uint (iso_size ip);
            nblks = (if (blkno + nblks) * bs > i_size then (i_size + bs) div bs - blkno else nblks);
            abs_blkno = iso_bmap s ip (sint (word_of_int blkno :: u32))
        in if abs_blkno = 0 then (- 1, [])
           else case read_at rd (nblks * bs) (abs_blkno * bs) of (r, d) \<Rightarrow> (sint (word_of_int r :: u32), d))"

text \<open>\<open>iso_dev_read\<close> of block \<open>block\<close> into \<open>data_block\<close>; \<^const>\<open>False\<close> when the read failed.\<close>

definition read_data_block :: "reader \<Rightarrow> u32 \<Rightarrow> iso_state \<Rightarrow> bool \<times> iso_state" where
  "read_data_block rd block st =
     (let bs = s_blocksize (sb st); (r, d) = read_at rd (int bs) (uint (block * of_nat bs))
      in (r = int bs, st\<lparr>data_block := overwrite d (data_block st)\<rparr>))"

subsection \<open>The inode table\<close>

definition iso_iput :: "nat \<Rightarrow> iso_state \<Rightarrow> iso_state" where
  "iso_iput i st =
     st\<lparr>iso_table := (iso_table st)[i := (iso_table st ! i)\<lparr>iso_inumber := 0, iso_free := True\<rparr>]\<rparr>"

fun iso_find_free :: "iso_slot list \<Rightarrow> nat \<Rightarrow> nat option" where
  "iso_find_free [] i = None"
| "iso_find_free (e # es) i = (if iso_free e then Some i else iso_find_free es (Suc i))"

text \<open>
  The record of inode \<open>ino\<close>: the buffer it is in and its position, \<^const>\<open>None\<close> in the option when a block cannot be read.  A record that spans two
  blocks is put together in \<open>big_data_block\<close>.
\<close>

definition iso_read_record :: "reader \<Rightarrow> int \<Rightarrow> iso_state \<Rightarrow> ((bytes \<times> nat) option \<times> iso_state) option" where
  "iso_read_record rd ino st =
     (let bs = s_blocksize (sb st); block = word_of_int (drop_bit (s_blocksize_bits (sb st)) ino) :: u32;
          off = nat (ino mod int bs); (good, st) = read_data_block rd block st
      in if \<not> good then Some (None, st)
         else if off \<ge> length (data_block st) then None
         else
           let n = de_length (data_block st) off
           in if off + n > bs then
                let frag1 = bs - off; st = st\<lparr>big_data_block := overwrite (slice off frag1 (data_block st)) (big_data_block st)\<rparr>;
                    (good, st) = read_data_block rd (block + 1) st
                in if \<not> good then Some (None, st)
                   else
                     let st = st\<lparr>big_data_block := take frag1 (big_data_block st)
                                   @ overwrite (take (off + n - bs) (data_block st)) (drop frag1 (big_data_block st))\<rparr>
                     in Some (Some (big_data_block st, 0), st)
              else Some (Some (data_block st, off), st))"

text \<open>Whether a name has no period: a file without one is executable.\<close>

definition no_period :: "bytes \<Rightarrow> nat \<Rightarrow> bool option" where
  "no_period name n =
     (let nm = take n name; w = takeWhile (\<lambda>c. c \<noteq> 46 \<and> c \<noteq> 59) nm
      in if length w < length nm then Some (nm ! length w = 59)
         else if length nm < n then None
         else Some True)"

definition record_mode :: "isofs_super_block \<Rightarrow> bytes \<Rightarrow> nat \<Rightarrow> u32 option" where
  "record_mode s buf p =
     (if de_flags s buf p AND 2 \<noteq> 0 then Some (S_IRUGO OR S_IXUGO OR S_IFDIR)
      else map_option (\<lambda>x. if x then s_mode s OR S_IFREG OR S_IXUGO else s_mode s OR S_IFREG) (no_period (de_name buf p) (de_name_len buf p)))"

text \<open>The size with the treatment of discs that keep other data in its high byte, and the new \<open>s_cruft\<close>.\<close>

definition record_size :: "isofs_super_block \<Rightarrow> bytes \<Rightarrow> nat \<Rightarrow> u32 \<times> char" where
  "record_size s buf p =
     (let n = word_of_int (de_size buf p) :: u32;
          cruft = (if n > 700000000 \<and> s_cruft s = CHR ''n'' then CHR ''y'' else s_cruft s);
          n = (if cruft = CHR ''y'' \<and> n AND 0xff000000 \<noteq> 0 then n AND 0x00ffffff else n)
      in (if de_interleave buf p \<noteq> 0 then 0 else n, cruft))"

definition file_format :: "char \<Rightarrow> nat \<Rightarrow> nat" where
  "file_format conv old =
     (if conv = CHR ''a'' then ISOFS_FILE_UNKNOWN
      else if conv = CHR ''b'' then ISOFS_FILE_BINARY
      else if conv = CHR ''t'' then ISOFS_FILE_TEXT
      else if conv = CHR ''m'' then ISOFS_FILE_TEXT_M
      else old)"

definition iso_iget :: "nat \<Rightarrow> reader \<Rightarrow> int \<Rightarrow> iso_state \<Rightarrow> (nat option \<times> iso_state) option" where
  "iso_iget f rd ino st =
     (case iso_find_free (iso_table st) 0 of
        None \<Rightarrow> Some (None, st)
      | Some i \<Rightarrow>
          (case iso_read_record rd ino st of
             None \<Rightarrow> None
           | Some (None, st) \<Rightarrow> Some (None, st)
           | Some (Some (buf, p), st) \<Rightarrow>
               if p + sizeof_record > length buf then None
               else
                 case record_mode (sb st) buf p of
                   None \<Rightarrow> None
                 | Some m \<Rightarrow>
                     let (n, cruft) = record_size (sb st) buf p; s = (sb st)\<lparr>s_cruft := cruft\<rparr>
                     in case (if s_rock s then parse_rock_ridge_inode f rd True buf p \<lparr>rr_mode = m, rr_nlink = 1, rr_size = n, symlink_len = 0\<rparr>
                              else Some (False, \<lparr>rr_mode = m, rr_nlink = 1, rr_size = n, symlink_len = 0\<rparr>)) of
                          None \<Rightarrow> None
                        | Some (_, x) \<Rightarrow>
                            Some (Some i, st\<lparr>sb := s, iso_table := (iso_table st)[i :=
                              (iso_table st ! i)\<lparr>i_first_extent := de_position s buf p, i_backlink := 0xffffffff,
                                i_file_format := file_format (s_conversion s) (i_file_format (iso_table st ! i)),
                                iso_free := False, iso_inumber := ino,
                                iso_size := rr_size x, iso_nlink := rr_nlink x, iso_mode := rr_mode x\<rparr>]\<rparr>)))"

subsection \<open>Searching a directory\<close>

text \<open>\<open>name\<close> is the component looked for; \<open>compare\<close> is the rest of the buffer from the name of the record.\<close>

definition iso_match :: "bytes \<Rightarrow> bytes \<Rightarrow> int \<Rightarrow> bool option" where
  "iso_match name compare dlen =
     (if dlen = 1 \<and> compare = [] then None
      else if dlen = 1 \<and> compare ! 0 = 0 \<and> name = [] then Some True
      else
        let (compare, dlen) =
          (if dlen = 1 \<and> compare ! 0 = 0 then ([46, 0], dlen)
           else if dlen = 1 \<and> compare ! 0 = 1 then ([46, 46, 0], 2)
           else (compare, dlen))
        in if dlen \<noteq> int (length name) then Some False
           else if length compare < length name then None
           else Some (take (length name) compare = name))"

text \<open>A name without Rock Ridge: lower case, without a version number \<open>;1\<close> at the end.\<close>

definition iso_lower :: "u8 \<Rightarrow> u8" where
  "iso_lower c = (if 65 \<le> c \<and> c \<le> 90 then c OR 0x20 else c)"

fun iso_translate :: "bytes \<Rightarrow> bytes" where
  "iso_translate [] = []"
| "iso_translate (c # cs) =
     (if c = 59 \<and> cs = [49] then []
      else (if c = 59 then 46 else iso_lower c) # iso_translate cs)"

text \<open>
  The name of the record at \<open>p\<close> as the search sees it: its length, and the buffer, in which the name is changed in place.  A Rock Ridge name is copied with \<open>strcpy\<close>.
\<close>

definition entry_name ::
  "nat \<Rightarrow> reader \<Rightarrow> isofs_super_block \<Rightarrow> bytes \<Rightarrow> nat \<Rightarrow> bytes \<Rightarrow> nat \<Rightarrow> (int \<times> bytes) option" where
  "entry_name f rd s raw namelen buf p =
     (case get_rock_ridge_filename f rd (s_rock s) buf p raw of
        None \<Rightarrow> None
      | Some (dlen, rname) \<Rightarrow>
          if dlen \<noteq> 0 then
            (case string_in rname of
               None \<Rightarrow> None
             | Some t \<Rightarrow> map_option (\<lambda>buf. (dlen, buf)) (write_at (p + sizeof_record) (t @ [0]) buf))
          else
            let n = de_name_len buf p
            in if p + sizeof_record + n > length buf then None
               else if s_mapping s = CHR ''n'' then
                 let t = iso_translate (slice (p + sizeof_record) n buf); n = length t
                 in case write_at (p + sizeof_record) t buf of
                      None \<Rightarrow> None
                    | Some buf \<Rightarrow>
                        Some (if buf ! (p + sizeof_record + n - 1) = 46 \<and> namelen + 1 = n then (int n - 1, buf) else (int n, buf))
               else Some (int n, buf))"

text \<open>The inode number and the back link of the record at \<open>p\<close>; \<open>ino\<close> is its position on the disc.\<close>

definition entry_inode :: "isofs_super_block \<Rightarrow> iso_slot \<Rightarrow> u32 \<Rightarrow> bytes \<Rightarrow> nat \<Rightarrow> u32 \<times> u32" where
  "entry_inode s dir ino buf p =
     (let self = word_of_int (iso_inumber dir)
      in if de_name buf p ! 0 = 0 \<and> de_name_len buf p = 1 then (self, 0)
         else if de_name buf p ! 0 = 1 \<and> de_name_len buf p = 1 then
           (if s_firstdatazone s \<noteq> iso_inumber dir then (de_position s buf p, 0) else (self, 0))
         else (ino, self))"

datatype find_result = Found u32 u32 | Stop int

text \<open>
  The loop over the records from directory position \<open>f_pos\<close>, which is at \<open>offset\<close> in \<open>data_block\<close>, read from block \<open>block\<close>.  \<open>Found\<close> has the inode number and the back link,
  \<open>Stop\<close> another return value.  \<open>raw f_pos\<close> is the buffer for the Rock Ridge name before it is used.
\<close>

definition next_dir_block :: "reader \<Rightarrow> iso_slot \<Rightarrow> u32 \<Rightarrow> iso_state \<Rightarrow> (u32 \<times> bool) \<times> iso_state" where
  "next_dir_block rd dir f_pos st =
     (let block = word_of_int (iso_bmap (sb st) dir (uint (drop_bit (s_blocksize_bits (sb st)) f_pos))) :: u32
      in if block = 0 then ((0, False), st)
         else case read_data_block rd block st of (good, st) \<Rightarrow> ((block, good), st))"

definition check_entry ::
  "nat \<Rightarrow> reader \<Rightarrow> bytes \<Rightarrow> bytes \<Rightarrow> iso_slot \<Rightarrow> isofs_super_block \<Rightarrow> u32 \<Rightarrow> bytes \<Rightarrow> nat \<Rightarrow> (find_result option \<times> bytes) option" where
  "check_entry f rd raw name dir s ino buf p =
     (if p + sizeof_record + 1 > length buf then None
      else
        let (ino, backlink) = entry_inode s dir ino buf p
        in case entry_name f rd s raw (length name) buf p of
             None \<Rightarrow> None
           | Some (dlen, buf) \<Rightarrow>
               (case (if de_flags s buf p AND 5 = 0 \<or> s_unhide s = CHR ''y'' then iso_match name (de_name buf p) dlen else Some False) of
                  None \<Rightarrow> None
                | Some False \<Rightarrow> Some (None, buf)
                | Some True \<Rightarrow> Some (Some (if ino = - 1 then Stop (- 1) else Found ino backlink), buf)))"

primrec iso_find_loop ::
  "nat \<Rightarrow> nat \<Rightarrow> reader \<Rightarrow> (nat \<Rightarrow> bytes) \<Rightarrow> bytes \<Rightarrow> nat \<Rightarrow> u32 \<Rightarrow> nat \<Rightarrow> u32 \<Rightarrow> iso_state \<Rightarrow> (find_result \<times> iso_state) option" where
  "iso_find_loop 0 f rd raw name dir f_pos offset block st = None"
| "iso_find_loop (Suc n) f rd raw name dir f_pos offset block st =
     (let slot = iso_table st ! dir; bs = s_blocksize (sb st)
      in if \<not> f_pos < iso_size slot then Some (Stop (- 1), st)
         else if offset \<ge> length (data_block st) then None
         else if data_block st ! offset = 0 then
           let f_pos = (f_pos AND NOT 2047) + 2048; ((block, good), st) = next_dir_block rd slot f_pos st
           in if \<not> good then Some (Stop (- 1), st)
              else iso_find_loop n f rd raw name dir f_pos 0 block st
         else
           let l = de_length (data_block st) offset; ino = push_bit (s_blocksize_bits (sb st)) block + of_nat (offset mod bs);
               pos = f_pos; f_pos = f_pos + of_nat l; offset' = offset + l
           in if offset' \<ge> bs then
                let frag1 = bs - offset; st = st\<lparr>big_data_block := overwrite (slice offset frag1 (data_block st)) (big_data_block st)\<rparr>;
                    offset' = unat f_pos mod bs; ((block, good), st) = next_dir_block rd slot f_pos st
                in if block = 0 then Some (Stop (- 1), st)
                   else if \<not> good then Some (Stop 0, st)
                   else
                     let st = st\<lparr>big_data_block := take frag1 (big_data_block st)
                                   @ overwrite (take offset' (data_block st)) (drop frag1 (big_data_block st))\<rparr>
                     in case check_entry f rd (raw (unat pos)) name slot (sb st) ino (big_data_block st) 0 of
                          None \<Rightarrow> None
                        | Some (Some r, buf) \<Rightarrow> Some (r, st\<lparr>big_data_block := buf\<rparr>)
                        | Some (None, buf) \<Rightarrow> iso_find_loop n f rd raw name dir f_pos offset' block (st\<lparr>big_data_block := buf\<rparr>)
              else
                case check_entry f rd (raw (unat pos)) name slot (sb st) ino (data_block st) offset of
                  None \<Rightarrow> None
                | Some (Some r, buf) \<Rightarrow> Some (r, st\<lparr>data_block := buf\<rparr>)
                | Some (None, buf) \<Rightarrow> iso_find_loop n f rd raw name dir f_pos offset' block (st\<lparr>data_block := buf\<rparr>))"

text \<open>The return value, \<open>ino\<close> and \<open>ino_back\<close>; the caller's \<open>ino_back\<close> stays as it is unless an entry is found.\<close>

definition iso_find_entry ::
  "nat \<Rightarrow> reader \<Rightarrow> (nat \<Rightarrow> bytes) \<Rightarrow> bytes \<Rightarrow> nat \<Rightarrow> u32 \<Rightarrow> iso_state \<Rightarrow> ((int \<times> u32 \<times> u32) \<times> iso_state) option" where
  "iso_find_entry f rd raw name dir ino_back st =
     (let slot = iso_table st ! dir
      in if i_first_extent slot = 0 then Some ((- 1, 0, ino_back), st)
         else
           case next_dir_block rd slot 0 st of ((block, good), st) \<Rightarrow>
             if \<not> good then Some ((- 1, 0, ino_back), st)
             else
               case iso_find_loop f f rd raw name dir 0 0 block st of
                 None \<Rightarrow> None
               | Some (Found i b, st) \<Rightarrow> Some ((0, i, b), st)
               | Some (Stop r, st) \<Rightarrow> Some ((r, 0, ino_back), st))"

subsection \<open>Path lookup\<close>

text \<open>The components of a name, empty ones included; the directory itself is the empty component.\<close>

fun components :: "bytes \<Rightarrow> bytes list" where
  "components [] = [[]]"
| "components (c # cs) =
     (if c = 47 then [] # components cs
      else case components cs of [] \<Rightarrow> [[c]] | x # xs \<Rightarrow> (c # x) # xs)"

text \<open>A missing directory on the way leaves the slot of its parent in use.\<close>

fun iso_walk ::
  "nat \<Rightarrow> reader \<Rightarrow> (nat \<Rightarrow> bytes) \<Rightarrow> bytes list \<Rightarrow> nat \<Rightarrow> u32 \<Rightarrow> iso_state \<Rightarrow> (nat option \<times> iso_state) option" where
  "iso_walk f rd raw [] dir ino_back st = None"
| "iso_walk f rd raw [c] dir ino_back st =
     (case iso_find_entry f rd raw c dir ino_back st of
        None \<Rightarrow> None
      | Some ((r, ino, ino_back), st) \<Rightarrow>
          if r \<noteq> 0 then Some (None, iso_iput dir st)
          else
            case iso_iget f rd (sint ino) st of
              None \<Rightarrow> None
            | Some (None, st) \<Rightarrow> Some (None, iso_iput dir st)
            | Some (Some i, st) \<Rightarrow>
                Some (Some i, iso_iput dir (st\<lparr>iso_table := (iso_table st)[i := (iso_table st ! i)\<lparr>i_backlink := ino_back\<rparr>]\<rparr>)))"
| "iso_walk f rd raw (c # c' # cs) dir ino_back st =
     (case iso_find_entry f rd raw c dir ino_back st of
        None \<Rightarrow> None
      | Some ((r, ino, ino_back), st) \<Rightarrow>
          if r \<noteq> 0 then Some (None, st)
          else
            case iso_iget f rd (sint ino) (iso_iput dir st) of
              None \<Rightarrow> None
            | Some (None, st) \<Rightarrow> Some (None, st)
            | Some (Some i, st) \<Rightarrow> iso_walk f rd raw (c' # cs) i ino_back st)"

definition iso_lookup ::
  "nat \<Rightarrow> reader \<Rightarrow> (nat \<Rightarrow> bytes) \<Rightarrow> nat \<Rightarrow> bytes \<Rightarrow> iso_state \<Rightarrow> (nat option \<times> iso_state) option" where
  "iso_lookup f rd raw dir name st =
     (if \<not> iso_isdir (iso_mode (iso_table st ! dir)) then Some (None, iso_iput dir st)
      else iso_walk f rd raw (components name) dir (le32_at (raw 0) 0) st)"

text \<open>
  The slot for the root directory is taken before the link is looked at, and only given back at the end.  \<open>linkto\<close> is cut off at the size of the inode.
\<close>

definition iso_follow_link ::
  "nat \<Rightarrow> reader \<Rightarrow> (nat \<Rightarrow> bytes) \<Rightarrow> (nat \<Rightarrow> u8) \<Rightarrow> nat \<Rightarrow> bytes \<Rightarrow> iso_state \<Rightarrow> (nat option \<times> iso_state) option" where
  "iso_follow_link f rd raw heap from base st =
     (case iso_iget f rd (iso_root st) st of
        None \<Rightarrow> None
      | Some (root, st) \<Rightarrow>
          let slot = iso_table st ! from
          in if \<not> iso_islnk (iso_mode slot) then Some (None, st)
             else if iso_size slot = 0 then Some (None, st)
             else
               case get_rock_ridge_symlink f rd (s_rock (sb st)) (iso_inumber slot) (iso_size slot) heap of
                 None \<Rightarrow> None
               | Some None \<Rightarrow> Some (None, st)
               | Some (Some linkto) \<Rightarrow>
                   case (root, write_at (unat (iso_size slot)) [0] linkto) of
                     (Some r, Some linkto) \<Rightarrow>
                       (case iso_lookup f rd raw r (link_target base (takeWhile (\<lambda>c. c \<noteq> 0) linkto)) st of
                          None \<Rightarrow> None
                        | Some (res, st) \<Rightarrow> Some (res, iso_iput r st))
                   | _ \<Rightarrow> None)"

subsection \<open>The volume descriptor\<close>

fun find_volume :: "reader \<Rightarrow> nat list \<Rightarrow> iso_state \<Rightarrow> bool option \<times> iso_state" where
  "find_volume rd [] st = (None, st)"
| "find_volume rd (blk # blks) st =
     (let bs = s_blocksize (sb st); (r, d) = read_at rd (int bs) (int blk * 2048);
          st = st\<lparr>data_block := overwrite d (data_block st)\<rparr>; b = data_block st
      in if r \<noteq> int bs then (None, st)
         else if slice 9 5 b = map of_char ''CDROM'' then
           (if isonum_711 b 8 \<noteq> ISO_VD_PRIMARY then None else Some True, st)
         else if slice 1 5 b = map of_char ''CD001'' then
           (if isonum_711 b 0 \<noteq> ISO_VD_PRIMARY then None else Some False, st)
         else find_volume rd blks st)"

definition log_zone_size :: "int \<Rightarrow> nat option" where
  "log_zone_size n = (if n = 512 then Some 9 else if n = 1024 then Some 10 else if n = 2048 then Some 11 else None)"

text \<open>
  \<open>iso_read_super\<close>; the volume descriptors are looked for in the blocks 16 to 99.  A disc in High Sierra format has its fields at other places and no Rock Ridge extensions.
\<close>

definition iso_read_super :: "reader \<Rightarrow> iso_state \<Rightarrow> int \<times> iso_state" where
  "iso_read_super rd st =
     (let st = st\<lparr>iso_table := map (\<lambda>e. e\<lparr>iso_free := True, iso_inumber := 0\<rparr>) (iso_table st),
                  sb := (sb st)\<lparr>s_blocksize := 1024, s_blocksize_bits := 10, s_high_sierra := 0\<rparr>\<rparr>
      in case find_volume rd [16..<100] st of
           (None, st) \<Rightarrow> (- 1, st)
         | (Some hs, st) \<Rightarrow>
             let b = data_block st; n = isonum_733 b (if hs then 88 else 80); z = isonum_723 b (if hs then 136 else 128);
                 rootp = (if hs then 180 else 156);
                 s = (sb st)\<lparr>s_high_sierra := if hs then 1 else 0, s_nzones := word_of_int n, s_max_size := word_of_int n, s_log_zone_size := nat z\<rparr>
             in case log_zone_size z of
                  None \<Rightarrow> (- 1, st\<lparr>sb := s\<rparr>)
                | Some k \<Rightarrow>
                    let root = sint (push_bit k (word_of_int (de_extent b rootp)) :: u32)
                    in (0, st\<lparr>iso_root := root,
                         sb := s\<lparr>s_log_zone_size := k, s_firstdatazone := root, s_mapping := CHR ''n'', s_rock := \<not> hs,
                                 s_conversion := CHR ''b'', s_cruft := CHR ''n'', s_unhide := CHR ''n'', s_mode := S_IRUGO\<rparr>\<rparr>))"

subsection \<open>The file operations\<close>

definition iso_bread :: "reader \<Rightarrow> nat \<Rightarrow> int \<Rightarrow> int \<Rightarrow> iso_state \<Rightarrow> int \<times> bytes" where
  "iso_bread rd fd blkno nblks st = iso_breadi rd (sb st) (iso_table st ! fd) blkno nblks"

text \<open>The name that relative links are resolved against is always the one passed to \<open>iso_open\<close>.\<close>

primrec iso_links ::
  "nat \<Rightarrow> nat \<Rightarrow> reader \<Rightarrow> (nat \<Rightarrow> bytes) \<Rightarrow> (nat \<Rightarrow> u8) \<Rightarrow> bytes \<Rightarrow> nat option \<Rightarrow> iso_state \<Rightarrow> (int \<times> iso_state) option" where
  "iso_links 0 f rd raw heap filename inode st = None"
| "iso_links (Suc n) f rd raw heap filename inode st =
     (case inode of
        None \<Rightarrow> Some (- 1, st)
      | Some i \<Rightarrow>
          if iso_islnk (iso_mode (iso_table st ! i)) then
            (case iso_follow_link f rd raw heap i filename st of
               None \<Rightarrow> None
             | Some (inode, st) \<Rightarrow> iso_links n f rd raw heap filename inode (iso_iput i st))
          else Some (int i, st))"

definition iso_open ::
  "nat \<Rightarrow> reader \<Rightarrow> (nat \<Rightarrow> bytes) \<Rightarrow> (nat \<Rightarrow> u8) \<Rightarrow> bytes \<Rightarrow> iso_state \<Rightarrow> (int \<times> iso_state) option" where
  "iso_open f rd raw heap filename st =
     (case iso_iget f rd (iso_root st) st of
        None \<Rightarrow> None
      | Some (None, st) \<Rightarrow> Some (- 1, st)
      | Some (Some root, st) \<Rightarrow>
          (case iso_lookup f rd raw root filename st of
             None \<Rightarrow> None
           | Some (inode, st) \<Rightarrow> iso_links f f rd raw heap filename inode st))"

definition iso_close :: "nat \<Rightarrow> iso_state \<Rightarrow> iso_state" where
  "iso_close fd st = iso_iput fd st"

text \<open>The product is computed in unsigned 32-bit arithmetic.\<close>

definition iso_map :: "nat \<Rightarrow> int \<Rightarrow> iso_state \<Rightarrow> int" where
  "iso_map fd block st =
     uint (word_of_int (iso_bmap (sb st) (iso_table st ! fd) (sint (word_of_int block :: u32))) * of_nat (s_blocksize (sb st)) :: u32)"

definition iso_fstat :: "nat \<Rightarrow> iso_state \<Rightarrow> stat option" where
  "iso_fstat fd st =
     (if fd \<ge> MAX_OPEN_FILES then None
      else
        let ip = iso_table st ! fd
        in Some \<lparr>st_ino = iso_inumber ip, st_mode = iso_mode ip, st_nlink = word_of_int (iso_nlink ip), st_uid = 0, st_gid = 0,
                 st_size = iso_size ip, st_blocks = 0, st_atime = 0, st_mtime = 0, st_ctime = 0\<rparr>)"

subsection \<open>Listing a directory\<close>

text \<open>
  The name of the record at \<open>p\<close>: its length, 0 when the record is passed over, and the buffer.  The length of the name in the record is overwritten by the result of
  \<open>get_rock_ridge_filename\<close>, so that the loop that translates a plain name does nothing.
\<close>

definition list_entry ::
  "nat \<Rightarrow> reader \<Rightarrow> isofs_super_block \<Rightarrow> bytes \<Rightarrow> bytes \<Rightarrow> nat \<Rightarrow> (int \<times> bytes) option" where
  "list_entry f rd s raw buf p =
     (if p + sizeof_record + 1 > length buf then None
      else if de_name_len buf p = 0 then Some (0, buf)
      else if de_name_len buf p = 1 \<and> (de_name buf p ! 0 = 0 \<or> de_name buf p ! 0 = 1) then Some (0, buf)
      else if s_unhide s = CHR ''n'' \<and> de_flags s buf p AND 5 \<noteq> 0 then Some (0, buf)
      else
        case get_rock_ridge_filename f rd (s_rock s) buf p raw of
          None \<Rightarrow> None
        | Some (n, rname) \<Rightarrow>
            if n \<noteq> 0 then
              (if n < 0 then None
               else case write_at (nat n) [0] rname of
                      None \<Rightarrow> None
                    | Some rname \<Rightarrow>
                        (case string_in rname of
                           None \<Rightarrow> None
                         | Some t \<Rightarrow> map_option (\<lambda>buf. (n, buf)) (write_at (p + sizeof_record) (t @ [0]) buf)))
            else if s_mapping s = CHR ''n'' then Some (0, buf[p + sizeof_record := 0])
            else Some (0, buf))"

text \<open>
  The record at the current position: \<^const>\<open>None\<close> in the option for \<open>NULL\<close>, otherwise whether it was put together in \<open>big_data_block\<close>, its position there or in \<open>data_block\<close>,
  and its length.  After the end of a sector the listing goes on with the next one.
\<close>

definition list_sector :: "reader \<Rightarrow> iso_slot \<Rightarrow> iso_state \<Rightarrow> bool \<times> iso_state" where
  "list_sector rd slot st =
     (let st = st\<lparr>rd_diroffset := (rd_diroffset st AND NOT 2047) + 2048\<rparr>
      in if rd_diroffset st \<ge> iso_size slot then (False, st)
         else case next_dir_block rd slot (rd_diroffset st) st of
                ((_, good), st) \<Rightarrow> (good, if good then st\<lparr>rd_blockoffset := 0\<rparr> else st))"

definition list_record :: "reader \<Rightarrow> iso_slot \<Rightarrow> iso_state \<Rightarrow> ((bool \<times> nat \<times> nat) option \<times> iso_state) option" where
  "list_record rd slot st =
     (if unat (rd_blockoffset st) \<ge> length (data_block st) then None
      else
        case (if data_block st ! unat (rd_blockoffset st) = 0 then list_sector rd slot st else (True, st)) of
          (False, st) \<Rightarrow> Some (None, st)
        | (True, st) \<Rightarrow>
            let bs = s_blocksize (sb st); old = unat (rd_blockoffset st); n = de_length (data_block st) old;
                st = st\<lparr>rd_blockoffset := rd_blockoffset st + of_nat n, rd_diroffset := rd_diroffset st + of_nat n\<rparr>
            in if unat (rd_blockoffset st) \<ge> bs then
                 let frag = slice old (bs - old) (data_block st); st = st\<lparr>big_data_block := overwrite frag (big_data_block st)\<rparr>;
                     block = word_of_int (iso_bmap (sb st) slot (uint (drop_bit (s_blocksize_bits (sb st)) (rd_diroffset st)))) :: u32
                 in if block = 0 then Some (None, st)
                    else
                      let (r, d) = read_at rd (int bs) (uint (block * of_nat bs));
                          st = st\<lparr>big_data_block := take (bs - old) (big_data_block st) @ overwrite d (drop (bs - old) (big_data_block st))\<rparr>
                      in if r \<noteq> int bs then Some (None, st)
                         else Some (Some (True, 0, n), st\<lparr>rd_blockoffset := 0\<rparr>)
               else Some (Some (False, old, n), st))"

text \<open>
  After a record that was put together, the rest of \<open>big_data_block\<close> is moved to the start of \<open>data_block\<close>, but only as many bytes as make up a block together
  with the record.
\<close>

primrec list_loop ::
  "nat \<Rightarrow> nat \<Rightarrow> reader \<Rightarrow> (nat \<Rightarrow> bytes) \<Rightarrow> iso_slot \<Rightarrow> iso_state \<Rightarrow> (bytes option \<times> iso_state) option" where
  "list_loop 0 f rd raw slot st = None"
| "list_loop (Suc k) f rd raw slot st =
     (case list_record rd slot st of
        None \<Rightarrow> None
      | Some (None, st) \<Rightarrow> Some (None, st)
      | Some (Some (big, p, n), st) \<Rightarrow>
          (case list_entry f rd (sb st) (raw k) (if big then big_data_block st else data_block st) p of
             None \<Rightarrow> None
           | Some (name_len, buf) \<Rightarrow>
               let bs = s_blocksize (sb st);
                   st = (if big then st\<lparr>big_data_block := buf, data_block := overwrite (slice n (bs - n) buf) (data_block st)\<rparr>
                         else st\<lparr>data_block := buf\<rparr>)
               in if name_len = 0 then list_loop k f rd raw slot st
                  else map_option (\<lambda>t. (Some t, st)) (string_in (de_name buf p))))"

definition iso_readdir_i ::
  "nat \<Rightarrow> reader \<Rightarrow> (nat \<Rightarrow> bytes) \<Rightarrow> nat \<Rightarrow> bool \<Rightarrow> iso_state \<Rightarrow> (bytes option \<times> iso_state) option" where
  "iso_readdir_i f rd raw fd rewind st =
     (let slot = iso_table st ! fd
      in if \<not> iso_isdir (iso_mode slot) then Some (None, st)
         else
           case (if rewind then next_dir_block rd slot 0 (st\<lparr>rd_blockoffset := 0, rd_diroffset := 0\<rparr>) else ((0, True), st)) of
             ((_, good), st) \<Rightarrow> if good then list_loop f f rd raw slot st else Some (None, st))"

subsection \<open>The state stays well-formed\<close>

definition bounded_reader :: "reader \<Rightarrow> bool" where
  "bounded_reader rd \<longleftrightarrow> (\<forall>n off. length (snd (rd n off)) \<le> nat n)"

definition iso_ok :: "iso_state \<Rightarrow> bool" where
  "iso_ok st \<longleftrightarrow> length (iso_table st) = MAX_OPEN_FILES \<and> length (data_block st) = 1024 \<and> length (big_data_block st) = 2048
     \<and> s_blocksize (sb st) = 1024 \<and> s_blocksize_bits (sb st) = 10 \<and> s_high_sierra (sb st) \<le> 1
     \<and> (s_cruft (sb st) = CHR ''n'' \<or> s_cruft (sb st) = CHR ''y'')"

text \<open>What searching a directory leaves alone.\<close>

definition same_fs :: "iso_state \<Rightarrow> iso_state \<Rightarrow> bool" where
  "same_fs st st' \<longleftrightarrow> iso_table st' = iso_table st \<and> sb st' = sb st \<and> iso_root st' = iso_root st
     \<and> length (data_block st') = length (data_block st) \<and> length (big_data_block st') = length (big_data_block st)"

lemma same_fs_refl [simp]: "same_fs st st"
  by (simp add: same_fs_def)

lemma same_fs_trans: "same_fs st st1 \<Longrightarrow> same_fs st1 st2 \<Longrightarrow> same_fs st st2"
  by (simp add: same_fs_def)

lemma same_fs_ok: "same_fs st st' \<Longrightarrow> iso_ok st \<Longrightarrow> iso_ok st'"
  by (simp add: same_fs_def iso_ok_def)

lemma length_overwrite: "length d \<le> length buf \<Longrightarrow> length (overwrite d buf) = length buf"
  by (simp add: overwrite_def)

lemma length_read_at: "bounded_reader rd \<Longrightarrow> length (snd (read_at rd n off)) \<le> nat n"
  by (simp add: bounded_reader_def read_at_def)

lemma read_data_block_same:
  assumes "bounded_reader rd" "iso_ok st" "read_data_block rd block st = (good, st')"
  shows "same_fs st st'"
  using assms(2,3) length_read_at [OF assms(1), of 1024]
  by (auto simp: read_data_block_def same_fs_def iso_ok_def Let_def split_beta length_overwrite)

lemma next_dir_block_same:
  assumes "bounded_reader rd" "iso_ok st" "next_dir_block rd slot pos st = (r, st')"
  shows "same_fs st st'"
  using assms read_data_block_same [OF assms(1,2)]
  by (auto simp: next_dir_block_def Let_def split: if_splits prod.splits)

lemma length_write_at: "write_at i xs d = Some d' \<Longrightarrow> length d' = length d"
  by (auto simp: write_at_def split: if_splits)

lemma entry_name_length: "entry_name f rd s raw namelen buf p = Some (n, buf') \<Longrightarrow> length buf' = length buf"
  by (auto simp: entry_name_def Let_def dest: length_write_at split: option.splits if_splits)

lemma check_entry_length: "check_entry f rd raw name dir s ino buf p = Some (r, buf') \<Longrightarrow> length buf' = length buf"
  by (auto simp: check_entry_def dest: entry_name_length split: option.splits if_splits prod.splits bool.splits)


lemma big_block_same:
  assumes "iso_ok st" "same_fs st st'" "length a \<le> 1024" "length b \<le> 1024" "k \<le> 1024"
  shows "same_fs st (st'\<lparr>big_data_block := take k (big_data_block st') @ overwrite b (drop k (big_data_block st'))\<rparr>)"
    "same_fs st (st'\<lparr>big_data_block := overwrite a (big_data_block st')\<rparr>)"
  using assms by (auto simp: same_fs_def iso_ok_def length_overwrite)

lemma same_fs_update:
  "same_fs st st' \<Longrightarrow> length b = length (data_block st') \<Longrightarrow> same_fs st (st'\<lparr>data_block := b\<rparr>)"
  "same_fs st st' \<Longrightarrow> length b = length (big_data_block st') \<Longrightarrow> same_fs st (st'\<lparr>big_data_block := b\<rparr>)"
  by (simp_all add: same_fs_def)

lemma length_slice_le: "length (slice a n xs) \<le> n"
  by (simp add: slice_def)

lemma iso_find_loop_same:
  assumes rd: "bounded_reader rd"
  shows "iso_ok st \<Longrightarrow> iso_find_loop n f rd raw name dir f_pos offset block st = Some (r, st') \<Longrightarrow> same_fs st st'"
proof (induction n arbitrary: f_pos offset block st)
  case (Suc n)
  let ?slot = "iso_table st ! dir" and ?l = "de_length (data_block st) offset"
  let ?pos = "f_pos + of_nat ?l"
  have bs: "s_blocksize (sb st) = 1024" using Suc.prems(1) by (simp add: iso_ok_def)
  have step: "same_fs st st'" if "same_fs st st1" "iso_find_loop n f rd raw name dir p o' b st1 = Some (r, st')" for p o' b st1
    using Suc.IH [OF same_fs_ok [OF that(1) Suc.prems(1)] that(2)] that(1) by (blast intro: same_fs_trans)
  consider (stop) "\<not> f_pos < iso_size ?slot" | (out) "f_pos < iso_size ?slot" "offset \<ge> length (data_block st)"
    | (skip) "f_pos < iso_size ?slot" "offset < length (data_block st)" "data_block st ! offset = 0"
    | (whole) "f_pos < iso_size ?slot" "offset < length (data_block st)" "data_block st ! offset \<noteq> 0" "offset + ?l < 1024"
    | (span) "f_pos < iso_size ?slot" "offset < length (data_block st)" "data_block st ! offset \<noteq> 0" "offset + ?l \<ge> 1024"
    by linarith
  then show ?case
  proof cases
    case stop
    with Suc.prems show ?thesis by simp
  next
    case out
    with Suc.prems show ?thesis by simp
  next
    case skip
    then show ?thesis
      using Suc.prems next_dir_block_same [OF rd Suc.prems(1)] step [OF next_dir_block_same [OF rd Suc.prems(1)]]
      by (auto simp: Let_def bs split: prod.splits if_splits)
  next
    case whole
    then show ?thesis
      using Suc.prems same_fs_update(1) [OF same_fs_refl] step [OF same_fs_update(1) [OF same_fs_refl]]
      by (auto simp: Let_def bs split: option.splits if_splits dest!: check_entry_length)
  next
    case span
    let ?st = "st\<lparr>big_data_block := overwrite (slice offset (1024 - offset) (data_block st)) (big_data_block st)\<rparr>"
    have a: "same_fs st ?st"
      by (rule big_block_same(2) [OF Suc.prems(1) same_fs_refl, where b = "[]" and k = 0])
        (use length_slice_le [of offset "1024 - offset" "data_block st"] in auto)
    obtain block' good st1 where n: "next_dir_block rd ?slot ?pos ?st = ((block', good), st1)" by (metis surj_pair)
    have s1: "same_fs st st1"
      using next_dir_block_same [OF rd same_fs_ok [OF a Suc.prems(1)] n] a by (blast intro: same_fs_trans)
    let ?k = "1024 - offset" and ?o = "unat ?pos mod 1024"
    have s2: "same_fs st (st1\<lparr>big_data_block := take ?k (big_data_block st1) @ overwrite (take ?o (data_block st1)) (drop ?k (big_data_block st1))\<rparr>)"
      by (rule big_block_same(1) [OF Suc.prems(1) s1, of "[]"]) auto
    show ?thesis
      using Suc.prems span n s1 s2 same_fs_update(2) [OF s2] step [OF same_fs_update(2) [OF s2]]
      by (auto simp: Let_def bs split: option.splits if_splits dest!: check_entry_length)
  qed
qed simp

lemma iso_find_entry_same:
  assumes rd: "bounded_reader rd" and ok: "iso_ok st" and r: "iso_find_entry f rd raw name dir b st = Some (x, st')"
  shows "same_fs st st'"
proof (cases "i_first_extent (iso_table st ! dir) = 0")
  case False
  obtain block good st1 where n: "next_dir_block rd (iso_table st ! dir) 0 st = ((block, good), st1)" by (metis surj_pair)
  note s1 = next_dir_block_same [OF rd ok n]
  show ?thesis
    using r False n s1 same_fs_trans [OF s1 iso_find_loop_same [OF rd same_fs_ok [OF s1 ok]]]
    by (auto simp: iso_find_entry_def split: option.splits find_result.splits if_splits)
qed (use r in \<open>simp add: iso_find_entry_def\<close>)

subsection \<open>Slots\<close>

text \<open>The slots \<open>U\<close> keep their contents.\<close>

definition keeps :: "nat set \<Rightarrow> iso_state \<Rightarrow> iso_state \<Rightarrow> bool" where
  "keeps U st st' \<longleftrightarrow> (\<forall>j \<in> U. iso_table st' ! j = iso_table st ! j)"

definition used :: "iso_state \<Rightarrow> nat set" where
  "used st = {j. j < length (iso_table st) \<and> \<not> iso_free (iso_table st ! j)}"

lemma keeps_refl [simp]: "keeps U st st"
  by (simp add: keeps_def)

lemma keeps_trans: "keeps U st st1 \<Longrightarrow> keeps U st1 st2 \<Longrightarrow> keeps U st st2"
  by (simp add: keeps_def)

lemma same_fs_keeps: "same_fs st st' \<Longrightarrow> keeps U st st'" "same_fs st st' \<Longrightarrow> used st' = used st"
  by (simp_all add: same_fs_def keeps_def used_def)

lemma keeps_used: "keeps U st st' \<Longrightarrow> U \<subseteq> used st \<Longrightarrow> iso_ok st \<Longrightarrow> iso_ok st' \<Longrightarrow> U \<subseteq> used st'"
  by (auto simp: keeps_def used_def iso_ok_def)

lemma iso_find_free_Some:
  assumes "iso_find_free es k = Some i"
  shows "\<exists>n. i = k + n \<and> n < length es \<and> iso_free (es ! n) \<and> (\<forall>j < n. \<not> iso_free (es ! j))"
  using assms
proof (induction es arbitrary: k)
  case (Cons e es)
  show ?case
  proof (cases "iso_free e")
    case True
    with Cons.prems show ?thesis by (intro exI [of _ 0]) simp
  next
    case False
    with Cons.prems obtain n where "i = Suc k + n" "n < length es" "iso_free (es ! n)" "\<forall>j < n. \<not> iso_free (es ! j)"
      using Cons.IH [of "Suc k"] by auto
    with False show ?thesis by (intro exI [of _ "Suc n"]) (auto simp: less_Suc_eq_0_disj)
  qed
qed simp

lemma iso_iput_table:
  shows "iso_ok st \<Longrightarrow> iso_ok (iso_iput i st)" "i \<notin> U \<Longrightarrow> keeps U st (iso_iput i st)" "used (iso_iput i st) = used st - {i}"
proof -
  show "iso_ok st \<Longrightarrow> iso_ok (iso_iput i st)" by (simp add: iso_iput_def iso_ok_def)
  show "i \<notin> U \<Longrightarrow> keeps U st (iso_iput i st)" by (auto simp: iso_iput_def keeps_def intro!: nth_list_update_neq)
  show "used (iso_iput i st) = used st - {i}"
    by (rule set_eqI, rename_tac x, case_tac "x = i") (auto simp: iso_iput_def used_def)
qed

lemma iso_read_record_same:
  assumes rd: "bounded_reader rd" and ok: "iso_ok st" and r: "iso_read_record rd ino st = Some (x, st')"
  shows "same_fs st st' \<and> (\<forall>buf p. x = Some (buf, p) \<longrightarrow> length buf \<ge> 1024)"
proof -
  have bs: "s_blocksize (sb st) = 1024" using ok by (simp add: iso_ok_def)
  define b :: u32 where "b = word_of_int (drop_bit (s_blocksize_bits (sb st)) ino)"
  define off where "off = nat (ino mod int 1024)"
  obtain good st1 where b1: "read_data_block rd b st = (good, st1)" by (metis surj_pair)
  note s1 = read_data_block_same [OF rd ok b1]
  define n where "n = de_length (data_block st1) off"
  define st2 where "st2 = st1\<lparr>big_data_block := overwrite (slice off (1024 - off) (data_block st1)) (big_data_block st1)\<rparr>"
  have s2: "same_fs st st2"
    unfolding st2_def by (rule big_block_same(2) [OF ok s1, where b = "[]" and k = 0]) (auto intro: order_trans [OF length_slice_le])
  obtain good2 st3 where b3: "read_data_block rd (b + 1) st2 = (good2, st3)" by (metis surj_pair)
  have s3: "same_fs st st3" using read_data_block_same [OF rd same_fs_ok [OF s2 ok] b3] s2 by (blast intro: same_fs_trans)
  have ok3: "length (data_block st3) = 1024" using same_fs_ok [OF s3 ok] by (simp add: iso_ok_def)
  define st4 where "st4 = st3\<lparr>big_data_block := take (1024 - off) (big_data_block st3)
      @ overwrite (take (off + n - 1024) (data_block st3)) (drop (1024 - off) (big_data_block st3))\<rparr>"
  have s4: "same_fs st st4"
    unfolding st4_def by (rule big_block_same(1) [OF ok s3, where a = "[]"]) (auto simp: ok3)
  have "iso_read_record rd ino st =
      (if \<not> good then Some (None, st1)
       else if off \<ge> length (data_block st1) then None
       else if off + n > 1024 then (if \<not> good2 then Some (None, st3) else Some (Some (big_data_block st4, 0), st4))
       else Some (Some (data_block st1, off), st1))"
    unfolding iso_read_record_def Let_def bs b_def [symmetric] off_def [symmetric] b1 prod.case n_def [symmetric] st2_def [symmetric] b3 st4_def [symmetric]
    by simp
  moreover have "length (data_block st1) = 1024" "length (big_data_block st4) = 2048"
    using same_fs_ok [OF s1 ok] same_fs_ok [OF s4 ok] by (simp_all add: iso_ok_def)
  ultimately show ?thesis using r s1 s3 s4 by (simp split: if_splits)
qed

lemma record_size_cruft:
  "s_cruft s = CHR ''n'' \<or> s_cruft s = CHR ''y'' \<Longrightarrow> record_size s buf p = (n, c) \<Longrightarrow> c = CHR ''n'' \<or> c = CHR ''y''"
  by (auto simp: record_size_def Let_def split: if_splits)

lemma iso_iget_slot:
  assumes rd: "bounded_reader rd" and ok: "iso_ok st" and r: "iso_iget f rd ino st = Some (x, st')"
  shows "iso_ok st'" "iso_root st' = iso_root st" "x = None \<Longrightarrow> iso_table st' = iso_table st"
    "x = Some i \<Longrightarrow> i < MAX_OPEN_FILES \<and> i \<notin> used st \<and> used st' = insert i (used st) \<and> (\<forall>j < i. j \<in> used st)
       \<and> (\<forall>U. i \<notin> U \<longrightarrow> keeps U st st')"
proof -
  have "iso_ok st' \<and> iso_root st' = iso_root st \<and> (x = None \<longrightarrow> iso_table st' = iso_table st)
      \<and> (\<forall>i. x = Some i \<longrightarrow> i < MAX_OPEN_FILES \<and> i \<notin> used st \<and> used st' = insert i (used st) \<and> (\<forall>j < i. j \<in> used st)
          \<and> (\<forall>U. i \<notin> U \<longrightarrow> keeps U st st'))"
  proof (cases "iso_find_free (iso_table st) 0")
    case None
    with r ok show ?thesis by (simp add: iso_iget_def)
  next
    case (Some k)
    have k: "k < MAX_OPEN_FILES" "k \<notin> used st" "\<forall>j < k. j \<in> used st"
      using iso_find_free_Some [OF Some] ok by (auto simp: used_def iso_ok_def)
    have table: "used (st1\<lparr>sb := s, iso_table := (iso_table st1)[k := e]\<rparr>) = insert k (used st)"
        "k \<notin> U \<Longrightarrow> keeps U st (st1\<lparr>sb := s, iso_table := (iso_table st1)[k := e]\<rparr>)"
      if "same_fs st st1" "\<not> iso_free e" for st1 s e U
      using that k ok by (auto simp: used_def keeps_def same_fs_def iso_ok_def nth_list_update intro!: nth_list_update_neq)
    obtain y st1 where y: "iso_read_record rd ino st = Some (y, st1)"
      using r Some by (auto simp: iso_iget_def split: option.splits)
    have s1: "same_fs st st1" using iso_read_record_same [OF rd ok y] by simp
    note ok1 = same_fs_ok [OF s1 ok]
    show ?thesis
    proof (cases y)
      case None
      with r Some y s1 ok1 show ?thesis by (auto simp: iso_iget_def same_fs_def)
    next
      case (Some bp)
      obtain buf p where bp: "bp = (buf, p)" by (cases bp)
      obtain n cruft where n: "record_size (sb st1) buf p = (n, cruft)" by (metis surj_pair)
      have c: "cruft = CHR ''n'' \<or> cruft = CHR ''y''" using record_size_cruft [OF _ n] ok1 by (simp add: iso_ok_def)
      show ?thesis
        using r \<open>iso_find_free (iso_table st) 0 = Some k\<close> y Some bp n c ok1 s1 table [OF s1] k
        by (auto simp: iso_iget_def Let_def iso_ok_def same_fs_def split: option.splits if_splits)
    qed
  qed
  then show "iso_ok st'" "iso_root st' = iso_root st" "x = None \<Longrightarrow> iso_table st' = iso_table st"
    "x = Some i \<Longrightarrow> i < MAX_OPEN_FILES \<and> i \<notin> used st \<and> used st' = insert i (used st) \<and> (\<forall>j < i. j \<in> used st)
       \<and> (\<forall>U. i \<notin> U \<longrightarrow> keeps U st st')"
    by auto
qed


text \<open>
  A walk along a path from the directory in the first slot outside \<open>U\<close> stays in this slot until the last component, keeps the slots \<open>U\<close> and delivers
  another slot.
\<close>

definition walk_ok :: "nat set \<Rightarrow> nat \<Rightarrow> iso_state \<Rightarrow> nat option \<Rightarrow> iso_state \<Rightarrow> bool" where
  "walk_ok U dir st x st' \<longleftrightarrow> iso_ok st' \<and> iso_root st' = iso_root st \<and> keeps U st st'
     \<and> (\<forall>i. x = Some i \<longrightarrow> i \<in> used st' \<and> i \<notin> U \<and> i \<noteq> dir)"

lemma used_less: "iso_ok st \<Longrightarrow> i \<in> used st \<Longrightarrow> i < MAX_OPEN_FILES"
  by (simp add: used_def iso_ok_def)

lemma set_backlink:
  assumes "iso_ok st" "i \<notin> U"
  shows "iso_ok (st\<lparr>iso_table := (iso_table st)[i := (iso_table st ! i)\<lparr>i_backlink := b\<rparr>]\<rparr>)"
    "keeps U st (st\<lparr>iso_table := (iso_table st)[i := (iso_table st ! i)\<lparr>i_backlink := b\<rparr>]\<rparr>)"
    "used (st\<lparr>iso_table := (iso_table st)[i := (iso_table st ! i)\<lparr>i_backlink := b\<rparr>]\<rparr>) = used st"
proof -
  show "used (st\<lparr>iso_table := (iso_table st)[i := (iso_table st ! i)\<lparr>i_backlink := b\<rparr>]\<rparr>) = used st"
    by (rule set_eqI, rename_tac x, case_tac "x = i") (auto simp: used_def)
qed (use assms in \<open>auto simp: iso_ok_def keeps_def intro!: nth_list_update_neq\<close>)

lemma iso_root_simps [simp]: "iso_root (iso_iput i st) = iso_root st"
  by (simp add: iso_iput_def)

lemma walk_last_ok:
  assumes rd: "bounded_reader rd" and ok: "iso_ok st" and U: "dir \<in> used st" "U \<subseteq> used st" "dir \<notin> U"
    and r: "iso_walk f rd raw [c] dir b st = Some (x, st')"
  shows "walk_ok U dir st x st'"
proof -
  obtain ret ino b1 st1 where fe: "iso_find_entry f rd raw c dir b st = Some ((ret, ino, b1), st1)"
    using r by (auto split: option.splits)
  note s1 = iso_find_entry_same [OF rd ok fe]
  note ok1 = same_fs_ok [OF s1 ok]
  have f1: "used st1 = used st" "keeps U st st1" "iso_root st1 = iso_root st" using s1 same_fs_keeps [OF s1] by (auto simp: same_fs_def)
  show ?thesis
  proof (cases "ret = 0")
    case False
    with r fe ok1 f1 iso_iput_table(2) [OF U(3), of st1] show ?thesis
      by (auto simp: walk_ok_def iso_iput_table intro: keeps_trans)
  next
    case True
    obtain y st2 where ig: "iso_iget f rd (sint ino) st1 = Some (y, st2)"
      using r fe True by (auto split: option.splits)
    note g = iso_iget_slot [OF rd ok1 ig]
    show ?thesis
    proof (cases y)
      case None
      have "keeps U st st2" using f1(2) g(3) [OF None] by (simp add: keeps_def)
      with None r fe True ig g(1,2) f1 iso_iput_table(2) [OF U(3), of st2] show ?thesis
        by (auto simp: walk_ok_def iso_iput_table intro: keeps_trans)
    next
      case (Some i)
      have i: "i \<notin> U" "i \<noteq> dir" "used st2 = insert i (used st)" "keeps U st1 st2" using g(4) [OF Some] U f1(1) by auto
      let ?st = "st2\<lparr>iso_table := (iso_table st2)[i := (iso_table st2 ! i)\<lparr>i_backlink := b1\<rparr>]\<rparr>"
      have "keeps U st ?st" using f1(2) i(4) set_backlink(2) [OF g(1) i(1)] by (blast intro: keeps_trans)
      then have "keeps U st (iso_iput dir ?st)" using iso_iput_table(2) [OF U(3)] by (blast intro: keeps_trans)
      moreover have "st' = iso_iput dir ?st" "x = Some i" using Some r fe True ig by simp_all
      moreover have "iso_ok ?st" "used ?st = insert i (used st)" "iso_root ?st = iso_root st"
        using set_backlink [OF g(1) i(1), of b1] i(3) g(2) f1(3) by simp_all
      ultimately show ?thesis using i by (simp add: walk_ok_def iso_iput_table)
    qed
  qed
qed

lemma walk_step:
  assumes rd: "bounded_reader rd" and ok: "iso_ok st" and U: "dir \<in> used st" "U \<subseteq> used st" "dir \<notin> U" "{..<dir} \<subseteq> U"
    and r: "iso_walk f rd raw (c # c' # cs) dir b st = Some (x, st')"
  shows "walk_ok U dir st x st'
    \<or> (\<exists>b1 st1. iso_walk f rd raw (c' # cs) dir b1 st1 = Some (x, st') \<and> iso_ok st1 \<and> used st1 = used st \<and> keeps U st st1 \<and> iso_root st1 = iso_root st)"
proof -
  obtain ret ino b1 st1 where fe: "iso_find_entry f rd raw c dir b st = Some ((ret, ino, b1), st1)"
    using r by (auto split: option.splits)
  note s1 = iso_find_entry_same [OF rd ok fe]
  note ok1 = same_fs_ok [OF s1 ok]
  have f1: "used st1 = used st" "keeps U st st1" "iso_root st1 = iso_root st" using s1 same_fs_keeps [OF s1] by (auto simp: same_fs_def)
  show ?thesis
  proof (cases "ret = 0")
    case False
    with r fe ok1 f1 show ?thesis by (auto simp: walk_ok_def)
  next
    case True
    let ?st = "iso_iput dir st1"
    have k: "keeps U st ?st" using f1(2) iso_iput_table(2) [OF U(3)] by (blast intro: keeps_trans)
    obtain y st2 where ig: "iso_iget f rd (sint ino) ?st = Some (y, st2)"
      using r fe True by (auto split: option.splits)
    note g = iso_iget_slot [OF rd iso_iput_table(1) [OF ok1] ig]
    show ?thesis
    proof (cases y)
      case None
      have "keeps U st st2" using k g(3) [OF None] by (simp add: keeps_def)
      with None r fe True ig g(1,2) f1(3) show ?thesis by (simp add: walk_ok_def)
    next
      case (Some i)
      have i: "i \<notin> used st - {dir}" "used st2 = insert i (used st - {dir})" "\<forall>j < i. j \<in> used st - {dir}" "i \<notin> U \<longrightarrow> keeps U ?st st2"
        using g(4) [OF Some] f1(1) by (auto simp: iso_iput_table)
      have "\<not> i < dir" using i(1) U by auto
      moreover have "\<not> dir < i" using i(3) by auto
      ultimately have [simp]: "i = dir" by simp
      have "used st2 = used st" "keeps U st st2" using i(2,4) U(1,3) k by (auto intro: keeps_trans)
      with Some r fe True ig g(1,2) f1(3) show ?thesis by auto
    qed
  qed
qed

lemma iso_walk_ok:
  assumes rd: "bounded_reader rd"
  shows "iso_ok st \<Longrightarrow> dir \<in> used st \<Longrightarrow> U \<subseteq> used st \<Longrightarrow> dir \<notin> U \<Longrightarrow> {..<dir} \<subseteq> U
    \<Longrightarrow> iso_walk f rd raw cs dir b st = Some (x, st') \<Longrightarrow> walk_ok U dir st x st'"
proof (induction cs arbitrary: b st)
  case (Cons c cs)
  show ?case
  proof (cases cs)
    case Nil
    with Cons.prems walk_last_ok [OF rd] show ?thesis by simp
  next
    case (Cons c' cs')
    from walk_step [OF rd Cons.prems(1-5), of f raw c c' cs' b x st'] Cons.prems(6) \<open>cs = c' # cs'\<close>
    consider "walk_ok U dir st x st'"
      | b1 st1 where "iso_walk f rd raw cs dir b1 st1 = Some (x, st')" "iso_ok st1" "used st1 = used st" "keeps U st st1" "iso_root st1 = iso_root st"
      by auto
    then show ?thesis
    proof cases
      case 2
      with Cons.IH [of st1 b1] Cons.prems(2-5) show ?thesis by (auto simp: walk_ok_def intro: keeps_trans)
    qed
  qed
qed simp

lemma iso_lookup_ok:
  assumes rd: "bounded_reader rd" and ok: "iso_ok st" and U: "dir \<in> used st" "U \<subseteq> used st" "dir \<notin> U" "{..<dir} \<subseteq> U"
    and r: "iso_lookup f rd raw dir name st = Some (x, st')"
  shows "walk_ok U dir st x st'"
proof (cases "iso_isdir (iso_mode (iso_table st ! dir))")
  case True
  with r iso_walk_ok [OF rd ok U] show ?thesis by (simp add: iso_lookup_def)
next
  case False
  with r ok iso_iput_table(1,3) [where st = st and i = dir] iso_iput_table(2) [where st = st and i = dir and U = U] U show ?thesis by (auto simp: iso_lookup_def walk_ok_def)
qed

text \<open>The first free slot: the directory that \<open>iso_iget\<close> has put there can be walked from.\<close>

lemma iso_iget_lookup_ok:
  assumes rd: "bounded_reader rd" and ok: "iso_ok st" and g: "iso_iget f rd ino st = Some (Some r, st1)"
    and l: "iso_lookup f rd raw r name st1 = Some (x, st')"
  shows "walk_ok (used st) r st x st'"
proof -
  note i = iso_iget_slot [OF rd ok g]
  have "walk_ok (used st) r st1 x st'"
    using i(4) [OF refl] by (intro iso_lookup_ok [OF rd i(1) _ _ _ _ l]) auto
  then show ?thesis using i(2) i(4) [OF refl] by (auto simp: walk_ok_def intro: keeps_trans)
qed

lemma iso_follow_link_ok:
  assumes rd: "bounded_reader rd" and ok: "iso_ok st" and r: "iso_follow_link f rd raw heap from base st = Some (x, st')"
  shows "iso_ok st' \<and> iso_root st' = iso_root st \<and> keeps (used st) st st' \<and> (\<forall>i. x = Some i \<longrightarrow> i \<in> used st' \<and> i \<notin> used st)"
proof -
  obtain root st1 where g: "iso_iget f rd (iso_root st) st = Some (root, st1)"
    using r by (auto simp: iso_follow_link_def split: option.splits)
  note i = iso_iget_slot [OF rd ok g]
  have k: "keeps (used st) st st1"
    using i(3,4) by (cases root) (auto simp: keeps_def)
  let ?slot = "iso_table st1 ! from"
  show ?thesis
  proof (cases "x = None \<and> st' = st1")
    case True
    with i(1,2) k show ?thesis by simp
  next
    case False
    then obtain q to' st2 where q: "root = Some q" "iso_lookup f rd raw q (link_target base to') st1 = Some (x, st2)" "st' = iso_iput q st2"
      using r g by (auto simp: iso_follow_link_def Let_def split: option.splits if_splits)
    have w: "walk_ok (used st) q st x st2" using iso_iget_lookup_ok [OF rd ok] g q(1,2) by blast
    have "q \<notin> used st" using i(4) q(1) by blast
    with w q(3) iso_iput_table(1,3) [where st = st2 and i = q] iso_iput_table(2) [where st = st2 and i = q and U = "used st"] show ?thesis by (auto simp: walk_ok_def intro: keeps_trans)
  qed
qed

lemma iso_links_ok:
  assumes rd: "bounded_reader rd"
  shows "iso_ok st \<Longrightarrow> \<forall>i. inode = Some i \<longrightarrow> i \<in> used st \<and> i \<notin> U \<Longrightarrow> U \<subseteq> used st
    \<Longrightarrow> iso_links n f rd raw heap filename inode st = Some (r, st')
    \<Longrightarrow> iso_ok st' \<and> iso_root st' = iso_root st \<and> keeps U st st'
      \<and> (r = - 1 \<or> (\<exists>i. r = int i \<and> i \<in> used st' \<and> i \<notin> U \<and> \<not> iso_islnk (iso_mode (iso_table st' ! i))))"
proof (induction n arbitrary: inode st)
  case (Suc n)
  show ?case
  proof (cases "\<exists>i. inode = Some i \<and> iso_islnk (iso_mode (iso_table st ! i))")
    case False
    with Suc.prems show ?thesis by (auto split: option.splits)
  next
    case True
    then obtain i where i: "inode = Some i" "iso_islnk (iso_mode (iso_table st ! i))" "i \<in> used st" "i \<notin> U" using Suc.prems(2) by blast
    obtain y st1 where y: "iso_follow_link f rd raw heap i filename st = Some (y, st1)"
      "iso_links n f rd raw heap filename y (iso_iput i st1) = Some (r, st')"
      using Suc.prems(4) i by (auto split: option.splits)
    note s = iso_follow_link_ok [OF rd Suc.prems(1) y(1)]
    have k: "keeps U st (iso_iput i st1)"
      using s Suc.prems(3) iso_iput_table(2) [OF i(4), of st1] by (auto simp: keeps_def)
    have u: "U \<subseteq> used (iso_iput i st1)"
      using keeps_used [OF _ subset_refl Suc.prems(1), of st1] s Suc.prems(3) i(4) by (auto simp: iso_iput_table)
    have "iso_ok (iso_iput i st1)" "\<forall>j. y = Some j \<longrightarrow> j \<in> used (iso_iput i st1) \<and> j \<notin> U"
      using s i(3) Suc.prems(3) by (auto simp: iso_iput_table)
    from Suc.IH [OF this u y(2)] show ?thesis using k s by (auto intro: keeps_trans)
  qed
qed simp

lemma iso_open_ok:
  assumes rd: "bounded_reader rd" and ok: "iso_ok st" and r: "iso_open f rd raw heap name st = Some (r, st')"
  shows "iso_ok st' \<and> iso_root st' = iso_root st \<and> keeps (used st) st st'
      \<and> (r = - 1 \<or> (\<exists>i. r = int i \<and> i \<in> used st' \<and> i \<notin> used st \<and> \<not> iso_islnk (iso_mode (iso_table st' ! i))))"
proof -
  obtain root st1 where g: "iso_iget f rd (iso_root st) st = Some (root, st1)"
    using r by (auto simp: iso_open_def split: option.splits)
  note i = iso_iget_slot [OF rd ok g]
  show ?thesis
  proof (cases root)
    case None
    with r g i show ?thesis by (auto simp: iso_open_def keeps_def)
  next
    case (Some q)
    then obtain x st2 where l: "iso_lookup f rd raw q name st1 = Some (x, st2)" "iso_links f f rd raw heap name x st2 = Some (r, st')"
      using r g by (auto simp: iso_open_def split: option.splits)
    have w: "walk_ok (used st) q st x st2" using iso_iget_lookup_ok [OF rd ok _ l(1)] g Some by blast
    have "used st \<subseteq> used st2" using keeps_used [OF _ subset_refl ok] w by (simp add: walk_ok_def)
    with w iso_links_ok [OF rd _ _ _ l(2), of "used st"] show ?thesis by (auto simp: walk_ok_def intro: keeps_trans)
  qed
qed
lemma list_entry_length: "list_entry f rd s raw buf p = Some (n, buf') \<Longrightarrow> length buf' = length buf"
  by (auto simp: list_entry_def dest: length_write_at split: option.splits if_splits)

lemma same_fs_offsets [simp]:
  "same_fs st (st'\<lparr>rd_blockoffset := a\<rparr>) = same_fs st st'" "same_fs st (st'\<lparr>rd_diroffset := b\<rparr>) = same_fs st st'"
  "same_fs (st\<lparr>rd_blockoffset := a\<rparr>) st' = same_fs st st'" "same_fs (st\<lparr>rd_diroffset := b\<rparr>) st' = same_fs st st'"
  by (simp_all add: same_fs_def)

lemma iso_ok_offsets [simp]: "iso_ok (st\<lparr>rd_blockoffset := a\<rparr>) = iso_ok st" "iso_ok (st\<lparr>rd_diroffset := b\<rparr>) = iso_ok st"
  by (simp_all add: iso_ok_def)

lemma list_sector_same:
  assumes rd: "bounded_reader rd" and ok: "iso_ok st" and r: "list_sector rd slot st = (good, st')"
  shows "same_fs st st'"
proof -
  let ?st = "st\<lparr>rd_diroffset := (rd_diroffset st AND NOT 2047) + 2048\<rparr>"
  have ok': "iso_ok ?st" using ok by simp
  show ?thesis
    using r next_dir_block_same [OF rd ok', of slot "rd_diroffset ?st"]
    by (auto simp: list_sector_def Let_def split: if_splits prod.splits)
qed

lemma list_record_same:
  assumes rd: "bounded_reader rd" and ok: "iso_ok st" and r: "list_record rd slot st = Some (x, st')"
  shows "same_fs st st'"
proof (cases "unat (rd_blockoffset st) \<ge> length (data_block st)")
  case False
  note b0 = False
  obtain good st1 where s: "(if data_block st ! unat (rd_blockoffset st) = 0 then list_sector rd slot st else (True, st)) = (good, st1)"
    by (metis surj_pair)
  have s1: "same_fs st st1" using s list_sector_same [OF rd ok] by (auto split: if_splits)
  show ?thesis
  proof (cases good)
    case False
    with b0 s s1 r show ?thesis by (simp add: list_record_def)
  next
    case True
    then have g: "good = True" by simp
    have bs: "s_blocksize (sb st1) = 1024" using same_fs_ok [OF s1 ok] by (simp add: iso_ok_def)
    define old where "old = unat (rd_blockoffset st1)"
    define n where "n = de_length (data_block st1) old"
    define st2 where "st2 = st1\<lparr>rd_blockoffset := rd_blockoffset st1 + of_nat n, rd_diroffset := rd_diroffset st1 + of_nat n\<rparr>"
    have s2: "same_fs st st2" using s1 by (simp add: st2_def)
    define st3 where "st3 = st2\<lparr>big_data_block := overwrite (slice old (1024 - old) (data_block st2)) (big_data_block st2)\<rparr>"
    have s3: "same_fs st st3"
      unfolding st3_def by (rule big_block_same(2) [OF ok s2, where b = "[]" and k = 0]) (auto intro: order_trans [OF length_slice_le])
    have bs2: "s_blocksize (sb st2) = 1024" by (simp add: st2_def bs)
    have s4: "same_fs st (st3\<lparr>big_data_block := take (1024 - old) (big_data_block st3) @ overwrite (snd (read_at rd 1024 o')) (drop (1024 - old) (big_data_block st3))\<rparr>)" for o'
      by (rule big_block_same(1) [OF ok s3, where a = "[]"]) (use length_read_at [OF rd, of 1024 o'] in auto)
    show ?thesis
      using b0 r s2 s3 s4
      unfolding list_record_def Let_def s g prod.case bool.case if_True bs old_def [symmetric] n_def [symmetric] st2_def [symmetric] bs2 st3_def [symmetric]
      by (auto simp: split_beta split: if_splits)
  qed
qed (use r in \<open>simp add: list_record_def\<close>)

lemma list_entry_plain: "\<not> s_rock s \<Longrightarrow> list_entry f rd s raw buf p = Some (n, buf') \<Longrightarrow> n = 0"
  by (auto simp: list_entry_def get_rock_ridge_filename_def split: if_splits)

lemma list_loop_same:
  assumes rd: "bounded_reader rd"
  shows "iso_ok st \<Longrightarrow> list_loop k f rd raw slot st = Some (x, st') \<Longrightarrow> same_fs st st' \<and> (\<not> s_rock (sb st) \<longrightarrow> x = None)"
proof (induction k arbitrary: st)
  case (Suc k)
  obtain y st1 where y: "list_record rd slot st = Some (y, st1)" using Suc.prems(2) by (auto split: option.splits)
  note s1 = list_record_same [OF rd Suc.prems(1) y]
  show ?case
  proof (cases y)
    case None
    with Suc.prems(2) y s1 show ?thesis by simp
  next
    case (Some z)
    obtain big p n where z: "z = (big, p, n)" by (cases z)
    obtain m buf where e: "list_entry f rd (sb st1) (raw k) (if big then big_data_block st1 else data_block st1) p = Some (m, buf)"
      using Suc.prems(2) y Some z by (auto split: option.splits)
    define st2 where "st2 = (if big then st1\<lparr>big_data_block := buf, data_block := overwrite (slice n (s_blocksize (sb st1) - n) buf) (data_block st1)\<rparr>
        else st1\<lparr>data_block := buf\<rparr>)"
    have bs: "s_blocksize (sb st1) = 1024" "length (data_block st1) = 1024" using same_fs_ok [OF s1 Suc.prems(1)] by (simp_all add: iso_ok_def)
    have "length (slice n (1024 - n) buf) \<le> 1024" by (auto intro: order_trans [OF length_slice_le])
    then have s2: "same_fs st st2"
      using s1 list_entry_length [OF e] bs by (auto simp: st2_def same_fs_def length_overwrite split: if_splits)
    have "(if m = 0 then list_loop k f rd raw slot st2 else map_option (\<lambda>t. (Some t, st2)) (string_in (de_name buf p))) = Some (x, st')"
      using Suc.prems(2) y Some z e unfolding st2_def by (simp add: Let_def)
    moreover have "sb st1 = sb st" "sb st2 = sb st" using s1 s2 by (simp_all add: same_fs_def)
    ultimately show ?thesis
      using s2 Suc.IH [OF same_fs_ok [OF s2 Suc.prems(1)]] list_entry_plain [OF _ e] by (auto split: if_splits intro: same_fs_trans)
  qed
qed simp

lemma iso_readdir_same:
  assumes rd: "bounded_reader rd" and ok: "iso_ok st" and r: "iso_readdir_i f rd raw fd rewind st = Some (x, st')"
  shows "same_fs st st' \<and> (\<not> s_rock (sb st) \<longrightarrow> x = None)"
proof -
  let ?slot = "iso_table st ! fd" and ?st = "st\<lparr>rd_blockoffset := 0, rd_diroffset := 0\<rparr>"
  obtain b good st1 where n: "(if rewind then next_dir_block rd ?slot 0 ?st else ((0, True), st)) = ((b, good), st1)" by (metis surj_pair)
  have ok': "iso_ok ?st" using ok by simp
  have s1: "same_fs st st1" using n next_dir_block_same [OF rd ok', of ?slot 0] by (auto split: if_splits)
  have e: "iso_readdir_i f rd raw fd rewind st
      = (if \<not> iso_isdir (iso_mode ?slot) then Some (None, st) else if good then list_loop f f rd raw ?slot st1 else Some (None, st1))"
    unfolding iso_readdir_i_def Let_def n by simp
  have sb: "sb st1 = sb st" using s1 by (simp add: same_fs_def)
  have "same_fs st st' \<and> (\<not> s_rock (sb st) \<longrightarrow> x = None)" if "list_loop f f rd raw ?slot st1 = Some (x, st')"
    using list_loop_same [OF rd same_fs_ok [OF s1 ok] that] same_fs_trans [OF s1] by (simp add: sb)
  then show ?thesis using r s1 unfolding e by (simp split: if_splits)
qed

subsection \<open>Mounting and reachable states\<close>

text \<open>The static arrays of the file have their sizes whatever they contain.\<close>

definition iso_static :: "iso_state \<Rightarrow> bool" where
  "iso_static st \<longleftrightarrow> length (iso_table st) = MAX_OPEN_FILES \<and> length (data_block st) = 1024 \<and> length (big_data_block st) = 2048"

lemma find_volume_same:
  assumes "bounded_reader rd" "s_blocksize (sb st) = 1024" "length (data_block st) = 1024" "find_volume rd blks st = (x, st')"
  shows "same_fs st st'"
  using assms(2-)
proof (induction blks arbitrary: st)
  case (Cons b blks)
  let ?st = "st\<lparr>data_block := overwrite (snd (read_at rd 1024 (int b * 2048))) (data_block st)\<rparr>"
  have s: "same_fs st ?st" using Cons.prems(2) length_read_at [OF assms(1), of 1024 "int b * 2048"] by (simp add: same_fs_def length_overwrite)
  then show ?case
    using Cons.prems Cons.IH [of ?st] by (auto simp: Let_def split_beta same_fs_def split: if_splits)
qed simp

lemma iso_read_super_ok:
  assumes rd: "bounded_reader rd" and st: "iso_static st" and r: "iso_read_super rd st = (0, st')"
  shows "iso_ok st' \<and> used st' = {} \<and> s_log_zone_size (sb st') \<in> {9, 10, 11} \<and> s_rock (sb st') = (s_high_sierra (sb st') = 0)"
proof -
  let ?st = "st\<lparr>iso_table := map (\<lambda>e. e\<lparr>iso_free := True, iso_inumber := 0\<rparr>) (iso_table st),
      sb := (sb st)\<lparr>s_blocksize := 1024, s_blocksize_bits := 10, s_high_sierra := 0\<rparr>\<rparr>"
  obtain x st1 where v: "find_volume rd [16..<100] ?st = (x, st1)" by (metis surj_pair)
  have s: "same_fs ?st st1" by (rule find_volume_same [OF rd _ _ v]) (use st in \<open>simp_all add: iso_static_def\<close>)
  obtain hs where hs: "x = Some hs" using r v by (auto simp: iso_read_super_def split: option.splits)
  show ?thesis
    using r v s st hs
    by (auto simp: iso_read_super_def Let_def log_zone_size_def same_fs_def iso_ok_def used_def iso_static_def
        simp del: find_volume.simps upt_rec_numeral split: option.splits if_splits)
qed

inductive iso_step :: "reader \<Rightarrow> iso_state \<Rightarrow> iso_state \<Rightarrow> bool" for rd where
  step_open: "iso_open f rd raw heap filename st = Some (r, st') \<Longrightarrow> iso_step rd st st'"
| step_close: "iso_step rd st (iso_close fd st)"
| step_list: "iso_readdir_i f rd raw fd rewind st = Some (x, st') \<Longrightarrow> iso_step rd st st'"

inductive iso_reachable :: "reader \<Rightarrow> iso_state \<Rightarrow> bool" for rd where
  mounted: "iso_static st \<Longrightarrow> iso_read_super rd st = (0, st') \<Longrightarrow> iso_reachable rd st'"
| step: "iso_reachable rd st \<Longrightarrow> iso_step rd st st' \<Longrightarrow> iso_reachable rd st'"

inductive_cases iso_stepE: "iso_step rd st st'"

lemma iso_step_ok: "bounded_reader rd \<Longrightarrow> iso_step rd st st' \<Longrightarrow> iso_ok st \<Longrightarrow> iso_ok st'"
  by (erule iso_stepE)
    (auto simp: iso_close_def iso_iput_table dest: iso_open_ok same_fs_ok [OF conjunct1 [OF iso_readdir_same]])

lemma iso_reachable_ok: "iso_reachable rd st \<Longrightarrow> bounded_reader rd \<Longrightarrow> iso_ok st"
  by (induction rule: iso_reachable.induct) (auto dest: iso_read_super_ok iso_step_ok)

text \<open>Reads through the console never deliver more than was asked for, if the firmware does not.\<close>

definition bounded_callback :: "ccb_read \<Rightarrow> bool" where
  "bounded_callback rd \<longleftrightarrow> (\<forall>n lbn. length (snd (rd n lbn)) \<le> nat n)"

lemma cons_read_loop_bounded:
  "bounded_callback rd \<Longrightarrow> length (snd (cons_read_loop rd left k b lbn buf)) \<le> length buf + nat left"
proof (induction rd left k b lbn buf rule: cons_read_loop.induct)
  case (1 rd left k b lbn buf)
  obtain r d where d: "rd (int SECT_SIZE) lbn = (r, d)" by (metis surj_pair)
  have l: "length d \<le> SECT_SIZE" using 1(3) d by (metis bounded_callback_def nat_int snd_conv)
  consider (stop) "\<not> (left > 0 \<and> b < SECT_SIZE)" | (fail) "left > 0" "b < SECT_SIZE" "r \<noteq> int SECT_SIZE"
    | (whole) "left > 0" "b < SECT_SIZE" "r = int SECT_SIZE" "b = 0 \<and> left \<ge> int SECT_SIZE"
    | (part) "left > 0" "b < SECT_SIZE" "r = int SECT_SIZE" "\<not> (b = 0 \<and> left \<ge> int SECT_SIZE)" by blast
  then show ?case
  proof cases
    case stop
    then show ?thesis by (subst cons_read_loop.simps) auto
  next
    case fail
    then show ?thesis using d l by (subst cons_read_loop.simps) auto
  next
    case whole
    then have "length (snd (cons_read_loop rd (left - int SECT_SIZE) (k + int SECT_SIZE) 0 (lbn + 1) (buf @ d)))
        \<le> length (buf @ d) + nat (left - int SECT_SIZE)"
      using d 1(3) by (intro 1(1) [of "(r, d)" r d]) auto
    also have "\<dots> \<le> length buf + nat left" using l whole by simp linarith
    finally show ?thesis using d whole by (subst cons_read_loop.simps) simp
  next
    case part
    define n where "n = (if int b + left \<ge> int SECT_SIZE then SECT_SIZE - b else nat left)"
    have n: "int n \<le> left" using part by (auto simp: n_def)
    have "length (slice b n d) \<le> n" by (rule length_slice_le)
    moreover have "length (snd (cons_read_loop rd (left - int n) (k + int n) 0 (lbn + 1) (buf @ slice b n d)))
        \<le> length (buf @ slice b n d) + nat (left - int n)"
      using part d 1(3) unfolding n_def by (intro 1(2) [of "(r, d)" r d]) auto
    ultimately show ?thesis
      using part d n by (subst cons_read_loop.simps) (auto simp: Let_def simp flip: n_def)
  qed
qed

lemma bounded_cons_read: "bounded_callback rd \<Longrightarrow> bounded_reader (cons_read rd)"
  using cons_read_loop_bounded [of rd _ _ _ _ "[]"] by (simp add: bounded_reader_def cons_read_def bounded_callback_def)

lemma bounded_image_read: "bounded_callback (image_read img)"
  by (simp add: bounded_callback_def image_read_def Let_def slice_def)

subsection \<open>Reading\<close>

text \<open>The first block of a file, and its blocks up to the one that holds its end.\<close>

definition first_block :: "iso_slot \<Rightarrow> nat" where
  "first_block ip = unat (i_first_extent ip) div 1024"

definition file_blocks :: "iso_slot \<Rightarrow> nat" where
  "file_blocks ip = unat (iso_size ip) div 1024 + 1"

definition iso_content :: "bytes \<Rightarrow> iso_slot \<Rightarrow> bytes" where
  "iso_content img ip = slice (first_block ip * 1024) (file_blocks ip * 1024) img"

definition readable :: "bytes \<Rightarrow> isofs_super_block \<Rightarrow> iso_slot \<Rightarrow> bool" where
  "readable img s ip \<longleftrightarrow> s_blocksize s = 1024 \<and> s_blocksize_bits s = 10 \<and> 0 < first_block ip \<and> unat (iso_size ip) < 2 ^ 31 - 1024
     \<and> (first_block ip + file_blocks ip) * 1024 \<le> length img"

lemma length_iso_content: "readable img s ip \<Longrightarrow> length (iso_content img ip) = file_blocks ip * 1024"
  by (simp add: iso_content_def readable_def length_slice add_mult_distrib)

lemma read_at_nat: "read_at rd n (int off) = rd n off"
  by (simp add: read_at_def)

lemma first_block_less: "first_block ip < 2 ^ 22"
proof -
  have "unat (i_first_extent ip) < 2 ^ 32" by (rule order_less_le_trans [OF unsigned_less]) simp
  then show ?thesis by (simp add: first_block_def less_mult_imp_div_less)
qed

lemma iso_bmap_block:
  assumes "s_blocksize_bits s = 10" and "b < 2 ^ 30"
  shows "iso_bmap s ip (int b) = int (first_block ip + b)"
proof -
  have "drop_bit 10 (i_first_extent ip) = word_of_int (int (first_block ip))"
    using first_block_less [of ip] by (simp add: word_unat_eq_iff unat_drop_bit_eq drop_bit_eq_div first_block_def unat_of_nat unat_div_distrib)
  then have "iso_bmap s ip (int b) = sint (word_of_int (int (first_block ip + b)) :: u32)"
    by (simp add: iso_bmap_def assms(1))
  also have "\<dots> = int (first_block ip + b)"
    using first_block_less [of ip] assms(2) by (intro sint_word_of_int_pos) auto
  finally show ?thesis .
qed

lemma file_blocks_less: "readable img s ip \<Longrightarrow> file_blocks ip < 2 ^ 21"
  by (auto simp: readable_def file_blocks_def)

lemma iso_breadi_data:
  assumes dev: "block_device rd img" and ok: "readable img s ip" and b: "b * 1024 \<le> length (iso_content img ip)"
    and k: "k = min (n * 1024) (length (iso_content img ip) - b * 1024)"
  shows "iso_breadi rd s ip (int b) (int n) = (int k, slice (b * 1024) k (iso_content img ip))"
proof -
  let ?N = "file_blocks ip" and ?m = "min n (file_blocks ip - b)"
  have len: "length (iso_content img ip) = ?N * 1024" by (rule length_iso_content [OF ok])
  have N: "?N < 2 ^ 22" using file_blocks_less [OF ok] by simp
  have b': "b \<le> ?N" using b unfolding len by simp
  have km: "k = ?m * 1024" unfolding k len by (simp only: nat_mult_min_left diff_mult_distrib)
  have bs: "s_blocksize s = 1024" "s_blocksize_bits s = 10" using ok by (auto simp: readable_def)
  have ext: "i_first_extent ip \<noteq> 0" using ok by (auto simp: readable_def first_block_def)
  have "uint (iso_size ip) = int (unat (iso_size ip))" by simp
  moreover have "(unat (iso_size ip) + 1024) div 1024 = ?N" by (simp add: file_blocks_def)
  ultimately have q: "(uint (iso_size ip) + 1024) div 1024 = int ?N" by (metis of_nat_add of_nat_numeral zdiv_int)
  have e: "(int b + int n) * 1024 = int ((b + n) * 1024)" by simp
  have c: "uint (iso_size ip) < (int b + int n) * 1024 \<longleftrightarrow> ?N \<le> b + n"
    unfolding e uint_nat of_nat_less_iff file_blocks_def by (simp add: Suc_le_eq div_less_iff_less_mult)
  have m: "(if (int b + int n) * 1024 > uint (iso_size ip) then int ?N - int b else int n) = int ?m"
    unfolding c using b' by (auto simp: min_def)
  have bm: "iso_bmap s ip (int b) = int (first_block ip + b)" using b' N by (intro iso_bmap_block bs) auto
  have r: "rd (int (?m * 1024)) ((first_block ip + b) * 1024) = (int (?m * 1024), slice ((first_block ip + b) * 1024) (?m * 1024) img)"
    using ok b' by (intro block_device.read_slice [OF dev]) (auto simp: readable_def min_def algebra_simps)
  have sl: "slice (b * 1024) (?m * 1024) (iso_content img ip) = slice ((first_block ip + b) * 1024) (?m * 1024) img"
    using b' unfolding iso_content_def by (subst slice_slice) (auto simp: min_def algebra_simps)
  have m': "?m < 2 ^ 21" "b < 2 ^ 22" using N b' file_blocks_less [OF ok] by linarith+
  have w: "sint (word_of_int (int (?m * 1024)) :: u32) = int (?m * 1024)"
    by (rule sint_word_of_int_pos) (use m'(1) in simp_all)
  have w2: "sint (word_of_int (int b) :: u32) = int b"
    by (rule sint_word_of_int_pos) (use m'(2) in simp_all)
  have p: "0 < first_block ip" using ok by (simp add: readable_def)
  have "iso_breadi rd s ip (int b) (int n) = (case read_at rd (int (?m * 1024)) (int ((first_block ip + b) * 1024)) of (r, d) \<Rightarrow> (sint (word_of_int r :: u32), d))"
    unfolding iso_breadi_def Let_def bs of_nat_numeral q m w2 bm using ext p by simp
  then show ?thesis unfolding read_at_nat r w prod.case km sl .
qed

end
