(* ===== verification/Iso_search.thy ===== *)
theory Iso_search
  imports Iso
begin

text \<open>
  The search of an ISO 9660 directory: the loop of \<open>iso_find_entry\<close> over blocks of 1024 bytes, with records that lie in two blocks and names that are
  changed in place, finds the first matching record of the directory as a sequence of records.
\<close>

subsection \<open>The records of a directory\<close>

text \<open>
  The specification of a search without Rock Ridge names: the name of a record, its comparison with the wanted name, and the records in their order.
\<close>

definition rec_name :: "bytes \<Rightarrow> bytes" where
  "rec_name r = iso_translate (slice 33 (de_name_len r 0) r)"

definition name_matches :: "bytes \<Rightarrow> bytes \<Rightarrow> bool" where
  "name_matches name t =
     (let u = (if t \<noteq> [] \<and> last t = 46 \<and> length name + 1 = length t then butlast t else t)
      in if u = [0] then name = [] \<or> name = [46] else if u = [1] then name = [46, 46] else u = name)"

definition rec_result :: "isofs_super_block \<Rightarrow> iso_slot \<Rightarrow> bytes \<Rightarrow> u32 \<Rightarrow> bytes \<Rightarrow> find_result option" where
  "rec_result s dir name ino r =
     (if (de_flags s r 0 AND 5 = 0 \<or> s_unhide s = CHR ''y'') \<and> name_matches name (rec_name r) then
        case entry_inode s dir ino r 0 of (i, b) \<Rightarrow> Some (if i = - 1 then Stop (- 1) else Found i b)
      else None)"

definition rec_ok :: "bytes \<Rightarrow> bool" where
  "rec_ok r \<longleftrightarrow> 34 \<le> length r \<and> length r < 256 \<and> unat (r ! 0) = length r \<and> 33 + de_name_len r 0 \<le> length r"

lemma length_iso_translate: "length (iso_translate t) \<le> length t"
  by (induction t rule: iso_translate.induct) auto

lemma record_fields:
  assumes "slice p (length r) buf = r" "rec_ok r" "s_high_sierra s \<le> 1"
  shows "de_flags s buf p = de_flags s r 0" "de_name_len buf p = de_name_len r 0" "entry_inode s dir ino buf p = entry_inode s dir ino r 0"
    "slice (p + 33) (de_name_len r 0) buf = slice 33 (de_name_len r 0) r" "p + length r \<le> length buf"
proof -
  have len: "34 \<le> length r" "33 + de_name_len r 0 \<le> length r" using assms(2) by (auto simp: rec_ok_def)
  then have "r \<noteq> []" by auto
  show "p + length r \<le> length buf" by (rule slice_eq_length [OF assms(1) \<open>r \<noteq> []\<close>])
  have n: "buf ! (p + i) = r ! i" if "i < 34" for i using slice_eq_nth [OF assms(1), of i] that len by simp
  show "de_flags s buf p = de_flags s r 0"
    using n [of "25 - s_high_sierra s"] assms(3) by (simp add: de_flags_def)
  show nl: "de_name_len buf p = de_name_len r 0" using n [of 32] by (simp add: de_name_len_def)
  have "de_name buf p ! 0 = de_name r 0 ! 0"
    using n [of 33] len \<open>p + length r \<le> length buf\<close> by (simp add: de_name_def sizeof_record_def)
  moreover have "de_position s buf p = de_position s r 0"
    using n [of 1] n [of 2] n [of 3] n [of 4] n [of 5]
    by (simp add: de_position_def de_extent_def de_ext_attr_length_def isonum_733_def isonum_731_def isonum_711_def eval_nat_numeral)
  ultimately show "entry_inode s dir ino buf p = entry_inode s dir ino r 0"
    using nl by (simp only: entry_inode_def)
  show "slice (p + 33) (de_name_len r 0) buf = slice 33 (de_name_len r 0) r"
    using slice_slice [of 33 "de_name_len r 0" "length r" p buf] assms(1) len by simp
qed

lemma iso_match_take:
  assumes "n \<le> length c"
  shows "iso_match name c (int n) = Some (if take n c = [0] then name = [] \<or> name = [46] else if take n c = [1] then name = [46, 46] else take n c = name)"
proof (cases "n = 1")
  case True
  then obtain x c' where "c = x # c'" using assms by (cases c) auto
  with True show ?thesis by (auto simp: iso_match_def take_Suc_conv_app_nth split: if_splits)
next
  case False
  have "length (take n c) = n" using assms by simp
  with False have "take n c \<noteq> [x]" for x by force
  then show ?thesis using assms False by (auto simp: iso_match_def)
qed

lemma check_entry_plain:
  assumes r: "slice p (length r) buf = r" "rec_ok r" and s: "s_high_sierra s \<le> 1" "\<not> s_rock s" "s_mapping s = CHR ''n''"
  shows "\<exists>buf'. check_entry f rd raw name dir s ino buf p = Some (rec_result s dir name ino r, buf')
     \<and> length buf' = length buf \<and> drop (p + length r) buf' = drop (p + length r) buf"
proof -
  note f = record_fields [OF r s(1)]
  let ?nl = "de_name_len r 0" and ?t = "rec_name r"
  have len: "34 \<le> length r" "33 + ?nl \<le> length r" using r(2) by (auto simp: rec_ok_def)
  have t: "length ?t \<le> ?nl" using length_iso_translate [of "slice 33 ?nl r"] len by (simp add: rec_name_def length_slice)
  define buf' where "buf' = take (p + 33) buf @ ?t @ drop (p + 33 + length ?t) buf"
  have w: "write_at (p + 33) ?t buf = Some buf'" using t len f(5) by (simp add: write_at_def buf'_def)
  have l: "length buf' = length buf" by (rule length_write_at [OF w])
  have d: "drop (p + length r) buf' = drop (p + length r) buf"
    using t len f(5) by (simp add: buf'_def add.commute)
  have c: "drop (p + 33) buf' = ?t @ drop (p + 33 + length ?t) buf" using len f(5) by (simp add: buf'_def)
  define n where "n = (if ?t \<noteq> [] \<and> last ?t = 46 \<and> length name + 1 = length ?t then length ?t - 1 else length ?t)"
  have e: "buf' ! (p + 33 + length ?t - 1) = last ?t" if "?t \<noteq> []"
  proof -
    have "buf' ! (p + 33 + (length ?t - 1)) = drop (p + 33) buf' ! (length ?t - 1)" using l len f(5) by (intro nth_drop [symmetric]) simp
    also have "\<dots> = last ?t" using that unfolding c by (simp add: nth_append last_conv_nth)
    finally show ?thesis using that by (simp add: Suc_leI)
  qed
  have "entry_name f rd s raw (length name) buf p = Some (int n, buf')"
    using s len f w e t
    by (cases "?t = []") (auto simp: entry_name_def get_rock_ridge_filename_def sizeof_record_def Let_def n_def simp flip: rec_name_def)
  moreover have "iso_match name (drop (p + 33) buf') (int n) = Some (name_matches name ?t)"
  proof -
    have n: "n \<le> length (drop (p + 33) buf')" unfolding c by (auto simp: n_def)
    have "take n (drop (p + 33) buf') = (if ?t \<noteq> [] \<and> last ?t = 46 \<and> length name + 1 = length ?t then butlast ?t else ?t)"
      unfolding c by (simp add: n_def butlast_conv_take)
    with iso_match_take [OF n, of name] show ?thesis by (simp add: name_matches_def Let_def)
  qed
  moreover have "de_flags s buf' p = de_flags s r 0"
    using f(1,5) len less_imp_diff_less [of "p + 25" "p + 33" "s_high_sierra s"] by (simp add: de_flags_def buf'_def nth_append)
  ultimately have "check_entry f rd raw name dir s ino buf p = Some (rec_result s dir name ino r, buf')"
    using len f(3,5) by (auto simp: check_entry_def rec_result_def sizeof_record_def de_name_def split: prod.splits)
  with l d show ?thesis by blast
qed

text \<open>The records of the directory \<open>D\<close> from position \<open>pos\<close> on: a zero byte ends the records of a sector.\<close>

function dir_walk :: "bytes \<Rightarrow> nat \<Rightarrow> (nat \<times> bytes) list" where
  "dir_walk D pos =
     (if pos \<ge> length D then []
      else if D ! pos = 0 then dir_walk D ((pos div 2048 + 1) * 2048)
      else (pos, slice pos (unat (D ! pos)) D) # dir_walk D (pos + unat (D ! pos)))"
  by pat_completeness auto
termination
proof (relation "measure (\<lambda>(D, pos). length D - pos)")
  fix D :: bytes and pos
  assume "\<not> length D \<le> pos" "D ! pos = 0"
  moreover have "pos < (pos div 2048 + 1) * 2048" using dividend_less_div_times [of 2048 pos] by simp
  ultimately show "((D, (pos div 2048 + 1) * 2048), D, pos) \<in> measure (\<lambda>(D, pos). length D - pos)" by simp
next
  fix D :: bytes and pos
  assume "\<not> length D \<le> pos" "D ! pos \<noteq> 0"
  then show "((D, pos + unat (D ! pos)), D, pos) \<in> measure (\<lambda>(D, pos). length D - pos)"
    by (simp add: unat_gt_0 diff_less_mono2)
qed simp

declare dir_walk.simps [simp del]

text \<open>The bytes of a directory on the disc, and the block that holds a position.\<close>

definition dir_data :: "bytes \<Rightarrow> iso_slot \<Rightarrow> bytes" where
  "dir_data img slot = slice (first_block slot * 1024) (unat (iso_size slot)) img"

definition dir_block :: "bytes \<Rightarrow> iso_slot \<Rightarrow> nat \<Rightarrow> bytes" where
  "dir_block img slot k = slice ((first_block slot + k) * 1024) 1024 img"

definition dir_ok :: "bytes \<Rightarrow> iso_slot \<Rightarrow> bool" where
  "dir_ok img slot \<longleftrightarrow> 0 < first_block slot \<and> 2048 dvd unat (iso_size slot) \<and> unat (iso_size slot) < 2 ^ 31
     \<and> first_block slot * 1024 + unat (iso_size slot) + 1024 \<le> min (length img) (2 ^ 32)
     \<and> (\<forall>(pos, r) \<in> set (dir_walk (dir_data img slot) 0). rec_ok r \<and> pos mod 2048 + length r \<le> 2048)"

text \<open>The first record that matches decides.\<close>

definition dir_search :: "isofs_super_block \<Rightarrow> iso_slot \<Rightarrow> bytes \<Rightarrow> (nat \<times> bytes) list \<Rightarrow> find_result" where
  "dir_search s slot name rs =
     (case List.map_filter (\<lambda>(pos, r). rec_result s slot name (of_nat (first_block slot * 1024 + pos)) r) rs of
        [] \<Rightarrow> Stop (- 1)
      | x # xs \<Rightarrow> x)"

text \<open>Where the loop is: \<open>data_block\<close> agrees with the disc from the current position on.\<close>

definition at_pos :: "bytes \<Rightarrow> iso_slot \<Rightarrow> nat \<Rightarrow> iso_state \<Rightarrow> bool" where
  "at_pos img slot pos st \<longleftrightarrow> length (data_block st) = 1024 \<and> drop (pos mod 1024) (data_block st) = drop (pos mod 1024) (dir_block img slot (pos div 1024))"


lemma next_dir_block_data:
  assumes dev: "block_device rd img" and ok: "dir_ok img slot" and bs: "s_blocksize (sb st) = 1024" "s_blocksize_bits (sb st) = 10"
    and len: "length (data_block st) = 1024" and pos: "unat f_pos \<le> unat (iso_size slot)"
  shows "next_dir_block rd slot f_pos st
     = ((of_nat (first_block slot + unat f_pos div 1024), True), st\<lparr>data_block := dir_block img slot (unat f_pos div 1024)\<rparr>)
    \<and> (of_nat (first_block slot + unat f_pos div 1024) :: u32) \<noteq> 0"
proof -
  define k where "k = unat f_pos div 1024"
  let ?b = "of_nat (first_block slot + k) :: u32"
  have sz: "unat (iso_size slot) < 2 ^ 31" "0 < first_block slot"
    "first_block slot * 1024 + unat (iso_size slot) + 1024 \<le> 2 ^ 32" "first_block slot * 1024 + unat (iso_size slot) + 1024 \<le> length img"
    using ok by (simp_all add: dir_ok_def)
  have k: "k * 1024 \<le> unat f_pos" by (simp add: k_def)
  then have kb: "k < 2 ^ 22" using pos sz(1) by simp
  have "unat (drop_bit 10 f_pos) = k" by (simp add: k_def drop_bit_eq_div unat_div_distrib)
  then have "uint (drop_bit 10 f_pos) = int k" unfolding uint_nat by (rule arg_cong)
  then have b: "iso_bmap (sb st) slot (uint (drop_bit (s_blocksize_bits (sb st)) f_pos)) = int (first_block slot + k)"
    using iso_bmap_block [OF bs(2), of k slot] kb bs(2) by simp
  have le: "(first_block slot + k) * 1024 + 1024 \<le> 2 ^ 32" "(first_block slot + k) * 1024 + 1024 \<le> length img"
    using sz(3,4) k pos by (simp_all add: add_mult_distrib)
  have u: "unat ?b = first_block slot + k" using le(1) by (simp only: unat_of_nat) simp
  have "unat (?b * 1024) = unat ?b * unat (1024 :: u32)"
    by (rule unat_mult_lem [THEN iffD1]) (use le(1) in \<open>simp add: u del: of_nat_add\<close>)
  then have u2: "uint (?b * 1024) = int ((first_block slot + k) * 1024)" unfolding uint_nat u by simp
  have r: "read_at rd 1024 (uint (?b * 1024)) = (1024, dir_block img slot k)"
    using block_device.read_slice [OF dev, of "(first_block slot + k) * 1024" 1024] le(2) unfolding u2 read_at_nat by (simp add: dir_block_def)
  have "length (dir_block img slot k) = 1024" using le(2) by (simp add: dir_block_def length_slice)
  then have "read_data_block rd ?b st = (True, st\<lparr>data_block := dir_block img slot k\<rparr>)"
    using r len bs by (simp add: read_data_block_def overwrite_def del: of_nat_add)
  moreover have "?b \<noteq> 0" using u sz(2) by (metis add_is_0 less_numeral_extra(3) unsigned_0)
  ultimately show ?thesis
    unfolding next_dir_block_def Let_def b of_int_of_nat_eq k_def [symmetric] by simp
qed


lemma dir_search_Cons:
  "dir_search s slot name ((pos, r) # rs) =
     (case rec_result s slot name (of_nat (first_block slot * 1024 + pos)) r of Some x \<Rightarrow> x | None \<Rightarrow> dir_search s slot name rs)"
  by (simp add: dir_search_def map_filter_simps split: option.split)

lemma length_dir_data: "dir_ok img slot \<Longrightarrow> length (dir_data img slot) = unat (iso_size slot)"
  by (simp add: dir_ok_def dir_data_def length_slice)

lemma length_dir_block:
  assumes "dir_ok img slot" "pos \<le> unat (iso_size slot)"
  shows "length (dir_block img slot (pos div 1024)) = 1024"
proof -
  have "pos div 1024 * 1024 \<le> unat (iso_size slot)" by (rule order_trans [OF _ assms(2)]) simp
  moreover have "first_block slot * 1024 + unat (iso_size slot) + 1024 \<le> length img" using assms(1) by (simp add: dir_ok_def)
  ultimately have "(first_block slot + pos div 1024) * 1024 + 1024 \<le> length img" unfolding add_mult_distrib by linarith
  then show ?thesis by (simp only: dir_block_def length_slice)
qed

lemma slice_dir_block:
  assumes "j + k \<le> 1024" "b * 1024 + j + k \<le> unat (iso_size slot)"
  shows "slice j k (dir_block img slot b) = slice (b * 1024 + j) k (dir_data img slot)"
  using assms by (simp add: dir_block_def dir_data_def slice_slice algebra_simps)

lemma at_pos_slice:
  assumes "at_pos img slot pos st" "pos mod 1024 + k \<le> 1024" "pos + k \<le> unat (iso_size slot)"
  shows "slice (pos mod 1024) k (data_block st) = slice pos k (dir_data img slot)"
proof -
  have "slice (pos mod 1024) k (data_block st) = slice (pos mod 1024) k (dir_block img slot (pos div 1024))"
    using assms(1) by (simp add: at_pos_def slice_def)
  also have "\<dots> = slice (pos div 1024 * 1024 + pos mod 1024) k (dir_data img slot)"
    using assms(2,3) by (intro slice_dir_block) (simp_all only: div_mult_mod_eq)
  finally show ?thesis by simp
qed

lemma at_pos_nth:
  assumes "at_pos img slot pos st" "dir_ok img slot" "pos < unat (iso_size slot)"
  shows "data_block st ! (pos mod 1024) = dir_data img slot ! pos" "pos mod 1024 < length (data_block st)"
proof -
  show l: "pos mod 1024 < length (data_block st)" using assms(1) by (simp add: at_pos_def)
  have "slice (pos mod 1024) 1 (data_block st) = slice pos 1 (dir_data img slot)"
    using assms by (intro at_pos_slice) (simp_all add: Suc_leI)
  then have "slice (pos mod 1024) 1 (data_block st) ! 0 = slice pos 1 (dir_data img slot) ! 0" by simp
  then show "data_block st ! (pos mod 1024) = dir_data img slot ! pos"
    using l assms length_dir_data [OF assms(2)] by (simp add: nth_slice)
qed

lemma join_record:
  assumes "length X = a" "a \<le> l" "l - a \<le> length Y" "length big \<ge> l"
  shows "slice 0 l (take a (overwrite X big) @ overwrite (take (l - a) Y) (drop a (overwrite X big))) = X @ take (l - a) Y"
  using assms by (simp add: slice_def overwrite_def)

lemma sector_end:
  assumes "2048 dvd n" "pos < n"
  shows "(pos div 2048 + 1) * 2048 \<le> (n :: nat)"
proof -
  obtain k where k: "n = 2048 * k" using assms(1) ..
  then have "pos div 2048 < k" using assms(2) by (simp add: less_mult_imp_div_less)
  then show ?thesis unfolding k by (simp add: Suc_leI mult.commute [of _ 2048] del: mult_Suc_right)
qed

lemma round_up_sector:
  assumes "unat f_pos < 2 ^ 31"
  shows "unat ((f_pos AND NOT 2047) + 2048 :: u32) = (unat f_pos div 2048 + 1) * 2048"
proof -
  have "(2047 :: u32) = mask 11" by (simp add: mask_eq_exp_minus_1)
  then have "unat (f_pos AND NOT 2047) = unat f_pos - unat f_pos mod 2 ^ 11" using unat_and_not_mask [of f_pos 11] by simp
  also have "\<dots> = unat f_pos div 2048 * 2048" by (simp add: minus_mod_eq_div_mult)
  finally have u: "unat (f_pos AND NOT 2047) = unat f_pos div 2048 * 2048" .
  moreover have "unat f_pos div 2048 * 2048 \<le> unat f_pos" by simp
  ultimately have "unat ((f_pos AND NOT 2047) + 2048) = unat (f_pos AND NOT 2047) + unat (2048 :: u32)"
    using assms by (intro unat_add_lem [THEN iffD1]) simp
  then show ?thesis unfolding u by simp
qed


definition search_head :: "bytes \<Rightarrow> isofs_super_block \<Rightarrow> iso_slot \<Rightarrow> nat \<Rightarrow> nat \<Rightarrow> iso_state \<Rightarrow> bool" where
  "search_head img s slot dir pos st \<longleftrightarrow> sb st = s \<and> length (big_data_block st) = 2048 \<and> iso_table st ! dir = slot \<and> at_pos img slot pos st
     \<and> pos \<le> unat (iso_size slot) \<and> (\<forall>(p, r) \<in> set (dir_walk (dir_data img slot) pos). rec_ok r \<and> p mod 2048 + length r \<le> 2048)"

definition plain_sb :: "isofs_super_block \<Rightarrow> bool" where
  "plain_sb s \<longleftrightarrow> s_blocksize s = 1024 \<and> s_blocksize_bits s = 10 \<and> s_high_sierra s \<le> 1 \<and> \<not> s_rock s \<and> s_mapping s = CHR ''n''"

text \<open>One record of the directory: where the next one starts, and the number of the record.\<close>

lemma record_step:
  assumes ok: "dir_ok img slot" and h: "search_head img s slot dir pos st" and pos: "pos < unat (iso_size slot)" and nz: "dir_data img slot ! pos \<noteq> 0"
    and r: "r = slice pos (unat (dir_data img slot ! pos)) (dir_data img slot)"
  shows "dir_walk (dir_data img slot) pos = (pos, r) # dir_walk (dir_data img slot) (pos + length r)"
    "length r = unat (dir_data img slot ! pos)" "rec_ok r" "pos + length r \<le> unat (iso_size slot)" "pos mod 2048 + length r \<le> 2048"
proof -
  let ?D = "dir_data img slot"
  have len: "length ?D = unat (iso_size slot)" by (rule length_dir_data [OF ok])
  have w: "dir_walk ?D pos = (pos, r) # dir_walk ?D (pos + unat (?D ! pos))"
    by (subst dir_walk.simps) (use pos nz len r in simp)
  with h show ro: "rec_ok r" and m: "pos mod 2048 + length r \<le> 2048" by (auto simp: search_head_def)
  have "r ! 0 = ?D ! pos" using pos nz len unfolding r by (simp add: nth_slice unat_gt_0)
  then show l: "length r = unat (?D ! pos)" using ro by (simp add: rec_ok_def)
  with w show "dir_walk ?D pos = (pos, r) # dir_walk ?D (pos + length r)" by simp
  have "pos + length r = pos div 2048 * 2048 + (pos mod 2048 + length r)" by simp
  also have "\<dots> \<le> pos div 2048 * 2048 + 2048" using m by (rule add_left_mono)
  also have "\<dots> = (pos div 2048 + 1) * 2048" by simp
  also have "\<dots> \<le> unat (iso_size slot)" using sector_end [of "unat (iso_size slot)" pos] ok pos by (simp add: dir_ok_def)
  finally show "pos + length r \<le> unat (iso_size slot)" .
qed

lemma position_word:
  assumes "dir_ok img slot" "pos \<le> unat (iso_size slot)"
  shows "push_bit 10 (of_nat (first_block slot + pos div 1024)) + of_nat (pos mod 1024 mod 1024) = (of_nat (first_block slot * 1024 + pos) :: u32)"
proof -
  have "push_bit 10 (of_nat n) = (of_nat (n * 1024) :: u32)" for n by (simp add: push_bit_eq_mult)
  moreover have "(first_block slot + pos div 1024) * 1024 + pos mod 1024 = first_block slot * 1024 + pos" by (simp add: add_mult_distrib)
  ultimately show ?thesis by (metis mod_mod_trivial of_nat_add)
qed


lemma block_div_mod: "x < 1024 \<Longrightarrow> (x + q * 1024) div 1024 = q \<and> (x + q * 1024) mod 1024 = (x :: nat)"
  by simp

lemma add_in_block:
  assumes "p mod 1024 + l < (1024 :: nat)"
  shows "(p + l) div 1024 = p div 1024" "(p + l) mod 1024 = p mod 1024 + l"
proof -
  define q m where "q = p div 1024" and "m = p mod 1024"
  then have p: "p = m + q * 1024" by simp
  have "p + l = (m + l) + q * 1024" by (simp add: p)
  moreover have "m + l < 1024" using assms by (simp add: m_def)
  ultimately have "(p + l) div 1024 = q \<and> (p + l) mod 1024 = m + l" using block_div_mod [of "m + l" q] by metis
  then show "(p + l) div 1024 = p div 1024" "(p + l) mod 1024 = p mod 1024 + l" by (simp_all add: q_def m_def)
qed

lemma next_block_start: "(p div 1024 + 1) * 1024 = p + (1024 - p mod 1024)" for p :: nat
proof -
  define q m where "q = p div 1024" and "m = p mod 1024"
  then have "p = m + q * 1024" "m < 1024" by simp_all
  then have "(q + 1) * 1024 = p + (1024 - m)" by simp
  then show ?thesis by (simp only: q_def m_def)
qed

lemma add_to_next_block:
  assumes "p mod 1024 + l \<ge> (1024 :: nat)" "l < 1024"
  shows "(p + l) div 1024 = p div 1024 + 1" "(p + l) mod 1024 = p mod 1024 + l - 1024"
proof -
  define q m where "q = p div 1024" and "m = p mod 1024"
  then have p: "p = m + q * 1024" "m < 1024" by simp_all
  have ml: "1024 \<le> m + l" using assms(1) by (simp add: m_def)
  then have "p + l = (m + l - 1024) + (q + 1) * 1024" by (simp add: p(1))
  moreover have "m + l - 1024 < 1024" using p(2) assms(2) by simp
  ultimately have "(p + l) div 1024 = q + 1 \<and> (p + l) mod 1024 = m + l - 1024" using block_div_mod [of "m + l - 1024" "q + 1"] by metis
  then show "(p + l) div 1024 = p div 1024 + 1" "(p + l) mod 1024 = p mod 1024 + l - 1024" by (simp_all add: q_def m_def)
qed

text \<open>What one turn of the loop does for the record \<open>r\<close> at \<open>f_pos\<close>: the state for the next turn, and the result.\<close>

definition next_head :: "bytes \<Rightarrow> isofs_super_block \<Rightarrow> iso_slot \<Rightarrow> nat \<Rightarrow> nat \<Rightarrow> iso_state \<Rightarrow> bool" where
  "next_head img s slot dir pos st \<longleftrightarrow> sb st = s \<and> length (big_data_block st) = 2048 \<and> iso_table st ! dir = slot \<and> at_pos img slot pos st"

lemma search_headD:
  assumes "search_head img s slot dir pos st"
  shows "sb st = s" "length (big_data_block st) = 2048" "iso_table st ! dir = slot" "at_pos img slot pos st" "pos \<le> unat (iso_size slot)"
    "length (data_block st) = 1024"
  using assms by (simp_all add: search_head_def at_pos_def)

lemma plain_sbD:
  assumes "plain_sb s"
  shows "s_blocksize s = 1024" "s_blocksize_bits s = 10" "s_high_sierra s \<le> 1" "\<not> s_rock s" "s_mapping s = CHR ''n''"
  using assms by (simp_all add: plain_sb_def)

lemma find_loop_whole:
  assumes h: "search_head img s slot dir (unat f_pos) st" and s: "plain_sb s" and lt: "f_pos < iso_size slot"
    and nz: "data_block st ! (unat f_pos mod 1024) \<noteq> 0" and l: "de_length (data_block st) (unat f_pos mod 1024) = length r"
    and r: "slice (unat f_pos mod 1024) (length r) (data_block st) = r" "rec_ok r" and fit: "unat f_pos mod 1024 + length r < 1024"
    and ino: "ino = push_bit 10 block + of_nat (unat f_pos mod 1024 mod 1024)"
  shows "\<exists>st1. next_head img s slot dir (unat f_pos + length r) st1
    \<and> iso_find_loop (Suc n) f rd raw name dir f_pos (unat f_pos mod 1024) block st
      = (case rec_result s slot name ino r of Some x \<Rightarrow> Some (x, st1)
         | None \<Rightarrow> iso_find_loop n f rd raw name dir (f_pos + of_nat (length r)) ((unat f_pos + length r) mod 1024) block st1)
    \<and> (unat f_pos + length r) div 1024 = unat f_pos div 1024"
proof -
  let ?pos = "unat f_pos" and ?off = "unat f_pos mod 1024"
  note st = search_headD [OF h] and sf = plain_sbD [OF s]
  obtain buf where buf: "check_entry f rd (raw ?pos) name slot s ino (data_block st) ?off = Some (rec_result s slot name ino r, buf)"
      "length buf = 1024" "drop (?off + length r) buf = drop (?off + length r) (data_block st)"
    using check_entry_plain [OF r sf(3-5), of f rd "raw ?pos" name slot ino] st(6) by auto
  note dm = add_in_block [OF fit]
  let ?st = "st\<lparr>data_block := buf\<rparr>"
  have "drop (?off + length r) (data_block st) = drop (?off + length r) (dir_block img slot (?pos div 1024))"
    using arg_cong [where f = "drop (length r)", OF conjunct2 [OF st(4) [unfolded at_pos_def]]] by (simp add: add.commute)
  then have "next_head img s slot dir (?pos + length r) ?st" using st buf by (simp add: next_head_def at_pos_def dm)
  moreover have "iso_find_loop (Suc n) f rd raw name dir f_pos ?off block st
      = (case rec_result s slot name ino r of Some x \<Rightarrow> Some (x, ?st)
         | None \<Rightarrow> iso_find_loop n f rd raw name dir (f_pos + of_nat (length r)) (?off + length r) block ?st)"
    using lt nz l fit buf(1) ino by (simp add: st sf Let_def not_le split: option.split)
  ultimately show ?thesis using dm by metis
qed


lemma find_loop_span:
  assumes dev: "block_device rd img" and ok: "dir_ok img slot" and h: "search_head img s slot dir (unat f_pos) st" and s: "plain_sb s"
    and lt: "f_pos < iso_size slot" and nz: "data_block st ! (unat f_pos mod 1024) \<noteq> 0"
    and l: "de_length (data_block st) (unat f_pos mod 1024) = length r" and u: "unat (f_pos + of_nat (length r)) = unat f_pos + length r"
    and r: "slice (unat f_pos) (length r) (dir_data img slot) = r" "rec_ok r" "unat f_pos + length r \<le> unat (iso_size slot)"
    and fit: "unat f_pos mod 1024 + length r \<ge> 1024" and ino: "ino = push_bit 10 block + of_nat (unat f_pos mod 1024 mod 1024)"
  shows "\<exists>st1. next_head img s slot dir (unat f_pos + length r) st1
    \<and> iso_find_loop (Suc n) f rd raw name dir f_pos (unat f_pos mod 1024) block st
      = (case rec_result s slot name ino r of Some x \<Rightarrow> Some (x, st1)
         | None \<Rightarrow> iso_find_loop n f rd raw name dir (f_pos + of_nat (length r)) ((unat f_pos + length r) mod 1024)
                     (of_nat (first_block slot + (unat f_pos + length r) div 1024)) st1)"
proof -
  let ?pos = "unat f_pos" and ?off = "unat f_pos mod 1024" and ?e = "unat f_pos + length r"
  let ?a = "1024 - unat f_pos mod 1024" and ?blk = "dir_block img slot ((unat f_pos + length r) div 1024)"
  note st = search_headD [OF h] and sf = plain_sbD [OF s]
  have rl: "34 \<le> length r" "length r < 256" using r(2) by (auto simp: rec_ok_def)
  have dm: "?e div 1024 = ?pos div 1024 + 1" "?e mod 1024 = length r - ?a" using add_to_next_block [OF fit] rl fit by (auto simp: add.commute)
  have off: "\<not> 1024 \<le> ?off" by (simp add: not_le)
  have blk: "length ?blk = 1024" by (rule length_dir_block [OF ok r(3)])
  define X where "X = slice ?off ?a (data_block st)"
  have X: "X = slice ?pos ?a (dir_data img slot)" unfolding X_def
    by (rule at_pos_slice [OF st(4)]) (use fit r(3) in auto)
  have lX: "length X = ?a" using st(6) by (simp add: X_def length_slice)
  define st1 where "st1 = st\<lparr>big_data_block := overwrite X (big_data_block st)\<rparr>"
  have nb: "next_dir_block rd slot (f_pos + of_nat (length r)) st1 = ((of_nat (first_block slot + ?e div 1024), True), st1\<lparr>data_block := ?blk\<rparr>)"
    using next_dir_block_data [OF dev ok, of st1 "f_pos + of_nat (length r)"] st sf r(3) unfolding u by (simp add: st1_def)
  have b0: "(of_nat (first_block slot + ?e div 1024) :: u32) \<noteq> 0"
    using next_dir_block_data [OF dev ok, of st1 "f_pos + of_nat (length r)"] st sf r(3) unfolding u by (simp add: st1_def)
  define big where "big = take ?a (overwrite X (big_data_block st)) @ overwrite (take (?e mod 1024) ?blk) (drop ?a (overwrite X (big_data_block st)))"
  have lb: "length big = 2048" using st(2) lX blk rl unfolding big_def dm(2) by (simp add: overwrite_def)
  have "slice 0 (length r) big = X @ take (length r - ?a) ?blk"
    unfolding big_def dm(2) by (rule join_record [OF lX]) (use fit rl blk st(2) in auto)
  also have "take (length r - ?a) ?blk = slice (?pos + ?a) (length r - ?a) (dir_data img slot)"
  proof -
    have "take (length r - ?a) ?blk = slice 0 (length r - ?a) ?blk" by (simp add: slice_def)
    also have "\<dots> = slice (?e div 1024 * 1024 + 0) (length r - ?a) (dir_data img slot)"
      by (rule slice_dir_block) (use rl r(3) dm(2) in \<open>auto simp flip: dm(2)\<close>)
    also have "?e div 1024 * 1024 + 0 = ?pos + ?a" unfolding dm(1) using next_block_start [of ?pos] by simp
    finally show ?thesis .
  qed
  also have "X @ slice (?pos + ?a) (length r - ?a) (dir_data img slot) = r"
    unfolding X slice_append using fit r(1) by simp
  finally have rb: "slice 0 (length r) big = r" .
  obtain buf where buf: "check_entry f rd (raw ?pos) name slot s ino big 0 = Some (rec_result s slot name ino r, buf)" "length buf = 2048"
    using check_entry_plain [OF rb r(2) sf(3-5), of f rd "raw ?pos" name slot ino] lb by auto
  let ?st = "st\<lparr>data_block := ?blk, big_data_block := buf\<rparr>"
  have "next_head img s slot dir ?e ?st" using st buf(2) blk by (simp add: next_head_def at_pos_def)
  moreover have "iso_find_loop (Suc n) f rd raw name dir f_pos ?off block st
      = (case rec_result s slot name ino r of Some x \<Rightarrow> Some (x, ?st)
         | None \<Rightarrow> iso_find_loop n f rd raw name dir (f_pos + of_nat (length r)) (?e mod 1024) (of_nat (first_block slot + ?e div 1024)) ?st)"
    using lt nz l fit buf(1) ino nb b0 off
    by (simp add: st sf Let_def u big_def st1_def flip: X_def split: option.split)
  ultimately show ?thesis by blast
qed


lemma find_loop_record:
  assumes dev: "block_device rd img" and ok: "dir_ok img slot" and s: "plain_sb s" and h: "search_head img s slot dir (unat f_pos) st"
    and pos: "unat f_pos < unat (iso_size slot)" and nz: "dir_data img slot ! unat f_pos \<noteq> 0" and b: "block = of_nat (first_block slot + unat f_pos div 1024)"
  shows "\<exists>f' r st1. unat f' = unat f_pos + length r \<and> 34 \<le> length r \<and> search_head img s slot dir (unat f') st1
    \<and> dir_walk (dir_data img slot) (unat f_pos) = (unat f_pos, r) # dir_walk (dir_data img slot) (unat f')
    \<and> iso_find_loop (Suc n) f rd raw name dir f_pos (unat f_pos mod 1024) block st
      = (case rec_result s slot name (of_nat (first_block slot * 1024 + unat f_pos)) r of Some x \<Rightarrow> Some (x, st1)
         | None \<Rightarrow> iso_find_loop n f rd raw name dir f' (unat f' mod 1024) (of_nat (first_block slot + unat f' div 1024)) st1)"
proof -
  let ?pos = "unat f_pos" and ?D = "dir_data img slot" and ?sz = "unat (iso_size slot)"
  define r where "r = slice ?pos (unat (?D ! ?pos)) ?D"
  note rs = record_step [OF ok h pos nz r_def] and st = search_headD [OF h]
  have rl: "34 \<le> length r" "length r < 256" using rs(3) by (auto simp: rec_ok_def)
  have r: "slice ?pos (length r) ?D = r" using rs(2) by (simp add: r_def)
  have lt: "f_pos < iso_size slot" using pos by (simp add: word_less_nat_alt)
  note d = at_pos_nth [OF st(4) ok pos]
  have l: "de_length (data_block st) (?pos mod 1024) = length r" using d(1) rs(2) by (simp add: de_length_def)
  have nz': "data_block st ! (?pos mod 1024) \<noteq> 0" using d(1) nz by simp
  let ?f = "f_pos + of_nat (length r)"
  have u: "unat ?f = ?pos + length r"
  proof -
    have "unat (of_nat (length r) :: u32) = length r" using rl by (simp add: unat_of_nat)
    moreover have "?sz < 2 ^ 31" using ok by (simp add: dir_ok_def)
    ultimately show ?thesis using unat_add_lem [of f_pos "of_nat (length r) :: u32"] rs(4) by simp
  qed
  have ino: "of_nat (first_block slot * 1024 + ?pos) = push_bit 10 block + of_nat (?pos mod 1024 mod 1024)"
    unfolding b by (rule position_word [OF ok st(5), symmetric])
  have "\<exists>st1. next_head img s slot dir (?pos + length r) st1
      \<and> iso_find_loop (Suc n) f rd raw name dir f_pos (?pos mod 1024) block st
        = (case rec_result s slot name (of_nat (first_block slot * 1024 + ?pos)) r of Some x \<Rightarrow> Some (x, st1)
           | None \<Rightarrow> iso_find_loop n f rd raw name dir ?f ((?pos + length r) mod 1024) (of_nat (first_block slot + (?pos + length r) div 1024)) st1)"
  proof (cases "?pos mod 1024 + length r < 1024")
    case True
    have "slice (?pos mod 1024) (length r) (data_block st) = r"
      using at_pos_slice [OF st(4), of "length r"] True rs(4) r by simp
    from find_loop_whole [OF h s lt nz' l this rs(3) True ino, of n f rd raw name] show ?thesis
      unfolding b by metis
  next
    case False
    then have "1024 \<le> ?pos mod 1024 + length r" by simp
    from find_loop_span [OF dev ok h s lt nz' l u r rs(3,4) this ino] show ?thesis .
  qed
  then obtain st1 where st1: "next_head img s slot dir (unat ?f) st1"
      "iso_find_loop (Suc n) f rd raw name dir f_pos (?pos mod 1024) block st
        = (case rec_result s slot name (of_nat (first_block slot * 1024 + ?pos)) r of Some x \<Rightarrow> Some (x, st1)
           | None \<Rightarrow> iso_find_loop n f rd raw name dir ?f (unat ?f mod 1024) (of_nat (first_block slot + unat ?f div 1024)) st1)"
    unfolding u by blast
  have "search_head img s slot dir (unat ?f) st1"
    using st1(1) h rs(1,4) unfolding u by (simp add: search_head_def next_head_def)
  with st1(2) rs(1) rl(1) show ?thesis by (intro exI [of _ ?f] exI [of _ r] exI [of _ st1]) (simp only: u simp_thms)
qed

lemma find_loop_skip:
  assumes dev: "block_device rd img" and ok: "dir_ok img slot" and s: "plain_sb s" and h: "search_head img s slot dir (unat f_pos) st"
    and pos: "unat f_pos < unat (iso_size slot)" and z: "dir_data img slot ! unat f_pos = 0"
  shows "\<exists>f' st1. unat f_pos < unat f' \<and> search_head img s slot dir (unat f') st1
    \<and> dir_walk (dir_data img slot) (unat f_pos) = dir_walk (dir_data img slot) (unat f')
    \<and> iso_find_loop (Suc n) f rd raw name dir f_pos (unat f_pos mod 1024) block st
      = iso_find_loop n f rd raw name dir f' (unat f' mod 1024) (of_nat (first_block slot + unat f' div 1024)) st1"
proof -
  let ?pos = "unat f_pos" and ?D = "dir_data img slot" and ?sz = "unat (iso_size slot)"
  define f' :: u32 where "f' = (f_pos AND NOT 2047) + 2048"
  note st = search_headD [OF h] and sf = plain_sbD [OF s]
  have sz: "?sz < 2 ^ 31" "2048 dvd ?sz" using ok by (auto simp: dir_ok_def)
  have u: "unat f' = (?pos div 2048 + 1) * 2048" unfolding f'_def by (rule round_up_sector) (use pos sz in simp)
  have le: "unat f' \<le> ?sz" unfolding u by (rule sector_end [OF sz(2) pos])
  have m: "unat f' mod 1024 = 0" unfolding u by (simp add: mod_eq_0_iff_dvd)
  have gt: "?pos < unat f'" unfolding u using dividend_less_div_times [of 2048 ?pos] by simp
  have lt: "f_pos < iso_size slot" using pos by (simp add: word_less_nat_alt)
  note d = at_pos_nth [OF st(4) ok pos]
  let ?st = "st\<lparr>data_block := dir_block img slot (unat f' div 1024)\<rparr>"
  have nb: "next_dir_block rd slot f' st = ((of_nat (first_block slot + unat f' div 1024), True), ?st)"
    using next_dir_block_data [OF dev ok _ _ st(6) le] st(1) sf(1,2) by simp
  have w: "dir_walk ?D ?pos = dir_walk ?D (unat f')"
    unfolding u by (subst dir_walk.simps) (use pos length_dir_data [OF ok] z in simp)
  have "search_head img s slot dir (unat f') ?st" using h le w m length_dir_block [OF ok le] by (simp add: search_head_def at_pos_def)
  moreover have "iso_find_loop (Suc n) f rd raw name dir f_pos (?pos mod 1024) block st
      = iso_find_loop n f rd raw name dir f' (unat f' mod 1024) (of_nat (first_block slot + unat f' div 1024)) ?st"
    unfolding m iso_find_loop.simps Let_def st(1,3) f'_def [symmetric] nb prod.case using lt d z by simp
  ultimately show ?thesis using gt w by blast
qed

lemma iso_find_loop_search:
  assumes dev: "block_device rd img" and ok: "dir_ok img slot" and s: "plain_sb s"
  shows "search_head img s slot dir (unat f_pos) st \<Longrightarrow> unat (iso_size slot) - unat f_pos < n
    \<Longrightarrow> \<exists>st'. iso_find_loop n f rd raw name dir f_pos (unat f_pos mod 1024) (of_nat (first_block slot + unat f_pos div 1024)) st
          = Some (dir_search s slot name (dir_walk (dir_data img slot) (unat f_pos)), st')"
proof (induction n arbitrary: f_pos st)
  case (Suc n)
  let ?pos = "unat f_pos" and ?D = "dir_data img slot" and ?sz = "unat (iso_size slot)"
  note h = Suc.prems(1) and st = search_headD [OF Suc.prems(1)]
  consider "?pos = ?sz" | "?pos < ?sz" "?D ! ?pos = 0" | "?pos < ?sz" "?D ! ?pos \<noteq> 0" using st(5) by linarith
  then show ?case
  proof cases
    case 1
    then have "\<not> f_pos < iso_size slot" by (simp add: word_less_nat_alt)
    moreover have "dir_walk ?D ?pos = []" by (subst dir_walk.simps) (simp add: 1 length_dir_data [OF ok])
    ultimately show ?thesis by (simp add: st dir_search_def)
  next
    case 2
    obtain f' st1 where f': "?pos < unat f'" "search_head img s slot dir (unat f') st1" "dir_walk ?D ?pos = dir_walk ?D (unat f')"
        "iso_find_loop (Suc n) f rd raw name dir f_pos (?pos mod 1024) (of_nat (first_block slot + ?pos div 1024)) st
          = iso_find_loop n f rd raw name dir f' (unat f' mod 1024) (of_nat (first_block slot + unat f' div 1024)) st1"
      using find_loop_skip [OF dev ok s h 2, of n f raw name] by blast
    have "?sz - unat f' < n" using Suc.prems(2) f'(1) search_headD(5) [OF f'(2)] by linarith
    with Suc.IH [OF f'(2)] f'(3,4) show ?thesis by simp
  next
    case 3
    obtain f' r st1 where f': "unat f' = ?pos + length r" "34 \<le> length r" "search_head img s slot dir (unat f') st1"
        "dir_walk ?D ?pos = (?pos, r) # dir_walk ?D (unat f')"
        "iso_find_loop (Suc n) f rd raw name dir f_pos (?pos mod 1024) (of_nat (first_block slot + ?pos div 1024)) st
          = (case rec_result s slot name (of_nat (first_block slot * 1024 + ?pos)) r of Some x \<Rightarrow> Some (x, st1)
             | None \<Rightarrow> iso_find_loop n f rd raw name dir f' (unat f' mod 1024) (of_nat (first_block slot + unat f' div 1024)) st1)"
      using find_loop_record [OF dev ok s h 3 refl, of n f raw name] by blast
    have "?sz - unat f' < n" using Suc.prems(2) f'(1,2) search_headD(5) [OF f'(3)] 3(1) by linarith
    with Suc.IH [OF f'(3)] f'(4,5) show ?thesis by (auto simp: dir_search_Cons split: option.split)
  qed
qed simp

lemma iso_find_entry_search:
  assumes dev: "block_device rd img" and st: "iso_ok st" "plain_sb (sb st)" and ok: "dir_ok img slot" and slot: "slot = iso_table st ! dir"
    and f: "unat (iso_size slot) < f"
  shows "\<exists>st'. iso_find_entry f rd raw name dir b st
     = Some (case dir_search (sb st) slot name (dir_walk (dir_data img slot) 0) of Found i k \<Rightarrow> (0, i, k) | Stop r \<Rightarrow> (r, 0, b), st')"
proof -
  have st': "s_blocksize (sb st) = 1024" "s_blocksize_bits (sb st) = 10" "length (data_block st) = 1024" "length (big_data_block st) = 2048"
    using st by (auto simp: iso_ok_def)
  have e: "i_first_extent slot \<noteq> 0" using ok by (auto simp: dir_ok_def first_block_def)
  let ?st = "st\<lparr>data_block := dir_block img slot 0\<rparr>"
  have nb: "next_dir_block rd slot 0 st = ((of_nat (first_block slot), True), ?st)"
    using next_dir_block_data [OF dev ok st'(1,2,3), of 0] by simp
  have "search_head img (sb st) slot dir (unat (0 :: u32)) ?st"
    using st'(4) slot ok length_dir_block [OF ok, of 0] by (simp add: search_head_def at_pos_def dir_ok_def)
  from iso_find_loop_search [OF dev ok st(2) this, of f f raw name] f
  obtain st2 where "iso_find_loop f f rd raw name dir 0 0 (of_nat (first_block slot)) ?st
      = Some (dir_search (sb st) slot name (dir_walk (dir_data img slot) 0), st2)" by auto
  with nb e show ?thesis by (auto simp: iso_find_entry_def split: find_result.split simp flip: slot)
qed


end
