(* ===== verification/Iso_props.thy ===== *)
theory Iso_props imports Iso_search
begin

text \<open>
  Properties of the ISO 9660 reader (\<^verbatim>\<open>src/lib/isolib.c\<close>), and the disc on which they are evaluated: a volume descriptor in sector 64 and a root directory in sector 80 with
  one file.
\<close>

unbundle bit_operations_syntax

subsection \<open>A disc\<close>

definition cd_record :: "u8 \<Rightarrow> u8 \<Rightarrow> u8 \<Rightarrow> u8 \<Rightarrow> u8 \<Rightarrow> bytes" where
  "cd_record ext lo hi fl name =
     [34, 0, ext, 0, 0, 0, 0, 0, 0, ext, lo, hi, 0, 0, 0, 0, hi, lo] @ replicate 7 0 @ [fl] @ replicate 6 0 @ [1, name]"

definition cd_dir :: bytes where
  "cd_dir = cd_record 20 0 8 2 0 @ cd_record 20 0 8 2 1 @ cd_record 30 0xe8 3 0 65 @ replicate 922 0"

definition cd_vd :: bytes where
  "cd_vd = [1, 67, 68, 48, 48, 49, 1] @ replicate 121 0 @ [0, 8] @ replicate 26 0 @ cd_record 20 0 8 2 0 @ replicate 834 0"

definition cd_cb :: ccb_read where
  "cd_cb n lbn = (n, take (nat n) (if lbn = 64 then cd_vd else if lbn = 80 then cd_dir else replicate (nat n) 0))"

definition iso_example :: iso_state where
  "iso_example = \<lparr>iso_table = replicate 5 \<lparr>i_first_extent = 0, i_backlink = 0, i_file_format = 0, iso_inumber = 0, iso_free = True, iso_size = 0, iso_nlink = 0, iso_mode = 0\<rparr>,
    iso_root = 0, sb = \<lparr>s_nzones = 0, s_firstdatazone = 0, s_log_zone_size = 0, s_max_size = 0, s_high_sierra = 0, s_mapping = CHR ''n'', s_conversion = CHR ''b'',
      s_rock = False, s_cruft = CHR ''n'', s_blocksize = 1024, s_blocksize_bits = 10, s_unhide = CHR ''n'', s_mode = 0\<rparr>,
    data_block = replicate 1024 0, big_data_block = replicate 2048 0, rd_blockoffset = 0, rd_diroffset = 0\<rparr>"

definition cd_raw :: "nat \<Rightarrow> bytes" where
  "cd_raw n = replicate 256 0"

lemma cd_lengths: "length cd_vd = 1024 \<and> length cd_dir = 1024" by code_simp

lemma cd_read_vd: "cons_read cd_cb 1024 32768 = (1024, cd_vd)"
  by (simp add: cons_read_def SECT_SIZE_def cd_cb_def cd_lengths)

lemma cd_read_dir: "cons_read cd_cb 1024 40960 = (1024, cd_dir)"
  by (simp add: cons_read_def SECT_SIZE_def cd_cb_def cd_lengths)

lemma cd_fields: "slice 9 5 cd_vd = [0,0,0,0,0]" "slice 1 5 cd_vd = map of_char ''CD001''" "isonum_711 cd_vd 0 = 1" "isonum_733 cd_vd 80 = 0" "isonum_723 cd_vd 128 = 2048" "de_extent cd_vd 156 = 20"
  by code_simp+

lemma cd_volume: "find_volume (cons_read cd_cb) [16..<100] st = (Some False, st\<lparr>data_block := cd_vd\<rparr>)" if "s_blocksize (sb st) = 1024" "length (data_block st) = 1024"
proof -
  have "[16..<100] = 16 # [17..<100::nat]" by (simp add: upt_rec)
  then show ?thesis using that by (simp add: read_at_def cd_read_vd cd_fields cd_fields(2) [simplified] Let_def overwrite_def cd_lengths ISO_VD_PRIMARY_def del: upt_rec_numeral)
qed

definition iso_mounted :: iso_state where
  "iso_mounted = iso_example\<lparr>data_block := cd_vd, iso_root := 40960,
     sb := (sb iso_example)\<lparr>s_log_zone_size := 11, s_firstdatazone := 40960, s_rock := True, s_mode := S_IRUGO\<rparr>\<rparr>"

lemma cd_mount: "iso_read_super (cons_read cd_cb) iso_example = (0, iso_mounted)"
  by (simp add: iso_read_super_def cd_volume iso_example_def cd_fields log_zone_size_def iso_mounted_def del: upt_rec_numeral)

lemma cd_root_record: "iso_read_record (cons_read cd_cb) 40960 st = Some (Some (cd_dir, 0), st\<lparr>data_block := cd_dir\<rparr>)"
  if "s_blocksize (sb st) = 1024" "s_blocksize_bits (sb st) = 10" "length (data_block st) = 1024"
proof -
  have "de_length cd_dir 0 = 34" by code_simp
  moreover have "read_data_block (cons_read cd_cb) 40 st = (True, st\<lparr>data_block := cd_dir\<rparr>)"
    using that by (simp add: read_data_block_def read_at_def cd_read_dir overwrite_def cd_lengths)
  ultimately show ?thesis using that by (simp add: iso_read_record_def drop_bit_eq_div cd_lengths)
qed

definition cd_slot :: iso_slot where
  "cd_slot = \<lparr>i_first_extent = 40960, i_backlink = 0xffffffff, i_file_format = 2, iso_inumber = 40960, iso_free = False, iso_size = 2048,
     iso_nlink = 1, iso_mode = 0x416d\<rparr>"

lemma cd_root:
  "record_mode (sb iso_mounted) cd_dir 0 = Some 0x416d" "record_size (sb iso_mounted) cd_dir 0 = (2048, CHR ''n'')"
  "de_position (sb iso_mounted) cd_dir 0 = 40960"
  "parse_rock_ridge_inode 5 (cons_read cd_cb) True cd_dir 0 \<lparr>rr_mode = 0x416d, rr_nlink = 1, rr_size = 2048, symlink_len = 0\<rparr>
     = Some (True, \<lparr>rr_mode = 0x416d, rr_nlink = 1, rr_size = 2048, symlink_len = 0\<rparr>)"
  by code_simp+

lemma cd_sb:
  "s_cruft (sb iso_mounted) = CHR ''n''" "s_blocksize (sb iso_mounted) = 1024" "s_blocksize_bits (sb iso_mounted) = 10" "s_rock (sb iso_mounted)"
  "s_conversion (sb iso_mounted) = CHR ''b''" "(sb iso_mounted)\<lparr>s_cruft := CHR ''n''\<rparr> = sb iso_mounted"
  by (simp_all add: iso_mounted_def iso_example_def)

lemma cd_iget:
  assumes "sb st = sb iso_mounted" "length (data_block st) = 1024" "iso_find_free (iso_table st) 0 = Some i"
  shows "iso_iget 5 (cons_read cd_cb) 40960 st = Some (Some i, st\<lparr>data_block := cd_dir, iso_table := (iso_table st)[i := cd_slot]\<rparr>)"
proof -
  have e: "st\<lparr>data_block := d, sb := sb iso_mounted, iso_table := t\<rparr> = st\<lparr>data_block := d, iso_table := t\<rparr>" for d t
    using assms(1) by (intro iso_state.equality) simp_all
  have s: "r\<lparr>i_first_extent := 40960, i_backlink := 0xffffffff, i_file_format := 2, iso_free := False,
      iso_inumber := 40960, iso_size := 2048, iso_nlink := 1, iso_mode := 0x416d\<rparr> = cd_slot" for r
    by (cases r) (simp add: cd_slot_def)
  have "iso_read_record (cons_read cd_cb) 40960 st = Some (Some (cd_dir, 0), st\<lparr>data_block := cd_dir\<rparr>)"
    using assms by (intro cd_root_record) (simp_all add: cd_sb)
  then show ?thesis
    using assms by (simp add: iso_iget_def cd_root cd_sb Let_def sizeof_record_def cd_lengths file_format_def ISOFS_FILE_BINARY_def e s)
qed

lemma cd_loop:
  assumes "sb st = sb iso_mounted" "length (data_block st) = 1024" "iso_table st ! i = cd_slot"
    and buf: "check_entry 5 (cons_read cd_cb) (cd_raw 0) [] cd_slot (sb iso_mounted) 40960 cd_dir 0 = Some (Some (Found 40960 0), buf)"
  shows "iso_find_loop (Suc n) 5 (cons_read cd_cb) cd_raw [] i 0 0 40 (st\<lparr>data_block := cd_dir\<rparr>) = Some (Found 40960 0, st\<lparr>data_block := buf\<rparr>)"
proof -
  have d: "cd_dir ! 0 = 34" "de_length cd_dir 0 = 34" by code_simp+
  have s: "iso_size cd_slot = 2048" by (simp add: cd_slot_def)
  have p: "push_bit 10 40 = (40960 :: u32)" by simp
  show ?thesis using assms(1-3) by (simp add: Let_def d cd_lengths s cd_sb buf p)
qed

lemma cd_check:
  obtains buf where "length buf = 1024"
    "check_entry 5 (cons_read cd_cb) (cd_raw 0) [] cd_slot (sb iso_mounted) 40960 cd_dir 0 = Some (Some (Found 40960 0), buf)"
proof -
  have "map_option fst (check_entry 5 (cons_read cd_cb) (cd_raw 0) [] cd_slot (sb iso_mounted) 40960 cd_dir 0) = Some (Some (Found 40960 0))"
    by code_simp
  then obtain buf where "check_entry 5 (cons_read cd_cb) (cd_raw 0) [] cd_slot (sb iso_mounted) 40960 cd_dir 0 = Some (Some (Found 40960 0), buf)"
    by auto
  with check_entry_length [OF this] cd_lengths that show ?thesis by simp
qed

lemma cd_search:
  assumes "sb st = sb iso_mounted" "length (data_block st) = 1024" "iso_table st ! i = cd_slot"
    and buf: "check_entry 5 (cons_read cd_cb) (cd_raw 0) [] cd_slot (sb iso_mounted) 40960 cd_dir 0 = Some (Some (Found 40960 0), buf)"
  shows "iso_find_entry 5 (cons_read cd_cb) cd_raw [] i b st = Some ((0, 40960, 0), st\<lparr>data_block := buf\<rparr>)"
proof -
  have "read_data_block (cons_read cd_cb) 40 st = (True, st\<lparr>data_block := cd_dir\<rparr>)"
    using assms(1,2) by (simp add: cd_sb read_data_block_def read_at_def cd_read_dir overwrite_def cd_lengths)
  then have nb: "next_dir_block (cons_read cd_cb) cd_slot 0 st = ((40, True), st\<lparr>data_block := cd_dir\<rparr>)"
    using assms(1) by (simp add: cd_sb next_dir_block_def iso_bmap_def cd_slot_def drop_bit_eq_div)
  have x: "i_first_extent cd_slot \<noteq> 0" by (simp add: cd_slot_def)
  have "iso_find_loop (Suc 4) 5 (cons_read cd_cb) cd_raw [] i 0 0 40 (st\<lparr>data_block := cd_dir\<rparr>) = Some (Found 40960 0, st\<lparr>data_block := buf\<rparr>)"
    by (rule cd_loop [OF assms])
  then have l: "iso_find_loop 5 5 (cons_read cd_cb) cd_raw [] i 0 0 40 (st\<lparr>data_block := cd_dir\<rparr>) = Some (Found 40960 0, st\<lparr>data_block := buf\<rparr>)"
    by (simp only: eval_nat_numeral BitM.simps numeral_nat)
  show ?thesis
    unfolding iso_find_entry_def Let_def assms(3) nb prod.case l by (simp add: x)
qed

lemma cd_open:
  "\<exists>st'. iso_open 5 (cons_read cd_cb) cd_raw (\<lambda>_. 0) [] iso_mounted = Some (1, st')"
proof -
  let ?st = "iso_mounted\<lparr>data_block := cd_dir, iso_table := (iso_table iso_mounted)[0 := cd_slot]\<rparr>"
  have t: "length (iso_table iso_mounted) = 5" "iso_find_free (iso_table iso_mounted) 0 = Some 0" "length (data_block iso_mounted) = 1024"
    "iso_find_free ((iso_table iso_mounted)[0 := cd_slot]) 0 = Some 1" "iso_root iso_mounted = 40960"
    by (simp_all add: iso_mounted_def iso_example_def cd_slot_def cd_lengths eval_nat_numeral)
  have g1: "iso_iget 5 (cons_read cd_cb) 40960 iso_mounted = Some (Some 0, ?st)" using t by (intro cd_iget) simp_all
  obtain buf where buf: "length buf = 1024"
      "check_entry 5 (cons_read cd_cb) (cd_raw 0) [] cd_slot (sb iso_mounted) 40960 cd_dir 0 = Some (Some (Found 40960 0), buf)"
    by (rule cd_check)
  have fe: "iso_find_entry 5 (cons_read cd_cb) cd_raw [] 0 b ?st = Some ((0, 40960, 0), ?st\<lparr>data_block := buf\<rparr>)" for b
    by (rule cd_search [OF _ _ _ buf(2)]) (use t cd_lengths in simp_all)
  have g2: "iso_iget 5 (cons_read cd_cb) 40960 (?st\<lparr>data_block := buf\<rparr>)
      = Some (Some 1, (?st\<lparr>data_block := buf\<rparr>)\<lparr>data_block := cd_dir, iso_table := (iso_table (?st\<lparr>data_block := buf\<rparr>))[1 := cd_slot]\<rparr>)"
    using t buf(1) by (intro cd_iget) simp_all
  have m: "iso_isdir (iso_mode cd_slot)" "\<not> iso_islnk (iso_mode cd_slot)" "sint (40960 :: u32) = 40960"
    by (simp_all add: cd_slot_def iso_isdir_def iso_islnk_def)
  have l: "iso_links 5 5 rd raw heap fn (Some 1) st = Some (1, st)" if "iso_mode (iso_table st ! 1) = iso_mode cd_slot" for rd raw heap fn st
    using iso_links.simps(2) [of 4 5 rd raw heap fn "Some 1" st] that m by simp
  show ?thesis
    unfolding iso_open_def t(5) g1 option.case prod.case iso_lookup_def
    using m t by (simp add: fe g2 [simplified] l [simplified] iso_iput_def del: iso_links.simps)
qed

subsection \<open>Properties\<close>

text \<open>
  C18.  However the reader got into its state by mounting, opening, closing and listing, opening a file leaves every descriptor in use as it is, on success and on
  failure; a descriptor that it returns is one of the five of the table, was free before and denotes something other than a symbolic link.
\<close>

theorem iso_open_keeps_files:
  assumes "bounded_callback cb" and "iso_reachable (cons_read cb) st" and "iso_open f (cons_read cb) raw heap filename st = Some (r, st')"
  shows "(\<forall>fd < MAX_OPEN_FILES. \<not> iso_free (iso_table st ! fd) \<longrightarrow> iso_table st' ! fd = iso_table st ! fd)
    \<and> (r = - 1 \<or> (\<exists>fd < MAX_OPEN_FILES. r = int fd \<and> iso_free (iso_table st ! fd) \<and> \<not> iso_free (iso_table st' ! fd)
           \<and> \<not> iso_islnk (iso_mode (iso_table st' ! fd))))"
proof -
  note rd = bounded_cons_read [OF assms(1)]
  note ok = iso_reachable_ok [OF assms(2) rd]
  note o = iso_open_ok [OF rd ok assms(3)]
  have "\<forall>fd < MAX_OPEN_FILES. \<not> iso_free (iso_table st ! fd) \<longrightarrow> iso_table st' ! fd = iso_table st ! fd"
    using o ok by (simp add: keeps_def used_def iso_ok_def)
  moreover have "r = - 1 \<or> (\<exists>fd < MAX_OPEN_FILES. r = int fd \<and> iso_free (iso_table st ! fd) \<and> \<not> iso_free (iso_table st' ! fd)
           \<and> \<not> iso_islnk (iso_mode (iso_table st' ! fd)))"
    using o ok by (auto simp: used_def iso_ok_def)
  ultimately show ?thesis by blast
qed

lemma bounded_cd: "bounded_callback cd_cb"
  by (simp add: bounded_callback_def cd_cb_def)

lemma cd_reachable: "iso_reachable (cons_read cd_cb) iso_mounted"
  by (rule iso_reachable.mounted [OF _ cd_mount]) (simp add: iso_static_def iso_example_def MAX_OPEN_FILES_def)

theorem iso_open_keeps_files_witness:
  "\<exists>st'. iso_open 5 (cons_read cd_cb) cd_raw (\<lambda>_. 0) [] iso_mounted = Some (1, st') \<and> \<not> iso_free (iso_table st' ! 1)"
proof -
  obtain st' where st': "iso_open 5 (cons_read cd_cb) cd_raw (\<lambda>_. 0) [] iso_mounted = Some (1, st')" using cd_open by blast
  from iso_open_keeps_files [OF bounded_cd cd_reachable this] st' show ?thesis by auto
qed


text \<open>
  C30.  Reading from an open file delivers the blocks of the disc from the first extent of the file, up to and including the one with the end of the file, and the
  number of bytes read; what was asked for beyond it is cut off.
\<close>

theorem iso_bread_data:
  assumes "sector_device img cb" and "SECT_SIZE dvd length img" and "readable img (sb st) (iso_table st ! fd)"
    and "b \<le> file_blocks (iso_table st ! fd)" and "k = min n (file_blocks (iso_table st ! fd) - b)"
  shows "iso_bread (cons_read cb) fd (int b) (int n) st
     = (int (k * 1024), slice (unat (i_first_extent (iso_table st ! fd)) div 1024 * 1024 + b * 1024) (k * 1024) img)"
proof -
  let ?ip = "iso_table st ! fd"
  note len = length_iso_content [OF assms(3)]
  have k: "k * 1024 = min (n * 1024) (length (iso_content img ?ip) - b * 1024)"
    unfolding len assms(5) by (simp add: nat_mult_min_left diff_mult_distrib)
  have "slice (b * 1024) (k * 1024) (iso_content img ?ip) = slice (first_block ?ip * 1024 + b * 1024) (k * 1024) img"
    using assms(4,5) unfolding iso_content_def by (subst slice_slice) (auto simp: min_def algebra_simps)
  with iso_breadi_data [OF cons_block_device [OF assms(1,2)] assms(3) _ k] assms(4) len show ?thesis
    by (simp add: iso_bread_def first_block_def)
qed

definition cd_disc :: bytes where
  "cd_disc = replicate 1024 0 @ cd_dir @ replicate 2048 0"

definition disc_slot :: iso_slot where
  "disc_slot = cd_slot\<lparr>i_first_extent := 1024, iso_inumber := 1024\<rparr>"

definition disc_state :: iso_state where
  "disc_state = iso_mounted\<lparr>sb := (sb iso_mounted)\<lparr>s_rock := False\<rparr>, iso_table := (iso_table iso_mounted)[0 := disc_slot]\<rparr>"

lemma cd_disc_length: "length cd_disc = 4096"
  by (simp add: cd_disc_def cd_lengths)

lemma disc_state_slot [simp]: "iso_table disc_state ! 0 = disc_slot"
  by (simp add: disc_state_def iso_mounted_def iso_example_def)

theorem iso_bread_data_witness:
  "iso_bread (cons_read (image_read cd_disc)) 0 0 7 disc_state = (3072, slice 1024 3072 cd_disc)"
proof -
  have "readable cd_disc (sb disc_state) (iso_table disc_state ! 0)" "file_blocks (iso_table disc_state ! 0) = 3"
    by (simp_all add: disc_state_def iso_mounted_def iso_example_def readable_def disc_slot_def cd_slot_def first_block_def file_blocks_def cd_disc_length)
  then have "iso_bread (cons_read (image_read cd_disc)) 0 (int 0) (int 7) disc_state
      = (int (3 * 1024), slice (unat (i_first_extent (iso_table disc_state ! 0)) div 1024 * 1024 + 0 * 1024) (3 * 1024) cd_disc)"
    by (intro iso_bread_data) (simp_all only: cd_disc_length SECT_SIZE_def sector_device_image_read, simp_all)
  moreover have "unat (i_first_extent (iso_table disc_state ! 0)) = 1024" by (simp add: disc_slot_def)
  ultimately show ?thesis by (simp only:) simp
qed

text \<open>
  On a disc without Rock Ridge extensions the listing of a directory has no names: the length of every plain name is overwritten before it is used, and the call that
  should deliver the first name goes through the directory to its end.
\<close>

theorem iso_readdir_plain_lost:
  assumes "bounded_callback cb" and "iso_ok st" and "\<not> s_rock (sb st)"
    and "iso_readdir_i f (cons_read cb) raw fd rewind st = Some (x, st')"
  shows "x = None"
  using iso_readdir_same [OF bounded_cons_read [OF assms(1)] assms(2,4)] assms(3) by simp

definition listing_state :: iso_state where
  "listing_state = disc_state\<lparr>data_block := cd_dir, rd_blockoffset := 68, rd_diroffset := 68\<rparr>"

lemma cd_listing:
  "\<exists>st'. iso_readdir_i 2 (cons_read (image_read cd_disc)) cd_raw 0 False listing_state = Some (None, st')"
proof -
  let ?rd = "cons_read (image_read cd_disc)" and ?dir = "cd_dir[101 := 0]"
  let ?st1 = "listing_state\<lparr>rd_blockoffset := 102, rd_diroffset := 102\<rparr>"
  have d: "cd_dir ! 68 = 34" "de_length cd_dir 68 = 34" "?dir ! 102 = 0" by code_simp+
  have st: "iso_table listing_state ! 0 = disc_slot" "data_block listing_state = cd_dir" "s_blocksize (sb listing_state) = 1024"
    "rd_blockoffset listing_state = 68" "rd_diroffset listing_state = 68"
    by (simp_all add: listing_state_def) (simp add: disc_state_def iso_mounted_def iso_example_def)
  have slot: "iso_isdir (iso_mode disc_slot)" "iso_size disc_slot = 2048" by (simp_all add: disc_slot_def cd_slot_def iso_isdir_def)
  have e: "list_entry 2 ?rd (sb disc_state) (cd_raw 1) cd_dir 68 = Some (0, ?dir)" by code_simp
  have r1: "list_record ?rd disc_slot listing_state = Some (Some (False, 68, 34), ?st1)"
    by (simp add: list_record_def Let_def st d cd_lengths)
  have r2: "\<exists>st'. list_record ?rd disc_slot (?st1\<lparr>data_block := ?dir\<rparr>) = Some (None, st')"
    using d(3) by (simp add: list_record_def list_sector_def Let_def slot cd_lengths)
  have two: "list_loop 2 = list_loop (Suc (Suc 0))" "(1 :: nat) = Suc 0" by (simp_all add: numeral_2_eq_2)
  show ?thesis
    unfolding iso_readdir_i_def st Let_def two(1) list_loop.simps(2) using slot r1 r2 e
    by (auto simp: st two(2) listing_state_def)
qed

theorem iso_readdir_plain_lost_witness:
  "\<exists>x st'. iso_readdir_i 2 (cons_read (image_read cd_disc)) cd_raw 0 False listing_state = Some (x, st') \<and> x = None
     \<and> rec_name (slice 68 34 (data_block listing_state)) = [97]"
proof -
  obtain x st' where "iso_readdir_i 2 (cons_read (image_read cd_disc)) cd_raw 0 False listing_state = Some (x, st')"
    using cd_listing by blast
  moreover have "iso_ok listing_state" "\<not> s_rock (sb listing_state)"
    by (simp_all add: listing_state_def disc_state_def iso_ok_def iso_mounted_def iso_example_def cd_lengths MAX_OPEN_FILES_def)
  moreover have "rec_name (slice 68 34 (data_block listing_state)) = [97]" by code_simp
  ultimately show ?thesis using iso_readdir_plain_lost [OF bounded_image_read] by blast
qed


lemma disc_data: "dir_data cd_disc disc_slot = cd_dir @ replicate 1024 0"
  by (simp add: dir_data_def first_block_def disc_slot_def cd_slot_def cd_disc_def slice_def cd_lengths flip: replicate_add)

lemma disc_walk:
  "dir_walk (cd_dir @ replicate 1024 0) 0
     = [(0, cd_record 20 0 8 2 0), (34, cd_record 20 0 8 2 1), (68, cd_record 30 0xe8 3 0 65)]"
proof -
  let ?D = "cd_dir @ replicate 1024 0"
  have b: "?D ! 0 = 34" "?D ! 34 = 34" "?D ! 68 = 34" "?D ! 102 = 0"
    "slice 0 34 ?D = cd_record 20 0 8 2 0" "slice 34 34 ?D = cd_record 20 0 8 2 1" "slice 68 34 ?D = cd_record 30 0xe8 3 0 65"
    by code_simp+
  have l: "length ?D = 2048" by (simp add: cd_lengths)
  have "dir_walk ?D 2048 = []" by (subst dir_walk.simps) (simp add: cd_lengths)
  then have "dir_walk ?D 102 = []" by (subst dir_walk.simps) (simp only: l b, simp add: b)
  then have "dir_walk ?D 68 = [(68, cd_record 30 0xe8 3 0 65)]" by (subst dir_walk.simps) (simp only: l b, simp add: b)
  then have "dir_walk ?D 34 = [(34, cd_record 20 0 8 2 1), (68, cd_record 30 0xe8 3 0 65)]" by (subst dir_walk.simps) (simp only: l b, simp add: b)
  then show ?thesis by (subst dir_walk.simps) (simp only: l b, simp add: b)
qed


end
