(* ===== verification/Bootfs.thy ===== *)
theory Bootfs
  imports Ext2 Ufs Iso_props Gzip_io
begin

text \<open>
  The file system interface of the loader (\<open>struct bootfs\<close> in \<^verbatim>\<open>src/include/bootfs.h\<close>), the pseudo file
  system for raw partitions (\<^verbatim>\<open>src/fs/dummy.c\<close>) and the entries of the ext2, UFS and ISO 9660 readers (the last from \<^verbatim>\<open>src/fs/iso.c\<close>).

  An entry is a record of operations on a state of type \<open>'s\<close>.  Operations that may have no defined result
  return an option, as in the file system theories; a NULL entry of the table (\<open>readdir\<close> and \<open>fstat\<close> of
  \<open>dummyfs\<close>) has no defined result at all.  \<open>mount\<close> also reports the sizes it passes to \<open>malloc\<close>, in
  order, because the allocator's pointer belongs to the loader; the requests that UFS makes while it opens
  and reads a file are logged in its own state, those of the Rock Ridge parsers are not counted.  The device that \<open>mount\<close> remembers is the
  reader that the entry is built with.

  The locale \<open>open_file\<close> is what the loaders rely on of an open file: reads of whole blocks return the
  corresponding part of one byte sequence, and do not change what later reads return.  \<open>open_file_end\<close>
  adds that a read across the end is cut off there.
\<close>

subsection \<open>The interface\<close>

record 's bootfs =
  fs_type :: int
  blocksize :: "'s \<Rightarrow> nat"
  mount :: "int \<Rightarrow> 's \<Rightarrow> (int \<times> nat list) \<times> 's"
  fopen :: "bytes \<Rightarrow> 's \<Rightarrow> (int \<times> 's) option"
  bread :: "nat \<Rightarrow> int \<Rightarrow> int \<Rightarrow> 's \<Rightarrow> ((int \<times> bytes) \<times> 's) option"
  fclose :: "nat \<Rightarrow> 's \<Rightarrow> 's"
  readdir :: "nat \<Rightarrow> bool \<Rightarrow> 's \<Rightarrow> (bytes option \<times> 's) option"
  fstat :: "nat \<Rightarrow> 's \<Rightarrow> stat option"

record fs_state =
  ext2 :: ext2_state
  ufs :: ufs_state
  iso :: iso_state
  aboot_size :: nat

subsection \<open>The pseudo file system\<close>

definition BOOT_SECTOR :: nat where
  "BOOT_SECTOR = 2"

definition BLOCKSIZE :: nat where
  "BLOCKSIZE = 16 * SECT_SIZE"

definition dummy_mount :: "int \<Rightarrow> fs_state \<Rightarrow> (int \<times> nat list) \<times> fs_state" where
  "dummy_mount part_offset st = ((0, []), st)"

text \<open>\<open>image_size\<close> is \<open>&_end - BOOT_ADDR\<close>; its rounded value is kept in a static variable.\<close>

definition aboot_size_of :: "nat \<Rightarrow> fs_state \<Rightarrow> nat" where
  "aboot_size_of image_size st =
     (if aboot_size st = 0 then (image_size + SECT_SIZE - 1) div SECT_SIZE * SECT_SIZE else aboot_size st)"

definition dummy_bread ::
  "reader \<Rightarrow> nat \<Rightarrow> nat \<Rightarrow> int \<Rightarrow> int \<Rightarrow> fs_state \<Rightarrow> ((int \<times> bytes) \<times> fs_state) option" where
  "dummy_bread rd image_size fd blkno nblks st =
     (let st = st\<lparr>aboot_size := aboot_size_of image_size st\<rparr>; n = nblks * int BLOCKSIZE;
          (r, d) = read_at rd n (int (BOOT_SECTOR * SECT_SIZE) + blkno * int BLOCKSIZE + int (aboot_size st))
      in if r \<noteq> n then Some ((- 1, d), st) else Some ((n, d), st))"

definition dummy_open :: "bytes \<Rightarrow> fs_state \<Rightarrow> (int \<times> fs_state) option" where
  "dummy_open filename st = Some (1, st)"

definition dummy_close :: "nat \<Rightarrow> fs_state \<Rightarrow> fs_state" where
  "dummy_close fd st = st"

definition dummyfs :: "reader \<Rightarrow> nat \<Rightarrow> fs_state bootfs" where
  "dummyfs rd image_size =
     \<lparr>fs_type = 0, blocksize = (\<lambda>_. BLOCKSIZE), mount = dummy_mount, fopen = dummy_open,
      bread = dummy_bread rd image_size, fclose = dummy_close, readdir = (\<lambda>_ _ _. None), fstat = (\<lambda>_ _. None)\<rparr>"

subsection \<open>The ext2 entry\<close>

definition FS_EXT2 :: nat where
  "FS_EXT2 = 8"

definition in_ext2 :: "fs_state \<Rightarrow> ('a \<times> ext2_state) option \<Rightarrow> ('a \<times> fs_state) option" where
  "in_ext2 st r = map_option (\<lambda>(x, e). (x, st\<lparr>ext2 := e\<rparr>)) r"

text \<open>The requests of a successful \<open>ext2_mount\<close>: the group descriptors and three block buffers.\<close>

definition ext2_requests :: "int \<Rightarrow> ext2_state \<Rightarrow> nat list" where
  "ext2_requests r e =
     (if r < 0 then []
      else [nat (ngroups e) * sizeof_group_desc, nat (e2_blocksize e), nat (e2_blocksize e), nat (e2_blocksize e)])"

definition ext2fs :: "reader \<Rightarrow> nat \<Rightarrow> bytes \<times> bytes \<times> bytes \<Rightarrow> fs_state bootfs" where
  "ext2fs rd f raw =
     \<lparr>fs_type = int FS_EXT2,
      blocksize = (\<lambda>st. nat (e2_blocksize (ext2 st))),
      mount = (\<lambda>part_offset st. case ext2_mount rd raw part_offset (ext2 st) of (r, e) \<Rightarrow> ((r, ext2_requests r e), st\<lparr>ext2 := e\<rparr>)),
      fopen = (\<lambda>filename st. in_ext2 st (ext2_open f rd filename (ext2 st))),
      bread = (\<lambda>fd blkno nblks st.
        if blkno < 0 \<or> nblks < 0 then None else in_ext2 st (ext2_bread rd fd (nat blkno) (nat nblks) (ext2 st))),
      fclose = (\<lambda>fd st. st\<lparr>ext2 := ext2_close fd (ext2 st)\<rparr>),
      readdir = (\<lambda>fd rewind st. in_ext2 st (ext2_readdir rd fd rewind (ext2 st))),
      fstat = (\<lambda>fd st. ext2_fstat fd (ext2 st))\<rparr>"

subsection \<open>The UFS entry\<close>

definition FS_BSDFFS :: nat where
  "FS_BSDFFS = 7"

definition in_ufs :: "fs_state \<Rightarrow> ('a \<times> ufs_state) option \<Rightarrow> ('a \<times> fs_state) option" where
  "in_ufs st r = map_option (\<lambda>(x, u). (x, st\<lparr>ufs := u\<rparr>)) r"

definition ufsfs :: "reader \<Rightarrow> bytes \<Rightarrow> fs_state bootfs" where
  "ufsfs rd raw =
     \<lparr>fs_type = int FS_BSDFFS,
      blocksize = (\<lambda>st. nat (ufs_blocksize (ufs st))),
      mount = (\<lambda>part_offset st. case ufs_mount rd part_offset (ufs st) of (r, u) \<Rightarrow> ((r, []), st\<lparr>ufs := u\<rparr>)),
      fopen = (\<lambda>filename st. in_ufs st (ufs_open rd raw filename (ufs st))),
      bread = (\<lambda>fd blkno nblks st.
        if blkno < 0 \<or> nblks < 0 then None else in_ufs st (ufs_bread rd fd (nat blkno) (nat nblks) (ufs st))),
      fclose = (\<lambda>fd st. st\<lparr>ufs := ufs_close fd (ufs st)\<rparr>),
      readdir = (\<lambda>fd rewind st. in_ufs st (ufs_readdir fd rewind (ufs st))),
      fstat = (\<lambda>fd st. ufs_fstat fd (ufs st))\<rparr>"

subsection \<open>The ISO 9660 entry\<close>

definition in_iso :: "fs_state \<Rightarrow> ('a \<times> iso_state) option \<Rightarrow> ('a \<times> fs_state) option" where
  "in_iso st r = map_option (\<lambda>(x, i). (x, st\<lparr>iso := i\<rparr>)) r"

text \<open>\<open>iso_mount\<close> ignores the offset: the file system is not in a partition, and its type matches none.\<close>

definition iso_mount :: "reader \<Rightarrow> int \<Rightarrow> fs_state \<Rightarrow> (int \<times> nat list) \<times> fs_state" where
  "iso_mount rd part_offset st = (case iso_read_super rd (iso st) of (r, i) \<Rightarrow> ((r, []), st\<lparr>iso := i\<rparr>))"

definition isofs :: "reader \<Rightarrow> nat \<Rightarrow> (nat \<Rightarrow> bytes) \<Rightarrow> (nat \<Rightarrow> u8) \<Rightarrow> fs_state bootfs" where
  "isofs rd f raw heap =
     \<lparr>fs_type = - 1,
      blocksize = (\<lambda>st. 1024),
      mount = iso_mount rd,
      fopen = (\<lambda>filename st. in_iso st (iso_open f rd raw heap filename (iso st))),
      bread = (\<lambda>fd blkno nblks st. Some (iso_bread rd fd blkno nblks (iso st), st)),
      fclose = (\<lambda>fd st. st\<lparr>iso := iso_close fd (iso st)\<rparr>),
      readdir = (\<lambda>fd rewind st. in_iso st (iso_readdir_i f rd raw fd rewind (iso st))),
      fstat = (\<lambda>fd st. iso_fstat fd (iso st))\<rparr>"

subsection \<open>Open files\<close>

locale open_file =
  fixes rdblk :: "int \<Rightarrow> int \<Rightarrow> 's \<Rightarrow> ((int \<times> bytes) \<times> 's) option"
    and bs :: nat and content :: bytes and ok :: "'s \<Rightarrow> bool"
  assumes bs_pos: "ok st \<Longrightarrow> 0 < bs"
    and read_blocks: "ok st \<Longrightarrow> (b + n) * bs \<le> length content \<Longrightarrow>
      \<exists>st'. rdblk (int b) (int n) st = Some ((int (n * bs), slice (b * bs) (n * bs) content), st') \<and> ok st'"

locale open_file_end = open_file +
  assumes whole_blocks: "ok st \<Longrightarrow> bs dvd length content"
    and read_end: "ok st \<Longrightarrow> b * bs \<le> length content \<Longrightarrow> length content < (b + n) * bs \<Longrightarrow>
      \<exists>st'. rdblk (int b) (int n) st = Some ((int (length content - b * bs), drop (b * bs) content), st') \<and> ok st'"

text \<open>The blocks of a plain ext2 file, up to the block that holds its end.\<close>

definition ext2_content :: "bytes \<Rightarrow> ext2_state \<Rightarrow> bytes \<Rightarrow> bytes" where
  "ext2_content img e ip = concat (map (file_data img e ip) [0..<unat (i_size ip) div nat (e2_blocksize e) + 1])"

definition ext2_file :: "bytes \<Rightarrow> nat \<Rightarrow> nat \<Rightarrow> bytes \<Rightarrow> fs_state \<Rightarrow> bool" where
  "ext2_file img fd bs content st \<longleftrightarrow>
     (let e = ext2 st; ip = slot_inode (inode_table e ! fd)
      in geometry_ok e \<and> cache_ok img e \<and> fd < length (inode_table e) \<and> e2_blocksize e = int bs
       \<and> i_flags ip AND EXT4_EXTENTS_FL = 0 \<and> unat (i_size ip) + bs < 2 ^ 32
       \<and> (\<forall>i < unat (i_size ip) div bs + 1. data_ok img e ip i) \<and> content = ext2_content img e ip)"

lemma length_concat_uniform:
  "\<forall>i < a + j. length (f i) = k \<Longrightarrow> length (concat (map f [a..<a + j])) = j * k"
  by (induction j) (auto simp: algebra_simps)

lemma slice_concat_uniform:
  assumes "\<forall>i < n. length (f i) = k" and "b + m \<le> n"
  shows "slice (b * k) (m * k) (concat (map f [0..<n])) = concat (map (\<lambda>i. f (b + i)) [0..<m])"
proof -
  have "[0..<n] = [0..<b] @ [b..<b + m] @ [b + m..<n]"
    using assms(2) upt_add_eq_append [of 0 b "n - b"] upt_add_eq_append [of b "b + m" "n - (b + m)"] by simp
  then have "concat (map f [0..<n])
      = concat (map f [0..<b]) @ concat (map f [b..<b + m]) @ concat (map f [b + m..<n])" by simp
  moreover have "map f [b..<b + m] = map (\<lambda>i. f (b + i)) [0..<m]"
    by (intro nth_equalityI) auto
  ultimately show ?thesis
    using length_concat_uniform [of 0 b f k] length_concat_uniform [of b m f k] assms by (simp add: slice_def)
qed

lemma length_file_data:
  assumes "data_ok img e ip i" and "geometry_ok e"
  shows "length (file_data img e ip i) = nat (e2_blocksize e)"
proof (cases "file_block img e ip i = 0")
  case False
  then have b: "block_in img e (file_block img e ip i)" using assms(1) by (auto simp: data_ok_def Let_def)
  let ?o = "partition_offset e + file_block img e ip i * e2_blocksize e"
  have "0 \<le> ?o" "?o + e2_blocksize e \<le> int (length img)"
    using b assms(2) by (auto simp: block_in_def geometry_ok_def algebra_simps)
  then have "nat ?o + nat (e2_blocksize e) \<le> length img" using assms(2) by (simp add: geometry_ok_def flip: nat_add_distrib)
  then show ?thesis using False by (simp add: file_data_def Let_def block_at_def length_slice)
qed (simp add: file_data_def)

lemma clip_whole:
  assumes "e2_blocksize e = int bs" and "0 < bs" and "unat (i_size ip) + bs < 2 ^ 32"
    and "b \<le> unat (i_size ip) div bs + 1"
  shows "clip_blocks ip b n e = int (min n (unat (i_size ip) div bs + 1 - b))"
proof -
  let ?s = "unat (i_size ip)"
  have bs: "unat (word_of_int (int bs) :: u32) = bs"
    using assms(3) by (simp add: unat_of_nat take_bit_nat_eq_self)
  have "(?s + bs) div bs = ?s div bs + 1" using assms(2) by (intro div_add_self2) simp
  then have q: "uint ((i_size ip + word_of_int (int bs)) div word_of_int (int bs) :: u32) = int (?s div bs + 1)"
    using assms(3) bs by (simp add: uint_nat unat_div_distrib unat_plus_if')
  have c: "uint (i_size ip) < int (b + n) * int bs \<longleftrightarrow> ?s div bs < b + n"
    using assms(2) by (simp only: div_less_iff_less_mult of_nat_less_iff uint_nat flip: of_nat_mult)
  show ?thesis
    unfolding clip_blocks_def assms(1) q c using assms(4) by (cases "?s div bs < b + n") (auto simp: min_def)
qed

lemma ext2_file_content:
  assumes "ext2_file img fd bs content st"
  shows "length content = (unat (i_size (slot_inode (inode_table (ext2 st) ! fd))) div bs + 1) * bs"
proof -
  note a = assms [unfolded ext2_file_def Let_def]
  let ?ip = "slot_inode (inode_table (ext2 st) ! fd)"
  have "\<forall>i < unat (i_size ?ip) div bs + 1. length (file_data img (ext2 st) ?ip i) = bs"
    using a length_file_data [of img "ext2 st" ?ip] by simp
  from length_concat_uniform [of 0, simplified add_0, OF this] show ?thesis
    using a by (simp add: ext2_content_def del: upt_Suc)
qed

lemma ext2_file_read:
  assumes dev: "block_device rd img" and opened: "ext2_file img fd bs content st" and b: "b * bs \<le> length content"
    and k: "k = min (n * bs) (length content - b * bs)"
  shows "\<exists>st'. bread (ext2fs rd f raw) fd (int b) (int n) st = Some ((int k, slice (b * bs) k content), st')
           \<and> ext2_file img fd bs content st'"
proof -
  let ?e = "ext2 st" and ?ip = "slot_inode (inode_table (ext2 st) ! fd)"
  let ?N = "unat (i_size ?ip) div bs + 1"
  note a = opened [unfolded ext2_file_def Let_def]
  have bs: "0 < bs" "e2_blocksize ?e = int bs" using a by (auto simp: geometry_ok_def)
  have len: "length content = ?N * bs" by (rule ext2_file_content [OF opened])
  have b': "b \<le> ?N" using b bs(1) unfolding len by (simp only: mult_le_cancel2)
  let ?m = "min n (?N - b)"
  have k: "k = ?m * bs" unfolding k len by (simp only: nat_mult_min_left diff_mult_distrib)
  have blocks: "\<forall>i < ?N. length (file_data img ?e ?ip i) = bs"
    using a length_file_data [of img ?e ?ip] by simp
  have ok: "\<forall>i < ?m. data_ok img ?e ?ip (b + i)" using a b' by auto
  obtain e' where e': "ext2_breadi_loop rd ?ip b ?m [] ?e
      = ((int 0 + int ?m * e2_blocksize ?e, [] @ concat (map (\<lambda>i. file_data img ?e ?ip (b + i)) [0..<?m])), e')"
      "cache_frame ?e e'" "cache_ok img e'"
    using block_device.breadi_loop_data [OF dev _ _ ok, where buf = "[]"] a by auto
  have "concat (map (\<lambda>i. file_data img ?e ?ip (b + i)) [0..<?m]) = slice (b * bs) k content"
    using slice_concat_uniform [OF blocks, of b ?m] b' a by (simp add: k ext2_content_def del: upt_Suc)
  then have "bread (ext2fs rd f raw) fd (int b) (int n) st = Some ((int k, slice (b * bs) k content), st\<lparr>ext2 := e'\<rparr>)"
    using a e'(1) clip_whole [OF bs(2,1), of ?ip b n] b' bs(2) k
    by (simp add: ext2fs_def in_ext2_def ext2_bread_def extn_breadi_def ext2_breadi_def)
  moreover have "ext2_file img fd bs content (st\<lparr>ext2 := e'\<rparr>)"
    using a e'(3) cache_frame_fields [OF e'(2)] cache_frame_cong [OF e'(2)] cache_frame_data [OF e'(2)]
    by (simp add: ext2_file_def ext2_content_def)
  ultimately show ?thesis by blast
qed

text \<open>Every plain ext2 file on a medium of whole sectors is an open file in the sense of the loaders.\<close>

lemma ext2_boot_file_end:
  assumes "block_device rd img"
  shows "open_file_end (bread (ext2fs rd f raw) fd) bs content (ext2_file img fd bs content)"
proof
  fix st b n
  assume opened: "ext2_file img fd bs content st"
  then show "0 < bs" by (auto simp: ext2_file_def Let_def geometry_ok_def)
  show "bs dvd length content" using ext2_file_content [OF opened] by simp
  note r = ext2_file_read [OF assms opened _ refl, where n = n and b = b and f = f and raw = raw]
  show "\<exists>st'. bread (ext2fs rd f raw) fd (int b) (int n) st
      = Some ((int (n * bs), slice (b * bs) (n * bs) content), st') \<and> ext2_file img fd bs content st'"
    if "(b + n) * bs \<le> length content"
  proof -
    have "b * bs \<le> length content" "min (n * bs) (length content - b * bs) = n * bs"
      using that by (simp_all add: add_mult_distrib)
    with r show ?thesis by simp
  qed
  show "\<exists>st'. bread (ext2fs rd f raw) fd (int b) (int n) st
      = Some ((int (length content - b * bs), drop (b * bs) content), st') \<and> ext2_file img fd bs content st'"
    if "b * bs \<le> length content" "length content < (b + n) * bs"
  proof -
    have "min (n * bs) (length content - b * bs) = length content - b * bs"
      using that by (simp add: add_mult_distrib)
    with r that show ?thesis by (simp add: slice_def)
  qed
qed

interpretation e2: open_file_end "bread (ext2fs (cons_read (image_read (whole_sectors img))) f raw) fd" bs content
    "ext2_file (whole_sectors img) fd bs content" for img f raw fd bs content
  by (rule ext2_boot_file_end) (rule cons.block_device_axioms)

text \<open>
  The pseudo file system delivers the sectors behind the loader, for any file name; \<open>content\<close> is the rest of
  the medium from there on.
\<close>

definition raw_start :: "nat \<Rightarrow> nat" where
  "raw_start image_size = BOOT_SECTOR * SECT_SIZE + (image_size + SECT_SIZE - 1) div SECT_SIZE * SECT_SIZE"

definition dummy_file :: "bytes \<Rightarrow> nat \<Rightarrow> fs_state \<Rightarrow> bool" where
  "dummy_file img image_size st \<longleftrightarrow>
     raw_start image_size \<le> length img \<and> aboot_size st \<in> {0, (image_size + SECT_SIZE - 1) div SECT_SIZE * SECT_SIZE}"

lemma dummy_boot_file:
  assumes "block_device rd img"
  shows "open_file (bread (dummyfs rd image_size) fd) BLOCKSIZE (drop (raw_start image_size) img) (dummy_file img image_size)"
proof
  fix st b n
  assume ok: "dummy_file img image_size st"
  show "0 < BLOCKSIZE" by (simp add: BLOCKSIZE_def SECT_SIZE_def)
  assume le: "(b + n) * BLOCKSIZE \<le> length (drop (raw_start image_size) img)"
  let ?a = "raw_start image_size" and ?st = "st\<lparr>aboot_size := aboot_size_of image_size st\<rparr>"
  have a: "aboot_size_of image_size st = (image_size + SECT_SIZE - 1) div SECT_SIZE * SECT_SIZE"
    using ok by (auto simp: dummy_file_def aboot_size_of_def)
  have pos: "BOOT_SECTOR * SECT_SIZE + b * BLOCKSIZE + aboot_size_of image_size st = ?a + b * BLOCKSIZE"
    by (simp add: raw_start_def a algebra_simps)
  have "rd (int (n * BLOCKSIZE)) (?a + b * BLOCKSIZE) = (int (n * BLOCKSIZE), slice (?a + b * BLOCKSIZE) (n * BLOCKSIZE) img)"
    using le ok by (intro block_device.read_slice [OF assms]) (auto simp: algebra_simps dummy_file_def)
  moreover have "slice (b * BLOCKSIZE) (n * BLOCKSIZE) (drop ?a img) = slice (?a + b * BLOCKSIZE) (n * BLOCKSIZE) img"
    by (simp add: slice_def add.commute)
  moreover have "dummy_file img image_size ?st" using ok by (simp add: dummy_file_def a)
  ultimately show "\<exists>st'. bread (dummyfs rd image_size) fd (int b) (int n) st
      = Some ((int (n * BLOCKSIZE), slice (b * BLOCKSIZE) (n * BLOCKSIZE) (drop ?a img)), st') \<and> dummy_file img image_size st'"
    by (simp add: dummyfs_def dummy_bread_def read_at_def Let_def pos flip: of_nat_mult of_nat_add del: of_nat_add of_nat_mult)
qed

interpretation dummy: open_file "bread (dummyfs (cons_read (image_read (whole_sectors img))) image_size) fd" BLOCKSIZE
    "drop (raw_start image_size) (whole_sectors img)" "dummy_file (whole_sectors img) image_size" for img image_size fd
  by (rule dummy_boot_file) (rule cons.block_device_axioms)

text \<open>
  The full blocks of a file of the fast file system.  A last block of fragments is shorter than the block size and does not belong to them.
\<close>

definition ufs_opened :: "bytes \<Rightarrow> nat \<Rightarrow> nat \<Rightarrow> bytes \<Rightarrow> fs_state \<Rightarrow> bool" where
  "ufs_opened img fd bs content st \<longleftrightarrow>
     (let u = ufs st; fp = ufs_table u ! fd
      in ufs_geometry u \<and> fd < length (ufs_table u) \<and> ufs_cache_ok img u fp \<and> fs_bsize (ufs_sb u) = int bs
       \<and> (\<exists>n. content = ufs_range img u (i_ic fp) 0 n
            \<and> (\<forall>i < n. ufs_data_ok img u (i_ic fp) i \<and> blksize (ufs_sb u) (i_ic fp) (int i) = int bs)))"

context block_device
begin

lemma length_ufs_data:
  assumes "ufs_geometry u" and "ufs_data_ok img u ic i"
  shows "int (length (ufs_data img u ic i)) = blksize (ufs_sb u) ic (int i)"
proof (cases "ufs_block img u ic i = 0")
  case True
  then show ?thesis using assms(2) by (simp add: ufs_data_def ufs_data_ok_def)
next
  case False
  then show ?thesis
    using assms read_frags(2) [OF assms(1), of "ufs_block img u ic i" "blksize (ufs_sb u) ic (int i)"]
    by (auto simp: ufs_data_def ufs_data_ok_def Let_def)
qed

lemma ufs_read:
  assumes opened: "ufs_opened img fd bs content st" and le: "(b + m) * bs \<le> length content"
  shows "\<exists>st'. bread (ufsfs dev_read raw) fd (int b) (int m) st = Some ((int (m * bs), slice (b * bs) (m * bs) content), st')
           \<and> ufs_opened img fd bs content st'"
proof -
  let ?u = "ufs st" and ?fp = "ufs_table (ufs st) ! fd"
  let ?ic = "i_ic ?fp"
  obtain n where n: "content = ufs_range img ?u ?ic 0 n"
      "\<forall>i < n. ufs_data_ok img ?u ?ic i \<and> blksize (ufs_sb ?u) ?ic (int i) = int bs"
    and g: "ufs_geometry ?u" "fd < length (ufs_table ?u)" "ufs_cache_ok img ?u ?fp" "fs_bsize (ufs_sb ?u) = int bs"
    using opened by (auto simp: ufs_opened_def Let_def)
  have len: "\<forall>i < n. length (ufs_data img ?u ?ic i) = bs" using n(2) length_ufs_data [OF g(1)] by (metis of_nat_eq_iff)
  have bs: "0 < bs" using g(4) nindir_cases(2) [OF g(1)] count_values(1) [OF g(1)] by simp
  have "length content = n * bs"
    using length_concat_uniform [of 0 n "ufs_data img ?u ?ic" bs] len n(1) by (simp add: ufs_range_def)
  then have bm: "b + m \<le> n" using le bs by simp
  have r: "ufs_range img ?u ?ic b m = slice (b * bs) (m * bs) content"
    using slice_concat_uniform [OF len bm] n(1) by (simp add: ufs_range_def)
  have "length (ufs_range img ?u ?ic b m) = m * bs" unfolding r using le by (simp add: length_slice add_mult_distrib)
  then obtain fp' where fp': "breadi dev_read ?u b m 0 [] ?fp = Some ((int (m * bs), slice (b * bs) (m * bs) content), fp')"
      "map_frame ?fp fp'" "ufs_cache_ok img ?u fp'"
    using breadi_data [OF g(1,3), of m b 0 "[]"] n(2) bm r by auto
  let ?st = "st\<lparr>ufs := ?u\<lparr>ufs_table := (ufs_table ?u)[fd := fp']\<rparr>\<rparr>"
  have "bread (ufsfs dev_read raw) fd (int b) (int m) st = Some ((int (m * bs), slice (b * bs) (m * bs) content), ?st)"
    using fp'(1) g(2) by (simp add: ufsfs_def in_ufs_def ufs_bread_def)
  moreover have "ufs_opened img fd bs content ?st"
    using g n fp'(3) map_frame_fields(1) [OF fp'(2)] by (auto simp: ufs_opened_def ufs_table_frags ufs_table_data)
  ultimately show ?thesis by blast
qed

end

lemma ufs_boot_file:
  assumes "block_device rd img"
  shows "open_file (bread (ufsfs rd raw) fd) bs content (ufs_opened img fd bs content)"
proof
  fix st b n
  assume ok: "ufs_opened img fd bs content st"
  then have "ufs_geometry (ufs st)" "fs_bsize (ufs_sb (ufs st)) = int bs" by (auto simp: ufs_opened_def Let_def)
  then show "0 < bs" using nindir_cases(2) count_values(1) by fastforce
  assume "(b + n) * bs \<le> length content"
  then show "\<exists>st'. bread (ufsfs rd raw) fd (int b) (int n) st = Some ((int (n * bs), slice (b * bs) (n * bs) content), st')
      \<and> ufs_opened img fd bs content st'"
    by (rule block_device.ufs_read [OF assms ok])
qed

interpretation ufs: open_file "bread (ufsfs (cons_read (image_read (whole_sectors img))) raw) fd" bs content
    "ufs_opened (whole_sectors img) fd bs content" for img raw fd bs content
  by (rule ufs_boot_file) (rule cons.block_device_axioms)

text \<open>The blocks of a file on an ISO 9660 disc, which are contiguous, up to the block that holds its end.\<close>

definition iso_opened :: "bytes \<Rightarrow> nat \<Rightarrow> bytes \<Rightarrow> fs_state \<Rightarrow> bool" where
  "iso_opened img fd content st \<longleftrightarrow>
     readable img (sb (iso st)) (iso_table (iso st) ! fd) \<and> content = iso_content img (iso_table (iso st) ! fd)"

lemma iso_boot_file_end:
  assumes "block_device rd img"
  shows "open_file_end (bread (isofs rd f raw heap) fd) 1024 content (iso_opened img fd content)"
proof
  fix st b n
  assume ok: "iso_opened img fd content st"
  let ?ip = "iso_table (iso st) ! fd"
  have c: "content = iso_content img ?ip" and rdb: "readable img (sb (iso st)) ?ip" using ok by (simp_all add: iso_opened_def)
  show "0 < (1024 :: nat)" by simp
  show "1024 dvd length content" using length_iso_content [OF rdb] by (simp add: c)
  have r: "bread (isofs rd f raw heap) fd (int b) (int n) st = Some ((int k, slice (b * 1024) k content), st)"
    if "b * 1024 \<le> length content" "k = min (n * 1024) (length content - b * 1024)" for k
    using iso_breadi_data [OF assms rdb, of b k n] that by (simp add: isofs_def iso_bread_def c)
  show "\<exists>st'. bread (isofs rd f raw heap) fd (int b) (int n) st
      = Some ((int (n * 1024), slice (b * 1024) (n * 1024) content), st') \<and> iso_opened img fd content st'"
    if "(b + n) * 1024 \<le> length content"
    using r [of "n * 1024"] that ok by (auto simp: add_mult_distrib)
  show "\<exists>st'. bread (isofs rd f raw heap) fd (int b) (int n) st
      = Some ((int (length content - b * 1024), drop (b * 1024) content), st') \<and> iso_opened img fd content st'"
    if "b * 1024 \<le> length content" "length content < (b + n) * 1024"
    using r [of "length content - b * 1024"] that ok by (auto simp: add_mult_distrib slice_def min_def)
qed

interpretation isof: open_file_end "bread (isofs (cons_read (image_read (whole_sectors img))) f raw heap) fd" 1024 content
    "iso_opened (whole_sectors img) fd content" for img f raw heap fd content
  by (rule iso_boot_file_end) (rule cons.block_device_axioms)

end
