(* ===== verification/Loader.thy ===== *)
theory Loader
  imports Bootfs Unzip
begin

text \<open>
  Loading of kernel and initial ramdisk (the first half of \<^verbatim>\<open>src/disk.c\<close>): the raw boot from the sectors
  behind the loader, the uncompressed ELF kernel of a file system, the choice between the two read
  methods, and \<open>read_initrd\<close>.

  The loaders run in the same state as the decompressor; \<open>Throw\<close> is a \<open>longjmp\<close> to the \<open>_setjmp\<close> of
  \<open>read_kernel\<close>.  Code that runs outside of it has no valid \<open>jump_buffer\<close>: there a \<open>Throw\<close> becomes \<open>Crash\<close>.
  Progress messages are not part of the state.
\<close>

subsection \<open>Building blocks\<close>

definition buf_mem :: "bytes \<Rightarrow> mem" where
  "buf_mem buf i = (if i < length buf then buf ! i else 0)"

definition file_bread :: "'fs gz_env \<Rightarrow> int \<Rightarrow> int \<Rightarrow> ('fs, int \<times> bytes) gzm" where
  "file_bread env blkno nblks s =
     (case bfs_bread env blkno nblks (fs_st s) of
        None \<Rightarrow> (Crash, s)
      | Some (r, fs') \<Rightarrow> (Ret r, s\<lparr>fs_st := fs'\<rparr>))"

text \<open>A read whose buffer is the memory at \<open>dest\<close>.\<close>

definition read_to_memory :: "'fs gz_env \<Rightarrow> int \<Rightarrow> int \<Rightarrow> nat \<Rightarrow> ('fs, int) gzm" where
  "read_to_memory env blkno nblks dest =
     bind_gz (file_bread env blkno nblks) (\<lambda>(nread, d).
     bind_gz (modify_gz (\<lambda>s. s\<lparr>memory := poke (memory s) dest d\<rparr>)) (\<lambda>_. ret_gz nread))"

definition check_header :: "'fs gz_env \<Rightarrow> bytes \<Rightarrow> int \<Rightarrow> ('fs, bool) gzm" where
  "check_header env buf bsz s =
     (case is_loadable_elf (mach env) (buf_mem buf) bsz (elf s) of
        (Loadable, g) \<Rightarrow> (Ret True, s\<lparr>elf := g\<rparr>)
      | (Rejected e, g) \<Rightarrow> (Ret False, s\<lparr>elf := g\<rparr>)
      | (Out_of_memory, g) \<Rightarrow> unzip_error ''out of memory'' (s\<lparr>elf := g\<rparr>))"

definition no_setjmp :: "('s, 'a) prog \<Rightarrow> ('s, 'a) prog" where
  "no_setjmp m s = (case m s of (Throw e, s') \<Rightarrow> (Crash, s') | r \<Rightarrow> r)"

subsection \<open>Raw boot\<close>

definition ksect :: "nat \<Rightarrow> nat" where
  "ksect image_size = (image_size + SECT_SIZE - 1) div SECT_SIZE + BOOT_SECTOR"

fun load_raw_chunks :: "reader \<Rightarrow> nat \<Rightarrow> segment list \<Rightarrow> ('fs, int) gzm" where
  "load_raw_chunks rd base [] = ret_gz 0"
| "load_raw_chunks rd base (c # cs) =
     (let (nread, d) = read_at rd (sint (seg_size c)) (sint (seg_offset c + of_nat base))
      in bind_gz (modify_gz (\<lambda>s. s\<lparr>memory := poke (memory s) (unat (seg_addr c)) d\<rparr>)) (\<lambda>_.
           if nread \<noteq> sint (seg_size c) then ret_gz (- 1) else load_raw_chunks rd base cs))"

definition load_raw :: "'fs gz_env \<Rightarrow> reader \<Rightarrow> nat \<Rightarrow> ('fs, int) gzm" where
  "load_raw env rd image_size =
     no_setjmp (bind_gz (gz_malloc env SECT_SIZE) (\<lambda>_.
       let (nread, buf) = read_at rd (int SECT_SIZE) (int (ksect image_size * SECT_SIZE))
       in if nread \<noteq> int SECT_SIZE then ret_gz (- 1)
          else bind_gz (check_header env buf (int SECT_SIZE)) (\<lambda>ok.
            if \<not> ok then ret_gz (- 1)
            else bind_gz (gets_gz elf) (\<lambda>g.
              load_raw_chunks rd (ksect image_size * SECT_SIZE) (take (nchunks g) (chunks g))))))"

subsection \<open>Uncompressed kernels\<close>

text \<open>The sums are computed in 64-bit words; \<open>unaligned\<close> is the part of the offset inside its block.\<close>

definition unaligned :: "u64 \<Rightarrow> segment \<Rightarrow> u64" where
  "unaligned bs c = seg_offset c AND (bs - 1)"

definition seg_blocks :: "u64 \<Rightarrow> segment \<Rightarrow> u64" where
  "seg_blocks bs c = (seg_size c + unaligned bs c + bs - 1) div bs"

definition load_chunk :: "'fs gz_env \<Rightarrow> segment \<Rightarrow> ('fs, int) gzm" where
  "load_chunk env c =
     (let bs = of_nat (bfs_blocksize env); nblocks = seg_blocks bs c; dest = unat (seg_addr c)
      in bind_gz (read_to_memory env (sint (seg_offset c div bs)) (sint nblocks) dest) (\<lambda>nread.
           if nread \<noteq> sint (nblocks * bs) then ret_gz (- 1)
           else if unaligned bs c \<noteq> 0 then
             bind_gz (modify_gz (\<lambda>s. s\<lparr>memory :=
               memmove dest (dest + unat (unaligned bs c)) (unat (seg_size c)) (memory s)\<rparr>)) (\<lambda>_. ret_gz 0)
           else ret_gz 0))"

fun load_chunks :: "'fs gz_env \<Rightarrow> segment list \<Rightarrow> ('fs, int) gzm" where
  "load_chunks env [] = ret_gz 0"
| "load_chunks env (c # cs) =
     bind_gz (load_chunk env c) (\<lambda>r. if r < 0 then ret_gz r else load_chunks env cs)"

definition load_uncompressed :: "'fs gz_env \<Rightarrow> ('fs, int) gzm" where
  "load_uncompressed env =
     bind_gz (gz_malloc env (bfs_blocksize env)) (\<lambda>_.
     bind_gz (file_bread env 0 1) (\<lambda>(nread, buf).
       if nread \<noteq> int (bfs_blocksize env) then ret_gz (- 1)
       else bind_gz (check_header env buf (int (bfs_blocksize env))) (\<lambda>ok.
         if \<not> ok then ret_gz (- 1)
         else bind_gz (gets_gz elf) (\<lambda>g. load_chunks env (take (nchunks g) (chunks g))))))"

subsection \<open>Choosing the method\<close>

text \<open>
  \<open>raw_in\<close> and \<open>raw_win\<close> are what the buffers of the decompressor contain when they are allocated.
\<close>

record load_env =
  le_fuel :: nat
  le_mach :: machine
  le_raw_in :: bytes
  le_raw_win :: bytes

definition file_env :: "load_env \<Rightarrow> 'fs bootfs \<Rightarrow> nat \<Rightarrow> 'fs \<Rightarrow> 'fs gz_env" where
  "file_env le fs fd st =
     \<lparr>fuel = le_fuel le, mach = le_mach le, bfs_blocksize = blocksize fs st, bfs_bread = bread fs fd\<rparr>"

definition NUM_METHODS :: nat where
  "NUM_METHODS = 2"

definition read_method :: "load_env \<Rightarrow> nat \<Rightarrow> 'fs gz_env \<Rightarrow> ('fs, int) gzm" where
  "read_method le m env =
     (if m = 0 then load_uncompressed env else uncompress_kernel env (le_raw_in le) (le_raw_win le))"

definition ends_in_gz :: "bytes \<Rightarrow> bool" where
  "ends_in_gz filename \<longleftrightarrow>
     length filename > 3 \<and> drop (length filename - 3) filename = map of_char ''.gz''"

text \<open>
  The descriptor is closed after a method that returns, and stays open after one that leaves by
  \<open>longjmp\<close>.
\<close>

primrec read_attempts :: "nat \<Rightarrow> nat \<Rightarrow> load_env \<Rightarrow> 'fs bootfs \<Rightarrow> bytes \<Rightarrow> ('fs, int) gzm" where
  "read_attempts 0 m le fs filename = ret_gz (- 1)"
| "read_attempts (Suc attempts) m le fs filename = (\<lambda>s.
     (case fopen fs filename (fs_st s) of
        None \<Rightarrow> (Crash, s)
      | Some (fd, st) \<Rightarrow>
          if fd < 0 then (Ret (- 1), s\<lparr>fs_st := st\<rparr>)
          else
            let next = read_attempts attempts ((m + 1) mod NUM_METHODS) le fs filename
            in case read_method le m (file_env le fs (nat fd) st) (s\<lparr>fs_st := st\<rparr>) of
                 (Ret res, s1) \<Rightarrow>
                   let s2 = s1\<lparr>fs_st := fclose fs (nat fd) (fs_st s1)\<rparr>
                   in if res \<ge> 0 then (Ret 0, s2) else next s2
               | (Throw e, s1) \<Rightarrow> next s1
               | (Crash, s1) \<Rightarrow> (Crash, s1)
               | (Timeout, s1) \<Rightarrow> (Timeout, s1)
               | (Halt, s1) \<Rightarrow> (Halt, s1)))"

definition read_kernel :: "load_env \<Rightarrow> 'fs bootfs \<Rightarrow> bytes \<Rightarrow> ('fs, int) gzm" where
  "read_kernel le fs filename =
     read_attempts NUM_METHODS (if ends_in_gz filename then 1 else 0) le fs filename"

subsection \<open>The initial ramdisk\<close>

definition PAGE_SIZE :: u64 where
  "PAGE_SIZE = push_bit PAGE_SHIFT 1"

text \<open>The number of blocks is an \<open>int\<close>; the test for a partial block looks at the number of blocks.\<close>

definition initrd_blocks :: "u64 \<Rightarrow> nat \<Rightarrow> u32" where
  "initrd_blocks sz bs =
     (let nblocks = ucast (sz div of_nat bs) :: u32
      in if nblocks AND (of_nat bs - 1) \<noteq> 0 then nblocks + 1 else nblocks)"

text \<open>The result is the return value with \<open>initrd_start\<close> and \<open>initrd_size\<close>, when they were assigned.\<close>

definition read_initrd :: "machine \<Rightarrow> 'fs bootfs \<Rightarrow> bytes \<Rightarrow> ('fs, int \<times> (u64 \<times> u64) option) gzm" where
  "read_initrd mc fs initrd_file s =
     (case fopen fs initrd_file (fs_st s) of
        None \<Rightarrow> (Crash, s)
      | Some (fd, st) \<Rightarrow>
          let s = s\<lparr>fs_st := st\<rparr>
          in if fd < 0 then (Ret (- 1, None), s)
             else case fstat fs (nat fd) st of
               None \<Rightarrow> (Crash, s)
             | Some buf \<Rightarrow>
                 let initrd_size = ucast (st_size buf) :: u64;
                     ptr = (if free_mem_ptr (elf s) = 0 then memory_end (clusters mc) else free_mem_ptr (elf s));
                     initrd_start = (ptr - initrd_size) AND NOT (PAGE_SIZE - 1);
                     s = s\<lparr>elf := (elf s)\<lparr>free_mem_ptr := initrd_start\<rparr>\<rparr>;
                     bs = blocksize fs st; nblocks = initrd_blocks initrd_size bs
                 in case bread fs (nat fd) 0 (sint nblocks) st of
                      None \<Rightarrow> (Crash, s)
                    | Some ((nread, d), st') \<Rightarrow>
                        let s = s\<lparr>memory := poke (memory s) (unat initrd_start) d, fs_st := st'\<rparr>
                        in (Ret (if nread \<noteq> sint (nblocks * of_nat bs) then - 1 else 0,
                                 Some (initrd_start, initrd_size)), s))"

subsection \<open>Blocks of a segment\<close>

text \<open>
  The bytes of the file that the blocks of a segment cover, and the condition under which none of the
  64-bit sums of \<open>load_uncompressed\<close> wraps.
\<close>

definition span_start :: "nat \<Rightarrow> segment \<Rightarrow> nat" where
  "span_start bs c = unat (seg_offset c) div bs"

definition span_blocks :: "nat \<Rightarrow> segment \<Rightarrow> nat" where
  "span_blocks bs c = (unat (seg_size c) + unat (seg_offset c) mod bs + bs - 1) div bs"

definition segment_fits :: "nat \<Rightarrow> bytes \<Rightarrow> segment \<Rightarrow> bool" where
  "segment_fits bs content c \<longleftrightarrow>
     (span_start bs c + span_blocks bs c) * bs \<le> length content
     \<and> unat (seg_offset c) + unat (seg_size c) + 2 * bs < 2 ^ 63"

lemma sint_small:
  assumes "unat (w :: u64) < 2 ^ 63"
  shows "sint w = int (unat w)"
proof -
  have "int (unat w) < int (2 ^ 63)" using assms by (simp only: of_nat_less_iff)
  moreover have "- (2 ^ 63) \<le> int (unat w)" by (rule order_trans [of _ 0]) simp_all
  ultimately show ?thesis using sint_of_int_small [of "int (unat w)"] by simp
qed

lemma span_covers:
  assumes "0 < bs"
  shows "unat (seg_offset c) = span_start bs c * bs + unat (seg_offset c) mod bs"
    and "unat (seg_offset c) mod bs + unat (seg_size c) \<le> span_blocks bs c * bs"
    and "span_blocks bs c * bs \<le> unat (seg_size c) + unat (seg_offset c) mod bs + bs - 1"
proof -
  let ?n = "unat (seg_size c) + unat (seg_offset c) mod bs + bs - 1"
  show "unat (seg_offset c) = span_start bs c * bs + unat (seg_offset c) mod bs"
    by (simp add: span_start_def)
  show "span_blocks bs c * bs \<le> ?n" by (simp add: span_blocks_def)
  have "?n = ?n div bs * bs + ?n mod bs" by simp
  moreover have "?n mod bs < bs" using assms by simp
  ultimately show "unat (seg_offset c) mod bs + unat (seg_size c) \<le> span_blocks bs c * bs"
    unfolding span_blocks_def by linarith
qed

lemma block_words:
  assumes "bs = 2 ^ k" and "k < 32" and "unat (seg_offset c) + unat (seg_size c) + 2 * bs < 2 ^ 63"
  shows "unat (unaligned (of_nat bs) c) = unat (seg_offset c) mod bs"
    and "unat (seg_offset c div of_nat bs) = span_start bs c"
    and "unat (seg_blocks (of_nat bs) c) = span_blocks bs c"
    and "unat (seg_blocks (of_nat bs) c * of_nat bs) = span_blocks bs c * bs"
    and "span_blocks bs c * bs < 2 ^ 63"
proof -
  have "bs < 2 ^ 32" using assms(1,2) power_strict_increasing [of k 32 "2 :: nat"] by simp
  then have bs: "unat (of_nat bs :: u64) = bs" by (simp add: unat_of_nat take_bit_nat_eq_self)
  have "(of_nat bs - 1 :: u64) = mask k" using assms(1) by (simp add: mask_eq_exp_minus_1)
  then show u: "unat (unaligned (of_nat bs) c) = unat (seg_offset c) mod bs"
    by (simp add: unaligned_def unat_and_mask assms(1))
  show "unat (seg_offset c div of_nat bs) = span_start bs c" by (simp add: unat_div_distrib bs span_start_def)
  have pos: "0 < bs" using assms(1) by simp
  have le: "unat (seg_offset c) mod bs < bs" using pos by simp
  let ?a = "seg_size c + unaligned (of_nat bs) c"
  have a: "unat ?a = unat (seg_size c) + unat (seg_offset c) mod bs"
    using assms(3) le by (simp add: unat_plus_if' u)
  have ab: "unat (?a + of_nat bs) = unat (seg_size c) + unat (seg_offset c) mod bs + bs"
    using assms(3) le a bs by (simp add: unat_plus_if')
  then have "unat (?a + of_nat bs - 1) = unat (seg_size c) + unat (seg_offset c) mod bs + bs - 1"
    using pos unat_minus_one [of "?a + of_nat bs"] by (metis add_gr_0 neq0_conv unat_0)
  then show n: "unat (seg_blocks (of_nat bs) c) = span_blocks bs c"
    by (simp add: seg_blocks_def unat_div_distrib bs span_blocks_def)
  show lim: "span_blocks bs c * bs < 2 ^ 63" using span_covers(3) [OF pos, of c] assms(3) le by linarith
  from lim show "unat (seg_blocks (of_nat bs) c * of_nat bs) = span_blocks bs c * bs"
    by (simp add: unat_mult_lem [THEN iffD1] n bs)
qed

subsection \<open>Loading from an open file\<close>

text \<open>
  The part of the state that loading a chunk changes.  Memory below the chunk stays as it was; above
  it, the rest of the last block is overwritten too.
\<close>

definition load_frame :: "'fs gz \<Rightarrow> 'fs gz \<Rightarrow> bool" where
  "load_frame s t \<longleftrightarrow> (\<exists>m f. t = s\<lparr>memory := m, fs_st := f\<rparr>)"

lemma load_frame_refl: "load_frame s s"
  unfolding load_frame_def by (intro exI [of _ "memory s"] exI [of _ "fs_st s"]) simp

lemma load_frame_trans: "load_frame s t \<Longrightarrow> load_frame t u \<Longrightarrow> load_frame s u"
  by (force simp: load_frame_def)

text \<open>Chunks in the order of their addresses, none of them reaching into the next.\<close>

fun chunks_apart :: "segment list \<Rightarrow> bool" where
  "chunks_apart [] = True"
| "chunks_apart (c # cs) \<longleftrightarrow>
     list_all (\<lambda>d. unat (seg_addr c) + unat (seg_size c) \<le> unat (seg_addr d)) cs \<and> chunks_apart cs"

definition chunk_loaded :: "bytes \<Rightarrow> mem \<Rightarrow> segment \<Rightarrow> bool" where
  "chunk_loaded content m c \<longleftrightarrow>
     bytes_at m (unat (seg_addr c)) (unat (seg_size c)) = slice (unat (seg_offset c)) (unat (seg_size c)) content"

lemma bytes_at_poke_part: "u + n \<le> length d \<Longrightarrow> bytes_at (poke m a d) (a + u) n = slice u n d"
  by (rule nth_equalityI) (auto simp: poke_def nth_slice slice_def)

lemma memmove_eq: "memmove dest src n m = poke m dest (bytes_at m src n)"
  by (simp add: memmove_def memcpy_loop_eq memmove_down_eq)

lemma sint_small32:
  assumes "unat (w :: u32) < 2 ^ 31"
  shows "sint w = int (unat w)"
proof -
  have "int (unat w) < int (2 ^ 31)" using assms by (simp only: of_nat_less_iff)
  moreover have "- (2 ^ 31) \<le> uint w" by (rule order_trans [of _ 0]) simp_all
  ultimately show ?thesis by (simp add: sint_uint signed_take_bit_int_eq_self)
qed

definition initrd_count :: "nat \<Rightarrow> nat \<Rightarrow> nat" where
  "initrd_count sz bs = (if bs dvd sz div bs then sz div bs else sz div bs + 1)"

lemma unat_initrd_blocks:
  assumes "bs = 2 ^ k" and "k < 32"
  shows "unat (initrd_blocks (ucast (sz :: u32)) bs) = initrd_count (unat sz) bs"
proof -
  let ?q = "ucast (ucast sz div of_nat bs :: u64) :: u32"
  have "bs < 2 ^ 32" using assms power_strict_increasing [of k 32 "2 :: nat"] by simp
  then have bs: "unat (of_nat bs :: u64) = bs" by (simp add: unat_of_nat take_bit_nat_eq_self)
  have "unat (ucast sz div of_nat bs :: u64) = unat sz div bs"
    by (simp add: unat_div_distrib bs unat_ucast_up)
  moreover have lt: "unat sz div bs < 2 ^ 32" using unsigned_less [of sz, where ?'a = nat] by (simp add: le_less_trans [OF div_le_dividend])
  ultimately have q: "unat ?q = unat sz div bs" by (simp add: unsigned_ucast_eq take_bit_nat_eq_self)
  have m: "(of_nat bs - 1 :: u32) = mask k" using assms(1) by (simp add: mask_eq_exp_minus_1)
  have "?q AND (of_nat bs - 1) = 0 \<longleftrightarrow> unat (?q AND (of_nat bs - 1)) = 0" by (simp only: unat_eq_0)
  also have "\<dots> \<longleftrightarrow> bs dvd unat sz div bs" unfolding m unat_and_mask q by (simp add: assms(1) dvd_eq_mod_eq_0)
  finally have d: "?q AND (of_nat bs - 1) = 0 \<longleftrightarrow> bs dvd unat sz div bs" .
  have "unat (?q + 1) = unat sz div bs + 1" if "\<not> bs dvd unat sz div bs"
  proof -
    have "bs \<noteq> 1" using that by auto
    moreover have "bs \<noteq> 0" using assms(1) by simp
    ultimately have "2 \<le> bs" by simp
    then have "unat sz div bs \<le> unat sz div 2" by (simp add: div_le_mono2)
    then have "unat sz div bs + 1 < 2 ^ 32" using unsigned_less [of sz, where ?'a = nat] by simp
    then show ?thesis using q by (simp add: unat_plus_if')
  qed
  then show ?thesis using d q by (simp add: initrd_blocks_def initrd_count_def Let_def)
qed

context open_file
begin

lemma load_chunk_loads:
  assumes env: "bfs_blocksize env = bs" "bfs_bread env = rdblk" and bs: "bs = 2 ^ k" "k < 32"
    and ok: "ok (fs_st s)" and fits: "segment_fits bs content c"
  shows "\<exists>s'. load_chunk env c s = (Ret 0, s') \<and> load_frame s s' \<and> ok (fs_st s')
           \<and> chunk_loaded content (memory s') c \<and> (\<forall>x < unat (seg_addr c). memory s' x = memory s x)"
proof -
  let ?a = "unat (seg_addr c)" and ?b = "span_start bs c" and ?n = "span_blocks bs c" and ?u = "unat (seg_offset c) mod bs"
  let ?d = "slice (?b * bs) (?n * bs) content" and ?m = "poke (memory s) ?a (slice (?b * bs) (?n * bs) content)"
  have pos: "0 < bs" using bs by simp
  note fits = fits [unfolded segment_fits_def]
  note w = block_words [OF bs fits [THEN conjunct2]] and cov = span_covers [OF pos, of c]
  obtain st' where st': "rdblk (int ?b) (int ?n) (fs_st s) = Some ((int (?n * bs), ?d), st')" "ok st'"
    using read_blocks [OF ok fits [THEN conjunct1]] by blast
  have "?b < 2 ^ 63" "?n < 2 ^ 63"
    using fits pos w(5) by (auto simp: span_start_def intro: le_less_trans [OF div_le_dividend] le_less_trans [of _ "?n * bs"])
  then have si: "sint (seg_offset c div of_nat bs) = int ?b" "sint (seg_blocks (of_nat bs) c) = int ?n"
      "sint (seg_blocks (of_nat bs) c * of_nat bs) = int (?n * bs)"
    using w by (simp_all only: sint_small)
  have len: "length ?d = ?n * bs" using fits by (simp add: length_slice add_mult_distrib)
  have part: "bytes_at ?m (?a + ?u) (unat (seg_size c)) = slice (unat (seg_offset c)) (unat (seg_size c)) content"
    using cov(1,2) by (simp add: bytes_at_poke_part len slice_slice)
  have u: "unaligned (of_nat bs) c \<noteq> 0 \<longleftrightarrow> ?u \<noteq> 0" using w(1) by (metis unat_eq_0)
  let ?m' = "if ?u \<noteq> 0 then poke ?m ?a (bytes_at ?m (?a + ?u) (unat (seg_size c))) else ?m"
  have "load_chunk env c s = (Ret 0, s\<lparr>memory := ?m', fs_st := st'\<rparr>)"
    by (simp add: load_chunk_def Let_def read_to_memory_def file_bread_def bind_gz_def gz_simps env si st'(1) u
        memmove_eq w(1) del: of_nat_mult)
  moreover have "chunk_loaded content ?m' c"
    using part bytes_at_poke [of ?m ?a "bytes_at ?m (?a + ?u) (unat (seg_size c))", simplified length_bytes_at]
    by (cases "?u = 0") (simp_all add: chunk_loaded_def)
  ultimately show ?thesis using st'(2) by (auto simp: load_frame_def poke_outside)
qed

lemma load_chunks_loads:
  assumes "bfs_blocksize env = bs" "bfs_bread env = rdblk" "bs = 2 ^ k" "k < 32"
    and "ok (fs_st s)" and "list_all (segment_fits bs content) cs" and "chunks_apart cs"
  shows "\<exists>s'. load_chunks env cs s = (Ret 0, s') \<and> load_frame s s' \<and> ok (fs_st s')
           \<and> list_all (chunk_loaded content (memory s')) cs
           \<and> (\<forall>x. list_all (\<lambda>c. x < unat (seg_addr c)) cs \<longrightarrow> memory s' x = memory s x)"
  using assms(5-)
proof (induction cs arbitrary: s)
  case Nil
  then show ?case by (simp add: gz_simps load_frame_refl)
next
  case (Cons c cs)
  obtain s1 where s1: "load_chunk env c s = (Ret 0, s1)" "load_frame s s1" "ok (fs_st s1)"
      "chunk_loaded content (memory s1) c" "\<forall>x < unat (seg_addr c). memory s1 x = memory s x"
    using load_chunk_loads [OF assms(1-4) Cons.prems(1)] Cons.prems(2) by auto
  obtain s' where s': "load_chunks env cs s1 = (Ret 0, s')" "load_frame s1 s'" "ok (fs_st s')"
      "list_all (chunk_loaded content (memory s')) cs"
      "\<forall>x. list_all (\<lambda>c. x < unat (seg_addr c)) cs \<longrightarrow> memory s' x = memory s1 x"
    using Cons.IH [OF s1(3)] Cons.prems by auto
  have "bytes_at (memory s') (unat (seg_addr c)) (unat (seg_size c)) = bytes_at (memory s1) (unat (seg_addr c)) (unat (seg_size c))"
  proof (rule bytes_at_cong)
    fix i
    assume "i < unat (seg_size c)"
    then have "list_all (\<lambda>d. unat (seg_addr c) + i < unat (seg_addr d)) cs"
      using Cons.prems(3) by (auto simp: list_all_iff dest: bspec)
    with s'(5) show "memory s' (unat (seg_addr c) + i) = memory s1 (unat (seg_addr c) + i)" by blast
  qed
  then have "chunk_loaded content (memory s') c" using s1(4) by (simp add: chunk_loaded_def)
  with s1 s' show ?case by (auto simp: bind_gz_def intro: load_frame_trans)
qed

text \<open>Loading succeeds whenever the allocation and the header check do.\<close>

lemma load_uncompressed_loads:
  assumes env: "bfs_blocksize env = bs" "bfs_bread env = rdblk" "bs = 2 ^ k" "k < 32"
    and ok: "ok (fs_st s)" and len: "bs \<le> length content"
    and mem: "gz_malloc env bs s = (Ret (), s0)"
    and elf: "is_loadable_elf (mach env) (buf_mem (take bs content)) (int bs) (elf s0) = (Loadable, g)"
    and cs: "cs = take (nchunks g) (chunks g)" "list_all (segment_fits bs content) cs" "chunks_apart cs"
  shows "\<exists>s'. load_uncompressed env s = (Ret 0, s') \<and> elf s' = g \<and> list_all (chunk_loaded content (memory s')) cs
           \<and> ok (fs_st s')"
proof -
  have s0: "fs_st s0 = fs_st s" using mem by (auto simp: gz_malloc_def Let_def unzip_error_def split: option.splits)
  have "(0 + 1) * bs \<le> length content" using len by simp
  from read_blocks [OF ok this] obtain st' where st': "rdblk 0 1 (fs_st s) = Some ((int bs, take bs content), st')" "ok st'"
    by (auto simp: slice_def)
  obtain s' where s': "load_chunks env cs (s0\<lparr>fs_st := st', elf := g\<rparr>) = (Ret 0, s')"
      "load_frame (s0\<lparr>fs_st := st', elf := g\<rparr>) s'" "ok (fs_st s')" "list_all (chunk_loaded content (memory s')) cs"
    using load_chunks_loads [OF env, of "s0\<lparr>fs_st := st', elf := g\<rparr>" cs] st'(2) cs by auto
  have "load_uncompressed env s = (Ret 0, s')"
    using mem s'(1) by (simp add: load_uncompressed_def bind_gz_def file_bread_def env(1,2) s0 st'(1) check_header_def elf
        gz_simps flip: cs(1))
  moreover have "elf s' = g" using s'(2) by (auto simp: load_frame_def)
  ultimately show ?thesis using s' by blast
qed

text \<open>
  The number of blocks that \<open>read_initrd\<close> asks for: a partial last block is counted exactly when the number of
  whole blocks is not a multiple of the block size.
\<close>

lemma read_initrd_loads:
  assumes fopen: "fopen fs name (fs_st s) = Some (int fd, st)" and ok: "ok st" and fstat: "fstat fs fd st = Some buf"
    and bs: "bread fs fd = rdblk" "blocksize fs st = bs" "bs = 2 ^ k" "k < 31"
    and n: "n = initrd_count (unat (st_size buf)) bs" "n * bs \<le> length content" "n * bs < 2 ^ 31"
  shows "\<exists>start s'. read_initrd mc fs name s = (Ret (0, Some (start, ucast (st_size buf))), s')
           \<and> memory s' = poke (memory s) (unat start) (take (n * bs) content)
           \<and> free_mem_ptr (elf s') = start \<and> ok (fs_st s')"
proof -
  let ?sz = "ucast (st_size buf) :: u64"
  have b: "unat (initrd_blocks ?sz bs) = n" using unat_initrd_blocks [OF bs(3), of "st_size buf"] bs(4) n(1) by simp
  have nb: "n < 2 ^ 31" using n(3) bs(3) by (rule_tac le_less_trans [of _ "n * bs"]) auto
  have "bs < 2 ^ 32" using bs(3,4) power_strict_increasing [of k 32 "2 :: nat"] by simp
  then have "unat (initrd_blocks ?sz bs * of_nat bs) = n * bs"
    using n(3) b by (subst unat_mult_lem [THEN iffD1]) (simp_all add: unat_of_nat take_bit_nat_eq_self)
  then have si: "sint (initrd_blocks ?sz bs) = int n" "sint (initrd_blocks ?sz bs * of_nat bs) = int (n * bs)"
    using b nb n(3) by (simp_all add: sint_small32)
  obtain st' where st': "rdblk 0 (int n) st = Some ((int (n * bs), take (n * bs) content), st')" "ok st'"
    using read_blocks [OF ok, of 0 n] n(2) by (auto simp: slice_def)
  show ?thesis
    using st'(2) by (simp add: read_initrd_def fopen fstat bs(1,2) Let_def si st'(1) del: of_nat_mult)
qed

end

subsection \<open>The input of the decompressor\<close>

text \<open>
  The reader is at position \<open>pos\<close> of the file: the buffer holds the bytes from \<open>base\<close> on, and the next
  refill continues where the buffer ends, unless the file ends inside the buffer.
\<close>

definition stream_at :: "bytes \<Rightarrow> nat \<Rightarrow> nat \<Rightarrow> 'fs gz \<Rightarrow> bool" where
  "stream_at content bs pos s \<longleftrightarrow>
     (\<exists>base. pos = base + inptr s \<and> inptr s \<le> insize s
        \<and> (\<forall>i < insize s. base + i < length content \<longrightarrow> inbuf s ! i = content ! (base + i))
        \<and> (if block_number s < 0 then length content \<le> base + insize s
            else block_number s * int bs = int (base + insize s)))"

context open_file_end
begin

lemma get_byte_streams:
  assumes env: "bfs_blocksize env = bs" "bfs_bread env = rdblk" and dvd: "bs dvd INBUFSIZ"
    and ok: "ok (fs_st s)" and at: "stream_at content bs pos s" and pos: "pos < length content"
  shows "\<exists>s'. get_byte env s = (Ret (content ! pos), s') \<and> ok (fs_st s') \<and> stream_at content bs (pos + 1) s'"
proof -
  obtain base where b: "pos = base + inptr s" "inptr s \<le> insize s"
      "\<forall>i < insize s. base + i < length content \<longrightarrow> inbuf s ! i = content ! (base + i)"
      "if block_number s < 0 then length content \<le> base + insize s else block_number s * int bs = int (base + insize s)"
    using at by (auto simp: stream_at_def)
  show ?thesis
  proof (cases "inptr s < insize s")
    case True
    then have "get_byte env s = (Ret (content ! pos), s\<lparr>inptr := inptr s + 1\<rparr>)"
      using b(1,3) pos by (simp add: get_byte_def)
    moreover have "stream_at content bs (pos + 1) (s\<lparr>inptr := inptr s + 1\<rparr>)"
      using b True by (auto simp: stream_at_def intro: exI [of _ base])
    ultimately show ?thesis using ok by auto
  next
    case False
    let ?b = "nat (block_number s)" and ?n = "INBUFSIZ div bs"
    have nn: "\<not> block_number s < 0" using b(1,2,4) False pos by auto
    have "int (?b * bs) = int pos" using b False nn by simp
    then have bpos: "?b * bs = pos" by (simp only: of_nat_eq_iff)
    have bs0: "0 < bs" by (rule bs_pos [OF ok])
    have full: "?n * bs = INBUFSIZ" using dvd by simp
    have "0 < INBUFSIZ" by (simp add: INBUFSIZ_def)
    let ?k = "min INBUFSIZ (length content - pos)"
    obtain st' where st': "rdblk (int ?b) (int ?n) (fs_st s) = Some ((int ?k, slice pos ?k content), st')" "ok st'"
    proof (cases "(?b + ?n) * bs \<le> length content")
      case True
      then have "?k = ?n * bs" by (simp add: add_mult_distrib bpos full)
      with that show ?thesis using read_blocks [OF ok True] unfolding bpos by auto
    next
      case ge: False
      then have "?k = length content - pos" by (simp add: add_mult_distrib bpos full)
      with that show ?thesis using read_end [OF ok, of ?b ?n] ge pos unfolding bpos by (auto simp: slice_def)
    qed
    let ?d = "slice pos ?k content" and ?buf = "slice pos ?k content @ drop (length (slice pos ?k content)) (inbuf s)"
    have len: "length ?d = ?k" using pos by (simp add: length_slice)
    have k0: "0 < ?k" using pos \<open>0 < INBUFSIZ\<close> by simp
    have nth: "?buf ! i = content ! (pos + i)" if "i < ?k" for i
      using that len nth_slice [of i ?k pos content] by (simp add: nth_append less_diff_conv add.commute)
    let ?s = "s\<lparr>inbuf := ?buf, fs_st := st', insize := INBUFSIZ, inptr := 1,
        block_number := (if ?k < INBUFSIZ then - 1 else block_number s + int ?n)\<rparr>"
    have "get_byte env s = (Ret (?buf ! 0), ?s)"
      using False nn st'(1) dvd full by (auto simp: get_byte_def fill_inbuf_def env Let_def simp flip: of_nat_mult)
    moreover have "stream_at content bs (pos + 1) ?s"
    proof -
      have "(block_number s + int ?n) * int bs = int (pos + INBUFSIZ)"
        using b False nn full by (simp add: distrib_right flip: of_nat_mult)
      then show ?thesis
        using nth \<open>0 < INBUFSIZ\<close> nn by (auto simp: stream_at_def intro!: exI [of _ pos])
    qed
    ultimately show ?thesis using nth [OF k0] st'(2) by auto
  qed
qed

lemma get_bytes_stream:
  assumes env: "bfs_blocksize env = bs" "bfs_bread env = rdblk" "bs dvd INBUFSIZ"
    and "ok (fs_st s)" and "stream_at content bs pos s" and "pos + n \<le> length content"
  shows "\<exists>s'. get_bytes n env s = (Ret (slice pos n content), s') \<and> ok (fs_st s') \<and> stream_at content bs (pos + n) s'"
  using assms(4-)
proof (induction n arbitrary: pos s)
  case (Suc n)
  then obtain s1 where s1: "get_byte env s = (Ret (content ! pos), s1)" "ok (fs_st s1)" "stream_at content bs (pos + 1) s1"
    using get_byte_streams [OF env, of s pos] by auto
  obtain s' where s': "get_bytes n env s1 = (Ret (slice (pos + 1) n content), s')" "ok (fs_st s')"
      "stream_at content bs (pos + 1 + n) s'"
    using Suc.IH [OF s1(2,3)] Suc.prems(3) by auto
  have "slice pos (Suc n) content = content ! pos # slice (pos + 1) n content"
    using Suc.prems(3) by (simp add: slice_def Cons_nth_drop_Suc [symmetric])
  with s1(1) s' show ?case by (simp add: bind_gz_def gz_simps)
qed (simp add: gz_simps)

end

lemma stream_at_start: "stream_at content bs 0 (clear_bufs s)"
  by (simp add: stream_at_def clear_bufs_def)

lemmas ext2_boot_file = ext2_boot_file_end [THEN open_file_end.axioms(1)]

subsection \<open>Properties\<close>


definition kernel_disk :: bytes where
  "kernel_disk = replicate 3072 0 @ example_elf @ [1, 2, 3, 4] @ replicate 900 0"

definition kernel_inode :: bytes where
  "kernel_inode = replicate 4 0 @ [124, 0, 0, 0] @ replicate 32 0 @ [3, 0, 0, 0] @ replicate 84 0"

definition kernel_fs :: fs_state where
  "kernel_fs = \<lparr>ext2 = example_ext2\<lparr>inode_table := [example_slot\<lparr>slot_inode := kernel_inode\<rparr>]\<rparr>, ufs = ufs_example, iso = iso_example, aboot_size = 0\<rparr>"

definition kernel_gz :: "fs_state gz" where
  "kernel_gz =
     \<lparr>inbuf = [], insize = 0, inptr = 0, window = [], outcnt = 0, bytes_out = 0, gz_method = 8,
      block_number = 0, chunk = 0, file_offset = 0, crc = 0, bb = 0, bk = 0, hufts = 0, tables = [],
      pkzip = False, extended = False, elf = example_globals, memory = (\<lambda>_. 0), fs_st = kernel_fs\<rparr>"

definition example_le :: load_env where
  "example_le = \<lparr>le_fuel = 10, le_mach = example_machine, le_raw_in = [], le_raw_win = []\<rparr>"

definition kernel_block :: bytes where
  "kernel_block = example_elf @ [1, 2, 3, 4] @ replicate 900 0"

lemma kernel_fields:
  "i_flags kernel_inode = 0" "i_size kernel_inode = 124" "i_block kernel_inode 0 = 3"
  "length kernel_disk = 4096" "length kernel_block = 1024" "slice 3072 1024 kernel_disk = kernel_block"
  by (simp_all add: kernel_inode_def i_flags_def i_size_def i_block_def le32_at_def slice_def kernel_disk_def kernel_block_def example_length)

lemma one_block_opened:
  assumes "length blk = 1024"
  shows "ext2_file (replicate 3072 0 @ blk) 0 1024 blk kernel_fs"
proof -
  let ?e = "ext2 kernel_fs" and ?img = "replicate 3072 0 @ blk"
  have fb: "file_block ?img ?e kernel_inode 0 = 3"
    by (simp add: file_block_def kernel_fs_def example_ext2_def kernel_fields(1-3))
  have "data_ok ?img ?e kernel_inode 0"
    using assms by (simp add: data_ok_def map_ok_def Let_def fb block_in_def) (simp add: kernel_fs_def example_ext2_def)
  moreover have "slice 3072 1024 ?img = blk" using assms by (simp add: slice_def)
  then have "file_data ?img ?e kernel_inode 0 = blk"
    by (simp add: file_data_def fb block_at_def) (simp add: kernel_fs_def example_ext2_def)
  moreover have "slot_inode (inode_table ?e ! 0) = kernel_inode" "e2_blocksize ?e = 1024" "geometry_ok ?e"
      "cache_ok ?img ?e" "inode_table ?e \<noteq> []"
    by (simp_all add: kernel_fs_def example_ext2_def example_slot_def geometry_ok_def cache_ok_def)
  ultimately show ?thesis by (simp add: ext2_file_def ext2_content_def kernel_fields(1,2))
qed

lemma kernel_opened: "ext2_file kernel_disk 0 1024 kernel_block kernel_fs"
  using one_block_opened [of kernel_block] kernel_fields(5) by (simp add: kernel_disk_def kernel_block_def)

lemma kernel_malloc:
  assumes "elf s = example_globals"
  shows "gz_malloc (file_env example_le fs fd st) 1024 s
     = (Ret (), s\<lparr>elf := example_globals\<lparr>free_mem_ptr := malloc_ptr (clusters example_machine) 0 (of_nat 1024)\<rparr>\<rparr>)"
  by (simp add: assms gz_malloc_def file_env_def example_le_def example_machine_def example_globals_def malloc_def malloc_ptr_def
      memory_end_def page_offset_def PAGE_SHIFT_def Let_def)

lemma kernel_accepted:
  obtains g where "is_loadable_elf (le_mach example_le) (buf_mem (take 1024 kernel_block)) (int 1024)
      (example_globals\<lparr>free_mem_ptr := malloc_ptr (clusters example_machine) 0 (of_nat 1024)\<rparr>) = (Loadable, g)"
    "chunks g = [example_segment]" "nchunks g = 1"
proof -
  let ?g0 = "example_globals\<lparr>free_mem_ptr := malloc_ptr (clusters example_machine) 0 (of_nat 1024)\<rparr>"
  let ?b = "buf_mem (take 1024 kernel_block)"
  have "?b i = example_elf ! i" if "i < 120" for i
    using that by (simp add: buf_mem_def kernel_block_def nth_append example_length)
  then have h: "holds_example ?b"
    unfolding holds_example_def by (intro nth_equalityI) (simp_all add: example_length)
  obtain ptr where "elf_malloc example_machine ?b ?g0 = Some ptr"
    by (simp add: elf_malloc_def example_machine_def example_globals_def example_fields [OF h] malloc_def malloc_ptr_def
        memory_end_def page_offset_def PAGE_SHIFT_def Let_def)
  then obtain g where g: "is_loadable_elf example_machine ?b (int 1024) ?g0 = (Loadable, g)"
      "chunks g = [example_segment]" "nchunks g = 1"
    using example_loadable_if [OF h, of "int 1024" ?g0 ptr] by (auto simp: example_globals_def)
  show ?thesis by (rule that [of g]) (unfold g(1) [symmetric], simp_all add: example_le_def g(2,3))
qed

lemma kernel_loaded: "chunk_loaded kernel_block m example_segment \<Longrightarrow> bytes_at m 0xfffffc0000310000 4 = [1, 2, 3, 4]"
  by (simp add: chunk_loaded_def example_segment_def kernel_block_def slice_def example_length)

lemma kernel_segment_fits: "segment_fits 1024 kernel_block example_segment"
  by (simp add: segment_fits_def span_start_def span_blocks_def example_segment_def kernel_fields)


text \<open>
  An uncompressed kernel on an ISO 9660 disc is loaded completely as well: the loader reads it in blocks of 1024 bytes, of which the last may hold bytes behind the end of the file.
\<close>

theorem load_uncompressed_iso:
  assumes "sector_device img rd" and "SECT_SIZE dvd length img"
    and "readable img (sb (iso (fs_st s))) (iso_table (iso (fs_st s)) ! fd)" and "content = iso_content img (iso_table (iso (fs_st s)) ! fd)"
    and "env = file_env le (isofs (cons_read rd) f raw heap) fd (fs_st s)"
    and "gz_malloc env 1024 s = (Ret (), s0)"
    and "is_loadable_elf (le_mach le) (buf_mem (take 1024 content)) 1024 (elf s0) = (Loadable, g)"
    and "cs = take (nchunks g) (chunks g)" and "list_all (segment_fits 1024 content) cs" and "chunks_apart cs"
  shows "\<exists>s'. load_uncompressed env s = (Ret 0, s') \<and> elf s' = g
           \<and> list_all (chunk_loaded content (memory s')) cs"
proof -
  have bs: "blocksize (isofs (cons_read rd) f raw heap) (fs_st s) = 1024" by (simp add: isofs_def)
  have len: "1024 \<le> length content" using length_iso_content [OF assms(3)] assms(4) by (simp add: file_blocks_def)
  have op: "iso_opened img fd content (fs_st s)" using assms(3,4) by (simp add: iso_opened_def)
  note boot = iso_boot_file_end [OF cons_block_device [OF assms(1,2)], THEN open_file_end.axioms(1), of f raw heap fd content]
  have "\<exists>s'. load_uncompressed env s = (Ret 0, s') \<and> elf s' = g \<and> list_all (chunk_loaded content (memory s')) cs
      \<and> iso_opened img fd content (fs_st s')"
    by (rule open_file.load_uncompressed_loads [OF boot _ _ _ _ op len assms(6) _ assms(8-10), where k = 10])
      (use assms(7) in \<open>simp_all add: assms(5) file_env_def bs\<close>)
  then show ?thesis by blast
qed

definition kernel_cd :: fs_state where
  "kernel_cd = kernel_fs\<lparr>iso := iso_example\<lparr>iso_table := [(iso_table iso_example ! 0)\<lparr>i_first_extent := 3072, iso_size := 124\<rparr>]\<rparr>\<rparr>"

theorem load_uncompressed_iso_witness:
  "\<exists>s'. load_uncompressed (file_env example_le (isofs (cons_read (image_read kernel_disk)) 0 (\<lambda>_. []) (\<lambda>_. 0)) 0 kernel_cd) (kernel_gz\<lparr>fs_st := kernel_cd\<rparr>)
          = (Ret 0, s') \<and> bytes_at (memory s') 0xfffffc0000310000 4 = [1, 2, 3, 4]"
proof -
  let ?env = "file_env example_le (isofs (cons_read (image_read kernel_disk)) 0 (\<lambda>_. []) (\<lambda>_. 0)) 0 kernel_cd"
  let ?s = "kernel_gz\<lparr>fs_st := kernel_cd\<rparr>"
  obtain g where g: "is_loadable_elf (le_mach example_le) (buf_mem (take 1024 kernel_block)) (int 1024)
      (example_globals\<lparr>free_mem_ptr := malloc_ptr (clusters example_machine) 0 (of_nat 1024)\<rparr>) = (Loadable, g)"
    "chunks g = [example_segment]" "nchunks g = 1" by (rule kernel_accepted)
  have e: "elf ?s = example_globals" "fs_st ?s = kernel_cd" by (simp_all add: kernel_gz_def)
  have r: "readable kernel_disk (sb (iso kernel_cd)) (iso_table (iso kernel_cd) ! 0)" "iso_content kernel_disk (iso_table (iso kernel_cd) ! 0) = kernel_block"
    by (simp_all add: kernel_cd_def iso_example_def readable_def iso_content_def first_block_def file_blocks_def kernel_fields)
  have "\<exists>s'. load_uncompressed ?env ?s = (Ret 0, s') \<and> elf s' = g
      \<and> list_all (chunk_loaded kernel_block (memory s')) [example_segment]"
    by (rule load_uncompressed_iso [OF sector_device_image_read _ _ _ _ kernel_malloc [OF e(1)], where img = kernel_disk and fd = 0
          and f = 0 and raw = "\<lambda>_. []" and heap = "\<lambda>_. 0"])
      (use kernel_segment_fits g r in \<open>simp_all add: kernel_fields SECT_SIZE_def e\<close>)
  then show ?thesis using kernel_loaded by auto
qed

lemma read_initrd_ext2_lemma:
  assumes "sector_device img rd" and "SECT_SIZE dvd length img"
    and "fopen (ext2fs (cons_read rd) f raw) name (fs_st s) = Some (int fd, st)"
    and "ext2_file img fd bs content st" and "fd < MAX_OPEN_FILES" and "bs = 2 ^ k" and "k < 31"
    and "sz = unat (i_size (slot_inode (inode_table (ext2 st) ! fd)))"
    and "n = initrd_count sz bs" and "n * bs < 2 ^ 31"
  shows "\<exists>start s'. read_initrd mc (ext2fs (cons_read rd) f raw) name s = (Ret (0, Some (start, of_nat sz)), s')
           \<and> memory s' = poke (memory s) (unat start) (take (n * bs) content) \<and> n * bs \<le> length content"
proof -
  let ?fs = "ext2fs (cons_read rd) f raw"
  have bs: "blocksize ?fs st = bs" using assms(4) by (simp add: ext2fs_def ext2_file_def Let_def)
  obtain buf where buf: "fstat ?fs fd st = Some buf" "unat (st_size buf) = sz" "ucast (st_size buf) = (of_nat sz :: u64)"
    using assms(5,8) by (simp add: ext2fs_def ext2_fstat_def Let_def)
  have "n \<le> sz div bs + 1" by (simp add: assms(9) initrd_count_def)
  then have len: "n * bs \<le> length content" unfolding ext2_file_content [OF assms(4)] assms(8) by (rule mult_le_mono1)
  have "\<exists>start s'. read_initrd mc ?fs name s = (Ret (0, Some (start, ucast (st_size buf))), s')
      \<and> memory s' = poke (memory s) (unat start) (take (n * bs) content)
      \<and> free_mem_ptr (elf s') = start \<and> ext2_file img fd bs content (fs_st s')"
    by (rule open_file.read_initrd_loads [OF ext2_boot_file [OF cons_block_device [OF assms(1,2)]] assms(3,4) buf(1) refl bs
          assms(6,7) _ len assms(10)])
      (simp add: assms(9) buf(2))
  with len show ?thesis by (auto simp: buf(3))
qed

text \<open>
  \<open>read_initrd\<close> places the file at the page-aligned address it reports, reading \<open>initrd_count\<close> whole blocks:
  the memory from \<open>initrd_start\<close> on holds the first blocks of the file, and the size handed to the kernel is
  the size of the file.
\<close>

theorem read_initrd_ext2:
  assumes "sector_device img rd" and "SECT_SIZE dvd length img"
    and "fopen (ext2fs (cons_read rd) f raw) name (fs_st s) = Some (int fd, st)"
    and "ext2_file img fd bs content st" and "fd < MAX_OPEN_FILES" and "bs = 2 ^ k" and "k < 31"
    and "sz = unat (i_size (slot_inode (inode_table (ext2 st) ! fd)))"
    and "n = initrd_count sz bs" and "n * bs < 2 ^ 31"
  shows "\<exists>start s'. read_initrd mc (ext2fs (cons_read rd) f raw) name s = (Ret (0, Some (start, of_nat sz)), s')
           \<and> bytes_at (memory s') (unat start) (n * bs) = take (n * bs) content"
proof -
  obtain start s' where s': "read_initrd mc (ext2fs (cons_read rd) f raw) name s = (Ret (0, Some (start, of_nat sz)), s')"
      "memory s' = poke (memory s) (unat start) (take (n * bs) content)" "n * bs \<le> length content"
    using read_initrd_ext2_lemma [OF assms] by blast
  then have "bytes_at (memory s') (unat start) (n * bs) = take (n * bs) content"
    using bytes_at_poke [of "memory s" "unat start" "take (n * bs) content"] by (simp add: min_absorb2)
  with s'(1) show ?thesis by blast
qed

text \<open>
  An initial ramdisk that is smaller than a block is not loaded at all: \<open>read_initrd\<close> reports success and
  hands the size to the kernel, but does not write to memory.  The test for a partial block looks at the
  number of blocks instead of the size.
\<close>

theorem read_initrd_truncated:
  assumes "sector_device img rd" and "SECT_SIZE dvd length img"
    and "fopen (ext2fs (cons_read rd) f raw) name (fs_st s) = Some (int fd, st)"
    and "ext2_file img fd bs content st" and "fd < MAX_OPEN_FILES" and "bs = 2 ^ k" and "k < 31"
    and "sz = unat (i_size (slot_inode (inode_table (ext2 st) ! fd)))" and "sz < bs"
  shows "\<exists>start s'. read_initrd mc (ext2fs (cons_read rd) f raw) name s = (Ret (0, Some (start, of_nat sz)), s')
           \<and> memory s' = memory s"
  using read_initrd_ext2_lemma [OF assms(1-8), of 0] assms(9) by (simp add: initrd_count_def)

lemma kernel_root:
  "root_inode (ext2 kernel_fs) = Some 0" "slot_inode (inode_table (ext2 kernel_fs) ! 0) = kernel_inode"
  "\<not> S_ISLNK (i_mode kernel_inode)"
  by (simp_all add: kernel_fs_def example_ext2_def example_slot_def S_ISLNK_def i_mode_def kernel_inode_def le16_at_def slice_def)

lemma open_root:
  assumes "root_inode (ext2 st) = Some r" and "\<not> S_ISLNK (i_mode (slot_inode (inode_table (ext2 st) ! r)))"
  shows "fopen (ext2fs rd (Suc n) raw) [47] st = Some (int r, st)"
proof -
  have "tokens {47 :: u8} [47] = []" by (simp add: tokens.simps)
  then show ?thesis
    using assms by (simp add: ext2fs_def in_ext2_def ext2_open_def ext2_namei_def get_root_def)
qed

theorem read_initrd_truncated_witness:
  "\<exists>start s'. read_initrd example_machine (ext2fs (cons_read (image_read kernel_disk)) 1 ([], [], [])) [47] kernel_gz
       = (Ret (0, Some (start, of_nat 124)), s') \<and> memory s' = memory kernel_gz"
proof -
  have "fs_st kernel_gz = kernel_fs" by (simp add: kernel_gz_def)
  then show ?thesis
    by (intro read_initrd_truncated [OF sector_device_image_read _ _ kernel_opened, where k = 10])
      (simp_all add: open_root [where r = 0] kernel_root kernel_fields SECT_SIZE_def MAX_OPEN_FILES_def)
qed

text \<open>A ramdisk of one and a half blocks whose second block is a hole.\<close>

definition ramdisk_inode :: bytes where
  "ramdisk_inode = replicate 4 0 @ [0xdc, 5, 0, 0] @ replicate 32 0 @ [3, 0, 0, 0] @ replicate 84 0"

definition ramdisk_fs :: fs_state where
  "ramdisk_fs = \<lparr>ext2 = example_ext2\<lparr>inode_table := [example_slot\<lparr>slot_inode := ramdisk_inode\<rparr>]\<rparr>, ufs = ufs_example, iso = iso_example, aboot_size = 0\<rparr>"

lemma ramdisk_fields:
  "i_flags ramdisk_inode = 0" "i_size ramdisk_inode = 1500" "i_block ramdisk_inode 0 = 3" "i_block ramdisk_inode (Suc 0) = 0"
  "root_inode (ext2 ramdisk_fs) = Some 0" "slot_inode (inode_table (ext2 ramdisk_fs) ! 0) = ramdisk_inode"
  "\<not> S_ISLNK (i_mode ramdisk_inode)"
  by (simp_all add: ramdisk_inode_def i_flags_def i_size_def i_block_def le32_at_def slice_def ramdisk_fs_def example_ext2_def
      example_slot_def S_ISLNK_def i_mode_def le16_at_def)

lemma ramdisk_opened: "ext2_file kernel_disk 0 1024 (kernel_block @ replicate 1024 0) ramdisk_fs"
proof -
  let ?e = "ext2 ramdisk_fs"
  have fb: "file_block kernel_disk ?e ramdisk_inode 0 = 3" "file_block kernel_disk ?e ramdisk_inode (Suc 0) = 0"
    by (simp_all add: file_block_def ramdisk_fs_def example_ext2_def ramdisk_fields(1-4))
  have "data_ok kernel_disk ?e ramdisk_inode 0" "data_ok kernel_disk ?e ramdisk_inode (Suc 0)"
    by (simp_all add: data_ok_def map_ok_def Let_def fb block_in_def kernel_fields) (simp_all add: ramdisk_fs_def example_ext2_def)
  moreover have "file_data kernel_disk ?e ramdisk_inode 0 = kernel_block"
      "file_data kernel_disk ?e ramdisk_inode (Suc 0) = replicate 1024 0"
    using kernel_fields(6) by (simp_all add: file_data_def fb block_at_def) (simp_all add: ramdisk_fs_def example_ext2_def)
  moreover have "e2_blocksize ?e = 1024" "geometry_ok ?e" "cache_ok kernel_disk ?e" "inode_table ?e \<noteq> []"
    by (simp_all add: ramdisk_fs_def example_ext2_def geometry_ok_def cache_ok_def)
  ultimately show ?thesis
    by (simp add: ext2_file_def ext2_content_def ramdisk_fields All_less_Suc)
qed

theorem read_initrd_ext2_witness:
  "\<exists>start s'. read_initrd example_machine (ext2fs (cons_read (image_read kernel_disk)) 1 ([], [], [])) [47]
         (kernel_gz\<lparr>fs_st := ramdisk_fs\<rparr>) = (Ret (0, Some (start, of_nat 1500)), s')
     \<and> bytes_at (memory s') (unat start) 2048 = kernel_block @ replicate 1024 0"
proof -
  have n: "initrd_count 1500 1024 = 2" by (simp add: initrd_count_def)
  have "\<exists>start s'. read_initrd example_machine (ext2fs (cons_read (image_read kernel_disk)) 1 ([], [], [])) [47]
         (kernel_gz\<lparr>fs_st := ramdisk_fs\<rparr>) = (Ret (0, Some (start, of_nat 1500)), s')
     \<and> bytes_at (memory s') (unat start) (2 * 1024) = take (2 * 1024) (kernel_block @ replicate 1024 0)"
    by (intro read_initrd_ext2 [OF sector_device_image_read _ _ ramdisk_opened, where k = 10])
      (simp_all add: open_root [where r = 0] n ramdisk_fields kernel_fields SECT_SIZE_def MAX_OPEN_FILES_def)
  then show ?thesis by (simp add: kernel_fields)
qed

text \<open>
  The decompressor's input is the file: after \<open>clear_bufs\<close>, reading \<open>n\<close> bytes with \<open>get_byte\<close> from an ext2
  file yields its first \<open>n\<close> bytes, across refills of the input buffer and whatever block size divides it.
\<close>

theorem gz_input_ext2:
  assumes "sector_device img rd" and "SECT_SIZE dvd length img"
    and "ext2_file img fd bs content (fs_st s)" and "bs dvd INBUFSIZ" and "n \<le> length content"
    and "env = file_env le (ext2fs (cons_read rd) f raw) fd (fs_st s)"
  shows "\<exists>s'. get_bytes n env (clear_bufs s) = (Ret (take n content), s')"
proof -
  have env: "bfs_blocksize env = bs" "bfs_bread env = bread (ext2fs (cons_read rd) f raw) fd"
    using assms(3) by (simp_all add: assms(6) file_env_def ext2fs_def ext2_file_def Let_def)
  have "ext2_file img fd bs content (fs_st (clear_bufs s))" using assms(3) by (simp add: clear_bufs_def)
  from open_file_end.get_bytes_stream [OF ext2_boot_file_end [OF cons_block_device [OF assms(1,2)]] env assms(4) this stream_at_start]
  show ?thesis using assms(5) by (auto simp: slice_def)
qed

theorem gz_input_ext2_witness:
  "\<exists>s'. get_bytes 124 (file_env example_le (ext2fs (cons_read (image_read kernel_disk)) 0 ([], [], [])) 0 kernel_fs)
          (clear_bufs kernel_gz) = (Ret (example_elf @ [1, 2, 3, 4]), s')"
proof -
  have "fs_st kernel_gz = kernel_fs" by (simp add: kernel_gz_def)
  then have "\<exists>s'. get_bytes 124 (file_env example_le (ext2fs (cons_read (image_read kernel_disk)) 0 ([], [], [])) 0 kernel_fs)
          (clear_bufs kernel_gz) = (Ret (take 124 kernel_block), s')"
    by (intro gz_input_ext2 [OF sector_device_image_read, where bs = 1024])
      (simp_all add: kernel_opened kernel_fields SECT_SIZE_def INBUFSIZ_def)
  then show ?thesis by (simp add: kernel_block_def example_length)
qed

end
