(* ===== verification/Config.thy ===== *)
theory Config
  imports Loader
begin

text \<open>
  Directory listing and the configuration file (\<^verbatim>\<open>list_directory\<close>, \<^verbatim>\<open>open_config_file\<close>,
  \<^verbatim>\<open>print_config_file\<close> and \<^verbatim>\<open>get_default_args\<close> of \<^verbatim>\<open>src/disk.c\<close>).

  The file system is an entry of the table, as in the code.  What the two listing functions print is their
  result.  \<open>get_default_args\<close> is the state machine of the code, run over the blocks of the file; the
  properties relate it to the entries of the file as a list of lines.  None of these functions runs under
  a \<open>_setjmp\<close> of its own.
\<close>

subsection \<open>Listing a directory\<close>

text \<open>The names that are printed; \<^const>\<open>None\<close> when the directory is not found.\<close>

primrec readdir_loop :: "nat \<Rightarrow> 'fs bootfs \<Rightarrow> nat \<Rightarrow> bool \<Rightarrow> bytes list \<Rightarrow> ('fs, bytes list) gzm" where
  "readdir_loop 0 fs fd rewind ents = (\<lambda>s. (Timeout, s))"
| "readdir_loop (Suc n) fs fd rewind ents = (\<lambda>s.
     (case readdir fs fd rewind (fs_st s) of
        None \<Rightarrow> (Crash, s)
      | Some (None, st) \<Rightarrow> (Ret ents, s\<lparr>fs_st := st\<rparr>)
      | Some (Some ent, st) \<Rightarrow> readdir_loop n fs fd False (ents @ [ent]) (s\<lparr>fs_st := st\<rparr>)))"

definition file_open :: "'fs bootfs \<Rightarrow> bytes \<Rightarrow> ('fs, int) gzm" where
  "file_open fs name s =
     (case fopen fs name (fs_st s) of
        None \<Rightarrow> (Crash, s)
      | Some (fd, st) \<Rightarrow> (Ret fd, s\<lparr>fs_st := st\<rparr>))"

definition file_close :: "'fs bootfs \<Rightarrow> nat \<Rightarrow> ('fs, unit) gzm" where
  "file_close fs fd = modify_gz (\<lambda>s. s\<lparr>fs_st := fclose fs fd (fs_st s)\<rparr>)"

definition list_directory :: "nat \<Rightarrow> 'fs bootfs \<Rightarrow> bytes \<Rightarrow> ('fs, bytes list option) gzm" where
  "list_directory f fs dir =
     bind_gz (file_open fs dir) (\<lambda>fd.
       if fd < 0 then ret_gz None
       else bind_gz (readdir_loop f fs (nat fd) True []) (\<lambda>ents.
            bind_gz (file_close fs (nat fd)) (\<lambda>_. ret_gz (Some ents))))"

subsection \<open>Finding the configuration file\<close>

definition str :: "string \<Rightarrow> bytes" where
  "str s = map of_char s"

definition configs :: "bytes list" where
  "configs = [str ''/etc/aboot.conf'', str ''/aboot.conf'', str ''/etc/aboot.cfg'', str ''/aboot.cfg'']"

fun open_first :: "'fs bootfs \<Rightarrow> int \<Rightarrow> bytes list \<Rightarrow> ('fs, int) gzm" where
  "open_first fs fd [] = ret_gz fd"
| "open_first fs fd (c # cs) = bind_gz (file_open fs c) (\<lambda>fd. if fd \<ge> 0 then ret_gz fd else open_first fs fd cs)"

definition open_config_file :: "'fs bootfs \<Rightarrow> ('fs, int) gzm" where
  "open_config_file fs = open_first fs (- 1) configs"

text \<open>
  The texts handed to \<open>printf("%s", buf)\<close>, one per block: a block up to its first NUL.  A block that does not
  fit the buffer of \<open>printf\<close> after expansion overruns it, and a failed read stores the NUL in front of
  the buffer.
\<close>

primrec print_blocks :: "nat \<Rightarrow> 'fs bootfs \<Rightarrow> nat \<Rightarrow> nat \<Rightarrow> bytes list \<Rightarrow> ('fs, bytes list) gzm" where
  "print_blocks 0 fs fd blkno out = (\<lambda>s. (Timeout, s))"
| "print_blocks (Suc n) fs fd blkno out = (\<lambda>s.
     (case bread fs fd (int blkno) 1 (fs_st s) of
        None \<Rightarrow> (Crash, s)
      | Some ((nread, d), st) \<Rightarrow>
          let s = s\<lparr>fs_st := st\<rparr>; t = takeWhile (\<lambda>c. c \<noteq> 0) (take (nat nread) d)
          in if nread < 0 then (Crash, s)
             else if length t + length (filter (\<lambda>c. c = 10) t) \<ge> printf_bufsize then (Crash, s)
             else if nread > 0 then print_blocks n fs fd (blkno + 1) (out @ [t]) s
             else (Ret (out @ [t]), s)))"

definition print_config_file :: "'fs gz_env \<Rightarrow> nat \<Rightarrow> 'fs bootfs \<Rightarrow> ('fs, bytes list option) gzm" where
  "print_config_file env f fs =
     bind_gz (open_config_file fs) (\<lambda>fd.
       if fd < 0 then ret_gz None
       else bind_gz (no_setjmp (gz_malloc env (bfs_blocksize env + 1))) (\<lambda>_.
            bind_gz (print_blocks f fs (nat fd) 0 []) (\<lambda>out.
            bind_gz (file_close fs (nat fd)) (\<lambda>_. ret_gz (Some out)))))"

subsection \<open>Reading an entry\<close>

text \<open>
  The variables of \<open>get_default_args\<close>: \<open>state\<close>, \<open>line\<close>, the position \<open>d\<close> in the caller's buffer and the buffer.
  Writing behind the buffer has no defined result.
\<close>

record conf =
  conf_state :: nat
  conf_line :: nat
  conf_d :: nat
  conf_str :: bytes

definition conf_put :: "u8 \<Rightarrow> conf \<Rightarrow> conf option" where
  "conf_put c cf =
     (if conf_d cf < length (conf_str cf) then Some (cf\<lparr>conf_str := (conf_str cf)[conf_d cf := c]\<rparr>) else None)"

definition conf_char :: "u8 \<Rightarrow> u8 \<Rightarrow> conf \<Rightarrow> conf option" where
  "conf_char num c cf =
     (if conf_state cf = 0 \<or> conf_state cf = 1 then
        Some (if c = 10 then cf\<lparr>conf_state := 2\<rparr> else cf)
      else if conf_state cf = 2 then
        let cf = cf\<lparr>conf_line := conf_line cf + 1\<rparr>
        in if c = num then Some (cf\<lparr>conf_state := 3\<rparr>)
           else if c = 35 then Some (cf\<lparr>conf_state := 1\<rparr>)
           else if c = 45 then Some (cf\<lparr>conf_state := 5\<rparr>)
           else Some (cf\<lparr>conf_state := 0\<rparr>)
      else if conf_state cf = 3 then
        Some (if c = 58 then cf\<lparr>conf_state := 4\<rparr> else cf\<lparr>conf_state := 2\<rparr>)
      else if conf_state cf = 4 then
        if c = 10 then map_option (\<lambda>cf. cf\<lparr>conf_state := 5\<rparr>) (conf_put 0 cf)
        else map_option (\<lambda>cf. cf\<lparr>conf_d := conf_d cf + 1\<rparr>) (conf_put c cf)
      else Some cf)"

fun conf_block :: "u8 \<Rightarrow> bytes \<Rightarrow> conf \<Rightarrow> conf option" where
  "conf_block num [] cf = Some cf"
| "conf_block num (c # cs) cf =
     (if c = 0 \<or> conf_state cf = 5 then Some cf
      else case conf_char num c cf of None \<Rightarrow> None | Some cf \<Rightarrow> conf_block num cs cf)"

primrec conf_blocks :: "nat \<Rightarrow> 'fs bootfs \<Rightarrow> nat \<Rightarrow> u8 \<Rightarrow> nat \<Rightarrow> conf \<Rightarrow> ('fs, conf) gzm" where
  "conf_blocks 0 fs fd num blkno cf = (\<lambda>s. (Timeout, s))"
| "conf_blocks (Suc n) fs fd num blkno cf = (\<lambda>s.
     (case bread fs fd (int blkno) 1 (fs_st s) of
        None \<Rightarrow> (Crash, s)
      | Some ((nread, d), st) \<Rightarrow>
          let s = s\<lparr>fs_st := st\<rparr>
          in case conf_block num (take (nat nread) d) cf of
               None \<Rightarrow> (Crash, s)
             | Some cf \<Rightarrow>
                 if nread > 0 \<and> conf_state cf \<noteq> 5 then conf_blocks n fs fd num (blkno + 1) cf s
                 else (Ret cf, s)))"

definition conf_start :: "bytes \<Rightarrow> conf" where
  "conf_start buf = \<lparr>conf_state = 2, conf_line = 1, conf_d = 0, conf_str = buf[0 := 0]\<rparr>"

definition get_default_args :: "'fs gz_env \<Rightarrow> nat \<Rightarrow> 'fs bootfs \<Rightarrow> u8 \<Rightarrow> bytes \<Rightarrow> ('fs, int \<times> bytes) gzm" where
  "get_default_args env f fs num buf =
     bind_gz (open_config_file fs) (\<lambda>fd.
       if fd < 0 then ret_gz (- 1, buf[0 := 0])
       else bind_gz (no_setjmp (gz_malloc env (bfs_blocksize env))) (\<lambda>_.
            bind_gz (conf_blocks f fs (nat fd) num 0 (conf_start buf)) (\<lambda>cf.
            bind_gz (file_close fs (nat fd)) (\<lambda>_.
              ret_gz (if conf_state cf \<noteq> 5 then - 1 else 0, conf_str cf)))))"

subsection \<open>The entries of a configuration file\<close>

text \<open>
  The file as lines: a line is not empty, and the digit that is looked for is followed by a colon.  The
  entry is the rest of the first line with the digit, unless a line that starts with a dash comes first: the
  dash ends the search with an empty entry.
\<close>

definition conf_line_ok :: "u8 \<Rightarrow> bytes \<Rightarrow> bool" where
  "conf_line_ok num l \<longleftrightarrow>
     l \<noteq> [] \<and> 10 \<notin> set l \<and> 0 \<notin> set l \<and> (hd l = num \<longrightarrow> 2 \<le> length l \<and> l ! 1 = 58)"

fun conf_entry :: "u8 \<Rightarrow> bytes list \<Rightarrow> bytes option" where
  "conf_entry num [] = None"
| "conf_entry num (l # ls) =
     (if hd l = num then Some (drop 2 l) else if hd l = 45 then Some [] else conf_entry num ls)"

definition conf_text :: "bytes list \<Rightarrow> bytes" where
  "conf_text ls = concat (map (\<lambda>l. l @ [10]) ls)"

definition c_string :: "bytes \<Rightarrow> bytes" where
  "c_string buf = takeWhile (\<lambda>c. c \<noteq> 0) buf"

lemma conf_block_append:
  "0 \<notin> set a \<Longrightarrow> conf_block num (a @ b) cf
     = (case conf_block num a cf of None \<Rightarrow> None | Some cf' \<Rightarrow> conf_block num b cf')"
proof (induction a arbitrary: cf)
  case (Cons c a)
  then show ?case by (cases b) (auto split: option.split)
qed simp

lemma conf_block_done: "conf_state cf = 5 \<Longrightarrow> conf_block num cs cf = Some cf"
  by (cases cs) auto

lemma conf_block_skip:
  assumes "10 \<notin> set l" and "0 \<notin> set l" and "conf_state cf < 2"
  shows "conf_block num (l @ [10]) cf = Some (cf\<lparr>conf_state := 2\<rparr>)"
  using assms by (induction l arbitrary: cf) (auto simp: conf_char_def)

lemma conf_block_copy:
  assumes "10 \<notin> set l" and "0 \<notin> set l" and "conf_state cf = 4" and "conf_d cf + length l < length (conf_str cf)"
  shows "\<exists>cf'. conf_block num (l @ [10]) cf = Some cf' \<and> conf_state cf' = 5
           \<and> conf_str cf' = take (conf_d cf) (conf_str cf) @ l @ [0] @ drop (conf_d cf + length l + 1) (conf_str cf)"
  using assms
proof (induction l arbitrary: cf)
  case Nil
  then show ?case by (simp add: conf_char_def conf_put_def upd_conv_take_nth_drop)
next
  case (Cons c l)
  let ?cf = "cf\<lparr>conf_str := (conf_str cf)[conf_d cf := c], conf_d := conf_d cf + 1\<rparr>"
  have "conf_char num c cf = Some ?cf" using Cons.prems by (auto simp: conf_char_def conf_put_def)
  moreover obtain cf' where "conf_block num (l @ [10]) ?cf = Some cf'" "conf_state cf' = 5"
      "conf_str cf' = take (conf_d ?cf) (conf_str ?cf) @ l @ [0] @ drop (conf_d ?cf + length l + 1) (conf_str ?cf)"
    using Cons.IH [of ?cf] Cons.prems by auto
  ultimately show ?case using Cons.prems by (auto simp: take_Suc_conv_app_nth)
qed

lemma conf_block_line:
  assumes "conf_line_ok num l" and "conf_state cf = 2" and "hd l \<noteq> num" and "hd l \<noteq> 45"
  shows "conf_block num (l @ [10]) cf = Some (cf\<lparr>conf_line := conf_line cf + 1, conf_state := 2\<rparr>)"
proof (cases l)
  case (Cons c r)
  with assms show ?thesis
    using conf_block_skip [of r "cf\<lparr>conf_line := conf_line cf + 1, conf_state := 1\<rparr>" num]
      conf_block_skip [of r "cf\<lparr>conf_line := conf_line cf + 1, conf_state := 0\<rparr>" num]
    by (auto simp: conf_line_ok_def conf_char_def Let_def)
qed (use assms in \<open>simp add: conf_line_ok_def\<close>)

lemma conf_block_entry:
  assumes "list_all (conf_line_ok num) ls" and "conf_entry num ls = Some e"
    and "conf_state cf = 2" and "conf_d cf = 0" and "length e < length (conf_str cf)" and "conf_str cf ! 0 = 0"
  shows "\<exists>cf'. conf_block num (conf_text ls) cf = Some cf' \<and> conf_state cf' = 5
           \<and> c_string (conf_str cf') = e \<and> length (conf_str cf') = length (conf_str cf)"
  using assms
proof (induction ls arbitrary: cf)
  case (Cons l ls)
  have l: "conf_line_ok num l" "l \<noteq> []" "0 \<notin> set (l @ [10])" using Cons.prems(1) by (auto simp: conf_line_ok_def)
  have first: "conf_block num (conf_text (l # ls)) cf
      = (case conf_block num (l @ [10]) cf of None \<Rightarrow> None | Some cf' \<Rightarrow> conf_block num (conf_text ls) cf')"
    using conf_block_append [OF l(3), of num "conf_text ls" cf] by (simp add: conf_text_def)
  consider "hd l = num" | "hd l \<noteq> num" "hd l = 45" | "hd l \<noteq> num" "hd l \<noteq> 45" by blast
  then show ?case
  proof cases
    case 1
    then obtain r where r: "l = num # 58 # r" "e = r"
      using l(1,2) Cons.prems(2) by (cases l; cases "tl l") (auto simp: conf_line_ok_def)
    let ?cf = "cf\<lparr>conf_line := conf_line cf + 1, conf_state := 4\<rparr>"
    have nul: "0 \<notin> set r" "10 \<notin> set r" "num \<noteq> 0" using l(1) r by (auto simp: conf_line_ok_def)
    obtain cf' where "conf_block num (r @ [10]) ?cf = Some cf'" "conf_state cf' = 5"
        "conf_str cf' = take (conf_d ?cf) (conf_str ?cf) @ r @ [0] @ drop (conf_d ?cf + length r + 1) (conf_str ?cf)"
      using conf_block_copy [of r ?cf num] nul Cons.prems(4,5) r by auto
    moreover from this have "conf_block num (l @ [10]) cf = Some cf'"
      using nul(3) r Cons.prems(3) by (simp add: conf_char_def Let_def)
    moreover have "takeWhile (\<lambda>c. c \<noteq> 0) (r @ 0 # x) = r" for x using nul(1) by (induction r) auto
    ultimately show ?thesis using Cons.prems(4,5) r unfolding first by (simp add: conf_block_done c_string_def)
  next
    case 2
    let ?cf = "cf\<lparr>conf_line := conf_line cf + 1, conf_state := 5\<rparr>"
    obtain r where "l = 45 # r" using 2 l(2) by (cases l) auto
    then have "conf_block num (l @ [10]) cf = Some ?cf"
      using 2 Cons.prems(3) by (simp add: conf_char_def Let_def conf_block_done)
    moreover have "c_string (conf_str cf) = []" using Cons.prems(5,6) by (cases "conf_str cf") (auto simp: c_string_def)
    ultimately show ?thesis using 2 Cons.prems(2) unfolding first by (simp add: conf_block_done)
  next
    case 3
    let ?cf = "cf\<lparr>conf_line := conf_line cf + 1, conf_state := 2\<rparr>"
    have "conf_block num (l @ [10]) cf = Some ?cf" by (rule conf_block_line [OF l(1) Cons.prems(3) 3])
    then show ?thesis using Cons.IH [of ?cf] Cons.prems 3 unfolding first by simp
  qed
qed simp

subsection \<open>Reading the file block by block\<close>

context open_file_end
begin

lemma conf_blocks_file:
  assumes fs: "bread fs fd = rdblk" and content: "content = txt' @ rest" "0 \<notin> set txt'"
    and "ok (fs_st s)" and "b * bs \<le> length txt'" and "conf_state cf \<noteq> 5"
    and "conf_block num (drop (b * bs) txt') cf = Some cf'" and "conf_state cf' = 5"
    and "length txt' < (b + n) * bs"
  shows "\<exists>s'. conf_blocks n fs fd num b cf s = (Ret cf', s') \<and> ok (fs_st s') \<and> load_frame s s'"
  using assms(4-)
proof (induction n arbitrary: b cf s)
  case 0
  then show ?case by simp
next
  case (Suc n)
  let ?t = "drop (b * bs) txt'" and ?d = "slice (b * bs) bs content"
  have bs: "0 < bs" by (rule bs_pos [OF Suc.prems(1)])
  have ne: "?t \<noteq> []" using Suc.prems(3,4,5) by auto
  have "b * bs < length content" using ne content(1) by simp
  moreover obtain k where k: "length content = bs * k" using whole_blocks [OF Suc.prems(1)] by blast
  ultimately have "b < k" using bs by (simp add: mult.commute)
  then have "(b + 1) * bs \<le> length content" using k bs by (metis Suc_eq_plus1 Suc_leI mult.commute mult_le_mono1)
  from read_blocks [OF Suc.prems(1) this] obtain st
    where st: "rdblk (int b) 1 (fs_st s) = Some ((int bs, ?d), st)" "ok st" by auto
  have len: "length ?d = bs" using \<open>(b + 1) * bs \<le> length content\<close> by (simp add: length_slice)
  have fr: "load_frame s (s\<lparr>fs_st := st\<rparr>)"
    unfolding load_frame_def by (intro exI [of _ "memory s"] exI [of _ st]) simp
  show ?case
  proof (cases "bs \<le> length ?t")
    case True
    have d: "?d = take bs ?t" using True by (simp add: slice_def content(1))
    have "drop bs ?t = drop ((b + 1) * bs) txt'" by (simp add: add.commute)
    moreover have "conf_block num (take bs ?t @ drop bs ?t) cf = Some cf'"
      using Suc.prems(4) by (simp only: append_take_drop_id)
    moreover have "0 \<notin> set (take bs ?t)" using content(2) by (meson in_set_dropD in_set_takeD)
    ultimately obtain cf1 where cf1: "conf_block num ?d cf = Some cf1" "conf_block num (drop ((b + 1) * bs) txt') cf1 = Some cf'"
      unfolding d by (simp add: conf_block_append split: option.splits)
    show ?thesis
    proof (cases "conf_state cf1 = 5")
      case True
      then have "cf1 = cf'" using cf1(2) by (simp add: conf_block_done)
      with cf1(1) True st fr len bs show ?thesis by (simp add: fs)
    next
      case False
      have le: "(b + 1) * bs \<le> length txt'" using \<open>bs \<le> length ?t\<close> ne by simp
      have lim: "length txt' < (b + 1 + n) * bs" using Suc.prems(6) by simp
      from Suc.IH [of "s\<lparr>fs_st := st\<rparr>" "b + 1" cf1] obtain s' where
        "conf_blocks n fs fd num (b + 1) cf1 (s\<lparr>fs_st := st\<rparr>) = (Ret cf', s')" "ok (fs_st s')" "load_frame (s\<lparr>fs_st := st\<rparr>) s'"
        using st(2) le False cf1(2) Suc.prems(5) lim by auto
      with cf1(1) False st(1) len bs load_frame_trans [OF fr] show ?thesis by (auto simp: fs)
    qed
  next
    case False
    obtain r where d: "?d = ?t @ r" using False by (auto simp: slice_def content(1))
    have "0 \<notin> set ?t" using content(2) by (meson in_set_dropD)
    then have "conf_block num ?d cf = Some cf'"
      using Suc.prems(4,5) unfolding d by (simp add: conf_block_append conf_block_done)
    with st fr len bs Suc.prems(5) show ?thesis by (simp add: fs)
  qed
qed

lemma get_default_args_file:
  assumes cfg: "open_config_file fs s = (Ret (int fd), s1)" and fs: "bread fs fd = rdblk" and ok: "ok (fs_st s1)"
    and mem: "gz_malloc env (bfs_blocksize env) s1 = (Ret (), s2)"
    and content: "content = conf_text ls @ rest" and ls: "list_all (conf_line_ok num) ls" "conf_entry num ls = Some e"
    and buf: "length e < length buf" and n: "length content < n * bs"
  shows "\<exists>str' s'. get_default_args env n fs num buf s = (Ret (0, str'), s') \<and> c_string str' = e \<and> length str' = length buf"
proof -
  have s2: "fs_st s2 = fs_st s1" using mem by (auto simp: gz_malloc_def Let_def unzip_error_def split: option.splits)
  have nul: "0 \<notin> set (conf_text ls)" using ls(1) by (auto simp: conf_text_def list_all_iff conf_line_ok_def)
  obtain cf' where cf': "conf_block num (conf_text ls) (conf_start buf) = Some cf'" "conf_state cf' = 5"
      "c_string (conf_str cf') = e" "length (conf_str cf') = length buf"
    using conf_block_entry [OF ls, of "conf_start buf"] buf by (cases buf) (auto simp: conf_start_def)
  obtain s3 where s3: "conf_blocks n fs fd num 0 (conf_start buf) s2 = (Ret cf', s3)"
    using conf_blocks_file [OF fs content nul, of s2 0 "conf_start buf" num cf' n] cf' ok s2 n content
    by (auto simp: conf_start_def)
  have "get_default_args env n fs num buf s = (Ret (0, conf_str cf'), s3\<lparr>fs_st := fclose fs fd (fs_st s3)\<rparr>)"
    by (simp add: get_default_args_def bind_gz_def cfg no_setjmp_def mem s3 file_close_def gz_simps cf'(2))
  with cf'(3,4) show ?thesis by blast
qed

end

subsection \<open>Properties\<close>

text \<open>
  C16.  The preset that is asked for is found however the configuration file is cut into blocks: on any file system whose
  open configuration file delivers its contents, \<open>get_default_args\<close> returns 0 and leaves in the
  caller's buffer the text behind the first line \<open>num:\<close>, skipping comments and other entries; a line that
  starts with a dash ends the search with an empty text.
\<close>

theorem get_default_args_entry:
  assumes "open_file_end (bread fs fd) bs content ok" and "open_config_file fs s = (Ret (int fd), s1)" and "ok (fs_st s1)"
    and "gz_malloc env (bfs_blocksize env) s1 = (Ret (), s2)"
    and "content = conf_text ls @ rest" and "list_all (conf_line_ok num) ls" and "conf_entry num ls = Some e"
    and "length e < length buf" and "length content < n * bs"
  shows "\<exists>str' s'. get_default_args env n fs num buf s = (Ret (0, str'), s') \<and> c_string str' = e"
  using open_file_end.get_default_args_file [OF assms(1,2) refl assms(3-9)] by blast

text \<open>A file of one block, opened under any name.\<close>

definition example_lines :: "bytes list" where
  "example_lines = [str ''# kernels'', str ''0:vmlinux.gz'', str ''1:old root=/dev/sda2'', str ''-'']"

definition config_block :: bytes where
  "config_block = conf_text example_lines @ replicate 978 0"

definition config_fs :: "fs_state bootfs" where
  "config_fs = (ext2fs (cons_read (image_read (replicate 3072 0 @ config_block))) 0 ([], [], []))\<lparr>fopen := \<lambda>_ st. Some (0, st)\<rparr>"

lemma config_block_length: "length config_block = 1024"
  by (simp add: config_block_def conf_text_def example_lines_def str_def)

lemma config_opened: "open_config_file config_fs s = (Ret (int 0), s)"
  by (simp add: open_config_file_def configs_def file_open_def config_fs_def bind_gz_def gz_simps)

lemma config_boot_file:
  "open_file_end (bread config_fs 0) 1024 config_block (ext2_file (replicate 3072 0 @ config_block) 0 1024 config_block)"
proof -
  let ?img = "replicate 3072 0 @ config_block"
  have "SECT_SIZE dvd length ?img" by (simp add: config_block_length SECT_SIZE_def)
  then have "block_device (cons_read (image_read ?img)) ?img" by (rule cons_block_device [OF sector_device_image_read])
  then show ?thesis using ext2_boot_file_end by (simp add: config_fs_def)
qed

lemma config_file_ok: "ext2_file (replicate 3072 0 @ config_block) 0 1024 config_block (fs_st kernel_gz)"
  using one_block_opened [OF config_block_length] by (simp add: kernel_gz_def)

definition config_env :: "fs_state gz_env" where
  "config_env = file_env example_le config_fs 0 kernel_fs"

lemma config_malloc: "\<exists>s2. gz_malloc config_env (bfs_blocksize config_env) kernel_gz = (Ret (), s2)"
proof -
  have "bfs_blocksize config_env = 1024"
    by (simp add: config_env_def file_env_def config_fs_def ext2fs_def kernel_fs_def example_ext2_def)
  then show ?thesis
    by (simp add: gz_malloc_def kernel_gz_def config_env_def file_env_def example_le_def example_machine_def example_globals_def
        malloc_def malloc_ptr_def memory_end_def page_offset_def PAGE_SHIFT_def Let_def)
qed

theorem get_default_args_entry_witness:
  "\<exists>str' s'. get_default_args config_env 2 config_fs 49 (replicate 256 7) kernel_gz
       = (Ret (0, str'), s') \<and> c_string str' = str ''old root=/dev/sda2''"
proof -
  obtain s2 where s2: "gz_malloc config_env (bfs_blocksize config_env) kernel_gz = (Ret (), s2)" using config_malloc by blast
  have "list_all (conf_line_ok 49) example_lines" "conf_entry 49 example_lines = Some (str ''old root=/dev/sda2'')"
    by (simp_all add: example_lines_def conf_line_ok_def str_def)
  then show ?thesis
    by (rule get_default_args_entry [OF config_boot_file config_opened config_file_ok s2 config_block_def])
      (simp_all add: config_block_length, simp add: str_def)
qed

text \<open>
  The end mark hides a missing preset: when no entry precedes a line that starts with a dash, \<open>get_default_args\<close>
  reports success with an empty string, and the caller goes on to boot an empty file name instead of
  falling back to the prompt.
\<close>

theorem get_default_args_end_mark:
  assumes "open_file_end (bread fs fd) bs content ok" and "open_config_file fs s = (Ret (int fd), s1)" and "ok (fs_st s1)"
    and "gz_malloc env (bfs_blocksize env) s1 = (Ret (), s2)"
    and "content = conf_text (ls @ [45 # l]) @ rest" and "list_all (conf_line_ok num) (ls @ [45 # l])"
    and "num \<notin> hd ` set ls" and "num \<noteq> 45" and "buf \<noteq> []" and "length content < n * bs"
  shows "\<exists>str' s'. get_default_args env n fs num buf s = (Ret (0, str'), s') \<and> c_string str' = []"
proof -
  have "conf_entry num (ls @ [45 # l]) = Some []" using assms(7,8) by (induction ls) auto
  from open_file_end.get_default_args_file [OF assms(1,2) refl assms(3-6) this _ assms(10), of buf] assms(9)
  show ?thesis by auto
qed

theorem get_default_args_end_mark_witness:
  "\<exists>str' s'. get_default_args config_env 2 config_fs 57 (replicate 256 7) kernel_gz
       = (Ret (0, str'), s') \<and> c_string str' = []"
proof -
  obtain s2 where s2: "gz_malloc config_env (bfs_blocksize config_env) kernel_gz = (Ret (), s2)" using config_malloc by blast
  have "example_lines = take 3 example_lines @ [45 # []]" by (simp add: example_lines_def str_def)
  then have c: "config_block = conf_text (take 3 example_lines @ [45 # []]) @ replicate 978 0" by (simp add: config_block_def)
  show ?thesis
    by (rule get_default_args_end_mark [OF config_boot_file config_opened config_file_ok s2 c])
      (simp_all add: config_block_length, simp_all add: example_lines_def conf_line_ok_def str_def)
qed

end
