(* ===== verification/Disk.thy ===== *)
theory Disk
  imports Config
begin

text \<open>
  The boot medium (second half of \<^verbatim>\<open>src/disk.c\<close>): the disk label, the choice of the file system for a
  partition, and \<open>load\<close>, which brings kernel and ramdisk into memory.

  The globals of \<^verbatim>\<open>disk.c\<close> and \<^verbatim>\<open>aboot.c\<close> are the record \<open>boot\<close>; the loader's part of the state is its field
  \<open>loader\<close>.  What does not change is the record \<open>boot_env\<close>: the machine, the reader of the boot device, the size
  of the loader image and the table of file systems.  Character arrays are lists of 256 bytes.  \<open>input\<close> is
  what the user types, \<open>printed\<close> what the listing commands show.
\<close>

subsection \<open>State\<close>

record 's boot_env =
  be_load :: load_env
  be_reader :: reader
  be_image_size :: nat
  be_bootfs :: "'s bootfs list"
  be_dummyfs :: "'s bootfs"

record 's boot =
  loader :: "'s gz"
  label :: "bytes option"
  boot_file :: bytes
  initrd_file :: bytes
  kernel_args :: bytes
  initrd_start :: u64
  initrd_size :: u64
  config_file_partition :: int
  boot_part :: int
  input :: string
  printed :: "bytes list"

definition in_loader :: "('s, 'a) gzm \<Rightarrow> ('s boot, 'a) prog" where
  "in_loader m b = (case m (loader b) of (r, g) \<Rightarrow> (r, b\<lparr>loader := g\<rparr>))"

text \<open>Allocation by code that is not given an open file.\<close>

definition alloc_env :: "'s boot_env \<Rightarrow> 's bootfs \<Rightarrow> 's boot \<Rightarrow> 's gz_env" where
  "alloc_env env fs b = file_env (be_load env) fs 0 (fs_st (loader b))"

subsection \<open>The disk label\<close>

definition LABELOFFSET :: nat where
  "LABELOFFSET = 64"

definition LABELSECTOR :: nat where
  "LABELSECTOR = 0"

definition DISKLABELMAGIC :: u32 where
  "DISKLABELMAGIC = 0x82564557"

definition MAXPARTITIONS :: nat where
  "MAXPARTITIONS = 8"

text \<open>\<open>struct disklabel\<close> as the bytes of the sector buffer from the label on.\<close>

definition sizeof_disklabel :: nat where
  "sizeof_disklabel = 148 + 16 * MAXPARTITIONS"

definition d_magic :: "bytes \<Rightarrow> u32" where "d_magic l = le32_at l 0"
definition d_secsize :: "bytes \<Rightarrow> u32" where "d_secsize l = le32_at l 40"
definition d_magic2 :: "bytes \<Rightarrow> u32" where "d_magic2 l = le32_at l 132"
definition d_npartitions :: "bytes \<Rightarrow> u16" where "d_npartitions l = le16_at l 138"
definition part_offset :: "bytes \<Rightarrow> nat \<Rightarrow> u32" where "part_offset l i = le32_at l (148 + 16 * i + 4)"
definition part_fstype :: "bytes \<Rightarrow> nat \<Rightarrow> nat" where "part_fstype l i = unat (l ! (148 + 16 * i + 12))"

definition get_disklabel :: "reader \<Rightarrow> 's boot \<Rightarrow> 's boot" where
  "get_disklabel rd b =
     (let n = LABELOFFSET + sizeof_disklabel; (nread, d) = read_at rd (int n) (int LABELSECTOR);
          l = drop LABELOFFSET (d @ replicate (512 - n) 0)
      in if nread \<noteq> int n then b
         else if d_magic l = DISKLABELMAGIC \<and> d_magic2 l = DISKLABELMAGIC then b\<lparr>label := Some l\<rparr>
         else b\<lparr>label := None\<rparr>)"

subsection \<open>Mounting\<close>

text \<open>\<open>mount\<close> with its allocations, which do not run under a \<open>_setjmp\<close>.\<close>

primrec allocate :: "'s gz_env \<Rightarrow> nat list \<Rightarrow> ('s, unit) gzm" where
  "allocate env [] = ret_gz ()"
| "allocate env (n # ns) = bind_gz (gz_malloc env n) (\<lambda>_. allocate env ns)"

definition mount_at :: "'s boot_env \<Rightarrow> 's bootfs \<Rightarrow> int \<Rightarrow> ('s boot, int) prog" where
  "mount_at env fs off b =
     (case mount fs off (fs_st (loader b)) of
        ((r, ns), st) \<Rightarrow>
          in_loader (bind_gz (no_setjmp (allocate (alloc_env env fs b) ns)) (\<lambda>_. ret_gz r))
            (b\<lparr>loader := (loader b)\<lparr>fs_st := st\<rparr>\<rparr>))"

fun mount_any :: "'s boot_env \<Rightarrow> 's bootfs list \<Rightarrow> ('s boot, 's bootfs option) prog" where
  "mount_any env [] = ret_gz None"
| "mount_any env (fs # fss) = bind_gz (mount_at env fs 0) (\<lambda>r. if r \<ge> 0 then ret_gz (Some fs) else mount_any env fss)"

definition mounted :: "'s bootfs \<Rightarrow> int \<Rightarrow> ('s boot, 's bootfs option) prog" where
  "mounted fs r = ret_gz (if r < 0 then None else Some fs)"

text \<open>
  The label of an invalid disk may announce more partitions than the table has; an index behind the sector
  buffer has no defined result.
\<close>

definition mount_fs :: "'s boot_env \<Rightarrow> int \<Rightarrow> ('s boot, 's bootfs option) prog" where
  "mount_fs env part b =
     (if part = 0 then bind_gz (mount_at env (be_dummyfs env) 0) (mounted (be_dummyfs env)) b
      else case label b of
        None \<Rightarrow> mount_any env (be_bootfs env) b
      | Some l \<Rightarrow>
          let i = unat (word_of_int (part - 1) :: u32)
          in if i \<ge> unat (d_npartitions l) then (Ret None, b)
             else if 148 + 16 * i + 16 > length l then (Crash, b)
             else case find (\<lambda>fs. fs_type fs = int (part_fstype l i)) (be_bootfs env) of
               None \<Rightarrow> (Ret None, b)
             | Some fs \<Rightarrow>
                 bind_gz (mount_at env fs (uint (part_offset l i) * uint (d_secsize l))) (mounted fs) b)"

subsection \<open>Loading\<close>

definition clear_bss :: "'s gz \<Rightarrow> 's gz" where
  "clear_bss s = s\<lparr>memory := memset (unat (bss_start (elf s))) 0 (unat (bss_size (elf s))) (memory s)\<rparr>"

text \<open>The kernel: \<open>-\<close> stands for the raw boot.\<close>

definition load_boot_file :: "'s boot_env \<Rightarrow> ('s boot, int) prog" where
  "load_boot_file env b =
     (let fname = c_string (boot_file b)
      in if fname = str ''-'' then
           in_loader (load_raw (alloc_env env (be_dummyfs env) b) (be_reader env) (be_image_size env)) b
         else
           bind_gz (mount_fs env (boot_part b)) (\<lambda>fs.
             case fs of None \<Rightarrow> ret_gz (- 1) | Some fs \<Rightarrow> in_loader (read_kernel (be_load env) fs fname)) b)"

definition load_initrd :: "'s boot_env \<Rightarrow> ('s boot, int) prog" where
  "load_initrd env b =
     bind_gz (mount_fs env (boot_part b)) (\<lambda>fs.
       case fs of
         None \<Rightarrow> ret_gz (- 1)
       | Some fs \<Rightarrow>
           bind_gz (in_loader (read_initrd (le_mach (be_load env)) fs (c_string (initrd_file b)))) (\<lambda>(r, w).
           bind_gz (modify_gz (\<lambda>b. case w of None \<Rightarrow> b | Some (a, n) \<Rightarrow> b\<lparr>initrd_start := a, initrd_size := n\<rparr>))
             (\<lambda>_. ret_gz r))) b"

definition load :: "'s boot_env \<Rightarrow> ('s boot, int) prog" where
  "load env =
     bind_gz (load_boot_file env) (\<lambda>r.
       if r < 0 then ret_gz (- 1)
       else
         bind_gz (in_loader (modify_gz clear_bss)) (\<lambda>_.
         bind_gz (gets_gz (\<lambda>b. initrd_file b ! 0)) (\<lambda>c.
           if c = 0 then ret_gz 0
           else bind_gz (load_initrd env) (\<lambda>r. ret_gz (if r < 0 then - 1 else 0)))))"

subsection \<open>Frames\<close>

text \<open>Mounting and loading change nothing of the record but the loader's state.\<close>

definition boot_frame :: "'s boot \<Rightarrow> 's boot \<Rightarrow> bool" where
  "boot_frame b b' \<longleftrightarrow> (\<exists>g. b' = b\<lparr>loader := g\<rparr>)"

lemma boot_frame_refl: "boot_frame b b"
  unfolding boot_frame_def by (intro exI [of _ "loader b"]) simp

lemma boot_frame_trans: "boot_frame a b \<Longrightarrow> boot_frame b c \<Longrightarrow> boot_frame a c"
  by (force simp: boot_frame_def)

lemma boot_frame_fields:
  "boot_frame b b' \<Longrightarrow> label b' = label b" "boot_frame b b' \<Longrightarrow> boot_file b' = boot_file b"
  "boot_frame b b' \<Longrightarrow> initrd_file b' = initrd_file b" "boot_frame b b' \<Longrightarrow> kernel_args b' = kernel_args b"
  "boot_frame b b' \<Longrightarrow> boot_part b' = boot_part b" "boot_frame b b' \<Longrightarrow> config_file_partition b' = config_file_partition b"
  by (auto simp: boot_frame_def)

lemma in_loader_frame: "in_loader m b = (r, b') \<Longrightarrow> boot_frame b b'"
  by (auto simp: in_loader_def boot_frame_def split: prod.splits)

lemma bind_frame:
  assumes "bind_gz m f b = (r, b')" and "\<And>r b'. m b = (r, b') \<Longrightarrow> boot_frame b b'"
    and "\<And>x b1. f x b1 = (r, b') \<Longrightarrow> boot_frame b1 b'"
  shows "boot_frame b b'"
  using assms boot_frame_trans by (auto simp: bind_gz_def split: prod.splits outcome.splits) blast

lemma mount_at_frame: "mount_at env fs off b = (r, b') \<Longrightarrow> boot_frame b b'"
  by (auto simp: mount_at_def boot_frame_def in_loader_def split: prod.splits)

lemma mount_any_frame: "mount_any env fss b = (r, b') \<Longrightarrow> boot_frame b b'"
proof (induction fss arbitrary: b)
  case (Cons fs fss)
  then show ?case
    by (auto simp: ret_gz_def boot_frame_refl elim!: bind_frame [OF _ mount_at_frame] split: if_splits)
qed (simp add: ret_gz_def boot_frame_refl)

lemma mount_fs_frame: "mount_fs env part b = (r, b') \<Longrightarrow> boot_frame b b'"
  by (auto simp: mount_fs_def Let_def mounted_def ret_gz_def boot_frame_refl mount_any_frame
      elim!: bind_frame [OF _ mount_at_frame] split: if_splits option.splits)

lemma load_boot_file_frame: "load_boot_file env b = (r, b') \<Longrightarrow> boot_frame b b'"
  by (auto simp: load_boot_file_def Let_def ret_gz_def boot_frame_refl in_loader_frame
      elim!: bind_frame [OF _ mount_fs_frame] split: if_splits option.splits)

subsection \<open>Properties\<close>

lemma read_kernel_plain:
  assumes "\<not> ends_in_gz fname" and "fopen fs fname (fs_st s) = Some (int fd, st)"
    and "load_uncompressed (file_env le fs fd st) (s\<lparr>fs_st := st\<rparr>) = (Ret 0, s1)"
  shows "read_kernel le fs fname s = (Ret 0, s1\<lparr>fs_st := fclose fs fd (fs_st s1)\<rparr>)"
  using assms by (simp add: read_kernel_def NUM_METHODS_def numeral_2_eq_2 read_method_def)

text \<open>
  What \<open>load\<close> needs of the medium to boot an uncompressed kernel without a ramdisk: the partition mounts, the file opens with the given content,
  its first block passes the header check with the load description \<open>g\<close>, every segment lies within the file, and
  segments and BSS do not overlap.
\<close>

definition bootable_kernel :: "'s boot_env \<Rightarrow> 's boot \<Rightarrow> bytes \<Rightarrow> elf_globals \<Rightarrow> bool" where
  "bootable_kernel env b content g \<longleftrightarrow>
     (\<exists>fs fd st bs k ok b1 s0. let fname = c_string (boot_file b); cs = take (nchunks g) (chunks g) in
        fname \<noteq> str ''-'' \<and> \<not> ends_in_gz fname \<and> initrd_file b ! 0 = 0
      \<and> mount_fs env (boot_part b) b = (Ret (Some fs), b1)
      \<and> fopen fs fname (fs_st (loader b1)) = Some (int fd, st)
      \<and> open_file (bread fs fd) bs content ok \<and> ok st \<and> blocksize fs st = bs \<and> bs = 2 ^ k \<and> k < 32 \<and> bs \<le> length content
      \<and> gz_malloc (file_env (be_load env) fs fd st) bs ((loader b1)\<lparr>fs_st := st\<rparr>) = (Ret (), s0)
      \<and> is_loadable_elf (le_mach (be_load env)) (buf_mem (take bs content)) (int bs) (elf s0) = (Loadable, g)
      \<and> list_all (segment_fits bs content) cs \<and> chunks_apart cs
      \<and> list_all (\<lambda>c. unat (seg_addr c) + unat (seg_size c) \<le> unat (bss_start g)
           \<or> unat (bss_start g) + unat (bss_size g) \<le> unat (seg_addr c)) cs)"

text \<open>The image of a kernel in memory: its segments, and zeros in the BSS.\<close>

definition kernel_in_memory :: "bytes \<Rightarrow> elf_globals \<Rightarrow> mem \<Rightarrow> bool" where
  "kernel_in_memory content g m \<longleftrightarrow>
     list_all (chunk_loaded content m) (take (nchunks g) (chunks g))
   \<and> bytes_at m (unat (bss_start g)) (unat (bss_size g)) = replicate (unat (bss_size g)) 0"

lemma load_bootable:
  assumes "bootable_kernel env b content g"
  shows "\<exists>b'. load env b = (Ret 0, b') \<and> elf (loader b') = g \<and> kernel_in_memory content g (memory (loader b')) \<and> boot_frame b b'"
proof -
  let ?cs = "take (nchunks g) (chunks g)" and ?fname = "c_string (boot_file b)"
  obtain fs fd st bs k ok b1 s0 where h: "?fname \<noteq> str ''-''" "\<not> ends_in_gz ?fname" "initrd_file b ! 0 = 0"
      "mount_fs env (boot_part b) b = (Ret (Some fs), b1)" "fopen fs ?fname (fs_st (loader b1)) = Some (int fd, st)"
      "open_file (bread fs fd) bs content ok" "ok st" "blocksize fs st = bs" "bs = 2 ^ k" "k < 32" "bs \<le> length content"
      "gz_malloc (file_env (be_load env) fs fd st) bs ((loader b1)\<lparr>fs_st := st\<rparr>) = (Ret (), s0)"
      "is_loadable_elf (le_mach (be_load env)) (buf_mem (take bs content)) (int bs) (elf s0) = (Loadable, g)"
      "list_all (segment_fits bs content) ?cs" "chunks_apart ?cs"
      "list_all (\<lambda>c. unat (seg_addr c) + unat (seg_size c) \<le> unat (bss_start g)
           \<or> unat (bss_start g) + unat (bss_size g) \<le> unat (seg_addr c)) ?cs"
    using assms unfolding bootable_kernel_def Let_def by blast
  let ?env = "file_env (be_load env) fs fd st" and ?a = "unat (bss_start g)" and ?n = "unat (bss_size g)"
  obtain s1 where s1: "load_uncompressed ?env ((loader b1)\<lparr>fs_st := st\<rparr>) = (Ret 0, s1)" "elf s1 = g"
      "list_all (chunk_loaded content (memory s1)) ?cs"
    using open_file.load_uncompressed_loads [where env = ?env, OF h(6) _ _ h(9,10) _ h(11,12) _ refl h(14,15)] h(7,8,13)
    by (auto simp: file_env_def)
  let ?s2 = "s1\<lparr>fs_st := fclose fs fd (fs_st s1)\<rparr>" and ?m = "memset ?a 0 ?n (memory s1)"
  have m: "?m = poke (memory s1) ?a (replicate ?n 0)" by (simp add: memset_def memset_loop_eq)
  have bf: "boot_frame b b1" by (rule mount_fs_frame [OF h(4)])
  have "load_boot_file env b = (Ret 0, b1\<lparr>loader := ?s2\<rparr>)"
    using h(1,4) read_kernel_plain [OF h(2,5) s1(1)]
    by (simp add: load_boot_file_def Let_def bind_gz_def in_loader_def)
  then have "load env b = (Ret 0, b1\<lparr>loader := clear_bss ?s2\<rparr>)"
    using h(3) boot_frame_fields(3) [OF bf] by (simp add: load_def bind_gz_def in_loader_def gz_simps)
  moreover have "elf (clear_bss ?s2) = g" "memory (clear_bss ?s2) = ?m" by (simp_all add: clear_bss_def s1(2))
  moreover have "chunk_loaded content ?m c" if "c \<in> set ?cs" for c
    using that s1(3) h(16) by (auto simp: chunk_loaded_def m list_all_iff bytes_at_poke_other)
  moreover have "bytes_at ?m ?a ?n = replicate ?n 0"
    using bytes_at_poke [of "memory s1" ?a "replicate ?n 0"] by (simp add: m)
  ultimately show ?thesis using boot_frame_trans [OF bf, of "b1\<lparr>loader := clear_bss ?s2\<rparr>"]
    by (auto simp: list_all_iff kernel_in_memory_def boot_frame_def)
qed

text \<open>
  C2.  Booting an uncompressed kernel ends with the kernel image in memory: when the partition can be mounted and the
  file opened, and its first block passes the header check, \<open>load\<close> returns 0 and leaves every
  segment of the file at its address and zeros in the BSS, without changing the kernel arguments.
\<close>

theorem load_uncompressed_kernel:
  assumes "fname = c_string (boot_file b)" and "fname \<noteq> str ''-''" and "\<not> ends_in_gz fname" and "initrd_file b ! 0 = 0"
    and "mount_fs env (boot_part b) b = (Ret (Some fs), b1)"
    and "fopen fs fname (fs_st (loader b1)) = Some (int fd, st)"
    and "open_file (bread fs fd) bs content ok" and "ok st" and "blocksize fs st = bs" and "bs = 2 ^ k" and "k < 32"
    and "bs \<le> length content"
    and "gz_malloc (file_env (be_load env) fs fd st) bs ((loader b1)\<lparr>fs_st := st\<rparr>) = (Ret (), s0)"
    and "is_loadable_elf (le_mach (be_load env)) (buf_mem (take bs content)) (int bs) (elf s0) = (Loadable, g)"
    and "cs = take (nchunks g) (chunks g)" and "list_all (segment_fits bs content) cs" and "chunks_apart cs"
    and "list_all (\<lambda>c. unat (seg_addr c) + unat (seg_size c) \<le> unat (bss_start g)
           \<or> unat (bss_start g) + unat (bss_size g) \<le> unat (seg_addr c)) cs"
  shows "\<exists>b'. load env b = (Ret 0, b') \<and> elf (loader b') = g
           \<and> list_all (chunk_loaded content (memory (loader b'))) cs
           \<and> bytes_at (memory (loader b')) (unat (bss_start g)) (unat (bss_size g)) = replicate (unat (bss_size g)) 0
           \<and> kernel_args b' = kernel_args b"
  using load_bootable [of env b content g] assms(1-18) boot_frame_fields(4)
  unfolding bootable_kernel_def Let_def kernel_in_memory_def by (metis (no_types, lifting))

text \<open>A kernel behind the loader, booted from partition 0.\<close>

definition raw_block :: bytes where
  "raw_block = example_elf @ [1, 2, 3, 4] @ replicate 8068 0"

definition raw_disk :: bytes where
  "raw_disk = replicate 1024 0 @ raw_block"

definition example_boot_env :: "fs_state boot_env" where
  "example_boot_env =
     \<lparr>be_load = example_le, be_reader = cons_read (image_read raw_disk), be_image_size = 0, be_bootfs = [],
      be_dummyfs = dummyfs (cons_read (image_read raw_disk)) 0\<rparr>"

definition example_boot :: "fs_state boot" where
  "example_boot =
     \<lparr>loader = kernel_gz, label = None, boot_file = str ''vmlinux'' @ replicate 249 0, initrd_file = replicate 256 0,
      kernel_args = str ''single'' @ replicate 250 0, initrd_start = 0, initrd_size = 0, config_file_partition = 1,
      boot_part = 0, input = [], printed = []\<rparr>"

lemma raw_block_length: "length raw_block = 8192"
  by (simp add: raw_block_def example_length)

lemma raw_block_holds: "holds_example (buf_mem (take 8192 raw_block))"
proof -
  have "buf_mem (take 8192 raw_block) i = example_elf ! i" if "i < 120" for i
    using that by (simp add: buf_mem_def raw_block_def nth_append example_length)
  then show ?thesis unfolding holds_example_def by (intro nth_equalityI) (simp_all add: example_length)
qed

lemma raw_open_file:
  "open_file (bread (be_dummyfs example_boot_env) 1) 8192 raw_block (dummy_file raw_disk 0)"
proof -
  have "SECT_SIZE dvd length raw_disk" by (simp add: raw_disk_def raw_block_length SECT_SIZE_def)
  from dummy_boot_file [OF cons_block_device [OF sector_device_image_read this], of 0 1] show ?thesis
    by (simp add: BLOCKSIZE_def SECT_SIZE_def raw_start_def BOOT_SECTOR_def raw_disk_def example_boot_env_def)
qed

lemma raw_mount:
  assumes "boot_part b = 0" and "loader b = kernel_gz"
  shows "mount_fs example_boot_env (boot_part b) b = (Ret (Some (be_dummyfs example_boot_env)), b)"
  using assms by (simp add: mount_fs_def example_boot_env_def mount_at_def dummyfs_def dummy_mount_def in_loader_def
        bind_gz_def no_setjmp_def mounted_def gz_simps)

definition raw_gz :: "fs_state gz" where
  "raw_gz = kernel_gz\<lparr>elf := example_globals\<lparr>free_mem_ptr := malloc_ptr (clusters example_machine) 0 (of_nat 8192)\<rparr>\<rparr>"

lemma raw_malloc: "gz_malloc (file_env (be_load example_boot_env) (be_dummyfs example_boot_env) 1 kernel_fs) 8192 kernel_gz = (Ret (), raw_gz)"
  by (simp add: gz_malloc_def kernel_gz_def raw_gz_def file_env_def example_le_def example_machine_def example_globals_def malloc_def
      malloc_ptr_def memory_end_def page_offset_def PAGE_SHIFT_def Let_def example_boot_env_def)

lemma raw_loadable:
  "\<exists>h. is_loadable_elf (le_mach (be_load example_boot_env)) (buf_mem (take 8192 raw_block)) (int 8192) (elf raw_gz) = (Loadable, h)
     \<and> chunks h = [example_segment] \<and> nchunks h = 1 \<and> bss_start h = 0xfffffc0000310004 \<and> bss_size h = 4
     \<and> start_addr h = 0xfffffc0000310000 \<and> entry_addr h = 0xfffffc0000310000"
proof -
  obtain ptr where "elf_malloc example_machine (buf_mem (take 8192 raw_block)) (elf raw_gz) = Some ptr"
    by (simp add: elf_malloc_def example_machine_def raw_gz_def example_globals_def example_fields [OF raw_block_holds] malloc_def malloc_ptr_def
        memory_end_def page_offset_def PAGE_SHIFT_def Let_def)
  then obtain h where h: "is_loadable_elf example_machine (buf_mem (take 8192 raw_block)) (int 8192) (elf raw_gz) = (Loadable, h)"
      "chunks h = [example_segment]" "nchunks h = 1"
    using example_loadable_if [OF raw_block_holds, of "int 8192" "elf raw_gz" ptr] by (auto simp: example_globals_def raw_gz_def)
  with example_bss [OF raw_block_holds h(1)] show ?thesis by (auto simp: example_boot_env_def example_le_def)
qed

lemma raw_file:
  "fopen (be_dummyfs example_boot_env) (str ''vmlinux'') kernel_fs = Some (int 1, kernel_fs)" "dummy_file raw_disk 0 kernel_fs"
  "blocksize (be_dummyfs example_boot_env) kernel_fs = 8192" "str ''vmlinux'' \<noteq> str ''-''" "\<not> ends_in_gz (str ''vmlinux'')"
  by (simp_all add: example_boot_env_def dummyfs_def dummy_open_def BLOCKSIZE_def SECT_SIZE_def dummy_file_def raw_start_def
      BOOT_SECTOR_def raw_disk_def kernel_fs_def str_def ends_in_gz_def)

lemma raw_fits: "segment_fits 8192 raw_block example_segment"
  by (simp add: segment_fits_def span_start_def span_blocks_def example_segment_def raw_block_length)

lemma raw_gz_fields: "kernel_gz\<lparr>fs_st := kernel_fs\<rparr> = kernel_gz" "fs_st kernel_gz = kernel_fs"
  by (simp_all add: kernel_gz_def)

theorem load_uncompressed_kernel_witness:
  "\<exists>b'. load example_boot_env example_boot = (Ret 0, b')
     \<and> bytes_at (memory (loader b')) 0xfffffc0000310000 8 = [1, 2, 3, 4, 0, 0, 0, 0]"
proof -
  let ?fs = "be_dummyfs example_boot_env" and ?env = "example_boot_env"
  obtain h where h1: "is_loadable_elf (le_mach (be_load ?env)) (buf_mem (take 8192 raw_block)) (int 8192) (elf raw_gz) = (Loadable, h)"
      and h: "chunks h = [example_segment]" "nchunks h = 1" "bss_start h = 0xfffffc0000310004" "bss_size h = 4"
    using raw_loadable by blast
  have ld: "loader example_boot = kernel_gz" "boot_part example_boot = 0" by (simp_all add: example_boot_def)
  have names: "c_string (boot_file example_boot) = str ''vmlinux''" "initrd_file example_boot ! 0 = 0"
    by (simp_all add: example_boot_def c_string_def str_def)
  have sep: "unat (seg_addr example_segment) + unat (seg_size example_segment) \<le> unat (bss_start h)"
    by (simp add: example_segment_def h)
  have "\<exists>b'. load ?env example_boot = (Ret 0, b') \<and> elf (loader b') = h
      \<and> list_all (chunk_loaded raw_block (memory (loader b'))) [example_segment]
      \<and> bytes_at (memory (loader b')) (unat (bss_start h)) (unat (bss_size h)) = replicate (unat (bss_size h)) 0
      \<and> kernel_args b' = kernel_args example_boot"
    by (rule load_uncompressed_kernel [where k = 13 and fs = ?fs and fd = 1 and st = kernel_fs,
          OF refl _ _ _ raw_mount [OF ld(2,1)] _ raw_open_file _ _ _ _ _ _ h1])
      (use raw_file raw_malloc in \<open>simp_all add: names ld(1) raw_gz_fields h(1,2) raw_fits raw_block_length sep\<close>)
  moreover have rep: "replicate (4 :: nat) (0 :: u8) = [0, 0, 0, 0]" by (simp add: eval_nat_numeral)
  ultimately obtain b' where b': "load ?env example_boot = (Ret 0, b')"
      "bytes_at (memory (loader b')) 0xfffffc0000310000 4 = [1, 2, 3, 4]"
      "bytes_at (memory (loader b')) 0xfffffc0000310004 4 = [0, 0, 0, 0]"
    using rep by (auto simp: h chunk_loaded_def example_segment_def slice_def raw_block_def example_length)
  then have "bytes_at (memory (loader b')) 0xfffffc0000310000 (4 + 4) = [1, 2, 3, 4] @ [0, 0, 0, 0]"
    by (simp only: bytes_at_add) simp
  with b'(1) show ?thesis by simp
qed

lemma raw_bootable:
  assumes "loader b = kernel_gz" and "c_string (boot_file b) = str ''vmlinux''" and "initrd_file b ! 0 = 0" and "boot_part b = 0"
  shows "\<exists>h. bootable_kernel example_boot_env b raw_block h \<and> chunks h = [example_segment] \<and> nchunks h = 1
    \<and> bss_start h = 0xfffffc0000310004 \<and> bss_size h = 4 \<and> start_addr h = 0xfffffc0000310000 \<and> entry_addr h = 0xfffffc0000310000"
proof -
  obtain h where h1: "is_loadable_elf (le_mach (be_load example_boot_env)) (buf_mem (take 8192 raw_block)) (int 8192) (elf raw_gz) = (Loadable, h)"
      and h: "chunks h = [example_segment]" "nchunks h = 1" "bss_start h = 0xfffffc0000310004" "bss_size h = 4"
      "start_addr h = 0xfffffc0000310000" "entry_addr h = 0xfffffc0000310000"
    using raw_loadable by blast
  have sep: "unat (seg_addr example_segment) + unat (seg_size example_segment) \<le> unat (bss_start h)"
    by (simp add: example_segment_def h)
  have "bootable_kernel example_boot_env b raw_block h"
    unfolding bootable_kernel_def Let_def
    by (rule exI [of _ "be_dummyfs example_boot_env"], rule exI [of _ 1], rule exI [of _ kernel_fs], rule exI [of _ 8192],
        rule exI [of _ 13], rule exI [of _ "dummy_file raw_disk 0"], rule exI [of _ b], rule exI [of _ raw_gz])
      (use raw_file raw_malloc raw_mount [OF assms(4,1)] raw_open_file h1 in
        \<open>simp add: assms raw_gz_fields h(1,2) raw_fits raw_block_length sep\<close>)
  with h show ?thesis by blast
qed

end
