(* ===== verification/Options.thy ===== *)
theory Options
  imports Disk
begin

text \<open>
  The boot options (\<open>get_aboot_options\<close> of \<^verbatim>\<open>src/disk.c\<close>): the flags passed by the SRM console, the command
  loop of the \<open>aboot>\<close> prompt, and the split of the chosen line into boot file, kernel arguments,
  ramdisk and partition.

  Character arrays are byte lists with all their bytes: what stands behind the terminating NUL matters,
  because the search for \<open>initrd=\<close> steps over it.  A pointer into an array is an index.  Copies that do not fit
  and reads behind an array are \<open>Crash\<close>; waiting for input that does not come is \<open>Timeout\<close>.  Help
  texts and error messages are not modelled, nor is the variable \<open>first\<close>, which only selects the greeting.
\<close>

subsection \<open>Strings in arrays\<close>

definition str_at :: "bytes \<Rightarrow> nat \<Rightarrow> bytes" where
  "str_at buf i = takeWhile (\<lambda>c. c \<noteq> 0) (drop i buf)"

definition put_str :: "bytes \<Rightarrow> nat \<Rightarrow> bytes \<Rightarrow> bytes option" where
  "put_str buf i s =
     (if i + length s < length buf then Some (take i buf @ s @ [0] @ drop (i + length s + 1) buf) else None)"

text \<open>\<open>strchr(&buf[i], c)\<close> for a character other than NUL.\<close>

definition find_chr :: "bytes \<Rightarrow> nat \<Rightarrow> u8 \<Rightarrow> nat option" where
  "find_chr buf i c =
     (let s = str_at buf i in if c \<in> set s then Some (i + length (takeWhile (\<lambda>x. x \<noteq> c) s)) else None)"

definition skip_spaces :: "bytes \<Rightarrow> nat \<Rightarrow> nat" where
  "skip_spaces buf i = i + length (takeWhile (\<lambda>c. c = 32) (drop i buf))"

text \<open>\<open>p = strchr(buf, ' '); while (p && *p == ' ') ++p;\<close>\<close>

definition after_space :: "bytes \<Rightarrow> nat option" where
  "after_space buf = map_option (skip_spaces buf) (find_chr buf 0 32)"

definition defined :: "'a option \<Rightarrow> ('s, 'a) prog" where
  "defined r s = (case r of None \<Rightarrow> (Crash, s) | Some x \<Rightarrow> (Ret x, s))"

subsection \<open>The flags from the console\<close>

text \<open>The result: partition, preset (0 for none), interactive, and where the extra arguments start.\<close>

definition extra_from :: "bytes \<Rightarrow> nat \<Rightarrow> nat option" where
  "extra_from ka i =
     (if ka ! i \<noteq> 0 then let j = skip_spaces ka i in if ka ! j = 0 then None else Some j else None)"

definition boot_flags :: "bytes \<Rightarrow> int option \<times> u8 \<times> bool \<times> nat option" where
  "boot_flags ka =
     (if 49 \<le> ka ! 0 \<and> ka ! 0 \<le> 57 \<and> ka ! 1 = 58 \<and> ka ! 2 \<noteq> 0 \<and> (ka ! 3 = 0 \<or> ka ! 3 = 32)
      then (Some (uint (ka ! 0) - 48), ka ! 2, False, extra_from ka 3)
      else if ka ! 0 \<noteq> 0 \<and> (ka ! 1 = 0 \<or> ka ! 1 = 32) then
        if ka ! 0 = 105 then (None, 0, True, None) else (None, ka ! 0, False, extra_from ka 1)
      else if ka ! 0 = 0 then (None, 0, True, None)
      else (None, 0, False, None))"

subsection \<open>The command loop\<close>

text \<open>The local variables \<open>preset\<close>, \<open>extra_args\<close>, \<open>fs\<close> and \<open>buf\<close>.\<close>

record 's opts =
  preset :: u8
  extra_args :: "nat option"
  opt_fs :: "'s bootfs option"
  opt_buf :: bytes

definition read_line :: "bytes \<Rightarrow> ('s boot, bytes) prog" where
  "read_line buf b =
     (case getline 256 (input b) of
        None \<Rightarrow> (Timeout, b)
      | Some (line, echo, rest) \<Rightarrow> defined (put_str buf 0 (str line)) (b\<lparr>input := rest\<rparr>))"

definition current_fs :: "'s boot_env \<Rightarrow> 's opts \<Rightarrow> ('s boot, 's bootfs option) prog" where
  "current_fs env op b =
     (case opt_fs op of Some fs \<Rightarrow> (Ret (Some fs), b) | None \<Rightarrow> mount_fs env (config_file_partition b) b)"

definition print :: "bytes list option \<Rightarrow> ('s boot, unit) prog" where
  "print out = modify_gz (\<lambda>b. case out of None \<Rightarrow> b | Some ts \<Rightarrow> b\<lparr>printed := printed b @ ts\<rparr>)"

definition cmd_partition :: "'s opts \<Rightarrow> ('s boot, bool \<times> 's opts) prog" where
  "cmd_partition op =
     (let buf = opt_buf op
      in case after_space buf of
           None \<Rightarrow> ret_gz (False, op)
         | Some p \<Rightarrow>
             if 49 \<le> buf ! p \<and> buf ! p \<le> 56 \<and> (buf ! (p + 1) = 0 \<or> buf ! (p + 1) = 32)
             then bind_gz (modify_gz (\<lambda>b. b\<lparr>config_file_partition := uint (buf ! p) - 48\<rparr>)) (\<lambda>_.
                    ret_gz (False, op\<lparr>opt_fs := None\<rparr>))
             else ret_gz (False, op))"

definition with_fs ::
  "'s boot_env \<Rightarrow> 's opts \<Rightarrow> ('s bootfs \<Rightarrow> ('s boot, bytes list option) prog) \<Rightarrow> ('s boot, bool \<times> 's opts) prog" where
  "with_fs env op f =
     bind_gz (current_fs env op) (\<lambda>fs.
       case fs of
         None \<Rightarrow> ret_gz (False, op)
       | Some fs \<Rightarrow> bind_gz (f fs) (\<lambda>out. bind_gz (print out) (\<lambda>_. ret_gz (False, op\<lparr>opt_fs := Some fs\<rparr>))))"

definition cmd_list :: "'s boot_env \<Rightarrow> 's opts \<Rightarrow> ('s boot, bool \<times> 's opts) prog" where
  "cmd_list env op =
     with_fs env op (\<lambda>fs b. in_loader (print_config_file (alloc_env env fs b) (le_fuel (be_load env)) fs) b)"

definition cmd_dir :: "'s boot_env \<Rightarrow> 's opts \<Rightarrow> ('s boot, bool \<times> 's opts) prog" where
  "cmd_dir env op =
     with_fs env op (\<lambda>fs. in_loader (list_directory (le_fuel (be_load env)) fs
       (case after_space (opt_buf op) of None \<Rightarrow> str ''/'' | Some p \<Rightarrow> str_at (opt_buf op) p)))"

definition cmd_boot :: "'s opts \<Rightarrow> ('s boot, bool \<times> 's opts) prog" where
  "cmd_boot op =
     (case after_space (opt_buf op) of
        None \<Rightarrow> ret_gz (False, op)
      | Some p \<Rightarrow> bind_gz (defined (put_str (opt_buf op) 0 (str_at (opt_buf op) p))) (\<lambda>buf.
          ret_gz (True, op\<lparr>opt_buf := buf\<rparr>)))"

definition cmd_initrd :: "'s opts \<Rightarrow> ('s boot, bool \<times> 's opts) prog" where
  "cmd_initrd op =
     (case after_space (opt_buf op) of
        None \<Rightarrow> ret_gz (False, op)
      | Some p \<Rightarrow>
          bind_gz (gets_gz (\<lambda>b. put_str (initrd_file b) 0 (str_at (opt_buf op) p))) (\<lambda>r.
          bind_gz (defined r) (\<lambda>f.
          bind_gz (modify_gz (\<lambda>b. b\<lparr>initrd_file := f\<rparr>)) (\<lambda>_. ret_gz (False, op)))))"

definition cmd_preset :: "'s opts \<Rightarrow> ('s boot, bool \<times> 's opts) prog" where
  "cmd_preset op =
     (let op' = op\<lparr>preset := opt_buf op ! 0\<rparr>
      in case after_space (opt_buf op) of
           None \<Rightarrow> ret_gz (False, op')
         | Some p \<Rightarrow>
             bind_gz (gets_gz (\<lambda>b. put_str (kernel_args b) 0 (str_at (opt_buf op) p))) (\<lambda>r.
             bind_gz (defined r) (\<lambda>ka.
             bind_gz (modify_gz (\<lambda>b. b\<lparr>kernel_args := ka\<rparr>)) (\<lambda>_.
               ret_gz (False, op'\<lparr>extra_args := Some 0\<rparr>)))))"

text \<open>The \<open>switch\<close> on the first character; the first component of the result is \<open>done\<close>.\<close>

definition run_command :: "'s boot_env \<Rightarrow> 's opts \<Rightarrow> ('s boot, bool \<times> 's opts) prog" where
  "run_command env op =
     (let c = opt_buf op ! 0
      in if c = 113 then (\<lambda>b. (Halt, b))
         else if c = 112 then cmd_partition op
         else if c = 108 then cmd_list env op
         else if c = 100 then cmd_dir env op
         else if c = 98 then cmd_boot op
         else if c = 105 then cmd_initrd op
         else if 48 \<le> c \<and> c \<le> 57 then cmd_preset op
         else ret_gz (False, op))"

text \<open>One round of the loop for a preset: the entry of the configuration file, or back to the prompt.\<close>

definition try_preset :: "'s boot_env \<Rightarrow> 's opts \<Rightarrow> ('s boot, bool \<times> 's opts) prog" where
  "try_preset env op =
     bind_gz (current_fs env op) (\<lambda>fs.
       case fs of
         None \<Rightarrow> ret_gz (False, op\<lparr>preset := 0\<rparr>)
       | Some fs \<Rightarrow>
           bind_gz (\<lambda>b. in_loader (get_default_args (alloc_env env fs b) (le_fuel (be_load env)) fs (preset op) (opt_buf op)) b)
             (\<lambda>(r, buf).
             if r \<ge> 0 then ret_gz (True, op\<lparr>opt_fs := Some fs, opt_buf := buf\<rparr>)
             else ret_gz (False, op\<lparr>opt_fs := Some fs, opt_buf := buf, preset := 0\<rparr>)))"

definition prompt :: "'s boot_env \<Rightarrow> 's opts \<Rightarrow> ('s boot, bool \<times> 's opts) prog" where
  "prompt env op =
     bind_gz (modify_gz (\<lambda>b. b\<lparr>kernel_args := (kernel_args b)[0 := 0]\<rparr>)) (\<lambda>_.
     bind_gz (read_line (opt_buf op)) (\<lambda>buf. run_command env (op\<lparr>opt_buf := buf\<rparr>)))"

primrec options_loop :: "nat \<Rightarrow> 's boot_env \<Rightarrow> 's opts \<Rightarrow> ('s boot, 's opts) prog" where
  "options_loop 0 env op = (\<lambda>b. (Timeout, b))"
| "options_loop (Suc n) env op =
     bind_gz (if preset op \<noteq> 0 then try_preset env op else prompt env op) (\<lambda>(d, op).
       if d then ret_gz op else options_loop n env op)"

subsection \<open>Splitting the line\<close>

text \<open>Append the extra arguments, then cut at the first space.\<close>

definition append_extra :: "bytes \<Rightarrow> bytes \<Rightarrow> nat option \<Rightarrow> bytes option" where
  "append_extra buf ka extra =
     (case extra of
        None \<Rightarrow> Some buf
      | Some i \<Rightarrow> put_str buf (length (str_at buf 0)) (32 # str_at ka i))"

definition split_line :: "bytes \<Rightarrow> ('s boot, unit) prog" where
  "split_line buf b =
     (case find_chr buf 0 32 of
        None \<Rightarrow>
          (case put_str (boot_file b) 0 (str_at buf 0) of
             None \<Rightarrow> (Crash, b)
           | Some bf \<Rightarrow> (Ret (), b\<lparr>boot_file := bf\<rparr>))
      | Some p \<Rightarrow>
          let buf' = buf[p := 0]; q = skip_spaces buf' (p + 1)
          in case (put_str (kernel_args b) 0 (str_at buf' q), put_str (boot_file b) 0 (str_at buf' 0)) of
               (Some ka, Some bf) \<Rightarrow> (Ret (), b\<lparr>kernel_args := ka, boot_file := bf\<rparr>)
             | _ \<Rightarrow> (Crash, b))"

text \<open>
  The search for \<open>initrd=\<close>: the position of the option, or one behind the terminating NUL when there is
  none.
\<close>

function find_initrd :: "bytes \<Rightarrow> nat \<Rightarrow> nat option" where
  "find_initrd ka p =
     (if p \<ge> length ka then None
      else if take 7 (drop p ka) = str ''initrd='' then Some p
      else if ka ! p = 0 then Some (p + 1)
      else find_initrd ka (p + 1))"
  by pat_completeness auto
termination
  by (relation "measure (\<lambda>(ka, p). length ka - p)") auto

declare find_initrd.simps [simp del]

definition parse_initrd :: "bytes \<Rightarrow> bytes \<Rightarrow> (bytes \<times> bytes) option" where
  "parse_initrd ka file =
     (case find_initrd ka 0 of
        None \<Rightarrow> None
      | Some p \<Rightarrow>
          if p \<ge> length ka then None
          else if ka ! p = 0 then Some (ka, file)
          else
            let a = p + 7
            in if 0 \<notin> set (drop a ka) then None
               else case find_chr ka a 32 of
                 Some e \<Rightarrow>
                   (case (put_str file 0 (slice a (e - a) ka), put_str ka p (str_at ka e)) of
                      (Some f, Some k) \<Rightarrow> Some (k, f)
                    | _ \<Rightarrow> None)
               | None \<Rightarrow> map_option (\<lambda>f. (ka[p := 0], f)) (put_str file 0 (str_at ka a)))"

definition parse_partition :: "'s boot \<Rightarrow> 's boot option" where
  "parse_partition b =
     (let bf = boot_file b
      in if 48 \<le> bf ! 0 \<and> bf ! 0 \<le> 57 \<and> bf ! 1 = 47
         then map_option (\<lambda>bf'. b\<lparr>boot_part := uint (bf ! 0) - 48, boot_file := bf'\<rparr>) (put_str bf 0 (str_at bf 2))
         else Some (b\<lparr>boot_part := config_file_partition b\<rparr>))"

definition finish_options :: "('s boot, unit) prog" where
  "finish_options b =
     (case parse_initrd (kernel_args b) (initrd_file b) of
        None \<Rightarrow> (Crash, b)
      | Some (ka, f) \<Rightarrow>
          (case parse_partition (b\<lparr>kernel_args := ka, initrd_file := f\<rparr>) of
             None \<Rightarrow> (Crash, b)
           | Some b' \<Rightarrow> (Ret (), b')))"

text \<open>\<open>raw_buf\<close> is the uninitialised local array.\<close>

definition get_aboot_options :: "'s boot_env \<Rightarrow> bytes \<Rightarrow> ('s boot, unit) prog" where
  "get_aboot_options env raw_buf b =
     (case boot_flags (kernel_args b) of
        (part, pre, ia, extra) \<Rightarrow>
          let b = (case part of None \<Rightarrow> b | Some n \<Rightarrow> b\<lparr>config_file_partition := n\<rparr>)
          in if pre \<noteq> 0 \<or> ia then
               bind_gz (options_loop (le_fuel (be_load env)) env
                 \<lparr>preset = pre, extra_args = extra, opt_fs = None, opt_buf = raw_buf\<rparr>) (\<lambda>op.
               bind_gz (gets_gz (\<lambda>b. append_extra (opt_buf op) (kernel_args b) (extra_args op))) (\<lambda>r.
               bind_gz (defined r) (\<lambda>buf.
               bind_gz (split_line buf) (\<lambda>_. finish_options)))) b
             else finish_options b)"

subsection \<open>Strings in arrays and in memory\<close>

lemma str_at_cstr:
  assumes "0 \<in> set (drop i buf)"
  shows "cstr (buf_mem buf) i (str_at buf i)"
proof -
  let ?s = "str_at buf i"
  have len: "length ?s < length (drop i buf)"
  proof -
    have "drop i buf = ?s @ dropWhile (\<lambda>c. c \<noteq> 0) (drop i buf)" by (simp add: str_at_def)
    moreover have "dropWhile (\<lambda>c. c \<noteq> 0) (drop i buf) \<noteq> []" using assms by (auto simp: dropWhile_eq_Nil_conv)
    ultimately show ?thesis by (metis length_append length_greater_0_conv less_add_same_cancel1)
  qed
  then have in_buf: "i + k < length buf" if "k \<le> length ?s" for k using that by simp
  have "bytes_at (buf_mem buf) i (length ?s) = ?s"
  proof (rule nth_equalityI)
    fix k
    assume "k < length (bytes_at (buf_mem buf) i (length ?s))"
    then have k: "k < length ?s" by simp
    then have "?s ! k = drop i buf ! k" unfolding str_at_def by (rule takeWhile_nth)
    then show "bytes_at (buf_mem buf) i (length ?s) ! k = ?s ! k"
      using k in_buf [of k] by (simp add: buf_mem_def)
  qed simp
  moreover have "drop i buf ! length ?s = 0"
    using len unfolding str_at_def by (metis (mono_tags, lifting) nth_length_takeWhile)
  then have "buf_mem buf (i + length ?s) = 0" using in_buf [of "length ?s"] by (simp add: buf_mem_def)
  moreover have "0 \<notin> set ?s" unfolding str_at_def using set_takeWhileD by fastforce
  ultimately show ?thesis by (simp add: cstr_def)
qed

lemma buf_mem_put_str:
  assumes "put_str buf d s = Some buf'"
  shows "buf_mem buf' = poke (buf_mem buf) d (s @ [0])" and "length buf' = length buf"
proof -
  have b: "buf' = take d buf @ s @ [0] @ drop (d + length s + 1) buf" "d + length s < length buf"
    using assms by (auto simp: put_str_def split: if_splits)
  then show "length buf' = length buf" by simp
  show "buf_mem buf' = poke (buf_mem buf) d (s @ [0])"
    using b(2) unfolding b(1) by (auto simp: fun_eq_iff buf_mem_def poke_def nth_append)
qed

text \<open>
  The array copies of the option parser are \<open>strcpy\<close> of the string library: wherever \<open>put_str\<close> is defined,
  the \<open>strcpy\<close> loop, run on the memory of the array, ends and leaves the same bytes, also when source and
  destination overlap as they do when a partition number or an option is cut out in place.
\<close>

theorem put_str_is_strcpy:
  assumes "0 \<in> set (drop s buf)" and "put_str buf d (str_at buf s) = Some buf'" and "d \<le> s"
  shows "strcpy d s (buf_mem buf) = Some (d, buf_mem buf')"
  using strcpy_loop_cstr [OF str_at_cstr [OF assms(1)], of d] assms(3) buf_mem_put_str(1) [OF assms(2)]
  by (simp add: strcpy_def)

theorem put_str_is_strcpy_witness:
  "strcpy 0 2 (buf_mem [49, 47, 97, 98, 0, 7]) = Some (0, buf_mem [97, 98, 0, 98, 0, 7])"
  by (rule put_str_is_strcpy) (simp_all add: str_at_def put_str_def)

subsection \<open>The arrays stay strings\<close>

definition array_ok :: "bytes \<Rightarrow> bool" where
  "array_ok buf \<longleftrightarrow> length buf = 256 \<and> 0 \<in> set buf"

definition boot_ok :: "'s boot \<Rightarrow> bool" where
  "boot_ok b \<longleftrightarrow> array_ok (boot_file b) \<and> array_ok (initrd_file b) \<and> array_ok (kernel_args b)"

lemma put_str_ok: "put_str buf i s = Some buf' \<Longrightarrow> length buf = 256 \<Longrightarrow> array_ok buf'"
  by (auto simp: put_str_def array_ok_def split: if_splits)

lemma array_ok_update: "array_ok buf \<Longrightarrow> i < 256 \<Longrightarrow> array_ok (buf[i := 0])"
  by (auto simp: array_ok_def set_update_memI)

lemma boot_frame_ok: "boot_frame b b' \<Longrightarrow> boot_ok b \<Longrightarrow> boot_ok b'"
  by (simp add: boot_ok_def boot_frame_fields)

lemma in_loader_keeps: "(\<And>x. R x) \<Longrightarrow> keeps boot_ok (in_loader m) R"
  by (rule keepsI) (metis boot_frame_ok in_loader_frame)

lemma defined_keeps: "(\<And>x. r = Some x \<Longrightarrow> R x) \<Longrightarrow> keeps P (defined r) R"
  by (auto simp: keeps_def defined_def split: option.splits)

lemma current_fs_keeps: "keeps boot_ok (current_fs env op) (\<lambda>_. True)"
  by (rule keepsI) (auto simp: current_fs_def intro: boot_frame_ok [OF mount_fs_frame] split: option.splits)

lemma read_line_keeps: "keeps boot_ok (read_line buf) (\<lambda>_. True)"
  by (rule keepsI) (auto simp: read_line_def defined_def boot_ok_def split: option.splits)

lemma print_keeps: "keeps boot_ok (print out) (\<lambda>_. True)"
  unfolding print_def by (rule keeps_modify) (auto simp: boot_ok_def split: option.splits)

lemma put_keeps:
  assumes "\<And>b. boot_ok b \<Longrightarrow> length (a b) = 256" and "\<And>b x. boot_ok b \<Longrightarrow> array_ok x \<Longrightarrow> boot_ok (u x b)"
  shows "keeps boot_ok (bind_gz (gets_gz (\<lambda>b. put_str (a b) 0 s)) (\<lambda>r. bind_gz (defined r) (\<lambda>x.
           bind_gz (modify_gz (u x)) (\<lambda>_. ret_gz y)))) (\<lambda>_. True)"
proof (rule keepsI)
  fix b z b'
  assume ok: "boot_ok b"
    and run: "bind_gz (gets_gz (\<lambda>b. put_str (a b) 0 s)) (\<lambda>r. bind_gz (defined r) (\<lambda>x.
           bind_gz (modify_gz (u x)) (\<lambda>_. ret_gz y))) b = (Ret z, b')"
  then obtain x where "put_str (a b) 0 s = Some x" "b' = u x b"
    by (auto simp: gz_simps defined_def bind_gz_def split: option.splits)
  then show "boot_ok b' \<and> True" using assms ok put_str_ok by metis
qed

lemmas command_keeps = keeps_bind [OF in_loader_keeps [of "\<lambda>_. True"]] keeps_bind [OF current_fs_keeps]
  keeps_bind [OF print_keeps] keeps_bind [OF read_line_keeps] keeps_bind [OF defined_keeps [of _ "\<lambda>_. True"]] put_keeps

lemma with_fs_keeps:
  assumes "\<And>fs. keeps boot_ok (f fs) (\<lambda>_. True)"
  shows "keeps boot_ok (with_fs env op f) (\<lambda>_. True)"
  unfolding with_fs_def by (intro command_keeps keeps_bind [OF assms] keeps_rules TrueI)

lemma run_command_keeps: "keeps boot_ok (run_command env op) (\<lambda>_. True)"
proof -
  have "keeps boot_ok (\<lambda>b. in_loader (g b) b) (\<lambda>_. True)" for g :: "'s boot \<Rightarrow> ('s, bytes list option) gzm"
    by (rule keepsI) (metis boot_frame_ok in_loader_frame)
  then have l: "keeps boot_ok (cmd_list env op) (\<lambda>_. True)" unfolding cmd_list_def by (intro with_fs_keeps) 
  have d: "keeps boot_ok (cmd_dir env op) (\<lambda>_. True)" unfolding cmd_dir_def by (intro with_fs_keeps in_loader_keeps TrueI)
  have p: "keeps boot_ok (cmd_partition op) (\<lambda>_. True)"
    unfolding cmd_partition_def by (intro keeps_rules keeps_bind [OF keeps_modify [where R = "\<lambda>_. True"]] TrueI) (simp_all add: boot_ok_def)
  have b: "keeps boot_ok (cmd_boot op) (\<lambda>_. True)"
    unfolding cmd_boot_def by (intro keeps_rules command_keeps TrueI)
  have i: "keeps boot_ok (cmd_initrd op) (\<lambda>_. True)"
    unfolding cmd_initrd_def by (intro keeps_rules command_keeps TrueI) (auto simp: boot_ok_def array_ok_def)
  have n: "keeps boot_ok (cmd_preset op) (\<lambda>_. True)"
    unfolding cmd_preset_def by (intro keeps_rules command_keeps TrueI) (auto simp: boot_ok_def array_ok_def)
  show ?thesis
    unfolding run_command_def Let_def by (intro keeps_rules l d p b i n TrueI) (simp add: keeps_def)
qed

lemma prompt_keeps: "keeps boot_ok (prompt env op) (\<lambda>_. True)"
  unfolding prompt_def
  by (intro keeps_bind [OF keeps_modify [where R = "\<lambda>_. True"]] command_keeps run_command_keeps TrueI) (simp add: boot_ok_def array_ok_update)

lemma try_preset_keeps: "keeps boot_ok (try_preset env op) (\<lambda>_. True)"
proof -
  have "keeps boot_ok (\<lambda>b. in_loader (g b) b) (\<lambda>_. True)" for g :: "'s boot \<Rightarrow> ('s, int \<times> bytes) gzm"
    by (rule keepsI) (metis boot_frame_ok in_loader_frame)
  then show ?thesis
    unfolding try_preset_def by (intro command_keeps keeps_rules keeps_bind [where R = "\<lambda>_. True"] TrueI)
qed

lemma options_loop_keeps: "keeps boot_ok (options_loop n env op) (\<lambda>_. True)"
proof (induction n arbitrary: op)
  case (Suc n)
  then show ?case
    by (auto intro!: keeps_bind [where R = "\<lambda>_. True"] try_preset_keeps prompt_keeps keeps_rules)
qed (simp add: keeps_def)

lemma parse_initrd_ok:
  assumes "parse_initrd ka f = Some (ka', f')" and "array_ok ka" and "array_ok f"
  shows "array_ok ka' \<and> array_ok f'"
proof -
  have "length ka = 256" "length f = 256" using assms(2,3) by (auto simp: array_ok_def)
  with assms put_str_ok show ?thesis
    by (auto simp: parse_initrd_def Let_def array_ok_update split: option.splits if_splits prod.splits)
qed

lemma finish_options_keeps: "keeps boot_ok finish_options (\<lambda>_. True)"
proof (rule keepsI)
  fix b :: "'s boot" and u b'
  assume ok: "boot_ok b" and "finish_options b = (Ret u, b')"
  then obtain ka f where p: "parse_initrd (kernel_args b) (initrd_file b) = Some (ka, f)"
      "parse_partition (b\<lparr>kernel_args := ka, initrd_file := f\<rparr>) = Some b'"
    by (auto simp: finish_options_def split: option.splits)
  with ok parse_initrd_ok have "array_ok ka" "array_ok f" "array_ok (boot_file b)" by (auto simp: boot_ok_def)
  with p(2) put_str_ok show "boot_ok b' \<and> True"
    by (auto simp: parse_partition_def Let_def boot_ok_def array_ok_def [of "boot_file b"] split: if_splits)
qed

lemma split_line_keeps: "keeps boot_ok (split_line buf) (\<lambda>_. True)"
proof (rule keepsI)
  fix b :: "'s boot" and u b'
  assume ok: "boot_ok b" and run: "split_line buf b = (Ret u, b')"
  have "length (boot_file b) = 256" "length (kernel_args b) = 256" using ok by (auto simp: boot_ok_def array_ok_def)
  with ok run put_str_ok show "boot_ok b' \<and> True"
    by (auto simp: split_line_def Let_def boot_ok_def split: option.splits)
qed

lemma get_aboot_options_keeps: "keeps boot_ok (get_aboot_options env raw_buf) (\<lambda>_. True)" for env :: "'s boot_env"
proof -
  have "keeps boot_ok (bind_gz (options_loop n env op) (\<lambda>op.
      bind_gz (gets_gz (\<lambda>b. append_extra (opt_buf op) (kernel_args b) (extra_args op))) (\<lambda>r.
      bind_gz (defined r) (\<lambda>buf. bind_gz (split_line buf) (\<lambda>_. finish_options))))) (\<lambda>_. True)" for n op
    by (intro keeps_bind [OF options_loop_keeps] keeps_bind [OF keeps_gets [of _ "\<lambda>_. True"]] command_keeps
        keeps_bind [OF split_line_keeps] finish_options_keeps TrueI)
  note run = keepsD [OF this]
  show ?thesis
  proof (rule keepsI)
    fix b :: "'s boot" and u b'
    assume "boot_ok b" and r: "get_aboot_options env raw_buf b = (Ret u, b')"
    then have ok: "boot_ok (case part of None \<Rightarrow> b | Some n \<Rightarrow> b\<lparr>config_file_partition := n\<rparr>)" for part
      by (simp add: boot_ok_def split: option.split)
    show "boot_ok b' \<and> True"
      using r run [OF ok] keepsD [OF finish_options_keeps ok]
      by (auto simp: get_aboot_options_def Let_def split: prod.splits if_splits)
  qed
qed


subsection \<open>Reading a copied string\<close>

lemma put_str_at:
  assumes "put_str buf 0 s = Some b1" and "0 \<notin> set s" and "j \<le> length s"
  shows "str_at b1 j = drop j s" and "drop j b1 = drop j s @ 0 # drop (length s + 1) buf" and "length b1 = length buf"
proof -
  have b1: "b1 = s @ 0 # drop (length s + 1) buf" "length s < length buf"
    using assms(1) by (auto simp: put_str_def split: if_splits)
  then show d: "drop j b1 = drop j s @ 0 # drop (length s + 1) buf" using assms(3) by simp
  have "\<forall>c \<in> set (drop j s). c \<noteq> 0" using assms(2) by (auto dest: in_set_dropD)
  then show "str_at b1 j = drop j s" unfolding str_at_def d by (subst takeWhile_append2) auto
  show "length b1 = length buf" using b1 by simp
qed

lemma put_str_Some: "length s < length buf \<Longrightarrow> \<exists>b1. put_str buf 0 s = Some b1"
  by (simp add: put_str_def)

lemma find_chr_first:
  assumes "str_at buf i = a @ c # r" and "c \<notin> set a"
  shows "find_chr buf i c = Some (i + length a)"
proof -
  have "takeWhile (\<lambda>x. x \<noteq> c) (a @ c # r) = a" using assms(2) by (induction a) auto
  then show ?thesis by (simp add: find_chr_def assms(1))
qed

lemma find_chr_none: "c \<notin> set (str_at buf i) \<Longrightarrow> find_chr buf i c = None"
  by (simp add: find_chr_def)

lemma skip_spaces_none:
  assumes "drop i buf = x # xs" and "x \<noteq> 32"
  shows "skip_spaces buf i = i"
  using assms by (simp add: skip_spaces_def)

subsection \<open>A typed line\<close>

definition printable :: "char \<Rightarrow> bool" where
  "printable c \<longleftrightarrow> CHR '' '' \<le> c \<and> c < CHR 0x7F"

lemma printable_getline:
  assumes "printable c" and "int (length buf) < 255"
  shows "getline_char 256 c buf echo = (buf @ [c], echo @ [c]) \<and> c \<noteq> CR \<and> c \<noteq> LF"
proof -
  have "c \<noteq> CHR 0x00" "c \<noteq> CHR 0x08" "c \<noteq> CHR 0x7F" "c \<noteq> CR" "c \<noteq> LF"
    using assms(1) by (auto simp: printable_def CR_def LF_def less_eq_char_def less_char_def)
  with assms show ?thesis by (auto simp: getline_char_def printable_def less_imp_le)
qed

lemma getline_printable:
  assumes "list_all printable ln" and "length buf + length ln < 256"
  shows "getline_loop 256 buf echo (ln @ CR # rest) = Some (buf @ ln, echo @ ln, rest)"
  using assms
proof (induction ln arbitrary: buf echo)
  case Nil
  then show ?case by (simp add: getline_char_def CR_def LF_def)
next
  case (Cons c ln)
  then show ?case using printable_getline [of c buf echo] by simp
qed

lemma of_char_u8: "(of_char c :: u8) = of_char d \<longleftrightarrow> c = d"
proof
  assume "(of_char c :: u8) = of_char d"
  then have "unat (of_nat (of_char c) :: u8) = unat (of_nat (of_char d) :: u8)" by (simp only: of_nat_of_char)
  then have "take_bit 8 (of_char c :: nat) = take_bit 8 (of_char d)" by (simp add: unat_of_nat)
  then show "c = d" by (simp add: take_bit_eq_mod)
qed simp

lemma printable_str:
  assumes "list_all printable ln"
  shows "0 \<notin> set (str ln)"
proof -
  have "(of_char c :: u8) \<noteq> 0" if "printable c" for c
    using that by (cases c) (auto simp: printable_def less_eq_char_def less_char_def of_bool_def split: if_splits)
  with assms show ?thesis by (auto simp: str_def list_all_iff)
qed

lemma interactive_boot:
  assumes flags: "boot_flags (kernel_args b) = (None, 0, True, None)" and "le_fuel (be_load env) = Suc n"
    and len: "length raw_buf = 256" "length ln < 254" and ln: "list_all printable ln" "ln \<noteq> []" "hd ln \<noteq> CHR '' ''"
    and inp: "input b = ''b '' @ ln @ CR # rest"
  shows "\<exists>buf. str_at buf 0 = str ln \<and> drop (length ln) buf = 0 # drop (length ln + 1) buf \<and> length buf = 256
     \<and> get_aboot_options env raw_buf b = bind_gz (split_line buf) (\<lambda>_. finish_options)
         (b\<lparr>kernel_args := (kernel_args b)[0 := 0], input := rest\<rparr>)"
proof -
  let ?l = "CHR ''b'' # CHR '' '' # ln" and ?b = "b\<lparr>kernel_args := (kernel_args b)[0 := 0], input := rest\<rparr>"
  have sl: "str ?l = 98 # 32 # str ln" by (simp add: str_def)
  have nul: "0 \<notin> set (str ln)" by (rule printable_str [OF ln(1)])
  have slen: "length (str ln) = length ln" by (simp add: str_def)
  have "printable (CHR ''b'')" "printable (CHR '' '')" by (simp_all add: printable_def less_eq_char_def less_char_def)
  then have line: "getline 256 (input b) = Some (?l, ?l, rest)"
    using getline_printable [of ?l "[]" "[]" rest] ln(1) len(2) by (simp add: getline_def inp)
  obtain b1 where b1: "put_str raw_buf 0 (str ?l) = Some b1"
    using put_str_Some [of "str ?l" raw_buf] len slen by (auto simp: sl)
  note at = put_str_at [OF b1]
  have s0: "str_at b1 0 = [98] @ 32 # str ln" "str_at b1 2 = str ln" and d: "drop 2 b1 = str ln @ 0 # drop (Suc (Suc (Suc (length ln)))) raw_buf"
      "b1 ! 0 = 98" and lb1: "length b1 = 256"
    using at [of 0] at [of 2] nul len slen by (auto simp: sl hd_drop_conv_nth [symmetric] hd_append)
  obtain x xs where x: "str ln = x # xs" "x \<noteq> 32"
  proof -
    have "of_char (hd ln) \<noteq> (32 :: u8)"
    proof
      assume "of_char (hd ln) = (32 :: u8)"
      then have "of_char (hd ln) = (of_char (CHR '' '') :: u8)" by simp
      then have "hd ln = CHR '' ''" by (simp only: of_char_u8)
      with ln(3) show False by simp
    qed
    with that ln(2) show ?thesis by (cases ln) (auto simp: str_def)
  qed
  have "find_chr b1 0 32 = Some 1" using find_chr_first [OF s0(1)] by simp
  moreover have "drop 1 b1 = 32 # x # xs @ 0 # drop (Suc (Suc (Suc (length ln)))) raw_buf"
    using at(2) [of 1] nul slen x(1) by (simp add: sl)
  ultimately have sp: "after_space b1 = Some 2" using x(2) by (simp add: after_space_def skip_spaces_def)
  obtain b2 where b2: "put_str b1 0 (str ln) = Some b2"
    using put_str_Some [of "str ln" b1] len(2) slen lb1 by auto
  let ?op = "\<lparr>preset = 0, extra_args = None, opt_fs = None, opt_buf = raw_buf\<rparr>"
  have "read_line raw_buf (b\<lparr>kernel_args := (kernel_args b)[0 := 0]\<rparr>) = (Ret b1, ?b)"
    using line b1 by (simp add: read_line_def defined_def)
  moreover have "run_command env (?op\<lparr>opt_buf := b1\<rparr>) ?b = (Ret (True, ?op\<lparr>opt_buf := b2\<rparr>), ?b)"
    using sp b2 d(2) s0(2) by (simp add: run_command_def cmd_boot_def bind_gz_def defined_def gz_simps)
  ultimately have "prompt env ?op b = (Ret (True, ?op\<lparr>opt_buf := b2\<rparr>), ?b)"
    by (simp add: prompt_def gz_simps bind_gz_Ret)
  then have "options_loop (Suc n) env ?op b = (Ret (?op\<lparr>opt_buf := b2\<rparr>), ?b)"
    by (simp add: bind_gz_Ret gz_simps)
  then have "get_aboot_options env raw_buf b = bind_gz (split_line b2) (\<lambda>_. finish_options) ?b"
    using flags assms(2)
    by (simp add: get_aboot_options_def bind_gz_Ret gz_simps append_extra_def defined_def del: options_loop.simps)
  moreover have "str_at b2 0 = str ln" "drop (length ln) b2 = 0 # drop (length ln + 1) b2" "length b2 = 256"
    using put_str_at [OF b2 nul, of 0] slen lb1 by simp_all
  ultimately show ?thesis by blast
qed

subsection \<open>The ramdisk option\<close>

definition INITRD :: bytes where
  "INITRD = str ''initrd=''"

lemma INITRD_nul: "0 \<notin> set INITRD" "length INITRD = 7" "INITRD \<noteq> []"
  by (simp_all add: INITRD_def str_def)

lemma take7_prefix:
  assumes "p \<le> length s"
  shows "take 7 (drop p (s @ 0 # r)) = INITRD \<longleftrightarrow> take 7 (drop p s) = INITRD"
proof (cases "p + 7 \<le> length s")
  case True
  then show ?thesis by simp
next
  case False
  have "take 7 (drop p s) \<noteq> INITRD"
  proof
    assume "take 7 (drop p s) = INITRD"
    then have "length (take 7 (drop p s)) = 7" using INITRD_nul by simp
    with False show False by simp
  qed
  moreover have "take 7 (drop p (s @ 0 # r)) \<noteq> INITRD"
  proof -
    have "0 \<in> set (take 7 (drop p s @ 0 # r))" using False by (simp add: take_Cons')
    moreover have "drop p (s @ 0 # r) = drop p s @ 0 # r" using assms by simp
    ultimately show ?thesis using INITRD_nul(1) by metis
  qed
  ultimately show ?thesis by simp
qed

lemma find_initrd_none:
  assumes "ka = s @ 0 # r" and "0 \<notin> set s" and "\<forall>q. take 7 (drop q s) \<noteq> INITRD" and "p \<le> length s"
  shows "find_initrd ka p = Some (length s + 1)"
  using assms(4)
proof (induction "length s - p" arbitrary: p)
  case 0
  then have "p = length s" by simp
  with assms show ?case using take7_prefix [of p s r] by (subst find_initrd.simps) (auto simp: INITRD_nul(3) [symmetric] simp flip: INITRD_def)
next
  case (Suc n)
  then have p: "p < length s" by simp
  then have "ka ! p \<noteq> 0" using assms(1,2) by (metis nth_append nth_mem)
  then show ?case
    using Suc p assms(1,3) take7_prefix [of p s r] by (subst find_initrd.simps) (simp flip: INITRD_def)
qed

lemma find_initrd_match:
  assumes "ka = s @ 0 # r" and "0 \<notin> set s" and "take 7 (drop p s) = INITRD" and "\<forall>q < p. take 7 (drop q s) \<noteq> INITRD" and "q \<le> p"
  shows "find_initrd ka q = Some p"
  using assms(5)
proof (induction "p - q" arbitrary: q)
  case 0
  have "length (take 7 (drop p s)) = 7" using assms(3) INITRD_nul by simp
  then have "p < length s" by simp
  with 0 assms(1,3) show ?case using take7_prefix [of p s r] by (subst find_initrd.simps) (simp flip: INITRD_def)
next
  case (Suc n)
  have "length (take 7 (drop p s)) = 7" using assms(3) INITRD_nul by simp
  then have "q < length s" using Suc by simp
  then have "ka ! q \<noteq> 0" using assms(1,2) by (metis nth_append nth_mem)
  then show ?case
    using Suc \<open>q < length s\<close> assms(1,4) take7_prefix [of q s r] by (subst find_initrd.simps) (simp flip: INITRD_def)
qed

lemma c_string_split:
  assumes "0 \<in> set ka"
  shows "\<exists>r. ka = c_string ka @ 0 # r" and "0 \<notin> set (c_string ka)"
proof -
  have "ka = c_string ka @ dropWhile (\<lambda>c. c \<noteq> 0) ka" by (simp add: c_string_def)
  moreover have "dropWhile (\<lambda>c. c \<noteq> 0) ka \<noteq> []" using assms by (auto simp: dropWhile_eq_Nil_conv)
  moreover from this have "hd (dropWhile (\<lambda>c. c \<noteq> 0) ka) = 0" using hd_dropWhile by blast
  ultimately show "\<exists>r. ka = c_string ka @ 0 # r" by (metis list.collapse)
  show "0 \<notin> set (c_string ka)" unfolding c_string_def using set_takeWhileD by fastforce
qed

lemma c_string_append: "0 \<notin> set s \<Longrightarrow> c_string (s @ 0 # r) = s"
  unfolding c_string_def by (induction s) auto

lemma str_at_append: "i \<le> length s \<Longrightarrow> 0 \<notin> set s \<Longrightarrow> str_at (s @ 0 # r) i = drop i s"
  using c_string_append [of "drop i s" r] by (auto simp: str_at_def c_string_def dest: in_set_dropD)

text \<open>
  The option \<open>initrd=\<close> in the middle of the kernel arguments is cut out and its value becomes the name of the ramdisk:
  from \<open>pre initrd=f post\<close> the parser takes \<open>f\<close> and leaves \<open>pre post\<close>.
\<close>

theorem parse_initrd_extracts:
  assumes "c_string ka = pre @ str ''initrd='' @ f @ 32 # post" and "array_ok ka" and "length name = 256" and "32 \<notin> set f"
    and "\<forall>q < length pre. take 7 (drop q (c_string ka)) \<noteq> str ''initrd=''"
  shows "\<exists>ka' name'. parse_initrd ka name = Some (ka', name') \<and> c_string ka' = pre @ 32 # post \<and> c_string name' = f"
proof -
  let ?s = "c_string ka" and ?p = "length pre" and ?e = "length pre + 7 + length f"
  obtain r where r: "ka = ?s @ 0 # r" "0 \<notin> set ?s" using c_string_split assms(2) by (auto simp: array_ok_def)
  have s: "?s = pre @ INITRD @ f @ 32 # post" using assms(1) by (simp add: INITRD_def)
  have nul: "0 \<notin> set pre" "0 \<notin> set f" "0 \<notin> set post" using r(2) unfolding s by auto
  have len: "length ka = 256" "length ?s < 256" using assms(2) r(1) by (auto simp: array_ok_def dest: arg_cong [of _ _ length])
  have "find_initrd ka 0 = Some ?p"
    by (rule find_initrd_match [OF r]) (use assms(5) INITRD_nul(2) in \<open>simp_all add: s flip: INITRD_def\<close>)
  moreover have "ka ! ?p \<noteq> 0"
  proof -
    have "ka ! ?p = (?s @ 0 # r) ! ?p" using r(1) by metis
    then have "ka ! ?p = INITRD ! 0" using INITRD_nul(2) by (simp add: s nth_append)
    then show ?thesis by (simp add: INITRD_def str_def)
  qed
  moreover have at: "str_at ka i = drop i ?s" if "i \<le> length ?s" for i
    using str_at_append [OF that r(2)] r(1) by metis
  have "str_at ka (?p + 7) = f @ 32 # post" using at [of "?p + 7"] INITRD_nul(2) by (simp add: s)
  from find_chr_first [OF this assms(4)] have "find_chr ka (?p + 7) 32 = Some ?e" .
  moreover have "0 \<in> set (drop (?p + 7) ka)"
  proof -
    have "drop (?p + 7) ka = (f @ 32 # post) @ 0 # r" by (subst r(1)) (simp add: s INITRD_nul)
    then show ?thesis by simp
  qed
  moreover have "slice (?p + 7) (?e - (?p + 7)) ka = f"
    by (subst r(1)) (simp add: s slice_def INITRD_nul)
  moreover have "str_at ka ?e = 32 # post" using at [of ?e] INITRD_nul(2) by (simp add: s)
  moreover obtain name' where "put_str name 0 f = Some name'" "c_string name' = f"
  proof -
    have "length f < 256" using len(2) by (simp add: s)
    then show ?thesis using that assms(3) nul(2) by (simp add: put_str_def c_string_append)
  qed
  moreover obtain ka' where "put_str ka ?p (32 # post) = Some ka'" "c_string ka' = pre @ 32 # post"
  proof -
    have "take ?p ka = pre" by (subst r(1)) (simp add: s)
    moreover have "?p + length (32 # post) < length ka" using len by (simp add: s)
    ultimately have "put_str ka ?p (32 # post) = Some ((pre @ 32 # post) @ 0 # drop (?p + length (32 # post) + 1) ka)"
      by (simp add: put_str_def)
    moreover have "c_string ((pre @ 32 # post) @ 0 # x) = pre @ 32 # post" for x
      using nul by (intro c_string_append) auto
    ultimately show ?thesis using that by blast
  qed
  moreover have "\<not> length ka \<le> ?p" using len by (simp add: s)
  ultimately show ?thesis by (auto simp: parse_initrd_def Let_def)
qed

lemma length_str [simp]: "length (str s) = length s"
  by (simp add: str_def)

theorem parse_initrd_extracts_witness:
  "\<exists>ka' name'. parse_initrd (str ''root=/dev/sda2 initrd=/rd.gz quiet'' @ replicate 222 0) (replicate 256 7) = Some (ka', name')
     \<and> c_string ka' = str ''root=/dev/sda2  quiet'' \<and> c_string name' = str ''/rd.gz''"
proof -
  let ?ka = "str ''root=/dev/sda2 initrd=/rd.gz quiet'' @ replicate 222 0"
  have s: "c_string ?ka = str ''root=/dev/sda2 '' @ str ''initrd='' @ str ''/rd.gz'' @ 32 # str ''quiet''"
    by (simp add: c_string_def str_def)
  have "\<exists>ka' name'. parse_initrd ?ka (replicate 256 7) = Some (ka', name')
     \<and> c_string ka' = str ''root=/dev/sda2 '' @ 32 # str ''quiet'' \<and> c_string name' = str ''/rd.gz''"
  proof (rule parse_initrd_extracts [OF s])
    show "array_ok ?ka" by (simp add: array_ok_def str_def)
    have "list_all (\<lambda>q. take 7 (drop q (c_string ?ka)) \<noteq> str ''initrd='') [0..<15]"
      unfolding s by (simp add: str_def upt_rec)
    then show "\<forall>q < length (str ''root=/dev/sda2 ''). take 7 (drop q (c_string ?ka)) \<noteq> str ''initrd=''"
      by (simp add: list_all_iff length_str)
  qed (simp_all add: str_def)
  then show ?thesis by (simp add: str_def)
qed

subsection \<open>Booting from the prompt\<close>

lemma of_char_space: "(32 :: u8) = of_char c \<longleftrightarrow> c = CHR '' ''" "of_char c = (32 :: u8) \<longleftrightarrow> c = CHR '' ''"
  using of_char_u8 [of c "CHR '' ''"] by auto

lemma parse_initrd_none:
  assumes "ka = s @ 0 # 0 # r" and "0 \<notin> set s" and "\<forall>q. take 7 (drop q s) \<noteq> str ''initrd=''"
  shows "parse_initrd ka name = Some (ka, name)"
  using find_initrd_none [OF assms(1,2), of 0] assms(1,3) by (simp add: parse_initrd_def nth_append flip: INITRD_def)

lemma finish_options_plain:
  assumes "parse_initrd (kernel_args b) (initrd_file b) = Some (ka, f)"
    and "\<not> (48 \<le> boot_file b ! 0 \<and> boot_file b ! 0 \<le> 57 \<and> boot_file b ! 1 = 47)"
  shows "finish_options b = (Ret (), b\<lparr>kernel_args := ka, initrd_file := f, boot_part := config_file_partition b\<rparr>)"
proof -
  have "parse_partition (b\<lparr>kernel_args := ka, initrd_file := f\<rparr>)
      = Some (b\<lparr>kernel_args := ka, initrd_file := f, boot_part := config_file_partition b\<rparr>)"
    using assms(2) by (auto simp: parse_partition_def)
  then show ?thesis using assms(1) by (simp add: finish_options_def)
qed

lemma split_line_args:
  assumes "str_at buf 0 = f @ 32 # a" and "buf = str_at buf 0 @ 0 # r" and "32 \<notin> set f" and "a = [] \<or> hd a \<noteq> 32"
    and "length (boot_file b) = 256" and "length (kernel_args b) = 256" and "length (f @ 32 # a) < 256"
  shows "\<exists>bf. split_line buf b = (Ret (), b\<lparr>kernel_args := a @ 0 # drop (length a + 1) (kernel_args b), boot_file := bf\<rparr>)
           \<and> bf = f @ 0 # drop (length f + 1) (boot_file b)"
proof -
  have buf: "buf = f @ 32 # a @ 0 # r" using assms(1,2) by simp
  have nul: "0 \<notin> set f" "0 \<notin> set a" using assms(1) set_takeWhileD [of _ "\<lambda>c. c \<noteq> 0" "drop 0 buf"] by (auto simp: str_at_def)
  have p: "find_chr buf 0 32 = Some (length f)" using find_chr_first [OF assms(1,3)] by simp
  have b': "buf[length f := 0] = f @ 0 # a @ 0 # r" by (simp add: buf)
  have "takeWhile (\<lambda>c. c = 32) (a @ 0 # r) = []" using assms(4) by (cases a) auto
  then have q: "skip_spaces (buf[length f := 0]) (length f + 1) = length f + 1" by (simp add: b' skip_spaces_def)
  have "str_at (buf[length f := 0]) (length f + 1) = a" "str_at (buf[length f := 0]) 0 = f"
    using c_string_append [OF nul(2), of r] c_string_append [OF nul(1), of "a @ 0 # r"] by (simp_all add: b' str_at_def c_string_def)
  with p q assms(5-7) show ?thesis by (simp add: split_line_def put_str_def Let_def)
qed

text \<open>
  C19.  Typing \<open>b file args\<close> at the prompt boots what was typed: after the flag \<open>i\<close> on clean arrays, the boot file is \<open>file\<close>, the
  kernel arguments are \<open>args\<close>, ramdisk and partition keep their values, and the rest of the input is left.
\<close>

theorem boot_command:
  assumes "kernel_args b = 105 # replicate 255 0" and "length (boot_file b) = 256" and "length raw_buf = 256"
    and "le_fuel (be_load env) = Suc n" and "input b = ''b '' @ fl @ CHR '' '' # ar @ CR # rest"
    and "list_all printable (fl @ ar)" and "fl \<noteq> []" and "CHR '' '' \<notin> set fl" and "ar = [] \<or> hd ar \<noteq> CHR '' ''"
    and "length fl + length ar < 253" and "\<forall>q. take 7 (drop q (str ar)) \<noteq> str ''initrd=''"
    and "\<not> (48 \<le> hd (str fl) \<and> hd (str fl) \<le> 57 \<and> length fl > 1 \<and> str fl ! 1 = 47)"
  shows "\<exists>b'. get_aboot_options env raw_buf b = (Ret (), b') \<and> c_string (boot_file b') = str fl
           \<and> c_string (kernel_args b') = str ar \<and> initrd_file b' = initrd_file b
           \<and> boot_part b' = config_file_partition b \<and> input b' = rest"
proof -
  let ?ln = "fl @ CHR '' '' # ar" and ?b = "b\<lparr>kernel_args := (kernel_args b)[0 := 0], input := rest\<rparr>"
  have sp: "printable (CHR '' '')" by (simp add: printable_def less_eq_char_def less_char_def)
  have flags: "boot_flags (kernel_args b) = (None, 0, True, None)" by (simp add: boot_flags_def assms(1))
  have ln: "list_all printable ?ln" "?ln \<noteq> []" "hd ?ln \<noteq> CHR '' ''" "length ?ln < 254"
    using assms(6-8,10) sp by (cases fl; auto)+
  obtain buf where buf: "str_at buf 0 = str ?ln" "drop (length ?ln) buf = 0 # drop (length ?ln + 1) buf" "length buf = 256"
      "get_aboot_options env raw_buf b = bind_gz (split_line buf) (\<lambda>_. finish_options) ?b"
    using interactive_boot [OF flags assms(4,3) ln(4,1-3)] assms(5) by auto
  have "take (length ?ln) buf = str ?ln"
  proof -
    have "take (length (str_at buf 0)) buf = str_at buf 0" unfolding str_at_def drop_0 by (metis takeWhile_eq_take)
    then show ?thesis unfolding buf(1) by (simp add: str_def)
  qed
  then have whole: "buf = str_at buf 0 @ 0 # drop (length ?ln + 1) buf" using buf(1,2) by (metis append_take_drop_id)
  have "str_at buf 0 = str fl @ 32 # str ar" using buf(1) by (simp add: str_def)
  moreover have "32 \<notin> set (str fl)" "str ar = [] \<or> hd (str ar) \<noteq> 32"
    using assms(8,9) by (auto simp: str_def hd_map of_char_space)
  ultimately have sl: "split_line buf ?b = (Ret (), ?b\<lparr>kernel_args := str ar @ 0 # drop (length (str ar) + 1) (kernel_args ?b),
      boot_file := str fl @ 0 # drop (length (str fl) + 1) (boot_file b)\<rparr>)"
    using split_line_args [of buf "str fl" "str ar" _ ?b, OF _ whole] assms(1,2,10) by simp
  let ?ka = "str ar @ 0 # drop (length (str ar) + 1) (kernel_args ?b)" and ?bf = "str fl @ 0 # drop (length (str fl) + 1) (boot_file b)"
  have "length ar < 253" using assms(10) by simp
  then have "drop (length (str ar) + 1) (kernel_args ?b) = 0 # replicate (254 - length ar) 0"
    by (simp add: assms(1) str_def Suc_diff_le flip: replicate_Suc)
  then have "?ka = str ar @ 0 # 0 # replicate (254 - length ar) 0" by simp
  moreover have nul: "0 \<notin> set (str ar)" "0 \<notin> set (str fl)" using assms(6) printable_str by auto
  ultimately have pi: "parse_initrd ?ka (initrd_file b) = Some (?ka, initrd_file b)"
    using parse_initrd_none assms(11) by blast
  have "\<not> (48 \<le> ?bf ! 0 \<and> ?bf ! 0 \<le> 57 \<and> ?bf ! 1 = 47)"
    using assms(7,12) by (cases fl; cases "tl fl") (auto simp: str_def)
  then have "finish_options (?b\<lparr>kernel_args := ?ka, boot_file := ?bf\<rparr>) = (Ret (), ?b\<lparr>kernel_args := ?ka, boot_file := ?bf\<rparr>
      \<lparr>kernel_args := ?ka, initrd_file := initrd_file b, boot_part := config_file_partition b\<rparr>)"
    using finish_options_plain [of "?b\<lparr>kernel_args := ?ka, boot_file := ?bf\<rparr>" ?ka "initrd_file b"] pi by simp
  then show ?thesis using buf(4) sl c_string_append nul by (simp add: bind_gz_Ret)
qed

lemma short_no_initrd:
  assumes "length s < 7"
  shows "take 7 (drop q s) \<noteq> str ''initrd=''"
proof
  assume "take 7 (drop q s) = str ''initrd=''"
  then have "length (take 7 (drop q s)) = 7" by simp
  with assms show False by simp
qed

theorem boot_command_witness:
  "\<exists>b'. get_aboot_options example_boot_env (replicate 256 7)
         (example_boot\<lparr>kernel_args := 105 # replicate 255 0, input := ''b vmlinux ro'' @ [CR]\<rparr>) = (Ret (), b')
     \<and> c_string (boot_file b') = str ''vmlinux'' \<and> c_string (kernel_args b') = str ''ro''"
proof -
  let ?b = "example_boot\<lparr>kernel_args := 105 # replicate 255 0, input := ''b vmlinux ro'' @ [CR]\<rparr>"
  have no: "\<forall>q. take 7 (drop q (str ''ro'')) \<noteq> str ''initrd=''" by (intro allI short_no_initrd) simp
  have "\<exists>b'. get_aboot_options example_boot_env (replicate 256 7) ?b = (Ret (), b')
      \<and> c_string (boot_file b') = str ''vmlinux'' \<and> c_string (kernel_args b') = str ''ro'' \<and> initrd_file b' = initrd_file ?b
      \<and> boot_part b' = config_file_partition ?b \<and> input b' = []"
    by (rule boot_command [where n = 9, OF _ _ _ _ _ _ _ _ _ _ no])
      (simp_all add: example_boot_def example_boot_env_def example_le_def printable_def less_eq_char_def less_char_def,
        simp_all add: str_def)
  then show ?thesis by blast
qed


text \<open>
  Flags behind the \<open>i\<close> turn into a ramdisk: when the console passes \<open>i\<close> followed by further flags and the user then boots a file
  without arguments, the search for \<open>initrd=\<close> runs over the cleared first byte into the old flags, and what stands from
  their ninth byte on becomes the name of the ramdisk.
\<close>

theorem stale_flags_initrd:
  assumes "kernel_args b = 105 # 32 # r" and "length r = 254" and "0 \<in> set (drop 6 r)" and "32 \<notin> set (str_at r 6)"
    and "length (boot_file b) = 256" and "length (initrd_file b) = 256" and "length raw_buf = 256"
    and "le_fuel (be_load env) = Suc n" and "input b = ''b '' @ fl @ CR # rest"
    and "list_all printable fl" and "fl \<noteq> []" and "CHR '' '' \<notin> set fl" and "length fl < 254"
    and "\<not> (48 \<le> hd (str fl) \<and> hd (str fl) \<le> 57 \<and> length fl > 1 \<and> str fl ! 1 = 47)"
  shows "\<exists>b'. get_aboot_options env raw_buf b = (Ret (), b') \<and> c_string (initrd_file b') = str_at r 6"
proof -
  let ?b = "b\<lparr>kernel_args := 0 # 32 # r, input := rest\<rparr>"
  have flags: "boot_flags (kernel_args b) = (None, 0, True, None)" by (simp add: boot_flags_def assms(1))
  have "hd fl \<noteq> CHR '' ''" using assms(11,12) by (cases fl) auto
  from interactive_boot [OF flags assms(8,7,13,10,11) this assms(9)] obtain buf where buf: "str_at buf 0 = str fl"
      "get_aboot_options env raw_buf b = bind_gz (split_line buf) (\<lambda>_. finish_options) ?b"
    using assms(1) by auto
  have "32 \<notin> set (str fl)" using assms(12) by (auto simp: str_def of_char_space)
  then have f: "find_chr buf 0 32 = None" using find_chr_none [of 32 buf 0] buf(1) by simp
  let ?bf = "str fl @ 0 # drop (length fl + 1) (boot_file b)"
  have sl: "split_line buf ?b = (Ret (), ?b\<lparr>boot_file := ?bf\<rparr>)"
    using f buf(1) assms(5,13) by (simp add: split_line_def put_str_def)
  have "find_initrd (0 # 32 # r) 0 = Some 1"
    by (subst find_initrd.simps) (simp add: str_def)
  moreover have "str_at (0 # 32 # r) 8 = str_at r 6" "find_chr (0 # 32 # r) 8 32 = None"
    using assms(4) by (simp_all add: str_at_def find_chr_def numeral_eq_Suc)
  moreover obtain f' where f': "put_str (initrd_file b) 0 (str_at r 6) = Some f'" "c_string f' = str_at r 6"
  proof -
    have "length (str_at r 6) \<le> length (drop 6 r)" unfolding str_at_def by (rule length_takeWhile_le)
    then have "length (str_at r 6) < 256" using assms(2) by simp
    moreover have "0 \<notin> set (str_at r 6)" unfolding str_at_def using set_takeWhileD by fastforce
    ultimately show ?thesis using that assms(6) by (simp add: put_str_def c_string_append)
  qed
  moreover have "0 \<in> set (drop 8 (0 # 32 # r))" using assms(3) by (simp add: numeral_eq_Suc)
  ultimately have "parse_initrd (0 # 32 # r) (initrd_file b) = Some ((0 # 32 # r)[1 := 0], f')"
    using assms(2) by (simp add: parse_initrd_def)
  moreover have "\<not> (48 \<le> ?bf ! 0 \<and> ?bf ! 0 \<le> 57 \<and> ?bf ! 1 = 47)"
    using assms(11,14) by (cases fl; cases "tl fl") (auto simp: str_def)
  ultimately have "\<exists>b'. finish_options (?b\<lparr>boot_file := ?bf\<rparr>) = (Ret (), b') \<and> initrd_file b' = f'"
    using finish_options_plain [of "?b\<lparr>boot_file := ?bf\<rparr>" "(0 # 32 # r)[1 := 0]" f'] by simp
  then show ?thesis using buf(2) sl f'(2) by (auto simp: bind_gz_Ret)
qed

theorem stale_flags_initrd_witness:
  "\<exists>b'. get_aboot_options example_boot_env (replicate 256 7)
         (example_boot\<lparr>kernel_args := str ''i root=/dev/sda2'' @ replicate 240 0, input := ''b vmlinux'' @ [CR]\<rparr>) = (Ret (), b')
     \<and> c_string (initrd_file b') = str ''dev/sda2''"
proof -
  let ?b = "example_boot\<lparr>kernel_args := str ''i root=/dev/sda2'' @ replicate 240 0, input := ''b vmlinux'' @ [CR]\<rparr>"
  let ?r = "str ''root=/dev/sda2'' @ replicate 240 0"
  have at: "str_at ?r 6 = str ''dev/sda2''" by (simp add: str_at_def str_def)
  have "\<exists>b'. get_aboot_options example_boot_env (replicate 256 7) ?b = (Ret (), b') \<and> c_string (initrd_file b') = str_at ?r 6"
    by (rule stale_flags_initrd [where n = 9 and fl = "''vmlinux''" and rest = "[]"])
      (simp_all add: at, simp_all add: example_boot_def example_boot_env_def example_le_def printable_def less_eq_char_def less_char_def str_def)
  then show ?thesis by (simp add: at)
qed

end
