(* ===== verification/Aboot.thy ===== *)
theory Aboot
  imports Options
begin

text \<open>
  The boot sequence: \<open>load_kernel\<close> (\<^verbatim>\<open>src/disk.c\<close>) with its retry loop, \<open>get_boot_args\<close> and \<open>main_\<close>
  (\<^verbatim>\<open>src/aboot.c\<close>).

  The firmware is a parameter: its environment variables with their numbers, and its open callback.  The state of the
  processor that \<open>pal_init\<close> changes is passed through separately.  \<open>run_kernel\<close> does not return: entry point and stack
  pointer it is called with are the result of \<open>aboot_main\<close>, and \<^const>\<open>None\<close> is a return to the firmware.
\<close>

subsection \<open>Firmware\<close>

record firmware =
  fw_getenv :: "nat \<Rightarrow> nat \<Rightarrow> int \<times> string"
  fw_open :: "string \<Rightarrow> nat \<Rightarrow> int"
  ENV_BOOTED_DEV :: nat
  ENV_BOOTED_FILE :: nat
  ENV_BOOTED_OSFLAGS :: nat
  ENV_TTY_DEV :: nat

text \<open>\<open>cons_getenv\<close> into an array of 256 bytes.\<close>

definition getenv_into :: "firmware \<Rightarrow> nat \<Rightarrow> bytes \<Rightarrow> int \<times> bytes" where
  "getenv_into fw index buf =
     (case cons_getenv (fw_getenv fw) index 256 of
        (len, None) \<Rightarrow> (len, buf)
      | (len, Some v) \<Rightarrow> (len, str v @ drop (length v) buf))"

subsection \<open>Loading until it works\<close>

primrec load_loop :: "nat \<Rightarrow> 's boot_env \<Rightarrow> bytes \<Rightarrow> ('s boot, int) prog" where
  "load_loop 0 env raw_buf = (\<lambda>b. (Timeout, b))"
| "load_loop (Suc n) env raw_buf =
     bind_gz (get_aboot_options env raw_buf) (\<lambda>_.
     bind_gz (load env) (\<lambda>result.
       if result \<noteq> - 1 then ret_gz result
       else bind_gz (modify_gz (\<lambda>b. b\<lparr>kernel_args := (kernel_args b)[0 := 105, 1 := 0]\<rparr>)) (\<lambda>_.
              load_loop n env raw_buf)))"

text \<open>\<open>mk_env\<close> gives the environment for the opened device; \<open>raw_buf\<close> is the uninitialised buffer of the prompt.\<close>

definition load_kernel :: "firmware \<Rightarrow> nat \<Rightarrow> (u32 \<Rightarrow> 's boot_env) \<Rightarrow> bytes \<Rightarrow> ('s boot, int) prog" where
  "load_kernel fw f mk_env raw_buf =
     (case cons_getenv (fw_getenv fw) (ENV_BOOTED_DEV fw) 256 of
        (len, None) \<Rightarrow> ret_gz (- 1)
      | (len, Some envval) \<Rightarrow>
          let dev = cons_open (fw_open fw) (takeWhile (\<lambda>c. c \<noteq> CHR 0x00) envval)
          in if dev < 0 then ret_gz (- 1)
             else let env = mk_env (word_of_int dev)
                  in bind_gz (modify_gz (get_disklabel (be_reader env))) (\<lambda>_. load_loop f env raw_buf))"

subsection \<open>The main program\<close>

definition get_boot_args :: "firmware \<Rightarrow> 's boot \<Rightarrow> 's boot" where
  "get_boot_args fw b =
     (let (result, file) = getenv_into fw (ENV_BOOTED_FILE fw) (boot_file b);
          b = b\<lparr>boot_file := (if result < 0 then str ''vmlinux.gz'' @ 0 # drop 11 file else file)\<rparr>;
          (result, args) = getenv_into fw (ENV_BOOTED_OSFLAGS fw) (kernel_args b)
      in b\<lparr>kernel_args := (if result < 0 then args[0 := 105, 1 := 0] else args)\<rparr>)"

definition PARAM_OFFSET :: u64 where
  "PARAM_OFFSET = - 0x6000"

definition STACK_OFFSET :: u64 where
  "STACK_OFFSET = - 0xe000"

definition le_bytes :: "u64 \<Rightarrow> bytes" where
  "le_bytes w = map (\<lambda>i. ucast (drop_bit (8 * i) w)) [0..<8]"

text \<open>The parameter page of the kernel: arguments, and start and size of the ramdisk.\<close>

definition write_params :: "'s boot \<Rightarrow> 's boot" where
  "write_params b =
     (let a = start_addr (elf (loader b)) + PARAM_OFFSET;
          m = memory (loader b);
          m = poke m (unat a) (c_string (kernel_args b) @ [0]);
          m = poke m (unat (a + 0x100)) (le_bytes (initrd_start b));
          m = poke m (unat (a + 0x108)) (le_bytes (initrd_size b))
      in b\<lparr>loader := (loader b)\<lparr>memory := m\<rparr>\<rparr>)"

definition aboot_main ::
  "firmware \<Rightarrow> nat \<Rightarrow> (u32 \<Rightarrow> 's boot_env) \<Rightarrow> bytes \<Rightarrow> u64 \<Rightarrow> (nat \<Rightarrow> u64) \<Rightarrow> (u64 \<Rightarrow> u64) \<Rightarrow> pal_state
     \<Rightarrow> ('s boot, (u64 \<times> u64) option) prog" where
  "aboot_main fw f mk_env raw_buf pagesz vptb switch_to_osf_pal ps b =
     (case cons_init (fw_getenv fw) (ENV_TTY_DEV fw) of
        None \<Rightarrow> (Halt, b)
      | Some cons_dev \<Rightarrow>
          if pagesz \<noteq> 8192 then (Ret None, b)
          else
            (case pal_init vptb switch_to_osf_pal ps of
               Inl err \<Rightarrow> (Halt, b)
             | Inr ps' \<Rightarrow>
                 bind_gz (load_kernel fw f mk_env raw_buf) (\<lambda>result.
                   if result < 0 then ret_gz None
                   else
                     bind_gz (modify_gz write_params) (\<lambda>_.
                     gets_gz (\<lambda>b. let g = elf (loader b) in Some (entry_addr g, start_addr g + STACK_OFFSET))))
                 (get_boot_args fw b)))"

subsection \<open>Words in memory\<close>

lemma le_word_le_bytes: "le_word (le_bytes w) = w"
  using le_word_bytes [of w 0 8] by (simp add: le_bytes_def take_bit_word_eq_self)

lemma length_le_bytes [simp]: "length (le_bytes w) = 8"
  by (simp add: le_bytes_def)

lemma get_le64_poke: "get_le64 (poke m a (le_bytes w)) a = w"
  using bytes_at_poke [of m a "le_bytes w"] by (simp add: get_le64_def le_word_le_bytes)

lemma get_le64_poke_other: "a + 8 \<le> b \<or> b + length bs \<le> a \<Longrightarrow> get_le64 (poke m b bs) a = get_le64 m a"
  by (simp add: get_le64_def bytes_at_poke_other)

subsection \<open>The arrays through the whole sequence\<close>

text \<open>What the code relies on of the firmware: it stores no more bytes of a variable than it was given room for.\<close>

definition firmware_ok :: "firmware \<Rightarrow> bool" where
  "firmware_ok fw \<longleftrightarrow> (\<forall>i n. fst (fw_getenv fw i n) \<le> int n)"

lemma getenv_into_ok:
  assumes "firmware_ok fw" and "array_ok buf"
  shows "array_ok (snd (getenv_into fw i buf))"
proof -
  obtain len v where v: "fw_getenv fw i 255 = (len, v)" by fastforce
  then have "len \<le> 255" using assms(1) by (metis firmware_ok_def fst_conv of_nat_numeral)
  then show ?thesis
    using assms(2) v by (auto simp: getenv_into_def cons_getenv_def array_ok_def str_def min_def)
qed

lemma str_array_ok: "array_ok buf \<Longrightarrow> length s < 256 \<Longrightarrow> array_ok (str s @ 0 # drop (Suc (length s)) buf)"
  by (simp add: array_ok_def)

lemma array_ok_i: "length buf = 256 \<Longrightarrow> array_ok (buf[0 := 105, 1 := 0])"
  by (simp add: array_ok_def set_update_memI)

lemma get_boot_args_ok: "firmware_ok fw \<Longrightarrow> boot_ok b \<Longrightarrow> boot_ok (get_boot_args fw b)"
  using getenv_into_ok [of fw "boot_file b" "ENV_BOOTED_FILE fw"] getenv_into_ok [of fw "kernel_args b" "ENV_BOOTED_OSFLAGS fw"]
    str_array_ok [of "snd (getenv_into fw (ENV_BOOTED_FILE fw) (boot_file b))" "''vmlinux.gz''"]
  by (auto simp: get_boot_args_def boot_ok_def Let_def array_ok_def set_update_memI split: prod.splits)

lemma load_initrd_arrays:
  assumes "load_initrd env b = (r, b')"
  shows "boot_file b' = boot_file b \<and> initrd_file b' = initrd_file b \<and> kernel_args b' = kernel_args b"
proof -
  obtain r1 b1 where m: "mount_fs env (boot_part b) b = (r1, b1)" by fastforce
  note f1 = boot_frame_fields [OF mount_fs_frame [OF m]]
  have "boot_file b' = boot_file b1 \<and> initrd_file b' = initrd_file b1 \<and> kernel_args b' = kernel_args b1"
    using assms m
    by (auto simp: load_initrd_def bind_gz_def in_loader_def gz_simps split: outcome.splits option.splits prod.splits)
  with f1 show ?thesis by simp
qed

text \<open>\<open>load\<close> returns 0 or -1 and leaves the character arrays alone.\<close>

lemma load_keeps: "keeps boot_ok (load env) (\<lambda>r. r = 0 \<or> r = - 1)"
proof -
  have f: "keeps boot_ok (load_boot_file env) (\<lambda>_. True)"
    by (rule keepsI) (metis boot_frame_ok load_boot_file_frame)
  have i: "keeps boot_ok (load_initrd env) (\<lambda>_. True)"
    by (rule keepsI) (use load_initrd_arrays in \<open>fastforce simp: boot_ok_def\<close>)
  show ?thesis
    unfolding load_def
    by (intro keeps_bind [OF f] keeps_bind [OF i] keeps_bind [OF in_loader_keeps [where R = "\<lambda>_. True"]]
        keeps_bind [OF keeps_gets [where R = "\<lambda>_. True"]] keeps_rules TrueI) auto
qed

lemma load_loop_keeps: "keeps boot_ok (load_loop n env raw_buf) (\<lambda>r. r = 0)"
proof (induction n)
  case (Suc n)
  have "keeps boot_ok (modify_gz (\<lambda>b. b\<lparr>kernel_args := (kernel_args b)[0 := 105, 1 := 0]\<rparr>)) (\<lambda>_. True)"
    by (rule keeps_modify) (auto simp: boot_ok_def array_ok_def set_update_memI)
  then show ?case
    by (auto intro!: keeps_bind [OF get_aboot_options_keeps] keeps_bind [OF load_keeps] keeps_bind [where R = "\<lambda>_. True"]
        keeps_rules Suc)
qed (simp add: keeps_def)

lemma get_disklabel_ok: "boot_ok b \<Longrightarrow> boot_ok (get_disklabel rd b)"
  by (simp add: get_disklabel_def boot_ok_def Let_def split: prod.split)

lemma load_kernel_run:
  assumes "boot_ok b" and "load_kernel fw f mk_env raw_buf b = (Ret r, b')"
  shows "boot_ok b'"
    and "case cons_getenv (fw_getenv fw) (ENV_BOOTED_DEV fw) 256 of
           (_, None) \<Rightarrow> r = - 1 \<and> b' = b
         | (_, Some v) \<Rightarrow>
             if cons_open (fw_open fw) (takeWhile (\<lambda>c. c \<noteq> CHR 0x00) v) < 0 then r = - 1 \<and> b' = b else r = 0"
  using assms keepsD [OF load_loop_keeps get_disklabel_ok [OF assms(1)]]
  by (auto simp: load_kernel_def Let_def gz_simps split: prod.splits option.splits if_splits)

text \<open>
  C20.  \<open>load_kernel\<close> never reports a failed load: it returns -1 only when the boot device is not named by the firmware
  or cannot be opened, and then nothing has changed; otherwise it returns only with 0, because a failed load leads back to
  the prompt.  The character arrays are strings afterwards.
\<close>

theorem load_kernel_result:
  assumes "boot_ok b" and "load_kernel fw f mk_env raw_buf b = (Ret r, b')"
  shows "boot_ok b' \<and>
    (case cons_getenv (fw_getenv fw) (ENV_BOOTED_DEV fw) 256 of
       (_, None) \<Rightarrow> r = - 1 \<and> b' = b
     | (_, Some v) \<Rightarrow>
         if cons_open (fw_open fw) (takeWhile (\<lambda>c. c \<noteq> CHR 0x00) v) < 0 then r = - 1 \<and> b' = b else r = 0)"
  using load_kernel_run [OF assms] by blast

subsection \<open>Handing over to the kernel\<close>

lemma write_params_memory:
  fixes b :: "'s boot"
  defines "a \<equiv> unat (start_addr (elf (loader b)) + PARAM_OFFSET)"
  assumes "boot_ok b" and "a + 0x110 < 2 ^ 64"
  shows "cstr (memory (loader (write_params b))) a (c_string (kernel_args b))"
    and "get_le64 (memory (loader (write_params b))) (a + 0x100) = initrd_start b"
    and "get_le64 (memory (loader (write_params b))) (a + 0x108) = initrd_size b"
    and "x < a \<or> a + 0x110 \<le> x \<Longrightarrow> memory (loader (write_params b)) x = memory (loader b) x"
    and "elf (loader (write_params b)) = elf (loader b)" and "kernel_args (write_params b) = kernel_args b"
    and "boot_frame b (write_params b)"
proof -
  let ?p = "start_addr (elf (loader b)) + PARAM_OFFSET" and ?s = "c_string (kernel_args b) @ [0]"
  let ?m1 = "poke (memory (loader b)) a ?s" and ?m = "memory (loader (write_params b))"
  have off: "unat (?p + 0x100) = a + 0x100" "unat (?p + 0x108) = a + 0x108"
    using assms(3) unat_add_lem [of ?p "0x100"] unat_add_lem [of ?p "0x108"] by (simp_all add: a_def)
  have m: "?m = poke (poke ?m1 (a + 0x100) (le_bytes (initrd_start b))) (a + 0x108) (le_bytes (initrd_size b))"
    by (simp add: write_params_def Let_def off) (simp add: a_def)
  obtain r where r: "kernel_args b = c_string (kernel_args b) @ 0 # r" "0 \<notin> set (c_string (kernel_args b))"
    using c_string_split assms(2) by (auto simp: boot_ok_def array_ok_def)
  have "length (kernel_args b) = 256" using assms(2) by (simp add: boot_ok_def array_ok_def)
  moreover have "length (kernel_args b) = length ?s + length r" using arg_cong [OF r(1), of length] by simp
  ultimately have len: "length ?s \<le> 256" by linarith
  have "?m (a + i) = ?m1 (a + i)" if "i \<le> length (c_string (kernel_args b))" for i
    using that len by (simp add: m poke_outside)
  then show "cstr ?m a (c_string (kernel_args b))" by (rule cstr_cong [OF cstr_poke [OF r(2)]])
  show "get_le64 ?m (a + 0x100) = initrd_start b" by (simp add: m get_le64_poke_other get_le64_poke)
  show "get_le64 ?m (a + 0x108) = initrd_size b" by (simp add: m get_le64_poke)
  show "?m x = memory (loader b) x" if "x < a \<or> a + 0x110 \<le> x"
    using that len by (auto simp: m poke_outside)
  show "elf (loader (write_params b)) = elf (loader b)" "kernel_args (write_params b) = kernel_args b"
    by (simp_all add: write_params_def Let_def)
  show "boot_frame b (write_params b)"
    unfolding boot_frame_def write_params_def Let_def by blast
qed

text \<open>
  C14.  The hand-over: once console and PAL switch have succeeded and \<open>load_kernel\<close> has returned with 0, the kernel is started at the entry
  point of its ELF header with the stack \<open>STACK_OFFSET\<close> above its first byte, and finds in its parameter page the arguments as
  a string and start and size of the ramdisk.  Apart from that page, memory is what \<open>load_kernel\<close> left.
\<close>

theorem main_hand_over:
  fixes b :: "'s boot"
  defines "p \<equiv> \<lambda>b. unat (start_addr (elf (loader b)) + PARAM_OFFSET)"
  assumes "firmware_ok fw" and "boot_ok b" and "cons_init (fw_getenv fw) (ENV_TTY_DEV fw) \<noteq> None" and "pagesz = 8192"
    and "pal_init vptb switch_to_osf_pal ps = Inr ps'"
    and "load_kernel fw f mk_env raw_buf (get_boot_args fw b) = (Ret 0, b1)" and "p b1 + 0x110 < 2 ^ 64"
  shows "\<exists>b'. aboot_main fw f mk_env raw_buf pagesz vptb switch_to_osf_pal ps b
             = (Ret (Some (entry_addr (elf (loader b1)), start_addr (elf (loader b1)) + STACK_OFFSET)), b')
           \<and> cstr (memory (loader b')) (p b1) (c_string (kernel_args b1))
           \<and> get_le64 (memory (loader b')) (p b1 + 0x100) = initrd_start b1
           \<and> get_le64 (memory (loader b')) (p b1 + 0x108) = initrd_size b1
           \<and> (\<forall>x. x < p b1 \<or> p b1 + 0x110 \<le> x \<longrightarrow> memory (loader b') x = memory (loader b1) x)"
proof -
  have "boot_ok b1" using load_kernel_run(1) [OF get_boot_args_ok] assms(2,3,7) by blast
  note w = write_params_memory [OF this, folded p_def, OF assms(8) [unfolded p_def]]
  have "aboot_main fw f mk_env raw_buf pagesz vptb switch_to_osf_pal ps b
      = (Ret (Some (entry_addr (elf (loader b1)), start_addr (elf (loader b1)) + STACK_OFFSET)), write_params b1)"
    using assms(4-7) w(5) by (auto simp: aboot_main_def bind_gz_def gz_simps Let_def)
  with w show ?thesis by (auto simp: p_def)
qed

lemma load_loop_first:
  assumes "get_aboot_options env raw_buf b = (Ret (), b0)" and "load env b0 = (Ret 0, b1)" and "0 < f"
  shows "load_loop f env raw_buf b = (Ret 0, b1)"
  using assms by (cases f) (simp_all add: bind_gz_Ret gz_simps)

lemma chunk_loaded_cong:
  assumes "chunk_loaded content m c" and "\<And>x. unat (seg_addr c) \<le> x \<Longrightarrow> x < unat (seg_addr c) + unat (seg_size c) \<Longrightarrow> m' x = m x"
  shows "chunk_loaded content m' c"
proof -
  have "bytes_at m' (unat (seg_addr c)) (unat (seg_size c)) = bytes_at m (unat (seg_addr c)) (unat (seg_size c))"
    by (rule bytes_at_cong) (simp add: assms(2))
  with assms(1) show ?thesis by (simp add: chunk_loaded_def)
qed

text \<open>The parameter page is apart from what the kernel file fills.\<close>

definition params_apart :: "elf_globals \<Rightarrow> nat \<Rightarrow> bool" where
  "params_apart g p \<longleftrightarrow>
     list_all (\<lambda>(a, n). a + n \<le> p \<or> p + 0x110 \<le> a)
       ((unat (bss_start g), unat (bss_size g)) # map (\<lambda>c. (unat (seg_addr c), unat (seg_size c))) (take (nchunks g) (chunks g)))"

lemma kernel_in_memory_cong:
  assumes "kernel_in_memory content g m" and "params_apart g p" and "\<And>x. x < p \<or> p + 0x110 \<le> x \<Longrightarrow> m' x = m x"
  shows "kernel_in_memory content g m'"
proof -
  have "bytes_at m' (unat (bss_start g)) (unat (bss_size g)) = bytes_at m (unat (bss_start g)) (unat (bss_size g))"
    using assms(2,3) by (intro bytes_at_cong) (auto simp: params_apart_def)
  moreover have "chunk_loaded content m' c" if "c \<in> set (take (nchunks g) (chunks g))" for c
    using that assms by (intro chunk_loaded_cong [of content m c m']) (auto simp: kernel_in_memory_def params_apart_def list_all_iff)
  ultimately show ?thesis using assms(1) by (auto simp: kernel_in_memory_def list_all_iff)
qed

text \<open>
  C1.  A boot from power-on to the kernel: with a firmware that names and opens the boot device, options that lead to a file name and arguments, and a
  bootable kernel under that name, the program does not return to the firmware but starts the kernel at its entry point, with all segments
  of the file and the cleared BSS in memory, and the chosen arguments in the parameter page.
\<close>

theorem boot_uncompressed:
  fixes b :: "'s boot"
  defines "p \<equiv> \<lambda>g. unat (start_addr g + PARAM_OFFSET)"
  assumes "firmware_ok fw" and "boot_ok b" and "cons_init (fw_getenv fw) (ENV_TTY_DEV fw) \<noteq> None" and "pagesz = 8192"
    and "pal_init vptb switch_to_osf_pal ps = Inr ps'"
    and "cons_getenv (fw_getenv fw) (ENV_BOOTED_DEV fw) 256 = (len, Some v)"
    and "cons_open (fw_open fw) (takeWhile (\<lambda>c. c \<noteq> CHR 0x00) v) = dev" and "0 \<le> dev" and "env = mk_env (word_of_int dev)" and "0 < f"
    and "get_aboot_options env raw_buf (get_disklabel (be_reader env) (get_boot_args fw b)) = (Ret (), b0)"
    and "bootable_kernel env b0 content g" and "p g + 0x110 < 2 ^ 64" and "params_apart g (p g)"
  shows "\<exists>b'. aboot_main fw f mk_env raw_buf pagesz vptb switch_to_osf_pal ps b
             = (Ret (Some (entry_addr g, start_addr g + STACK_OFFSET)), b')
           \<and> kernel_in_memory content g (memory (loader b'))
           \<and> cstr (memory (loader b')) (p g) (c_string (kernel_args b0))"
proof -
  obtain b1 where b1: "load env b0 = (Ret 0, b1)" "elf (loader b1) = g" "kernel_in_memory content g (memory (loader b1))" "boot_frame b0 b1"
    using load_bootable [OF assms(13)] by blast
  have lk: "load_kernel fw f mk_env raw_buf (get_boot_args fw b) = (Ret 0, b1)"
    using load_loop_first [OF assms(12) b1(1) assms(11)] assms(7-10) by (simp add: load_kernel_def bind_gz_Ret gz_simps Let_def)
  have "boot_ok b1" using load_kernel_run(1) [OF get_boot_args_ok lk] assms(2,3) by blast
  note w = write_params_memory [OF this, unfolded b1(2), folded p_def, OF assms(14) [unfolded p_def]]
  have "aboot_main fw f mk_env raw_buf pagesz vptb switch_to_osf_pal ps b
      = (Ret (Some (entry_addr g, start_addr g + STACK_OFFSET)), write_params b1)"
    using assms(4-6) lk w(5) b1(2) by (auto simp: aboot_main_def bind_gz_def gz_simps Let_def)
  moreover have "kernel_in_memory content g (memory (loader (write_params b1)))"
    by (rule kernel_in_memory_cong [OF b1(3) assms(15)]) (use w(4) in \<open>simp add: p_def\<close>)
  moreover have "cstr (memory (loader (write_params b1))) (p g) (c_string (kernel_args b0))"
    using w(1) boot_frame_fields(4) [OF b1(4)] by (simp add: p_def)
  ultimately show ?thesis by blast
qed

subsection \<open>An example machine\<close>

definition example_firmware :: firmware where
  "example_firmware =
     \<lparr>fw_getenv = (\<lambda>i n. let v = [[], ''dka0'', ''0/vmlinux'', ''single'', ''0''] ! i in (int (min n (length v)), v)),
      fw_open = (\<lambda>_ _. 5), ENV_BOOTED_DEV = 1, ENV_BOOTED_FILE = 2, ENV_BOOTED_OSFLAGS = 3, ENV_TTY_DEV = 4\<rparr>"

definition example_start :: "fs_state boot" where
  "example_start = example_boot\<lparr>boot_file := replicate 256 0, kernel_args := replicate 256 0\<rparr>"

definition example_options :: "fs_state boot" where
  "example_options = example_start\<lparr>boot_file := str ''vmlinux'' @ 0 # str ''x'' @ 0 # replicate 246 0,
     kernel_args := str ''single'' @ 0 # 0 # replicate 248 0\<rparr>"

lemma example_firmware_ok: "firmware_ok example_firmware"
  by (simp add: firmware_ok_def example_firmware_def Let_def)

lemma example_start_ok: "boot_ok example_start"
  by (simp add: boot_ok_def array_ok_def example_start_def example_boot_def)

lemma example_boot_args:
  "get_boot_args example_firmware example_start
     = example_start\<lparr>boot_file := str ''0/vmlinux'' @ 0 # replicate 246 0, kernel_args := str ''single'' @ 0 # 0 # replicate 248 0\<rparr>"
  by (simp add: get_boot_args_def getenv_into_def cons_getenv_def example_firmware_def example_start_def example_boot_def str_def
      flip: replicate_Suc)

lemma example_disklabel:
  assumes "label b = None"
  shows "get_disklabel (be_reader example_boot_env) b = b"
proof -
  have len: "length raw_disk = 9216" by (simp add: raw_disk_def raw_block_length)
  have "SECT_SIZE dvd length raw_disk" by (simp add: len SECT_SIZE_def)
  then have "block_device (cons_read (image_read raw_disk)) raw_disk" by (rule cons_block_device [OF sector_device_image_read])
  then have "0 + 340 \<le> length raw_disk \<longrightarrow> cons_read (image_read raw_disk) (int 340) 0 = (int 340, slice 0 340 raw_disk)"
    unfolding block_device_def by blast
  then have "cons_read (image_read raw_disk) (int 340) 0 = (int 340, slice 0 340 raw_disk)" by (simp add: len)
  moreover have "slice 0 340 raw_disk = replicate 340 0" by (simp add: slice_def raw_disk_def)
  moreover have "d_magic (drop 64 (replicate 340 0 @ replicate 172 0)) = 0"
    by (simp add: d_magic_def le32_at_def slice_def eval_nat_numeral)
  ultimately show ?thesis
    using assms
    by (simp add: get_disklabel_def read_at_def example_boot_env_def LABELOFFSET_def LABELSECTOR_def sizeof_disklabel_def MAXPARTITIONS_def
        DISKLABELMAGIC_def Let_def)
qed

lemma example_get_options:
  "get_aboot_options example_boot_env [] (get_boot_args example_firmware example_start) = (Ret (), example_options\<lparr>boot_part := 0\<rparr>)"
proof -
  let ?b = "get_boot_args example_firmware example_start"
  have no: "\<forall>q. take 7 (drop q (str ''single'')) \<noteq> str ''initrd=''" by (intro allI short_no_initrd) simp
  have ka: "kernel_args ?b = str ''single'' @ 0 # 0 # replicate 248 0" by (simp add: example_boot_args)
  have "parse_initrd (kernel_args ?b) (initrd_file ?b) = Some (kernel_args ?b, initrd_file ?b)"
    by (rule parse_initrd_none [OF ka _ no]) (simp add: str_def)
  moreover have "boot_flags (kernel_args ?b) = (None, 0, False, None)" by (simp add: ka boot_flags_def str_def)
  moreover have "parse_partition ?b = Some (example_options\<lparr>boot_part := 0\<rparr>)"
    by (simp add: parse_partition_def example_boot_args example_options_def put_str_def str_at_def str_def)
  ultimately show ?thesis by (simp add: get_aboot_options_def finish_options_def)
qed

lemma example_device:
  "cons_getenv (fw_getenv example_firmware) (ENV_BOOTED_DEV example_firmware) 256 = (4, Some (''dka0'' @ [CHR 0x00]))"
  "cons_open (fw_open example_firmware) s = 5" "cons_init (fw_getenv example_firmware) (ENV_TTY_DEV example_firmware) \<noteq> None"
  by (simp_all add: cons_getenv_def example_firmware_def cons_open_def cons_init_def)

lemma example_bootable:
  "\<exists>h. bootable_kernel example_boot_env (example_options\<lparr>boot_part := 0\<rparr>) raw_block h \<and> chunks h = [example_segment] \<and> nchunks h = 1
    \<and> bss_start h = 0xfffffc0000310004 \<and> bss_size h = 4 \<and> start_addr h = 0xfffffc0000310000 \<and> entry_addr h = 0xfffffc0000310000"
  by (rule raw_bootable) (simp_all add: example_options_def example_start_def example_boot_def c_string_def str_def)

lemma example_run:
  "\<exists>b1. load_kernel example_firmware 1 (\<lambda>_. example_boot_env) [] (get_boot_args example_firmware example_start) = (Ret 0, b1)
     \<and> start_addr (elf (loader b1)) = 0xfffffc0000310000 \<and> entry_addr (elf (loader b1)) = 0xfffffc0000310000
     \<and> c_string (kernel_args b1) = str ''single''"
proof -
  obtain h where h: "bootable_kernel example_boot_env (example_options\<lparr>boot_part := 0\<rparr>) raw_block h" "start_addr h = 0xfffffc0000310000"
      "entry_addr h = 0xfffffc0000310000"
    using example_bootable by blast
  from load_bootable [OF h(1)] obtain b1 where b1: "load example_boot_env (example_options\<lparr>boot_part := 0\<rparr>) = (Ret 0, b1)"
      "elf (loader b1) = h" "boot_frame (example_options\<lparr>boot_part := 0\<rparr>) b1"
    by blast
  have "label (get_boot_args example_firmware example_start) = None" unfolding example_boot_args by (simp add: example_start_def example_boot_def)
  note dl = example_disklabel [OF this]
  have "load_kernel example_firmware 1 (\<lambda>_. example_boot_env) [] (get_boot_args example_firmware example_start) = (Ret 0, b1)"
    using load_loop_first [OF example_get_options b1(1), of 1] by (simp add: load_kernel_def example_device bind_gz_Ret gz_simps dl)
  with b1 h boot_frame_fields(4) [OF b1(3)] show ?thesis by (simp add: example_options_def c_string_def str_def)
qed

theorem load_kernel_result_witness:
  "\<exists>b'. load_kernel example_firmware 1 (\<lambda>_. example_boot_env) [] (get_boot_args example_firmware example_start) = (Ret 0, b') \<and> boot_ok b'"
  using example_run load_kernel_result [OF get_boot_args_ok [OF example_firmware_ok example_start_ok]] by blast

lemma example_pal: "\<exists>ps'. pal_init (\<lambda>_. 0) (\<lambda>_. 0) example_pal_state = Inr ps'"
  by (auto simp: pal_init_def Let_def)

theorem main_hand_over_witness:
  "\<exists>b'. aboot_main example_firmware 1 (\<lambda>_. example_boot_env) [] 8192 (\<lambda>_. 0) (\<lambda>_. 0) example_pal_state example_start
        = (Ret (Some (0xfffffc0000310000, 0xfffffc0000302000)), b')
     \<and> cstr (memory (loader b')) 0xfffffc000030a000 (str ''single'')"
proof -
  obtain b1 where b1: "load_kernel example_firmware 1 (\<lambda>_. example_boot_env) [] (get_boot_args example_firmware example_start) = (Ret 0, b1)"
      "start_addr (elf (loader b1)) = 0xfffffc0000310000" "entry_addr (elf (loader b1)) = 0xfffffc0000310000"
      "c_string (kernel_args b1) = str ''single''"
    using example_run by blast
  obtain ps' where ps': "pal_init (\<lambda>_. 0) (\<lambda>_. 0) example_pal_state = Inr ps'" using example_pal by blast
  have "unat (start_addr (elf (loader b1)) + PARAM_OFFSET) + 0x110 < 2 ^ 64" by (simp add: b1(2) PARAM_OFFSET_def)
  from main_hand_over [OF example_firmware_ok example_start_ok example_device(3) refl ps' b1(1) this] show ?thesis
    by (auto simp: b1 PARAM_OFFSET_def STACK_OFFSET_def)
qed

theorem boot_uncompressed_witness:
  "\<exists>b'. aboot_main example_firmware 1 (\<lambda>_. example_boot_env) [] 8192 (\<lambda>_. 0) (\<lambda>_. 0) example_pal_state example_start
        = (Ret (Some (0xfffffc0000310000, 0xfffffc0000302000)), b')
     \<and> bytes_at (memory (loader b')) 0xfffffc0000310000 4 = [1, 2, 3, 4]
     \<and> bytes_at (memory (loader b')) 0xfffffc0000310004 4 = replicate 4 0
     \<and> cstr (memory (loader b')) 0xfffffc000030a000 (str ''single'')"
proof -
  obtain h where h: "bootable_kernel example_boot_env (example_options\<lparr>boot_part := 0\<rparr>) raw_block h" "chunks h = [example_segment]" "nchunks h = 1"
      "bss_start h = 0xfffffc0000310004" "bss_size h = 4" "start_addr h = 0xfffffc0000310000" "entry_addr h = 0xfffffc0000310000"
    using example_bootable by blast
  obtain ps' where ps': "pal_init (\<lambda>_. 0) (\<lambda>_. 0) example_pal_state = Inr ps'" using example_pal by blast
  have "label (get_boot_args example_firmware example_start) = None" unfolding example_boot_args by (simp add: example_start_def example_boot_def)
  then have opt: "get_aboot_options example_boot_env [] (get_disklabel (be_reader example_boot_env) (get_boot_args example_firmware example_start))
      = (Ret (), example_options\<lparr>boot_part := 0\<rparr>)"
    by (simp add: example_disklabel example_get_options)
  have "unat (start_addr h + PARAM_OFFSET) + 0x110 < 2 ^ 64" "params_apart h (unat (start_addr h + PARAM_OFFSET))"
    by (simp_all add: h(2-6) PARAM_OFFSET_def params_apart_def example_segment_def)
  note * = boot_uncompressed [OF example_firmware_ok example_start_ok example_device(3) refl ps' example_device(1) example_device(2) _ refl _ opt h(1) this]
  have "c_string (kernel_args (example_options\<lparr>boot_part := 0\<rparr>)) = str ''single''" by (simp add: example_options_def c_string_def str_def)
  with * [of 1] show ?thesis
    by (auto simp: h(2-7) PARAM_OFFSET_def STACK_OFFSET_def kernel_in_memory_def chunk_loaded_def example_segment_def slice_def raw_block_def
        example_length)
qed

end
