(* ===== verification/Bio.thy ===== *)
theory Bio
  imports Ext2
begin

text \<open>
  The buffer cache of the host programs (\<^verbatim>\<open>src/tools/bio.c\<close>): 32 buffers with delayed writing, of which the one that was not used for the longest time is
  taken for a new block.

  The file or device behind the descriptor is the byte list \<open>bio_file\<close>; \<open>lseek\<close> followed by \<open>read\<close> or \<open>write\<close> is one access at an offset, and a read stops at the end of
  the file.  A block number times the block size is computed in a signed 32-bit integer.  \<^const>\<open>None\<close> as the result of an operation stands for a \<open>NULL\<close>
  pointer that is followed and for an offset that does not fit or is negative.  \<open>bio_raw i\<close> is what \<open>malloc\<close> leaves in the memory for buffer \<open>i\<close>.
\<close>

subsection \<open>State and operations\<close>

record bio_buf =
  bb_blkno :: int
  bb_last_access :: int
  bb_dirty :: bool
  bb_data :: "bytes option"

record bio =
  bio_file :: bytes
  bio_counter :: int
  bio_blocksize :: nat
  buflist :: "bio_buf list"
  bio_raw :: "nat \<Rightarrow> bytes"

definition NBUFS :: nat where "NBUFS = 32"

definition file_write :: "nat \<Rightarrow> bytes \<Rightarrow> bytes \<Rightarrow> bytes" where
  "file_write off d fl = take off fl @ replicate (off - length fl) 0 @ d @ drop (off + length d) fl"

definition binit :: "nat \<Rightarrow> bio \<Rightarrow> bio" where
  "binit bs st = st\<lparr>bio_blocksize := bs,
     buflist := replicate NBUFS \<lparr>bb_blkno = 0, bb_last_access = 0, bb_dirty = False, bb_data = None\<rparr>\<rparr>"

definition blk_offset :: "nat \<Rightarrow> int \<Rightarrow> nat option" where
  "blk_offset bs blkno = (let o' = blkno * int bs in if 0 \<le> o' \<and> o' < 2 ^ 31 then Some (nat o') else None)"

text \<open>A dirty buffer is written to its place.\<close>

definition write_buf :: "nat \<Rightarrow> bio_buf \<Rightarrow> bytes \<Rightarrow> (bio_buf \<times> bytes) option" where
  "write_buf bs b fl =
     (if bb_dirty b then
        case (blk_offset bs (bb_blkno b), bb_data b) of
          (Some off, Some d) \<Rightarrow> Some (b\<lparr>bb_dirty := False\<rparr>, file_write off d fl)
        | _ \<Rightarrow> None
      else Some (b, fl))"

fun flush_bufs :: "nat \<Rightarrow> bio_buf list \<Rightarrow> bytes \<Rightarrow> (bio_buf list \<times> bytes) option" where
  "flush_bufs bs [] fl = Some ([], fl)"
| "flush_bufs bs (b # l) fl =
     (case write_buf bs b fl of
        None \<Rightarrow> None
      | Some (b, fl) \<Rightarrow> map_option (\<lambda>(l, fl). (b # l, fl)) (flush_bufs bs l fl))"

definition bflush :: "bio \<Rightarrow> bio option" where
  "bflush st = map_option (\<lambda>(l, fl). st\<lparr>buflist := l, bio_file := fl\<rparr>) (flush_bufs (bio_blocksize st) (buflist st) (bio_file st))"

fun find_buf :: "bio_buf list \<Rightarrow> int \<Rightarrow> nat \<Rightarrow> nat option" where
  "find_buf [] blkno i = None"
| "find_buf (b # l) blkno i = (if bb_blkno b = blkno then Some i else find_buf l blkno (Suc i))"

text \<open>The index of the buffer with the lowest access count, the first of them.\<close>

fun lowcount_buf :: "bio_buf list \<Rightarrow> nat \<Rightarrow> int \<Rightarrow> nat \<Rightarrow> nat" where
  "lowcount_buf [] i low k = k"
| "lowcount_buf (b # l) i low k =
     (if bb_last_access b < low then lowcount_buf l (Suc i) (bb_last_access b) i else lowcount_buf l (Suc i) low k)"

definition find_victim :: "bio \<Rightarrow> nat" where
  "find_victim st = lowcount_buf (drop 1 (buflist st)) 1 (bb_last_access (buflist st ! 0)) 0"

definition next_access :: "bio \<Rightarrow> int" where
  "next_access st = sint (word_of_int (bio_counter st + 1) :: u32)"

text \<open>The victim is written out if it is dirty.\<close>

definition recycle :: "nat \<Rightarrow> bio \<Rightarrow> bio option" where
  "recycle i st =
     map_option (\<lambda>(b, fl). st\<lparr>buflist := (buflist st)[i := b], bio_file := fl\<rparr>)
       (write_buf (bio_blocksize st) (buflist st ! i) (bio_file st))"

definition bio_bread :: "int \<Rightarrow> bio \<Rightarrow> (bytes \<times> bio) option" where
  "bio_bread blkno st =
     (case find_buf (buflist st) blkno 0 of
        Some i \<Rightarrow>
          map_option (\<lambda>d. (d, st\<lparr>bio_counter := next_access st, buflist := (buflist st)[i := (buflist st ! i)\<lparr>bb_last_access := next_access st\<rparr>]\<rparr>))
            (bb_data (buflist st ! i))
      | None \<Rightarrow>
          let i = find_victim st
          in case recycle i st of
               None \<Rightarrow> None
             | Some st \<Rightarrow>
                 map_option (\<lambda>off.
                   let old = (case bb_data (buflist st ! i) of None \<Rightarrow> bio_raw st i | Some d \<Rightarrow> d);
                       d = overwrite (slice off (bio_blocksize st) (bio_file st)) old
                   in (d, st\<lparr>bio_counter := next_access st,
                           buflist := (buflist st)[i := (buflist st ! i)\<lparr>bb_blkno := blkno, bb_last_access := next_access st, bb_data := Some d\<rparr>]\<rparr>))
                 (blk_offset (bio_blocksize st) blkno))"

definition bio_bwrite :: "int \<Rightarrow> bytes \<Rightarrow> bio \<Rightarrow> bio option" where
  "bio_bwrite blkno buf st =
     (if length buf < bio_blocksize st then None
      else
        let d = take (bio_blocksize st) buf
        in case find_buf (buflist st) blkno 0 of
             Some i \<Rightarrow>
               map_option (\<lambda>_. st\<lparr>bio_counter := next_access st,
                   buflist := (buflist st)[i := (buflist st ! i)\<lparr>bb_last_access := next_access st, bb_data := Some d, bb_dirty := True\<rparr>]\<rparr>)
                 (bb_data (buflist st ! i))
           | None \<Rightarrow>
               let i = find_victim st
               in map_option (\<lambda>st. st\<lparr>bio_counter := next_access st,
                    buflist := (buflist st)[i := (buflist st ! i)\<lparr>bb_blkno := blkno, bb_last_access := next_access st, bb_data := Some d, bb_dirty := True\<rparr>]\<rparr>)
                  (recycle i st))"

subsection \<open>What the cache stands for\<close>

definition in_file :: "bio \<Rightarrow> int \<Rightarrow> bool" where
  "in_file st b \<longleftrightarrow> 0 \<le> b \<and> (b + 1) * int (bio_blocksize st) \<le> int (length (bio_file st)) \<and> b * int (bio_blocksize st) < 2 ^ 31"

definition on_disk :: "bio \<Rightarrow> int \<Rightarrow> bytes" where
  "on_disk st b = slice (nat b * bio_blocksize st) (bio_blocksize st) (bio_file st)"

text \<open>Unused buffers have block number 0, so that block 0 can only be used when there are none of them left.\<close>

definition buf_ok :: "bio \<Rightarrow> bio_buf \<Rightarrow> bool" where
  "buf_ok st b \<longleftrightarrow>
     (case bb_data b of
        None \<Rightarrow> bb_blkno b = 0 \<and> \<not> bb_dirty b
      | Some d \<Rightarrow> length d = bio_blocksize st \<and> in_file st (bb_blkno b) \<and> (\<not> bb_dirty b \<longrightarrow> d = on_disk st (bb_blkno b)))"

definition bio_ok :: "bio \<Rightarrow> bool" where
  "bio_ok st \<longleftrightarrow> length (buflist st) = NBUFS \<and> 0 < bio_blocksize st \<and> (\<forall>i < NBUFS. buf_ok st (buflist st ! i) \<and> length (bio_raw st i) = bio_blocksize st)
     \<and> (\<forall>i < NBUFS. \<forall>j < NBUFS. i \<noteq> j \<longrightarrow> bb_data (buflist st ! i) \<noteq> None \<longrightarrow> bb_blkno (buflist st ! i) \<noteq> bb_blkno (buflist st ! j))"

definition usable :: "bio \<Rightarrow> int \<Rightarrow> bool" where
  "usable st b \<longleftrightarrow> in_file st b \<and> (b = 0 \<longrightarrow> (\<forall>i < NBUFS. bb_data (buflist st ! i) \<noteq> None))"

text \<open>The block as the clients of the cache see it.\<close>

definition block_view :: "bio \<Rightarrow> int \<Rightarrow> bytes" where
  "block_view st b =
     (case find_buf (buflist st) b 0 of
        Some i \<Rightarrow> (case bb_data (buflist st ! i) of Some d \<Rightarrow> d | None \<Rightarrow> on_disk st b)
      | None \<Rightarrow> on_disk st b)"

lemma find_buf_Some:
  "find_buf l b k = Some i \<Longrightarrow> k \<le> i \<and> i - k < length l \<and> bb_blkno (l ! (i - k)) = b \<and> (\<forall>j < i - k. bb_blkno (l ! j) \<noteq> b)"
proof (induction l arbitrary: k)
  case (Cons x l)
  show ?case
  proof (cases "bb_blkno x = b")
    case False
    with Cons.prems have "find_buf l b (Suc k) = Some i" by simp
    note ih = Cons.IH [OF this]
    then obtain j where j: "i = Suc (k + j)" by (metis Suc_le_eq less_imp_Suc_add)
    with ih False show ?thesis by (auto simp: nth_Cons split: nat.split)
  qed (use Cons.prems in simp)
qed simp

lemma find_buf_None: "find_buf l b k = None \<longleftrightarrow> (\<forall>i < length l. bb_blkno (l ! i) \<noteq> b)"
  by (induction l arbitrary: k) (auto simp: nth_Cons' less_Suc_eq_0_disj)

lemma find_buf_distinct:
  assumes "i < length l" "bb_blkno (l ! i) = b" "\<And>j. j < length l \<Longrightarrow> j \<noteq> i \<Longrightarrow> bb_blkno (l ! j) \<noteq> b"
  shows "find_buf l b 0 = Some i"
proof (cases "find_buf l b 0")
  case None
  with assms(1,2) show ?thesis by (simp add: find_buf_None)
next
  case (Some j)
  from find_buf_Some [OF this] assms show ?thesis using Some by auto
qed

lemma lowcount_buf_less: "k < i \<Longrightarrow> lowcount_buf l i low k < i + length l"
proof (induction l arbitrary: i low k)
  case (Cons b l)
  from Cons.IH [of i "Suc i"] Cons.IH [of k "Suc i"] Cons.prems show ?case by (auto simp: less_Suc_eq)
qed simp

lemma find_victim_less: "bio_ok st \<Longrightarrow> find_victim st < NBUFS"
  using lowcount_buf_less [of 0 1 "drop 1 (buflist st)"] by (simp add: find_victim_def bio_ok_def NBUFS_def)

lemma bio_ok_distinct:
  "bio_ok st \<Longrightarrow> i < NBUFS \<Longrightarrow> j < NBUFS \<Longrightarrow> j \<noteq> i \<Longrightarrow> bb_data (buflist st ! i) \<noteq> None \<Longrightarrow> bb_blkno (buflist st ! j) \<noteq> bb_blkno (buflist st ! i)"
  unfolding bio_ok_def by metis

lemma bio_okD:
  assumes "bio_ok st"
  shows "length (buflist st) = NBUFS" "0 < bio_blocksize st" "\<And>i. i < NBUFS \<Longrightarrow> buf_ok st (buflist st ! i)"
    "\<And>i. i < NBUFS \<Longrightarrow> length (bio_raw st i) = bio_blocksize st"
  using assms by (simp_all add: bio_ok_def)

lemma block_view_buf:
  assumes ok: "bio_ok st" and i: "i < NBUFS" "bb_data (buflist st ! i) = Some d"
  shows "block_view st (bb_blkno (buflist st ! i)) = d"
proof -
  have "find_buf (buflist st) (bb_blkno (buflist st ! i)) 0 = Some i"
    by (rule find_buf_distinct) (use bio_okD(1) [OF ok] bio_ok_distinct [OF ok i(1)] i in \<open>auto\<close>)
  with i show ?thesis by (simp add: block_view_def)
qed

lemma block_view_other:
  assumes "\<And>i. i < length (buflist st) \<Longrightarrow> bb_blkno (buflist st ! i) = b \<Longrightarrow> bb_data (buflist st ! i) = None"
  shows "block_view st b = on_disk st b"
  using assms find_buf_Some [of "buflist st" b 0] by (auto simp: block_view_def split: option.split)

subsection \<open>Writing a buffer out\<close>

lemma file_write_inside:
  "off + length d \<le> length fl \<Longrightarrow> file_write off d fl = take off fl @ d @ drop (off + length d) fl"
  by (simp add: file_write_def)

lemma length_file_write [simp]: "off + length d \<le> length fl \<Longrightarrow> length (file_write off d fl) = length fl"
  by (simp add: file_write_inside)

lemma slice_file_write_same: "off + length d \<le> length fl \<Longrightarrow> slice off (length d) (file_write off d fl) = d"
  by (simp add: file_write_inside slice_def)

lemma slice_file_write_other:
  assumes "off + length d \<le> length fl" "a + n \<le> off \<or> off + length d \<le> a"
  shows "slice a n (file_write off d fl) = slice a n fl"
  using assms(2)
proof
  assume "a + n \<le> off"
  then show ?thesis using assms(1) by (simp add: file_write_inside slice_def drop_take)
next
  assume "off + length d \<le> a"
  then show ?thesis using assms(1) by (simp add: file_write_inside slice_def)
qed

lemma blk_offset_in_file: "in_file st b \<Longrightarrow> blk_offset (bio_blocksize st) b = Some (nat b * bio_blocksize st)"
  by (auto simp: in_file_def blk_offset_def Let_def nat_mult_distrib)

lemma in_file_bound: "in_file st b \<Longrightarrow> nat b * bio_blocksize st + bio_blocksize st \<le> length (bio_file st)"
proof -
  assume "in_file st b"
  then have "int (nat b * bio_blocksize st + bio_blocksize st) \<le> int (length (bio_file st))" by (simp add: in_file_def algebra_simps)
  then show ?thesis by linarith
qed

lemma blocks_apart: "b \<noteq> c \<Longrightarrow> b * n + n \<le> c * n \<or> c * n + n \<le> (b :: nat) * n"
  by (metis add.commute linorder_neq_iff mult_Suc mult_le_mono1 Suc_leI)

lemma on_disk_write:
  assumes b: "in_file st b" "length d = bio_blocksize st" and st': "bio_file st' = file_write (nat b * bio_blocksize st) d (bio_file st)"
    "bio_blocksize st' = bio_blocksize st" and c: "in_file st c"
  shows "on_disk st' c = (if c = b then d else on_disk st c)"
proof (cases "c = b")
  case True
  with slice_file_write_same [of "nat b * bio_blocksize st" d "bio_file st"] in_file_bound [OF b(1)] b(2) show ?thesis by (simp add: on_disk_def st')
next
  case False
  then have "nat b \<noteq> nat c" using b(1) c by (auto simp: in_file_def)
  then have "slice (nat c * bio_blocksize st) (bio_blocksize st) (file_write (nat b * bio_blocksize st) d (bio_file st))
      = slice (nat c * bio_blocksize st) (bio_blocksize st) (bio_file st)"
    using in_file_bound [OF b(1)] in_file_bound [OF c] b(2) blocks_apart [of "nat b" "nat c" "bio_blocksize st"]
    by (intro slice_file_write_other) auto
  with False show ?thesis by (simp add: on_disk_def st')
qed

text \<open>Two states of the cache that stand for the same blocks, with the buffers at the same places.\<close>

definition same_blocks :: "bio \<Rightarrow> bio \<Rightarrow> bool" where
  "same_blocks st st' \<longleftrightarrow> bio_blocksize st' = bio_blocksize st \<and> length (bio_file st') = length (bio_file st) \<and> bio_counter st' = bio_counter st
     \<and> bio_raw st' = bio_raw st \<and> map bb_blkno (buflist st') = map bb_blkno (buflist st) \<and> map bb_data (buflist st') = map bb_data (buflist st)"

lemma same_blocks_in_file: "same_blocks st st' \<Longrightarrow> in_file st' = in_file st"
  by (auto simp: same_blocks_def in_file_def fun_eq_iff)

lemma same_blocks_nth:
  assumes "same_blocks st st'" "i < length (buflist st)"
  shows "bb_blkno (buflist st' ! i) = bb_blkno (buflist st ! i)" "bb_data (buflist st' ! i) = bb_data (buflist st ! i)"
proof -
  have "length (buflist st') = length (buflist st)" using assms(1) by (metis same_blocks_def length_map)
  with assms show "bb_blkno (buflist st' ! i) = bb_blkno (buflist st ! i)" "bb_data (buflist st' ! i) = bb_data (buflist st ! i)"
    unfolding same_blocks_def by (metis nth_map)+
qed

lemma recycle_ok:
  assumes ok: "bio_ok st" and i: "i < NBUFS"
  shows "\<exists>st'. recycle i st = Some st' \<and> bio_ok st' \<and> same_blocks st st' \<and> \<not> bb_dirty (buflist st' ! i)
     \<and> (\<forall>j < NBUFS. j \<noteq> i \<longrightarrow> buflist st' ! j = buflist st ! j) \<and> (\<forall>c. in_file st c \<longrightarrow> block_view st' c = block_view st c)"
proof (cases "bb_dirty (buflist st ! i)")
  case False
  then have "recycle i st = Some st" by (simp add: recycle_def write_buf_def)
  with ok False show ?thesis by (simp add: same_blocks_def)
next
  case True
  let ?b = "buflist st ! i"
  have bok: "buf_ok st ?b" using bio_okD(3) [OF ok i] .
  then obtain d where d: "bb_data ?b = Some d" "length d = bio_blocksize st" "in_file st (bb_blkno ?b)"
    using True by (auto simp: buf_ok_def split: option.splits)
  define st' where "st' = st\<lparr>buflist := (buflist st)[i := ?b\<lparr>bb_dirty := False\<rparr>], bio_file := file_write (nat (bb_blkno ?b) * bio_blocksize st) d (bio_file st)\<rparr>"
  have r: "recycle i st = Some st'" using True d by (simp add: recycle_def write_buf_def blk_offset_in_file st'_def)
  have len: "length (bio_file st') = length (bio_file st)" using in_file_bound [OF d(3)] d(2) by (simp add: st'_def)
  have same: "same_blocks st st'"
    using i bio_okD(1) [OF ok] len by (auto simp: same_blocks_def st'_def map_update intro!: nth_equalityI simp: nth_list_update)
  have disk: "on_disk st' c = (if c = bb_blkno ?b then d else on_disk st c)" if "in_file st c" for c
    by (rule on_disk_write [OF d(3,2) _ _ that]) (simp_all add: st'_def)
  have nth: "buflist st' ! j = (if j = i then ?b\<lparr>bb_dirty := False\<rparr> else buflist st ! j)" for j
    using i bio_okD(1) [OF ok] by (simp add: st'_def nth_list_update)
  have inf: "in_file st' = in_file st" by (rule same_blocks_in_file [OF same])
  have bs: "bio_blocksize st' = bio_blocksize st" by (simp add: st'_def)
  have bufs: "buf_ok st' (buflist st' ! j)" if j: "j < NBUFS" for j
  proof (cases "j = i")
    case True
    then show ?thesis using d disk [OF d(3)] by (simp add: nth buf_ok_def inf bs)
  next
    case False
    then have "bb_blkno (buflist st ! j) \<noteq> bb_blkno ?b" using bio_ok_distinct [OF ok i j] d(1) by simp
    with False bio_okD(3) [OF ok j] show ?thesis by (auto simp: nth buf_ok_def inf bs disk split: option.splits)
  qed
  have ok': "bio_ok st'"
    using ok bufs unfolding bio_ok_def by (auto simp: nth bs) (simp_all add: st'_def)
  have view: "block_view st' c = block_view st c" if c: "in_file st c" for c
  proof (cases "\<exists>j < NBUFS. bb_blkno (buflist st ! j) = c \<and> bb_data (buflist st ! j) \<noteq> None")
    case True
    then obtain j e where j: "j < NBUFS" "bb_blkno (buflist st ! j) = c" "bb_data (buflist st ! j) = Some e" by auto
    then have "bb_blkno (buflist st' ! j) = c" "bb_data (buflist st' ! j) = Some e" by (auto simp: nth)
    then show ?thesis using block_view_buf [OF ok j(1,3)] block_view_buf [OF ok' j(1)] j(2) by simp
  next
    case False
    then have "block_view st c = on_disk st c" "block_view st' c = on_disk st' c"
      using bio_okD(1) [OF ok] bio_okD(1) [OF ok'] by (auto intro!: block_view_other simp: nth split: if_splits)
    moreover have "c \<noteq> bb_blkno ?b" using False i d(1) by auto
    ultimately show ?thesis using disk [OF c] by simp
  qed
  show ?thesis using r ok' same nth view by auto
qed

subsection \<open>Reading and writing blocks\<close>

text \<open>The two operations as one step of an abstract store of blocks.\<close>

definition store_step :: "bio \<Rightarrow> int \<Rightarrow> bytes \<Rightarrow> bio \<Rightarrow> bool" where
  "store_step st b d st' \<longleftrightarrow> bio_ok st' \<and> bio_blocksize st' = bio_blocksize st \<and> in_file st' = in_file st
     \<and> (\<forall>e. usable st e \<longrightarrow> usable st' e) \<and> (\<forall>e. in_file st e \<longrightarrow> block_view st' e = (if e = b then d else block_view st e))"

text \<open>A clean buffer, or the one of block \<open>b\<close> itself, gets new contents for block \<open>b\<close>.\<close>

lemma set_buf_ok:
  assumes ok: "bio_ok st" and i: "i < NBUFS" and b: "in_file st b" "length d = bio_blocksize st" and nd: "\<not> dirty \<longrightarrow> d = on_disk st b"
    and old: "bb_blkno (buflist st ! i) = b \<or> \<not> bb_dirty (buflist st ! i)"
    and free: "\<And>j. j < NBUFS \<Longrightarrow> j \<noteq> i \<Longrightarrow> bb_blkno (buflist st ! j) \<noteq> b"
    and st': "st' = st\<lparr>bio_counter := c, buflist := (buflist st)[i := \<lparr>bb_blkno = b, bb_last_access = a, bb_dirty = dirty, bb_data = Some d\<rparr>]\<rparr>"
  shows "store_step st b d st'"
proof -
  have nth: "buflist st' ! j = (if j = i then \<lparr>bb_blkno = b, bb_last_access = a, bb_dirty = dirty, bb_data = Some d\<rparr> else buflist st ! j)" for j
    using i bio_okD(1) [OF ok] by (simp add: st' nth_list_update)
  have bs: "bio_blocksize st' = bio_blocksize st" and disk: "on_disk st' = on_disk st" and inf: "in_file st' = in_file st"
    by (auto simp: st' on_disk_def in_file_def fun_eq_iff)
  have "buf_ok st' (buflist st' ! j)" if "j < NBUFS" for j
    using bio_okD(3) [OF ok that] b nd by (auto simp: nth buf_ok_def bs disk inf split: option.splits)
  moreover have "bb_blkno (buflist st' ! j) \<noteq> bb_blkno (buflist st' ! k)"
    if "j < NBUFS" "k < NBUFS" "j \<noteq> k" "bb_data (buflist st' ! j) \<noteq> None" for j k
    using that free bio_ok_distinct [OF ok that(1,2)] by (auto simp: nth)
  ultimately have ok': "bio_ok st'"
    using bio_okD(1,2,4) [OF ok] unfolding bio_ok_def by (auto simp: bs) (simp_all add: st')
  have view: "block_view st' e = (if e = b then d else block_view st e)" for e
  proof (cases "e = b")
    case True
    then show ?thesis using block_view_buf [OF ok' i, of d] by (simp add: nth)
  next
    case False
    show ?thesis
    proof (cases "\<exists>j < NBUFS. j \<noteq> i \<and> bb_blkno (buflist st ! j) = e \<and> bb_data (buflist st ! j) \<noteq> None")
      case True
      then obtain j x where j: "j < NBUFS" "j \<noteq> i" "bb_blkno (buflist st ! j) = e" "bb_data (buflist st ! j) = Some x" by auto
      then show ?thesis using block_view_buf [OF ok j(1,4)] block_view_buf [OF ok' j(1), of x] False by (simp add: nth)
    next
      case none: False
      have "block_view st' e = on_disk st' e"
        using none False bio_okD(1) [OF ok'] by (intro block_view_other) (auto simp: nth split: if_splits)
      moreover have "block_view st e = on_disk st e"
      proof (cases "bb_blkno (buflist st ! i) = e \<and> bb_data (buflist st ! i) \<noteq> None")
        case True
        then obtain x where x: "bb_data (buflist st ! i) = Some x" by auto
        have "x = on_disk st e" using bio_okD(3) [OF ok i] old False True x by (auto simp: buf_ok_def)
        then show ?thesis using block_view_buf [OF ok i x] True by simp
      next
        case False
        then show ?thesis using none bio_okD(1) [OF ok] by (intro block_view_other) auto
      qed
      ultimately show ?thesis using False disk by simp
    qed
  qed
  have "usable st' e" if "usable st e" for e
    using that i by (auto simp: usable_def inf nth)
  with ok' inf view bs show ?thesis by (simp add: store_step_def)
qed

lemma same_blocks_usable:
  assumes "same_blocks st st'" "bio_ok st"
  shows "usable st' e = usable st e"
proof -
  have "bb_data (buflist st' ! i) = bb_data (buflist st ! i)" if "i < NBUFS" for i
    using same_blocks_nth(2) [OF assms(1)] that bio_okD(1) [OF assms(2)] by simp
  then show ?thesis by (auto simp: usable_def same_blocks_in_file [OF assms(1)])
qed

lemma usable_buf:
  assumes ok: "bio_ok st" and u: "usable st b" and f: "find_buf (buflist st) b 0 = Some i"
  shows "i < NBUFS" "bb_blkno (buflist st ! i) = b" "\<exists>d. bb_data (buflist st ! i) = Some d \<and> length d = bio_blocksize st"
proof -
  show i: "i < NBUFS" "bb_blkno (buflist st ! i) = b" using find_buf_Some [OF f] bio_okD(1) [OF ok] by auto
  have "bb_data (buflist st ! i) \<noteq> None"
    using bio_okD(3) [OF ok i(1)] i u by (auto simp: buf_ok_def usable_def split: option.splits)
  then show "\<exists>d. bb_data (buflist st ! i) = Some d \<and> length d = bio_blocksize st"
    using bio_okD(3) [OF ok i(1)] by (auto simp: buf_ok_def)
qed

lemma bio_bread_ok:
  assumes ok: "bio_ok st" and u: "usable st b"
  shows "\<exists>st'. bio_bread b st = Some (block_view st b, st') \<and> store_step st b (block_view st b) st'"
proof (cases "find_buf (buflist st) b 0")
  case (Some i)
  note i = usable_buf [OF ok u Some]
  from i(3) obtain d where d: "bb_data (buflist st ! i) = Some d" "length d = bio_blocksize st" by blast
  let ?b = "buflist st ! i"
  have b': "?b\<lparr>bb_last_access := a\<rparr> = \<lparr>bb_blkno = b, bb_last_access = a, bb_dirty = bb_dirty ?b, bb_data = Some d\<rparr>" for a
    using d i(2) by (cases ?b) simp
  have v: "block_view st b = d" using block_view_buf [OF ok i(1) d(1)] i(2) by simp
  have "\<not> bb_dirty ?b \<longrightarrow> d = on_disk st b" using bio_okD(3) [OF ok i(1)] d(1) i(2) by (simp add: buf_ok_def)
  then have "store_step st b d (st\<lparr>bio_counter := next_access st, buflist := (buflist st)[i := ?b\<lparr>bb_last_access := next_access st\<rparr>]\<rparr>)"
    unfolding b' using u d bio_ok_distinct [OF ok i(1)] i(2)
    by (intro set_buf_ok [OF ok i(1) _ d(2)]) (auto simp: usable_def)
  with Some d v show ?thesis by (simp add: bio_bread_def)
next
  case None
  define i where "i = find_victim st"
  have i: "i < NBUFS" unfolding i_def by (rule find_victim_less [OF ok])
  obtain st1 where st1: "recycle i st = Some st1" "bio_ok st1" "same_blocks st st1" "\<not> bb_dirty (buflist st1 ! i)"
    "\<forall>c. in_file st c \<longrightarrow> block_view st1 c = block_view st c" using recycle_ok [OF ok i] by blast
  have bs: "bio_blocksize st1 = bio_blocksize st" using st1(3) by (simp add: same_blocks_def)
  have inf: "in_file st1 = in_file st" by (rule same_blocks_in_file [OF st1(3)])
  have b1: "in_file st1 b" using u by (simp add: usable_def inf)
  have no: "bb_blkno (buflist st1 ! j) \<noteq> b" if "j < NBUFS" for j
    using same_blocks_nth(1) [OF st1(3), of j] None that bio_okD(1) [OF ok] by (simp add: find_buf_None)
  have v: "block_view st b = on_disk st1 b"
    using st1(5) u block_view_other [of st1 b] no bio_okD(1) [OF st1(2)] by (auto simp: usable_def)
  let ?old = "case bb_data (buflist st1 ! i) of None \<Rightarrow> bio_raw st1 i | Some d \<Rightarrow> d"
  have lo: "length ?old = bio_blocksize st" using bio_okD(3,4) [OF st1(2) i] bs by (auto simp: buf_ok_def split: option.splits)
  have ld: "length (on_disk st1 b) = bio_blocksize st1" using in_file_bound [OF b1] by (simp add: on_disk_def length_slice)
  have d: "overwrite (slice (nat b * bio_blocksize st1) (bio_blocksize st1) (bio_file st1)) ?old = on_disk st1 b"
    using lo ld bs by (simp add: overwrite_def on_disk_def)
  let ?b = "(buflist st1 ! i)\<lparr>bb_blkno := b, bb_last_access := next_access st1, bb_data := Some (on_disk st1 b)\<rparr>"
  have b': "?b = \<lparr>bb_blkno = b, bb_last_access = next_access st1, bb_dirty = False, bb_data = Some (on_disk st1 b)\<rparr>"
    using st1(4) by (cases "buflist st1 ! i") simp
  have r: "bio_bread b st = Some (on_disk st1 b, st1\<lparr>bio_counter := next_access st1, buflist := (buflist st1)[i := ?b]\<rparr>)"
    using None st1(1) b1 d by (simp add: bio_bread_def Let_def blk_offset_in_file flip: i_def)
  have "store_step st1 b (on_disk st1 b) (st1\<lparr>bio_counter := next_access st1, buflist := (buflist st1)[i := ?b]\<rparr>)"
    using set_buf_ok [OF st1(2) i b1 ld _ _ no refl, where dirty = False] st1(4) unfolding b' by simp
  then have "store_step st b (on_disk st1 b) (st1\<lparr>bio_counter := next_access st1, buflist := (buflist st1)[i := ?b]\<rparr>)"
    using st1(5) same_blocks_usable [OF st1(3) ok] bs inf by (simp add: store_step_def)
  with r v show ?thesis by simp
qed

lemma bio_bwrite_ok:
  assumes ok: "bio_ok st" and u: "usable st b" and buf: "bio_blocksize st \<le> length buf"
  shows "\<exists>st'. bio_bwrite b buf st = Some st' \<and> store_step st b (take (bio_blocksize st) buf) st'"
proof (cases "find_buf (buflist st) b 0")
  case (Some i)
  note i = usable_buf [OF ok u Some]
  from i(3) obtain d where d: "bb_data (buflist st ! i) = Some d" by blast
  let ?b = "buflist st ! i" and ?d = "take (bio_blocksize st) buf"
  have b': "?b\<lparr>bb_last_access := a, bb_data := Some ?d, bb_dirty := True\<rparr> = \<lparr>bb_blkno = b, bb_last_access = a, bb_dirty = True, bb_data = Some ?d\<rparr>" for a
    using i(2) by (cases ?b) simp
  have "store_step st b ?d (st\<lparr>bio_counter := next_access st, buflist := (buflist st)[i := ?b\<lparr>bb_last_access := next_access st, bb_data := Some ?d, bb_dirty := True\<rparr>]\<rparr>)"
    unfolding b' using u buf bio_ok_distinct [OF ok i(1)] i(2) d by (intro set_buf_ok [OF ok i(1)]) (auto simp: usable_def)
  with Some d buf show ?thesis by (simp add: bio_bwrite_def Let_def)
next
  case None
  define i where "i = find_victim st"
  have i: "i < NBUFS" unfolding i_def by (rule find_victim_less [OF ok])
  obtain st1 where st1: "recycle i st = Some st1" "bio_ok st1" "same_blocks st st1" "\<not> bb_dirty (buflist st1 ! i)"
    "\<forall>c. in_file st c \<longrightarrow> block_view st1 c = block_view st c" using recycle_ok [OF ok i] by blast
  have bs: "bio_blocksize st1 = bio_blocksize st" using st1(3) by (simp add: same_blocks_def)
  have inf: "in_file st1 = in_file st" by (rule same_blocks_in_file [OF st1(3)])
  have no: "bb_blkno (buflist st1 ! j) \<noteq> b" if "j < NBUFS" for j
    using same_blocks_nth(1) [OF st1(3), of j] None that bio_okD(1) [OF ok] by (simp add: find_buf_None)
  let ?d = "take (bio_blocksize st) buf"
  let ?b = "(buflist st1 ! i)\<lparr>bb_blkno := b, bb_last_access := next_access st1, bb_data := Some ?d, bb_dirty := True\<rparr>"
  have b': "?b = \<lparr>bb_blkno = b, bb_last_access = next_access st1, bb_dirty = True, bb_data = Some ?d\<rparr>"
    by (cases "buflist st1 ! i") simp
  have r: "bio_bwrite b buf st = Some (st1\<lparr>bio_counter := next_access st1, buflist := (buflist st1)[i := ?b]\<rparr>)"
    using None st1(1) buf by (simp add: bio_bwrite_def Let_def i_def)
  have "store_step st1 b ?d (st1\<lparr>bio_counter := next_access st1, buflist := (buflist st1)[i := ?b]\<rparr>)"
    unfolding b' using u buf bs inf st1(4) no by (intro set_buf_ok [OF st1(2) i]) (auto simp: usable_def)
  then have "store_step st b ?d (st1\<lparr>bio_counter := next_access st1, buflist := (buflist st1)[i := ?b]\<rparr>)"
    using st1(5) same_blocks_usable [OF st1(3) ok] bs inf by (simp add: store_step_def)
  with r show ?thesis by blast
qed

subsection \<open>Flushing\<close>

lemma flush_bufs_recycle:
  assumes "bio_ok st" and "buflist st = p @ l"
  shows "\<exists>st'. flush_bufs (bio_blocksize st) l (bio_file st) = Some (drop (length p) (buflist st'), bio_file st')
     \<and> take (length p) (buflist st') = p \<and> bio_ok st' \<and> same_blocks st st' \<and> (\<forall>b \<in> set (drop (length p) (buflist st')). \<not> bb_dirty b)
     \<and> (\<forall>c. in_file st c \<longrightarrow> block_view st' c = block_view st c)"
  using assms
proof (induction l arbitrary: st p)
  case Nil
  then show ?case by (intro exI [of _ st]) (simp add: same_blocks_def)
next
  case (Cons b l)
  have len: "length p < NBUFS" using Cons.prems bio_okD(1) [OF Cons.prems(1)] by simp
  obtain st1 where st1: "recycle (length p) st = Some st1" "bio_ok st1" "same_blocks st st1" "\<not> bb_dirty (buflist st1 ! length p)"
    "\<forall>c. in_file st c \<longrightarrow> block_view st1 c = block_view st c" using recycle_ok [OF Cons.prems(1) len] by blast
  obtain b' fl' where w: "write_buf (bio_blocksize st) b (bio_file st) = Some (b', fl')" "st1 = st\<lparr>buflist := (buflist st)[length p := b'], bio_file := fl'\<rparr>"
    using st1(1) Cons.prems(2) by (auto simp: recycle_def nth_append)
  have l1: "buflist st1 = (p @ [b']) @ l" using w(2) Cons.prems(2) by (simp add: list_update_append)
  from Cons.IH [OF st1(2) l1] obtain st2 where
    st2: "flush_bufs (bio_blocksize st1) l (bio_file st1) = Some (drop (length (p @ [b'])) (buflist st2), bio_file st2)"
      "take (length (p @ [b'])) (buflist st2) = p @ [b']" "bio_ok st2" "same_blocks st1 st2"
      "\<forall>b \<in> set (drop (length (p @ [b'])) (buflist st2)). \<not> bb_dirty b" "\<forall>c. in_file st1 c \<longrightarrow> block_view st2 c = block_view st1 c" by blast
  have e: "buflist st2 = (p @ [b']) @ drop (length (p @ [b'])) (buflist st2)" using st2(2) by (metis append_take_drop_id)
  then have d: "drop (length p) (buflist st2) = b' # drop (length (p @ [b'])) (buflist st2)" "take (length p) (buflist st2) = p"
    by (metis append_eq_conv_conj append.assoc append_Cons append_Nil)+
  have "flush_bufs (bio_blocksize st) (b # l) (bio_file st) = Some (drop (length p) (buflist st2), bio_file st2)"
    using w st2(1) by (simp add: d(1))
  moreover have "\<not> bb_dirty b'" using st1(4) l1 by (simp add: nth_append)
  moreover have "same_blocks st st2" using st1(3) st2(4) by (simp add: same_blocks_def)
  ultimately show ?case
    using d st2(3,5,6) st1(5) same_blocks_in_file [OF st1(3)] by (intro exI [of _ st2]) auto
qed

lemma bflush_ok:
  assumes "bio_ok st"
  shows "\<exists>st'. bflush st = Some st' \<and> bio_ok st' \<and> same_blocks st st' \<and> (\<forall>b \<in> set (buflist st'). \<not> bb_dirty b)
     \<and> (\<forall>c. in_file st c \<longrightarrow> block_view st' c = block_view st c \<and> on_disk st' c = block_view st c)"
proof -
  from flush_bufs_recycle [OF assms, of "[]"] obtain st' where
    st': "flush_bufs (bio_blocksize st) (buflist st) (bio_file st) = Some (buflist st', bio_file st')" "bio_ok st'" "same_blocks st st'"
      "\<forall>b \<in> set (buflist st'). \<not> bb_dirty b" "\<forall>c. in_file st c \<longrightarrow> block_view st' c = block_view st c" by auto
  have e: "st\<lparr>buflist := buflist st', bio_file := bio_file st'\<rparr> = st'"
    using st'(3) by (intro bio.equality) (simp_all add: same_blocks_def)
  have "on_disk st' c = block_view st' c" for c
  proof (cases "\<exists>j < NBUFS. bb_blkno (buflist st' ! j) = c \<and> bb_data (buflist st' ! j) \<noteq> None")
    case True
    then obtain j x where j: "j < NBUFS" "bb_blkno (buflist st' ! j) = c" "bb_data (buflist st' ! j) = Some x" by auto
    have "\<not> bb_dirty (buflist st' ! j)" using st'(4) j(1) bio_okD(1) [OF st'(2)] by simp
    then have "x = on_disk st' c" using bio_okD(3) [OF st'(2) j(1)] j by (simp add: buf_ok_def)
    with block_view_buf [OF st'(2) j(1,3)] j(2) show ?thesis by simp
  next
    case False
    then show ?thesis using bio_okD(1) [OF st'(2)] by (auto intro!: block_view_other [symmetric])
  qed
  then show ?thesis using st' e by (intro exI [of _ st']) (simp add: bflush_def)
qed

subsection \<open>The interface\<close>

text \<open>
  A store of blocks: reading a block delivers its contents, and writing changes this block only.  \<open>valid\<close> are the blocks that may be used.
\<close>

locale block_store =
  fixes rd :: "int \<Rightarrow> 's \<Rightarrow> (bytes \<times> 's) option"
    and wr :: "int \<Rightarrow> bytes \<Rightarrow> 's \<Rightarrow> 's option"
    and view :: "'s \<Rightarrow> int \<Rightarrow> bytes"
    and ok :: "'s \<Rightarrow> bool"
    and valid :: "'s \<Rightarrow> int \<Rightarrow> bool"
    and bs :: nat
  assumes read_block: "ok s \<Longrightarrow> valid s b \<Longrightarrow> \<exists>s'. rd b s = Some (view s b, s') \<and> ok s' \<and> (\<forall>e. valid s e \<longrightarrow> valid s' e \<and> view s' e = view s e)"
    and write_block: "ok s \<Longrightarrow> valid s b \<Longrightarrow> length d = bs \<Longrightarrow>
          \<exists>s'. wr b d s = Some s' \<and> ok s' \<and> (\<forall>e. valid s e \<longrightarrow> valid s' e \<and> view s' e = (if e = b then d else view s e))"

text \<open>Sequences of operations, on the store and on the plain blocks.\<close>

datatype block_op = Read_block int | Write_block int bytes

primrec op_block :: "block_op \<Rightarrow> int" where
  "op_block (Read_block b) = b"
| "op_block (Write_block b d) = b"

primrec op_fits :: "nat \<Rightarrow> block_op \<Rightarrow> bool" where
  "op_fits bs (Read_block b) = True"
| "op_fits bs (Write_block b d) = (length d = bs)"

fun run_ops :: "(int \<Rightarrow> 's \<Rightarrow> (bytes \<times> 's) option) \<Rightarrow> (int \<Rightarrow> bytes \<Rightarrow> 's \<Rightarrow> 's option) \<Rightarrow> block_op list \<Rightarrow> 's \<Rightarrow> (bytes list \<times> 's) option" where
  "run_ops rd wr [] s = Some ([], s)"
| "run_ops rd wr (Read_block b # ops) s =
     (case rd b s of None \<Rightarrow> None | Some (d, s) \<Rightarrow> map_option (\<lambda>(ds, s). (d # ds, s)) (run_ops rd wr ops s))"
| "run_ops rd wr (Write_block b d # ops) s = (case wr b d s of None \<Rightarrow> None | Some s \<Rightarrow> run_ops rd wr ops s)"

fun spec_ops :: "block_op list \<Rightarrow> (int \<Rightarrow> bytes) \<Rightarrow> bytes list \<times> (int \<Rightarrow> bytes)" where
  "spec_ops [] v = ([], v)"
| "spec_ops (Read_block b # ops) v = (case spec_ops ops v of (ds, v') \<Rightarrow> (v b # ds, v'))"
| "spec_ops (Write_block b d # ops) v = spec_ops ops (v(b := d))"

lemma spec_ops_cong:
  assumes "\<And>b. b \<in> B \<Longrightarrow> v b = w b" and "op_block ` set ops \<subseteq> B"
  shows "fst (spec_ops ops v) = fst (spec_ops ops w) \<and> (\<forall>b \<in> B. snd (spec_ops ops v) b = snd (spec_ops ops w) b)"
  using assms
proof (induction ops v arbitrary: w rule: spec_ops.induct)
  case (2 b ops v)
  have "fst (spec_ops ops v) = fst (spec_ops ops w) \<and> (\<forall>b \<in> B. snd (spec_ops ops v) b = snd (spec_ops ops w) b)"
    by (rule "2.IH") (use "2.prems" in auto)
  moreover have "v b = w b" using "2.prems" by simp
  ultimately show ?case by (simp add: split_beta)
next
  case (3 b d ops v)
  have "fst (spec_ops ops (v(b := d))) = fst (spec_ops ops (w(b := d))) \<and> (\<forall>e \<in> B. snd (spec_ops ops (v(b := d))) e = snd (spec_ops ops (w(b := d))) e)"
    by (rule "3.IH") (use "3.prems" in auto)
  then show ?case by simp
qed simp

context block_store
begin

lemma run_ops_spec:
  assumes "ok s" and "\<And>b. b \<in> B \<Longrightarrow> valid s b" and "op_block ` set ops \<subseteq> B" and "\<forall>x \<in> set ops. op_fits bs x"
  shows "\<exists>s'. run_ops rd wr ops s = Some (fst (spec_ops ops (view s)), s') \<and> ok s'
     \<and> (\<forall>b \<in> B. valid s' b \<and> view s' b = snd (spec_ops ops (view s)) b)"
  using assms
proof (induction ops arbitrary: s)
  case Nil
  then show ?case by simp
next
  case (Cons x ops)
  show ?case
  proof (cases x)
    case (Read_block b)
    have b: "valid s b" using Cons.prems(2,3) Read_block by auto
    from read_block [OF Cons.prems(1) b] obtain s1 where
      s1: "rd b s = Some (view s b, s1)" "ok s1" "\<And>e. valid s e \<Longrightarrow> valid s1 e" "\<And>e. valid s e \<Longrightarrow> view s1 e = view s e" by blast
    from Cons.IH [OF s1(2)] s1(3) Cons.prems(2-4) obtain s2 where
      "run_ops rd wr ops s1 = Some (fst (spec_ops ops (view s1)), s2)" "ok s2" "\<forall>b \<in> B. valid s2 b \<and> view s2 b = snd (spec_ops ops (view s1)) b" by auto
    moreover have "fst (spec_ops ops (view s1)) = fst (spec_ops ops (view s)) \<and> (\<forall>b \<in> B. snd (spec_ops ops (view s1)) b = snd (spec_ops ops (view s)) b)"
      by (rule spec_ops_cong) (use s1(4) Cons.prems(2,3) in auto)
    ultimately show ?thesis using s1(1) Read_block by (simp add: split_beta)
  next
    case (Write_block b d)
    have b: "valid s b" "length d = bs" using Cons.prems(2,3,4) Write_block by auto
    from write_block [OF Cons.prems(1) b] obtain s1 where
      s1: "wr b d s = Some s1" "ok s1" "\<And>e. valid s e \<Longrightarrow> valid s1 e" "\<And>e. valid s e \<Longrightarrow> view s1 e = (if e = b then d else view s e)" by blast
    from Cons.IH [OF s1(2)] s1(3) Cons.prems(2-4) obtain s2 where
      "run_ops rd wr ops s1 = Some (fst (spec_ops ops (view s1)), s2)" "ok s2" "\<forall>b \<in> B. valid s2 b \<and> view s2 b = snd (spec_ops ops (view s1)) b" by auto
    moreover have "fst (spec_ops ops (view s1)) = fst (spec_ops ops ((view s)(b := d))) \<and> (\<forall>e \<in> B. snd (spec_ops ops (view s1)) e = snd (spec_ops ops ((view s)(b := d))) e)"
      by (rule spec_ops_cong) (use s1(4) Cons.prems(2,3) in auto)
    ultimately show ?thesis using s1(1) Write_block by simp
  qed
qed

end

interpretation cache: block_store bio_bread bio_bwrite block_view "\<lambda>st. bio_ok st \<and> bio_blocksize st = bs" usable bs for bs
proof
  fix st b
  assume st: "bio_ok st \<and> bio_blocksize st = bs" and b: "usable st b"
  show "\<exists>s'. bio_bread b st = Some (block_view st b, s') \<and> (bio_ok s' \<and> bio_blocksize s' = bs) \<and> (\<forall>e. usable st e \<longrightarrow> usable s' e \<and> block_view s' e = block_view st e)"
    using bio_bread_ok [OF conjunct1 [OF st] b] st by (auto simp: store_step_def usable_def)
  show "\<exists>s'. bio_bwrite b d st = Some s' \<and> (bio_ok s' \<and> bio_blocksize s' = bs)
      \<and> (\<forall>e. usable st e \<longrightarrow> usable s' e \<and> block_view s' e = (if e = b then d else block_view st e))" if "length d = bs" for d
    using bio_bwrite_ok [OF conjunct1 [OF st] b, of d] st that by (auto simp: store_step_def usable_def)
qed

subsection \<open>Properties\<close>

lemma binit_ok:
  assumes "0 < bs" and "\<And>i. i < NBUFS \<Longrightarrow> length (bio_raw st i) = bs"
  shows "bio_ok (binit bs st)"
  using assms by (simp add: bio_ok_def binit_def buf_ok_def)

lemma binit_view: "block_view (binit bs st) b = slice (nat b * bs) bs (bio_file st)"
proof -
  have "block_view (binit bs st) b = on_disk (binit bs st) b"
    by (rule block_view_other) (simp add: binit_def)
  then show ?thesis by (simp add: on_disk_def binit_def)
qed

text \<open>
  C31.  The cache is transparent: from an initialised cache, every sequence of reads and writes of blocks other than block 0 delivers what it would deliver on the plain file, whichever buffers
  are recycled on the way, and after \<open>bflush\<close> the file holds the blocks as the sequence left them.
\<close>

theorem bio_cache_transparent:
  assumes "0 < bs" and "\<forall>i < NBUFS. length (bio_raw st i) = bs"
    and "\<forall>x \<in> set ops. op_fits bs x \<and> 0 < op_block x \<and> (op_block x + 1) * int bs \<le> int (length (bio_file st)) \<and> op_block x * int bs < 2 ^ 31"
    and "v = (\<lambda>b. slice (nat b * bs) bs (bio_file st))"
  shows "\<exists>st1 st2. run_ops bio_bread bio_bwrite ops (binit bs st) = Some (fst (spec_ops ops v), st1) \<and> bflush st1 = Some st2
     \<and> (\<forall>b \<in> op_block ` set ops. slice (nat b * bs) bs (bio_file st2) = snd (spec_ops ops v) b)"
proof -
  let ?B = "op_block ` set ops" and ?st = "binit bs st"
  have ok: "bio_ok ?st \<and> bio_blocksize ?st = bs" using binit_ok [OF assms(1)] assms(2) by (simp add: binit_def)
  have u: "usable ?st b" if "b \<in> ?B" for b
    using that assms(3) by (auto simp: usable_def in_file_def binit_def)
  have v: "v = block_view ?st" by (simp add: assms(4) binit_view fun_eq_iff)
  have "\<forall>x \<in> set ops. op_fits bs x" using assms(3) by simp
  from cache.run_ops_spec [where bs = bs, OF ok u subset_refl this] obtain st1 where
    st1: "run_ops bio_bread bio_bwrite ops ?st = Some (fst (spec_ops ops v), st1)" "bio_ok st1" "bio_blocksize st1 = bs"
      "\<forall>b \<in> ?B. usable st1 b \<and> block_view st1 b = snd (spec_ops ops v) b" unfolding v by auto
  from bflush_ok [OF st1(2)] obtain st2 where
    st2: "bflush st1 = Some st2" "same_blocks st1 st2" "\<forall>c. in_file st1 c \<longrightarrow> on_disk st2 c = block_view st1 c" by blast
  have "slice (nat b * bs) bs (bio_file st2) = snd (spec_ops ops v) b" if "b \<in> ?B" for b
    using st2(2,3) st1(3,4) that by (auto simp: usable_def on_disk_def same_blocks_def)
  with st1(1) st2(1) show ?thesis by blast
qed

definition bio_example :: bio where
  "bio_example = \<lparr>bio_file = replicate 8 1, bio_counter = 0, bio_blocksize = 0, buflist = [], bio_raw = (\<lambda>_. [9, 9])\<rparr>"

theorem bio_cache_transparent_witness:
  "\<exists>st1 st2. run_ops bio_bread bio_bwrite [Write_block 2 [5, 6], Read_block 2, Read_block 3] (binit 2 bio_example) = Some ([[5, 6], [1, 1]], st1) \<and> bflush st1 = Some st2
     \<and> slice 4 2 (bio_file st2) = [5, 6]"
  using bio_cache_transparent [of 2 bio_example "[Write_block 2 [5, 6], Read_block 2, Read_block 3]"]
  by (auto simp: bio_example_def slice_def numeral_eq_Suc)

lemma unused_block_zero:
  assumes ok: "bio_ok st" and i: "i < NBUFS" "bb_data (buflist st ! i) = None" and "bio_blocksize st \<le> length buf"
  shows "bio_bwrite 0 buf st = None" "bio_bread 0 st = None"
proof -
  have "bb_blkno (buflist st ! i) = 0" using bio_okD(3) [OF ok i(1)] i(2) by (simp add: buf_ok_def)
  then obtain j where j: "find_buf (buflist st) 0 0 = Some j"
    using find_buf_None [of "buflist st" 0 0] i(1) bio_okD(1) [OF ok] by fastforce
  have "j < NBUFS" "bb_blkno (buflist st ! j) = 0" using find_buf_Some [OF j] bio_okD(1) [OF ok] by auto
  then have "bb_data (buflist st ! j) = None"
    using bio_ok_distinct [OF ok, of j i] i \<open>bb_blkno (buflist st ! i) = 0\<close> by (cases "j = i"; cases "bb_data (buflist st ! j)") auto
  with j show "bio_bwrite 0 buf st = None" "bio_bread 0 st = None" by (simp_all add: bio_bwrite_def bio_bread_def Let_def)
qed

definition used_bufs :: "bio \<Rightarrow> nat set" where
  "used_bufs st = {i. i < NBUFS \<and> bb_data (buflist st ! i) \<noteq> None}"

lemma used_bufs_update: "used_bufs (st\<lparr>bio_counter := c, buflist := (buflist st)[i := b]\<rparr>) \<subseteq> insert i (used_bufs st)"
  by (auto simp: used_bufs_def nth_list_update_neq)

lemma used_bufs_recycle: "bio_ok st \<Longrightarrow> i < NBUFS \<Longrightarrow> recycle i st = Some st' \<Longrightarrow> used_bufs st' = used_bufs st"
  using recycle_ok [of st i] same_blocks_nth(2) [of st st'] by (auto simp: used_bufs_def bio_okD(1))

lemma bio_used:
  assumes ok: "bio_ok st"
  shows "bio_bread b st = Some (d, st') \<Longrightarrow> \<exists>i. used_bufs st' \<subseteq> insert i (used_bufs st)"
    and "bio_bwrite b buf st = Some st' \<Longrightarrow> \<exists>i. used_bufs st' \<subseteq> insert i (used_bufs st)"
  using used_bufs_recycle [OF ok find_victim_less [OF ok]] used_bufs_update
  by (auto simp: bio_bread_def bio_bwrite_def Let_def split: option.splits if_splits) blast+

lemma run_ops_used:
  assumes "bio_ok st" and "\<And>x. x \<in> set ops \<Longrightarrow> op_fits (bio_blocksize st) x \<and> 0 < op_block x \<and> usable st (op_block x)"
    and "run_ops bio_bread bio_bwrite ops st = Some (ds, st')"
  shows "bio_ok st' \<and> bio_blocksize st' = bio_blocksize st \<and> card (used_bufs st') \<le> card (used_bufs st) + length ops"
  using assms
proof (induction ops arbitrary: st ds)
  case (Cons x ops)
  have fin: "finite (used_bufs st)" by (simp add: used_bufs_def)
  have u: "usable st (op_block x)" using Cons.prems(2) by simp
  obtain st1 ds1 d where st1: "store_step st (op_block x) d st1" "run_ops bio_bread bio_bwrite ops st1 = Some (ds1, st')" "\<exists>i. used_bufs st1 \<subseteq> insert i (used_bufs st)"
  proof (cases x)
    case (Read_block b)
    with Cons.prems bio_bread_ok [OF Cons.prems(1) u] bio_used(1) [OF Cons.prems(1)] show ?thesis
      by (fastforce intro: that split: option.splits prod.splits)
  next
    case (Write_block b d)
    then have "bio_blocksize st \<le> length d" using Cons.prems(2) [of x] by simp
    with Write_block Cons.prems(3) bio_bwrite_ok [OF Cons.prems(1) u, of d] bio_used(2) [OF Cons.prems(1)] show ?thesis
      by (fastforce intro: that split: option.splits)
  qed
  then obtain i where i: "used_bufs st1 \<subseteq> insert i (used_bufs st)" by blast
  have "card (used_bufs st1) \<le> Suc (card (used_bufs st))"
    using card_mono [OF _ i] fin card_insert_le_m1 [of "Suc (card (used_bufs st))" "used_bufs st" i] by simp
  moreover have "bio_ok st' \<and> bio_blocksize st' = bio_blocksize st1 \<and> card (used_bufs st') \<le> card (used_bufs st1) + length ops"
    by (rule Cons.IH [OF _ _ st1(2)]) (use st1(1) Cons.prems(2) in \<open>auto simp: store_step_def\<close>)
  ultimately show ?case using st1(1) by (simp add: store_step_def)
qed simp

text \<open>
  Block 0 cannot be written while a buffer is unused: unused buffers carry the block number 0, so that the search takes one of them for the buffer of block 0 and copies to a \<open>NULL\<close>
  pointer.  This is so after fewer than 32 operations on an initialised cache.
\<close>

theorem bio_block_zero_null:
  assumes "0 < bs" and "\<forall>i < NBUFS. length (bio_raw st i) = bs"
    and "\<forall>x \<in> set ops. op_fits bs x \<and> 0 < op_block x \<and> (op_block x + 1) * int bs \<le> int (length (bio_file st)) \<and> op_block x * int bs < 2 ^ 31"
    and "run_ops bio_bread bio_bwrite ops (binit bs st) = Some (ds, st')" and "length ops < NBUFS" and "bs \<le> length buf"
  shows "bio_bwrite 0 buf st' = None"
proof -
  let ?st = "binit bs st"
  have ok: "bio_ok ?st" using binit_ok [OF assms(1)] assms(2) by simp
  have st': "bio_ok st' \<and> bio_blocksize st' = bio_blocksize ?st \<and> card (used_bufs st') \<le> card (used_bufs ?st) + length ops"
    by (rule run_ops_used [OF ok _ assms(4)]) (use assms(3) in \<open>auto simp: usable_def in_file_def binit_def\<close>)
  moreover have "used_bufs ?st = {}" by (simp add: used_bufs_def binit_def)
  ultimately have "card (used_bufs st') < card {..<NBUFS}" using assms(5) by simp
  then have "used_bufs st' \<noteq> {..<NBUFS}" by (metis less_irrefl)
  then obtain i where i: "i < NBUFS" "bb_data (buflist st' ! i) = None" by (auto simp: used_bufs_def)
  have "bio_blocksize st' \<le> length buf" using st' assms(6) by (simp add: binit_def)
  with unused_block_zero(1) [OF _ i] st' show ?thesis by blast
qed

theorem bio_block_zero_null_witness:
  "\<exists>st'. run_ops bio_bread bio_bwrite [Write_block 2 [5, 6]] (binit 2 bio_example) = Some ([], st') \<and> bio_bwrite 0 [7, 8] st' = None"
proof -
  have "map_option fst (run_ops bio_bread bio_bwrite [Write_block 2 [5, 6]] (binit 2 bio_example)) = Some []" by code_simp
  then obtain st' where st': "run_ops bio_bread bio_bwrite [Write_block 2 [5, 6]] (binit 2 bio_example) = Some ([], st')" by fastforce
  have "bio_bwrite 0 [7, 8] st' = None"
    by (rule bio_block_zero_null [OF _ _ _ st']) (simp_all add: bio_example_def NBUFS_def)
  with st' show ?thesis by blast
qed

end
