(* ===== verification/E2lib.thy ===== *)
theory E2lib
  imports Bio
begin

text \<open>
  The library with which host programs change an ext2 file system (\<^verbatim>\<open>src/tools/e2lib.c\<close>), on the buffer cache of the theory \<open>Bio\<close>.

  The globals of the file are the record \<open>e2lib\<close>.  Super block, group descriptors, inodes and bitmaps are byte strings with little-endian fields, as on disk.  An operation is a function from the
  state to its result and the new state; \<^const>\<open>None\<close> means that the code has no defined result there: it follows a \<open>NULL\<close> pointer, reads or writes outside an array,
  divides by zero, overflows a signed integer or never ends.  A pointer to an inode is the index of its slot in the inode table.  Messages are left out.
\<close>

unbundle bit_operations_syntax

subsection \<open>State\<close>

record e2lib =
  l_bio :: bio
  l_sb :: bytes
  l_gds :: bytes
  l_ngroups :: nat
  l_blocksize :: nat
  l_directlim :: nat
  l_ind1lim :: nat
  l_ind2lim :: nat
  l_ptrs :: nat
  l_readonly :: bool
  l_table :: "inode_table_entry list"

definition LIB_OPEN_FILES :: nat where "LIB_OPEN_FILES = 8"
definition EXT2_TIND_BLOCK :: nat where "EXT2_TIND_BLOCK = 14"

type_synonym 'a lib = "e2lib \<Rightarrow> ('a \<times> e2lib) option"

definition lib_ret :: "'a \<Rightarrow> 'a lib" where "lib_ret x st = Some (x, st)"
definition lib_bind :: "'a lib \<Rightarrow> ('a \<Rightarrow> 'b lib) \<Rightarrow> 'b lib" where
  "lib_bind m k st = (case m st of None \<Rightarrow> None | Some (x, st') \<Rightarrow> k x st')"
definition lib_fail :: "'a lib" where "lib_fail st = None"
definition lib_get :: "(e2lib \<Rightarrow> 'a) \<Rightarrow> 'a lib" where "lib_get g st = Some (g st, st)"
definition lib_set :: "(e2lib \<Rightarrow> e2lib) \<Rightarrow> unit lib" where "lib_set g st = Some ((), g st)"

text \<open>Fields of byte strings.\<close>

definition put_bytes :: "nat \<Rightarrow> bytes \<Rightarrow> bytes \<Rightarrow> bytes" where
  "put_bytes off d bs = take off bs @ d @ drop (off + length d) bs"

definition put_le16 :: "nat \<Rightarrow> u16 \<Rightarrow> bytes \<Rightarrow> bytes" where
  "put_le16 off w bs = put_bytes off (le_encode 2 w) bs"

definition put_le32 :: "nat \<Rightarrow> u32 \<Rightarrow> bytes \<Rightarrow> bytes" where
  "put_le32 off w bs = put_bytes off (le_encode 4 w) bs"

definition s_free_blocks_count :: "bytes \<Rightarrow> u32" where "s_free_blocks_count b = le32_at b 12"
definition s_free_inodes_count :: "bytes \<Rightarrow> u32" where "s_free_inodes_count b = le32_at b 16"
definition bg_block_bitmap :: "bytes \<Rightarrow> nat \<Rightarrow> u32" where "bg_block_bitmap g i = le32_at g (sizeof_group_desc * i)"
definition bg_inode_bitmap :: "bytes \<Rightarrow> nat \<Rightarrow> u32" where "bg_inode_bitmap g i = le32_at g (sizeof_group_desc * i + 4)"
definition bg_free_blocks_count :: "bytes \<Rightarrow> nat \<Rightarrow> u16" where "bg_free_blocks_count g i = le16_at g (sizeof_group_desc * i + 12)"
definition bg_free_inodes_count :: "bytes \<Rightarrow> nat \<Rightarrow> u16" where "bg_free_inodes_count g i = le16_at g (sizeof_group_desc * i + 14)"
definition bg_used_dirs_count :: "bytes \<Rightarrow> nat \<Rightarrow> u16" where "bg_used_dirs_count g i = le16_at g (sizeof_group_desc * i + 16)"

definition add_free_blocks :: "nat \<Rightarrow> int \<Rightarrow> e2lib \<Rightarrow> e2lib" where
  "add_free_blocks i n st = st\<lparr>
     l_gds := put_le16 (sizeof_group_desc * i + 12) (bg_free_blocks_count (l_gds st) i + word_of_int n) (l_gds st),
     l_sb := put_le32 12 (s_free_blocks_count (l_sb st) + word_of_int n) (l_sb st)\<rparr>"

definition add_free_inodes :: "nat \<Rightarrow> int \<Rightarrow> e2lib \<Rightarrow> e2lib" where
  "add_free_inodes i n st = st\<lparr>
     l_gds := put_le16 (sizeof_group_desc * i + 14) (bg_free_inodes_count (l_gds st) i + word_of_int n) (l_gds st),
     l_sb := put_le32 16 (s_free_inodes_count (l_sb st) + word_of_int n) (l_sb st)\<rparr>"

text \<open>Access to the descriptor of group \<open>i\<close>.\<close>

definition group_in :: "e2lib \<Rightarrow> nat \<Rightarrow> bool" where
  "group_in st i \<longleftrightarrow> sizeof_group_desc * (i + 1) \<le> length (l_gds st)"

definition check :: "(e2lib \<Rightarrow> bool) \<Rightarrow> unit lib" where
  "check p st = (if p st then Some ((), st) else None)"

definition blk_read :: "int \<Rightarrow> bytes lib" where
  "blk_read b st = map_option (\<lambda>(d, c). (d, st\<lparr>l_bio := c\<rparr>)) (bio_bread b (l_bio st))"

definition blk_write :: "int \<Rightarrow> bytes \<Rightarrow> unit lib" where
  "blk_write b d st = map_option (\<lambda>c. ((), st\<lparr>l_bio := c\<rparr>)) (bio_bwrite b d (l_bio st))"

subsection \<open>Opening and closing\<close>

text \<open>\<open>ext2_init\<close> with the contents \<open>fl\<close> of the file, \<^const>\<open>None\<close> when it cannot be opened.  The results of \<open>open\<close> and \<open>getenv\<close> are not part of the state.\<close>

datatype access = O_RDONLY | O_RDWR | O_OTHER

definition ext2_init :: "bytes option \<Rightarrow> access \<Rightarrow> int lib" where
  "ext2_init file acc st =
     (let st = st\<lparr>l_table := map clear_slot (l_table st)\<rparr>
      in if acc = O_OTHER then Some (- 1, st)
         else
           case file of
             None \<Rightarrow> Some (- 1, st)
           | Some fl \<Rightarrow>
               let st = (if acc = O_RDONLY then st\<lparr>l_readonly := True\<rparr> else st);
                   d = slice 1024 sizeof_sb fl; st = st\<lparr>l_sb := overwrite d (l_sb st)\<rparr>; sb = l_sb st
               in if length d \<noteq> sizeof_sb then Some (- 1, st)
                  else if s_magic sb \<noteq> EXT2_SUPER_MAGIC then Some (- 1, st)
                  else if s_first_data_block sb \<noteq> 1 then Some (- 1, st)
                  else if s_blocks_per_group sb = 0 then None
                  else
                    let ng = unat ((s_blocks_count sb + s_blocks_per_group sb - 1) div s_blocks_per_group sb);
                        g = slice 2048 (ng * sizeof_group_desc) fl; st = st\<lparr>l_ngroups := ng, l_gds := g\<rparr>
                    in if length g \<noteq> ng * sizeof_group_desc then Some (- 1, st)
                       else
                         let bs = nat (block_size_of sb); dl = nat EXT2_NDIR_BLOCKS - 1; p = bs div 4
                         in Some (0, st\<lparr>l_blocksize := bs, l_directlim := dl, l_ptrs := p, l_ind1lim := p + dl, l_ind2lim := p * p + dl,
                              l_bio := binit bs (l_bio st\<lparr>bio_file := fl\<rparr>)\<rparr>))"

text \<open>The super block and the descriptors go to the second block of every group; the cache is flushed after each of them.\<close>

definition write_super :: "nat \<Rightarrow> unit lib" where
  "write_super i st =
     (let off = (int i * sint (s_blocks_per_group (l_sb st)) + 1) * int (l_blocksize st)
      in if off < 0 \<or> off \<ge> 2 ^ 31 then None
         else
           let c = l_bio st; c = c\<lparr>bio_file := file_write (nat off) (l_sb st) (bio_file c)\<rparr>;
               c = c\<lparr>bio_file := file_write (nat off + sizeof_sb) (l_gds st) (bio_file c)\<rparr>
           in map_option (\<lambda>c. ((), st\<lparr>l_bio := c\<rparr>)) (bflush c))"

fun for_each :: "('a \<Rightarrow> unit lib) \<Rightarrow> 'a list \<Rightarrow> unit lib" where
  "for_each f [] = lib_ret ()"
| "for_each f (x # xs) = lib_bind (f x) (\<lambda>_. for_each f xs)"

definition lib_close :: "unit lib" where
  "lib_close st = (if l_readonly st then Some ((), st) else for_each write_super [0..<l_ngroups st] st)"

subsection \<open>Bitmaps\<close>

text \<open>A bitmap is one block, read into an array of 256 words; a larger block would be written beyond it.\<close>

definition BITMAP_SIZE :: nat where "BITMAP_SIZE = 1024"

definition read_bitmap :: "u32 \<Rightarrow> bytes lib" where
  "read_bitmap b = lib_bind (check (\<lambda>st. l_blocksize st \<le> BITMAP_SIZE)) (\<lambda>_. blk_read (sint b))"

definition map_word :: "bytes \<Rightarrow> nat \<Rightarrow> u32" where
  "map_word m i = le32_at m (4 * i)"

primrec zero_bit :: "u32 \<Rightarrow> nat \<Rightarrow> nat option" where
  "zero_bit w 0 = None"
| "zero_bit w (Suc n) = (if w AND push_bit (31 - n) 1 = 0 then Some (31 - n) else zero_bit w n)"

fun zero_word :: "bytes \<Rightarrow> nat \<Rightarrow> nat \<Rightarrow> nat option option" where
  "zero_word m i 0 = Some None"
| "zero_word m i (Suc n) =
     (if 4 * (i + 1) > length m then None
      else if map_word m i \<noteq> 0xffffffff then Some (map_option (\<lambda>b. i * 32 + b) (zero_bit (map_word m i) 32))
      else zero_word m (i + 1) n)"

definition find_first_zero_bit :: "bytes \<Rightarrow> u32 \<Rightarrow> nat option" where
  "find_first_zero_bit m n =
     (if n = 0 then Some 0
      else case zero_word m 0 ((unat n + 31) div 32) of
             None \<Rightarrow> None
           | Some None \<Rightarrow> Some (unat n)
           | Some (Some b) \<Rightarrow> Some b)"

definition set_map_bit :: "bytes \<Rightarrow> nat \<Rightarrow> bytes" where
  "set_map_bit m n = put_le32 (4 * (n div 32)) (map_word m (n div 32) OR push_bit (n mod 32) 1) m"

definition clear_map_bit :: "bytes \<Rightarrow> nat \<Rightarrow> bytes" where
  "clear_map_bit m n = put_le32 (4 * (n div 32)) (map_word m (n div 32) AND NOT (push_bit (n mod 32) 1)) m"

subsection \<open>Blocks\<close>

text \<open>
  The loop of \<open>ext2_balloc\<close> over the groups \<open>is\<close>.  A group whose first block is free, or whose bitmap has no free bit, is passed over.
\<close>

primrec balloc_loop :: "nat list \<Rightarrow> int lib" where
  "balloc_loop [] = lib_ret 0"
| "balloc_loop (i # is) =
     lib_bind (check (\<lambda>st. group_in st i)) (\<lambda>_.
     lib_bind (lib_get (\<lambda>st. bg_free_blocks_count (l_gds st) i)) (\<lambda>n.
     if n = 0 then balloc_loop is
     else
       lib_bind (lib_get (\<lambda>st. bg_block_bitmap (l_gds st) i)) (\<lambda>b.
       lib_bind (read_bitmap b) (\<lambda>m.
       lib_bind (lib_get (\<lambda>st. s_blocks_per_group (l_sb st))) (\<lambda>per.
       case find_first_zero_bit m per of
         None \<Rightarrow> lib_fail
       | Some k \<Rightarrow>
           if k = 0 \<or> k = unat per then balloc_loop is
           else if 4 * (k div 32 + 1) > length m then lib_fail
           else
             lib_bind (blk_write (sint b) (set_map_bit m k)) (\<lambda>_.
             lib_bind (lib_set (add_free_blocks i (- 1))) (\<lambda>_.
             lib_ret (sint (of_nat k + of_nat i * per + 1 :: u32)))))))))"

definition ext2_balloc :: "int lib" where
  "ext2_balloc = lib_bind (lib_get l_readonly) (\<lambda>ro. if ro then lib_ret 0 else lib_bind (lib_get l_ngroups) (\<lambda>n. balloc_loop [0..<n]))"

text \<open>The group and the bit of a block or an inode: the division is unsigned.\<close>

definition group_of :: "u32 \<Rightarrow> int \<Rightarrow> nat \<times> nat" where
  "group_of per n = (let w = word_of_int (n - 1) :: u32 in (unat (w div per), unat (w mod per)))"

definition ext2_bfree :: "int \<Rightarrow> unit lib" where
  "ext2_bfree blk =
     lib_bind (check (\<lambda>st. s_blocks_per_group (l_sb st) \<noteq> 0)) (\<lambda>_.
     lib_bind (lib_get (\<lambda>st. group_of (s_blocks_per_group (l_sb st)) blk)) (\<lambda>(i, k).
     lib_bind (check (\<lambda>st. group_in st i)) (\<lambda>_.
     lib_bind (lib_get (\<lambda>st. bg_block_bitmap (l_gds st) i)) (\<lambda>b.
     lib_bind (read_bitmap b) (\<lambda>m.
     if 4 * (k div 32 + 1) > length m then lib_fail
     else
       lib_bind (blk_write (sint b) (clear_map_bit m k)) (\<lambda>_.
       lib_set (add_free_blocks i 1)))))))"

text \<open>
  The search for a run of at least \<open>need\<close> zero words: the first zero word from \<open>first\<close> on, and the first word after it that is not zero.
\<close>

fun next_word :: "(u32 \<Rightarrow> bool) \<Rightarrow> bytes \<Rightarrow> nat \<Rightarrow> nat \<Rightarrow> nat" where
  "next_word p m i 0 = i"
| "next_word p m i (Suc n) = (if p (map_word m i) then i else next_word p m (i + 1) n)"

lemma next_word_ge: "i \<le> next_word p m i n"
proof (induction n arbitrary: i)
  case (Suc n)
  from Suc.IH [of "i + 1"] show ?case by simp
qed simp

lemma next_word_le: "next_word p m i n \<le> i + n"
proof (induction n arbitrary: i)
  case (Suc n)
  from Suc.IH [of "i + 1"] show ?case by simp
qed simp

lemma next_word_hit: "next_word p m i n < i + n \<Longrightarrow> p (map_word m (next_word p m i n))"
proof (induction n arbitrary: i)
  case (Suc n)
  from Suc.IH [of "i + 1"] Suc.prems show ?case by auto
qed simp

lemma next_word_skip: "i \<le> j \<Longrightarrow> j < next_word p m i n \<Longrightarrow> \<not> p (map_word m j)"
proof (induction n arbitrary: i)
  case (Suc n)
  from Suc.IH [of "i + 1"] Suc.prems show ?case by (cases "i = j") (auto split: if_splits)
qed simp

function find_run :: "bytes \<Rightarrow> nat \<Rightarrow> nat \<Rightarrow> nat \<Rightarrow> nat" where
  "find_run m per need first =
     (let f = next_word (\<lambda>w. w = 0) m first (per - first)
      in if f \<ge> per then f
         else
           let l = next_word (\<lambda>w. w \<noteq> 0) m f (per - f)
           in if l - f < need then find_run m per need l else f)"
  by pat_completeness auto
termination
proof (relation "measure (\<lambda>(m, per, need, first). per - first)")
  fix m per need first f l
  assume f: "f = next_word (\<lambda>w. w = 0) m first (per - first)" "\<not> per \<le> f" and l: "l = next_word (\<lambda>w. w \<noteq> 0) m f (per - f)"
  have "map_word m f = 0" unfolding f(1) by (rule next_word_hit) (use f in auto)
  then have "f < l" unfolding l using f(2) next_word_ge [of "f + 1" "\<lambda>w. w \<noteq> 0" m "per - f - 1"]
    by (cases "per - f") auto
  moreover have "first \<le> f" unfolding f(1) by (rule next_word_ge)
  ultimately show "((m, per, need, l), m, per, need, first) \<in> measure (\<lambda>(m, per, need, first). per - first)" using f(2) by simp
qed simp

declare find_run.simps [simp del]

primrec contiguous_loop :: "nat list \<Rightarrow> nat \<Rightarrow> int lib" where
  "contiguous_loop [] nblocks = lib_ret 0"
| "contiguous_loop (i # is) nblocks =
     lib_bind (check (\<lambda>st. group_in st i)) (\<lambda>_.
     lib_bind (lib_get (\<lambda>st. bg_free_blocks_count (l_gds st) i)) (\<lambda>n.
     if unat n < nblocks then contiguous_loop is nblocks
     else
       lib_bind (lib_get (\<lambda>st. bg_block_bitmap (l_gds st) i)) (\<lambda>b.
       lib_bind (read_bitmap b) (\<lambda>m.
       lib_bind (lib_get (\<lambda>st. s_blocks_per_group (l_sb st))) (\<lambda>per.
       let longs = unat per div 32
       in if 4 * longs > length m then lib_fail
          else
            let f = find_run m longs ((nblocks + 31) div 32) 0
            in if f = longs then contiguous_loop is nblocks
               else
                 lib_bind (blk_write (sint b) (foldl set_map_bit m [f * 32..<f * 32 + nblocks])) (\<lambda>_.
                 lib_bind (lib_set (add_free_blocks i (- int nblocks))) (\<lambda>_.
                 lib_ret (sint (of_nat (f * 32) + of_nat i * per + 1 :: u32)))))))))"

definition ext2_contiguous_balloc :: "nat \<Rightarrow> int lib" where
  "ext2_contiguous_balloc nblocks =
     lib_bind (lib_get l_readonly) (\<lambda>ro. if ro then lib_ret 0 else lib_bind (lib_get l_ngroups) (\<lambda>n. contiguous_loop [0..<n] nblocks))"

subsection \<open>Inodes\<close>

definition set_i_size :: "u32 \<Rightarrow> bytes \<Rightarrow> bytes" where "set_i_size w ip = put_le32 4 w ip"
definition set_i_blocks :: "u32 \<Rightarrow> bytes \<Rightarrow> bytes" where "set_i_blocks w ip = put_le32 28 w ip"
definition set_i_block :: "nat \<Rightarrow> u32 \<Rightarrow> bytes \<Rightarrow> bytes" where "set_i_block n w ip = put_le32 (40 + 4 * n) w ip"

definition inode_of :: "nat \<Rightarrow> bytes lib" where
  "inode_of i = lib_get (\<lambda>st. slot_inode (l_table st ! i))"

definition set_slot :: "nat \<Rightarrow> (inode_table_entry \<Rightarrow> inode_table_entry) \<Rightarrow> unit lib" where
  "set_slot i g = lib_set (\<lambda>st. st\<lparr>l_table := (l_table st)[i := g (l_table st ! i)]\<rparr>)"

definition set_inode :: "nat \<Rightarrow> (bytes \<Rightarrow> bytes) \<Rightarrow> unit lib" where
  "set_inode i g = set_slot i (\<lambda>e. e\<lparr>slot_inode := g (slot_inode e)\<rparr>)"

definition ext2_ifree :: "int \<Rightarrow> unit lib" where
  "ext2_ifree ino =
     lib_bind (check (\<lambda>st. s_inodes_per_group (l_sb st) \<noteq> 0)) (\<lambda>_.
     lib_bind (lib_get (\<lambda>st. group_of (s_inodes_per_group (l_sb st)) ino)) (\<lambda>(i, k).
     lib_bind (check (\<lambda>st. group_in st i)) (\<lambda>_.
     lib_bind (lib_get (\<lambda>st. bg_inode_bitmap (l_gds st) i)) (\<lambda>b.
     lib_bind (read_bitmap b) (\<lambda>m.
     if 4 * (k div 32 + 1) > length m then lib_fail
     else
       lib_bind (blk_write (sint b) (clear_map_bit m k)) (\<lambda>_.
       lib_set (add_free_inodes i 1)))))))"

text \<open>Where inode \<open>ino\<close> is: its group, its block and its offset there.  The group is computed from \<open>ino\<close>, the place in the group from \<open>ino - 1\<close>.\<close>

definition inode_place :: "int \<Rightarrow> (nat \<times> int \<times> nat) lib" where
  "inode_place ino st =
     (let per = s_inodes_per_group (l_sb st); g = unat (word_of_int ino div per :: u32);
          byteoff = unat (word_of_int (ino - 1) mod per :: u32) * sizeof_inode; bs = l_blocksize st;
          off = sint (bg_inode_table (l_gds st) g * of_nat bs) + int (byteoff div bs * bs)
      in if per = 0 \<or> \<not> group_in st g \<or> bs = 0 \<or> byteoff \<ge> 2 ^ 31 \<or> off < 0 \<or> off \<ge> 2 ^ 31 \<or> byteoff mod bs + sizeof_inode > bs then None
         else Some ((g, off div int bs, byteoff mod bs), st))"

definition lib_iget :: "int \<Rightarrow> nat option lib" where
  "lib_iget ino =
     lib_bind (lib_get (\<lambda>st. find_free (l_table st) 0)) (\<lambda>slot.
     case slot of
       None \<Rightarrow> lib_ret None
     | Some i \<Rightarrow>
         lib_bind (inode_place ino) (\<lambda>(g, b, off).
         lib_bind (blk_read b) (\<lambda>d.
         let ip = slice off sizeof_inode d
         in lib_bind (set_slot i (\<lambda>e. e\<lparr>slot_inode := ip, slot_free := False, slot_inumber := ino, slot_old_mode := i_mode ip\<rparr>)) (\<lambda>_.
            lib_ret (Some i)))))"

definition count_dir :: "nat \<Rightarrow> u16 \<Rightarrow> u16 \<Rightarrow> e2lib \<Rightarrow> e2lib" where
  "count_dir g old new st =
     (let n = bg_used_dirs_count (l_gds st) g;
          n' = (if S_ISDIR old \<and> \<not> S_ISDIR new then n - 1 else if \<not> S_ISDIR old \<and> S_ISDIR new then n + 1 else n)
      in st\<lparr>l_gds := put_le16 (sizeof_group_desc * g + 16) n' (l_gds st)\<rparr>)"

definition lib_iput :: "nat \<Rightarrow> unit lib" where
  "lib_iput i =
     lib_bind (lib_get (\<lambda>st. l_table st ! i)) (\<lambda>e.
     lib_bind (if i_links_count (slot_inode e) = 0 then ext2_ifree (slot_inumber e) else lib_ret ()) (\<lambda>_.
     lib_bind (set_slot i (\<lambda>e. e\<lparr>slot_inumber := 0\<rparr>)) (\<lambda>_.
     lib_bind (lib_get l_readonly) (\<lambda>ro.
     lib_bind
       (if ro then lib_ret ()
        else
          lib_bind (inode_place (slot_inumber e)) (\<lambda>(g, b, off).
          lib_bind (blk_read b) (\<lambda>d.
          lib_bind (blk_write b (put_bytes off (slot_inode e) d)) (\<lambda>_.
          lib_set (count_dir g (slot_old_mode e) (i_mode (slot_inode e))))))) (\<lambda>_.
     set_slot i (\<lambda>e. e\<lparr>slot_free := True\<rparr>))))))"

primrec ialloc_loop :: "nat list \<Rightarrow> int lib" where
  "ialloc_loop [] = lib_ret 0"
| "ialloc_loop (i # is) =
     lib_bind (check (\<lambda>st. group_in st i)) (\<lambda>_.
     lib_bind (lib_get (\<lambda>st. bg_free_inodes_count (l_gds st) i)) (\<lambda>n.
     if n \<le> 4 then ialloc_loop is
     else
       lib_bind (lib_get (\<lambda>st. bg_inode_bitmap (l_gds st) i)) (\<lambda>b.
       lib_bind (read_bitmap b) (\<lambda>m.
       lib_bind (lib_get (\<lambda>st. s_inodes_per_group (l_sb st))) (\<lambda>per.
       case find_first_zero_bit m per of
         None \<Rightarrow> lib_fail
       | Some k \<Rightarrow>
           if k = 0 \<or> k = unat per then ialloc_loop is
           else if 4 * (k div 32 + 1) > length m then lib_fail
           else
             lib_bind (blk_write (sint b) (set_map_bit m k)) (\<lambda>_.
             lib_bind (lib_set (add_free_inodes i (- 1))) (\<lambda>_.
             lib_ret (sint (of_nat k + of_nat i * per + 1 :: u32)))))))))"

definition ext2_ialloc :: "int lib" where
  "ext2_ialloc = lib_bind (lib_get l_readonly) (\<lambda>ro. if ro then lib_ret 0 else lib_bind (lib_get l_ngroups) (\<lambda>n. ialloc_loop [0..<n]))"

subsection \<open>Files\<close>

text \<open>The blocks of a file in one piece.  When there is no indirect block, the blocks 0 to \<open>nblocks - 1\<close> are freed, whatever they hold.\<close>

definition add_i_blocks :: "nat \<Rightarrow> unit lib" where
  "add_i_blocks i = lib_bind (lib_get l_blocksize) (\<lambda>bs. set_inode i (\<lambda>ip. set_i_blocks (i_blocks ip + of_nat (bs div 512)) ip))"

definition indirect_table :: "nat \<Rightarrow> nat \<Rightarrow> int \<Rightarrow> bytes" where
  "indirect_table bs nblocks first =
     foldl (\<lambda>d k. put_le32 (4 * (k - nat EXT2_NDIR_BLOCKS)) (word_of_int (first + int k)) d) (replicate bs 0) [nat EXT2_NDIR_BLOCKS..<nblocks]"

definition ext2_fill_contiguous :: "nat \<Rightarrow> nat \<Rightarrow> int lib" where
  "ext2_fill_contiguous i nblocks =
     lib_bind (lib_get (\<lambda>st. st)) (\<lambda>st.
     if nblocks > l_ind1lim st then lib_ret (- 1)
     else
       lib_bind (ext2_contiguous_balloc nblocks) (\<lambda>first.
       if first = 0 then lib_ret (- 1)
       else
         lib_bind (set_inode i (set_i_blocks (of_nat (nblocks * (l_blocksize st div 512))))) (\<lambda>_.
         lib_bind (if nblocks > l_directlim st then ext2_balloc else lib_ret 0) (\<lambda>iblkno.
         if nblocks > l_directlim st \<and> iblkno = 0 then
           lib_bind (for_each ext2_bfree (map int [0..<nblocks])) (\<lambda>_. lib_ret (- 1))
         else
           lib_bind (if nblocks > l_directlim st then
                       lib_bind (add_i_blocks i) (\<lambda>_. set_inode i (set_i_block EXT2_IND_BLOCK (word_of_int iblkno)))
                     else lib_ret ()) (\<lambda>_.
           lib_bind (set_inode i (set_i_size (of_nat (nblocks * l_blocksize st)))) (\<lambda>_.
           lib_bind (set_inode i (\<lambda>ip. foldl (\<lambda>ip k. set_i_block k (word_of_int (first + int k)) ip) ip [0..<min nblocks (nat EXT2_NDIR_BLOCKS)])) (\<lambda>_.
           lib_bind (if iblkno \<noteq> 0 then blk_write iblkno (indirect_table (l_blocksize st) nblocks first) else lib_ret ()) (\<lambda>_.
           lib_ret first))))))))"

definition ext2_write_bootblock :: "bytes \<Rightarrow> unit lib" where
  "ext2_write_bootblock bb = blk_write 0 bb"

text \<open>
  The entry \<open>k\<close> of the indirect block \<open>b\<close>, which is allocated first when it is 0 and \<open>alloc\<close> is set; \<open>wipe\<close> says whether the new block is cleared on disk, as it is when it is an indirect
  block itself.  A data block of a double indirect block that cannot be allocated still counts (\<open>strict\<close> is not set).
\<close>

definition table_entry :: "nat \<Rightarrow> bool \<Rightarrow> bool \<Rightarrow> bool \<Rightarrow> int \<Rightarrow> nat \<Rightarrow> int lib" where
  "table_entry i alloc wipe strict b k =
     lib_bind (blk_read b) (\<lambda>d.
     if 4 * (k + 1) > length d then lib_fail
     else
       let blk = ptr_at d (int k)
       in if blk = 0 \<and> alloc then
            lib_bind ext2_balloc (\<lambda>blk.
            if blk = 0 \<and> strict then lib_ret 0
            else
              lib_bind (add_i_blocks i) (\<lambda>_.
              lib_bind (blk_write b (put_le32 (4 * k) (word_of_int blk) d)) (\<lambda>_.
              lib_bind (if wipe then lib_bind (lib_get l_blocksize) (\<lambda>bs. blk_write blk (replicate bs 0)) else lib_ret ()) (\<lambda>_.
              lib_ret blk))))
          else lib_ret blk)"

text \<open>The indirect block in field \<open>n\<close> of the inode.\<close>

definition inode_table_block :: "nat \<Rightarrow> bool \<Rightarrow> nat \<Rightarrow> int lib" where
  "inode_table_block i alloc n =
     lib_bind (inode_of i) (\<lambda>ip.
     let b = sint (i_block ip n)
     in if b = 0 \<and> alloc then
          lib_bind ext2_balloc (\<lambda>b.
          if b = 0 then lib_ret 0
          else
            lib_bind (set_inode i (set_i_block n (word_of_int b))) (\<lambda>_.
            lib_bind (add_i_blocks i) (\<lambda>_.
            lib_bind (lib_get l_blocksize) (\<lambda>bs.
            lib_bind (blk_write b (replicate bs 0)) (\<lambda>_.
            lib_ret b)))))
        else lib_ret b)"

definition lib_blkno :: "nat \<Rightarrow> nat \<Rightarrow> bool \<Rightarrow> int lib" where
  "lib_blkno i blkoff alloc =
     lib_bind (lib_get (\<lambda>st. st)) (\<lambda>st.
     if alloc \<and> l_readonly st then lib_ret 0
     else if blkoff \<le> l_directlim st then
       lib_bind (inode_of i) (\<lambda>ip.
       if i_block ip blkoff = 0 \<and> alloc then
         lib_bind ext2_balloc (\<lambda>b.
         lib_bind (set_inode i (set_i_block blkoff (word_of_int b))) (\<lambda>_.
         lib_bind (add_i_blocks i) (\<lambda>_.
         lib_ret b)))
       else lib_ret (sint (i_block ip blkoff)))
     else if blkoff \<le> l_ind1lim st then
       lib_bind (inode_table_block i alloc EXT2_IND_BLOCK) (\<lambda>iblk.
       if iblk = 0 then lib_ret 0
       else table_entry i alloc False True iblk (blkoff - (l_directlim st + 1)))
     else if blkoff \<le> l_ind2lim st then
       lib_bind (inode_table_block i alloc EXT2_DIND_BLOCK) (\<lambda>diblk.
       if diblk = 0 then lib_ret 0
       else
         lib_bind (table_entry i alloc True True diblk ((blkoff - (l_ind1lim st + 1)) div l_ptrs st)) (\<lambda>iblk.
         if iblk = 0 then lib_ret 0
         else table_entry i alloc False False iblk ((blkoff - (l_ind1lim st + 1)) mod l_ptrs st)))
     else lib_ret 0)"

definition lib_bread :: "nat \<Rightarrow> nat \<Rightarrow> bytes lib" where
  "lib_bread i blkno =
     lib_bind (lib_blkno i blkno False) (\<lambda>b.
     if b = 0 then lib_get (\<lambda>st. replicate (l_blocksize st) 0) else blk_read b)"

definition lib_bwrite :: "nat \<Rightarrow> nat \<Rightarrow> bytes \<Rightarrow> unit lib" where
  "lib_bwrite i blkno d =
     lib_bind (lib_get l_readonly) (\<lambda>ro.
     if ro then lib_ret ()
     else
       lib_bind (lib_blkno i blkno True) (\<lambda>b.
       if b = 0 then lib_ret () else blk_write b d))"

subsection \<open>Directories\<close>

definition dp_name_len :: "bytes \<Rightarrow> nat \<Rightarrow> nat" where "dp_name_len d off = unat (le16_at d (off + 6))"
definition dp_name :: "bytes \<Rightarrow> nat \<Rightarrow> nat \<Rightarrow> bytes" where "dp_name d off n = slice (off + 8) n d"

text \<open>
  The entries of one block of a directory; the result is the inode number of the component, or \<open>-1\<close>.  An entry of length 0 makes the loop run forever.
\<close>

function dir_scan :: "bytes \<Rightarrow> bytes \<Rightarrow> nat \<Rightarrow> int option" where
  "dir_scan nm d off =
     (if off \<ge> length d then Some (- 1)
      else if off + 8 > length d then None
      else if dp_name_len d off = length nm \<and> off + 8 + length nm > length d then None
      else if dp_name_len d off = length nm \<and> dp_name d off (length nm) = nm then Some (sint (d_inode d off))
      else if d_rec_len d off = 0 then None
      else dir_scan nm d (off + unat (d_rec_len d off)))"
  by pat_completeness auto
termination
  by (relation "measure (\<lambda>(nm, d, off). length d - off)") (auto simp: unat_gt_0 intro: diff_less_mono2)

declare dir_scan.simps [simp del]

text \<open>The blocks of the directory in slot \<open>i\<close> from \<open>k\<close> on.\<close>

primrec find_component :: "nat \<Rightarrow> nat \<Rightarrow> nat \<Rightarrow> bytes \<Rightarrow> int lib" where
  "find_component 0 i k nm = lib_ret (- 1)"
| "find_component (Suc n) i k nm =
     lib_bind (lib_bread i k) (\<lambda>d.
     case dir_scan nm d 0 of
       None \<Rightarrow> lib_fail
     | Some ino \<Rightarrow> if ino \<ge> 0 then lib_ret ino else find_component n i (k + 1) nm)"

definition dir_blocks :: "nat \<Rightarrow> nat lib" where
  "dir_blocks i =
     lib_bind (inode_of i) (\<lambda>ip.
     lib_bind (lib_get l_blocksize) (\<lambda>bs.
     if bs = 0 \<or> unat (i_size ip) + bs > 2 ^ 32 then lib_fail
     else lib_ret ((unat (i_size ip) + bs - 1) div bs)))"

fun namei_comps :: "bytes list \<Rightarrow> nat option \<Rightarrow> nat option lib" where
  "namei_comps [] dir = lib_ret dir"
| "namei_comps (c # cs) None = lib_fail"
| "namei_comps (c # cs) (Some i) =
     lib_bind (dir_blocks i) (\<lambda>n.
     lib_bind (find_component n i 0 c) (\<lambda>ino.
     lib_bind (lib_iput i) (\<lambda>_.
     if ino < 0 then lib_ret None
     else lib_bind (lib_iget ino) (\<lambda>dir. namei_comps cs dir))))"

text \<open>A loop of \<open>strtok\<close> calls visits the \<^const>\<open>tokens\<close> of the name.\<close>

definition lib_namei :: "bytes \<Rightarrow> nat option lib" where
  "lib_namei name = lib_bind (lib_iget EXT2_ROOT_INO) (namei_comps (tokens {47} name))"

definition EXT2_DIR_REC_LEN :: "nat \<Rightarrow> nat" where
  "EXT2_DIR_REC_LEN n = (n + 8 + 3) div 4 * 4"

text \<open>
  A place for an entry with a name of length \<open>n\<close> in the block \<open>d\<close> from \<open>off\<close> on: an empty entry, or the end of a used one, which is cut down.  The result is the changed block and the offset of
  the new entry.
\<close>

function mknod_scan :: "nat \<Rightarrow> bytes \<Rightarrow> nat \<Rightarrow> (bytes \<times> nat) option option" where
  "mknod_scan n d off =
     (if off \<ge> length d then Some None
      else if off + 8 > length d then None
      else
        let rl = unat (d_rec_len d off); cut = EXT2_DIR_REC_LEN (dp_name_len d off)
        in if d_inode d off = 0 \<and> rl \<ge> EXT2_DIR_REC_LEN n then Some (Some (d, off))
           else if d_inode d off \<noteq> 0 \<and> int rl - int cut \<ge> int (EXT2_DIR_REC_LEN n) then
             (if off + cut + 8 > length d then None
              else Some (Some (put_le16 (off + cut + 4) (of_nat (rl - cut)) (put_le16 (off + 4) (of_nat cut) d), off + cut)))
           else if rl = 0 then None
           else mknod_scan n d (off + rl))"
  by pat_completeness auto
termination
  by (relation "measure (\<lambda>(n, d, off). length d - off)") (auto simp: intro: diff_less_mono2)

declare mknod_scan.simps [simp del]

text \<open>The number of the block with the place, the block and the offset; otherwise the last block that was read.\<close>

primrec mknod_find :: "nat \<Rightarrow> nat \<Rightarrow> nat \<Rightarrow> nat \<Rightarrow> bytes \<Rightarrow> ((nat \<times> nat) option \<times> bytes) lib" where
  "mknod_find 0 i k n d = lib_ret (None, d)"
| "mknod_find (Suc m) i k n d =
     lib_bind (lib_bread i k) (\<lambda>d.
     case mknod_scan n d 0 of
       None \<Rightarrow> lib_fail
     | Some (Some (d, off)) \<Rightarrow> lib_ret (Some (k, off), d)
     | Some None \<Rightarrow> mknod_find m i (k + 1) n d)"

definition put_entry :: "nat \<Rightarrow> int \<Rightarrow> bytes \<Rightarrow> bytes \<Rightarrow> bytes" where
  "put_entry off ino name d = put_bytes (off + 8) name (put_le16 (off + 6) (of_nat (length name)) (put_le32 off (word_of_int ino) d))"

text \<open>\<open>raw\<close> is the buffer for the block before it is used.\<close>

definition ext2_mknod :: "bytes \<Rightarrow> nat \<Rightarrow> bytes \<Rightarrow> int \<Rightarrow> unit lib" where
  "ext2_mknod raw i name ino =
     lib_bind (dir_blocks i) (\<lambda>n.
     lib_bind (mknod_find n i 0 (length name) raw) (\<lambda>(place, d).
     case place of
       Some (k, off) \<Rightarrow>
         if off + 8 + length name > length d then lib_fail
         else lib_bwrite i k (put_entry off ino name d)
     | None \<Rightarrow>
         if 8 + length name > length d then lib_fail
         else
           lib_bind (lib_get l_blocksize) (\<lambda>bs.
           lib_bind (inode_of i) (\<lambda>ip.
           lib_bind (lib_bwrite i (unat (i_size ip) div bs) (put_le16 4 (of_nat bs) (put_entry 0 ino name d))) (\<lambda>_.
           set_inode i (\<lambda>ip. set_i_size (i_size ip + of_nat bs) ip))))))"

subsection \<open>Truncating a file\<close>

primrec ext2_free_indirect :: "nat \<Rightarrow> int \<Rightarrow> unit lib" where
  "ext2_free_indirect 0 b =
     lib_bind (blk_read b) (\<lambda>d.
     lib_bind (lib_get l_ptrs) (\<lambda>n.
     if 4 * n > length d then lib_fail
     else
       lib_bind (for_each (\<lambda>k. if ptr_at d (int k) \<noteq> 0 then ext2_bfree (ptr_at d (int k)) else lib_ret ()) [0..<n]) (\<lambda>_.
       ext2_bfree b)))"
| "ext2_free_indirect (Suc level) b =
     lib_bind (blk_read b) (\<lambda>d.
     lib_bind (lib_get l_ptrs) (\<lambda>n.
     if 4 * n > length d then lib_fail
     else
       lib_bind (for_each (\<lambda>k. if ptr_at d (int k) \<noteq> 0 then ext2_free_indirect level (ptr_at d (int k)) else lib_ret ()) [0..<n]) (\<lambda>_.
       ext2_bfree b)))"

definition free_field :: "nat \<Rightarrow> (int \<Rightarrow> unit lib) \<Rightarrow> nat \<Rightarrow> unit lib" where
  "free_field i free n =
     lib_bind (inode_of i) (\<lambda>ip.
     if i_block ip n = 0 then lib_ret ()
     else lib_bind (free (sint (i_block ip n))) (\<lambda>_. set_inode i (set_i_block n 0)))"

definition ext2_truncate :: "nat \<Rightarrow> unit lib" where
  "ext2_truncate i =
     lib_bind (for_each (free_field i ext2_bfree) [0..<nat EXT2_NDIR_BLOCKS]) (\<lambda>_.
     lib_bind (free_field i (ext2_free_indirect 0) EXT2_IND_BLOCK) (\<lambda>_.
     lib_bind (free_field i (ext2_free_indirect 1) EXT2_DIND_BLOCK) (\<lambda>_.
     lib_bind (free_field i (ext2_free_indirect 2) EXT2_TIND_BLOCK) (\<lambda>_.
     set_inode i (set_i_size 0)))))"

end
