(* ===== verification/E2bits.thy ===== *)
theory E2bits
  imports E2lib
begin

text \<open>
  The bitmaps of the theory \<open>E2lib\<close> as sets: what the search for a zero bit finds, and what setting and clearing of bits does.
\<close>

unbundle bit_operations_syntax

subsection \<open>Words in byte strings\<close>

lemma length_put_bytes: "off + length d \<le> length bs \<Longrightarrow> length (put_bytes off d bs) = length bs"
  by (simp add: put_bytes_def)

lemma slice_put_bytes: "off + length d \<le> length bs \<Longrightarrow> slice off (length d) (put_bytes off d bs) = d"
  by (simp add: put_bytes_def slice_def)

lemma slice_put_bytes_other:
  assumes "off + length d \<le> length bs" "a + n \<le> off \<or> off + length d \<le> a"
  shows "slice a n (put_bytes off d bs) = slice a n bs"
  using slice_file_write_other [OF assms] assms(1) by (simp add: file_write_inside put_bytes_def)

lemma length_put_le [simp]:
  "off + 4 \<le> length bs \<Longrightarrow> length (put_le32 off w bs) = length bs"
  "off + 2 \<le> length bs \<Longrightarrow> length (put_le16 off v bs) = length bs"
  by (simp_all add: put_le32_def put_le16_def length_put_bytes)

lemma le_put:
  "off + 4 \<le> length bs \<Longrightarrow> le32_at (put_le32 off w bs) off = w"
  "off + 2 \<le> length bs \<Longrightarrow> le16_at (put_le16 off v bs) off = v"
  using slice_put_bytes [of off "le_encode 4 w" bs] slice_put_bytes [of off "le_encode 2 v" bs]
  by (simp_all add: le32_at_def le16_at_def put_le32_def put_le16_def le_word_encode)

lemma le_put_other:
  "off + 4 \<le> length bs \<Longrightarrow> a + 4 \<le> off \<or> off + 4 \<le> a \<Longrightarrow> le32_at (put_le32 off w bs) a = le32_at bs a"
  "off + 2 \<le> length bs \<Longrightarrow> a + 4 \<le> off \<or> off + 2 \<le> a \<Longrightarrow> le32_at (put_le16 off v bs) a = le32_at bs a"
  "off + 4 \<le> length bs \<Longrightarrow> a + 2 \<le> off \<or> off + 4 \<le> a \<Longrightarrow> le16_at (put_le32 off w bs) a = le16_at bs a"
  "off + 2 \<le> length bs \<Longrightarrow> a + 2 \<le> off \<or> off + 2 \<le> a \<Longrightarrow> le16_at (put_le16 off v bs) a = le16_at bs a"
  by (simp_all add: le32_at_def le16_at_def put_le32_def put_le16_def slice_put_bytes_other)

subsection \<open>Bits\<close>

definition map_bit :: "bytes \<Rightarrow> nat \<Rightarrow> bool" where
  "map_bit m n \<longleftrightarrow> bit (map_word m (n div 32)) (n mod 32)"

lemma words_apart: "i \<noteq> j \<Longrightarrow> 4 * i + 4 \<le> 4 * j \<or> 4 * j + 4 \<le> 4 * (i :: nat)"
  by linarith

lemma map_word_set:
  assumes "4 * (k div 32 + 1) \<le> length m"
  shows "map_word (set_map_bit m k) i = (if i = k div 32 then map_word m i OR push_bit (k mod 32) 1 else map_word m i)"
  using assms words_apart [of i "k div 32"] by (cases "i = k div 32") (simp_all add: map_word_def set_map_bit_def le_put le_put_other)

lemma map_word_clear:
  assumes "4 * (k div 32 + 1) \<le> length m"
  shows "map_word (clear_map_bit m k) i = (if i = k div 32 then map_word m i AND NOT (push_bit (k mod 32) 1) else map_word m i)"
  using assms words_apart [of i "k div 32"] by (cases "i = k div 32") (simp_all add: map_word_def clear_map_bit_def le_put le_put_other)

lemma same_bit: "n div 32 = k div 32 \<Longrightarrow> n mod 32 = k mod 32 \<longleftrightarrow> n = (k :: nat)"
  by (metis div_mult_mod_eq)

lemma map_bit_set: "4 * (k div 32 + 1) \<le> length m \<Longrightarrow> map_bit (set_map_bit m k) n \<longleftrightarrow> n = k \<or> map_bit m n"
  using same_bit [of n k] by (auto simp: map_bit_def map_word_set bit_simps)

lemma map_bit_clear: "4 * (k div 32 + 1) \<le> length m \<Longrightarrow> map_bit (clear_map_bit m k) n \<longleftrightarrow> n \<noteq> k \<and> map_bit m n"
  using same_bit [of n k] by (auto simp: map_bit_def map_word_clear bit_simps)

lemma length_map_bit [simp]:
  "4 * (k div 32 + 1) \<le> length m \<Longrightarrow> length (set_map_bit m k) = length m"
  "4 * (k div 32 + 1) \<le> length m \<Longrightarrow> length (clear_map_bit m k) = length m"
  by (simp_all add: set_map_bit_def clear_map_bit_def)

lemma map_bits_set:
  assumes "\<And>k. k \<in> set ks \<Longrightarrow> 4 * (k div 32 + 1) \<le> length m"
  shows "length (foldl set_map_bit m ks) = length m \<and> (\<forall>n. map_bit (foldl set_map_bit m ks) n \<longleftrightarrow> n \<in> set ks \<or> map_bit m n)"
  using assms
proof (induction ks arbitrary: m)
  case (Cons k ks)
  have k: "4 * (k div 32 + 1) \<le> length m" using Cons.prems by simp
  have "length (foldl set_map_bit (set_map_bit m k) ks) = length (set_map_bit m k)
      \<and> (\<forall>n. map_bit (foldl set_map_bit (set_map_bit m k) ks) n \<longleftrightarrow> n \<in> set ks \<or> map_bit (set_map_bit m k) n)"
    by (rule Cons.IH) (use Cons.prems k in auto)
  with k show ?case by (auto simp: map_bit_set)
qed simp

subsection \<open>The first zero bit\<close>

lemma zero_bit_spec:
  assumes "n \<le> 32"
  shows "case zero_bit w n of
      None \<Rightarrow> (\<forall>j. 32 - n \<le> j \<and> j < 32 \<longrightarrow> bit w j)
    | Some b \<Rightarrow> 32 - n \<le> b \<and> b < 32 \<and> \<not> bit w b \<and> (\<forall>j. 32 - n \<le> j \<and> j < b \<longrightarrow> bit w j)"
  using assms
proof (induction n)
  case (Suc n)
  have z: "w AND push_bit (31 - n) 1 = 0 \<longleftrightarrow> \<not> bit w (31 - n)"
    by (simp only: bit_iff_and_push_bit_not_eq_0) simp
  have s: "32 - Suc n = 31 - n" "32 - n = Suc (31 - n)" using Suc.prems by simp_all
  show ?case
  proof (cases "bit w (31 - n)")
    case False
    then show ?thesis using Suc.prems z [simplified] by (auto simp: s)
  next
    case True
    have j: "31 - n \<le> j \<longleftrightarrow> j = 31 - n \<or> Suc (31 - n) \<le> j" for j by auto
    show ?thesis using Suc True z [simplified] unfolding s j by (simp split: option.splits; blast)
  qed
qed auto

lemma zero_bit_found: "w \<noteq> 0xffffffff \<Longrightarrow> \<exists>b < 32. zero_bit w 32 = Some b \<and> \<not> bit w b \<and> (\<forall>j < b. bit w j)"
proof -
  assume w: "w \<noteq> 0xffffffff"
  have "(0xffffffff :: u32) = - 1" by simp
  then have "\<exists>j < 32. \<not> bit w j" using w by (auto simp: bit_eq_iff bit_simps dest: bit_imp_le_length)
  with zero_bit_spec [of 32 w] show ?thesis by (auto split: option.splits)
qed

lemma block_index: "r < n \<Longrightarrow> (i * n + r) div n = i \<and> (i * n + r) mod n = (r :: nat)"
  by simp

lemma zero_word_spec:
  assumes "4 * (i + n) \<le> length m" and "\<And>j. j < 32 * i \<Longrightarrow> map_bit m j"
  shows "(zero_word m i n = Some None \<and> (\<forall>j < 32 * (i + n). map_bit m j))
    \<or> (\<exists>b < 32 * (i + n). zero_word m i n = Some (Some b) \<and> \<not> map_bit m b \<and> (\<forall>j < b. map_bit m j))"
  using assms
proof (induction n arbitrary: i)
  case (Suc n)
  show ?case
  proof (cases "map_word m i = 0xffffffff")
    case True
    have "(0xffffffff :: u32) = - 1" by simp
    with True have w: "map_word m i = - 1" by simp
    have "map_bit m j" if "j < 32 * (i + 1)" for j
    proof (cases "j < 32 * i")
      case False
      then have "j div 32 = i" using that by (simp add: div_nat_eqI)
      then show ?thesis by (simp add: map_bit_def w)
    qed (rule Suc.prems(2))
    with Suc.IH [of "i + 1"] Suc.prems(1) True show ?thesis by simp
  next
    case False
    then obtain b where b: "b < 32" "zero_bit (map_word m i) 32 = Some b" "\<not> bit (map_word m i) b" "\<forall>j < b. bit (map_word m i) j"
      using zero_bit_found by blast
    have "map_bit m j" if "j < i * 32 + b" for j
    proof (cases "j < 32 * i")
      case False
      then have "j = i * 32 + (j - i * 32)" "j - i * 32 < b" using that by simp_all
      then have "j div 32 = i" "j mod 32 < b" using b(1) block_index [of "j - i * 32" 32 i] by auto
      then show ?thesis using b(4) by (simp add: map_bit_def)
    qed (rule Suc.prems(2))
    moreover have "\<not> map_bit m (i * 32 + b)" using b(1,3) by (simp add: map_bit_def)
    moreover have "i * 32 + b < 32 * (i + Suc n)" using b(1) by simp
    ultimately show ?thesis using Suc.prems(1) False b(2) by auto
  qed
qed simp

subsection \<open>Properties\<close>

text \<open>
  \<open>find_first_zero_bit\<close> finds the first zero bit of a bitmap: all bits before it are set.  Whole words are searched, so that the result may lie behind the \<open>size\<close> bits of the bitmap when
  this is not a multiple of 32; only when all bits of these words are set is it \<open>size\<close> itself.
\<close>

theorem find_first_zero_bit_first:
  assumes "n \<noteq> 0" and "4 * ((unat n + 31) div 32) \<le> length m"
  shows "\<exists>k. find_first_zero_bit m n = Some k \<and> (\<forall>j < k. map_bit m j)
     \<and> (k < 32 * ((unat n + 31) div 32) \<and> \<not> map_bit m k \<or> k = unat n \<and> (\<forall>j < 32 * ((unat n + 31) div 32). map_bit m j))"
proof -
  define q where "q = (unat n + 31) div 32"
  have le: "unat n \<le> 32 * q" unfolding q_def by linarith
  show ?thesis
    using zero_word_spec [of 0 q m] assms le unfolding find_first_zero_bit_def q_def [symmetric] by auto
qed

theorem find_first_zero_bit_first_witness:
  "find_first_zero_bit [0xff, 0xff, 0xff, 0xff, 0xf7, 0, 0, 0] 40 = Some 35 \<and> list_all (map_bit [0xff, 0xff, 0xff, 0xff, 0xf7, 0, 0, 0]) [0..<35]"
proof -
  have f: "find_first_zero_bit [0xff, 0xff, 0xff, 0xff, 0xf7, 0, 0, 0] 40 = Some 35" by code_simp
  with find_first_zero_bit_first [of 40 "[0xff, 0xff, 0xff, 0xff, 0xf7, 0, 0, 0]"] show ?thesis by (simp add: list_all_iff del: upt_rec_numeral)
qed

end
