(* ===== verification/E2alloc.thy ===== *)
theory E2alloc
  imports E2bits
begin

text \<open>
  Allocation of blocks in the theory \<open>E2lib\<close>: the set of allocated blocks of a file system, and that the operations take blocks from it and put them back.
\<close>

unbundle bit_operations_syntax

subsection \<open>The file system as a set of allocated blocks\<close>

lemmas lib_simps = lib_bind_def lib_ret_def lib_get_def lib_set_def check_def lib_fail_def

definition per_group :: "e2lib \<Rightarrow> nat" where
  "per_group st = unat (s_blocks_per_group (l_sb st))"

definition bitmap_block :: "e2lib \<Rightarrow> nat \<Rightarrow> int" where
  "bitmap_block st i = sint (bg_block_bitmap (l_gds st) i)"

definition group_map :: "e2lib \<Rightarrow> nat \<Rightarrow> bytes" where
  "group_map st i = block_view (l_bio st) (bitmap_block st i)"

definition fs_ok :: "e2lib \<Rightarrow> bool" where
  "fs_ok st \<longleftrightarrow> bio_ok (l_bio st) \<and> bio_blocksize (l_bio st) = 1024 \<and> l_blocksize st = 1024
     \<and> length (l_gds st) = sizeof_group_desc * l_ngroups st \<and> length (l_sb st) = sizeof_sb
     \<and> 32 dvd per_group st \<and> 0 < per_group st \<and> per_group st \<le> 8192 \<and> l_ngroups st * per_group st < 2 ^ 31 - 1
     \<and> (\<forall>i < l_ngroups st. usable (l_bio st) (bitmap_block st i)) \<and> inj_on (bitmap_block st) {..<l_ngroups st}"

definition allocated :: "e2lib \<Rightarrow> nat set" where
  "allocated st = {n. 0 < n \<and> (n - 1) div per_group st < l_ngroups st \<and> map_bit (group_map st ((n - 1) div per_group st)) ((n - 1) mod per_group st)}"

text \<open>What an allocation leaves alone: everything but the bitmaps and the counts.\<close>

definition frame :: "e2lib \<Rightarrow> e2lib \<Rightarrow> bool" where
  "frame st st' \<longleftrightarrow> fs_ok st' \<and> l_ngroups st' = l_ngroups st \<and> l_directlim st' = l_directlim st \<and> l_ind1lim st' = l_ind1lim st
     \<and> l_ind2lim st' = l_ind2lim st \<and> l_ptrs st' = l_ptrs st \<and> l_readonly st' = l_readonly st \<and> l_table st' = l_table st
     \<and> s_blocks_per_group (l_sb st') = s_blocks_per_group (l_sb st)
     \<and> (\<forall>i < l_ngroups st. bg_block_bitmap (l_gds st') i = bg_block_bitmap (l_gds st) i)
     \<and> (\<forall>b. usable (l_bio st) b \<longrightarrow> usable (l_bio st') b)
     \<and> (\<forall>b. usable (l_bio st) b \<and> b \<notin> bitmap_block st ` {..<l_ngroups st} \<longrightarrow> block_view (l_bio st') b = block_view (l_bio st) b)"

lemma frame_refl: "fs_ok st \<Longrightarrow> frame st st"
  by (simp add: frame_def)

lemma frame_bitmap:
  assumes "frame st st'"
  shows "per_group st' = per_group st" "i < l_ngroups st \<Longrightarrow> bitmap_block st' i = bitmap_block st i" "l_ngroups st' = l_ngroups st"
  using assms by (auto simp: frame_def per_group_def bitmap_block_def)

lemma frame_trans:
  assumes "frame st st1" "frame st1 st2"
  shows "frame st st2"
proof -
  have "bitmap_block st1 ` {..<l_ngroups st} = bitmap_block st ` {..<l_ngroups st}"
    by (rule image_cong) (use frame_bitmap(2) [OF assms(1)] in auto)
  with assms show ?thesis by (auto simp: frame_def)
qed

lemma fs_okD:
  assumes "fs_ok st"
  shows "bio_ok (l_bio st)" "bio_blocksize (l_bio st) = 1024" "l_blocksize st = 1024" "i < l_ngroups st \<Longrightarrow> group_in st i"
    "i < l_ngroups st \<Longrightarrow> usable (l_bio st) (bitmap_block st i)"
  using assms by (auto simp: fs_ok_def group_in_def sizeof_group_desc_def)

lemma length_block_view:
  assumes "bio_ok st" "usable st b"
  shows "length (block_view st b) = bio_blocksize st"
proof (cases "find_buf (buflist st) b 0")
  case None
  with assms(2) in_file_bound [of st b] show ?thesis by (simp add: block_view_def on_disk_def usable_def length_slice)
next
  case (Some i)
  with usable_buf [OF assms Some] show ?thesis by (auto simp: block_view_def)
qed

lemma length_block_map: "fs_ok st \<Longrightarrow> i < l_ngroups st \<Longrightarrow> length (group_map st i) = 1024"
  using length_block_view [OF fs_okD(1) fs_okD(5)] fs_okD(2) by (simp add: group_map_def)

text \<open>A change of the cache alone that keeps the blocks.\<close>

lemma blk_read_ok:
  assumes ok: "fs_ok st" and b: "usable (l_bio st) b"
  shows "\<exists>st'. blk_read b st = Some (block_view (l_bio st) b, st') \<and> frame st st' \<and> allocated st' = allocated st
     \<and> (\<forall>e. usable (l_bio st) e \<longrightarrow> block_view (l_bio st') e = block_view (l_bio st) e) \<and> l_gds st' = l_gds st \<and> l_sb st' = l_sb st"
proof -
  obtain c where c: "bio_bread b (l_bio st) = Some (block_view (l_bio st) b, c)" "store_step (l_bio st) b (block_view (l_bio st) b) c"
    using bio_bread_ok [OF fs_okD(1) [OF ok] b] by blast
  let ?st = "st\<lparr>l_bio := c\<rparr>"
  have v: "block_view c e = block_view (l_bio st) e" if "usable (l_bio st) e" for e
    using c(2) that by (auto simp: store_step_def usable_def)
  have p: "per_group ?st = per_group st" "bitmap_block ?st = bitmap_block st" by (simp_all add: per_group_def bitmap_block_def fun_eq_iff)
  have "fs_ok ?st" using ok c(2) by (simp add: fs_ok_def store_step_def p)
  moreover have "group_map ?st i = group_map st i" if "i < l_ngroups st" for i
    using v fs_okD(5) [OF ok that] by (simp add: group_map_def p)
  then have "allocated ?st = allocated st" by (auto simp: allocated_def p)
  moreover have "usable c e" if "usable (l_bio st) e" for e using c(2) that by (simp add: store_step_def)
  ultimately show ?thesis using c(1) v by (auto simp: blk_read_def frame_def)
qed

text \<open>A bitmap is written and the counts of its group change.\<close>

lemma add_free_blocks_fields:
  assumes "length (l_gds st) = sizeof_group_desc * l_ngroups st" "length (l_sb st) = sizeof_sb" "i < l_ngroups st"
  shows "bg_block_bitmap (l_gds (add_free_blocks i n st)) j = bg_block_bitmap (l_gds st) j"
    "s_blocks_per_group (l_sb (add_free_blocks i n st)) = s_blocks_per_group (l_sb st)"
    "length (l_gds (add_free_blocks i n st)) = length (l_gds st)" "length (l_sb (add_free_blocks i n st)) = length (l_sb st)"
proof -
  have "32 * i + 14 \<le> length (l_gds st)" using assms(1,3) by (simp add: sizeof_group_desc_def)
  moreover have "32 * j + 4 \<le> 32 * i + 12 \<or> 32 * i + 14 \<le> 32 * j" by presburger
  ultimately show "bg_block_bitmap (l_gds (add_free_blocks i n st)) j = bg_block_bitmap (l_gds st) j"
    "length (l_gds (add_free_blocks i n st)) = length (l_gds st)"
    using le_put_other(2) [of "32 * i + 12" "l_gds st" "32 * j"] by (auto simp: add_free_blocks_def bg_block_bitmap_def sizeof_group_desc_def)
  show "s_blocks_per_group (l_sb (add_free_blocks i n st)) = s_blocks_per_group (l_sb st)" "length (l_sb (add_free_blocks i n st)) = length (l_sb st)"
    using assms(2) by (simp_all add: add_free_blocks_def s_blocks_per_group_def sizeof_sb_def le_put_other)
qed

lemma write_bitmap_ok:
  assumes ok: "fs_ok st" and i: "i < l_ngroups st" and m: "length m = 1024"
  shows "\<exists>c. blk_write (bitmap_block st i) m st = Some ((), st\<lparr>l_bio := c\<rparr>) \<and> frame st (add_free_blocks i n (st\<lparr>l_bio := c\<rparr>))
     \<and> (\<forall>j < l_ngroups st. group_map (add_free_blocks i n (st\<lparr>l_bio := c\<rparr>)) j = (if j = i then m else group_map st j))"
proof -
  obtain c where c: "bio_bwrite (bitmap_block st i) m (l_bio st) = Some c" "store_step (l_bio st) (bitmap_block st i) m c"
    using bio_bwrite_ok [OF fs_okD(1) [OF ok] fs_okD(5) [OF ok i], of m] m fs_okD(2) [OF ok] by auto
  let ?st = "add_free_blocks i n (st\<lparr>l_bio := c\<rparr>)"
  have f: "bg_block_bitmap (l_gds ?st) j = bg_block_bitmap (l_gds st) j" "s_blocks_per_group (l_sb ?st) = s_blocks_per_group (l_sb st)"
    "length (l_gds ?st) = length (l_gds st)" "length (l_sb ?st) = length (l_sb st)" for j
    using add_free_blocks_fields [of "st\<lparr>l_bio := c\<rparr>" i n] ok i by (simp_all add: fs_ok_def)
  have same: "l_bio ?st = c" "l_ngroups ?st = l_ngroups st" "l_blocksize ?st = l_blocksize st" by (simp_all add: add_free_blocks_def)
  have p: "per_group ?st = per_group st" "bitmap_block ?st = bitmap_block st" by (simp_all add: per_group_def bitmap_block_def fun_eq_iff f)
  have ok': "fs_ok ?st" using ok c(2) by (simp add: fs_ok_def store_step_def p same f)
  have v: "block_view c e = (if e = bitmap_block st i then m else block_view (l_bio st) e)" if "usable (l_bio st) e" for e
    using c(2) that by (auto simp: store_step_def usable_def)
  have "group_map ?st j = (if j = i then m else group_map st j)" if "j < l_ngroups st" for j
  proof -
    have "bitmap_block st j = bitmap_block st i \<longleftrightarrow> j = i"
      using ok i that by (auto simp: fs_ok_def dest: inj_onD)
    then show ?thesis using v [OF fs_okD(5) [OF ok that]] by (simp add: group_map_def p same)
  qed
  moreover have "frame st ?st"
    using ok' c(2) v i unfolding frame_def by (auto simp: same f store_step_def) (simp_all add: add_free_blocks_def)
  ultimately show ?thesis using c(1) by (auto simp: blk_write_def)
qed

subsection \<open>Taking one block\<close>

text \<open>The block with bit \<open>k\<close> of group \<open>i\<close>.\<close>

definition block_at_bit :: "e2lib \<Rightarrow> nat \<Rightarrow> nat \<Rightarrow> nat" where
  "block_at_bit st i k = i * per_group st + k + 1"

lemma block_at_bit_inv:
  "k < per_group st \<Longrightarrow> (block_at_bit st i k - 1) div per_group st = i \<and> (block_at_bit st i k - 1) mod per_group st = k"
  by (simp add: block_at_bit_def)

lemma block_at_bit_pos: "0 < block_at_bit st i k"
  by (simp add: block_at_bit_def)

lemma allocated_bit: "i < l_ngroups st \<Longrightarrow> k < per_group st \<Longrightarrow> block_at_bit st i k \<in> allocated st \<longleftrightarrow> map_bit (group_map st i) k"
  using block_at_bit_inv [of k st i] by (auto simp: allocated_def) (simp_all add: block_at_bit_def)

lemma allocated_update:
  assumes st': "frame st st'" and i: "i < l_ngroups st" and m: "\<And>j. j < l_ngroups st \<Longrightarrow> group_map st' j = (if j = i then m else group_map st j)"
    and per: "0 < per_group st"
  shows "n \<in> allocated st' \<longleftrightarrow> (if 0 < n \<and> (n - 1) div per_group st = i then map_bit m ((n - 1) mod per_group st) else n \<in> allocated st)"
  using m i by (auto simp: allocated_def frame_bitmap [OF st'])

lemma block_word:
  assumes ok: "fs_ok st" and "i < l_ngroups st" "k < per_group st"
  shows "sint (of_nat k + of_nat i * s_blocks_per_group (l_sb st) + 1 :: u32) = int (block_at_bit st i k)" "block_at_bit st i k < 2 ^ 31"
proof -
  have "block_at_bit st i k \<le> l_ngroups st * per_group st"
  proof -
    have "i * per_group st + per_group st \<le> l_ngroups st * per_group st" using assms(2) by (metis Suc_leI add.commute mult_Suc mult_le_mono1)
    with assms(3) show ?thesis by (simp add: block_at_bit_def)
  qed
  with ok show lt: "block_at_bit st i k < 2 ^ 31" by (simp add: fs_ok_def)
  have "of_nat k + of_nat i * s_blocks_per_group (l_sb st) + 1 = (word_of_int (int (block_at_bit st i k)) :: u32)"
    by (simp add: block_at_bit_def per_group_def)
  with sint_word_of_int_pos [of "int (block_at_bit st i k)"] lt
  show "sint (of_nat k + of_nat i * s_blocks_per_group (l_sb st) + 1 :: u32) = int (block_at_bit st i k)" by simp
qed

lemma read_bitmap_ok:
  assumes ok: "fs_ok st" and i: "i < l_ngroups st"
  shows "\<exists>st'. read_bitmap (bg_block_bitmap (l_gds st) i) st = Some (group_map st i, st') \<and> frame st st' \<and> allocated st' = allocated st
     \<and> (\<forall>j < l_ngroups st. group_map st' j = group_map st j) \<and> l_gds st' = l_gds st \<and> l_sb st' = l_sb st"
proof -
  obtain st' where st': "blk_read (bitmap_block st i) st = Some (group_map st i, st')" "frame st st'" "allocated st' = allocated st"
    "\<forall>e. usable (l_bio st) e \<longrightarrow> block_view (l_bio st') e = block_view (l_bio st) e" "l_gds st' = l_gds st" "l_sb st' = l_sb st"
    using blk_read_ok [OF ok fs_okD(5) [OF ok i]] by (auto simp: group_map_def)
  have "group_map st' j = group_map st j" if "j < l_ngroups st" for j
    using st'(4) fs_okD(5) [OF ok that] frame_bitmap(2) [OF st'(2) that] by (simp add: group_map_def)
  with st' fs_okD(3) [OF ok] show ?thesis by (simp add: read_bitmap_def lib_simps BITMAP_SIZE_def bitmap_block_def)
qed

text \<open>The result of an allocation of the blocks \<open>B\<close>.\<close>

definition took :: "e2lib \<Rightarrow> nat set \<Rightarrow> e2lib \<Rightarrow> bool" where
  "took st B st' \<longleftrightarrow> frame st st' \<and> B \<inter> allocated st = {} \<and> allocated st' = allocated st \<union> B"

lemma took_bits:
  assumes ok: "fs_ok st" and i: "i < l_ngroups st" and ks: "\<And>k. k \<in> set ks \<Longrightarrow> k < per_group st \<and> \<not> map_bit (group_map st i) k"
    and m: "m = foldl set_map_bit (group_map st i) ks"
  shows "\<exists>c. blk_write (bitmap_block st i) m st = Some ((), st\<lparr>l_bio := c\<rparr>) \<and> took st (block_at_bit st i ` set ks) (add_free_blocks i n (st\<lparr>l_bio := c\<rparr>))"
proof -
  have per: "0 < per_group st" "per_group st \<le> 8192" using ok by (simp_all add: fs_ok_def)
  have "4 * (k div 32 + 1) \<le> length (group_map st i)" if "k \<in> set ks" for k
  proof -
    have "k < 32 * 256" using ks [OF that] per(2) by simp
    then have "k div 32 < 256" by (simp add: less_mult_imp_div_less)
    then show ?thesis using length_block_map [OF ok i] by simp
  qed
  from map_bits_set [OF this] have m1: "length m = 1024" "\<And>n. map_bit m n \<longleftrightarrow> n \<in> set ks \<or> map_bit (group_map st i) n"
    using length_block_map [OF ok i] by (simp_all add: m)
  obtain c where c: "blk_write (bitmap_block st i) m st = Some ((), st\<lparr>l_bio := c\<rparr>)" "frame st (add_free_blocks i n (st\<lparr>l_bio := c\<rparr>))"
    "\<forall>j < l_ngroups st. group_map (add_free_blocks i n (st\<lparr>l_bio := c\<rparr>)) j = (if j = i then m else group_map st j)"
    using write_bitmap_ok [OF ok i m1(1)] by blast
  let ?st = "add_free_blocks i n (st\<lparr>l_bio := c\<rparr>)"
  have "x \<in> allocated ?st \<longleftrightarrow> x \<in> allocated st \<union> block_at_bit st i ` set ks" for x
  proof (cases "0 < x \<and> (x - 1) div per_group st = i")
    case True
    then have x: "x = block_at_bit st i ((x - 1) mod per_group st)" by (auto simp: block_at_bit_def)
    have lt: "(x - 1) mod per_group st < per_group st" using per by simp
    have "x \<in> block_at_bit st i ` set ks \<longleftrightarrow> (x - 1) mod per_group st \<in> set ks"
    proof
      assume "x \<in> block_at_bit st i ` set ks"
      then obtain k where "k \<in> set ks" "x = block_at_bit st i k" by auto
      then show "(x - 1) mod per_group st \<in> set ks" using ks block_at_bit_inv [of k st i] by simp
    qed (use x in blast)
    moreover have "x \<in> allocated st \<longleftrightarrow> map_bit (group_map st i) ((x - 1) mod per_group st)"
      using allocated_bit [OF i lt] x by metis
    moreover have "x \<in> allocated ?st \<longleftrightarrow> map_bit m ((x - 1) mod per_group st)"
      using allocated_update [OF c(2) i _ per(1), of m x] c(3) True by simp
    ultimately show ?thesis using m1(2) by blast
  next
    case False
    then have "x \<notin> block_at_bit st i ` set ks" using ks block_at_bit_inv [of _ st i] block_at_bit_pos by fastforce
    with allocated_update [OF c(2) i _ per(1), of m x] c(3) False show ?thesis by auto
  qed
  moreover have "block_at_bit st i ` set ks \<inter> allocated st = {}" using ks allocated_bit [OF i] by auto
  ultimately show ?thesis using c(1,2) by (auto simp: took_def)
qed

lemma zero_bit_in_group:
  assumes ok: "fs_ok st" and i: "i < l_ngroups st"
  shows "\<exists>k. find_first_zero_bit (group_map st i) (s_blocks_per_group (l_sb st)) = Some k \<and> k \<le> per_group st
     \<and> (k < per_group st \<longrightarrow> \<not> map_bit (group_map st i) k) \<and> (\<forall>j < k. map_bit (group_map st i) j)"
proof -
  let ?n = "s_blocks_per_group (l_sb st)"
  have per: "0 < unat ?n" "unat ?n \<le> 8192" "32 dvd unat ?n" using ok by (simp_all add: fs_ok_def per_group_def)
  then obtain q where q: "unat ?n = 32 * q" by auto
  then have d: "(unat ?n + 31) div 32 = q" by simp
  have "4 * q \<le> length (group_map st i)" using length_block_map [OF ok i] per(2) q by simp
  with zero_word_spec [of 0 q "group_map st i"] per(1) show ?thesis
    unfolding find_first_zero_bit_def d per_group_def using q by (auto simp: unat_gt_0)
qed

text \<open>Reading the bitmap of group \<open>i\<close> is the first step of every allocation there.\<close>

lemma bitmap_step:
  assumes ok: "fs_ok st" and i: "i < l_ngroups st"
  obtains st1 where "read_bitmap (bg_block_bitmap (l_gds st) i) st = Some (group_map st i, st1)" "l_sb st1 = l_sb st"
    "fs_ok st1" "i < l_ngroups st1" "l_ngroups st1 = l_ngroups st" "group_map st1 i = group_map st i" "per_group st1 = per_group st" "bitmap_block st1 i = bitmap_block st i"
    "\<forall>B st'. took st1 B st' \<longrightarrow> took st B st'"
proof -
  obtain st1 where st1: "read_bitmap (bg_block_bitmap (l_gds st) i) st = Some (group_map st i, st1)" "frame st st1" "allocated st1 = allocated st"
    "\<forall>j < l_ngroups st. group_map st1 j = group_map st j" "l_gds st1 = l_gds st" "l_sb st1 = l_sb st" using read_bitmap_ok [OF ok i] by blast
  have "took st B st'" if "took st1 B st'" for B st' using that st1(3) frame_trans [OF st1(2)] by (simp add: took_def)
  moreover have "fs_ok st1" using st1(2) by (simp add: frame_def)
  ultimately show ?thesis using that st1 i frame_bitmap [OF st1(2)] by metis
qed

lemma bitmap_bit_fits:
  assumes "fs_ok st" "i < l_ngroups st" "k < per_group st"
  shows "4 * (k div 32 + 1) \<le> length (group_map st i)"
proof -
  have "k < 32 * 256" using assms(1,3) by (simp add: fs_ok_def)
  then have "k div 32 < 256" by (simp add: less_mult_imp_div_less)
  then show ?thesis using length_block_map [OF assms(1,2)] by simp
qed

lemma balloc_hit:
  assumes ok: "fs_ok st" and i: "i < l_ngroups st" and n: "bg_free_blocks_count (l_gds st) i \<noteq> 0"
    and k: "find_first_zero_bit (group_map st i) (s_blocks_per_group (l_sb st)) = Some k" "0 < k" "k < per_group st" "\<not> map_bit (group_map st i) k"
  shows "\<exists>st'. balloc_loop (i # is) st = Some (int (block_at_bit st i k), st') \<and> took st {block_at_bit st i k} st'"
proof -
  obtain st1 where st1: "read_bitmap (bg_block_bitmap (l_gds st) i) st = Some (group_map st i, st1)" "l_sb st1 = l_sb st"
    "fs_ok st1" "i < l_ngroups st1" "l_ngroups st1 = l_ngroups st" "group_map st1 i = group_map st i" "per_group st1 = per_group st" "bitmap_block st1 i = bitmap_block st i"
    "\<forall>B st'. took st1 B st' \<longrightarrow> took st B st'" by (rule bitmap_step [OF ok i])
  obtain c where c: "blk_write (bitmap_block st1 i) (set_map_bit (group_map st i) k) st1 = Some ((), st1\<lparr>l_bio := c\<rparr>)"
    "took st1 {block_at_bit st1 i k} (add_free_blocks i (- 1) (st1\<lparr>l_bio := c\<rparr>))"
    using took_bits [OF st1(3,4), of "[k]" "set_map_bit (group_map st i) k" "- 1"] k st1(6,7) by auto
  have b: "block_at_bit st1 i k = block_at_bit st i k" by (simp add: block_at_bit_def st1(7))
  have "balloc_loop (i # is) st = Some (int (block_at_bit st i k), add_free_blocks i (- 1) (st1\<lparr>l_bio := c\<rparr>))"
    using n st1(1,2,8) k fs_okD(4) [OF ok i] bitmap_bit_fits [OF ok i k(3)] c(1) block_word(1) [OF ok i k(3)]
    by (simp add: lib_simps per_group_def bitmap_block_def)
  with st1(9) c(2) show ?thesis unfolding b by blast
qed

lemma balloc_loop_ok:
  assumes "fs_ok st" and "set is \<subseteq> {..<l_ngroups st}"
  shows "\<exists>r st'. balloc_loop is st = Some (r, st') \<and> (r = 0 \<and> took st {} st' \<or> 0 < r \<and> took st {nat r} st')"
  using assms
proof (induction "is" arbitrary: st)
  case Nil
  then show ?case by (simp add: lib_simps took_def frame_refl)
next
  case (Cons i "is")
  have i: "i < l_ngroups st" using Cons.prems(2) by simp
  note ok = Cons.prems(1)
  obtain k where k: "find_first_zero_bit (group_map st i) (s_blocks_per_group (l_sb st)) = Some k" "k \<le> per_group st"
    "k < per_group st \<longrightarrow> \<not> map_bit (group_map st i) k" using zero_bit_in_group [OF ok i] by blast
  consider (none) "bg_free_blocks_count (l_gds st) i = 0" | (full) "bg_free_blocks_count (l_gds st) i \<noteq> 0" "k = 0 \<or> k = per_group st"
    | (hit) "bg_free_blocks_count (l_gds st) i \<noteq> 0" "0 < k" "k < per_group st" using k(2) by fastforce
  then show ?case
  proof cases
    case none
    then show ?thesis using Cons.IH [OF ok] Cons.prems(2) fs_okD(4) [OF ok i] by (simp add: lib_simps)
  next
    case full
    obtain st1 where st1: "read_bitmap (bg_block_bitmap (l_gds st) i) st = Some (group_map st i, st1)" "l_sb st1 = l_sb st"
      "fs_ok st1" "i < l_ngroups st1" "l_ngroups st1 = l_ngroups st" "group_map st1 i = group_map st i" "per_group st1 = per_group st" "bitmap_block st1 i = bitmap_block st i"
      "\<forall>B st'. took st1 B st' \<longrightarrow> took st B st'" by (rule bitmap_step [OF ok i])
    have "balloc_loop (i # is) st = balloc_loop is st1"
      using full st1(1,2) k(1) fs_okD(4) [OF ok i] by (auto simp: lib_simps per_group_def)
    then show ?thesis using Cons.IH [OF st1(3)] Cons.prems(2) st1(5,9) by auto
  next
    case hit
    then show ?thesis using balloc_hit [OF ok i hit(1) k(1) hit(2,3), of "is"] k(3) block_at_bit_pos [of st i k] by auto
  qed
qed

lemma ext2_balloc_ok:
  assumes "fs_ok st"
  shows "\<exists>r st'. ext2_balloc st = Some (r, st') \<and> (r = 0 \<and> took st {} st' \<or> 0 < r \<and> took st {nat r} st')"
proof (cases "l_readonly st")
  case True
  then show ?thesis using assms by (simp add: ext2_balloc_def lib_simps took_def frame_refl)
next
  case False
  then show ?thesis using balloc_loop_ok [OF assms, of "[0..<l_ngroups st]"] by (simp add: ext2_balloc_def lib_simps atLeast0LessThan)
qed

subsection \<open>Taking a run of blocks\<close>

lemma find_run_spec:
  assumes "first \<le> per"
  shows "find_run m per need first \<le> per \<and> (find_run m per need first < per \<longrightarrow> find_run m per need first + need \<le> per
     \<and> (\<forall>w. find_run m per need first \<le> w \<and> w < find_run m per need first + need \<longrightarrow> map_word m w = 0))"
  using assms
proof (induction m per need first rule: find_run.induct)
  case (1 m per need first)
  define f where "f = next_word (\<lambda>w. w = 0) m first (per - first)"
  define l where "l = next_word (\<lambda>w. w \<noteq> 0) m f (per - f)"
  have f: "f \<le> per" unfolding f_def using next_word_le [of "\<lambda>w. w = 0" m first "per - first"] "1.prems" by simp
  have e: "find_run m per need first = (if f \<ge> per then f else if l - f < need then find_run m per need l else f)"
    by (subst find_run.simps) (simp add: Let_def f_def l_def)
  show ?case
  proof (cases "f \<ge> per \<or> l - f < need")
    case True
    have "l \<le> per" unfolding l_def using next_word_le [of "\<lambda>w. w \<noteq> 0" m f "per - f"] f by simp
    with True f e "1.IH" [OF f_def _ l_def] show ?thesis by auto
  next
    case False
    have "l \<le> per" unfolding l_def using next_word_le [of "\<lambda>w. w \<noteq> 0" m f "per - f"] f by simp
    moreover have "map_word m w = 0" if "f \<le> w" "w < l" for w
      using next_word_skip [OF that(1), of "\<lambda>w. w \<noteq> 0" m "per - f"] that(2) by (simp add: l_def)
    ultimately show ?thesis using False e by auto
  qed
qed

lemma zero_word_bits: "map_word m (k div 32) = 0 \<Longrightarrow> \<not> map_bit m k"
  by (simp add: map_bit_def)

lemma run_in_group:
  assumes ok: "fs_ok st" and i: "i < l_ngroups st" and f: "f = find_run (group_map st i) (per_group st div 32) ((n + 31) div 32) 0" "f \<noteq> per_group st div 32"
    and k: "f * 32 \<le> k" "k < f * 32 + n"
  shows "k < per_group st \<and> \<not> map_bit (group_map st i) k"
proof -
  define q where "q = (n + 31) div 32"
  obtain r where r: "per_group st = 32 * r" using ok by (auto simp: fs_ok_def)
  have s: "f + q \<le> r" "\<And>w. f \<le> w \<Longrightarrow> w < f + q \<Longrightarrow> map_word (group_map st i) w = 0"
    using find_run_spec [of 0 r "group_map st i" q] f r by (auto simp: q_def)
  have n: "n \<le> 32 * q" unfolding q_def by linarith
  then have "k < 32 * (f + q)" using k(2) by simp
  then have "k div 32 < f + q" by (simp add: less_mult_imp_div_less mult.commute)
  moreover have "f \<le> k div 32" using k(1) by (simp add: less_eq_div_iff_mult_less_eq)
  ultimately have "map_word (group_map st i) (k div 32) = 0" using s(2) by blast
  moreover have "32 * (f + q) \<le> per_group st" using s(1) unfolding r by (rule mult_le_mono2)
  ultimately show ?thesis using \<open>k < 32 * (f + q)\<close> zero_word_bits by auto
qed

lemma contiguous_hit:
  assumes ok: "fs_ok st" and i: "i < l_ngroups st" and n: "n \<le> unat (bg_free_blocks_count (l_gds st) i)"
    and f: "f = find_run (group_map st i) (per_group st div 32) ((n + 31) div 32) 0" "f \<noteq> per_group st div 32"
  shows "\<exists>st'. contiguous_loop (i # is) n st = Some (int (block_at_bit st i (f * 32)), st')
     \<and> took st {block_at_bit st i (f * 32)..<block_at_bit st i (f * 32) + n} st'"
proof -
  let ?ks = "[f * 32..<f * 32 + n]" and ?r = "block_at_bit st i (f * 32)"
  obtain st1 where st1: "read_bitmap (bg_block_bitmap (l_gds st) i) st = Some (group_map st i, st1)" "l_sb st1 = l_sb st"
    "fs_ok st1" "i < l_ngroups st1" "l_ngroups st1 = l_ngroups st" "group_map st1 i = group_map st i" "per_group st1 = per_group st" "bitmap_block st1 i = bitmap_block st i"
    "\<forall>B st'. took st1 B st' \<longrightarrow> took st B st'" by (rule bitmap_step [OF ok i])
  have len: "4 * (per_group st div 32) \<le> length (group_map st i)" using ok length_block_map [OF ok i] by (auto simp: fs_ok_def)
  have ks: "k < per_group st1 \<and> \<not> map_bit (group_map st1 i) k" if "k \<in> set ?ks" for k
    using run_in_group [OF ok i f, of k] that st1(6,7) by auto
  obtain c where c: "blk_write (bitmap_block st1 i) (foldl set_map_bit (group_map st i) ?ks) st1 = Some ((), st1\<lparr>l_bio := c\<rparr>)"
    "took st1 (block_at_bit st1 i ` set ?ks) (add_free_blocks i (- int n) (st1\<lparr>l_bio := c\<rparr>))"
    using took_bits [OF st1(3,4) _ refl, of ?ks "- int n"] ks st1(6) by auto
  have "f < per_group st div 32" using find_run_spec [of 0 "per_group st div 32" "group_map st i" "(n + 31) div 32"] f by simp
  moreover obtain r where "per_group st = 32 * r" using ok by (auto simp: fs_ok_def)
  ultimately have f32: "f * 32 < per_group st" by simp
  have im: "block_at_bit st1 i ` set ?ks = {?r..<?r + n}"
    using image_add_atLeastLessThan [of "i * per_group st + 1" "f * 32" "f * 32 + n"] by (simp add: block_at_bit_def st1(7) add_ac)
  have "contiguous_loop (i # is) n st = Some (int ?r, add_free_blocks i (- int n) (st1\<lparr>l_bio := c\<rparr>))"
    using n st1(1,2,8) f fs_okD(4) [OF ok i] len c(1) block_word(1) [OF ok i f32] by (simp add: lib_simps Let_def per_group_def bitmap_block_def)
  with st1(9) c(2) show ?thesis unfolding im by blast
qed

lemma contiguous_loop_ok:
  assumes "fs_ok st" and "set is \<subseteq> {..<l_ngroups st}"
  shows "\<exists>r st'. contiguous_loop is n st = Some (r, st') \<and> (r = 0 \<and> took st {} st' \<or> 0 < r \<and> took st {nat r..<nat r + n} st')"
  using assms
proof (induction "is" arbitrary: st)
  case Nil
  then show ?case by (simp add: lib_simps took_def frame_refl)
next
  case (Cons i "is")
  have i: "i < l_ngroups st" using Cons.prems(2) by simp
  note ok = Cons.prems(1)
  define f where "f = find_run (group_map st i) (per_group st div 32) ((n + 31) div 32) 0"
  consider (few) "unat (bg_free_blocks_count (l_gds st) i) < n" | (none) "n \<le> unat (bg_free_blocks_count (l_gds st) i)" "f = per_group st div 32"
    | (hit) "n \<le> unat (bg_free_blocks_count (l_gds st) i)" "f \<noteq> per_group st div 32" by linarith
  then show ?case
  proof cases
    case few
    then show ?thesis using Cons.IH [OF ok] Cons.prems(2) fs_okD(4) [OF ok i] by (simp add: lib_simps)
  next
    case none
    obtain st1 where st1: "read_bitmap (bg_block_bitmap (l_gds st) i) st = Some (group_map st i, st1)" "l_sb st1 = l_sb st"
      "fs_ok st1" "i < l_ngroups st1" "l_ngroups st1 = l_ngroups st" "group_map st1 i = group_map st i" "per_group st1 = per_group st" "bitmap_block st1 i = bitmap_block st i"
      "\<forall>B st'. took st1 B st' \<longrightarrow> took st B st'" by (rule bitmap_step [OF ok i])
    have len: "4 * (per_group st div 32) \<le> length (group_map st i)" using ok length_block_map [OF ok i] by (auto simp: fs_ok_def)
    have "contiguous_loop (i # is) n st = contiguous_loop is n st1"
      using none st1(1,2) fs_okD(4) [OF ok i] len by (simp add: lib_simps Let_def per_group_def f_def)
    then show ?thesis using Cons.IH [OF st1(3)] Cons.prems(2) st1(5,9) by auto
  next
    case hit
    then show ?thesis using contiguous_hit [OF ok i hit(1) f_def hit(2), of "is"] block_at_bit_pos [of st i "f * 32"] by auto
  qed
qed

lemma contiguous_balloc_ok:
  assumes "fs_ok st"
  shows "\<exists>r st'. ext2_contiguous_balloc n st = Some (r, st') \<and> (r = 0 \<and> took st {} st' \<or> 0 < r \<and> took st {nat r..<nat r + n} st')"
proof (cases "l_readonly st")
  case True
  then show ?thesis using assms by (simp add: ext2_contiguous_balloc_def lib_simps took_def frame_refl)
next
  case False
  then show ?thesis using contiguous_loop_ok [OF assms, of "[0..<l_ngroups st]"] by (simp add: ext2_contiguous_balloc_def lib_simps atLeast0LessThan)
qed

subsection \<open>Giving a block back\<close>

lemma group_of_block:
  assumes "fs_ok st" and "0 < n" "n \<le> l_ngroups st * per_group st"
  shows "group_of (s_blocks_per_group (l_sb st)) (int n) = ((n - 1) div per_group st, (n - 1) mod per_group st)"
proof -
  have "l_ngroups st * per_group st < 2 ^ 31 - 1" using assms(1) by (simp add: fs_ok_def)
  then have "n - 1 < 2 ^ 32" using assms(3) by simp
  moreover have "word_of_int (int n - 1) = (of_nat (n - 1) :: u32)" using assms(2) by (simp add: of_nat_diff)
  ultimately show ?thesis
    by (simp add: group_of_def Let_def per_group_def unat_div_distrib unat_mod_distrib unat_of_nat take_bit_nat_eq_self)
qed

lemma ext2_bfree_ok:
  assumes ok: "fs_ok st" and n: "0 < n" "n \<le> l_ngroups st * per_group st"
  shows "\<exists>st'. ext2_bfree (int n) st = Some ((), st') \<and> frame st st' \<and> allocated st' = allocated st - {n}"
proof -
  define i where "i = (n - 1) div per_group st"
  define k where "k = (n - 1) mod per_group st"
  have per: "0 < per_group st" "per_group st \<le> 8192" using ok by (simp_all add: fs_ok_def)
  have i: "i < l_ngroups st" unfolding i_def using n per(1) by (simp add: less_mult_imp_div_less)
  have k: "k < per_group st" unfolding k_def using per(1) by simp
  have nb: "n = block_at_bit st i k" using n(1) by (simp add: block_at_bit_def i_def k_def)
  obtain st1 where st1: "read_bitmap (bg_block_bitmap (l_gds st) i) st = Some (group_map st i, st1)" "frame st st1" "allocated st1 = allocated st"
    "\<forall>j < l_ngroups st. group_map st1 j = group_map st j" "l_gds st1 = l_gds st" "l_sb st1 = l_sb st" using read_bitmap_ok [OF ok i] by blast
  have ok1: "fs_ok st1" and i1: "i < l_ngroups st1" using st1(2) i by (simp_all add: frame_def)
  have p1: "per_group st1 = per_group st" "bitmap_block st1 i = bitmap_block st i" using frame_bitmap [OF st1(2)] i by simp_all
  note len = bitmap_bit_fits [OF ok i k]
  let ?m = "clear_map_bit (group_map st i) k"
  have "length ?m = 1024" using len length_block_map [OF ok i] by simp
  then obtain c where c: "blk_write (bitmap_block st1 i) ?m st1 = Some ((), st1\<lparr>l_bio := c\<rparr>)" "frame st1 (add_free_blocks i 1 (st1\<lparr>l_bio := c\<rparr>))"
    "\<forall>j < l_ngroups st1. group_map (add_free_blocks i 1 (st1\<lparr>l_bio := c\<rparr>)) j = (if j = i then ?m else group_map st1 j)"
    using write_bitmap_ok [OF ok1 i1] by blast
  let ?st = "add_free_blocks i 1 (st1\<lparr>l_bio := c\<rparr>)"
  have per1: "0 < per_group st1" using per p1 by simp
  have "x \<in> allocated ?st \<longleftrightarrow> x \<in> allocated st \<and> x \<noteq> n" for x
  proof (cases "0 < x \<and> (x - 1) div per_group st = i")
    case True
    have x: "x = block_at_bit st i ((x - 1) mod per_group st)" using True by (auto simp: block_at_bit_def)
    have lt: "(x - 1) mod per_group st < per_group st" using per by simp
    have "x \<in> allocated ?st \<longleftrightarrow> map_bit ?m ((x - 1) mod per_group st)"
      using allocated_update [OF c(2) i1 _ per1, of ?m x] c(3) True p1(1) by simp
    also have "\<dots> \<longleftrightarrow> (x - 1) mod per_group st \<noteq> k \<and> map_bit (group_map st i) ((x - 1) mod per_group st)" by (rule map_bit_clear [OF len])
    also have "\<dots> \<longleftrightarrow> x \<noteq> n \<and> x \<in> allocated st"
      using allocated_bit [OF i lt] x nb block_at_bit_inv [OF k, of i] by auto
    finally show ?thesis by blast
  next
    case False
    then have "x \<noteq> n" using nb block_at_bit_inv [OF k, of i] n(1) by auto
    with allocated_update [OF c(2) i1 _ per1, of ?m x] c(3) False p1(1) st1(3) show ?thesis by auto
  qed
  then have "allocated ?st = allocated st - {n}" by auto
  moreover have g: "group_of (s_blocks_per_group (l_sb st)) (int n) = (i, k)" using group_of_block [OF ok n] by (simp add: i_def k_def)
  have nz: "s_blocks_per_group (l_sb st) \<noteq> 0" using per(1) by (auto simp: per_group_def)
  have "ext2_bfree (int n) st = Some ((), ?st)"
    using st1(1,6) c(1) p1(2) len fs_okD(4) [OF ok i] by (simp add: ext2_bfree_def lib_simps g nz bitmap_block_def)
  ultimately show ?thesis using frame_trans [OF st1(2) c(2)] by blast
qed

subsection \<open>A file system\<close>

text \<open>One group of 64 blocks with its bitmap in block 3; the first three blocks are allocated.\<close>

definition e2_example :: e2lib where
  "e2_example = \<lparr>
     l_bio = binit 1024 \<lparr>bio_file = replicate 3072 0 @ [7] @ replicate 1023 0, bio_counter = 0, bio_blocksize = 0, buflist = [], bio_raw = (\<lambda>_. replicate 1024 0)\<rparr>,
     l_sb = replicate 32 0 @ [64] @ replicate 991 0,
     l_gds = [3, 0, 0, 0] @ replicate 8 0 @ [61, 0] @ replicate 18 0,
     l_ngroups = 1, l_blocksize = 1024, l_directlim = 11, l_ind1lim = 267, l_ind2lim = 65547, l_ptrs = 256, l_readonly = False,
     l_table = replicate 8 \<lparr>slot_inode = replicate 128 0, slot_inumber = 0, slot_free = True, slot_old_mode = 0\<rparr>\<rparr>"

lemma e2_example_fields:
  "per_group e2_example = 64" "bitmap_block e2_example 0 = 3" "length (l_gds e2_example) = 32" "length (l_sb e2_example) = 1024" "l_ngroups e2_example = 1"
  "bio_blocksize (l_bio e2_example) = 1024" "l_blocksize e2_example = 1024" "\<not> l_readonly e2_example" "bg_free_blocks_count (l_gds e2_example) 0 = 61"
  "s_blocks_per_group (l_sb e2_example) = 64"
  by (simp_all add: e2_example_def per_group_def s_blocks_per_group_def bitmap_block_def bg_block_bitmap_def bg_free_blocks_count_def sizeof_group_desc_def
      le32_at_def le16_at_def slice_def binit_def)

lemma e2_example_ok: "fs_ok e2_example"
proof -
  have "bio_ok (l_bio e2_example)" by (simp add: e2_example_def binit_ok)
  moreover have "usable (l_bio e2_example) 3" by (simp add: e2_example_def usable_def in_file_def binit_def)
  ultimately show ?thesis by (simp add: fs_ok_def e2_example_fields sizeof_group_desc_def sizeof_sb_def lessThan_Suc)
qed

lemma e2_example_map: "group_map e2_example 0 = [7] @ replicate 1023 0"
proof -
  have "group_map e2_example 0 = slice 3072 1024 (replicate 3072 0 @ [7] @ replicate 1023 0)"
    by (simp add: group_map_def e2_example_fields) (simp add: e2_example_def binit_view)
  then show ?thesis by (simp add: slice_def)
qed

subsection \<open>Properties\<close>

text \<open>
  C32.  \<open>ext2_contiguous_balloc\<close> delivers the first of \<open>nblocks\<close> consecutive blocks that were all free and are all allocated now, and changes nothing but the bitmaps and the counts; or it
  delivers 0 and allocates nothing.  It always returns.
\<close>

theorem ext2_contiguous_balloc_free:
  assumes "fs_ok st"
  shows "\<exists>r st'. ext2_contiguous_balloc nblocks st = Some (r, st') \<and> frame st st'
     \<and> (r = 0 \<and> allocated st' = allocated st
        \<or> 0 < r \<and> {nat r..<nat r + nblocks} \<inter> allocated st = {} \<and> allocated st' = allocated st \<union> {nat r..<nat r + nblocks})"
  using contiguous_balloc_ok [OF assms, of nblocks] by (auto simp: took_def)

theorem ext2_contiguous_balloc_free_witness:
  "\<exists>st'. ext2_contiguous_balloc 5 e2_example = Some (33, st') \<and> allocated st' = allocated e2_example \<union> {33..<38}"
proof -
  have "find_run ([7] @ replicate 1023 0) 2 1 0 = 1" by code_simp
  then have "\<exists>st'. ext2_contiguous_balloc 5 e2_example = Some (33, st')"
    using contiguous_hit [OF e2_example_ok, of 0 5 1 "[]"] by (auto simp: e2_example_fields e2_example_map ext2_contiguous_balloc_def lib_simps block_at_bit_def simp del: contiguous_loop.simps)
  with ext2_contiguous_balloc_free [OF e2_example_ok, of 5] show ?thesis by auto
qed

text \<open>
  C33.  A block that \<open>ext2_balloc\<close> delivers was free; giving it back with \<open>ext2_bfree\<close> makes the set of allocated blocks what it was before, and leaves all other blocks of the disk alone.
\<close>

theorem ext2_balloc_bfree:
  assumes "fs_ok st" and "ext2_balloc st = Some (r, st1)" and "r \<noteq> 0"
  shows "nat r \<notin> allocated st \<and> allocated st1 = insert (nat r) (allocated st)
     \<and> (\<exists>st2. ext2_bfree r st1 = Some ((), st2) \<and> allocated st2 = allocated st \<and> frame st st2)"
proof -
  have t: "took st {nat r} st1" "0 < r" using ext2_balloc_ok [OF assms(1)] assms(2,3) by auto
  then have f: "frame st st1" "fs_ok st1" "allocated st1 = insert (nat r) (allocated st)" "nat r \<notin> allocated st" by (auto simp: took_def frame_def)
  have "nat r \<in> allocated st1" using f(3) by simp
  then have "(nat r - 1) div per_group st1 < l_ngroups st1" by (simp add: allocated_def)
  moreover have per: "0 < per_group st1" using f(2) by (simp add: fs_ok_def)
  ultimately have "nat r - 1 < l_ngroups st1 * per_group st1" by (simp add: div_less_iff_less_mult)
  then have "nat r \<le> l_ngroups st1 * per_group st1" by simp
  moreover have "0 < nat r" "int (nat r) = r" using t(2) by simp_all
  ultimately obtain st2 where "ext2_bfree r st1 = Some ((), st2)" "frame st1 st2" "allocated st2 = allocated st1 - {nat r}"
    using ext2_bfree_ok [OF f(2), of "nat r"] by metis
  with f frame_trans [OF f(1)] show ?thesis by auto
qed

theorem ext2_balloc_bfree_witness:
  "\<exists>st1 st2. ext2_balloc e2_example = Some (4, st1) \<and> ext2_bfree 4 st1 = Some ((), st2) \<and> allocated st2 = allocated e2_example"
proof -
  have "find_first_zero_bit ([7] @ replicate 1023 0) 64 = Some 3" "\<not> map_bit ([7] @ replicate 1023 0) 3" by code_simp+
  then obtain st1 where st1: "ext2_balloc e2_example = Some (4, st1)"
    using balloc_hit [OF e2_example_ok, of 0 3 "[]"] by (auto simp: e2_example_fields e2_example_map ext2_balloc_def lib_simps block_at_bit_def simp del: balloc_loop.simps)
  with ext2_balloc_bfree [OF e2_example_ok st1] show ?thesis by auto
qed

end
