(* ===== verification/Bootblock.thy ===== *)
theory Bootblock
  imports E2bits
begin

text \<open>
  The first sector of a bootable disk as the SRM console reads it (\<^verbatim>\<open>struct boot_block\<close> of \<^verbatim>\<open>src/tools/e2writeboot.c\<close>): 64 words of eight bytes, the last four of them the
  number of sectors of the loader, its first sector, the flags and the sum of the 63 words before.  All tools that install the loader write this sector.
\<close>

unbundle bit_operations_syntax

definition CONSOLE_BLOCK_SIZE :: nat where "CONSOLE_BLOCK_SIZE = 512"

definition le64_at :: "bytes \<Rightarrow> nat \<Rightarrow> u64" where "le64_at b off = le_word (slice off 8 b)"
definition put_le64 :: "nat \<Rightarrow> u64 \<Rightarrow> bytes \<Rightarrow> bytes" where "put_le64 off w b = put_bytes off (le_encode 8 w) b"

definition bb_count :: "bytes \<Rightarrow> u64" where "bb_count b = le64_at b 480"
definition bb_lbn :: "bytes \<Rightarrow> u64" where "bb_lbn b = le64_at b 488"
definition bb_flags :: "bytes \<Rightarrow> u64" where "bb_flags b = le64_at b 496"
definition bb_chk_sum :: "bytes \<Rightarrow> u64" where "bb_chk_sum b = le64_at b 504"

lemmas bb_defs = bb_count_def bb_lbn_def bb_flags_def bb_chk_sum_def

text \<open>The sum of the first \<open>n\<close> words.\<close>

definition quad_sum :: "nat \<Rightarrow> bytes \<Rightarrow> u64" where
  "quad_sum n b = sum_list (map (\<lambda>i. le64_at b (8 * i)) [0..<n])"

text \<open>What the console requires of the sector.\<close>

definition boot_sector_ok :: "bytes \<Rightarrow> bool" where
  "boot_sector_ok b \<longleftrightarrow> CONSOLE_BLOCK_SIZE \<le> length b \<and> bb_chk_sum b = quad_sum 63 b"

lemma length_put_le64 [simp]: "off + 8 \<le> length b \<Longrightarrow> length (put_le64 off w b) = length b"
  by (simp add: put_le64_def length_put_bytes)

lemma le64_put: "off + 8 \<le> length b \<Longrightarrow> le64_at (put_le64 off w b) off = w"
  using slice_put_bytes [of off "le_encode 8 w" b] by (simp add: le64_at_def put_le64_def le_word_encode)

lemma le64_put_other: "off + 8 \<le> length b \<Longrightarrow> a + 8 \<le> off \<or> off + 8 \<le> a \<Longrightarrow> le64_at (put_le64 off w b) a = le64_at b a"
  by (simp add: le64_at_def put_le64_def slice_put_bytes_other)

lemma quad_sum_Suc: "quad_sum (Suc n) b = quad_sum n b + le64_at b (8 * n)"
  by (simp add: quad_sum_def)

lemma quad_sum_put: "8 * n \<le> off \<Longrightarrow> off + 8 \<le> length b \<Longrightarrow> quad_sum n (put_le64 off w b) = quad_sum n b"
  unfolding quad_sum_def by (intro arg_cong [where f = sum_list] map_cong refl) (auto simp: le64_put_other)

lemma quad_sum_cong: "(\<And>i. i < n \<Longrightarrow> le64_at b (8 * i) = le64_at d (8 * i)) \<Longrightarrow> quad_sum n b = quad_sum n d"
  unfolding quad_sum_def by (intro arg_cong [where f = sum_list] map_cong refl) auto

lemma le64_take: "off + 8 \<le> n \<Longrightarrow> le64_at (take n b) off = le64_at b off"
  by (simp add: le64_at_def slice_def drop_take min_def)

lemma le64_slice: "off + 8 \<le> n \<Longrightarrow> le64_at (slice a n b) off = le64_at b (a + off)"
  by (simp add: le64_at_def slice_def drop_take min_def add.commute)

lemma replicate_le64: "off + 8 \<le> n \<Longrightarrow> le64_at (replicate n 0) off = 0"
  by (simp add: le64_at_def slice_def numeral_eq_Suc min_def)

lemma concat_slices: "concat (map (\<lambda>s. slice (c * s) c d) [0..<m]) = take (c * m) d"
  by (induction m) (simp_all add: slice_def take_add add.commute [of c])

lemma bit_le_word_len: "bit (le_word p :: 'a::len word) i \<longleftrightarrow> i < LENGTH('a) \<and> i div 8 < length p \<and> bit (p ! (i div 8)) (i mod 8)"
proof (induction p arbitrary: i)
  case (Cons c p)
  have d: "le_word (c # p) = (ucast c OR push_bit 8 (le_word p) :: 'a word)"
  proof -
    have "ucast c + push_bit 8 (le_word p) = (ucast c OR push_bit 8 (le_word p) :: 'a word)"
      by (rule disjunctive_add_eq_or) (auto simp: bit_eq_iff bit_simps dest: bit_imp_le_length)
    then show ?thesis by (simp add: push_bit_eq_mult mult.commute)
  qed
  show ?case
  proof (cases "i < 8")
    case True
    then show ?thesis unfolding d by (simp add: bit_simps)
  next
    case False
    then have "i div 8 = Suc ((i - 8) div 8)" "(i - 8) mod 8 = i mod 8" using le_div_geq [of 8 i] le_mod_geq [of 8 i] by simp_all
    moreover have "\<not> bit c i" using False bit_imp_le_length [of c i] by auto
    ultimately show ?thesis using False Cons.IH [of "i - 8"] unfolding d by (auto simp: bit_simps)
  qed
qed simp

text \<open>A sum over all 64 words while the last one is 0 makes the sector valid.\<close>

lemma put_checksum:
  assumes "CONSOLE_BLOCK_SIZE \<le> length b" "bb_chk_sum b = 0"
  shows "boot_sector_ok (put_le64 504 (quad_sum 64 b) b)"
proof -
  have "quad_sum 64 b = quad_sum 63 b" using assms(2) quad_sum_Suc [of 63 b] by (simp add: bb_chk_sum_def)
  moreover have "504 + 8 \<le> length b" using assms(1) by (simp add: CONSOLE_BLOCK_SIZE_def)
  ultimately show ?thesis using assms(1) by (simp add: boot_sector_ok_def bb_chk_sum_def le64_put quad_sum_put)
qed

end
