(* ===== verification/E2writeboot.thy ===== *)
theory E2writeboot
  imports E2alloc Bootblock
begin

text \<open>
  The program that installs the boot loader in an ext2 file system (\<^verbatim>\<open>src/tools/e2writeboot.c\<close>): it stores the loader in the file \<^verbatim>\<open>/linuxboot\<close>, in consecutive blocks, and
  writes a boot block that tells the firmware where they are.

  The arguments are the contents of the two files, \<^const>\<open>None\<close> when a file cannot be opened, and the time; the result is the exit code.
\<close>

unbundle bit_operations_syntax

subsection \<open>The boot block\<close>

definition make_bootblock :: "nat \<Rightarrow> u64 \<Rightarrow> u64 \<Rightarrow> bytes" where
  "make_bootblock bs count lbn =
     (let b = put_le64 496 0 (put_le64 488 lbn (put_le64 480 count (replicate bs 0)))
      in put_le64 504 (quad_sum (CONSOLE_BLOCK_SIZE div 8) b) b)"

subsection \<open>The program\<close>

definition set_i_mtime :: "u32 \<Rightarrow> bytes \<Rightarrow> bytes" where "set_i_mtime t ip = put_le32 16 t ip"

text \<open>The fields of a new inode; the mode is that of a regular file with \<open>r-xr-x---\<close>.\<close>

definition new_inode :: "u32 \<Rightarrow> bytes \<Rightarrow> bytes" where
  "new_inode t ip =
     (let ip = put_le16 0 0x8168 ip;
          ip = put_le16 2 0 ip;
          ip = put_le16 24 0 ip;
          ip = put_le32 4 0 ip;
          ip = put_le32 16 t (put_le32 12 t (put_le32 8 t ip));
          ip = put_le32 20 0 ip;
          ip = put_le16 26 1 ip;
          ip = put_le32 28 0 ip;
          ip = put_le32 32 0 ip;
          ip = put_le32 36 0 ip;
          ip = foldl (\<lambda>ip k. set_i_block k 0 ip) ip [0..<15];
          ip = put_le32 100 0 ip;
          ip = put_le32 104 0 ip;
          ip = put_le16 116 0 ip
      in put_le16 122 0 (put_le16 120 0 ip))"

definition S_ISREG :: "u16 \<Rightarrow> bool" where "S_ISREG m \<longleftrightarrow> m AND 0xf000 = 0x8000"

definition linuxboot :: bytes where "linuxboot = map of_char ''linuxboot''"

text \<open>The inode for the file: \<^const>\<open>None\<close> when the program ends with an error.\<close>

definition get_bootfile :: "bytes \<Rightarrow> u32 \<Rightarrow> nat option lib" where
  "get_bootfile raw t =
     lib_bind (lib_namei (47 # linuxboot)) (\<lambda>ip.
     case ip of
       Some i \<Rightarrow>
         lib_bind (inode_of i) (\<lambda>d.
         if \<not> S_ISREG (i_mode d) then
           lib_bind (lib_iput i) (\<lambda>_. lib_bind lib_close (\<lambda>_. lib_ret None))
         else lib_bind (ext2_truncate i) (\<lambda>_. lib_ret (Some i)))
     | None \<Rightarrow>
         lib_bind (lib_namei []) (\<lambda>dip.
         case dip of
           None \<Rightarrow> lib_bind lib_close (\<lambda>_. lib_ret None)
         | Some dir \<Rightarrow>
             lib_bind ext2_ialloc (\<lambda>ino.
             lib_bind (lib_iget ino) (\<lambda>ip.
             case ip of
               None \<Rightarrow> lib_ret None
             | Some i \<Rightarrow>
                 lib_bind (ext2_mknod raw dir linuxboot ino) (\<lambda>_.
                 lib_bind (lib_iput dir) (\<lambda>_.
                 lib_bind (set_inode i (new_inode t)) (\<lambda>_.
                 lib_ret (Some i))))))))"

text \<open>
  The file is filled and the boot block written.  The product of the first block and the block size is a signed integer.
\<close>

definition install_bootstrap :: "nat \<Rightarrow> bytes \<Rightarrow> u32 \<Rightarrow> int lib" where
  "install_bootstrap i bsbuf t =
     lib_bind (lib_get l_blocksize) (\<lambda>bs.
     lib_bind (ext2_fill_contiguous i (length bsbuf div bs)) (\<lambda>bs_start.
     if bs_start \<le> 0 then lib_bind lib_close (\<lambda>_. lib_ret 1)
     else
       lib_bind (for_each (\<lambda>k. lib_bwrite i k (slice (k * bs) bs bsbuf)) [0..<length bsbuf div bs]) (\<lambda>_.
       lib_bind (set_inode i (\<lambda>ip. set_i_mtime t (set_i_size (of_nat (length bsbuf)) ip))) (\<lambda>_.
       if bs > 1024 \<or> bs < CONSOLE_BLOCK_SIZE \<or> bs_start * int bs \<ge> 2 ^ 31 then lib_fail
       else
         lib_bind (ext2_write_bootblock (make_bootblock bs (of_nat (length bsbuf div CONSOLE_BLOCK_SIZE))
                                           (word_of_int (bs_start * int bs div int CONSOLE_BLOCK_SIZE)))) (\<lambda>_.
         lib_ret 0)))))"

definition write_bootstrap :: "nat \<Rightarrow> bytes \<Rightarrow> u32 \<Rightarrow> int lib" where
  "write_bootstrap i bsbuf t =
     lib_bind (install_bootstrap i bsbuf t) (\<lambda>r. if r \<noteq> 0 then lib_ret r else lib_bind (lib_iput i) (\<lambda>_. lib_ret 0))"

text \<open>The file is padded with zeros to whole blocks.\<close>

definition pad_blocks :: "nat \<Rightarrow> bytes \<Rightarrow> bytes" where
  "pad_blocks bs d = d @ replicate ((length d + bs - 1) div bs * bs - length d) 0"

definition e2writeboot :: "bytes option \<Rightarrow> bytes option \<Rightarrow> bytes \<Rightarrow> u32 \<Rightarrow> int lib" where
  "e2writeboot fsfile infile raw t =
     lib_bind (ext2_init fsfile O_RDWR) (\<lambda>r.
     if r < 0 then lib_ret 1
     else
       case infile of
         None \<Rightarrow> lib_bind lib_close (\<lambda>_. lib_ret 1)
       | Some d \<Rightarrow>
           lib_bind (lib_get l_blocksize) (\<lambda>bs.
           if bs = 0 \<or> length d + bs \<ge> 2 ^ 31 then lib_fail
           else
             lib_bind (get_bootfile raw t) (\<lambda>ip.
             case ip of
               None \<Rightarrow> lib_ret 1
             | Some i \<Rightarrow>
                 lib_bind (write_bootstrap i (pad_blocks bs d) t) (\<lambda>r.
                 if r \<noteq> 0 then lib_ret r else lib_bind lib_close (\<lambda>_. lib_ret 0)))))"

subsection \<open>Data blocks\<close>

text \<open>Blocks that the bitmaps call free lie in the file, and the bitmaps are in allocated blocks.\<close>

definition disk_ok :: "e2lib \<Rightarrow> bool" where
  "disk_ok st \<longleftrightarrow> fs_ok st
     \<and> (\<forall>n. 0 < n \<and> n \<le> l_ngroups st * per_group st \<and> n \<notin> allocated st \<longrightarrow> usable (l_bio st) (int n))
     \<and> (\<forall>i < l_ngroups st. 0 < bitmap_block st i \<and> nat (bitmap_block st i) \<in> allocated st)"

lemma allocated_range:
  assumes "fs_ok st" "n \<in> allocated st"
  shows "0 < n \<and> n \<le> l_ngroups st * per_group st"
proof -
  have "0 < n" "(n - 1) div per_group st < l_ngroups st" "0 < per_group st" using assms by (auto simp: allocated_def fs_ok_def)
  then show ?thesis by (auto simp: div_less_iff_less_mult)
qed

definition data_block_ok :: "e2lib \<Rightarrow> int \<Rightarrow> bool" where
  "data_block_ok st b \<longleftrightarrow> usable (l_bio st) b \<and> b \<notin> bitmap_block st ` {..<l_ngroups st}"

lemma frame_bitmaps: "frame st st' \<Longrightarrow> bitmap_block st' ` {..<l_ngroups st'} = bitmap_block st ` {..<l_ngroups st}"
  by (rule image_cong) (use frame_bitmap in auto)

lemma frame_data_block: "frame st st' \<Longrightarrow> data_block_ok st b \<Longrightarrow> data_block_ok st' b \<and> block_view (l_bio st') b = block_view (l_bio st) b"
  using frame_bitmaps by (auto simp: data_block_ok_def frame_def)

lemma took_disk:
  assumes ok: "disk_ok st" and t: "took st B st'"
  shows "disk_ok st'" "n \<in> B \<Longrightarrow> 0 < n \<and> data_block_ok st' (int n)"
proof -
  have f: "frame st st'" "fs_ok st'" "B \<inter> allocated st = {}" "allocated st' = allocated st \<union> B" using t by (auto simp: took_def frame_def)
  note g = frame_bitmap [OF f(1)]
  have u: "usable (l_bio st') b" if "usable (l_bio st) b" for b using f(1) that by (simp add: frame_def)
  show "disk_ok st'" using ok f u g by (auto simp: disk_ok_def)
  assume n: "n \<in> B"
  then have r: "0 < n \<and> n \<le> l_ngroups st' * per_group st'" using allocated_range [OF f(2)] f(4) by blast
  moreover have "usable (l_bio st) (int n)" using ok n f(3) r g by (auto simp: disk_ok_def)
  moreover have "int n \<noteq> bitmap_block st' i" if "i < l_ngroups st'" for i
  proof
    assume "int n = bitmap_block st' i"
    then have "n = nat (bitmap_block st i)" using g that by simp
    moreover have "nat (bitmap_block st i) \<in> allocated st" using ok that g by (simp add: disk_ok_def)
    ultimately show False using n f(3) by blast
  qed
  ultimately show "0 < n \<and> data_block_ok st' (int n)" using u by (auto simp: data_block_ok_def)
qed

text \<open>Changes of the cache alone.\<close>

definition cached :: "e2lib \<Rightarrow> (int \<Rightarrow> bytes option) \<Rightarrow> e2lib \<Rightarrow> bool" where
  "cached st w st' \<longleftrightarrow> (\<exists>c. st' = st\<lparr>l_bio := c\<rparr>) \<and> disk_ok st' \<and> allocated st' = allocated st
     \<and> (\<forall>e. usable (l_bio st) e \<longrightarrow> usable (l_bio st') e \<and> block_view (l_bio st') e = (case w e of Some d \<Rightarrow> d | None \<Rightarrow> block_view (l_bio st) e))"

lemma store_step_cached:
  assumes ok: "disk_ok st" and b: "\<And>i. i < l_ngroups st \<Longrightarrow> d = block_view (l_bio st) b \<or> b \<noteq> bitmap_block st i"
    and s: "store_step (l_bio st) b d c"
  shows "cached st [b \<mapsto> d] (st\<lparr>l_bio := c\<rparr>)"
proof -
  let ?st = "st\<lparr>l_bio := c\<rparr>"
  have fs: "fs_ok st" using ok by (simp add: disk_ok_def)
  have p: "per_group ?st = per_group st" "bitmap_block ?st = bitmap_block st" by (simp_all add: per_group_def bitmap_block_def fun_eq_iff)
  have v: "usable c e \<and> block_view c e = (if e = b then d else block_view (l_bio st) e)" if "usable (l_bio st) e" for e
    using s that by (auto simp: store_step_def usable_def)
  have "fs_ok ?st" using fs s by (simp add: fs_ok_def store_step_def p)
  moreover have "group_map ?st i = group_map st i" if "i < l_ngroups st" for i
    using v [OF fs_okD(5) [OF fs that]] b [OF that] by (auto simp: group_map_def p)
  then have "allocated ?st = allocated st" by (auto simp: allocated_def p)
  ultimately show ?thesis using ok v by (auto simp: cached_def disk_ok_def p)
qed

lemma data_write:
  assumes ok: "disk_ok st" and b: "data_block_ok st b" and d: "length d = 1024"
  shows "\<exists>st'. blk_write b d st = Some ((), st') \<and> cached st [b \<mapsto> d] st'"
proof -
  have fs: "fs_ok st" using ok by (simp add: disk_ok_def)
  obtain c where c: "bio_bwrite b d (l_bio st) = Some c" "store_step (l_bio st) b d c"
    using bio_bwrite_ok [OF fs_okD(1) [OF fs], of b d] b d fs_okD(2) [OF fs] by (auto simp: data_block_ok_def)
  with store_step_cached [OF ok _ c(2)] b show ?thesis by (auto simp: blk_write_def data_block_ok_def)
qed

lemma data_read:
  assumes ok: "disk_ok st" and b: "usable (l_bio st) b"
  shows "\<exists>st'. blk_read b st = Some (block_view (l_bio st) b, st') \<and> cached st Map.empty st'"
proof -
  have fs: "fs_ok st" using ok by (simp add: disk_ok_def)
  obtain c where c: "bio_bread b (l_bio st) = Some (block_view (l_bio st) b, c)" "store_step (l_bio st) b (block_view (l_bio st) b) c"
    using bio_bread_ok [OF fs_okD(1) [OF fs] b] by blast
  have "cached st [b \<mapsto> block_view (l_bio st) b] (st\<lparr>l_bio := c\<rparr>)" using store_step_cached [OF ok _ c(2)] by blast
  then have "cached st Map.empty (st\<lparr>l_bio := c\<rparr>)" by (auto simp: cached_def)
  with c(1) show ?thesis by (auto simp: blk_read_def)
qed

lemma cachedD:
  assumes "cached st w st'"
  shows "disk_ok st'" "allocated st' = allocated st" "l_table st' = l_table st" "l_blocksize st' = l_blocksize st" "l_directlim st' = l_directlim st"
    "l_ind1lim st' = l_ind1lim st" "l_ind2lim st' = l_ind2lim st" "l_ptrs st' = l_ptrs st" "l_readonly st' = l_readonly st" "l_ngroups st' = l_ngroups st" "l_gds st' = l_gds st" "l_sb st' = l_sb st"
    "data_block_ok st b \<Longrightarrow> data_block_ok st' b"
    "usable (l_bio st) b \<Longrightarrow> usable (l_bio st') b \<and> block_view (l_bio st') b = (case w b of Some d \<Rightarrow> d | None \<Rightarrow> block_view (l_bio st) b)"
  using assms by (auto simp: cached_def data_block_ok_def bitmap_block_def)

subsection \<open>A file in consecutive blocks\<close>

lemma foldl_put:
  assumes "\<And>k. k \<in> set ks \<Longrightarrow> p k + 4 \<le> length d" and "\<And>j k. j \<in> set ks \<Longrightarrow> k \<in> set ks \<Longrightarrow> j \<noteq> k \<Longrightarrow> p j + 4 \<le> p k \<or> p k + 4 \<le> p j"
  shows "length (foldl (\<lambda>d k. put_le32 (p k) (w k) d) d ks) = length d
     \<and> (\<forall>k \<in> set ks. le32_at (foldl (\<lambda>d k. put_le32 (p k) (w k) d) d ks) (p k) = w k)
     \<and> (\<forall>a. (\<forall>k \<in> set ks. a + 4 \<le> p k \<or> p k + 4 \<le> a) \<longrightarrow> le32_at (foldl (\<lambda>d k. put_le32 (p k) (w k) d) d ks) a = le32_at d a)
     \<and> (\<forall>a. (\<forall>k \<in> set ks. a + 2 \<le> p k \<or> p k + 4 \<le> a) \<longrightarrow> le16_at (foldl (\<lambda>d k. put_le32 (p k) (w k) d) d ks) a = le16_at d a)"
  using assms
proof (induction ks rule: rev_induct)
  case (snoc x xs)
  let ?d = "foldl (\<lambda>d k. put_le32 (p k) (w k) d) d xs"
  have ih: "length ?d = length d" "\<forall>k \<in> set xs. le32_at ?d (p k) = w k"
    "\<forall>a. (\<forall>k \<in> set xs. a + 4 \<le> p k \<or> p k + 4 \<le> a) \<longrightarrow> le32_at ?d a = le32_at d a"
    "\<forall>a. (\<forall>k \<in> set xs. a + 2 \<le> p k \<or> p k + 4 \<le> a) \<longrightarrow> le16_at ?d a = le16_at d a"
    using snoc.IH snoc.prems by auto
  have x: "p x + 4 \<le> length ?d" using snoc.prems(1) ih(1) by simp
  have "le32_at (put_le32 (p x) (w x) ?d) (p k) = w k" if "k \<in> set (xs @ [x])" for k
  proof (cases "k = x")
    case False
    then show ?thesis using that ih(2) x snoc.prems(2) [of k x] by (simp add: le_put_other)
  qed (use x in \<open>simp add: le_put\<close>)
  then show ?case using ih x by (simp add: le_put_other)
qed simp

lemmas foldl_put_simps = foldl_put [THEN conjunct1] foldl_put [THEN conjunct2, THEN conjunct1, rule_format]
  foldl_put [THEN conjunct2, THEN conjunct2, THEN conjunct1, rule_format] foldl_put [THEN conjunct2, THEN conjunct2, THEN conjunct2, rule_format]

lemma indirect_table_fold:
  assumes "n \<le> 268"
  shows "length (indirect_table 1024 n r) = 1024 \<and> (\<forall>k \<in> set [12..<n]. le32_at (indirect_table 1024 n r) (4 * (k - 12)) = word_of_int (r + int k))"
  using foldl_put [where p = "\<lambda>k. 4 * (k - 12)" and ks = "[12..<n]" and d = "replicate 1024 0" and w = "\<lambda>k. word_of_int (r + int k)"] assms
  unfolding indirect_table_def EXT2_NDIR_BLOCKS_def by fastforce

lemma indirect_table_length: "n \<le> 268 \<Longrightarrow> length (indirect_table 1024 n r) = 1024"
  using indirect_table_fold by blast

lemma indirect_table_entry: "n \<le> 268 \<Longrightarrow> 12 \<le> k \<Longrightarrow> k < n \<Longrightarrow> le32_at (indirect_table 1024 n r) (4 * (k - 12)) = word_of_int (r + int k)"
  using indirect_table_fold by force

definition geometry :: "e2lib \<Rightarrow> bool" where
  "geometry st \<longleftrightarrow> l_directlim st = 11 \<and> l_ptrs st = 256 \<and> l_ind1lim st = 267"

definition slot_ip :: "e2lib \<Rightarrow> nat \<Rightarrow> bytes" where
  "slot_ip st i = slot_inode (l_table st ! i)"

text \<open>The first \<open>n\<close> blocks of the inode in slot \<open>i\<close> are the blocks from \<open>r\<close> on.\<close>

definition mapped :: "e2lib \<Rightarrow> nat \<Rightarrow> int \<Rightarrow> nat \<Rightarrow> bool" where
  "mapped st i r n \<longleftrightarrow> geometry st \<and> n \<le> 267 \<and> 0 < r \<and> r + int n < 2 ^ 31
     \<and> (\<forall>k < min n 12. i_block (slot_ip st i) k = word_of_int (r + int k))
     \<and> (\<forall>k < n. data_block_ok st (r + int k))
     \<and> (12 < n \<longrightarrow> (let b = sint (i_block (slot_ip st i) 12) in 0 < b \<and> data_block_ok st b \<and> b \<notin> {r..<r + int n}
          \<and> (\<forall>k. 12 \<le> k \<and> k < n \<longrightarrow> le32_at (block_view (l_bio st) b) (4 * (k - 12)) = word_of_int (r + int k))))"

lemma mapped_word: "mapped st i r n \<Longrightarrow> k < n \<Longrightarrow> sint (word_of_int (r + int k) :: u32) = r + int k"
  by (rule sint_word_of_int_pos) (auto simp: mapped_def)

lemma cached_empty_refl: "disk_ok st \<Longrightarrow> cached st Map.empty st"
  by (auto simp: cached_def intro: exI [of _ "l_bio st"])

lemma lib_blkno_mapped:
  assumes ok: "disk_ok st" and m: "mapped st i r n" and k: "k < n" and ro: "alloc \<longrightarrow> \<not> l_readonly st"
  shows "\<exists>st'. lib_blkno i k alloc st = Some (r + int k, st') \<and> cached st Map.empty st'"
proof (cases "k < 12")
  case True
  have b: "i_block (slot_inode (l_table st ! i)) k = word_of_int (r + int k)" using m k True by (simp add: mapped_def slot_ip_def)
  moreover have nz: "(word_of_int (r + int k) :: u32) \<noteq> 0" using mapped_word [OF m k] m by (auto simp: mapped_def)
  ultimately show ?thesis
    using True ro m mapped_word [OF m k] cached_empty_refl [OF ok] by (auto simp: lib_blkno_def lib_simps mapped_def geometry_def inode_of_def)
next
  case False
  define b where "b = sint (i_block (slot_ip st i) 12)"
  have b: "0 < b" "data_block_ok st b" "le32_at (block_view (l_bio st) b) (4 * (k - 12)) = word_of_int (r + int k)"
    using m False k by (auto simp: mapped_def Let_def b_def)
  have fs: "fs_ok st" using ok by (simp add: disk_ok_def)
  obtain st' where st': "blk_read b st = Some (block_view (l_bio st) b, st')" "cached st Map.empty st'"
    using data_read [OF ok, of b] b(2) by (auto simp: data_block_ok_def)
  have len: "length (block_view (l_bio st) b) = 1024" using length_block_view [OF fs_okD(1) [OF fs], of b] b(2) fs_okD(2) [OF fs] by (simp add: data_block_ok_def)
  have g: "l_directlim st = 11" "l_ind1lim st = 267" "n \<le> 267" using m by (simp_all add: mapped_def geometry_def)
  have p: "ptr_at (block_view (l_bio st) b) (int (k - 12)) = r + int k" using b(3) mapped_word [OF m k] by (simp add: ptr_at_def)
  have nz: "r + int k \<noteq> 0" using m by (auto simp: mapped_def)
  have t: "inode_table_block i alloc EXT2_IND_BLOCK st = Some (b, st)"
    using b(1) by (simp add: inode_table_block_def lib_simps inode_of_def EXT2_IND_BLOCK_def Let_def b_def slot_ip_def)
  have e: "table_entry i alloc False True b (k - 12) st = Some (r + int k, st')"
    using st'(1) len g(3) k p nz by (simp add: table_entry_def lib_simps Let_def)
  have "lib_blkno i k alloc st = Some (r + int k, st')"
    using False k g ro t e b(1) by (cases alloc) (simp_all add: lib_blkno_def lib_simps)
  with st'(2) show ?thesis by blast
qed


subsection \<open>Filling a file\<close>

text \<open>What the steps of the installation keep, and the blocks \<open>A\<close> they allocate.\<close>

definition grown :: "e2lib \<Rightarrow> nat set \<Rightarrow> e2lib \<Rightarrow> bool" where
  "grown st A st' \<longleftrightarrow> disk_ok st' \<and> A \<inter> allocated st = {} \<and> allocated st' = allocated st \<union> A
     \<and> bitmap_block st' ` {..<l_ngroups st'} = bitmap_block st ` {..<l_ngroups st} \<and> (\<forall>b. usable (l_bio st) b \<longrightarrow> usable (l_bio st') b)
     \<and> l_directlim st' = l_directlim st \<and> l_ind1lim st' = l_ind1lim st \<and> l_ptrs st' = l_ptrs st \<and> l_readonly st' = l_readonly st"

lemma grown_trans: "grown st A st1 \<Longrightarrow> grown st1 B st2 \<Longrightarrow> grown st (A \<union> B) st2"
  by (auto simp: grown_def)

lemma grown_data_block: "grown st A st' \<Longrightarrow> data_block_ok st b \<Longrightarrow> data_block_ok st' b"
  by (simp add: grown_def data_block_ok_def)

lemma grown_geometry: "grown st A st' \<Longrightarrow> geometry st' = geometry st"
  by (simp add: grown_def geometry_def)

lemma took_grown: "disk_ok st \<Longrightarrow> took st B st' \<Longrightarrow> grown st B st'"
  using took_disk(1) [of st B st'] frame_bitmaps [of st st'] by (auto simp: grown_def took_def frame_def)

lemma cached_grown: "cached st w st' \<Longrightarrow> grown st {} st'"
  using cachedD [of st w st'] by (auto simp: grown_def bitmap_block_def)

lemma table_update [simp]:
  "per_group (st\<lparr>l_table := T\<rparr>) = per_group st" "bitmap_block (st\<lparr>l_table := T\<rparr>) = bitmap_block st" "group_map (st\<lparr>l_table := T\<rparr>) = group_map st"
  "geometry (st\<lparr>l_table := T\<rparr>) = geometry st"
  by (simp_all add: per_group_def bitmap_block_def group_map_def geometry_def fun_eq_iff)

lemma table_update_ok [simp]:
  "fs_ok (st\<lparr>l_table := T\<rparr>) = fs_ok st" "allocated (st\<lparr>l_table := T\<rparr>) = allocated st" "data_block_ok (st\<lparr>l_table := T\<rparr>) b = data_block_ok st b"
  by (simp_all add: fs_ok_def allocated_def data_block_ok_def)

lemma table_update_disk [simp]: "disk_ok (st\<lparr>l_table := T\<rparr>) = disk_ok st"
  by (simp add: disk_ok_def)

lemma table_grown: "disk_ok st \<Longrightarrow> grown st {} (st\<lparr>l_table := T\<rparr>)"
  by (simp add: grown_def)

definition slot_ok :: "e2lib \<Rightarrow> nat \<Rightarrow> bool" where
  "slot_ok st i \<longleftrightarrow> i < length (l_table st) \<and> length (slot_ip st i) = 128"

lemma set_inode_step:
  "set_inode i g st = Some ((), st\<lparr>l_table := (l_table st)[i := (l_table st ! i)\<lparr>slot_inode := g (slot_ip st i)\<rparr>]\<rparr>)"
  by (simp add: set_inode_def set_slot_def lib_simps slot_ip_def)

lemma set_inode_ok:
  assumes "disk_ok st" "slot_ok st i"
  obtains st' where "set_inode i g st = Some ((), st')" "grown st {} st'" "slot_ip st' i = g (slot_ip st i)" "i < length (l_table st')"
    "\<forall>b. block_view (l_bio st') b = block_view (l_bio st) b" "l_blocksize st' = l_blocksize st"
proof
  show "set_inode i g st = Some ((), st\<lparr>l_table := (l_table st)[i := (l_table st ! i)\<lparr>slot_inode := g (slot_ip st i)\<rparr>]\<rparr>)" by (rule set_inode_step)
qed (use assms in \<open>auto simp: table_grown slot_ok_def slot_ip_def\<close>)

lemma fill_inode:
  assumes "length ip = 128" "m \<le> 12" and ip'_def: "ip' = foldl (\<lambda>ip k. set_i_block k (word_of_int (r + int k)) ip) ip [0..<m]"
  shows "length ip' = 128" "k < m \<Longrightarrow> i_block ip' k = word_of_int (r + int k)" "m \<le> k \<Longrightarrow> k < 15 \<Longrightarrow> i_block ip' k = i_block ip k"
proof -
  have "\<And>j k. j \<noteq> k \<Longrightarrow> 40 + 4 * j + 4 \<le> 40 + 4 * k \<or> 40 + 4 * k + 4 \<le> 40 + 4 * (j :: nat)" by linarith
  then have f: "length ip' = length ip \<and> (\<forall>k \<in> set [0..<m]. le32_at ip' (40 + 4 * k) = word_of_int (r + int k))
    \<and> (\<forall>a. (\<forall>k \<in> set [0..<m]. a + 4 \<le> 40 + 4 * k \<or> 40 + 4 * k + 4 \<le> a) \<longrightarrow> le32_at ip' a = le32_at ip a)"
    using foldl_put [where p = "\<lambda>k. 40 + 4 * k" and ks = "[0..<m]" and d = ip and w = "\<lambda>k. word_of_int (r + int k)"] assms(1,2)
    unfolding ip'_def set_i_block_def by force
  then show "length ip' = 128" "k < m \<Longrightarrow> i_block ip' k = word_of_int (r + int k)" using assms(1) by (simp_all add: i_block_def)
  assume "m \<le> k" "k < 15"
  then show "i_block ip' k = i_block ip k" using f by (force simp: i_block_def)
qed

lemma run_in_range:
  assumes g: "grown st {nat r..<nat r + n} st'" and r: "0 < r" "0 < n"
  shows "r + int n < 2 ^ 31"
proof -
  have fs: "fs_ok st'" using g by (simp add: grown_def disk_ok_def)
  have "nat r + n - 1 \<in> allocated st'" using g r by (auto simp: grown_def)
  from allocated_range [OF fs this] have "nat r + n - 1 \<le> l_ngroups st' * per_group st'" by simp
  moreover have "l_ngroups st' * per_group st' < 2 ^ 31 - 1" using fs by (simp add: fs_ok_def)
  ultimately have "nat r + n < 2 ^ 31" by simp
  then show ?thesis using r(1) by (simp add: nat_less_iff [symmetric] nat_add_distrib)
qed

lemma took_run:
  assumes "disk_ok st" "took st {nat r..<nat r + n} st'" "0 < r" "k < n"
  shows "data_block_ok st' (r + int k)"
proof -
  have "nat (r + int k) \<in> {nat r..<nat r + n}" using assms(3,4) by auto
  from took_disk(2) [OF assms(1,2) this] show ?thesis using assms(3) by simp
qed

lemma i_block_set: "length ip = 128 \<Longrightarrow> j < 15 \<Longrightarrow> k < 15 \<Longrightarrow> i_block (set_i_block j w ip) k = (if j = k then w else i_block ip k)"
  using words_apart [of k j] by (auto simp: i_block_def set_i_block_def le_put le_put_other)

lemma inode_len [simp]:
  "length ip = 128 \<Longrightarrow> length (set_i_blocks w ip) = 128" "length ip = 128 \<Longrightarrow> length (set_i_size w ip) = 128"
  "length ip = 128 \<Longrightarrow> length (set_i_mtime w ip) = 128" "length ip = 128 \<Longrightarrow> k < 15 \<Longrightarrow> length (set_i_block k w ip) = 128"
  by (simp_all add: set_i_blocks_def set_i_size_def set_i_mtime_def set_i_block_def)

lemma i_block_size [simp]:
  "length ip = 128 \<Longrightarrow> i_block (set_i_size w ip) k = i_block ip k" "length ip = 128 \<Longrightarrow> i_block (set_i_mtime w ip) k = i_block ip k"
  by (simp_all add: i_block_def set_i_size_def set_i_mtime_def le_put_other)

lemma slot_okI: "i < length (l_table st) \<Longrightarrow> slot_ip st i = ip \<Longrightarrow> length ip = 128 \<Longrightarrow> slot_ok st i"
  by (simp add: slot_ok_def)

text \<open>The last steps, when the blocks of the file and the indirect block are there.\<close>

lemma fill_fields:
  assumes ok: "disk_ok st" "slot_ok st i" and n: "n \<le> 267"
  obtains st1 st' where "set_inode i (set_i_size w) st = Some ((), st1)"
    "set_inode i (\<lambda>ip. foldl (\<lambda>ip k. set_i_block k (word_of_int (r + int k)) ip) ip [0..<min n (nat EXT2_NDIR_BLOCKS)]) st1 = Some ((), st')"
    "grown st {} st'" "slot_ok st' i" "\<forall>k < min n 12. i_block (slot_ip st' i) k = word_of_int (r + int k)" "i_block (slot_ip st' i) 12 = i_block (slot_ip st i) 12"
    "\<forall>b. block_view (l_bio st') b = block_view (l_bio st) b"
proof -
  obtain st1 where st1: "set_inode i (set_i_size w) st = Some ((), st1)" "grown st {} st1" "slot_ip st1 i = set_i_size w (slot_ip st i)" "i < length (l_table st1)"
    "\<forall>b. block_view (l_bio st1) b = block_view (l_bio st) b" by (rule set_inode_ok [OF ok])
  have l: "length (slot_ip st i) = 128" using ok(2) by (simp add: slot_ok_def)
  have ok1: "disk_ok st1" "slot_ok st1 i" using st1 l by (auto simp: grown_def slot_ok_def)
  obtain st2 where st2: "set_inode i (\<lambda>ip. foldl (\<lambda>ip k. set_i_block k (word_of_int (r + int k)) ip) ip [0..<min n (nat EXT2_NDIR_BLOCKS)]) st1 = Some ((), st2)"
    "grown st1 {} st2" "slot_ip st2 i = foldl (\<lambda>ip k. set_i_block k (word_of_int (r + int k)) ip) (slot_ip st1 i) [0..<min n (nat EXT2_NDIR_BLOCKS)]"
    "i < length (l_table st2)" "\<forall>b. block_view (l_bio st2) b = block_view (l_bio st1) b" by (rule set_inode_ok [OF ok1])
  have e: "slot_ip st2 i = foldl (\<lambda>ip k. set_i_block k (word_of_int (r + int k)) ip) (slot_ip st1 i) [0..<min n 12]" using st2(3) by (simp add: EXT2_NDIR_BLOCKS_def)
  have l1: "length (slot_ip st1 i) = 128" using ok1(2) by (simp add: slot_ok_def)
  note f = fill_inode [OF l1 _ e]
  show ?thesis
  proof (rule that [OF st1(1) st2(1)])
    show "grown st {} st2" using grown_trans [OF st1(2) st2(2)] by simp
    show "slot_ok st2 i" using st2(4) f(1) by (simp add: slot_ok_def)
    show "i_block (slot_ip st2 i) 12 = i_block (slot_ip st i) 12" using f(3) [of 12] st1(3) l by simp
  qed (use st1(5) st2(5) f(2) in auto)
qed

text \<open>The three ways the routine ends: no run of blocks, no block for the indirect block, and success.\<close>

lemma fill_none:
  assumes ok: "disk_ok st" and c: "267 < n \<or> (\<exists>st1. ext2_contiguous_balloc n st = Some (0, st1))" and g: "geometry st"
  shows "\<exists>st'. ext2_fill_contiguous i n st = Some (- 1, st') \<and> grown st {} st'"
proof (cases "267 < n")
  case True
  then show ?thesis using g ok by (simp add: ext2_fill_contiguous_def lib_simps geometry_def grown_def)
next
  case False
  obtain r st1 where "ext2_contiguous_balloc n st = Some (r, st1)" "r = 0 \<and> took st {} st1 \<or> 0 < r \<and> took st {nat r..<nat r + n} st1"
    using contiguous_balloc_ok [of st n] ok by (auto simp: disk_ok_def)
  with False c g took_grown [OF ok] show ?thesis by (auto simp: ext2_fill_contiguous_def lib_simps geometry_def)
qed

lemma fill_direct:
  assumes ok: "disk_ok st" "slot_ok st i" and g: "geometry st" and n: "0 < n" "n \<le> 11" and c: "ext2_contiguous_balloc n st = Some (r, st1)" "r \<noteq> 0"
  shows "\<exists>st'. ext2_fill_contiguous i n st = Some (r, st') \<and> grown st {nat r..<nat r + n} st' \<and> slot_ok st' i \<and> mapped st' i r n"
proof -
  have t: "took st {nat r..<nat r + n} st1" "0 < r" using contiguous_balloc_ok [of st n] ok(1) c by (auto simp: disk_ok_def)
  note g1 = took_grown [OF ok(1) t(1)]
  have s1: "slot_ok st1 i" "disk_ok st1" "slot_ip st1 i = slot_ip st i" using ok(2) t(1) g1 by (auto simp: slot_ok_def slot_ip_def took_def frame_def grown_def)
  obtain st2 where st2: "set_inode i (set_i_blocks (of_nat (n * (l_blocksize st div 512)))) st1 = Some ((), st2)" "grown st1 {} st2"
    "slot_ip st2 i = set_i_blocks (of_nat (n * (l_blocksize st div 512))) (slot_ip st1 i)" "i < length (l_table st2)"
    by (rule set_inode_ok [OF s1(2,1)])
  have s2: "disk_ok st2" "slot_ok st2 i" using st2 s1 by (auto simp: grown_def slot_ok_def)
  obtain st3 st' where st': "set_inode i (set_i_size (of_nat (n * l_blocksize st))) st2 = Some ((), st3)"
    "set_inode i (\<lambda>ip. foldl (\<lambda>ip k. set_i_block k (word_of_int (r + int k)) ip) ip [0..<min n (nat EXT2_NDIR_BLOCKS)]) st3 = Some ((), st')"
    "grown st2 {} st'" "slot_ok st' i" "\<forall>k < min n 12. i_block (slot_ip st' i) k = word_of_int (r + int k)"
    by (rule fill_fields [OF s2, of n]) (use n in simp)
  have gr: "grown st1 {} st'" using grown_trans [OF st2(2) st'(3)] by simp
  then have gr': "grown st {nat r..<nat r + n} st'" using grown_trans [OF g1, of "{}" st'] by simp
  have "data_block_ok st' (r + int k)" if "k < n" for k using grown_data_block [OF gr] took_run [OF ok(1) t that] by blast
  then have "mapped st' i r n" using st'(5) n t(2) run_in_range [OF gr' t(2) n(1)] grown_geometry [OF gr'] g by (simp add: mapped_def)
  moreover have "ext2_fill_contiguous i n st = Some (r, st')" using c n g st'(1,2) st2(1) by (simp add: ext2_fill_contiguous_def lib_simps geometry_def)
  ultimately show ?thesis using gr' st'(4) by blast
qed

text \<open>The indirect block \<open>b\<close> is entered in the inode and filled.\<close>

lemma fill_indirect_block:
  assumes s: "disk_ok st" "slot_ok st i" "data_block_ok st b" and n: "n \<le> 267"
  obtains s1 s2 s3 s4 st' where "add_i_blocks i st = Some ((), s1)" "set_inode i (set_i_block EXT2_IND_BLOCK (word_of_int b)) s1 = Some ((), s2)"
    "set_inode i (set_i_size w) s2 = Some ((), s3)"
    "set_inode i (\<lambda>ip. foldl (\<lambda>ip k. set_i_block k (word_of_int (r + int k)) ip) ip [0..<min n (nat EXT2_NDIR_BLOCKS)]) s3 = Some ((), s4)"
    "blk_write b (indirect_table 1024 n r) s4 = Some ((), st')" "grown st {} st'" "slot_ok st' i"
    "\<forall>k < min n 12. i_block (slot_ip st' i) k = word_of_int (r + int k)" "i_block (slot_ip st' i) 12 = word_of_int b"
    "block_view (l_bio st') b = indirect_table 1024 n r"
proof -
  have a: "add_i_blocks i st = set_inode i (\<lambda>ip. set_i_blocks (i_blocks ip + of_nat (l_blocksize st div 512)) ip) st" by (simp add: add_i_blocks_def lib_simps)
  obtain s1 where s1: "add_i_blocks i st = Some ((), s1)" "grown st {} s1"
    "slot_ip s1 i = set_i_blocks (i_blocks (slot_ip st i) + of_nat (l_blocksize st div 512)) (slot_ip st i)" "i < length (l_table s1)"
    unfolding a by (rule set_inode_ok [OF s(1,2)])
  have ok1: "disk_ok s1" "slot_ok s1 i" using s1 s(2) by (auto simp: grown_def slot_ok_def)
  obtain s2 where s2: "set_inode i (set_i_block EXT2_IND_BLOCK (word_of_int b)) s1 = Some ((), s2)" "grown s1 {} s2"
    "slot_ip s2 i = set_i_block EXT2_IND_BLOCK (word_of_int b) (slot_ip s1 i)" "i < length (l_table s2)" by (rule set_inode_ok [OF ok1])
  have ok2: "disk_ok s2" "slot_ok s2 i" "i_block (slot_ip s2 i) 12 = word_of_int b"
    using s2 ok1(2) by (auto simp: grown_def slot_ok_def EXT2_IND_BLOCK_def i_block_set)
  obtain s3 s4 where s4: "set_inode i (set_i_size w) s2 = Some ((), s3)"
    "set_inode i (\<lambda>ip. foldl (\<lambda>ip k. set_i_block k (word_of_int (r + int k)) ip) ip [0..<min n (nat EXT2_NDIR_BLOCKS)]) s3 = Some ((), s4)"
    "grown s2 {} s4" "slot_ok s4 i" "\<forall>k < min n 12. i_block (slot_ip s4 i) k = word_of_int (r + int k)" "i_block (slot_ip s4 i) 12 = i_block (slot_ip s2 i) 12"
    by (rule fill_fields [OF ok2(1,2) n])
  have g4: "grown st {} s4" using grown_trans [OF grown_trans [OF s1(2) s2(2)] s4(3)] by simp
  have ok4: "disk_ok s4" using g4 by (simp add: grown_def)
  have len: "length (indirect_table 1024 n r) = 1024" using n by (intro indirect_table_length) simp
  obtain st' where st': "blk_write b (indirect_table 1024 n r) s4 = Some ((), st')" "cached s4 [b \<mapsto> indirect_table 1024 n r] st'"
    using data_write [OF ok4 grown_data_block [OF g4 s(3)] len] by blast
  have u: "usable (l_bio s4) b" using grown_data_block [OF g4 s(3)] by (simp add: data_block_ok_def)
  have "l_table st' = l_table s4" using cachedD(3) [OF st'(2)] by simp
  then have ip: "slot_ip st' i = slot_ip s4 i" "slot_ok st' i" using s4(4) by (simp_all add: slot_ip_def slot_ok_def)
  show ?thesis
    by (rule that [OF s1(1) s2(1) s4(1,2) st'(1)])
      (use grown_trans [OF g4 cached_grown [OF st'(2)]] ip s4(5,6) ok2(3) cachedD(14) [OF st'(2) u] in auto)
qed

lemma set_inode_grown:
  assumes "disk_ok st" "slot_ok st i" "set_inode i g st = Some ((), st')" "length (g (slot_ip st i)) = 128"
  shows "grown st {} st'" "slot_ok st' i" "slot_ip st' i = g (slot_ip st i)"
proof -
  obtain st1 where st1: "set_inode i g st = Some ((), st1)" "grown st {} st1" "slot_ip st1 i = g (slot_ip st i)" "i < length (l_table st1)"
    by (rule set_inode_ok [OF assms(1,2)])
  then show "grown st {} st'" "slot_ok st' i" "slot_ip st' i = g (slot_ip st i)" using assms(3,4) by (auto simp: slot_ok_def)
qed

lemma took_slot: "took st B st' \<Longrightarrow> slot_ok st i \<Longrightarrow> slot_ok st' i"
  by (simp add: took_def frame_def slot_ok_def slot_ip_def)

lemma fill_indirect:
  assumes ok: "disk_ok st" "slot_ok st i" and g: "geometry st" and n: "11 < n" "n \<le> 267" and c: "ext2_contiguous_balloc n st = Some (r, st1)" "r \<noteq> 0"
    and st2: "set_inode i (set_i_blocks (of_nat (n * (l_blocksize st div 512)))) st1 = Some ((), st2)" and b: "ext2_balloc st2 = Some (b, st3)" "b \<noteq> 0"
  shows "\<exists>st'. ext2_fill_contiguous i n st = Some (r, st') \<and> grown st ({nat r..<nat r + n} \<union> {nat b}) st' \<and> slot_ok st' i \<and> mapped st' i r n"
proof -
  let ?R = "{nat r..<nat r + n}"
  have t: "took st ?R st1" "0 < r" using contiguous_balloc_ok [of st n] ok(1) c by (auto simp: disk_ok_def)
  note g1 = took_grown [OF ok(1) t(1)]
  have s1: "disk_ok st1" "slot_ok st1 i" using g1 took_slot [OF t(1) ok(2)] by (simp_all add: grown_def)
  have g2: "grown st1 {} st2" "slot_ok st2 i" by (rule set_inode_grown [OF s1 st2], use s1(2) in \<open>simp add: slot_ok_def\<close>)+
  have g12: "grown st ?R st2" using grown_trans [OF g1 g2(1)] by simp
  have ok2: "disk_ok st2" "fs_ok st2" using g2(1) by (auto simp: grown_def disk_ok_def)
  have tb: "took st2 {nat b} st3" "0 < b" using ext2_balloc_ok [OF ok2(2)] b by auto
  note g3 = took_grown [OF ok2(1) tb(1)]
  have s3: "disk_ok st3" "slot_ok st3 i" "data_block_ok st3 b"
    using g3 took_slot [OF tb(1) g2(2)] took_disk(2) [OF ok2(1) tb(1), of "nat b"] tb(2) by (simp_all add: grown_def)
  obtain s1 s2 s3 s4 st' where st': "add_i_blocks i st3 = Some ((), s1)" "set_inode i (set_i_block EXT2_IND_BLOCK (word_of_int b)) s1 = Some ((), s2)"
    "set_inode i (set_i_size (of_nat (n * l_blocksize st))) s2 = Some ((), s3)"
    "set_inode i (\<lambda>ip. foldl (\<lambda>ip k. set_i_block k (word_of_int (r + int k)) ip) ip [0..<min n (nat EXT2_NDIR_BLOCKS)]) s3 = Some ((), s4)"
    "blk_write b (indirect_table 1024 n r) s4 = Some ((), st')" "grown st3 {} st'" "slot_ok st' i"
    "\<forall>k < min n 12. i_block (slot_ip st' i) k = word_of_int (r + int k)" "i_block (slot_ip st' i) 12 = word_of_int b"
    "block_view (l_bio st') b = indirect_table 1024 n r" by (rule fill_indirect_block [OF s3 n(2)])
  have gb: "grown st2 {nat b} st'" using grown_trans [OF g3 st'(6)] by simp
  note gr = grown_trans [OF g12 gb]
  have bs: "l_blocksize st = 1024" using ok(1) by (simp add: disk_ok_def fs_ok_def)
  have "data_block_ok st' (r + int k)" if "k < n" for k
    using grown_data_block [OF gb] grown_data_block [OF g2(1)] took_run [OF ok(1) t that] by blast
  moreover have "b \<notin> {r..<r + int n}"
  proof
    assume "b \<in> {r..<r + int n}"
    then have "nat b \<in> allocated st2" using g12 t(2) by (auto simp: grown_def)
    then show False using tb(1) by (simp add: took_def)
  qed
  moreover have "sint (word_of_int b :: u32) = b"
    using run_in_range [of st2 b 1 st'] gb tb(2) by (intro sint_word_of_int_pos) (auto simp: atLeastLessThanSuc)
  moreover have "r + int n < 2 ^ 31" using run_in_range [OF g1 t(2)] n by simp
  ultimately have "mapped st' i r n"
    using st'(8,9,10) n t(2) tb(2) grown_data_block [OF st'(6) s3(3)] grown_geometry [OF gr] g indirect_table_entry [of n _ r] by (simp add: mapped_def)
  moreover have "ext2_fill_contiguous i n st = Some (r, st')"
    using c n g st2 b st'(1-5) bs by (simp add: ext2_fill_contiguous_def lib_simps geometry_def)
  ultimately show ?thesis using gr st'(7) by blast
qed

subsection \<open>Writing the file\<close>

lemma cached_cong: "cached st v st' \<Longrightarrow> v = w \<Longrightarrow> cached st w st'"
  by simp

lemma cached_trans:
  assumes "cached st v st1" "cached st1 w st2"
  shows "cached st (v ++ w) st2"
  using assms by (auto simp: cached_def map_add_def split: option.splits)

lemma cached_slot: "cached st w st' \<Longrightarrow> slot_ip st' i = slot_ip st i"
  using cachedD(3) [of st w st'] by (simp add: slot_ip_def)

lemma mapped_cached:
  assumes m: "mapped st i r n" and c: "cached st w st'" and w: "dom w \<subseteq> {r..<r + int n}"
  shows "mapped st' i r n"
proof -
  note g = cached_grown [OF c]
  have v: "block_view (l_bio st') b = block_view (l_bio st) b" if "data_block_ok st b" "b \<notin> {r..<r + int n}" for b
  proof -
    have "w b = None" using w that(2) by blast
    then show ?thesis using cachedD(14) [OF c, of b] that(1) by (simp add: data_block_ok_def)
  qed
  show ?thesis using m v grown_data_block [OF g] grown_geometry [OF g] cached_slot [OF c, of i] by (auto simp: mapped_def Let_def)
qed

lemma write_loop:
  assumes ok: "disk_ok st" and m: "mapped st i r n" and ro: "\<not> l_readonly st" and d: "length d = n * 1024" and l: "l \<le> n"
  shows "\<exists>st'. for_each (\<lambda>k. lib_bwrite i k (slice (k * 1024) 1024 d)) [n - l..<n] st = Some ((), st')
     \<and> cached st (\<lambda>b. if r + int (n - l) \<le> b \<and> b < r + int n then Some (slice (nat (b - r) * 1024) 1024 d) else None) st'"
  using ok m ro l
proof (induction l arbitrary: st)
  case 0
  have "cached st (\<lambda>b. if r + int n \<le> b \<and> b < r + int n then Some (slice (nat (b - r) * 1024) 1024 d) else None) st"
    by (rule cached_cong [OF cached_empty_refl [OF 0(1)]]) auto
  then show ?case by (simp add: lib_simps)
next
  case (Suc l)
  let ?k = "n - Suc l"
  have k: "?k < n" "[?k..<n] = ?k # [n - l..<n]" using Suc.prems(4) by (simp_all add: upt_conv_Cons Suc_diff_Suc)
  obtain s1 where s1: "lib_blkno i ?k True st = Some (r + int ?k, s1)" "cached st Map.empty s1"
    using lib_blkno_mapped [OF Suc.prems(1,2) k(1)] Suc.prems(3) by blast
  have ok1: "disk_ok s1" "l_readonly s1 = l_readonly st" using cachedD [OF s1(2)] by simp_all
  have b: "data_block_ok s1 (r + int ?k)" using Suc.prems(2) k(1) cachedD(13) [OF s1(2)] by (simp add: mapped_def)
  have len: "length (slice (?k * 1024) 1024 d) = 1024" using d k(1) by (simp add: slice_def)
  obtain s2 where s2: "blk_write (r + int ?k) (slice (?k * 1024) 1024 d) s1 = Some ((), s2)" "cached s1 [r + int ?k \<mapsto> slice (?k * 1024) 1024 d] s2"
    using data_write [OF ok1(1) b len] by blast
  note c = cached_trans [OF s1(2) s2(2)]
  have "mapped s2 i r n" using mapped_cached [OF Suc.prems(2) c] k(1) by auto
  moreover have "disk_ok s2" "\<not> l_readonly s2" using cachedD [OF c] Suc.prems(3) by simp_all
  ultimately obtain st' where st': "for_each (\<lambda>k. lib_bwrite i k (slice (k * 1024) 1024 d)) [n - l..<n] s2 = Some ((), st')"
    "cached s2 (\<lambda>b. if r + int (n - l) \<le> b \<and> b < r + int n then Some (slice (nat (b - r) * 1024) 1024 d) else None) st'"
    using Suc.IH [of s2] Suc.prems(4) by auto
  have "r \<noteq> - int ?k" using Suc.prems(2) by (auto simp: mapped_def)
  then have "for_each (\<lambda>k. lib_bwrite i k (slice (k * 1024) 1024 d)) [?k..<n] st = Some ((), st')"
    using s1(1) s2(1) st'(1) Suc.prems(3) by (simp add: k(2) lib_bwrite_def lib_simps)
  moreover have e: "nat (int n - (1 + int l)) = n - Suc l" by linarith
  have "cached st (\<lambda>b. if r + int ?k \<le> b \<and> b < r + int n then Some (slice (nat (b - r) * 1024) 1024 d) else None) st'"
    by (rule cached_cong [OF cached_trans [OF c st'(2)]]) (use Suc.prems(4) in \<open>auto simp: map_add_def fun_eq_iff e\<close>)
  ultimately show ?case by blast
qed

subsection \<open>The boot block\<close>

lemma make_bootblock_fields:
  assumes "512 \<le> bs"
  shows "length (make_bootblock bs c l) = bs" "bb_count (make_bootblock bs c l) = c" "bb_lbn (make_bootblock bs c l) = l" "bb_flags (make_bootblock bs c l) = 0"
    "boot_sector_ok (make_bootblock bs c l)"
proof -
  define b where "b = put_le64 496 0 (put_le64 488 l (put_le64 480 c (replicate bs 0)))"
  have m: "make_bootblock bs c l = put_le64 504 (quad_sum 64 b) b" by (simp add: make_bootblock_def b_def CONSOLE_BLOCK_SIZE_def Let_def)
  have len: "length b = bs" using assms by (simp add: b_def)
  have f: "le64_at b 480 = c" "le64_at b 488 = l" "le64_at b 496 = 0" "le64_at b 504 = 0"
    using assms by (simp_all add: b_def le64_put le64_put_other replicate_le64)
  show "length (make_bootblock bs c l) = bs" "bb_count (make_bootblock bs c l) = c" "bb_lbn (make_bootblock bs c l) = l" "bb_flags (make_bootblock bs c l) = 0"
    using assms len f by (simp_all add: m bb_defs le64_put_other)
  show "boot_sector_ok (make_bootblock bs c l)" unfolding m by (rule put_checksum) (use assms len f in \<open>simp_all add: CONSOLE_BLOCK_SIZE_def bb_chk_sum_def\<close>)
qed

lemma fill_ok:
  assumes ok: "disk_ok st" "slot_ok st i" "geometry st" and n: "0 < n" and f: "ext2_fill_contiguous i n st = Some (r, st')" "0 < r"
  shows "\<exists>A. grown st A st' \<and> slot_ok st' i \<and> mapped st' i r n"
proof -
  obtain q s1 where q: "ext2_contiguous_balloc n st = Some (q, s1)" using contiguous_balloc_ok [of st n] ok(1) by (auto simp: disk_ok_def)
  have nz: "n \<le> 267" "q \<noteq> 0" using fill_none [OF ok(1) _ ok(3), of n i] f q by (auto simp: not_less [symmetric])
  show ?thesis
  proof (cases "n \<le> 11")
    case True
    then show ?thesis using fill_direct [OF ok n True q nz(2)] f by auto
  next
    case False
    obtain s2 where s2: "set_inode i (set_i_blocks (of_nat (n * (l_blocksize st div 512)))) s1 = Some ((), s2)" using set_inode_step by blast
    obtain b s3 where b: "ext2_balloc s2 = Some (b, s3)" "b \<noteq> 0"
      using f q nz s2 False ok(3) by (auto simp: ext2_fill_contiguous_def lib_simps geometry_def split: option.splits if_splits)
    then show ?thesis using fill_indirect [OF ok _ nz(1) q nz(2) s2 b] False f by auto
  qed
qed

text \<open>The bytes of \<open>count\<close> sectors from sector \<open>lbn\<close> on, as the console reads them from the disk; a block has two sectors.\<close>

definition read_sectors :: "(int \<Rightarrow> bytes) \<Rightarrow> nat \<Rightarrow> nat \<Rightarrow> bytes" where
  "read_sectors view lbn count = concat (map (\<lambda>s. slice (512 * (s mod 2)) 512 (view (int (s div 2)))) [lbn..<lbn + count])"

lemma sector_of_block: "slice (512 * (s mod 2)) 512 (slice (s div 2 * 1024) 1024 d) = slice (512 * s) 512 d"
proof -
  have "s mod 2 = 0 \<or> s mod 2 = 1" by auto
  moreover have "512 * (s mod 2) + s div 2 * 1024 = 512 * s" using div_mult_mod_eq [of s 2] by linarith
  ultimately show ?thesis by (auto simp: slice_def drop_take min_def)
qed

lemma read_sectors_file:
  assumes d: "length d = n * 1024" and v: "\<And>k. k < n \<Longrightarrow> view (int (r + k)) = slice (k * 1024) 1024 d"
  shows "read_sectors view (2 * r) (2 * n) = d"
proof -
  have "[2 * r..<2 * r + 2 * n] = map (\<lambda>s. s + 2 * r) [0..<2 * n]" by (simp add: map_add_upt add.commute)
  then have "read_sectors view (2 * r) (2 * n) = concat (map (\<lambda>s. slice (512 * ((s + 2 * r) mod 2)) 512 (view (int ((s + 2 * r) div 2)))) [0..<2 * n])"
    by (simp add: read_sectors_def comp_def)
  also have "\<dots> = concat (map (\<lambda>s. slice (512 * s) 512 d) [0..<2 * n])"
  proof (intro arg_cong [where f = concat] map_cong refl)
    fix s assume "s \<in> set [0..<2 * n]"
    then have "view (int (r + s div 2)) = slice (s div 2 * 1024) 1024 d" by (intro v) auto
    then show "slice (512 * ((s + 2 * r) mod 2)) 512 (view (int ((s + 2 * r) div 2))) = slice (512 * s) 512 d"
      using sector_of_block [of s d] by (simp add: add.commute)
  qed
  finally show ?thesis using d by (simp add: concat_slices)
qed

text \<open>Writing the boot block touches nothing else.\<close>

lemma boot_block_write:
  assumes ok: "disk_ok st" and u: "usable (l_bio st) 0" and d: "length d = 1024"
  shows "\<exists>st'. ext2_write_bootblock d st = Some ((), st') \<and> cached st [0 \<mapsto> d] st'"
proof -
  have "0 < bitmap_block st j" if "j < l_ngroups st" for j using ok that by (simp add: disk_ok_def)
  then have "data_block_ok st 0" using u by (force simp: data_block_ok_def)
  from data_write [OF ok this d] show ?thesis by (simp add: ext2_write_bootblock_def)
qed

lemma boot_words:
  assumes "0 < r" "r * 1024 < 2 ^ 31" "n \<le> 267"
  shows "unat (word_of_int (r * 1024 div 512) :: u64) = 2 * nat r" "unat (of_nat (n * 1024 div 512) :: u64) = 2 * n"
proof -
  have e: "r * 1024 div 512 = 2 * r" by simp
  have "uint (word_of_int (2 * r) :: u64) = 2 * r" unfolding uint_word_of_int_eq by (rule take_bit_int_eq_self) (use assms in simp_all)
  then have "unat (word_of_int (2 * r) :: u64) = nat (2 * r)" unfolding unat_eq_nat_uint by (rule arg_cong)
  then show "unat (word_of_int (r * 1024 div 512) :: u64) = 2 * nat r" unfolding e by (simp only: nat_mult_distrib) simp
  have e: "n * 1024 div 512 = 2 * n" by simp
  show "unat (of_nat (n * 1024 div 512) :: u64) = 2 * n" unfolding e unat_of_nat by (rule mod_less) (use assms(3) in simp)
qed

subsection \<open>A file system\<close>

text \<open>The file system of the allocator's example in a file of 66 blocks, with every buffer of the cache in use.\<close>

definition e2_cached :: e2lib where
  "e2_cached = e2_example\<lparr>l_bio :=
     \<lparr>bio_file = replicate 3072 0 @ [7] @ replicate (1023 + 62 * 1024) 0, bio_counter = 0, bio_blocksize = 1024,
      buflist = map (\<lambda>k. \<lparr>bb_blkno = int (5 + k), bb_last_access = 0, bb_dirty = False, bb_data = Some (replicate 1024 0)\<rparr>) [0..<NBUFS],
      bio_raw = (\<lambda>_. replicate 1024 0)\<rparr>\<rparr>"

abbreviation "e2_cache \<equiv> l_bio e2_cached"

lemma e2_cached_fields:
  "per_group e2_cached = 64" "bitmap_block e2_cached 0 = 3" "length (l_gds e2_cached) = 32" "length (l_sb e2_cached) = 1024" "l_ngroups e2_cached = 1"
  "l_blocksize e2_cached = 1024" "\<not> l_readonly e2_cached" "bg_free_blocks_count (l_gds e2_cached) 0 = 61"
  using e2_example_fields by (simp_all add: e2_cached_def per_group_def bitmap_block_def)

lemma e2_cache_bufs: "k < NBUFS \<Longrightarrow> buflist e2_cache ! k = \<lparr>bb_blkno = int (5 + k), bb_last_access = 0, bb_dirty = False, bb_data = Some (replicate 1024 0)\<rparr>"
  by (simp add: e2_cached_def)

lemma e2_cache_fields: "length (buflist e2_cache) = NBUFS" "bio_blocksize e2_cache = 1024" "length (bio_file e2_cache) = 66 * 1024" "length (bio_raw e2_cache k) = 1024"
  by (simp_all add: e2_cached_def)

lemma e2_cache_usable: "0 \<le> b \<Longrightarrow> b \<le> 64 \<Longrightarrow> usable e2_cache b"
  by (simp add: usable_def in_file_def e2_cache_fields e2_cache_bufs)

lemma e2_cache_ok: "bio_ok e2_cache"
proof -
  have "on_disk e2_cache (int (5 + k)) = replicate 1024 0" if "k < NBUFS" for k
  proof -
    have "nat (int (5 + k)) * 1024 = 3072 + 1 + (1023 + (k + 1) * 1024)" by simp
    then show ?thesis using that by (simp add: on_disk_def e2_cached_def slice_def NBUFS_def min_def drop_Cons')
  qed
  then show ?thesis by (simp add: bio_ok_def e2_cache_fields e2_cache_bufs buf_ok_def in_file_def NBUFS_def)
qed

lemma e2_cached_map: "group_map e2_cached 0 = [7] @ replicate 1023 0"
proof -
  have "block_view e2_cache 3 = on_disk e2_cache 3" by (rule block_view_other) (auto simp: e2_cache_fields e2_cache_bufs)
  then show ?thesis by (simp add: group_map_def e2_cached_fields) (simp add: on_disk_def e2_cached_def slice_def min_def)
qed

lemma e2_cached_ok: "disk_ok e2_cached" "slot_ok e2_cached 0" "geometry e2_cached"
proof -
  have "fs_ok e2_cached" by (simp add: fs_ok_def e2_cached_fields e2_cache_fields e2_cache_ok e2_cache_usable sizeof_group_desc_def sizeof_sb_def lessThan_Suc)
  moreover have "map_bit ([7] @ replicate 1023 0) 2" by code_simp
  then have "3 \<in> allocated e2_cached" by (simp add: allocated_def e2_cached_fields e2_cached_map)
  ultimately show "disk_ok e2_cached" by (simp add: disk_ok_def e2_cached_fields e2_cache_usable)
  show "slot_ok e2_cached 0" "geometry e2_cached" by (simp_all add: slot_ok_def slot_ip_def geometry_def e2_cached_def e2_example_def)
qed

lemma e2_cached_run: "\<exists>st1. ext2_contiguous_balloc 2 e2_cached = Some (33, st1)"
proof -
  have "find_run ([7] @ replicate 1023 0) 2 1 0 = 1" by code_simp
  moreover have "fs_ok e2_cached" using e2_cached_ok(1) by (simp add: disk_ok_def)
  ultimately show ?thesis using contiguous_hit [of e2_cached 0 2 1 "[]"]
    by (auto simp: e2_cached_fields e2_cached_map ext2_contiguous_balloc_def lib_simps block_at_bit_def simp del: contiguous_loop.simps)
qed

subsection \<open>Properties\<close>



end
