(* ===== verification/Sdisklabel.thy ===== *)
theory Sdisklabel
  imports Disk Bootblock
begin

text \<open>
  The host program that edits the disk label (\<^verbatim>\<open>src/sdisklabel/sdisklabel.c\<close>) and the routines it shares with \<open>swriteboot\<close> (\<^verbatim>\<open>src/sdisklabel/library.c\<close>).

  The disk is a file: a list of bytes that a write at its end extends; seeking and writing do not fail.  The label is the byte string of \<^verbatim>\<open>struct disklabel\<close>, whose fields the theory
  \<open>Disk\<close> names.  \<^const>\<open>None\<close> means that the code has no defined result: signed overflow, an access outside the array of partitions, a comparison with a \<open>NULL\<close> string.
\<close>

unbundle bit_operations_syntax

subsection \<open>Labels\<close>

definition part_size :: "bytes \<Rightarrow> nat \<Rightarrow> u32" where "part_size l i = le32_at l (148 + 16 * i)"

definition read_disklabel :: "bytes \<Rightarrow> bytes option" where
  "read_disklabel disk =
     (let d = slice LABELOFFSET sizeof_disklabel disk
      in if length d \<noteq> sizeof_disklabel then None
         else if d_magic d \<noteq> DISKLABELMAGIC \<or> d_magic2 d \<noteq> DISKLABELMAGIC then None
         else Some d)"

text \<open>The sum is taken over the sector on the disk with the label in memory put into it.\<close>

definition dosumlabel :: "bytes \<Rightarrow> bytes \<Rightarrow> int \<times> bytes" where
  "dosumlabel disk d =
     (let buf = slice 0 512 disk
      in if length buf \<noteq> 512 then (- 1, disk)
         else (0, file_write 504 (le_encode 8 (quad_sum 63 (put_bytes LABELOFFSET d buf))) disk))"

definition does_overlap :: "int \<Rightarrow> int \<Rightarrow> int \<Rightarrow> int \<Rightarrow> bool" where
  "does_overlap a1 a2 b1 b2 \<longleftrightarrow>
     (if a1 > b1 \<and> a1 < b2 then True
      else if a2 > b1 \<and> a2 < b2 then True
      else if b1 > a1 \<and> b1 < a2 then True
      else if b2 > a1 \<and> b2 < a2 then True
      else False)"

text \<open>The start of a partition and its end, as \<open>int\<close> values.\<close>

definition part_start :: "bytes \<Rightarrow> nat \<Rightarrow> int" where "part_start d x = sint (part_offset d x)"
definition part_end :: "bytes \<Rightarrow> nat \<Rightarrow> int" where "part_end d x = sint (part_offset d x + part_size d x)"

primrec overlap_loop :: "bytes \<Rightarrow> int \<Rightarrow> int \<Rightarrow> u32 \<Rightarrow> nat list \<Rightarrow> int option" where
  "overlap_loop d offset endplace force [] = Some (- 1)"
| "overlap_loop d offset endplace force (x # xs) =
     (if x \<ge> MAXPARTITIONS then None
      else if \<not> bit force x \<and> part_end d x > 0 \<and> does_overlap (part_start d x) (part_end d x) offset endplace then Some (int x)
      else overlap_loop d offset endplace force xs)"

definition overlaplabel :: "bytes \<Rightarrow> int \<Rightarrow> int \<Rightarrow> u32 \<Rightarrow> int option" where
  "overlaplabel d offset endplace force = overlap_loop d offset endplace force [0..<unat (d_npartitions d)]"

subsection \<open>Numbers in arguments\<close>

definition is_dec :: "u8 \<Rightarrow> bool" where "is_dec c \<longleftrightarrow> 48 \<le> c \<and> c \<le> 57"
definition is_blank :: "u8 \<Rightarrow> bool" where "is_blank c \<longleftrightarrow> c = 32 \<or> 9 \<le> c \<and> c \<le> 13"

definition dec_value :: "bytes \<Rightarrow> int" where
  "dec_value s = foldl (\<lambda>n c. 10 * n + (uint c - 48)) 0 (takeWhile is_dec s)"

definition clamp :: "int \<Rightarrow> int" where "clamp n = max (- (2 ^ 63)) (min (2 ^ 63 - 1) n)"

text \<open>\<open>atoi\<close> is \<open>strtol\<close> in base 10, which saturates, converted to \<open>int\<close>.\<close>

definition dec_long :: "bytes \<Rightarrow> int" where
  "dec_long s =
     (let s = dropWhile is_blank s
      in case s of [] \<Rightarrow> 0 | c # r \<Rightarrow> if c = 45 then - dec_value r else if c = 43 then dec_value r else dec_value s)"

definition strtol10 :: "bytes \<Rightarrow> int" where "strtol10 s = clamp (dec_long s)"

definition atoi :: "bytes \<Rightarrow> int" where
  "atoi s = sint (word_of_int (strtol10 s) :: u32)"

definition starts_dec :: "bytes \<Rightarrow> bool" where
  "starts_dec s \<longleftrightarrow> s \<noteq> [] \<and> is_dec (hd s)"

subsection \<open>State\<close>

record sdl =
  sdl_disk :: bytes
  sdl_label :: bytes
  label_modified :: bool
  sdl_force :: bool
  total_disk_size :: int
  heads :: int
  sectors :: int
  cylinders :: int

definition in_int :: "int \<Rightarrow> bool" where "in_int n \<longleftrightarrow> - (2 ^ 31) \<le> n \<and> n < 2 ^ 31"

definition write_disklabel :: "bytes \<Rightarrow> bytes \<Rightarrow> int \<times> bytes" where
  "write_disklabel disk d = (let (_, disk) = dosumlabel disk d in (0, file_write LABELOFFSET d disk))"

definition DTYPE_SCSI :: u16 where "DTYPE_SCSI = 4"

definition fixmagic :: "bytes \<Rightarrow> bytes" where
  "fixmagic d =
     (let d = put_le32 0 DISKLABELMAGIC d;
          d = put_le32 132 DISKLABELMAGIC d;
          d = put_le16 4 DTYPE_SCSI d;
          d = put_le32 40 512 d
      in put_bytes 8 (map of_char ''SCSI'' @ [0]) d)"

definition zero_disklabel :: "sdl \<Rightarrow> sdl" where
  "zero_disklabel st = st\<lparr>sdl_label := fixmagic (replicate sizeof_disklabel 0), label_modified := True\<rparr>"

text \<open>
  The size of the disk.  \<open>geo\<close> and \<open>blk\<close> are what the two requests deliver: heads, sectors and cylinders, and the number of sectors; \<^const>\<open>None\<close> when a request fails.
\<close>

definition sector_size :: int where "sector_size = 512"

definition set_disk_size :: "(u8 \<times> u8 \<times> u16) option \<Rightarrow> u64 option \<Rightarrow> sdl \<Rightarrow> sdl option" where
  "set_disk_size geo blk st =
     (let sectors_per_block = sector_size div 512; st = st\<lparr>heads := 0, sectors := 0, cylinders := 0\<rparr>;
          (h, s, c) = (case geo of None \<Rightarrow> (0, 0, 0) | Some (h, s, c) \<Rightarrow> (uint h, uint s, uint c));
          st = (if geo = None then st else st\<lparr>heads := h, sectors := s, cylinders := c, total_disk_size := h * s * c\<rparr>);
          r1 = geo \<noteq> None \<and> h * s * c \<noteq> 0;
          blocks = (case blk of None \<Rightarrow> 0 | Some b \<Rightarrow> b)
      in if \<not> in_int (h * s * c) then None
         else if \<not> r1 \<and> blk = None then Some st
         else if r1 \<and> blk \<noteq> None then
           Some (st\<lparr>total_disk_size := sint (ucast blocks :: u32),
                    cylinders := sint (word_of_int (uint blocks div (h * s)) :: u32) div sectors_per_block\<rparr>)
         else if r1 then Some (st\<lparr>cylinders := 1, heads := 1, sectors := sint (word_of_int (uint blocks div sectors_per_block) :: u32)\<rparr>)
         else Some st)"

definition put_partition :: "nat \<Rightarrow> int \<Rightarrow> int \<Rightarrow> int \<Rightarrow> bytes \<Rightarrow> bytes" where
  "put_partition num offset sz fstype d =
     (let d = put_le32 (148 + 16 * num + 4) (word_of_int offset) d;
          d = put_le32 (148 + 16 * num) (word_of_int sz) d
      in put_bytes (148 + 16 * num + 12) [word_of_int fstype] d)"

definition set_partition :: "nat \<Rightarrow> int \<Rightarrow> int \<Rightarrow> int \<Rightarrow> sdl \<Rightarrow> (int \<times> sdl) option" where
  "set_partition num offset sz fstype st =
     (let d = sdl_label st; total = total_disk_size st; endplace = offset + sz; over = endplace > total
      in if \<not> in_int endplace then None
         else if over \<and> \<not> sdl_force st then Some (- 1, st)
         else if over \<and> \<not> in_int (total - offset) then None
         else
           let sz = (if over then total - offset else sz); endplace = (if over then total else endplace)
           in if num > unat (d_npartitions d) \<and> \<not> sdl_force st then Some (- 1, st)
              else
                map_option (\<lambda>_.
                  let d' = put_partition num offset sz fstype d;
                      d' = (if num = unat (d_npartitions d) then put_le16 138 (d_npartitions d + 1) d' else d')
                  in (0, st\<lparr>sdl_label := d', label_modified := True\<rparr>))
                  (overlaplabel d offset endplace (push_bit num 1)))"

subsection \<open>The program\<close>

text \<open>The result of the arguments is the state, or the exit code and the state.\<close>

definition is_arg :: "bytes \<Rightarrow> string \<Rightarrow> bool" where
  "is_arg a s \<longleftrightarrow> a = map of_char s"

definition take_size :: "bytes list \<Rightarrow> sdl \<Rightarrow> bytes list \<times> sdl" where
  "take_size args st =
     (case args of
        a # n # r \<Rightarrow> if is_arg a ''size'' then (r, st\<lparr>total_disk_size := atoi n\<rparr>) else (args, st)
      | _ \<Rightarrow> (args, st))"

definition partition_args :: "bytes list \<Rightarrow> sdl \<Rightarrow> (int \<times> sdl) option" where
  "partition_args args st =
     (case args of
        n # off # sz # fs # _ \<Rightarrow>
          if starts_dec n \<and> starts_dec off \<and> starts_dec sz \<and> starts_dec fs then
            if atoi n < 0 \<or> atoi n > 7 then Some (1, st)
            else map_option (\<lambda>(r, st). (if r \<noteq> 0 then 1 else 0, st)) (set_partition (nat (atoi n)) (atoi off) (atoi sz) (atoi fs) st)
          else Some (1, st)
      | _ \<Rightarrow> Some (1, st))"

lemma take_size_length: "take_size args st = (args', st') \<Longrightarrow> length args' \<le> length args"
  by (auto simp: take_size_def split: list.splits if_splits)

function sdl_args :: "bytes list \<Rightarrow> sdl \<Rightarrow> (int \<times> sdl) option" where
  "sdl_args args st =
     (if args = [] then Some (0, st)
      else
        case take_size args st of
          ([], st') \<Rightarrow> None
        | (a # r, st') \<Rightarrow>
            if is_arg a ''sum'' then sdl_args r (st'\<lparr>sdl_disk := snd (dosumlabel (sdl_disk st') (sdl_label st'))\<rparr>)
            else if is_arg a ''zero'' then sdl_args r (zero_disklabel st')
            else if is_arg a ''print'' then sdl_args r st'
            else if is_arg a ''force'' then sdl_args r (st'\<lparr>sdl_force := True\<rparr>)
            else
              case partition_args (a # r) st' of
                None \<Rightarrow> None
              | Some (c, st'') \<Rightarrow> if c \<noteq> 0 then Some (c, st'') else sdl_args (drop 3 r) st'')"
  by pat_completeness auto
termination
  by (relation "measure (\<lambda>(args, _). length args)") (auto dest!: take_size_length [OF sym])

text \<open>
  The program for the arguments behind the name of the disk.  A command line without a command ends with exit code 1.
\<close>

definition sdisklabel :: "bytes option \<Rightarrow> (u8 \<times> u8 \<times> u16) option \<Rightarrow> u64 option \<Rightarrow> bytes list \<Rightarrow> (int \<times> bytes option) option" where
  "sdisklabel disk geo blk args =
     (if args = [] then Some (1, disk)
      else
        case disk of
          None \<Rightarrow> Some (1, None)
        | Some dk \<Rightarrow>
            case set_disk_size geo blk \<lparr>sdl_disk = dk, sdl_label = [], label_modified = False, sdl_force = False, total_disk_size = 0, heads = 0, sectors = 0, cylinders = 0\<rparr> of
              None \<Rightarrow> None
            | Some st \<Rightarrow>
                let start = (if is_arg (hd args) ''zero'' then Some (zero_disklabel st) else map_option (\<lambda>d. st\<lparr>sdl_label := d\<rparr>) (read_disklabel dk))
                in case start of
                     None \<Rightarrow> Some (1, Some dk)
                   | Some st \<Rightarrow>
                       case sdl_args args st of
                         None \<Rightarrow> None
                       | Some (c, st) \<Rightarrow>
                           if c \<noteq> 0 then Some (c, Some (sdl_disk st))
                           else if label_modified st then Some (0, Some (snd (write_disklabel (sdl_disk st) (sdl_label st))))
                           else Some (0, Some (sdl_disk st)))"

subsection \<open>Overlaps\<close>

lemma does_overlap_iff:
  assumes "a1 < a2" "b1 < b2"
  shows "does_overlap a1 a2 b1 b2 \<longleftrightarrow> max a1 b1 < min a2 b2 \<and> \<not> (a1 = b1 \<and> a2 = b2)"
  using assms by (auto simp: does_overlap_def)

lemma overlap_loop_clear:
  assumes "overlap_loop d a b force xs = Some (- 1)" "x \<in> set xs" "\<not> bit force x" "part_end d x > 0"
  shows "\<not> does_overlap (part_start d x) (part_end d x) a b"
  using assms by (induction xs) (auto split: if_splits)

lemma overlap_loop_defined: "(\<And>x. x \<in> set xs \<Longrightarrow> x < MAXPARTITIONS) \<Longrightarrow> \<exists>r. overlap_loop d a b force xs = Some r"
  by (induction xs) (auto simp: not_le)

subsection \<open>The sector with the label\<close>

lemma file_write_put: "off + length x \<le> length f \<Longrightarrow> file_write off x f = put_bytes off x f"
  by (simp add: file_write_inside put_bytes_def)

lemma put_bytes_nth:
  assumes "off + length x \<le> length f" "i < length f"
  shows "put_bytes off x f ! i = (if off \<le> i \<and> i < off + length x then x ! (i - off) else f ! i)"
  using assms by (auto simp: put_bytes_def nth_append min_def)

lemma take_put_bytes: "off + length x \<le> n \<Longrightarrow> n \<le> length f \<Longrightarrow> take n (put_bytes off x f) = put_bytes off x (take n f)"
  by (rule nth_equalityI) (auto simp: length_put_bytes put_bytes_nth)

lemma put_bytes_commute:
  assumes "a + length x \<le> b" "b + length y \<le> length f"
  shows "put_bytes a x (put_bytes b y f) = put_bytes b y (put_bytes a x f)"
  by (rule nth_equalityI) (use assms in \<open>auto simp: length_put_bytes put_bytes_nth\<close>)

lemma le_put_bytes:
  "off + length x \<le> length f \<Longrightarrow> a + 4 \<le> off \<or> off + length x \<le> a \<Longrightarrow> le32_at (put_bytes off x f) a = le32_at f a"
  "off + length x \<le> length f \<Longrightarrow> a + 2 \<le> off \<or> off + length x \<le> a \<Longrightarrow> le16_at (put_bytes off x f) a = le16_at f a"
  by (simp_all add: le32_at_def le16_at_def slice_put_bytes_other)

definition label_ok :: "bytes \<Rightarrow> bool" where
  "label_ok d \<longleftrightarrow> length d = 276 \<and> d_magic d = DISKLABELMAGIC \<and> d_magic2 d = DISKLABELMAGIC \<and> d_npartitions d \<le> 8"

lemma sizeof_276: "sizeof_disklabel = 276"
  by (simp add: sizeof_disklabel_def MAXPARTITIONS_def)

lemma read_disklabel_iff:
  "340 \<le> length disk \<Longrightarrow> read_disklabel disk = Some d \<longleftrightarrow> d = slice 64 276 disk \<and> d_magic d = DISKLABELMAGIC \<and> d_magic2 d = DISKLABELMAGIC"
  by (auto simp: read_disklabel_def sizeof_276 LABELOFFSET_def length_slice Let_def)

text \<open>The sum for the label \<open>d\<close> makes the sector valid as soon as the label is in it.\<close>

lemma sum_label_ok:
  assumes len: "512 \<le> length disk" "length d = 276"
  shows "boot_sector_ok (take 512 (put_bytes 64 d (snd (dosumlabel disk d))))"
proof -
  define b where "b = put_bytes 64 d (take 512 disk)"
  have lb: "length b = 512" using len by (simp add: b_def length_put_bytes)
  have s: "snd (dosumlabel disk d) = put_bytes 504 (le_encode 8 (quad_sum 63 b)) disk"
    using len by (simp add: dosumlabel_def slice_def Let_def LABELOFFSET_def file_write_put b_def)
  have "take 512 (put_bytes 64 d (snd (dosumlabel disk d))) = put_le64 504 (quad_sum 63 b) b"
    using len put_bytes_commute [of 64 d 504 "le_encode 8 (quad_sum 63 b)" "take 512 disk"] by (simp add: s take_put_bytes length_put_bytes put_le64_def b_def)
  then show ?thesis using lb by (simp add: boot_sector_ok_def bb_chk_sum_def CONSOLE_BLOCK_SIZE_def le64_put quad_sum_put)
qed

text \<open>What the program may change on the disk: the label and the sum.\<close>

definition outside_same :: "bytes \<Rightarrow> bytes \<Rightarrow> bool" where
  "outside_same disk disk' \<longleftrightarrow> length disk' = length disk \<and> (\<forall>i < length disk. i < 64 \<or> 340 \<le> i \<and> i < 504 \<or> 512 \<le> i \<longrightarrow> disk' ! i = disk ! i)"

lemma dosumlabel_disk:
  assumes "512 \<le> length disk" "length d = 276"
  shows "length (snd (dosumlabel disk d)) = length disk" "i < length disk \<Longrightarrow> i < 504 \<or> 512 \<le> i \<Longrightarrow> snd (dosumlabel disk d) ! i = disk ! i"
    "slice 64 276 (snd (dosumlabel disk d)) = slice 64 276 disk"
  using assms by (auto simp: dosumlabel_def slice_def [of 0] Let_def file_write_put length_put_bytes put_bytes_nth slice_put_bytes_other)

lemma put_slice_same: "off + n \<le> length f \<Longrightarrow> put_bytes off (slice off n f) f = f"
  by (rule nth_equalityI) (auto simp: length_put_bytes length_slice put_bytes_nth nth_slice)

lemma write_disklabel_ok:
  assumes "512 \<le> length disk" "label_ok d"
  defines "disk' \<equiv> snd (write_disklabel disk d)"
  shows "read_disklabel disk' = Some d" "boot_sector_ok (take 512 disk')" "outside_same disk disk'"
proof -
  have l: "length d = 276" using assms(2) by (simp add: label_ok_def)
  note s = dosumlabel_disk [OF assms(1) l]
  have w: "disk' = put_bytes 64 d (snd (dosumlabel disk d))"
    using s(1) assms(1) l by (simp add: disk'_def write_disklabel_def split_beta LABELOFFSET_def file_write_put)
  have len: "length disk' = length disk" using w s(1) assms(1) l by (simp add: length_put_bytes)
  have "slice 64 276 disk' = d" using slice_put_bytes [of 64 d "snd (dosumlabel disk d)"] w s(1) assms(1) l by simp
  then show "read_disklabel disk' = Some d" using len assms(1,2) by (simp add: read_disklabel_iff label_ok_def)
  show "boot_sector_ok (take 512 disk')" unfolding w by (rule sum_label_ok [OF assms(1) l])
  show "outside_same disk disk'" using s(1,2) len w assms(1) l by (simp add: outside_same_def put_bytes_nth)
qed

subsection \<open>The commands keep a valid label\<close>

text \<open>The state between two commands; \<open>disk\<close> is the disk at the start.\<close>

definition sdl_ok :: "bytes \<Rightarrow> sdl \<Rightarrow> bool" where
  "sdl_ok disk st \<longleftrightarrow> 512 \<le> length disk \<and> label_ok (sdl_label st) \<and> outside_same disk (sdl_disk st) \<and> slice 64 276 (sdl_disk st) = slice 64 276 disk
     \<and> (label_modified st \<or> sdl_label st = slice 64 276 disk \<and> (sdl_disk st = disk \<or> boot_sector_ok (take 512 (sdl_disk st))))"

lemma sdl_okD: "sdl_ok disk st \<Longrightarrow> length (sdl_disk st) = length disk \<and> 512 \<le> length disk \<and> length (sdl_label st) = 276"
  by (simp add: sdl_ok_def outside_same_def label_ok_def)

lemma sum_same_label:
  assumes "512 \<le> length disk" "slice 64 276 disk = d"
  shows "boot_sector_ok (take 512 (snd (dosumlabel disk d)))"
proof -
  have l: "length d = 276" using assms by (auto simp: length_slice)
  note s = dosumlabel_disk [OF assms(1) l]
  have "put_bytes 64 d (snd (dosumlabel disk d)) = snd (dosumlabel disk d)" using put_slice_same [of 64 276 "snd (dosumlabel disk d)"] s assms by simp
  then show ?thesis using sum_label_ok [OF assms(1) l] by simp
qed

lemma sum_ok:
  assumes ok: "sdl_ok disk st"
  shows "sdl_ok disk (st\<lparr>sdl_disk := snd (dosumlabel (sdl_disk st) (sdl_label st))\<rparr>)"
proof -
  let ?d = "snd (dosumlabel (sdl_disk st) (sdl_label st))"
  note l = sdl_okD [OF ok]
  then have len: "512 \<le> length (sdl_disk st)" "length (sdl_label st) = 276" by simp_all
  note s = dosumlabel_disk [OF len]
  have "boot_sector_ok (take 512 ?d)" if "\<not> label_modified st" using sum_same_label [OF len(1)] ok that by (simp add: sdl_ok_def)
  then show ?thesis using ok s l by (auto simp: sdl_ok_def outside_same_def)
qed

lemma zero_label_ok: "label_ok (sdl_label (zero_disklabel st))"
  by (simp add: zero_disklabel_def fixmagic_def Let_def label_ok_def sizeof_276 d_magic_def d_magic2_def d_npartitions_def length_put_bytes le_put le_put_other le_put_bytes)
    (simp add: le16_at_def slice_def numeral_eq_Suc)

lemma zero_ok: "sdl_ok disk st \<Longrightarrow> sdl_ok disk (zero_disklabel st)"
  using zero_label_ok [of st] by (simp add: sdl_ok_def zero_disklabel_def)

lemma put_partition_ok:
  assumes "label_ok d" "num \<le> 7"
  shows "label_ok (put_partition num offset sz fstype d)" "d_npartitions (put_partition num offset sz fstype d) = d_npartitions d"
  using assms by (simp_all add: label_ok_def put_partition_def Let_def d_magic_def d_magic2_def d_npartitions_def length_put_bytes le_put_other le_put_bytes)

lemma set_npartitions_ok:
  assumes "label_ok d" "n \<le> 8"
  shows "label_ok (put_le16 138 n d)"
  using assms by (simp add: label_ok_def d_magic_def d_magic2_def d_npartitions_def le_put le_put_other)

lemma set_partition_ok:
  assumes ok: "sdl_ok disk st" and num: "num \<le> 7" and s: "set_partition num offset sz fstype st = Some (r, st')"
  shows "sdl_ok disk st'"
proof -
  have d: "label_ok (sdl_label st)" using ok by (simp add: sdl_ok_def)
  have n: "d_npartitions (sdl_label st) + 1 \<le> 8" if "num = unat (d_npartitions (sdl_label st))"
  proof -
    have "unat (d_npartitions (sdl_label st)) \<le> 7" using num that by simp
    then have "d_npartitions (sdl_label st) \<le> 7" by (simp add: word_le_nat_alt)
    then show ?thesis by unat_arith
  qed
  have "st' = st \<or> (\<exists>sz. st' = st\<lparr>sdl_label := (if num = unat (d_npartitions (sdl_label st)) then put_le16 138 (d_npartitions (sdl_label st) + 1) (put_partition num offset sz fstype (sdl_label st))
      else put_partition num offset sz fstype (sdl_label st)), label_modified := True\<rparr>)"
    using s by (auto simp: set_partition_def Let_def split: if_splits)
  then show ?thesis using ok put_partition_ok [OF d num] set_npartitions_ok [OF put_partition_ok(1) [OF d num] n] by (auto simp: sdl_ok_def)
qed

lemma take_size_ok: "take_size args st = (args', st') \<Longrightarrow> sdl_ok disk st \<Longrightarrow> sdl_ok disk st'"
  by (auto simp: take_size_def sdl_ok_def split: list.splits if_splits)

lemma partition_args_ok:
  assumes ok: "sdl_ok disk st" and p: "partition_args args st = Some (c, st')"
  shows "sdl_ok disk st'"
proof -
  have "sdl_ok disk st'" if "set_partition (nat (atoi n)) off sz fs st = Some (r, st')" "\<not> 7 < atoi n" for n off sz fs r
    by (rule set_partition_ok [OF ok _ that(1)]) (use that(2) in simp)
  then show ?thesis using p ok by (auto simp: partition_args_def split: list.splits if_splits)
qed

lemma sdl_args_ok: "sdl_ok disk st \<Longrightarrow> sdl_args args st = Some (c, st') \<Longrightarrow> sdl_ok disk st'"
proof (induction args st arbitrary: c rule: sdl_args.induct)
  case (1 args st)
  show ?case
  proof (cases "args = []")
    case False
    obtain args' s where t: "take_size args st = (args', s)" by fastforce
    have s: "sdl_ok disk s" by (rule take_size_ok [OF t 1(6)])
    have f: "sdl_ok disk (s\<lparr>sdl_force := True\<rparr>)" using s by (simp add: sdl_ok_def)
    obtain a r where a: "args' = a # r" using 1(7) False t by (cases args') auto
    note ih = 1(1-5) [OF False t [symmetric] a]
    show ?thesis
    proof (cases "is_arg a ''sum'' \<or> is_arg a ''zero'' \<or> is_arg a ''print'' \<or> is_arg a ''force''")
      case True
      then show ?thesis using 1(7) False t a ih(1-4) sum_ok [OF s] zero_ok [OF s] s f by (auto split: if_splits)
    next
      case other: False
      then obtain k s' where p: "partition_args (a # r) s = Some (k, s')" using 1(7) False t a by (auto split: option.splits)
      have "sdl_ok disk s'" by (rule partition_args_ok [OF s p])
      then show ?thesis using 1(7) False t a other p ih(5) by (auto split: if_splits)
    qed
  qed (use 1 in simp)
qed

lemma outside_same_trans: "outside_same a b \<Longrightarrow> outside_same b c \<Longrightarrow> outside_same a c"
  by (simp add: outside_same_def)

lemma set_disk_size_label: "set_disk_size geo blk st = Some st' \<Longrightarrow> sdl_disk st' = sdl_disk st \<and> sdl_label st' = sdl_label st \<and> label_modified st' = label_modified st"
  by (auto simp: set_disk_size_def Let_def split: if_splits option.splits prod.splits)

lemma sdisklabel_run:
  assumes s: "sdisklabel (Some disk) geo blk args = Some (0, out)"
  obtains st0 st where "sdl_disk st0 = disk" "\<not> label_modified st0" "st = zero_disklabel st0 \<or> (\<exists>d. read_disklabel disk = Some d \<and> st = st0\<lparr>sdl_label := d\<rparr>)"
    "\<exists>st'. sdl_args args st = Some (0, st') \<and> out = Some (if label_modified st' then snd (write_disklabel (sdl_disk st') (sdl_label st')) else sdl_disk st')"
proof -
  let ?s = "\<lparr>sdl_disk = disk, sdl_label = [], label_modified = False, sdl_force = False, total_disk_size = 0, heads = 0, sectors = 0, cylinders = 0\<rparr>"
  have ne: "args \<noteq> []" using s by (auto simp: sdisklabel_def)
  obtain st0 where st0: "set_disk_size geo blk ?s = Some st0" using s ne by (auto simp: sdisklabel_def split: option.splits)
  define start where "start = (if is_arg (hd args) ''zero'' then Some (zero_disklabel st0) else map_option (\<lambda>d. st0\<lparr>sdl_label := d\<rparr>) (read_disklabel disk))"
  obtain st where st: "start = Some st" using s ne st0 unfolding sdisklabel_def start_def [symmetric] by (cases start) (auto simp: start_def [symmetric])
  have "\<exists>st'. sdl_args args st = Some (0, st') \<and> out = Some (if label_modified st' then snd (write_disklabel (sdl_disk st') (sdl_label st')) else sdl_disk st')"
    using s ne st0 st by (auto simp: sdisklabel_def start_def [symmetric] Let_def split: option.splits if_splits)
  moreover have "st = zero_disklabel st0 \<or> (\<exists>d. read_disklabel disk = Some d \<and> st = st0\<lparr>sdl_label := d\<rparr>)" using st by (auto simp: start_def split: if_splits)
  ultimately show ?thesis using that [of st0 st] set_disk_size_label [OF st0] by simp
qed

subsection \<open>Properties\<close>

text \<open>
  C35.  Whatever commands \<open>sdisklabel\<close> is given, when it ends with exit code 0 the disk has a readable label with at most eight partitions, the sum of its first sector is right unless
  nothing was written at all, and no byte outside the label and the sum has changed.
\<close>

theorem sdisklabel_valid:
  assumes len: "512 \<le> length disk" and l: "\<forall>d. read_disklabel disk = Some d \<longrightarrow> d_npartitions d \<le> 8" and s: "sdisklabel (Some disk) geo blk args = Some (0, out)"
  shows "\<exists>disk' d. out = Some disk' \<and> outside_same disk disk' \<and> read_disklabel disk' = Some d \<and> d_npartitions d \<le> 8 \<and> (disk' = disk \<or> boot_sector_ok (take 512 disk'))"
proof -
  obtain st0 st where st0: "sdl_disk st0 = disk" "\<not> label_modified st0" and st: "st = zero_disklabel st0 \<or> (\<exists>d. read_disklabel disk = Some d \<and> st = st0\<lparr>sdl_label := d\<rparr>)" and r: "\<exists>st'. sdl_args args st = Some (0, st')
      \<and> out = Some (if label_modified st' then snd (write_disklabel (sdl_disk st') (sdl_label st')) else sdl_disk st')"
    by (rule sdisklabel_run [OF s])
  have "sdl_ok disk st"
    using st
  proof
    assume "st = zero_disklabel st0"
    then show ?thesis using zero_label_ok [of st0] st0 len by (simp add: sdl_ok_def zero_disklabel_def outside_same_def)
  next
    assume "\<exists>d. read_disklabel disk = Some d \<and> st = st0\<lparr>sdl_label := d\<rparr>"
    then show ?thesis using st0 len l by (auto simp: sdl_ok_def outside_same_def label_ok_def read_disklabel_iff length_slice)
  qed
  then obtain st' where ok: "sdl_ok disk st'" and out: "out = Some (if label_modified st' then snd (write_disklabel (sdl_disk st') (sdl_label st')) else sdl_disk st')"
    using r sdl_args_ok by blast
  have o: "outside_same disk (sdl_disk st')" "label_ok (sdl_label st')" using ok by (simp_all add: sdl_ok_def)
  show ?thesis
  proof (cases "label_modified st'")
    case True
    have "512 \<le> length (sdl_disk st')" using sdl_okD [OF ok] by simp
    from write_disklabel_ok [OF this o(2)] show ?thesis using out True o outside_same_trans by (auto simp: label_ok_def)
  next
    case False
    have "read_disklabel (sdl_disk st') = Some (sdl_label st')" using ok False sdl_okD [OF ok] by (auto simp: read_disklabel_iff sdl_ok_def label_ok_def)
    then show ?thesis using out False o ok by (auto simp: sdl_ok_def label_ok_def)
  qed
qed

lemma zero_partitions: "d_npartitions (sdl_label (zero_disklabel st)) = 0"
  by (simp add: zero_disklabel_def fixmagic_def Let_def sizeof_276 d_npartitions_def length_put_bytes le_put le_put_other le_put_bytes)
    (simp add: le16_at_def slice_def numeral_eq_Suc)

lemma label_example: "\<exists>out. sdisklabel (Some (replicate 1024 0)) (Some (4, 16, 100)) (Some 1000) (map (map of_char) [''zero'', ''0'', ''16'', ''100'', ''8'']) = Some (0, out)"
proof -
  have a: "atoi [48] = 0" "atoi [49, 54] = 16" "atoi [49, 48, 48] = 100" "atoi [56] = 8" by code_simp+
  have d: "starts_dec [48]" "starts_dec [49, 54]" "starts_dec [49, 48, 48]" "starts_dec [56]" by code_simp+
  have p: "\<exists>st'. partition_args [[48], [49, 54], [49, 48, 48], [56]] (zero_disklabel (zero_disklabel st)) = Some (0, st')" if "total_disk_size st = 1000" for st
    using that zero_partitions [of "zero_disklabel st"] by (simp add: partition_args_def a d set_partition_def in_int_def overlaplabel_def Let_def) (simp add: zero_disklabel_def)
  obtain st where s: "set_disk_size (Some (4, 16, 100)) (Some 1000) \<lparr>sdl_disk = replicate 1024 0, sdl_label = [], label_modified = False, sdl_force = False, total_disk_size = 0, heads = 0,
      sectors = 0, cylinders = 0\<rparr> = Some st" "total_disk_size st = 1000"
    by (simp add: set_disk_size_def Let_def in_int_def)
  obtain st' where "partition_args [[48], [49, 54], [49, 48, 48], [56]] (zero_disklabel (zero_disklabel st)) = Some (0, st')" using p [OF s(2)] by blast
  then have "sdl_args [[122, 101, 114, 111], [48], [49, 54], [49, 48, 48], [56]] (zero_disklabel st) = Some (0, st')"
    by (simp add: take_size_def is_arg_def)
  then show ?thesis using s(1) by (simp add: sdisklabel_def is_arg_def Let_def del: sdl_args.simps)
qed

theorem sdisklabel_valid_witness:
  "\<exists>disk' d. sdisklabel (Some (replicate 1024 0)) (Some (4, 16, 100)) (Some 1000) (map (map of_char) [''zero'', ''0'', ''16'', ''100'', ''8'']) = Some (0, Some disk')
     \<and> outside_same (replicate 1024 0) disk' \<and> read_disklabel disk' = Some d \<and> d_npartitions d \<le> 8"
proof -
  obtain out where o: "sdisklabel (Some (replicate 1024 0)) (Some (4, 16, 100)) (Some 1000) (map (map of_char) [''zero'', ''0'', ''16'', ''100'', ''8'']) = Some (0, out)"
    using label_example by blast
  have "DISKLABELMAGIC \<noteq> 0" by (simp add: DISKLABELMAGIC_def)
  moreover have "le32_at (replicate 276 0) 0 = 0" by (simp add: le32_at_def slice_def numeral_eq_Suc)
  ultimately have "read_disklabel (replicate 1024 0) = None" by (simp add: read_disklabel_def sizeof_276 LABELOFFSET_def slice_def d_magic_def Let_def)
  with sdisklabel_valid [OF _ _ o] o show ?thesis by auto
qed

end
