(* ===== verification/Swriteboot.thy ===== *)
theory Swriteboot
  imports Sdisklabel
begin

text \<open>
  The host program that writes the loader, and a kernel behind it, to the sectors behind the disk label (\<^verbatim>\<open>src/sdisklabel/swriteboot.c\<close>).  The disk is a file as in the theory
  \<open>Sdisklabel\<close>; the options are those \<open>getopt\<close> delivers.
\<close>

unbundle bit_operations_syntax

subsection \<open>The configured partition\<close>

definition ABOOT_MAGIC :: u64 where "ABOOT_MAGIC = 0x30302d746f6f6261"
definition sw_boot_sector :: nat where "sw_boot_sector = 2"

text \<open>
  The word behind the last magic number among the 64 words of a sector, 0 if there is none.  The word behind the last of them is still in the buffer.
\<close>

definition find_config :: "bytes \<Rightarrow> u64" where
  "find_config buf = foldl (\<lambda>part i. if le64_at buf (8 * i) = ABOOT_MAGIC then le64_at buf (8 * (i + 1)) else part) 0 [0..<64]"

definition set_config :: "int \<Rightarrow> bytes \<Rightarrow> bytes" where
  "set_config part buf = foldl (\<lambda>buf i. if le64_at buf (8 * i) = ABOOT_MAGIC then put_le64 (8 * (i + 1)) (word_of_int part) buf else buf) buf [0..<64]"

text \<open>The buffer is that of the caller; a short read leaves its rest as it was.  Without a boot sector of 496 bytes the code uses variables that it has not set.\<close>

definition read_configured_partition :: "bytes \<Rightarrow> bytes \<Rightarrow> (int \<times> bytes) option" where
  "read_configured_partition disk buf =
     (if length disk < 496 then None
      else
        let off = 512 * le64_at disk 488
        in if sint off < 0 then Some (0, buf)
           else let buf = overwrite (slice (unat off) 512 disk) buf in Some (sint (ucast (find_config buf) :: u32), buf))"

subsection \<open>Writing\<close>

text \<open>The copying loop with its buffer of 2048 bytes; \<open>pos\<close> is the position in the disk.\<close>

function copy_file :: "bytes \<Rightarrow> nat \<Rightarrow> bytes \<Rightarrow> bytes \<Rightarrow> nat \<times> bytes \<times> bytes" where
  "copy_file data pos buf disk =
     (if data = [] then (pos, buf, disk)
      else let d = take 2048 data in copy_file (drop 2048 data) (pos + length d) (overwrite d buf) (file_write pos d disk))"
  by pat_completeness auto
termination
  by (relation "measure (\<lambda>(data, _). length data)") auto

declare copy_file.simps [simp del]

definition sectors_of :: "bytes \<Rightarrow> nat" where "sectors_of d = (length d + 511) div 512"

definition write_config :: "int \<Rightarrow> bytes \<Rightarrow> bytes \<Rightarrow> bytes" where
  "write_config part buf disk =
     (if part = 0 then disk
      else let buf = set_config part (overwrite (slice (512 * sw_boot_sector) 512 disk) buf) in file_write (512 * sw_boot_sector) (take 512 buf) disk)"

definition write_loader :: "bytes \<Rightarrow> bytes option \<Rightarrow> int \<Rightarrow> bytes \<Rightarrow> bytes \<Rightarrow> bytes" where
  "write_loader bootfile krn part buf disk =
     (let disk = file_write 480 (le_encode 8 (of_nat (sectors_of bootfile) :: u64) @ le_encode 8 (of_nat sw_boot_sector :: u64) @ le_encode 8 (0 :: u64)) disk;
          (pos, buf, disk) = copy_file bootfile (512 * sw_boot_sector) buf disk;
          (pos, buf, disk) = (case krn of None \<Rightarrow> (pos, buf, disk) | Some k \<Rightarrow> copy_file k pos buf disk)
      in write_config part buf disk)"

definition swriteboot_main :: "u32 \<Rightarrow> int \<Rightarrow> bytes \<Rightarrow> bytes option \<Rightarrow> bytes \<Rightarrow> bytes \<Rightarrow> (int \<times> bytes) option" where
  "swriteboot_main force part bootfile krn buf disk =
     (let kernelsize = (case krn of None \<Rightarrow> 0 | Some k \<Rightarrow> sectors_of k); bootsize = sectors_of bootfile
      in case read_disklabel disk of
           None \<Rightarrow> Some (1, disk)
         | Some d \<Rightarrow>
             case overlaplabel d (int sw_boot_sector) (sint (of_nat (bootsize + sw_boot_sector + kernelsize) :: u32)) force of
               None \<Rightarrow> None
             | Some x \<Rightarrow>
                 if x \<noteq> - 1 then Some (1, disk)
                 else
                   map_option (\<lambda>(part, buf). (0, snd (dosumlabel (write_loader bootfile krn part buf disk) d)))
                     (if part = 0 then read_configured_partition disk buf else Some (part, buf)))"

subsection \<open>Options\<close>

datatype sw_opt = Opt_f bytes | Opt_c bytes | Opt_v | Opt_unknown

record sw_opts =
  sw_err :: bool
  force_overlap :: u32
  sw_bootpart :: int

definition part_in_range :: "int \<Rightarrow> bool" where "part_in_range n \<longleftrightarrow> 1 \<le> n \<and> n \<le> 8"

text \<open>\<^const>\<open>None\<close> is an exit with code 1.\<close>

primrec parse_opts :: "sw_opt list \<Rightarrow> sw_opts \<Rightarrow> sw_opts option" where
  "parse_opts [] opt = Some opt"
| "parse_opts (x # xs) opt =
     (case x of
        Opt_f s \<Rightarrow> if part_in_range (atoi s) then parse_opts xs (opt\<lparr>force_overlap := force_overlap opt OR push_bit (nat (atoi s - 1)) 1\<rparr>) else None
      | Opt_c s \<Rightarrow> if part_in_range (atoi s) then parse_opts xs (opt\<lparr>sw_bootpart := atoi s\<rparr>) else None
      | Opt_v \<Rightarrow> parse_opts xs opt
      | Opt_unknown \<Rightarrow> parse_opts xs (opt\<lparr>sw_err := True\<rparr>))"

text \<open>
  An operand that is missing is \<^const>\<open>None\<close>; a file that cannot be opened is \<open>Some None\<close>.  The disk in the result is \<^const>\<open>None\<close> when it was not opened.
\<close>

definition swriteboot :: "sw_opt list \<Rightarrow> bytes option option \<Rightarrow> bytes option option \<Rightarrow> bytes option option \<Rightarrow> bytes \<Rightarrow> (int \<times> bytes option) option" where
  "swriteboot opts device bootfile krn buf =
     (case parse_opts opts \<lparr>sw_err = False, force_overlap = 0, sw_bootpart = 0\<rparr> of
        None \<Rightarrow> Some (1, None)
      | Some opt \<Rightarrow>
          case (device, bootfile) of
            (Some dev, Some bf) \<Rightarrow>
              if sw_err opt then Some (1, None)
              else
                (case (dev, bf, krn) of
                   (Some disk, Some b, None) \<Rightarrow> map_option (map_prod id Some) (swriteboot_main (force_overlap opt) (sw_bootpart opt) b None buf disk)
                 | (Some disk, Some b, Some (Some k)) \<Rightarrow> map_option (map_prod id Some) (swriteboot_main (force_overlap opt) (sw_bootpart opt) b (Some k) buf disk)
                 | (disk, _, _) \<Rightarrow> Some (1, disk))
          | _ \<Rightarrow> Some (1, None))"

subsection \<open>What the writes change\<close>

lemma file_write_nth:
  assumes "i < length f" "i < off \<or> off + length x \<le> i"
  shows "file_write off x f ! i = f ! i"
  using assms by (auto simp: file_write_def nth_append min_def)

lemma length_file_write_ge: "length f \<le> length (file_write off x f)"
  by (auto simp: file_write_def)

lemma file_write_end: "off + length x \<le> length (file_write off x f)"
  by (auto simp: file_write_def)

lemma file_write_append: "file_write (off + length a) b (file_write off a f) = file_write off (a @ b) f"
  by (auto simp: file_write_def min_def add_ac)

lemma file_write_Nil: "off \<le> length f \<Longrightarrow> file_write off [] f = f"
  by (simp add: file_write_def)

lemma slice_file_write: "slice off (length x) (file_write off x f) = x"
  by (auto simp: file_write_def slice_def min_def)

lemma copy_file_disk: "data \<noteq> [] \<or> pos \<le> length disk \<Longrightarrow> \<exists>buf'. copy_file data pos buf disk = (pos + length data, buf', file_write pos data disk) \<and> (length buf = 2048 \<longrightarrow> length buf' = 2048)"
proof (induction data pos buf disk rule: copy_file.induct)
  case (1 data pos buf disk)
  show ?case
  proof (cases "data = []")
    case True
    then show ?thesis using 1(2) by (simp add: copy_file.simps file_write_Nil)
  next
    case False
    let ?d = "take 2048 data"
    have "pos + length ?d \<le> length (file_write pos ?d disk)" by (rule file_write_end)
    with 1(1) [OF False refl] obtain buf' where b: "copy_file (drop 2048 data) (pos + length ?d) (overwrite ?d buf) (file_write pos ?d disk)
        = (pos + length ?d + length (drop 2048 data), buf', file_write (pos + length ?d) (drop 2048 data) (file_write pos ?d disk))"
      "length (overwrite ?d buf) = 2048 \<longrightarrow> length buf' = 2048" by blast
    have "file_write (pos + length ?d) (drop 2048 data) (file_write pos ?d disk) = file_write pos data disk"
      using file_write_append [of pos ?d "drop 2048 data" disk] by (simp only: append_take_drop_id)
    moreover have "length buf = 2048 \<longrightarrow> length (overwrite ?d buf) = 2048" by (simp add: overwrite_def)
    ultimately show ?thesis using b False by (simp add: copy_file.simps [of data] Let_def min_def)
  qed
qed

lemma le64_overwrite: "off + 8 \<le> length d \<Longrightarrow> le64_at (overwrite d buf) off = le64_at d off"
  by (simp add: le64_at_def slice_def overwrite_def)

lemma le64_file_write: "a + 8 \<le> length x \<Longrightarrow> le64_at (file_write off x f) (off + a) = le64_at x a"
  using le64_slice [of a "length x" off "file_write off x f"] by (simp add: slice_file_write)

lemma le64_file_write_other: "a + 8 \<le> length f \<Longrightarrow> a + 8 \<le> off \<or> off + length x \<le> a \<Longrightarrow> le64_at (file_write off x f) a = le64_at f a"
  unfolding le64_at_def
  by (rule arg_cong [where f = le_word], rule nth_equalityI) (use length_file_write_ge [of f off x] in \<open>auto simp: length_slice nth_slice file_write_nth\<close>)

text \<open>The words of a sector after the partition number has been set.\<close>

lemma set_config_prefix:
  fixes part :: int
  assumes "length buf = 2048" "m \<le> 64"
  defines "b \<equiv> foldl (\<lambda>buf i. if le64_at buf (8 * i) = ABOOT_MAGIC then put_le64 (8 * (i + 1)) (word_of_int part) buf else buf) buf [0..<m]"
  shows "length b = 2048 \<and> (\<forall>j \<le> 64. le64_at b (8 * j) = (if 0 < j \<and> j \<le> m \<and> le64_at b (8 * (j - 1)) = ABOOT_MAGIC then word_of_int part else le64_at buf (8 * j)))"
  using assms(2) unfolding b_def
proof (induction m)
  case (Suc m)
  let ?f = "\<lambda>buf i. if le64_at buf (8 * i) = ABOOT_MAGIC then put_le64 (8 * (i + 1)) (word_of_int part) buf else buf"
  let ?b = "foldl ?f buf [0..<m]"
  have ih: "length ?b = 2048" "\<forall>j \<le> 64. le64_at ?b (8 * j) = (if 0 < j \<and> j \<le> m \<and> le64_at ?b (8 * (j - 1)) = ABOOT_MAGIC then word_of_int part else le64_at buf (8 * j))"
    using Suc by auto
  have step: "foldl ?f buf [0..<Suc m] = ?f ?b m" by simp
  show ?case
  proof (cases "le64_at ?b (8 * m) = ABOOT_MAGIC")
    case True
    have o: "le64_at (put_le64 (8 * (m + 1)) w ?b) (8 * j) = (if j = m + 1 then w else le64_at ?b (8 * j))" if "j \<le> 64" for j w
    proof (cases "j = m + 1")
      case False
      then have "8 * j + 8 \<le> 8 * (m + 1) \<or> 8 * (m + 1) + 8 \<le> 8 * j" by arith
      then show ?thesis using False ih(1) Suc.prems by (simp add: le64_put_other)
    qed (use ih(1) Suc.prems in \<open>simp add: le64_put\<close>)
    let ?c = "put_le64 (8 * (m + 1)) (word_of_int part) ?b"
    have "le64_at ?c (8 * j) = (if 0 < j \<and> j \<le> Suc m \<and> le64_at ?c (8 * (j - 1)) = ABOOT_MAGIC then word_of_int part else le64_at buf (8 * j))" if "j \<le> 64" for j
    proof (cases "j = m + 1")
      case True
      then show ?thesis using o [OF that] o [of m] \<open>le64_at ?b (8 * m) = ABOOT_MAGIC\<close> that by simp
    next
      case False
      have "le64_at ?b (8 * j) = (if 0 < j \<and> j \<le> m \<and> le64_at ?b (8 * (j - 1)) = ABOOT_MAGIC then word_of_int part else le64_at buf (8 * j))" using ih(2) that by blast
      moreover have "le64_at ?c (8 * (j - 1)) = le64_at ?b (8 * (j - 1))" if "j \<le> m"
      proof -
        have "j - 1 \<le> 64" "j - 1 \<noteq> m + 1" using that Suc.prems by linarith+
        then show ?thesis using o [of "j - 1"] by simp
      qed
      ultimately show ?thesis using False o [OF that, of "word_of_int part"] by (simp add: le_Suc_eq) metis
    qed
    moreover have "length ?c = 2048" using ih(1) Suc.prems by simp
    ultimately show ?thesis using True unfolding step by simp
  next
    case False
    have "le64_at ?b (8 * j) = (if 0 < j \<and> j \<le> Suc m \<and> le64_at ?b (8 * (j - 1)) = ABOOT_MAGIC then word_of_int part else le64_at buf (8 * j))" if "j \<le> 64" for j
    proof -
      have "le64_at ?b (8 * j) = (if 0 < j \<and> j \<le> m \<and> le64_at ?b (8 * (j - 1)) = ABOOT_MAGIC then word_of_int part else le64_at buf (8 * j))" using ih(2) that by blast
      then show ?thesis using False by (cases "j = Suc m") (simp_all add: le_Suc_eq)
    qed
    then show ?thesis using ih(1) False unfolding step by simp
  qed
qed (use assms(1) in simp)

lemma set_config_words:
  assumes "length buf = 2048"
  shows "length (set_config part buf) = 2048"
    "j < 64 \<Longrightarrow> le64_at (set_config part buf) (8 * j) = (if 0 < j \<and> le64_at (set_config part buf) (8 * (j - 1)) = ABOOT_MAGIC then word_of_int part else le64_at buf (8 * j))"
  using set_config_prefix [OF assms, of 64 part] by (auto simp: set_config_def)

subsection \<open>The written disk\<close>

definition kernel_bytes :: "bytes option \<Rightarrow> bytes" where "kernel_bytes krn = (case krn of None \<Rightarrow> [] | Some k \<Rightarrow> k)"

definition boot_header :: "bytes \<Rightarrow> bytes" where
  "boot_header bootfile = le_encode 8 (of_nat (sectors_of bootfile) :: u64) @ le_encode 8 (of_nat sw_boot_sector :: u64) @ le_encode 8 (0 :: u64)"

lemma length_boot_header [simp]: "length (boot_header b) = 24"
  by (simp add: boot_header_def)

lemma write_loader_eq:
  assumes "bootfile \<noteq> []" "length buf = 2048"
  shows "\<exists>buf'. length buf' = 2048 \<and> write_loader bootfile krn part buf disk = write_config part buf' (file_write 1024 (bootfile @ kernel_bytes krn) (file_write 480 (boot_header bootfile) disk))"
proof -
  let ?d = "file_write 480 (boot_header bootfile) disk" and ?e = "file_write 1024 bootfile (file_write 480 (boot_header bootfile) disk)"
  obtain b1 where b1: "copy_file bootfile 1024 buf ?d = (1024 + length bootfile, b1, ?e)" "length b1 = 2048" using copy_file_disk [of bootfile 1024 ?d buf] assms by blast
  have "1024 + length bootfile \<le> length ?e" by (rule file_write_end)
  then obtain b2 where b2: "copy_file (kernel_bytes krn) (1024 + length bootfile) b1 ?e = (1024 + length bootfile + length (kernel_bytes krn), b2, file_write 1024 (bootfile @ kernel_bytes krn) ?d)"
      "length b2 = 2048"
    using copy_file_disk [of "kernel_bytes krn" "1024 + length bootfile" ?e b1] b1(2) file_write_append [of 1024 bootfile "kernel_bytes krn" ?d] by auto
  have w: "write_loader bootfile krn part buf disk = (case krn of None \<Rightarrow> write_config part b1 ?e | Some k \<Rightarrow> write_config part (fst (snd (copy_file k (1024 + length bootfile) b1 ?e)))
      (snd (snd (copy_file k (1024 + length bootfile) b1 ?e))))"
    using b1(1) by (simp add: write_loader_def boot_header_def sw_boot_sector_def Let_def split: option.split prod.split)
  show ?thesis
  proof (cases krn)
    case None
    then show ?thesis using w b1(2) by (auto simp: kernel_bytes_def)
  next
    case (Some k)
    then show ?thesis using w b2 by (auto simp: kernel_bytes_def)
  qed
qed

lemma write_config_cases:
  assumes "length buf = 2048"
  obtains "part = 0" "write_config part buf disk = disk"
  | s where "part \<noteq> 0" "length s = 512" "write_config part buf disk = file_write 1024 s disk" "s = take 512 (set_config part (overwrite (slice 1024 512 disk) buf))"
proof (cases "part = 0")
  case False
  have "length (overwrite (slice 1024 512 disk) buf) = 2048" using assms by (simp add: overwrite_def slice_def)
  then have "length (take 512 (set_config part (overwrite (slice 1024 512 disk) buf))) = 512" by (simp add: set_config_words)
  then show ?thesis using that(2) False by (simp add: write_config_def sw_boot_sector_def Let_def)
qed (use that(1) in \<open>simp add: write_config_def\<close>)

lemma sectors_cover: "length d \<le> 512 * sectors_of d" "d \<noteq> [] \<Longrightarrow> 0 < sectors_of d"
proof -
  show "length d \<le> 512 * sectors_of d" unfolding sectors_of_def by linarith
  show "d \<noteq> [] \<Longrightarrow> 0 < sectors_of d" by (cases d) (simp_all add: sectors_of_def)
qed

definition boot_end :: "bytes \<Rightarrow> bytes option \<Rightarrow> nat" where
  "boot_end bootfile krn = sectors_of bootfile + sw_boot_sector + (case krn of None \<Rightarrow> 0 | Some k \<Rightarrow> sectors_of k)"

lemma boot_end_covers: "bootfile \<noteq> [] \<Longrightarrow> 1024 + length (bootfile @ kernel_bytes krn) \<le> 512 * boot_end bootfile krn \<and> 1536 \<le> 512 * boot_end bootfile krn"
  using sectors_cover [of bootfile] sectors_cover(1) [of "kernel_bytes krn"] by (auto simp: boot_end_def kernel_bytes_def sw_boot_sector_def split: option.splits)

lemma write_loader_other:
  assumes "bootfile \<noteq> []" "length buf = 2048" "512 \<le> length disk" "i < length disk" "i < 480 \<or> 504 \<le> i \<and> i < 1024 \<or> 512 * boot_end bootfile krn \<le> i"
  shows "write_loader bootfile krn part buf disk ! i = disk ! i" "length disk \<le> length (write_loader bootfile krn part buf disk)"
proof -
  let ?h = "file_write 480 (boot_header bootfile) disk" and ?i = "bootfile @ kernel_bytes krn"
  let ?d = "file_write 1024 ?i ?h"
  obtain buf' where b: "length buf' = 2048" "write_loader bootfile krn part buf disk = write_config part buf' ?d" using write_loader_eq [OF assms(1,2)] by blast
  note c = boot_end_covers [OF assms(1), of krn]
  have h: "?h ! i = disk ! i" "length disk \<le> length ?h" using assms c by (auto simp: file_write_nth length_file_write_ge)
  have d: "?d ! i = disk ! i" "length disk \<le> length ?d"
    using h c assms(4,5) file_write_nth [of i ?h 1024 ?i] length_file_write_ge [of ?h 1024 ?i] by auto
  have "write_config part buf' ?d ! i = disk ! i \<and> length disk \<le> length (write_config part buf' ?d)"
  proof (rule write_config_cases [OF b(1), of part ?d])
    fix s :: bytes assume s: "length s = 512" "write_config part buf' ?d = file_write 1024 s ?d"
    then show ?thesis using d c assms(4,5) file_write_nth [of i ?d 1024 s] length_file_write_ge [of ?d 1024 s] by auto
  qed (use d in simp)
  then show "write_loader bootfile krn part buf disk ! i = disk ! i" "length disk \<le> length (write_loader bootfile krn part buf disk)" using b(2) by simp_all
qed

lemma write_loader_head:
  assumes "bootfile \<noteq> []" "length buf = 2048" "512 \<le> length disk"
    and e_def: "e = write_loader bootfile krn part buf disk"
  shows "512 \<le> length e" "slice 64 276 e = slice 64 276 disk" "le64_at e 480 = of_nat (sectors_of bootfile)" "le64_at e 488 = 2" "le64_at e 496 = 0"
proof -
  let ?h = "file_write 480 (boot_header bootfile) disk"
  let ?d = "file_write 1024 (bootfile @ kernel_bytes krn) ?h"
  have l: "length disk \<le> length e" using write_loader_other(2) [OF assms(1-3), of 0] assms(3) unfolding e_def by (cases disk) auto
  show "512 \<le> length e" using l assms(3) by simp
  show "slice 64 276 e = slice 64 276 disk"
    by (rule nth_equalityI) (use l assms(3) write_loader_other(1) [OF assms(1-3)] in \<open>auto simp: length_slice nth_slice e_def\<close>)
  obtain buf' where b: "length buf' = 2048" "e = write_config part buf' ?d" using write_loader_eq [OF assms(1,2)] unfolding e_def by blast
  have lh: "504 \<le> length ?h" "length ?h \<le> length ?d" using file_write_end [of 480 "boot_header bootfile" disk] by (simp_all add: length_file_write_ge)
  have c: "le64_at e a = le64_at ?h a" if "a + 8 \<le> 504" for a
  proof (rule write_config_cases [OF b(1), of part ?d])
    assume "write_config part buf' ?d = ?d"
    then show ?thesis using b(2) that lh by (simp add: le64_file_write_other)
  next
    fix s :: bytes assume "write_config part buf' ?d = file_write 1024 s ?d"
    then show ?thesis using b(2) that lh by (simp add: le64_file_write_other)
  qed
  have h: "le64_at ?h (480 + a) = le64_at (boot_header bootfile) a" if "a + 8 \<le> 24" for a using that by (simp add: le64_file_write)
  have f: "le64_at (boot_header bootfile) 0 = of_nat (sectors_of bootfile)" "le64_at (boot_header bootfile) 8 = 2" "le64_at (boot_header bootfile) 16 = 0"
    by (simp_all add: boot_header_def le64_at_def slice_def sw_boot_sector_def le_word_encode)
  show "le64_at e 480 = of_nat (sectors_of bootfile)" "le64_at e 488 = 2" "le64_at e 496 = 0"
    using c [of 480] c [of 488] c [of 496] h [of 0] h [of 8] h [of 16] f by simp_all
qed

lemma main_disk:
  assumes m: "swriteboot_main force part bootfile krn buf disk = Some (0, disk')"
  obtains d p b where "read_disklabel disk = Some d" "overlaplabel d 2 (sint (of_nat (boot_end bootfile krn) :: u32)) force = Some (- 1)"
    "if part = 0 then read_configured_partition disk buf = Some (p, b) else p = part \<and> b = buf" "disk' = snd (dosumlabel (write_loader bootfile krn p b disk) d)"
proof -
  obtain d where d: "read_disklabel disk = Some d" using m by (auto simp: swriteboot_main_def Let_def split: option.splits)
  have o: "overlaplabel d 2 (sint (of_nat (boot_end bootfile krn) :: u32)) force = Some (- 1)"
    using m d by (auto simp: swriteboot_main_def Let_def boot_end_def sw_boot_sector_def split: option.splits if_splits)
  then show ?thesis using m d that [OF d o] by (auto simp: swriteboot_main_def Let_def boot_end_def sw_boot_sector_def split: option.splits if_splits)
qed

lemma write_loader_image:
  assumes "512 \<le> length bootfile" "length buf = 2048" "part \<noteq> 0" and e_def: "e = write_loader bootfile krn part buf disk"
  shows "1024 + length bootfile \<le> length e" "slice 1536 (length bootfile - 512) e = drop 512 bootfile"
    "j < 64 \<Longrightarrow> le64_at e (1024 + 8 * j) = (if 0 < j \<and> le64_at e (1024 + 8 * (j - 1)) = ABOOT_MAGIC then word_of_int part else le64_at bootfile (8 * j))"
proof -
  let ?i = "bootfile @ kernel_bytes krn" and ?h = "file_write 480 (boot_header bootfile) disk"
  let ?d = "file_write 1024 ?i ?h"
  have ne: "bootfile \<noteq> []" using assms(1) by auto
  obtain buf' where b: "length buf' = 2048" "e = write_config part buf' ?d" using write_loader_eq [OF ne assms(2)] unfolding e_def by blast
  have "slice 1024 512 ?d = slice 0 512 (slice 1024 (length ?i) ?d)" using assms(1) by (simp add: slice_def)
  then have s: "slice 1024 512 ?d = take 512 bootfile" using assms(1) unfolding slice_file_write by (simp add: slice_def)
  define c where "c = set_config part (overwrite (take 512 bootfile) buf')"
  have lc: "length (overwrite (take 512 bootfile) buf') = 2048" using b(1) assms(1) by (simp add: overwrite_def)
  have e: "e = file_write 1024 (take 512 c) ?d" using b(2) assms(3) s by (simp add: write_config_def sw_boot_sector_def c_def)
  note w = set_config_words [OF lc, where part = part, folded c_def]
  have ld: "1024 + length bootfile \<le> length ?d" using file_write_end [of 1024 ?i ?h] by simp
  then show "1024 + length bootfile \<le> length e" using length_file_write_ge [of ?d 1024 "take 512 c"] unfolding e by simp
  have "slice 1536 (length bootfile - 512) e = slice 1536 (length bootfile - 512) ?d"
    by (rule nth_equalityI) (use ld w(1) length_file_write_ge [of ?d 1024 "take 512 c"] assms(1) in \<open>auto simp: e length_slice nth_slice file_write_nth\<close>)
  also have "\<dots> = slice 512 (length bootfile - 512) (slice 1024 (length ?i) ?d)" using assms(1) by (simp add: slice_def drop_take min_def)
  finally show "slice 1536 (length bootfile - 512) e = drop 512 bootfile" using assms(1) unfolding slice_file_write by (simp add: slice_def)
  have f: "le64_at e (1024 + 8 * j) = le64_at c (8 * j)" if "j < 64" for j
    using that w(1) by (simp add: e le64_file_write le64_take)
  assume j: "j < 64"
  have "le64_at (overwrite (take 512 bootfile) buf') (8 * j) = le64_at bootfile (8 * j)" using assms(1) j by (simp add: le64_overwrite le64_take)
  then show "le64_at e (1024 + 8 * j) = (if 0 < j \<and> le64_at e (1024 + 8 * (j - 1)) = ABOOT_MAGIC then word_of_int part else le64_at bootfile (8 * j))"
    using w(2) [OF j] f [OF j] f [of "j - 1"] j by (cases j) simp_all
qed

lemma dosumlabel_le64:
  assumes "512 \<le> length disk" "a + 8 \<le> length disk" "a + 8 \<le> 504 \<or> 512 \<le> a"
  shows "le64_at (snd (dosumlabel disk d)) a = le64_at disk a"
  using assms by (simp add: dosumlabel_def slice_def Let_def le64_file_write_other)

lemma sint_uint_small: "uint w < 2 ^ 31 \<Longrightarrow> sint w = uint w" for w :: u32
proof -
  assume "uint w < 2 ^ 31"
  moreover have "- (2 ^ 31) \<le> uint w" by (rule order_trans [of _ 0]) simp_all
  ultimately show ?thesis by (simp add: sint_uint signed_take_bit_int_eq_self)
qed

lemma uint_plus_small: "uint a + uint b < 2 ^ 31 \<Longrightarrow> uint (a + b) = uint a + uint b" for a b :: u32
  using uint_add_lem [of a b] by simp

text \<open>The disk after \<open>swriteboot\<close> with a chosen partition.\<close>

lemma main_image:
  assumes m: "swriteboot_main force part bootfile krn buf disk = Some (0, disk')" and part: "part \<noteq> 0"
    and len: "length buf = 2048" "512 \<le> length disk" "512 \<le> length bootfile"
  shows "boot_sector_ok (take 512 disk') \<and> bb_count disk' = of_nat (sectors_of bootfile) \<and> bb_lbn disk' = 2 \<and> bb_flags disk' = 0
     \<and> read_disklabel disk' = read_disklabel disk \<and> 1024 + length bootfile \<le> length disk' \<and> slice 1536 (length bootfile - 512) disk' = drop 512 bootfile
     \<and> (\<forall>j < 64. le64_at disk' (1024 + 8 * j) = (if 0 < j \<and> le64_at disk' (1024 + 8 * (j - 1)) = ABOOT_MAGIC then word_of_int part else le64_at bootfile (8 * j)))"
proof -
  obtain d where d: "read_disklabel disk = Some d" and e: "disk' = snd (dosumlabel (write_loader bootfile krn part buf disk) d)"
    by (rule main_disk [OF m]) (use part in auto)
  define w where "w = write_loader bootfile krn part buf disk"
  have ne: "bootfile \<noteq> []" using len(3) by auto
  note h = write_loader_head [OF ne len(1,2) w_def]
  note i = write_loader_image [OF len(3,1) part w_def]
  have ld: "length d = 276" "slice 64 276 w = d" "340 \<le> length disk" using d h(2) len(2) by (auto simp: read_disklabel_iff length_slice)
  note s = dosumlabel_disk [OF h(1) ld(1)]
  have D: "disk' = snd (dosumlabel w d)" using e by (simp add: w_def)
  have q: "le64_at disk' a = le64_at w a" if "a + 8 \<le> length w" "a + 8 \<le> 504 \<or> 512 \<le> a" for a unfolding D by (rule dosumlabel_le64 [OF h(1) that])
  have "boot_sector_ok (take 512 disk')" unfolding D by (rule sum_same_label [OF h(1) ld(2)])
  moreover have "bb_count disk' = of_nat (sectors_of bootfile)" "bb_lbn disk' = 2" "bb_flags disk' = 0" using q [of 480] q [of 488] q [of 496] h by (simp_all add: bb_defs)
  moreover have "read_disklabel disk' = read_disklabel disk"
  proof -
    have "slice 64 276 disk' = d" "340 \<le> length disk'" using s(1,3) ld(2) h(1) D by simp_all
    then have "read_disklabel disk' = Some d" using d read_disklabel_iff [OF ld(3), of d] by (auto simp: read_disklabel_iff)
    then show ?thesis using d by simp
  qed
  moreover have "1024 + length bootfile \<le> length disk'" using i(1) s(1) D by simp
  moreover have "slice 1536 (length bootfile - 512) disk' = drop 512 bootfile"
    unfolding i(2) [symmetric] by (rule nth_equalityI) (use i(1) s(1,2) D len(3) in \<open>auto simp: length_slice nth_slice\<close>)
  moreover have "\<forall>j < 64. le64_at disk' (1024 + 8 * j) = (if 0 < j \<and> le64_at disk' (1024 + 8 * (j - 1)) = ABOOT_MAGIC then word_of_int part else le64_at bootfile (8 * j))"
  proof (intro allI impI)
    fix j :: nat assume j: "j < 64"
    have "le64_at disk' (1024 + 8 * k) = le64_at w (1024 + 8 * k)" if "k < 64" for k using q [of "1024 + 8 * k"] that i(1) len(3) by simp
    then show "le64_at disk' (1024 + 8 * j) = (if 0 < j \<and> le64_at disk' (1024 + 8 * (j - 1)) = ABOOT_MAGIC then word_of_int part else le64_at bootfile (8 * j))"
      using i(3) [OF j] j by simp
  qed
  ultimately show ?thesis by blast
qed

subsection \<open>Properties\<close>

text \<open>
  C7.  \<open>swriteboot\<close> does not touch partitions: when it ends with exit code 0, every byte behind the boot sector that lies in a partition is as it was, unless the partition was named
  with \<open>-f\<close> or is exactly the range of sectors that is written, which the test for overlaps does not see.
\<close>

theorem swriteboot_spares_partitions:
  assumes m: "swriteboot_main force part bootfile krn buf disk = Some (0, disk')" and d: "read_disklabel disk = Some d"
    and len: "length buf = 2048" "512 \<le> length disk" "bootfile \<noteq> []" "boot_end bootfile krn < 2 ^ 31"
    and x: "x < unat (d_npartitions d)" "\<not> bit force x" "0 < uint (part_size d x)" "uint (part_offset d x) + uint (part_size d x) < 2 ^ 31"
    and same: "\<not> (uint (part_offset d x) = 2 \<and> uint (part_offset d x) + uint (part_size d x) = int (boot_end bootfile krn))"
    and i: "512 * uint (part_offset d x) \<le> int i" "int i < 512 * (uint (part_offset d x) + uint (part_size d x))" "512 \<le> i" "i < length disk"
  shows "disk' ! i = disk ! i"
proof -
  obtain p b where o: "overlaplabel d 2 (sint (of_nat (boot_end bootfile krn) :: u32)) force = Some (- 1)"
    and b: "if part = 0 then read_configured_partition disk buf = Some (p, b) else p = part \<and> b = buf" and e: "disk' = snd (dosumlabel (write_loader bootfile krn p b disk) d)"
    by (rule main_disk [OF m]) (use d in simp)
  have lb: "length b = 2048" using b len(1) by (auto simp: read_configured_partition_def Let_def overwrite_def slice_def split: if_splits)
  have "sint (word_of_int (int (boot_end bootfile krn)) :: u32) = int (boot_end bootfile krn)" by (rule sint_word_of_int_pos) (use len(4) in auto)
  then have n: "sint (of_nat (boot_end bootfile krn) :: u32) = int (boot_end bootfile krn)" by simp
  have s: "part_start d x = uint (part_offset d x)" unfolding part_start_def by (rule sint_uint_small) (use x(3,4) in linarith)
  have q: "part_end d x = uint (part_offset d x) + uint (part_size d x)" using x(4) by (simp add: part_end_def sint_uint_small uint_plus_small)
  have "\<not> does_overlap (part_start d x) (part_end d x) 2 (int (boot_end bootfile krn))"
    by (rule overlap_loop_clear [OF o [unfolded overlaplabel_def n] _ x(2)]) (use x(1,3) q uint_nonnegative [of "part_offset d x"] in \<open>simp, linarith\<close>)
  moreover have "2 < int (boot_end bootfile krn)" using boot_end_covers [OF len(3), of krn] by simp
  ultimately have "uint (part_offset d x) + uint (part_size d x) \<le> 2 \<or> int (boot_end bootfile krn) \<le> uint (part_offset d x)"
    using does_overlap_iff [of "part_start d x" "part_end d x" 2 "int (boot_end bootfile krn)"] same x(3) unfolding s q by auto
  then have "i < 1024 \<or> 512 * boot_end bootfile krn \<le> i" using i(1,2) by (elim disjE) simp_all
  then have "i < 480 \<or> 504 \<le> i \<and> i < 1024 \<or> 512 * boot_end bootfile krn \<le> i" using i(3) by auto
  note w = write_loader_other [OF len(3) lb len(2) i(4) this, of p]
  have "write_loader bootfile krn p b disk ! i = disk ! i" "i < length (write_loader bootfile krn p b disk)" using w i(4) by simp_all
  moreover have "length d = 276" "512 \<le> length (write_loader bootfile krn p b disk)" using d write_loader_head(1) [OF len(3) lb len(2) refl] len(2) by (auto simp: read_disklabel_iff length_slice)
  ultimately show ?thesis using dosumlabel_disk(2) i(3) unfolding e by simp
qed

text \<open>
  After \<open>swriteboot -c\<close> the console finds the loader: the boot sector has a valid sum and names the sectors from 2 on, the label is as it was, and these sectors hold the bytes of the
  boot file, except that in the first of them each word behind the magic number is the chosen partition.
\<close>

theorem swriteboot_boots:
  assumes m: "swriteboot_main force part bootfile krn buf disk = Some (0, disk')" and part: "part \<noteq> 0"
    and len: "length buf = 2048" "512 \<le> length disk" "512 \<le> length bootfile"
  shows "boot_sector_ok (take 512 disk') \<and> bb_count disk' = of_nat (sectors_of bootfile) \<and> bb_lbn disk' = 2 \<and> bb_flags disk' = 0
     \<and> read_disklabel disk' = read_disklabel disk \<and> 1024 + length bootfile \<le> length disk' \<and> slice 1536 (length bootfile - 512) disk' = drop 512 bootfile
     \<and> (\<forall>j < 64. le64_at disk' (1024 + 8 * j) = (if 0 < j \<and> le64_at disk' (1024 + 8 * (j - 1)) = ABOOT_MAGIC then word_of_int part else le64_at bootfile (8 * j)))"
  by (rule main_image [OF assms])

subsection \<open>A disk\<close>

text \<open>A label with one partition in the sectors 16 to 115, and a boot file of 616 bytes with the magic number in its second word.\<close>

definition sw_label :: bytes where "sw_label = put_le16 138 1 (put_partition 0 16 100 8 (fixmagic (replicate sizeof_disklabel 0)))"
definition sw_disk :: bytes where "sw_disk = put_bytes 64 sw_label (replicate 512 0) @ replicate 8192 0"
definition sw_file :: bytes where "sw_file = le_encode 8 (0 :: u64) @ le_encode 8 ABOOT_MAGIC @ replicate 600 0"

lemma sw_label_ok: "label_ok sw_label" "d_npartitions sw_label = 1" "part_offset sw_label 0 = 16" "part_size sw_label 0 = 100"
proof -
  have z: "label_ok (fixmagic (replicate sizeof_disklabel 0))" using zero_label_ok by (simp add: zero_disklabel_def)
  then have l: "length (fixmagic (replicate sizeof_disklabel 0)) = 276" by (simp add: label_ok_def)
  show "label_ok sw_label" unfolding sw_label_def by (rule set_npartitions_ok [OF put_partition_ok(1) [OF z]]) simp_all
  show "d_npartitions sw_label = 1" "part_offset sw_label 0 = 16" "part_size sw_label 0 = 100"
    using l by (simp_all add: sw_label_def put_partition_def d_npartitions_def part_offset_def part_size_def Let_def length_put_bytes le_put le_put_other le_put_bytes)
qed

lemma sw_disk_label: "read_disklabel sw_disk = Some sw_label" "length sw_disk = 8704"
proof -
  have l: "length sw_label = 276" using sw_label_ok(1) by (simp add: label_ok_def)
  show n: "length sw_disk = 8704" using l by (simp add: sw_disk_def length_put_bytes)
  have "slice 64 276 sw_disk = slice 64 276 (put_bytes 64 sw_label (replicate 512 0))" using l by (simp add: sw_disk_def slice_def length_put_bytes)
  then have "slice 64 276 sw_disk = sw_label" using slice_put_bytes [of 64 sw_label "replicate 512 0"] l by simp
  then show "read_disklabel sw_disk = Some sw_label" using n sw_label_ok(1) by (simp add: read_disklabel_iff label_ok_def)
qed

lemma sw_file_facts: "length sw_file = 616" "boot_end sw_file None = 4" "le64_at sw_file 0 = 0" "le64_at sw_file 8 = ABOOT_MAGIC"
  by (simp_all add: sw_file_def boot_end_def sectors_of_def sw_boot_sector_def le64_at_def slice_def le_word_encode)

lemma sw_example: "\<exists>disk'. swriteboot_main 0 1 sw_file None (replicate 2048 0) sw_disk = Some (0, disk')"
proof -
  have "overlaplabel sw_label 2 4 0 = Some (- 1)"
    by (simp add: overlaplabel_def sw_label_ok part_start_def part_end_def does_overlap_def MAXPARTITIONS_def)
  then show ?thesis using sw_file_facts(2) by (simp add: swriteboot_main_def sw_disk_label Let_def boot_end_def sw_boot_sector_def)
qed

theorem swriteboot_spares_partitions_witness:
  "\<exists>disk'. swriteboot_main 0 1 sw_file None (replicate 2048 0) sw_disk = Some (0, disk') \<and> disk' ! 8200 = sw_disk ! 8200"
proof -
  obtain disk' where m: "swriteboot_main 0 1 sw_file None (replicate 2048 0) sw_disk = Some (0, disk')" using sw_example by blast
  have "sw_file \<noteq> []" using sw_file_facts(1) by auto
  with swriteboot_spares_partitions [OF m sw_disk_label(1), of 0 8200] m show ?thesis by (simp add: sw_disk_label(2) sw_file_facts(2) sw_label_ok)
qed

theorem swriteboot_boots_witness:
  "\<exists>disk'. swriteboot_main 0 1 sw_file None (replicate 2048 0) sw_disk = Some (0, disk') \<and> boot_sector_ok (take 512 disk') \<and> bb_count disk' = 2 \<and> le64_at disk' 1040 = 1"
proof -
  obtain disk' where m: "swriteboot_main 0 1 sw_file None (replicate 2048 0) sw_disk = Some (0, disk')" using sw_example by blast
  from swriteboot_boots [OF m] have b: "boot_sector_ok (take 512 disk')" "bb_count disk' = of_nat (sectors_of sw_file)"
    and w: "\<forall>j < 64. le64_at disk' (1024 + 8 * j) = (if 0 < j \<and> le64_at disk' (1024 + 8 * (j - 1)) = ABOOT_MAGIC then word_of_int 1 else le64_at sw_file (8 * j))"
    by (simp_all add: sw_disk_label(2) sw_file_facts(1))
  have "le64_at disk' 1024 = 0" using w [rule_format, of 0] by (simp add: sw_file_facts)
  then have "le64_at disk' 1032 = ABOOT_MAGIC" using w [rule_format, of 1] by (simp add: sw_file_facts ABOOT_MAGIC_def)
  then have "le64_at disk' 1040 = 1" using w [rule_format, of 2] by simp
  with m b show ?thesis using sw_file_facts(1) by (simp add: sectors_of_def)
qed

end
