(* ===== verification/Abootconf.thy ===== *)
theory Abootconf
  imports Swriteboot
begin

text \<open>
  The host program that shows or sets the partition with the configuration file in an installed loader (\<^verbatim>\<open>src/tools/abootconf.c\<close>).

  The result has the exit code, the number that is printed and the disk.
\<close>

unbundle bit_operations_syntax

primrec find_magic :: "bytes \<Rightarrow> nat list \<Rightarrow> nat option" where
  "find_magic sector [] = None"
| "find_magic sector (i # is) = (if le64_at sector (8 * i) = ABOOT_MAGIC then Some i else find_magic sector is)"

definition abootconf_disk :: "bytes option \<Rightarrow> int \<Rightarrow> bytes \<Rightarrow> (int \<times> int option \<times> bytes) option" where
  "abootconf_disk arg part disk =
     (let sector = slice 0 512 disk
      in if length sector \<noteq> 512 then Some (1, None, disk)
         else
           let aboot_pos = le64_at sector 488 * 512
           in if sint aboot_pos < 0 then Some (1, None, disk)
              else
                let sector = slice (unat aboot_pos) 512 disk
                in if length sector \<noteq> 512 then Some (1, None, disk)
                   else
                     case find_magic sector [0..<64] of
                       None \<Rightarrow> Some (1, None, disk)
                     | Some i \<Rightarrow>
                         if i + 1 \<ge> 64 then None
                         else if part < 0 then Some (0, Some (sint (le64_at sector (8 * (i + 1)))), disk)
                         else
                           let value = word_of_int (atoi (case arg of None \<Rightarrow> [] | Some s \<Rightarrow> s)); sector = put_le64 (8 * (i + 1)) value sector
                           in Some (0, None, file_write (unat aboot_pos) sector disk))"

definition abootconf :: "bytes option \<Rightarrow> bytes option \<Rightarrow> (int \<times> int option \<times> bytes option) option" where
  "abootconf device arg =
     (let part = (case arg of None \<Rightarrow> - 1 | Some s \<Rightarrow> strtol10 s); range = (case arg of None \<Rightarrow> False | Some s \<Rightarrow> clamp (dec_long s) \<noteq> dec_long s)
      in if range then Some (1, None, device)
         else
           case device of
             None \<Rightarrow> Some (1, None, None)
           | Some disk \<Rightarrow> map_option (\<lambda>(c, n, disk). (c, n, Some disk)) (abootconf_disk arg part disk))"

subsection \<open>Finding the magic number\<close>

lemma find_magic_append: "find_magic s (xs @ ys) = (case find_magic s xs of None \<Rightarrow> find_magic s ys | Some i \<Rightarrow> Some i)"
  by (induction xs) auto

lemma find_magic_none: "(\<forall>j \<in> set xs. le64_at s (8 * j) \<noteq> ABOOT_MAGIC) \<Longrightarrow> find_magic s xs = None"
  by (induction xs) auto

lemma find_magic_first:
  assumes "k < n" "le64_at s (8 * k) = ABOOT_MAGIC" "\<forall>j < k. le64_at s (8 * j) \<noteq> ABOOT_MAGIC"
  shows "find_magic s [0..<n] = Some k"
proof -
  have "[0..<n] = [0..<k] @ k # [Suc k..<n]" using assms(1) upt_add_eq_append [of 0 k "n - k"] upt_conv_Cons [of k n] by simp
  then show ?thesis using assms(2,3) find_magic_none [of "[0..<k]" s] by (simp add: find_magic_append)
qed

lemma find_magic_Some:
  assumes "find_magic s [0..<n] = Some k"
  shows "k < n \<and> le64_at s (8 * k) = ABOOT_MAGIC \<and> (\<forall>j < k. le64_at s (8 * j) \<noteq> ABOOT_MAGIC)"
proof -
  have "\<exists>k. k < n \<and> le64_at s (8 * k) = ABOOT_MAGIC"
  proof (rule ccontr)
    assume "\<not> ?thesis"
    then have "find_magic s [0..<n] = None" by (intro find_magic_none) auto
    then show False using assms by simp
  qed
  then obtain m where m: "m < n \<and> le64_at s (8 * m) = ABOOT_MAGIC" "\<forall>j < m. \<not> (j < n \<and> le64_at s (8 * j) = ABOOT_MAGIC)"
    using exists_least_iff [of "\<lambda>k. k < n \<and> le64_at s (8 * k) = ABOOT_MAGIC"] by blast
  then have l: "\<forall>j < m. le64_at s (8 * j) \<noteq> ABOOT_MAGIC" by (auto dest: less_trans)
  then have "k = m" using find_magic_first [of m n s] m(1) assms by simp
  then show ?thesis using m(1) l by simp
qed

text \<open>What the program shows, in terms of the sector that the boot sector names.\<close>

lemma abootconf_shows:
  assumes "512 \<le> length disk" "0 \<le> sint (le64_at disk 488 * 512)" "a = unat (le64_at disk 488 * 512)" "a + 512 \<le> length disk"
    and k: "k < 63" "le64_at disk (a + 8 * k) = ABOOT_MAGIC" "\<forall>j < k. le64_at disk (a + 8 * j) \<noteq> ABOOT_MAGIC"
  shows "abootconf (Some disk) None = Some (0, Some (sint (le64_at disk (a + 8 * (k + 1)))), Some disk)"
proof -
  let ?s = "slice a 512 disk"
  have l: "le64_at ?s (8 * j) = le64_at disk (a + 8 * j)" if "j < 64" for j using that by (simp add: le64_slice)
  have "find_magic ?s [0..<64] = Some k" by (rule find_magic_first) (use k l in auto)
  moreover have "le64_at (slice 0 512 disk) 488 = le64_at disk 488" by (simp add: le64_slice)
  ultimately show ?thesis using assms(1-4) k(1) l [of "k + 1"] by (simp add: abootconf_def abootconf_disk_def Let_def length_slice)
qed

lemma sint_u64_small: "- (2 ^ 31) \<le> n \<Longrightarrow> n < 2 ^ 31 \<Longrightarrow> sint (word_of_int n :: u64) = n"
  by (simp add: sint_sbintrunc' signed_take_bit_int_eq_self)

lemma sint_atoi: "sint (word_of_int (atoi s) :: u64) = atoi s"
  using sint_ge [of "word_of_int (strtol10 s) :: u32"] sint_lt [of "word_of_int (strtol10 s) :: u32"] unfolding atoi_def by (intro sint_u64_small) simp_all

subsection \<open>Properties\<close>

text \<open>
  C36.  \<open>abootconf\<close> shows what \<open>swriteboot -c\<close> has set: after \<open>swriteboot\<close> with the partition \<open>n\<close> and a boot file whose first sector has the magic number, the program prints \<open>n\<close>.
\<close>

theorem abootconf_shows_swriteboot:
  assumes m: "swriteboot_main force n bootfile krn buf disk = Some (0, disk')" and n: "1 \<le> n" "n \<le> 8"
    and len: "length buf = 2048" "512 \<le> length disk" "512 \<le> length bootfile"
    and k: "k < 63" "le64_at bootfile (8 * k) = ABOOT_MAGIC" "\<forall>j < k. le64_at bootfile (8 * j) \<noteq> ABOOT_MAGIC"
  shows "abootconf (Some disk') None = Some (0, Some n, Some disk')"
proof -
  have nz: "n \<noteq> 0" using n by simp
  note i = main_image [OF m nz len]
  have w: "le64_at disk' (1024 + 8 * j) = (if 0 < j \<and> le64_at disk' (1024 + 8 * (j - 1)) = ABOOT_MAGIC then word_of_int n else le64_at bootfile (8 * j))" if "j < 64" for j
    using i that by blast
  have b: "le64_at disk' (1024 + 8 * j) = le64_at bootfile (8 * j)" if "j \<le> k" for j
    using that
  proof (induction j)
    case (Suc j)
    then show ?case using w [of "Suc j"] k(1,3) by simp
  qed (use w [of 0] in simp)
  have l: "le64_at disk' 488 = 2" using i by (simp add: bb_defs)
  have "1536 \<le> length disk'" using i len(3) by linarith
  then have "abootconf (Some disk') None = Some (0, Some (sint (le64_at disk' (1024 + 8 * (k + 1)))), Some disk')"
    using abootconf_shows [of disk' 1024 k] l b k by simp
  moreover have "le64_at disk' (1024 + 8 * (k + 1)) = word_of_int n" using w [of "k + 1"] b [of k] k(1,2) by simp
  moreover have "sint (word_of_int n :: u64) = n" using n by (simp add: sint_u64_small)
  ultimately show ?thesis by simp
qed

theorem abootconf_shows_swriteboot_witness:
  "\<exists>disk'. swriteboot_main 0 1 sw_file None (replicate 2048 0) sw_disk = Some (0, disk') \<and> abootconf (Some disk') None = Some (0, Some 1, Some disk')"
proof -
  obtain disk' where m: "swriteboot_main 0 1 sw_file None (replicate 2048 0) sw_disk = Some (0, disk')" using sw_example by blast
  with abootconf_shows_swriteboot [OF m, of 1] show ?thesis by (simp add: sw_disk_label(2) sw_file_facts ABOOT_MAGIC_def)
qed

text \<open>
  \<open>abootconf\<close> shows what \<open>abootconf\<close> has set, and setting the partition changes no byte outside the first sector of the loader.
\<close>

theorem abootconf_roundtrip:
  assumes s: "abootconf (Some disk) (Some arg) = Some (0, None, Some disk')" and a: "a = unat (le64_at disk 488 * 512)" "512 \<le> a"
  shows "abootconf (Some disk') None = Some (0, Some (atoi arg), Some disk') \<and> length disk' = length disk
     \<and> take a disk' = take a disk \<and> drop (a + 512) disk' = drop (a + 512) disk"
proof -
  let ?s = "slice a 512 disk"
  have h: "le64_at (slice 0 512 disk) 488 = le64_at disk 488" by (simp add: le64_slice)
  obtain k where k: "find_magic ?s [0..<64] = Some k" "k < 63" and len: "length (slice 0 512 disk) = 512" "length ?s = 512" "0 \<le> sint (le64_at disk 488 * 512)"
    and d: "disk' = file_write a (put_le64 (8 * (k + 1)) (word_of_int (atoi arg)) ?s) disk"
    using s h a(1) by (auto simp: abootconf_def abootconf_disk_def Let_def split: if_splits option.splits)
  have l: "a + 512 \<le> length disk" using len(2) a(2) by (auto simp: slice_def min_def split: if_splits)
  let ?p = "put_le64 (8 * (k + 1)) (word_of_int (atoi arg)) ?s"
  have lp: "length ?p = 512" using k(2) len(2) by simp
  have e: "disk' = take a disk @ ?p @ drop (a + 512) disk" using file_write_inside [of a ?p disk] l lp d by simp
  note f = find_magic_Some [OF k(1)]
  have w: "le64_at disk' (a + 8 * j) = (if j = k + 1 then word_of_int (atoi arg) else le64_at ?s (8 * j))" if "j < 64" for j
  proof -
    have "le64_at disk' (a + 8 * j) = le64_at ?p (8 * j)" using that lp le64_file_write [of "8 * j" ?p a disk] unfolding d by simp
    also have "\<dots> = (if j = k + 1 then word_of_int (atoi arg) else le64_at ?s (8 * j))"
    proof (cases "j = k + 1")
      case False
      then have "8 * j + 8 \<le> 8 * (k + 1) \<or> 8 * (k + 1) + 8 \<le> 8 * j" by arith
      then show ?thesis using False k(2) len(2) by (simp add: le64_put_other)
    qed (use k(2) len(2) in \<open>simp add: le64_put\<close>)
    finally show ?thesis .
  qed
  have q: "le64_at disk' 488 = le64_at disk 488" using a(2) l lp unfolding d by (simp add: le64_file_write_other)
  have "length disk' = length disk" using l lp unfolding d by simp
  moreover have "sint (word_of_int (atoi arg) :: u64) = atoi arg" by (rule sint_atoi)
  moreover have "abootconf (Some disk') None = Some (0, Some (sint (le64_at disk' (a + 8 * (k + 1)))), Some disk')"
    by (rule abootconf_shows) (use calculation(1) l a len(3) q k(2) w f in auto)
  ultimately show ?thesis using w [of "k + 1"] k(2) e l lp by simp
qed

text \<open>The disk of the theory \<open>Swriteboot\<close> with the loader in place.\<close>

theorem abootconf_roundtrip_witness:
  "\<exists>disk disk'. abootconf (Some disk) (Some [51]) = Some (0, None, Some disk') \<and> abootconf (Some disk') None = Some (0, Some 3, Some disk')"
proof -
  define disk :: bytes where "disk = put_le64 488 1 (replicate 512 0) @ le_encode 8 ABOOT_MAGIC @ replicate 504 0"
  have l: "le64_at disk 488 = 1" using le64_take [of 488 512 disk] by (simp add: disk_def le64_put)
  have s: "slice 512 512 disk = le_encode 8 ABOOT_MAGIC @ replicate 504 0" by (simp add: disk_def slice_def)
  have m: "le64_at (slice 512 512 disk) 0 = ABOOT_MAGIC" unfolding s by (simp add: le64_at_def slice_def le_word_encode)
  have f: "find_magic (slice 512 512 disk) [0..<64] = Some 0" by (rule find_magic_first) (simp_all add: m)
  have n: "dec_long [51] = 3" "atoi [51] = 3" by code_simp+
  have len: "length (slice 512 512 disk) = 512" "length (slice 0 512 disk) = 512" "le64_at (slice 0 512 disk) 488 = 1"
    using l by (simp_all add: s le64_slice) (simp add: disk_def slice_def)
  have r: "\<exists>disk'. abootconf (Some disk) (Some [51]) = Some (0, None, Some disk')"
    using f len by (simp add: abootconf_def abootconf_disk_def strtol10_def n clamp_def Let_def)
  then obtain disk' where d: "abootconf (Some disk) (Some [51]) = Some (0, None, Some disk')" by blast
  from abootconf_roundtrip [OF d refl] l n(2) have "abootconf (Some disk') None = Some (0, Some 3, Some disk')" by simp
  with d show ?thesis by blast
qed

end
