(* ===== verification/Srmboot.thy ===== *)
theory Srmboot
  imports Swriteboot
begin

text \<open>
  The host programs that write a boot sector for a loader in a raw partition (\<^verbatim>\<open>src/srmbootfat/srmbootraw.c\<close>) and for a loader that is a file of a FAT file system
  (\<^verbatim>\<open>src/srmbootfat/srmbootfat.c\<close> with \<^verbatim>\<open>src/srmbootfat/msdos.h\<close>).

  The device is a file as in the theory \<open>Sdisklabel\<close>; the result is the exit code and the device.  Files that cannot be opened are \<^const>\<open>None\<close>, as is a result that C does not define.
\<close>

unbundle bit_operations_syntax

subsection \<open>The boot sector\<close>

text \<open>The fields and the sum; \<open>boot\<close> is the sector with the fields count, start and flags not yet set.\<close>

definition fill_sector :: "u64 \<Rightarrow> u64 \<Rightarrow> bytes \<Rightarrow> bytes" where
  "fill_sector count start boot =
     (let boot = put_le64 488 start boot;
          boot = put_le64 480 count boot;
          boot = put_le64 496 0 boot
      in put_le64 504 (quad_sum 63 boot) boot)"

subsection \<open>Raw partitions\<close>

definition BUFSIZE :: nat where "BUFSIZE = 65536"

function raw_copy :: "bytes \<Rightarrow> nat \<Rightarrow> bytes \<Rightarrow> nat \<times> bytes" where
  "raw_copy img sz device =
     (if img = [] then (sz, device)
      else let d = take BUFSIZE img in raw_copy (drop BUFSIZE img) (sz + length d) (file_write (512 + sz) d device))"
  by pat_completeness auto
termination
  by (relation "measure (\<lambda>(img, _). length img)") (auto simp: BUFSIZE_def)

declare raw_copy.simps [simp del]

definition srmbootraw :: "bytes option \<Rightarrow> bytes option \<Rightarrow> int \<times> bytes option" where
  "srmbootraw device img =
     (case (device, img) of
        (Some dev, Some img) \<Rightarrow>
          let boot = slice 0 512 dev
          in if length boot \<noteq> 512 then (2, Some dev)
             else let (sz, dev) = raw_copy img 0 dev in (0, Some (file_write 0 (fill_sector (of_nat ((sz + 511) div 512)) 1 boot) dev))
      | (dev, _) \<Rightarrow> (2, dev))"

subsection \<open>FAT file systems\<close>

definition MDIR_SIZE :: nat where "MDIR_SIZE = 32"

record OldDos_t =
  od_tracks :: nat
  od_sectors :: nat
  od_heads :: nat
  od_dir_len :: nat
  od_cluster_size :: nat
  od_fat_len :: nat
  od_media :: nat

definition old_dos :: "OldDos_t list" where
  "old_dos =
     [\<lparr>od_tracks = 40, od_sectors = 9, od_heads = 1, od_dir_len = 4, od_cluster_size = 1, od_fat_len = 2, od_media = 0xfc\<rparr>,
      \<lparr>od_tracks = 40, od_sectors = 9, od_heads = 2, od_dir_len = 7, od_cluster_size = 2, od_fat_len = 2, od_media = 0xfd\<rparr>,
      \<lparr>od_tracks = 40, od_sectors = 8, od_heads = 1, od_dir_len = 4, od_cluster_size = 1, od_fat_len = 1, od_media = 0xfe\<rparr>,
      \<lparr>od_tracks = 40, od_sectors = 8, od_heads = 2, od_dir_len = 7, od_cluster_size = 2, od_fat_len = 1, od_media = 0xff\<rparr>,
      \<lparr>od_tracks = 80, od_sectors = 9, od_heads = 2, od_dir_len = 7, od_cluster_size = 2, od_fat_len = 3, od_media = 0xf9\<rparr>,
      \<lparr>od_tracks = 80, od_sectors = 15, od_heads = 2, od_dir_len = 14, od_cluster_size = 1, od_fat_len = 7, od_media = 0xf9\<rparr>,
      \<lparr>od_tracks = 80, od_sectors = 18, od_heads = 2, od_dir_len = 14, od_cluster_size = 1, od_fat_len = 9, od_media = 0xf0\<rparr>,
      \<lparr>od_tracks = 80, od_sectors = 36, od_heads = 2, od_dir_len = 15, od_cluster_size = 2, od_fat_len = 9, od_media = 0xf0\<rparr>,
      \<lparr>od_tracks = 1, od_sectors = 8, od_heads = 1, od_dir_len = 1, od_cluster_size = 1, od_fat_len = 1, od_media = 0xf0\<rparr>]"

text \<open>
  An entry of the FAT.  The second word is read also when all bits are in the first one; then it is shifted by 32, which C leaves undefined: \<open>sh\<close> is what the machine makes of it.
  \<^const>\<open>None\<close> is a read behind the table.
\<close>

definition get_fat_entry :: "(u32 \<Rightarrow> u32) \<Rightarrow> bytes \<Rightarrow> nat \<Rightarrow> u32 \<Rightarrow> u32 option" where
  "get_fat_entry sh fat fatbits entry =
     (if fatbits = 12 then
        let entry = entry * 3; i = push_bit 2 (entry AND 7); entry = drop_bit 3 entry
        in if 4 * unat entry + 8 > length fat then None
           else
             let a = le32_at fat (4 * unat entry); b = le32_at fat (4 * unat entry + 4)
             in Some ((drop_bit (unat i) a OR (if i = 0 then sh b else push_bit (32 - unat i) b)) AND 0xfff)
      else if 2 * unat entry + 2 > length fat then None
      else Some (ucast (le16_at fat (2 * unat entry))))"

record fat_geometry =
  fg_clusize :: u32
  fg_fatstart :: u32
  fg_nfat :: u32
  fg_dirents :: u32
  fg_fatsize :: u32
  fg_fatbits :: nat

definition boot_byte :: "bytes \<Rightarrow> nat \<Rightarrow> u32" where "boot_byte boot off = ucast (boot ! off)"
definition boot_word :: "bytes \<Rightarrow> nat \<Rightarrow> u32" where "boot_word boot off = ucast (le16_at boot off)"

text \<open>\<^const>\<open>None\<close>: the type of the FAT is not recognised.\<close>

definition read_geometry :: "bytes \<Rightarrow> fat_geometry option" where
  "read_geometry boot =
     (let media = boot_byte boot 21;
          g = \<lparr>fg_clusize = boot_byte boot 13, fg_fatstart = boot_word boot 14, fg_nfat = boot_byte boot 16, fg_dirents = boot_word boot 17, fg_fatsize = boot_word boot 22, fg_fatbits = 12\<rparr>
      in if media AND NOT 7 = 0xf8 then
           let od = old_dos ! unat (media AND 3)
           in Some (g\<lparr>fg_clusize := of_nat (od_cluster_size od), fg_fatstart := 1, fg_fatsize := of_nat (od_fat_len od), fg_dirents := of_nat (od_dir_len od * (512 div MDIR_SIZE)), fg_nfat := 2\<rparr>)
         else if slice 54 5 boot = map of_char ''FAT12'' then Some g
         else if slice 54 5 boot = map of_char ''FAT16'' then Some (g\<lparr>fg_fatbits := 16\<rparr>)
         else None)"

text \<open>The name as it is in a directory; characters without room are dropped.\<close>

definition to_upper_char :: "u8 \<Rightarrow> u8" where "to_upper_char c = (if 97 \<le> c \<and> c \<le> 122 then c - 32 else c)"

primrec dos_chars :: "bytes \<Rightarrow> nat \<Rightarrow> bytes \<Rightarrow> bytes" where
  "dos_chars [] i dosname = dosname"
| "dos_chars (c # cs) i dosname =
     (if c = 46 then dos_chars cs 8 dosname
      else if i < 12 then dos_chars cs (i + 1) (dosname[i := to_upper_char c])
      else dos_chars cs i dosname)"

definition dos_name :: "bytes \<Rightarrow> bytes" where "dos_name s = dos_chars s 0 (replicate 12 32)"

definition entry_matches :: "bytes \<Rightarrow> bytes \<Rightarrow> nat \<Rightarrow> bool" where
  "entry_matches rootdir dosname i \<longleftrightarrow> slice (32 * i) 11 rootdir = take 11 dosname \<and> rootdir ! (32 * i + 11) AND (8 OR 16) = 0"

definition find_entry :: "bytes \<Rightarrow> bytes \<Rightarrow> nat \<Rightarrow> nat option" where
  "find_entry rootdir dosname dirents = find (entry_matches rootdir dosname) [0..<dirents]"

datatype chain_result = Chain_end nat | Not_contiguous | Chain_undefined

text \<open>The check that the clusters from \<open>start\<close> on are consecutive; it counts them.\<close>

function chain_loop :: "(u32 \<Rightarrow> u32 option) \<Rightarrow> u32 \<Rightarrow> u32 \<Rightarrow> nat \<Rightarrow> chain_result" where
  "chain_loop entry fat_end start i =
     (case entry start of
        None \<Rightarrow> Chain_undefined
      | Some j \<Rightarrow>
          if j < fat_end then if j \<noteq> start + 1 then Not_contiguous else chain_loop entry fat_end j (i + 1)
          else Chain_end i)"
  by pat_completeness auto
termination
proof (relation "measure (\<lambda>(_, e, s, _). unat e - unat (s + 1))")
  fix entry :: "u32 \<Rightarrow> u32 option" and fat_end start j :: u32 and i :: nat assume j: "j < fat_end" "\<not> j \<noteq> start + 1"
  then have l: "unat j < unat fat_end" by (simp add: word_less_nat_alt)
  then have "unat j + 1 < 2 ^ 32" using unsigned_less [of fat_end, where ?'a = nat] by simp
  then have "unat (j + 1) = unat j + 1" by (simp add: unat_word_ariths)
  with l show "((entry, fat_end, j, i + 1), entry, fat_end, start, i) \<in> measure (\<lambda>(_, e, s, _). unat e - unat (s + 1))" using j(2) by simp
qed simp

declare chain_loop.simps [simp del]

definition fat_end_of :: "nat \<Rightarrow> u32" where "fat_end_of fatbits = push_bit fatbits 1 - 9"

text \<open>The sector in which the cluster \<open>start\<close> begins.\<close>

definition cluster_sector :: "fat_geometry \<Rightarrow> u32 \<Rightarrow> u32" where
  "cluster_sector g start = (start - 2) * fg_clusize g + fg_fatstart g + fg_nfat g * fg_fatsize g + fg_dirents g div of_nat (512 div MDIR_SIZE)"

text \<open>The second part, with the FAT and the root directory in memory.\<close>

definition write_fat_sector :: "(u32 \<Rightarrow> u32) \<Rightarrow> fat_geometry \<Rightarrow> bytes \<Rightarrow> bytes \<Rightarrow> bytes \<Rightarrow> bytes \<Rightarrow> bytes \<Rightarrow> (int \<times> bytes) option" where
  "write_fat_sector sh g fat rootdir name boot disk =
     (case find_entry rootdir (dos_name name) (unat (fg_dirents g)) of
        None \<Rightarrow> Some (4, disk)
      | Some i \<Rightarrow>
          let start = ucast (le16_at rootdir (32 * i + 26)) :: u32; sz = le32_at rootdir (32 * i + 28)
          in if start * of_nat (fg_fatbits g) > fg_fatsize g * 512 * 8 then Some (3, disk)
             else
               let sz = (sz + 512 - 1) div 512
               in case chain_loop (get_fat_entry sh fat (fg_fatbits g)) (fat_end_of (fg_fatbits g)) start 1 of
                    Chain_undefined \<Rightarrow> None
                  | Not_contiguous \<Rightarrow> Some (4, disk)
                  | Chain_end n \<Rightarrow>
                      if fg_clusize g = 0 then None
                      else if (sz + fg_clusize g - 1) div fg_clusize g \<noteq> of_nat n then Some (3, disk)
                      else Some (0, file_write 0 (fill_sector (ucast sz) (ucast (cluster_sector g start)) boot) disk))"

definition fat_bytes :: "fat_geometry \<Rightarrow> nat" where "fat_bytes g = unat (fg_fatsize g * 512)"

definition fat_table :: "fat_geometry \<Rightarrow> bytes \<Rightarrow> bytes" where
  "fat_table g disk = slice (unat (fg_fatstart g * 512)) (fat_bytes g) disk"

definition root_directory :: "fat_geometry \<Rightarrow> bytes \<Rightarrow> bytes" where
  "root_directory g disk =
     slice (unat (fg_fatstart g * 512) + fat_bytes g + unat ((fg_nfat g - 1) * (fg_fatsize g * 512))) (unat (fg_dirents g) * MDIR_SIZE) disk"

definition srmbootfat :: "(u32 \<Rightarrow> u32) \<Rightarrow> bytes option \<Rightarrow> bytes \<Rightarrow> (int \<times> bytes option) option" where
  "srmbootfat sh device name =
     (case device of
        None \<Rightarrow> Some (2, None)
      | Some disk \<Rightarrow>
          let boot = slice 0 512 disk
          in if length boot \<noteq> 512 then Some (2, Some disk)
             else
               case read_geometry boot of
                 None \<Rightarrow> Some (3, Some disk)
               | Some g \<Rightarrow>
                   if boot_word boot 11 \<noteq> 512 then Some (3, Some disk)
                   else
                     let fat = fat_table g disk; rootdir = root_directory g disk
                     in if length fat \<noteq> fat_bytes g \<or> length rootdir \<noteq> unat (fg_dirents g) * MDIR_SIZE then Some (2, Some disk)
                        else map_option (map_prod id Some) (write_fat_sector sh g fat rootdir name boot disk))"

subsection \<open>The boot sector is valid\<close>

lemma fill_sector_fields:
  assumes "length boot = 512"
  shows "length (fill_sector c s boot) = 512" "bb_count (fill_sector c s boot) = c" "bb_lbn (fill_sector c s boot) = s" "bb_flags (fill_sector c s boot) = 0"
    "boot_sector_ok (fill_sector c s boot)" "take 480 (fill_sector c s boot) = take 480 boot"
proof -
  define b where "b = put_le64 496 0 (put_le64 480 c (put_le64 488 s boot))"
  have f: "fill_sector c s boot = put_le64 504 (quad_sum 63 b) b" by (simp add: fill_sector_def b_def Let_def)
  have l: "length b = 512" using assms by (simp add: b_def)
  show "length (fill_sector c s boot) = 512" "bb_count (fill_sector c s boot) = c" "bb_lbn (fill_sector c s boot) = s" "bb_flags (fill_sector c s boot) = 0"
    using assms l by (simp_all add: f bb_defs le64_put_other) (simp_all add: b_def le64_put le64_put_other)
  show "boot_sector_ok (fill_sector c s boot)" using l by (simp add: f boot_sector_ok_def bb_chk_sum_def CONSOLE_BLOCK_SIZE_def le64_put quad_sum_put)
  show "take 480 (fill_sector c s boot) = take 480 boot" using assms by (simp add: f b_def put_le64_def put_bytes_def min_def)
qed

lemma raw_copy_eq: "img \<noteq> [] \<or> 512 + sz \<le> length dev \<Longrightarrow> raw_copy img sz dev = (sz + length img, file_write (512 + sz) img dev)"
proof (induction img sz dev rule: raw_copy.induct)
  case (1 img sz dev)
  show ?case
  proof (cases "img = []")
    case True
    then show ?thesis using 1(2) by (simp add: raw_copy.simps file_write_def)
  next
    case False
    let ?d = "take BUFSIZE img"
    have "512 + (sz + length ?d) \<le> length (file_write (512 + sz) ?d dev)" by (auto simp: file_write_def)
    with 1(1) [OF False refl] have r: "raw_copy (drop BUFSIZE img) (sz + length ?d) (file_write (512 + sz) ?d dev)
        = (sz + length ?d + length (drop BUFSIZE img), file_write (512 + (sz + length ?d)) (drop BUFSIZE img) (file_write (512 + sz) ?d dev))" by blast
    have "file_write (512 + sz + length ?d) (drop BUFSIZE img) (file_write (512 + sz) ?d dev) = file_write (512 + sz) (?d @ drop BUFSIZE img) dev"
      by (rule file_write_append)
    then have "file_write (512 + (sz + length ?d)) (drop BUFSIZE img) (file_write (512 + sz) ?d dev) = file_write (512 + sz) img dev" by (simp only: append_take_drop_id add.assoc)
    moreover have "length ?d + length (drop BUFSIZE img) = length img" by (metis append_take_drop_id length_append)
    ultimately show ?thesis using r False by (simp only: raw_copy.simps [of img] Let_def if_False add.assoc)
  qed
qed

subsection \<open>The clusters of a file\<close>

text \<open>The chain of a file as the file system defines it: follow the FAT until an end mark; \<^const>\<open>None\<close> if there is none within \<open>n\<close> steps.\<close>

fun fat_chain :: "(u32 \<Rightarrow> u32 option) \<Rightarrow> u32 \<Rightarrow> nat \<Rightarrow> u32 \<Rightarrow> u32 list option" where
  "fat_chain entry fat_end 0 c = None"
| "fat_chain entry fat_end (Suc n) c =
     (case entry c of
        None \<Rightarrow> None
      | Some j \<Rightarrow> if j < fat_end then map_option (\<lambda>cs. c # cs) (fat_chain entry fat_end n j) else Some [c])"

lemma chain_loop_chain:
  assumes "chain_loop entry fat_end start i = Chain_end n"
  shows "i \<le> n \<and> fat_chain entry fat_end (Suc (n - i)) start = Some (map (\<lambda>k. start + of_nat k) [0..<Suc (n - i)])"
  using assms
proof (induction entry fat_end start i rule: chain_loop.induct)
  case (1 entry fat_end start i)
  obtain j where j: "entry start = Some j" using 1(2) by (cases "entry start") (auto simp: chain_loop.simps)
  show ?case
  proof (cases "j < fat_end")
    case True
    have s: "j = start + 1" "chain_loop entry fat_end j (i + 1) = Chain_end n" using 1(2) j True by (auto simp: chain_loop.simps [of entry fat_end start] split: if_splits)
    then have ih: "i + 1 \<le> n" "fat_chain entry fat_end (Suc (n - (i + 1))) j = Some (map (\<lambda>k. j + of_nat k) [0..<Suc (n - (i + 1))])"
      using 1(1) [OF j True] by simp_all
    have e: "Suc (n - (i + 1)) = n - i" using ih(1) by simp
    have "map (\<lambda>k. start + of_nat k) [0..<Suc (n - i)] = start # map (\<lambda>k. j + of_nat k) [0..<n - i]"
      by (simp add: upt_conv_Cons map_Suc_upt [symmetric] s(1) add_ac comp_def del: upt_Suc)
    moreover have "fat_chain entry fat_end (n - i) j = Some (map (\<lambda>k. j + of_nat k) [0..<n - i])" using ih(2) unfolding e .
    ultimately show ?thesis using ih(1) j True by (simp del: upt_Suc)
  next
    case False
    then have "i = n" using 1(2) j by (simp add: chain_loop.simps [of entry fat_end start])
    then show ?thesis using j False by simp
  qed
qed

lemma chain_loop_range:
  assumes "chain_loop entry fat_end start i = Chain_end n" "unat start < 2 ^ 31" "unat fat_end \<le> 2 ^ 31"
  shows "unat start + (n - i) < 2 ^ 31"
  using assms
proof (induction entry fat_end start i rule: chain_loop.induct)
  case (1 entry fat_end start i)
  obtain j where j: "entry start = Some j" using 1(2) by (cases "entry start") (auto simp: chain_loop.simps)
  show ?case
  proof (cases "j < fat_end")
    case True
    have s: "j = start + 1" "chain_loop entry fat_end j (i + 1) = Chain_end n" using 1(2) j True by (auto simp: chain_loop.simps [of entry fat_end start] split: if_splits)
    have u: "unat j = unat start + 1" using 1(3) unfolding s(1) by (simp add: unat_word_ariths)
    moreover have "unat j < 2 ^ 31" using True 1(4) by (simp add: word_less_nat_alt)
    ultimately have "unat j + (n - (i + 1)) < 2 ^ 31" using 1(1) [OF j True] s 1(4) by simp
    moreover have "i + 1 \<le> n" using chain_loop_chain [OF s(2)] by simp
    ultimately show ?thesis using u by simp
  next
    case False
    then show ?thesis using 1(2,3) j by (simp add: chain_loop.simps [of entry fat_end start])
  qed
qed

text \<open>The bytes of a cluster.\<close>

definition data_sector :: "fat_geometry \<Rightarrow> nat" where
  "data_sector g = unat (fg_fatstart g) + unat (fg_nfat g) * unat (fg_fatsize g) + unat (fg_dirents g) div 16"

definition cluster_data :: "fat_geometry \<Rightarrow> bytes \<Rightarrow> u32 \<Rightarrow> bytes" where
  "cluster_data g disk c = slice (512 * (data_sector g + (unat c - 2) * unat (fg_clusize g))) (512 * unat (fg_clusize g)) disk"

lemma concat_clusters:
  assumes "2 \<le> unat start" "unat start + n < 2 ^ 32"
  shows "concat (map (cluster_data g disk) (map (\<lambda>k. start + of_nat k) [0..<n])) = slice (512 * (data_sector g + (unat start - 2) * unat (fg_clusize g))) (512 * unat (fg_clusize g) * n) disk"
proof -
  obtain m where m: "unat start = m + 2" using assms(1) by (metis le_add_diff_inverse2)
  let ?c = "512 * unat (fg_clusize g)" and ?o = "512 * (data_sector g + (unat start - 2) * unat (fg_clusize g))"
  have "cluster_data g disk (start + of_nat k) = slice (?c * k) ?c (drop ?o disk)" if "k < n" for k
  proof -
    have "unat (start + of_nat k) = unat start + k" using assms(2) that by (simp add: unat_word_ariths unat_of_nat)
    then have "512 * (data_sector g + (unat (start + of_nat k) - 2) * unat (fg_clusize g)) = ?o + ?c * k" using m by (simp add: algebra_simps)
    then show ?thesis unfolding cluster_data_def slice_def by (simp only: drop_drop add.commute)
  qed
  then have "concat (map (cluster_data g disk) (map (\<lambda>k. start + of_nat k) [0..<n])) = concat (map (\<lambda>k. slice (?c * k) ?c (drop ?o disk)) [0..<n])"
    unfolding map_map comp_def by (intro arg_cong [where f = concat] map_cong refl) auto
  then show ?thesis by (simp only: concat_slices) (simp add: slice_def)
qed

text \<open>The fields of the boot sector are small, so that the sums in 32 bits do not wrap.\<close>

definition geometry_small :: "fat_geometry \<Rightarrow> bool" where
  "geometry_small g \<longleftrightarrow> unat (fg_clusize g) < 256 \<and> unat (fg_fatstart g) < 65536 \<and> unat (fg_nfat g) < 256 \<and> unat (fg_dirents g) < 65536 \<and> unat (fg_fatsize g) < 65536
     \<and> (fg_fatbits g = 12 \<or> fg_fatbits g = 16)"

lemma ucast_small: "unat (ucast (w :: u16) :: u32) < 65536" "unat (ucast (b :: u8) :: u32) < 256"
  using unsigned_less [of w, where ?'a = nat] unsigned_less [of b, where ?'a = nat] by (simp_all add: unat_ucast_up)

lemma old_dos_small:
  assumes "i < 4"
  shows "od_cluster_size (old_dos ! i) \<le> 2 \<and> od_fat_len (old_dos ! i) \<le> 2 \<and> od_dir_len (old_dos ! i) \<le> 7"
proof -
  have "i = 0 \<or> i = 1 \<or> i = 2 \<or> i = 3" using assms by auto
  then show ?thesis by (auto simp: old_dos_def)
qed

lemma unat_of_nat_small: "n < 65536 \<Longrightarrow> unat (of_nat n :: u32) = n"
  by (simp add: unat_of_nat)

lemma read_geometry_small:
  assumes "read_geometry boot = Some g"
  shows "geometry_small g"
proof -
  have m: "unat (m AND 3) < 4" for m :: u32 using unat_and_mask [of m 2] by (simp add: mask_eq_exp_minus_1)
  show ?thesis using assms old_dos_small [OF m [of "boot_byte boot 21"]] ucast_small
    by (auto simp: read_geometry_def Let_def geometry_small_def boot_byte_def boot_word_def MDIR_SIZE_def unat_of_nat_small simp del: of_nat_mult split: if_splits)
qed

lemma cluster_sector_eq:
  assumes g: "geometry_small g" and s: "2 \<le> unat start" "unat start < 65536"
  shows "unat (cluster_sector g start) = data_sector g + (unat start - 2) * unat (fg_clusize g)"
proof -
  have "of_nat (unat (fg_dirents g div 16)) = fg_dirents g div 16" by simp
  then have d: "fg_dirents g div 16 = of_nat (unat (fg_dirents g) div 16)" by (simp add: unat_div)
  have "start - 2 = of_nat (unat start - 2)" using s(1) by (simp add: of_nat_diff)
  then have c: "cluster_sector g start = of_nat (data_sector g + (unat start - 2) * unat (fg_clusize g))"
    using d by (simp add: cluster_sector_def data_sector_def MDIR_SIZE_def)
  have "(unat start - 2) * unat (fg_clusize g) \<le> 65535 * 255" "unat (fg_nfat g) * unat (fg_fatsize g) \<le> 255 * 65535"
    using g s by (intro mult_le_mono; simp add: geometry_small_def)+
  moreover have "unat (fg_fatstart g) < 65536" "unat (fg_dirents g) div 16 < 65536" using g by (auto simp: geometry_small_def intro: le_less_trans [OF div_le_dividend])
  ultimately have "data_sector g + (unat start - 2) * unat (fg_clusize g) < 2 ^ 32" unfolding data_sector_def by simp
  then show ?thesis unfolding c by (simp only: unat_of_nat) simp
qed

subsection \<open>Entries of twelve bits\<close>

text \<open>A bit of the table, counted from its start.\<close>

definition table_bit :: "bytes \<Rightarrow> nat \<Rightarrow> bool" where "table_bit fat n \<longleftrightarrow> bit (fat ! (n div 8)) (n mod 8)"

lemma bit_le32_at:
  assumes "4 * w + 4 \<le> length fat" "i < 32"
  shows "bit (le32_at fat (4 * w)) i \<longleftrightarrow> table_bit fat (32 * w + i)"
proof -
  have "i div 8 < 4" using assms(2) by (simp add: less_mult_imp_div_less)
  moreover have "(32 * w + i) div 8 = 4 * w + i div 8" "(32 * w + i) mod 8 = i mod 8" using div_mult_self4 [of 8 i "4 * w"] mod_mult_self4 [of 8 "4 * w" i] by (simp_all add: add.commute)
  ultimately show ?thesis using assms by (simp add: le32_at_def bit_le_word_len table_bit_def length_slice nth_slice)
qed

text \<open>What a run with exit code 0 has computed.\<close>

lemma srmbootfat_run:
  assumes r: "srmbootfat sh (Some disk) name = Some (0, Some disk')" and g: "read_geometry (take 512 disk) = Some g"
    and i: "find_entry (root_directory g disk) (dos_name name) (unat (fg_dirents g)) = Some i" and s: "start = ucast (le16_at (root_directory g disk) (32 * i + 26))"
  obtains n sz where "512 \<le> length disk" "chain_loop (get_fat_entry sh (fat_table g disk) (fg_fatbits g)) (fat_end_of (fg_fatbits g)) start 1 = Chain_end n"
    "fg_clusize g \<noteq> 0" "unat sz < 2 ^ 23" "(sz + fg_clusize g - 1) div fg_clusize g = of_nat n"
    "disk' = file_write 0 (fill_sector (ucast sz) (ucast (cluster_sector g start)) (take 512 disk)) disk"
proof -
  let ?sz = "(le32_at (root_directory g disk) (32 * i + 28) + 512 - 1) div 512"
  have l: "512 \<le> length disk" using r by (auto simp: srmbootfat_def Let_def slice_def split: if_splits)
  have b: "slice 0 512 disk = take 512 disk" by (simp add: slice_def)
  have w: "write_fat_sector sh g (fat_table g disk) (root_directory g disk) name (take 512 disk) disk = Some (0, disk')"
    using r l g by (auto simp: srmbootfat_def Let_def b split: if_splits)
  have "unat ?sz \<le> (2 ^ 32 - 1) div 512" using unsigned_less [of "le32_at (root_directory g disk) (32 * i + 28) + 512 - 1", where ?'a = nat]
    by (simp add: unat_div div_le_mono)
  then have z: "unat ?sz < 2 ^ 23" by simp
  show ?thesis
  proof (cases "chain_loop (get_fat_entry sh (fat_table g disk) (fg_fatbits g)) (fat_end_of (fg_fatbits g)) start 1")
    case (Chain_end n)
    then show ?thesis using w i that [OF l Chain_end _ z] by (auto simp: write_fat_sector_def Let_def s [symmetric] split: if_splits)
  qed (use w i in \<open>auto simp: write_fat_sector_def Let_def s [symmetric] split: if_splits\<close>)
qed

lemma sectors_fit:
  fixes sz cl :: u32
  assumes "cl \<noteq> 0" "unat cl < 256" "unat sz < 2 ^ 23" "(sz + cl - 1) div cl = of_nat n" "n < 2 ^ 32"
  shows "unat sz \<le> unat cl * n"
proof -
  have c: "0 < unat cl" using assms(1) by (simp add: unat_gt_0)
  have "unat (sz + cl) = unat sz + unat cl" using assms(2,3) by (simp add: unat_word_ariths)
  then have "unat (sz + cl - 1) = unat sz + unat cl - 1" using c by (simp add: unat_sub word_le_nat_alt)
  then have "unat ((sz + cl - 1) div cl) = (unat sz + unat cl - 1) div unat cl" by (simp add: unat_div)
  moreover have "unat (of_nat n :: u32) = n" using assms(5) by (simp add: unat_of_nat)
  ultimately have "n = (unat sz + unat cl - 1) div unat cl" using assms(4) by simp
  then have "unat sz + unat cl - 1 < unat cl * n + unat cl" using c by (metis add.commute dividend_less_times_div mult.commute)
  then show ?thesis by simp
qed

lemma fat_end_small: "geometry_small g \<Longrightarrow> unat (fat_end_of (fg_fatbits g)) \<le> 2 ^ 31"
  by (auto simp: geometry_small_def fat_end_of_def)

subsection \<open>Properties\<close>

text \<open>
  \<open>srmbootraw\<close> installs the image: with exit code 0 the boot sector has a valid sum and names the sectors from 1 on, which hold the image; the bytes in front of the boot fields and those
  behind the image are as they were.
\<close>

theorem srmbootraw_boots:
  assumes r: "srmbootraw (Some dev) (Some img) = (0, Some dev')"
  shows "boot_sector_ok (take 512 dev') \<and> bb_lbn dev' = 1 \<and> bb_count dev' = of_nat ((length img + 511) div 512) \<and> bb_flags dev' = 0
     \<and> slice 512 (length img) dev' = img \<and> take 480 dev' = take 480 dev \<and> drop (512 + length img) dev' = drop (512 + length img) dev"
proof -
  let ?b = "slice 0 512 dev" and ?w = "file_write 512 img dev"
  have l: "length ?b = 512" using r by (auto simp: srmbootraw_def Let_def split: if_splits)
  then have d: "512 \<le> length dev" by (simp add: slice_def)
  let ?s = "fill_sector (of_nat ((length img + 511) div 512)) 1 ?b"
  note f = fill_sector_fields [OF l, of "of_nat ((length img + 511) div 512)" 1]
  have e: "dev' = file_write 0 ?s ?w" using r l d by (simp add: srmbootraw_def Let_def raw_copy_eq)
  have w: "512 \<le> length ?w" using length_file_write_ge [of dev 512 img] d by simp
  have e': "dev' = ?s @ drop 512 ?w" using e f(1) w by (simp add: file_write_def)
  have q: "le64_at dev' a = le64_at ?s a" if "a + 8 \<le> 512" for a using that f(1) le64_take [of a 512 dev'] e' by simp
  have "slice 512 (length img) dev' = slice 512 (length img) ?w" using f(1) e' by (simp add: slice_def)
  moreover have "drop (512 + length img) dev' = drop (512 + length img) dev" using f(1) e' d by (simp add: file_write_def add.commute)
  moreover have "take 480 dev' = take 480 dev" using f(1,6) e' by (simp add: slice_def min_def)
  moreover have "bb_lbn dev' = 1" "bb_count dev' = of_nat ((length img + 511) div 512)" "bb_flags dev' = 0" using f(2,3,4) q by (simp_all add: bb_defs)
  moreover have "boot_sector_ok (take 512 dev')" using f(1,5) e' by simp
  ultimately show ?thesis by (simp add: slice_file_write)
qed

text \<open>
  C8.  \<open>srmbootfat\<close> makes a file bootable: with exit code 0 the boot sector has a valid sum, nothing but its last 32 bytes has changed, and the sectors it names are those of the file:
  following the FAT from the first cluster of the directory entry gives clusters whose contents, cut off to the number of sectors, are what the console loads.
\<close>

theorem srmbootfat_boots:
  assumes r: "srmbootfat sh (Some disk) name = Some (0, Some disk')" and g: "read_geometry (take 512 disk) = Some g"
    and i: "find_entry (root_directory g disk) (dos_name name) (unat (fg_dirents g)) = Some i" and s: "start = ucast (le16_at (root_directory g disk) (32 * i + 26))" "2 \<le> unat start"
  shows "boot_sector_ok (take 512 disk') \<and> take 480 disk' = take 480 disk \<and> drop 512 disk' = drop 512 disk
     \<and> (\<exists>n cs. fat_chain (get_fat_entry sh (fat_table g disk) (fg_fatbits g)) (fat_end_of (fg_fatbits g)) n start = Some cs
          \<and> slice (512 * unat (bb_lbn disk')) (512 * unat (bb_count disk')) disk' = take (512 * unat (bb_count disk')) (concat (map (cluster_data g disk') cs)))"
proof -
  obtain n sz where l: "512 \<le> length disk" and c: "chain_loop (get_fat_entry sh (fat_table g disk) (fg_fatbits g)) (fat_end_of (fg_fatbits g)) start 1 = Chain_end n"
    and cl: "fg_clusize g \<noteq> 0" "unat sz < 2 ^ 23" "(sz + fg_clusize g - 1) div fg_clusize g = of_nat n"
    and d: "disk' = file_write 0 (fill_sector (ucast sz) (ucast (cluster_sector g start)) (take 512 disk)) disk"
    by (rule srmbootfat_run [OF r g i s(1)])
  have lb: "length (take 512 disk) = 512" using l by simp
  note f = fill_sector_fields [OF lb, of "ucast sz" "ucast (cluster_sector g start)"]
  have e: "disk' = fill_sector (ucast sz) (ucast (cluster_sector g start)) (take 512 disk) @ drop 512 disk" using d f(1) by (simp add: file_write_def)
  have sm: "geometry_small g" by (rule read_geometry_small [OF g])
  have st: "unat start < 65536" using s(1) ucast_small(1) by simp
  have ch: "fat_chain (get_fat_entry sh (fat_table g disk) (fg_fatbits g)) (fat_end_of (fg_fatbits g)) n start = Some (map (\<lambda>k. start + of_nat k) [0..<n])"
    and n: "1 \<le> n" using chain_loop_chain [OF c] by (auto simp del: upt_Suc fat_chain.simps)
  have rg: "unat start + (n - 1) < 2 ^ 31" by (rule chain_loop_range [OF c _ fat_end_small [OF sm]]) (use st in simp)
  have q: "le64_at disk' a = le64_at (fill_sector (ucast sz) (ucast (cluster_sector g start)) (take 512 disk)) a" if "a + 8 \<le> 512" for a
    using that f(1) le64_take [of a 512 disk'] e by simp
  have v: "unat (bb_lbn disk') = unat (cluster_sector g start)" "unat (bb_count disk') = unat sz" using f(2,3) q by (simp_all add: bb_defs unat_ucast_up)
  have fit: "unat sz \<le> unat (fg_clusize g) * n" by (rule sectors_fit [OF cl(1) _ cl(2,3)]) (use sm rg n in \<open>auto simp: geometry_small_def\<close>)
  have "slice (512 * unat (bb_lbn disk')) (512 * unat (bb_count disk')) disk' = take (512 * unat (bb_count disk')) (concat (map (cluster_data g disk') (map (\<lambda>k. start + of_nat k) [0..<n])))"
    using concat_clusters [OF s(2), of n g disk'] rg n fit unfolding v cluster_sector_eq [OF sm s(2) st] by (simp add: slice_def min_def)
  moreover have "boot_sector_ok (take 512 disk')" "take 480 disk' = take 480 disk" "drop 512 disk' = drop 512 disk" using e f(1,5,6) by (simp_all add: min_def)
  ultimately show ?thesis using ch by blast
qed


subsection \<open>A file system\<close>

text \<open>A FAT-12 file system with clusters of one sector; the file \<^verbatim>\<open>ABOOT\<close> has 600 bytes in the clusters 2 and 3.\<close>

definition fat_boot :: bytes where
  "fat_boot = replicate 11 0 @ [0, 2, 1, 1, 0, 1, 16, 0, 0, 0, 0xf0, 1, 0] @ replicate 30 0 @ map of_char ''FAT12'' @ replicate 453 0"
definition fat_sector :: bytes where "fat_sector = [0xf0, 0xff, 0xff, 3, 0xf0, 0xff] @ replicate 506 0"
definition fat_root :: bytes where "fat_root = map of_char ''ABOOT      '' @ replicate 15 0 @ [2, 0, 0x58, 2, 0, 0] @ replicate 480 0"
definition fat_disk :: bytes where "fat_disk = fat_boot @ fat_sector @ fat_root @ replicate 1024 7"
definition fat_example :: fat_geometry where
  "fat_example = \<lparr>fg_clusize = 1, fg_fatstart = 1, fg_nfat = 1, fg_dirents = 16, fg_fatsize = 1, fg_fatbits = 12\<rparr>"

lemma fat_lengths: "length fat_boot = 512" "length fat_sector = 512" "length fat_root = 512" "length fat_disk = 2560"
  by (simp_all add: fat_boot_def fat_sector_def fat_root_def fat_disk_def)

lemma fat_parts: "take 512 fat_disk = fat_boot" "fat_table fat_example fat_disk = fat_sector" "root_directory fat_example fat_disk = fat_root"
  using fat_lengths by (simp_all add: fat_disk_def fat_table_def root_directory_def fat_example_def fat_bytes_def MDIR_SIZE_def slice_def)

lemma fat_boot_fields: "read_geometry fat_boot = Some fat_example" "boot_word fat_boot 11 = 512"
  by code_simp+

lemma fat_found: "find_entry fat_root (dos_name (map of_char ''aboot'')) 16 = Some 0" "le16_at fat_root 26 = 2" "le32_at fat_root 28 = 600"
  by code_simp+

lemma fat_links: "chain_loop (get_fat_entry (\<lambda>_. 0) fat_sector 12) (fat_end_of 12) 2 1 = Chain_end 2"
  by code_simp

theorem srmbootraw_boots_witness:
  "\<exists>dev'. srmbootraw (Some (replicate 2048 0)) (Some [1, 2, 3]) = (0, Some dev') \<and> boot_sector_ok (take 512 dev') \<and> bb_count dev' = 1 \<and> slice 512 3 dev' = [1, 2, 3]"
proof -
  obtain dev' where d: "srmbootraw (Some (replicate 2048 0)) (Some [1, 2, 3]) = (0, Some dev')" by (simp add: srmbootraw_def Let_def slice_def raw_copy_eq)
  have l: "length [1, 2, 3 :: u8] = 3" by simp
  from srmbootraw_boots [OF d, unfolded l] d show ?thesis by simp
qed

theorem srmbootfat_boots_witness:
  "\<exists>disk'. srmbootfat (\<lambda>_. 0) (Some fat_disk) (map of_char ''aboot'') = Some (0, Some disk') \<and> boot_sector_ok (take 512 disk') \<and> drop 512 disk' = drop 512 fat_disk"
proof -
  have "length (slice 0 512 fat_disk) = 512" "slice 0 512 fat_disk = fat_boot" using fat_lengths fat_parts(1) by (simp_all add: slice_def)
  then have "\<exists>disk'. srmbootfat (\<lambda>_. 0) (Some fat_disk) (map of_char ''aboot'') = Some (0, Some disk')"
    using fat_found fat_links fat_lengths
    by (simp add: srmbootfat_def Let_def fat_boot_fields fat_parts fat_bytes_def MDIR_SIZE_def write_fat_sector_def) (simp add: fat_example_def)
  then obtain disk' where d: "srmbootfat (\<lambda>_. 0) (Some fat_disk) (map of_char ''aboot'') = Some (0, Some disk')" by blast
  have "find_entry (root_directory fat_example fat_disk) (dos_name (map of_char ''aboot'')) (unat (fg_dirents fat_example)) = Some 0"
    unfolding fat_parts(3) using fat_found(1) by (simp add: fat_example_def)
  from srmbootfat_boots [OF d _ this refl] fat_boot_fields(1) fat_found(2) d show ?thesis by (simp add: fat_parts)
qed


end
