(* ===== verification/Isomarkboot.thy ===== *)
theory Isomarkboot
  imports Iso_props Bootblock
begin

text \<open>
  The host program that makes an ISO 9660 file system bootable (\<^verbatim>\<open>src/tools/isomarkboot.c\<close>), on the reader of the theories \<open>Iso\<close> and \<open>Rock\<close>: it looks up the loader and writes the boot
  sector; with a third argument it also stores the position of a file in the volume descriptor.

  The disk is a list of bytes.  \<^const>\<open>None\<close> has the meaning it has in the reader; the result is the exit code and the disk.
\<close>

unbundle bit_operations_syntax

definition iso_dev_read :: "bytes \<Rightarrow> reader" where
  "iso_dev_read disk count off = (let d = slice off (nat count) disk in (int (length d), d))"

definition write_64 :: "nat \<Rightarrow> u64 \<Rightarrow> bytes \<Rightarrow> bytes" where
  "write_64 off v sector =
     put_bytes off [ucast (v AND 0xff), ucast (drop_bit 8 v AND 0xff), ucast (drop_bit 16 v AND 0xff), ucast (drop_bit 24 v AND 0xff),
                    ucast (drop_bit 32 v AND 0xff), ucast (drop_bit 40 v AND 0xff), ucast (drop_bit 48 v AND 0xff), ucast (drop_bit 56 v AND 0xff)] sector"

definition read_64 :: "bytes \<Rightarrow> nat \<Rightarrow> u64" where
  "read_64 b off =
     ucast (b ! off) OR push_bit 8 (ucast (b ! (off + 1))) OR push_bit 16 (ucast (b ! (off + 2))) OR push_bit 24 (ucast (b ! (off + 3)))
       OR push_bit 32 (ucast (b ! (off + 4))) OR push_bit 40 (ucast (b ! (off + 5))) OR push_bit 48 (ucast (b ! (off + 6))) OR push_bit 56 (ucast (b ! (off + 7)))"

definition boot_banner :: bytes where "boot_banner = map of_char ''Linux/Alpha aboot for ISO filesystem.'' @ [0]"

definition mark_sector :: "nat \<Rightarrow> nat \<Rightarrow> bytes \<Rightarrow> bytes" where
  "mark_sector aboot_size aboot_pos sector =
     (let sector = put_bytes 0 boot_banner sector;
          sector = write_64 (8 * 60) (of_nat (aboot_size div 512)) sector;
          sector = write_64 (8 * 61) (of_nat (aboot_pos div 512)) sector;
          sector = write_64 (8 * 62) 0 sector
      in write_64 (8 * 63) (sum_list (map (\<lambda>i. read_64 sector (8 * i)) [0..<63])) sector)"

text \<open>From the size of the open file \<open>fd\<close> on.\<close>

definition mark_boot :: "nat \<Rightarrow> iso_state \<Rightarrow> bytes \<Rightarrow> (int \<times> bytes) option" where
  "mark_boot fd st disk =
     (case iso_fstat fd st of
        None \<Rightarrow> None
      | Some buf \<Rightarrow>
          let sector = slice 0 512 disk
          in if length sector \<noteq> 512 then Some (1, disk)
             else Some (0, file_write 0 (mark_sector (unat (st_size buf)) (nat (iso_map fd 0 st)) sector) disk))"

subsection \<open>The position of the root image\<close>

fun dec_digits :: "nat \<Rightarrow> bytes" where
  "dec_digits n = (if n < 10 then [of_nat (48 + n)] else dec_digits (n div 10) @ [of_nat (48 + n mod 10)])"

definition root_start :: "nat \<Rightarrow> bytes" where
  "root_start pos = map of_char ''ROOT START='' @ dec_digits (pos div 2048) @ replicate 8 32"

definition mark_root :: "nat \<Rightarrow> bytes \<Rightarrow> int \<times> bytes" where
  "mark_root rootbin_pos disk =
     (let vol_desc = slice (16 * 2048) 2048 disk
      in if length vol_desc \<noteq> 2048 then (1, disk)
         else if slice 1 5 vol_desc \<noteq> map of_char ''CD001'' then (1, disk)
         else if isonum_711 vol_desc 0 \<noteq> ISO_VD_PRIMARY then (1, disk)
         else if rootbin_pos mod 2048 \<noteq> 0 then (1, disk)
         else (0, file_write (16 * 2048) (put_bytes 883 (root_start rootbin_pos) vol_desc) disk))"

subsection \<open>The program\<close>

text \<open>\<open>f\<close>, \<open>raw\<close> and \<open>heap\<close> are those of the reader; \<open>st\<close> is the state of its static variables.\<close>

definition isomarkboot ::
  "nat \<Rightarrow> (nat \<Rightarrow> bytes) \<Rightarrow> (nat \<Rightarrow> u8) \<Rightarrow> iso_state \<Rightarrow> bytes option \<Rightarrow> bytes \<Rightarrow> bytes option \<Rightarrow> (int \<times> bytes option) option" where
  "isomarkboot f raw heap st device path rootbin =
     (case device of
        None \<Rightarrow> Some (1, None)
      | Some disk \<Rightarrow>
          case iso_read_super (iso_dev_read disk) st of (r, st) \<Rightarrow>
            if r < 0 then Some (1, Some disk)
            else
              case iso_open f (iso_dev_read disk) raw heap path st of
                None \<Rightarrow> None
              | Some (fd, st) \<Rightarrow>
                  if fd < 0 then Some (1, Some disk)
                  else
                    case mark_boot (nat fd) st disk of
                      None \<Rightarrow> None
                    | Some (c, disk) \<Rightarrow>
                        if c \<noteq> 0 then Some (c, Some disk)
                        else
                          case rootbin of
                            None \<Rightarrow> Some (0, Some disk)
                          | Some name \<Rightarrow>
                              case iso_open f (iso_dev_read disk) raw heap name st of
                                None \<Rightarrow> None
                              | Some (fd, st) \<Rightarrow>
                                  if fd < 0 then Some (1, Some disk)
                                  else Some (map_prod id Some (mark_root (nat (iso_map (nat fd) 0 st)) disk)))"

subsection \<open>The words of the sector\<close>

lemma write_64_eq: "write_64 off v sector = put_le64 off v sector"
proof -
  have "ucast (w AND 0xff) = (ucast w :: u8)" for w :: u64
  proof -
    have m: "ucast (w AND mask 8) = (ucast w :: u8)" by (rule bit_word_eqI) (simp add: bit_simps)
    have "mask 8 = (0xff :: u64)" by (simp add: mask_eq_exp_minus_1)
    from m [unfolded this] show ?thesis .
  qed
  moreover have "[0..<8] = [0, 1, 2, 3, 4, 5, 6, 7 :: nat]" by (simp add: upt_rec)
  ultimately show ?thesis unfolding write_64_def put_le64_def le_encode_def by simp
qed

lemma read_64_eq:
  assumes "off + 8 \<le> length b"
  shows "read_64 b off = le64_at b off"
proof -
  have u: "[0..<8] = [0, 1, 2, 3, 4, 5, 6, 7 :: nat]" by (simp add: upt_rec)
  have "slice off 8 b = map (\<lambda>k. b ! (off + k)) [0..<8]" by (rule nth_equalityI) (use assms in \<open>simp_all add: length_slice nth_slice\<close>)
  then have s: "slice off 8 b = [b ! off, b ! (off + 1), b ! (off + 2), b ! (off + 3), b ! (off + 4), b ! (off + 5), b ! (off + 6), b ! (off + 7)]" unfolding u by simp
  have o: "ucast c + 256 * w = ucast c OR push_bit 8 w" for c :: u8 and w :: u64
  proof -
    have "ucast c + push_bit 8 w = ucast c OR push_bit 8 w" by (rule disjunctive_add_eq_or) (auto simp: bit_eq_iff bit_simps dest: bit_imp_le_length)
    then show ?thesis by (simp add: push_bit_eq_mult mult.commute)
  qed
  show ?thesis unfolding le64_at_def s read_64_def by (simp add: o push_bit_or push_bit_push_bit or.assoc)
qed

lemma mark_sector_fields:
  assumes "length sector = 512"
    and m_def: "m = mark_sector sz pos sector"
  shows "length m = 512" "bb_count m = of_nat (sz div 512)" "bb_lbn m = of_nat (pos div 512)" "bb_flags m = 0" "boot_sector_ok m" "slice 0 38 m = boot_banner" "slice 38 442 m = slice 38 442 sector"
proof -
  define b where "b = put_le64 496 0 (put_le64 488 (of_nat (pos div 512)) (put_le64 480 (of_nat (sz div 512)) (put_bytes 0 boot_banner sector)))"
  have lb: "length boot_banner = 38" by (simp add: boot_banner_def)
  have l: "length b = 512" using assms(1) lb by (simp add: b_def length_put_bytes)
  have "sum_list (map (\<lambda>i. read_64 b (8 * i)) [0..<63]) = quad_sum 63 b" unfolding quad_sum_def by (intro arg_cong [where f = sum_list] map_cong refl) (use l in \<open>auto simp: read_64_eq\<close>)
  then have m: "m = put_le64 504 (quad_sum 63 b) b" by (simp add: m_def mark_sector_def write_64_eq b_def Let_def)
  show "length m = 512" using l m by simp
  show "bb_count m = of_nat (sz div 512)" "bb_lbn m = of_nat (pos div 512)" "bb_flags m = 0"
    using l assms(1) lb by (simp_all add: m bb_defs le64_put_other) (simp_all add: b_def le64_put le64_put_other length_put_bytes)
  show "boot_sector_ok m" using l by (simp add: m boot_sector_ok_def bb_chk_sum_def CONSOLE_BLOCK_SIZE_def le64_put quad_sum_put)
  have o: "slice a k m = slice a k (put_bytes 0 boot_banner sector)" if "a + k \<le> 480" for a k
    using that assms(1) lb by (simp add: m b_def put_le64_def slice_put_bytes_other length_put_bytes)
  show "slice 0 38 m = boot_banner" "slice 38 442 m = slice 38 442 sector"
    using o [of 0 38] o [of 38 442] slice_put_bytes [of 0 boot_banner sector] assms(1) lb by (simp_all add: slice_put_bytes_other)
qed

lemma iso_map_first:
  assumes "s_blocksize (sb st) = 1024" "s_blocksize_bits (sb st) = 10"
  shows "iso_map fd 0 st = int (first_block (iso_table st ! fd) * 1024)"
proof -
  let ?b = "first_block (iso_table st ! fd)"
  have b: "?b < 2 ^ 22" by (rule first_block_less)
  have "iso_bmap (sb st) (iso_table st ! fd) (int 0) = int (?b + 0)" by (rule iso_bmap_block) (use assms in simp_all)
  then have "iso_map fd 0 st = uint (word_of_int (int (?b * 1024)) :: u32)" using assms by (simp add: iso_map_def)
  also have "\<dots> = int (?b * 1024)" unfolding uint_word_of_int_eq by (rule take_bit_int_eq_self) (use b in simp_all)
  finally show ?thesis .
qed

subsection \<open>Properties\<close>

text \<open>
  C9.  \<open>isomarkboot\<close> writes a valid boot sector, changes nothing else, and the sectors it names are the first bytes of the loader as the ISO 9660 reader delivers it: all whole sectors of it,
  so that a size that is no multiple of 512 loses the rest.
\<close>

theorem isomarkboot_boots:
  assumes m: "mark_boot fd st disk = Some (0, disk')" and r: "readable disk (sb st) (iso_table st ! fd)"
  shows "boot_sector_ok (take 512 disk') \<and> drop 512 disk' = drop 512 disk \<and> slice 38 442 disk' = slice 38 442 disk
     \<and> unat (bb_count disk') = unat (iso_size (iso_table st ! fd)) div 512
     \<and> slice (512 * unat (bb_lbn disk')) (512 * unat (bb_count disk')) disk' = take (512 * unat (bb_count disk')) (iso_content disk (iso_table st ! fd))"
proof -
  let ?ip = "iso_table st ! fd" and ?s = "slice 0 512 disk"
  let ?fb = "first_block ?ip" and ?sz = "unat (iso_size ?ip)"
  have g: "s_blocksize (sb st) = 1024" "s_blocksize_bits (sb st) = 10" "0 < ?fb" "?sz < 2 ^ 31" using r by (simp_all add: readable_def)
  have b: "?fb < 2 ^ 22" by (rule first_block_less)
  have "nat (iso_map fd 0 st) = ?fb * 1024" by (simp only: iso_map_first [OF g(1,2)] nat_int)
  then have l: "length ?s = 512" and d: "disk' = file_write 0 (mark_sector ?sz (?fb * 1024) ?s) disk"
    using m by (auto simp: mark_boot_def iso_fstat_def Let_def split: if_splits)
  note f = mark_sector_fields [OF l refl, of ?sz "?fb * 1024"]
  have e: "disk' = mark_sector ?sz (?fb * 1024) ?s @ drop 512 disk" using d f(1) by (simp add: file_write_def)
  have q: "le64_at disk' a = le64_at (mark_sector ?sz (?fb * 1024) ?s) a" if "a + 8 \<le> 512" for a using that f(1) le64_take [of a 512 disk'] e by simp
  have c: "unat (bb_count disk') = ?sz div 512"
  proof -
    have "?sz div 512 < 2 ^ 64" using g(4) by (rule le_less_trans [OF div_le_dividend order_less_trans]) simp
    then show ?thesis using f(2) q by (simp add: bb_defs unat_of_nat)
  qed
  have p: "unat (bb_lbn disk') = 2 * ?fb"
  proof -
    have "?fb * 1024 div 512 = 2 * ?fb" by simp
    then have "bb_lbn disk' = of_nat (2 * ?fb)" using f(3) q by (simp add: bb_defs)
    then show ?thesis using b by (simp add: unat_of_nat del: of_nat_mult)
  qed
  have s: "slice a k disk' = slice a k disk" if "512 \<le> a" for a k using that f(1) e by (simp add: slice_def)
  have "512 * (?sz div 512) \<le> file_blocks ?ip * 1024" 
  proof -
    have "512 * (?sz div 512) \<le> ?sz" by simp
    also have "\<dots> \<le> file_blocks ?ip * 1024" unfolding file_blocks_def using dividend_less_div_times [of 1024 ?sz] by simp
    finally show ?thesis .
  qed
  then have "slice (512 * (2 * ?fb)) (512 * (?sz div 512)) disk' = take (512 * (?sz div 512)) (iso_content disk ?ip)"
    using s [of "512 * (2 * ?fb)" "512 * (?sz div 512)"] g(3) by (simp add: iso_content_def slice_def min_def mult.commute)
  moreover have "slice 38 442 disk' = slice 38 442 disk"
  proof -
    have "slice 38 442 disk' = slice 38 442 (mark_sector ?sz (?fb * 1024) ?s)" using e f(1) by (simp add: slice_def)
    also have "\<dots> = slice 38 442 disk" unfolding f(7) using l by (simp add: slice_def drop_take min_def)
    finally show ?thesis .
  qed
  moreover have "boot_sector_ok (take 512 disk')" "drop 512 disk' = drop 512 disk" using e f(1,5) by simp_all
  ultimately show ?thesis using c p by simp
qed

theorem isomarkboot_boots_witness:
  "\<exists>disk'. mark_boot 0 disc_state cd_disc = Some (0, disk') \<and> boot_sector_ok (take 512 disk') \<and> drop 512 disk' = drop 512 cd_disc"
proof -
  have r: "readable cd_disc (sb disc_state) (iso_table disc_state ! 0)"
    by (simp add: disc_state_def iso_mounted_def iso_example_def readable_def disc_slot_def cd_slot_def first_block_def file_blocks_def cd_disc_length)
  obtain disk' where d: "mark_boot 0 disc_state cd_disc = Some (0, disk')"
    by (simp add: mark_boot_def iso_fstat_def MAX_OPEN_FILES_def Let_def length_slice cd_disc_length)
  with isomarkboot_boots [OF d r] show ?thesis by blast
qed

end
