(* ===== verification/Objstrip.thy ===== *)
theory Objstrip
  imports Sdisklabel
begin

text \<open>
  The host programs of the build that convert executables: \<open>objstrip\<close> makes the image of the loader and its boot sector (\<^verbatim>\<open>src/tools/objstrip.c\<close>), \<open>elfencap\<close> puts an image into
  an ELF file (\<^verbatim>\<open>src/tools/elfencap.c\<close>).

  The results of the calls of \<open>write\<close> are a list: the number of bytes that are accepted, or \<^const>\<open>None\<close> for a failure; behind its end every call accepts all bytes.  Input and output are different files.
\<close>

unbundle bit_operations_syntax

type_synonym writes = "nat option list"

definition sys_write :: "writes \<Rightarrow> nat \<Rightarrow> nat option \<times> writes" where
  "sys_write ws n = (case ws of [] \<Rightarrow> (Some n, []) | w # ws \<Rightarrow> (map_option (min n) w, ws))"

subsection \<open>The fields of the headers\<close>

definition BLOCK_SIZE :: nat where "BLOCK_SIZE = 512"
definition EHDR_SIZE :: nat where "EHDR_SIZE = 64"

definition eh_type :: "bytes \<Rightarrow> u16" where "eh_type b = le16_at b 16"
definition eh_machine :: "bytes \<Rightarrow> u16" where "eh_machine b = le16_at b 18"
definition eh_entry :: "bytes \<Rightarrow> u64" where "eh_entry b = le64_at b 24"
definition eh_phoff :: "bytes \<Rightarrow> u64" where "eh_phoff b = le64_at b 32"
definition ph_offset :: "bytes \<Rightarrow> u64" where "ph_offset b = le64_at b 8"
definition ph_vaddr :: "bytes \<Rightarrow> u64" where "ph_vaddr b = le64_at b 16"
definition ph_filesz :: "bytes \<Rightarrow> u64" where "ph_filesz b = le64_at b 32"
definition ph_memsz :: "bytes \<Rightarrow> u64" where "ph_memsz b = le64_at b 40"

lemmas eh_defs = eh_type_def eh_machine_def eh_entry_def eh_phoff_def
lemmas ph_defs = ph_offset_def ph_vaddr_def ph_filesz_def ph_memsz_def

text \<open>The header of the old format, which the kernel headers define: the tests of the flags, of the size of the optional header and of the magic number, and the sizes.\<close>

record aout_abi =
  ax_exec :: "bytes \<Rightarrow> bool"
  ax_opthdr :: "bytes \<Rightarrow> bool"
  ax_omagic :: "bytes \<Rightarrow> bool"
  ax_txtoff :: "bytes \<Rightarrow> u64"
  ax_tsize :: "bytes \<Rightarrow> u64"
  ax_dsize :: "bytes \<Rightarrow> u64"
  ax_bsize :: "bytes \<Rightarrow> u64"

subsection \<open>Copying\<close>

text \<open>The inner loop, which writes from the start of the buffer every time.\<close>

primrec copy_out :: "writes \<Rightarrow> bytes \<Rightarrow> nat \<Rightarrow> bytes \<Rightarrow> bool \<times> writes \<times> bytes" where
  "copy_out [] buf n out = (True, [], out @ take n buf)"
| "copy_out (w # ws) buf n out =
     (case w of
        None \<Rightarrow> (False, ws, out)
      | Some k \<Rightarrow>
          let nwritten = min k n; out = out @ take nwritten buf
          in if n - nwritten > 0 then copy_out ws buf (n - nwritten) out else (True, ws, out))"

function strip_copy :: "writes \<Rightarrow> bytes \<Rightarrow> nat \<Rightarrow> bytes \<Rightarrow> bool \<times> writes \<times> bytes" where
  "strip_copy ws data tocopy out =
     (if tocopy = 0 then (True, ws, out)
      else
        let n = min tocopy 8192; buf = take n data
        in if length buf \<noteq> n then (False, ws, out)
           else
             case copy_out ws buf n out of
               (ok, ws, out) \<Rightarrow> if \<not> ok then (False, ws, out) else strip_copy ws (drop n data) (tocopy - n) out)"
  by pat_completeness auto
termination by (relation "measure (\<lambda>(_, _, n, _). n)") auto

function zero_out :: "writes \<Rightarrow> nat \<Rightarrow> bytes \<Rightarrow> bool \<times> bytes" where
  "zero_out ws tocopy out =
     (if tocopy = 0 then (True, out)
      else
        case sys_write ws (min tocopy 8192) of
          (None, _) \<Rightarrow> (False, out)
        | (Some nwritten, ws) \<Rightarrow> zero_out ws (tocopy - nwritten) (out @ replicate nwritten 0))"
  by pat_completeness auto
termination
  by (relation "measure (\<lambda>(ws, n, _). length ws + n)") (auto simp: sys_write_def split: list.splits)

subsection \<open>The image\<close>

text \<open>Offset, size in the file and size in memory.  \<^const>\<open>None\<close> is an exit with code 1.  A seek to a negative offset fails and leaves the position behind the bytes that were read.\<close>

definition elf_extent :: "bytes \<Rightarrow> bytes \<Rightarrow> (u64 \<times> u64 \<times> u64) option" where
  "elf_extent buf f =
     (if eh_type buf \<noteq> ET_EXEC then None
      else if eh_machine buf \<noteq> EM_ALPHA then None
      else
        let e_entry = eh_entry buf; pos = (if sint (eh_phoff buf) < 0 then min 8192 (length f) else unat (eh_phoff buf)); ph = slice pos sizeof_phdr f
        in if length ph \<noteq> sizeof_phdr then None
           else if ph_vaddr ph < e_entry then
             let delta = e_entry - ph_vaddr ph in Some (ph_offset ph + delta, ph_filesz ph - delta, ph_memsz ph - delta)
           else Some (ph_offset ph, ph_filesz ph, ph_memsz ph))"

definition aout_extent :: "aout_abi \<Rightarrow> bytes \<Rightarrow> (u64 \<times> u64 \<times> u64) option" where
  "aout_extent abi buf =
     (if \<not> ax_exec abi buf then None
      else if \<not> ax_opthdr abi buf then None
      else if \<not> ax_omagic abi buf then None
      else let fil_size = ax_tsize abi buf + ax_dsize abi buf in Some (ax_txtoff abi buf, fil_size, fil_size + ax_bsize abi buf))"

definition is_elf :: "bytes \<Rightarrow> bool" where
  "is_elf buf \<longleftrightarrow> buf ! 0 = 0x7f \<and> slice 1 3 buf = map of_char ''ELF''"

definition copy_image :: "writes \<Rightarrow> u64 \<Rightarrow> bytes \<Rightarrow> u64 \<times> u64 \<times> u64 \<Rightarrow> int \<times> bytes" where
  "copy_image ws pad f ext =
     (case ext of
        (offset, fil_size, mem_size) \<Rightarrow>
          if sint offset < 0 then (1, [])
          else
            case strip_copy ws (drop (unat offset) f) (unat fil_size) [] of
              (ok, ws, out) \<Rightarrow>
                if \<not> ok then (1, out)
                else
                  let mem_size = (if pad \<noteq> 0 then (mem_size + pad - 1) div pad * pad else mem_size)
                  in case zero_out ws (unat (mem_size - fil_size)) out of (ok, out) \<Rightarrow> (if ok then 0 else 1, out))"

definition strip_file :: "aout_abi \<Rightarrow> writes \<Rightarrow> bytes \<Rightarrow> u64 \<Rightarrow> bytes \<Rightarrow> int \<times> bytes" where
  "strip_file abi ws junk pad f =
     (let buf = overwrite (take 8192 f) junk
      in case (if is_elf buf then elf_extent buf f else aout_extent abi buf) of
           None \<Rightarrow> (1, [])
         | Some ext \<Rightarrow> copy_image ws pad f ext)"

subsection \<open>The boot sector of the primary loader\<close>

definition srm_banner :: bytes where "srm_banner = map of_char ''Linux SRM bootblock'' @ [0]"

definition round_block :: "nat \<Rightarrow> nat" where "round_block n = (n + BLOCK_SIZE - 1) div BLOCK_SIZE * BLOCK_SIZE"

definition primary_sector :: "bytes \<Rightarrow> bytes" where
  "primary_sector f =
     (let bb = put_bytes 0 srm_banner (replicate 512 0);
          bb = put_le64 (8 * 60) (of_nat (round_block (length f) div BLOCK_SIZE)) bb;
          bb = put_le64 (8 * 61) 1 bb;
          bb = put_le64 (8 * 62) 0 bb
      in put_le64 (8 * 63) (quad_sum 63 bb) bb)"

definition write_primary :: "writes \<Rightarrow> bytes \<Rightarrow> int \<times> bytes" where
  "write_primary ws f =
     (case sys_write ws 512 of
        (None, _) \<Rightarrow> (1, [])
      | (Some n, _) \<Rightarrow> (if n \<noteq> 512 then 1 else 0, take n (primary_sector f)))"

subsection \<open>The program\<close>

primrec strip_opts :: "bytes list \<Rightarrow> bool \<Rightarrow> u64 \<Rightarrow> bool \<times> u64 \<times> bytes list" where
  "strip_opts [] primary pad = (primary, pad, [])"
| "strip_opts (a # as) primary pad =
     (if a \<noteq> [] \<and> hd a = 45
      then strip_opts as (primary \<or> 112 \<in> set (drop 1 a)) (if 98 \<in> set (drop 1 a) then of_nat BLOCK_SIZE else pad)
      else (primary, pad, a # as))"

text \<open>\<open>files\<close> has the files that can be opened, \<open>creat\<close> tells which output files can be; the result is the exit code and the output.\<close>

definition objstrip :: "aout_abi \<Rightarrow> (bytes \<Rightarrow> bytes option) \<Rightarrow> (bytes \<Rightarrow> bool) \<Rightarrow> writes \<Rightarrow> bytes \<Rightarrow> bytes list \<Rightarrow> int \<times> bytes" where
  "objstrip abi files creat ws junk args =
     (case strip_opts args False 0 of
        (primary, pad, []) \<Rightarrow> (1, [])
      | (primary, pad, inname # rest) \<Rightarrow>
          case files inname of
            None \<Rightarrow> (1, [])
          | Some f \<Rightarrow>
              if rest \<noteq> [] \<and> \<not> creat (hd rest) then (1, [])
              else if primary then if rest = [] then (1, []) else write_primary ws f
              else strip_file abi ws junk pad f)"

subsection \<open>The ELF file around an image\<close>

definition LOAD_ADDR :: u64 where "LOAD_ADDR = 0xfffffc0000310000"

text \<open>The assignments to the zeroed header, in their order.\<close>

definition encap_fields :: "bytes \<Rightarrow> (nat \<times> bytes) list" where
  "encap_fields f =
     [(0, [0x7f]),
      (1, map of_char ''ELF'' @ [0]),
      (4, [2]),
      (5, [1]),
      (6, [1]),
      (16, le_encode 2 ET_EXEC),
      (18, le_encode 2 EM_ALPHA),
      (20, le_encode 4 (1 :: u32)),
      (24, le_encode 8 LOAD_ADDR),
      (56, le_encode 2 (1 :: u16)),
      (32, le_encode 8 (of_nat EHDR_SIZE :: u64)),
      (EHDR_SIZE + 16, le_encode 8 LOAD_ADDR),
      (EHDR_SIZE + 8, le_encode 8 (of_nat (EHDR_SIZE + sizeof_phdr) :: u64)),
      (EHDR_SIZE + 32, le_encode 8 (of_nat (length f) :: u64)),
      (EHDR_SIZE + 40, le_encode 8 (of_nat (length f) :: u64))]"

definition put_fields :: "(nat \<times> bytes) list \<Rightarrow> bytes \<Rightarrow> bytes" where
  "put_fields xs h = foldl (\<lambda>h (off, x). put_bytes off x h) h xs"

definition encap_header :: "bytes \<Rightarrow> bytes" where
  "encap_header f = put_fields (encap_fields f) (replicate (EHDR_SIZE + sizeof_phdr) 0)"

function encap_copy :: "writes \<Rightarrow> bytes \<Rightarrow> bytes \<Rightarrow> int \<times> bytes" where
  "encap_copy ws data out =
     (if data = [] then (0, out)
      else
        let buf = take 8192 data
        in case sys_write ws (length buf) of
             (None, _) \<Rightarrow> (1, out)
           | (Some n, ws) \<Rightarrow> if n \<noteq> length buf then (1, out @ take n buf) else encap_copy ws (drop 8192 data) (out @ buf))"
  by pat_completeness auto
termination by (relation "measure (\<lambda>(_, d, _). length d)") auto

text \<open>The result of writing the header is not looked at.\<close>

definition elfencap :: "writes \<Rightarrow> bytes option \<Rightarrow> int \<times> bytes" where
  "elfencap ws file =
     (case file of
        None \<Rightarrow> (1, [])
      | Some f \<Rightarrow>
          let h = encap_header f
          in case sys_write ws (length h) of (w, ws) \<Rightarrow> encap_copy ws f (case w of None \<Rightarrow> [] | Some n \<Rightarrow> take n h))"

subsection \<open>Complete writes\<close>

declare strip_copy.simps [simp del] zero_out.simps [simp del] encap_copy.simps [simp del]

lemma strip_copy_full: "n \<le> length data \<Longrightarrow> strip_copy [] data n out = (True, [], out @ take n data)"
proof (induction n arbitrary: data out rule: less_induct)
  case (less n)
  show ?case
  proof (cases "n = 0")
    case True
    then show ?thesis by (subst strip_copy.simps) simp
  next
    case False
    let ?k = "min n 8192"
    have "strip_copy [] data n out = strip_copy [] (drop ?k data) (n - ?k) (out @ take ?k data)"
      using False less.prems by (subst strip_copy.simps) (simp add: Let_def min_def)
    also have "\<dots> = (True, [], (out @ take ?k data) @ take (n - ?k) (drop ?k data))"
      by (rule less.IH) (use False less.prems in auto)
    finally show ?thesis by (simp flip: take_add)
  qed
qed

lemma zero_out_full: "zero_out [] n out = (True, out @ replicate n 0)"
proof (induction n arbitrary: out rule: less_induct)
  case (less n)
  show ?case
  proof (cases "n = 0")
    case True
    then show ?thesis by (subst zero_out.simps) simp
  next
    case False
    let ?k = "min n 8192"
    have "zero_out [] n out = zero_out [] (n - ?k) (out @ replicate ?k 0)"
      using False by (subst zero_out.simps) (simp add: sys_write_def)
    also have "\<dots> = (True, (out @ replicate ?k 0) @ replicate (n - ?k) 0)"
      by (rule less.IH) (use False in auto)
    finally show ?thesis by (simp flip: replicate_add)
  qed
qed

lemma encap_copy_full: "encap_copy [] data out = (0, out @ data)"
proof (induction data arbitrary: out rule: length_induct)
  case (1 data)
  show ?case
  proof (cases "data = []")
    case True
    then show ?thesis by (subst encap_copy.simps) simp
  next
    case False
    have "encap_copy [] data out = encap_copy [] (drop 8192 data) (out @ take 8192 data)"
      using False by (subst encap_copy.simps) (simp add: sys_write_def Let_def)
    also have "\<dots> = (0, (out @ take 8192 data) @ drop 8192 data)" using 1 False by (simp del: append.assoc)
    finally show ?thesis by simp
  qed
qed


subsection \<open>The image of a segment\<close>

text \<open>The bytes that a loader would put into memory for the program header \<open>ph\<close>, and a size with the bytes that fill the last block.\<close>

definition segment_image :: "bytes \<Rightarrow> bytes \<Rightarrow> bytes" where
  "segment_image f ph = slice (unat (ph_offset ph)) (unat (ph_filesz ph)) f @ replicate (unat (ph_memsz ph) - unat (ph_filesz ph)) 0"

definition fill_block :: "nat \<Rightarrow> bytes \<Rightarrow> bytes" where
  "fill_block pad img = img @ replicate ((if pad = 0 then length img else (length img + pad - 1) div pad * pad) - length img) 0"

lemma unat_round:
  assumes "unat m < 2 ^ 63" "0 < unat pad" "unat pad < 2 ^ 62"
  shows "unat ((m + pad - 1) div pad * pad :: u64) = (unat m + unat pad - 1) div unat pad * unat pad"
proof -
  have "unat (m + pad) = unat m + unat pad" using assms by (subst unat_add_lem [THEN iffD1]) auto
  then have "unat (m + pad - 1) = unat m + unat pad - 1" using assms(2) by (subst unat_minus_one) auto
  then have d: "unat ((m + pad - 1) div pad) = (unat m + unat pad - 1) div unat pad" by (simp add: unat_div)
  have "(unat m + unat pad - 1) div unat pad * unat pad < 2 ^ 64" by (rule le_less_trans [OF div_times_less_eq_dividend]) (use assms in simp)
  then have "unat ((m + pad - 1) div pad) * unat pad < 2 ^ 64" unfolding d .
  then show ?thesis using d by (subst unat_mult_lem [THEN iffD1]) auto
qed

lemma copy_image_full:
  assumes o: "unat offset + unat fil \<le> length f" "length f < 2 ^ 63" and m: "fil \<le> mem" "unat mem < 2 ^ 63" and p: "pad = 0 \<or> pad = 512"
  shows "copy_image [] pad f (offset, fil, mem) = (0, fill_block (unat pad) (slice (unat offset) (unat fil) f @ replicate (unat mem - unat fil) 0))"
proof -
  define m' where "m' = (if pad \<noteq> 0 then (mem + pad - 1) div pad * pad else mem)"
  define n' where "n' = (if unat pad = 0 then unat mem else (unat mem + unat pad - 1) div unat pad * unat pad)"
  have le: "unat fil \<le> unat mem" using m(1) by (simp add: word_le_nat_alt)
  have n: "unat m' = n'" using p unat_round [OF m(2), of pad] by (auto simp: m'_def n'_def)
  have up: "unat mem \<le> n'" using p by (auto simp: n'_def)
  have "unat (m' - fil) = n' - unat fil" using le up n by (subst unat_sub) (auto simp: word_le_nat_alt)
  then have "unat (m' - fil) = (unat mem - unat fil) + (n' - unat mem)" using le up by simp
  then have z: "replicate (unat (m' - fil)) (0 :: u8) = replicate (unat mem - unat fil) 0 @ replicate (n' - unat mem) 0" by (simp only: replicate_add)
  have l: "length (slice (unat offset) (unat fil) f @ replicate (unat mem - unat fil) 0) = unat mem" using o(1) le by (simp add: length_slice)
  have s: "\<not> sint offset < 0" using o by (subst sint_small) simp_all
  have "copy_image [] pad f (offset, fil, mem) = (0, slice (unat offset) (unat fil) f @ replicate (unat (m' - fil)) 0)"
    using s o by (simp add: copy_image_def strip_copy_full zero_out_full slice_def flip: m'_def)
  then show ?thesis unfolding z fill_block_def l n'_def by simp
qed


lemma strip_elf:
  assumes f: "64 \<le> length f" "length f < 2 ^ 63" "is_elf f" "eh_type f = ET_EXEC" "eh_machine f = EM_ALPHA" "unat (eh_phoff f) + sizeof_phdr \<le> length f"
    and ph: "ph = slice (unat (eh_phoff f)) sizeof_phdr f"
    and seg: "unat (ph_offset ph) + unat (ph_filesz ph) \<le> length f" "ph_filesz ph \<le> ph_memsz ph" "unat (ph_memsz ph) < 2 ^ 63" "unat (eh_entry f) \<le> unat (ph_vaddr ph) + unat (ph_filesz ph)"
    and pad: "pad = 0 \<or> pad = 512"
  shows "strip_file abi [] junk pad f = (0, fill_block (unat pad) (drop (unat (eh_entry f) - unat (ph_vaddr ph)) (segment_image f ph)))"
proof -
  let ?b = "overwrite (take 8192 f) junk"
  have s: "slice a k ?b = slice a k f" if "a + k \<le> 64" for a k
    using that f(1) by (auto simp: slice_def overwrite_def drop_take min_def)
  have "?b ! 0 = f ! 0" using f(1) by (cases f) (simp_all add: overwrite_def)
  then have b: "is_elf ?b" "eh_type ?b = ET_EXEC" "eh_machine ?b = EM_ALPHA" "eh_entry ?b = eh_entry f" "eh_phoff ?b = eh_phoff f"
    using f s by (simp_all add: is_elf_def eh_defs le16_at_def le64_at_def)
  have n: "\<not> sint (eh_phoff f) < 0" using f(2,6) by (subst sint_small) simp_all
  have l: "length ph = sizeof_phdr" using f(6) by (simp add: ph length_slice)
  let ?d = "eh_entry f - ph_vaddr ph" and ?k = "unat (eh_entry f) - unat (ph_vaddr ph)"
  have e: "elf_extent ?b f = Some (if ph_vaddr ph < eh_entry f then (ph_offset ph + ?d, ph_filesz ph - ?d, ph_memsz ph - ?d) else (ph_offset ph, ph_filesz ph, ph_memsz ph))"
    using b n l by (simp add: elf_extent_def Let_def ph)
  show ?thesis
  proof (cases "ph_vaddr ph < eh_entry f")
    case False
    then have "?k = 0" by (simp add: word_less_nat_alt)
    then show ?thesis using False b(1) copy_image_full [OF seg(1) f(2) seg(2,3) pad] by (simp add: strip_file_def e Let_def segment_image_def)
  next
    case True
    have d: "unat ?d = ?k" using True by (subst unat_sub) (simp_all add: word_le_nat_alt word_less_nat_alt)
    have k: "?k \<le> unat (ph_filesz ph)" "unat (ph_filesz ph) \<le> unat (ph_memsz ph)" using seg(2,4) by (simp_all add: word_le_nat_alt)
    have u: "unat (ph_offset ph + ?d) = unat (ph_offset ph) + ?k" "unat (ph_filesz ph - ?d) = unat (ph_filesz ph) - ?k" "unat (ph_memsz ph - ?d) = unat (ph_memsz ph) - ?k"
      using k d seg(1) f(2) by (auto simp: unat_sub word_le_nat_alt unat_add_lem [THEN iffD1])
    have "copy_image [] pad f (ph_offset ph + ?d, ph_filesz ph - ?d, ph_memsz ph - ?d)
        = (0, fill_block (unat pad) (slice (unat (ph_offset ph) + ?k) (unat (ph_filesz ph) - ?k) f @ replicate (unat (ph_memsz ph) - unat (ph_filesz ph)) 0))"
      by (subst copy_image_full) (use u k seg f(2) pad in \<open>auto simp: word_le_nat_alt intro: diff_le_mono\<close>)
    moreover have "drop ?k (segment_image f ph) = slice (unat (ph_offset ph) + ?k) (unat (ph_filesz ph) - ?k) f @ replicate (unat (ph_memsz ph) - unat (ph_filesz ph)) 0"
      using k seg(1) by (simp add: segment_image_def slice_def drop_take add.commute)
    ultimately show ?thesis using True b(1) by (simp add: strip_file_def e Let_def)
  qed
qed


text \<open>The bytes that the last assignment to a field leaves there.\<close>

primrec field_of :: "nat \<Rightarrow> nat \<Rightarrow> (nat \<times> bytes) list \<Rightarrow> bytes \<Rightarrow> bytes" where
  "field_of a k [] d = d"
| "field_of a k (p # ps) d = field_of a k ps (if fst p = a \<and> length (snd p) = k then snd p else d)"

definition fields_apart :: "nat \<Rightarrow> nat \<Rightarrow> nat \<Rightarrow> (nat \<times> bytes) list \<Rightarrow> bool" where
  "fields_apart n a k ps \<longleftrightarrow> list_all (\<lambda>p. fst p + length (snd p) \<le> n \<and> (fst p = a \<and> length (snd p) = k \<or> a + k \<le> fst p \<or> fst p + length (snd p) \<le> a)) ps"

lemma slice_put_fields: "fields_apart (length h) a k ps \<Longrightarrow> slice a k (put_fields ps h) = field_of a k ps (slice a k h)"
proof (induction ps arbitrary: h)
  case (Cons p ps)
  obtain off x where p: "p = (off, x)" by fastforce
  have l: "length (put_bytes off x h) = length h" using Cons.prems by (simp add: fields_apart_def p length_put_bytes)
  have "slice a k (put_fields (p # ps) h) = field_of a k ps (slice a k (put_bytes off x h))"
    using Cons.IH [of "put_bytes off x h"] Cons.prems l by (simp add: put_fields_def fields_apart_def p)
  also have "slice a k (put_bytes off x h) = (if off = a \<and> length x = k then x else slice a k h)"
    using Cons.prems slice_put_bytes [of off x h] by (auto simp: fields_apart_def p slice_put_bytes_other)
  finally show ?case by (simp add: p)
qed (simp add: put_fields_def)

lemma length_put_fields: "list_all (\<lambda>p. fst p + length (snd p) \<le> length h) ps \<Longrightarrow> length (put_fields ps h) = length h"
  by (induction ps arbitrary: h) (auto simp: put_fields_def length_put_bytes)

lemmas encap_defs = encap_header_def encap_fields_def EHDR_SIZE_def sizeof_phdr_def

lemma length_encap_header: "length (encap_header f) = 120"
  by (simp add: encap_defs length_put_fields)

lemma encap_header_fields:
  "eh_type (encap_header f) = ET_EXEC" "eh_machine (encap_header f) = EM_ALPHA" "eh_entry (encap_header f) = LOAD_ADDR" "eh_phoff (encap_header f) = 64" "le64_at (encap_header f) 72 = 120"
  "le64_at (encap_header f) 80 = LOAD_ADDR" "le64_at (encap_header f) 96 = of_nat (length f)" "le64_at (encap_header f) 104 = of_nat (length f)"
  unfolding eh_defs le64_at_def le16_at_def by (simp_all add: encap_defs slice_put_fields fields_apart_def le_word_encode)

lemma is_elf_encap_header: "is_elf (encap_header f)"
proof -
  let ?h = "put_bytes 1 (map of_char ''ELF'' @ [0]) (put_bytes 0 [0x7f] (replicate 120 0))"
  have e: "encap_header f = put_fields (drop 2 (encap_fields f)) ?h" by (simp add: encap_defs put_fields_def)
  have l: "length ?h = 120" by (simp add: length_put_bytes)
  have s: "slice 0 4 (encap_header f) = slice 0 4 ?h" unfolding e by (subst slice_put_fields) (use l in \<open>simp_all add: fields_apart_def encap_defs\<close>)
  have h: "slice 0 4 ?h = 0x7f # map of_char ''ELF''" by (simp add: slice_def put_bytes_def)
  have "encap_header f ! 0 = slice 0 4 (encap_header f) ! 0" "slice 1 3 (encap_header f) = drop 1 (slice 0 4 (encap_header f))"
    using length_encap_header [of f] by (simp_all add: slice_def drop_take)
  then show ?thesis unfolding is_elf_def s h by simp
qed


text \<open>The ELF file around \<open>f\<close> and its program header.\<close>

lemma encap_file:
  assumes len: "length f < 2 ^ 62" and e_def: "e = encap_header f @ f" and ph_def: "ph = slice 64 56 e"
  shows "is_elf e" "eh_type e = ET_EXEC" "eh_machine e = EM_ALPHA" "eh_entry e = LOAD_ADDR" "eh_phoff e = 64"
    "ph_offset ph = 120" "ph_vaddr ph = LOAD_ADDR" "ph_filesz ph = of_nat (length f)" "ph_memsz ph = of_nat (length f)" "segment_image e ph = f"
proof -
  let ?h = "encap_header f"
  note l = length_encap_header [of f]
  have s: "slice a k e = slice a k ?h" if "a + k \<le> 120" for a k using that l by (simp add: e_def slice_def)
  have "e ! 0 = ?h ! 0" using l by (simp add: e_def nth_append)
  then show "is_elf e" using is_elf_encap_header [of f] by (simp add: is_elf_def s)
  show "eh_type e = ET_EXEC" "eh_machine e = EM_ALPHA" "eh_entry e = LOAD_ADDR" "eh_phoff e = 64"
    using encap_header_fields [of f] by (simp_all add: eh_defs le16_at_def le64_at_def s)
  have q: "le64_at ph a = le64_at ?h (64 + a)" if "a + 8 \<le> 56" for a using that by (simp add: ph_def le64_at_def slice_slice s)
  show p: "ph_offset ph = 120" "ph_vaddr ph = LOAD_ADDR" "ph_filesz ph = of_nat (length f)" "ph_memsz ph = of_nat (length f)"
    using encap_header_fields [of f] by (simp_all add: ph_defs q)
  have "unat (of_nat (length f) :: u64) = length f" using len by (simp add: unat_of_nat)
  then show "segment_image e ph = f" using p l by (simp add: segment_image_def slice_def e_def)
qed

subsection \<open>Properties\<close>

lemma strip_opts_b: "strip_opts [map of_char ''-b'', inname] False 0 = (False, 512, [inname])" if "inname = [] \<or> hd inname \<noteq> 45" for inname
  using that by (auto simp: BLOCK_SIZE_def)

lemma strip_opts_p: "strip_opts [map of_char ''-p'', inname, outname] False 0 = (True, 0, [inname, outname])" if "inname = [] \<or> hd inname \<noteq> 45" for inname outname
  using that by (auto simp: BLOCK_SIZE_def)

text \<open>
  C11.  \<open>objstrip -b\<close> writes the memory image of the loader: for an ELF executable it delivers the bytes that the first program header describes from the entry point on, with the zeros of
  the BSS, filled up to whole sectors.
\<close>

theorem objstrip_extracts:
  assumes name: "files inname = Some f" "inname = [] \<or> hd inname \<noteq> 45"
    and f: "64 \<le> length f" "length f < 2 ^ 63" "is_elf f" "eh_type f = ET_EXEC" "eh_machine f = EM_ALPHA" "unat (eh_phoff f) + sizeof_phdr \<le> length f"
    and ph: "ph = slice (unat (eh_phoff f)) sizeof_phdr f"
    and seg: "unat (ph_offset ph) + unat (ph_filesz ph) \<le> length f" "ph_filesz ph \<le> ph_memsz ph" "unat (ph_memsz ph) < 2 ^ 63" "unat (eh_entry f) \<le> unat (ph_vaddr ph) + unat (ph_filesz ph)"
  shows "objstrip abi files creat [] junk [map of_char ''-b'', inname] = (0, fill_block 512 (drop (unat (eh_entry f) - unat (ph_vaddr ph)) (segment_image f ph)))"
  using strip_elf [OF f ph seg, of 512 abi junk] name(1) unfolding objstrip_def strip_opts_b [OF name(2)] by simp

text \<open>
  C39.  \<open>objstrip\<close> undoes \<open>elfencap\<close>: the image that \<open>elfencap\<close> has put into an ELF file comes out again.
\<close>

theorem objstrip_elfencap:
  assumes "length f < 2 ^ 62" "pad = 0 \<or> pad = 512"
  shows "fst (elfencap [] (Some f)) = 0 \<and> strip_file abi [] junk pad (snd (elfencap [] (Some f))) = (0, fill_block (unat pad) f)"
proof -
  let ?e = "encap_header f @ f"
  let ?ph = "slice 64 56 ?e"
  note l = length_encap_header [of f]
  note p = encap_file [OF assms(1) refl refl]
  have e: "elfencap [] (Some f) = (0, ?e)" using l by (simp add: elfencap_def sys_write_def encap_copy_full Let_def)
  have u: "unat (of_nat (length f) :: u64) = length f" using assms(1) by (simp add: unat_of_nat)
  have "strip_file abi [] junk pad ?e = (0, fill_block (unat pad) (drop (unat (eh_entry ?e) - unat (ph_vaddr ?ph)) (segment_image ?e ?ph)))"
    by (rule strip_elf) (use assms l p u in \<open>simp_all add: sizeof_phdr_def\<close>)
  then show ?thesis using e p by simp
qed

text \<open>
  \<open>objstrip -p\<close> writes the sector in front of an image: its sum is valid, and with the image behind it the sectors it names are the image, filled up to whole sectors.
\<close>

theorem objstrip_primary_boots:
  assumes name: "files inname = Some f" "inname = [] \<or> hd inname \<noteq> 45" "creat outname" and len: "length f < 2 ^ 62"
  shows "\<exists>bb. objstrip abi files creat [] junk [map of_char ''-p'', inname, outname] = (0, bb) \<and> length bb = 512 \<and> boot_sector_ok bb \<and> bb_flags bb = 0
     \<and> slice (512 * unat (bb_lbn bb)) (512 * unat (bb_count bb)) (bb @ fill_block 512 f) = fill_block 512 f"
proof -
  let ?bb = "primary_sector f" and ?n = "(length f + 511) div 512"
  define b where "b = put_le64 496 0 (put_le64 488 1 (put_le64 480 (of_nat ?n) (put_bytes 0 srm_banner (replicate 512 0))))"
  have lb: "length srm_banner = 20" by (simp add: srm_banner_def)
  have l: "length b = 512" using lb by (simp add: b_def length_put_bytes)
  have r: "round_block (length f) div BLOCK_SIZE = ?n" by (simp add: round_block_def BLOCK_SIZE_def)
  have bb: "?bb = put_le64 504 (quad_sum 63 b) b" by (simp add: primary_sector_def r Let_def b_def)
  have len_bb: "length ?bb = 512" using l by (simp add: bb)
  have fields: "bb_count ?bb = of_nat ?n" "bb_lbn ?bb = 1" "bb_flags ?bb = 0"
    using l lb by (simp_all add: bb bb_defs le64_put_other) (simp_all add: b_def le64_put le64_put_other length_put_bytes)
  have ok: "boot_sector_ok ?bb" using l by (simp add: bb boot_sector_ok_def bb_chk_sum_def CONSOLE_BLOCK_SIZE_def le64_put quad_sum_put)
  have "?n < 2 ^ 64" by (rule le_less_trans [OF div_le_dividend]) (use len in simp)
  then have c: "unat (bb_count ?bb) = ?n" unfolding fields by (simp add: unat_of_nat)
  have "length f \<le> ?n * 512" by simp
  then have "length (fill_block 512 f) = 512 * ?n" by (simp add: fill_block_def)
  then have "slice (512 * unat (bb_lbn ?bb)) (512 * unat (bb_count ?bb)) (?bb @ fill_block 512 f) = fill_block 512 f"
    unfolding c using fields(2) len_bb by (simp add: slice_def)
  moreover have "objstrip abi files creat [] junk [map of_char ''-p'', inname, outname] = (0, ?bb)"
    using name(1,3) len_bb unfolding objstrip_def strip_opts_p [OF name(2)] by (simp add: write_primary_def sys_write_def)
  ultimately show ?thesis using len_bb ok fields by blast
qed

text \<open>
  C40.  When \<open>write\<close> accepts only \<open>k\<close> bytes, \<open>objstrip\<close> goes on from the start of its buffer: the first bytes are written again, the last ones are lost, and the exit code is 0.
\<close>

theorem objstrip_short_write:
  assumes "k < n" "n \<le> 8192" "n \<le> length f" "length f < 2 ^ 63"
  shows "copy_image [Some k] 0 f (0, of_nat n, of_nat n) = (0, take k f @ take (n - k) f)"
proof -
  have u: "unat (of_nat n :: u64) = n" using assms(2) by (simp add: unat_of_nat)
  have "strip_copy [Some k] f n [] = (True, [], take k f @ take (n - k) f)"
    using assms by (subst strip_copy.simps) (simp add: Let_def min_def strip_copy_full)
  then show ?thesis using u by (simp add: copy_image_def zero_out_full)
qed


subsection \<open>Witnesses\<close>

definition abi_example :: aout_abi where
  "abi_example = \<lparr>ax_exec = (\<lambda>_. False), ax_opthdr = (\<lambda>_. False), ax_omagic = (\<lambda>_. False), ax_txtoff = (\<lambda>_. 0), ax_tsize = (\<lambda>_. 0), ax_dsize = (\<lambda>_. 0), ax_bsize = (\<lambda>_. 0)\<rparr>"

theorem objstrip_extracts_witness:
  "objstrip abi_example (\<lambda>_. Some (encap_header [1, 2, 3] @ [1, 2, 3])) (\<lambda>_. True) [] [] [map of_char ''-b'', map of_char ''aboot''] = (0, [1, 2, 3] @ replicate 509 0)"
proof -
  let ?f = "[1, 2, 3] :: bytes"
  let ?e = "encap_header ?f @ ?f"
  have n: "length ?f < 2 ^ 62" by simp
  note p = encap_file [OF n refl refl]
  have "objstrip abi_example (\<lambda>_. Some ?e) (\<lambda>_. True) [] [] [map of_char ''-b'', map of_char ''aboot'']
      = (0, fill_block 512 (drop (unat (eh_entry ?e) - unat (ph_vaddr (slice 64 56 ?e))) (segment_image ?e (slice 64 56 ?e))))"
    by (rule objstrip_extracts) (use p length_encap_header [of ?f] in \<open>simp_all add: sizeof_phdr_def\<close>)
  then show ?thesis using p by (simp add: fill_block_def)
qed

theorem objstrip_elfencap_witness:
  "strip_file abi_example [] [] 0 (snd (elfencap [] (Some [1, 2, 3]))) = (0, [1, 2, 3])"
  using objstrip_elfencap [of "[1, 2, 3]" 0 abi_example "[]"] by (simp add: fill_block_def)

theorem objstrip_primary_boots_witness:
  "\<exists>bb. objstrip abi_example (\<lambda>_. Some [1, 2, 3]) (\<lambda>_. True) [] [] [map of_char ''-p'', map of_char ''in'', map of_char ''out''] = (0, bb) \<and> boot_sector_ok bb"
  using objstrip_primary_boots [of "\<lambda>_. Some [1, 2, 3]" "map of_char ''in''" "[1, 2, 3]" "\<lambda>_. True" "map of_char ''out''" abi_example "[]"] by auto

theorem objstrip_short_write_witness:
  "copy_image [Some 2] 0 [1, 2, 3, 4, 5] (0, 5, 5) = (0, [1, 2, 1, 2, 3])"
  using objstrip_short_write [of 2 5 "[1, 2, 3, 4, 5]"] by simp

end
