(* ===== verification/Netboot.thy ===== *)
theory Netboot
  imports Options Swriteboot
begin

text \<open>
  Booting from the network: the host programs \<open>b2c\<close> (\<^verbatim>\<open>src/b2c.c\<close>), which makes a C array of the loader, and \<open>netabootwrap\<close> (\<^verbatim>\<open>src/netabootwrap.c\<close> with \<^verbatim>\<open>src/netwrap.h\<close>),
  which puts loader, kernel and ramdisk into one file, and the part of the loader that finds them in memory (\<^verbatim>\<open>src/net.c\<close>).

  \<open>load_kernel\<close> is in two parts, before and after the call of \<open>uncompress_kernel\<close>.  The decompressor reads its input through \<open>net_bread\<close> from the memory that it writes to, while the theory
  \<open>Unzip\<close> keeps file and memory apart; so the two parts are not joined by it here.

  In the host programs \<^const>\<open>None\<close> means that the code has no defined result: \<open>open_file\<close> compares the address of the descriptor instead of the descriptor with 0, so that a file that cannot be
  opened has an arbitrary size.
\<close>

unbundle bit_operations_syntax

subsection \<open>Alignment and the header\<close>

definition align_pagesize :: "u64 \<Rightarrow> u64" where "align_pagesize v = (v + (PAGE_SIZE - 1)) AND NOT (PAGE_SIZE - 1)"
definition align_512 :: "u64 \<Rightarrow> u64" where "align_512 v = (v + 511) AND NOT 511"

definition BOOT_ARG :: nat where "BOOT_ARG = 12"

subsection \<open>The array\<close>

text \<open>The words of the parts that are read; bytes behind the last whole word are dropped.\<close>

function b2c_words :: "bytes \<Rightarrow> u32 list" where
  "b2c_words f =
     (if f = [] then []
      else let buf = take 4096 f in map (\<lambda>i. le_word (slice (4 * i) 4 buf)) [0..<length buf div 4] @ b2c_words (drop 4096 f))"
  by pat_completeness auto
termination by (relation "measure length") auto

function hex_digits :: "nat \<Rightarrow> string" where
  "hex_digits n = (if n < 16 then [''0123456789abcdef'' ! n] else hex_digits (n div 16) @ [''0123456789abcdef'' ! (n mod 16)])"
  by pat_completeness auto
termination by (relation "measure id") auto

definition b2c :: "bytes option \<Rightarrow> string \<Rightarrow> (int \<times> string) option" where
  "b2c file symname =
     (case file of
        None \<Rightarrow> None
      | Some f \<Rightarrow>
          if length f \<le> 10 * 1024 then Some (1, [])
          else Some (0, ''int '' @ symname @ ''[] = {'' @ [LF] @ concat (map (\<lambda>w. ''0x'' @ hex_digits (unat w) @ '', '' @ [LF]) (b2c_words f)) @ ''};''))"

subsection \<open>The file for the network\<close>

record wrap =
  tfn :: bytes
  kfn :: bytes
  ifn :: "bytes option"
  barg :: "bytes option"

definition wrap_default :: wrap where
  "wrap_default = \<lparr>tfn = str ''netboot.img'', kfn = str ''vmlinux.gz'', ifn = None, barg = None\<rparr>"

text \<open>The operand of a switch, in the same argument or in the next one, and the arguments behind it.\<close>

definition switch_value :: "bytes \<Rightarrow> bytes list \<Rightarrow> bytes option \<times> bytes list" where
  "switch_value a as = (if length a > 2 then (Some (drop 2 a), as) else case as of [] \<Rightarrow> (None, []) | s # as \<Rightarrow> (Some s, as))"

text \<open>\<^const>\<open>None\<close> is an exit with code 1.\<close>

function wrap_args :: "bytes list \<Rightarrow> wrap \<Rightarrow> wrap option" where
  "wrap_args [] w = Some w"
| "wrap_args (a # as) w =
     (if a = [] \<or> hd a \<noteq> 45 then Some w
      else
        let c = (if length a > 1 then a ! 1 else 0); (v, rest) = switch_value a as
        in if c = 116 then wrap_args rest (case v of None \<Rightarrow> w | Some s \<Rightarrow> w\<lparr>tfn := s\<rparr>)
           else if c = 107 then wrap_args rest (case v of None \<Rightarrow> w | Some s \<Rightarrow> w\<lparr>kfn := s\<rparr>)
           else if c = 105 then wrap_args rest (case v of None \<Rightarrow> w | Some s \<Rightarrow> w\<lparr>ifn := Some s\<rparr>)
           else if c = 97 then wrap_args rest (case v of None \<Rightarrow> w | Some s \<Rightarrow> w\<lparr>barg := Some s\<rparr>)
           else None)"
  by pat_completeness auto
termination by (relation "measure (\<lambda>(as, _). length as)") (auto simp: switch_value_def split: if_splits list.splits)

text \<open>A size as it is kept in an \<open>int\<close>.\<close>

definition int_size :: "bytes \<Rightarrow> u32" where "int_size f = of_nat (length f)"

function append_file :: "bytes \<Rightarrow> nat \<Rightarrow> bytes \<Rightarrow> nat \<times> bytes" where
  "append_file data pos img =
     (if data = [] then (pos, img)
      else let d = take 4096 data in append_file (drop 4096 data) (pos + length d) (file_write pos d img))"
  by pat_completeness auto
termination by (relation "measure (\<lambda>(d, _). length d)") auto

definition seek_512 :: "nat \<Rightarrow> nat" where "seek_512 pos = unat (align_512 (of_nat pos))"

definition wrap_header :: "bytes \<Rightarrow> bytes option \<Rightarrow> bytes option \<Rightarrow> bytes" where
  "wrap_header k i arg =
     (let text = (case arg of None \<Rightarrow> [] | Some s \<Rightarrow> s @ [0]); isz = (case i of None \<Rightarrow> 0 | Some f \<Rightarrow> int_size f)
      in le_encode 4 (of_nat (BOOT_ARG + length text) :: u32) @ le_encode 4 (int_size k) @ le_encode 4 isz @ text)"

definition wrap_image :: "bytes \<Rightarrow> bytes \<Rightarrow> bytes option \<Rightarrow> bytes option \<Rightarrow> bytes" where
  "wrap_image bootloader k i arg =
     (let hdr = wrap_header k i arg; pos = seek_512 (length bootloader);
          img = file_write pos hdr bootloader;
          (pos, img) = append_file k (seek_512 (pos + length hdr)) img
      in case i of None \<Rightarrow> img | Some f \<Rightarrow> snd (append_file f (seek_512 pos) img))"

text \<open>The result is the exit code with name and content of the target file.\<close>

definition netabootwrap :: "(bytes \<Rightarrow> bytes option) \<Rightarrow> bytes \<Rightarrow> bytes list \<Rightarrow> (int \<times> (bytes \<times> bytes) option) option" where
  "netabootwrap files bootloader args =
     (case wrap_args args wrap_default of
        None \<Rightarrow> Some (1, None)
      | Some w \<Rightarrow>
          case files (kfn w) of
            None \<Rightarrow> None
          | Some k \<Rightarrow>
              if length k \<le> 10 * 1024 then Some (1, None)
              else
                let run = (\<lambda>i. if (case barg w of None \<Rightarrow> False | Some s \<Rightarrow> length s \<ge> 200) then Some (1, Some (tfn w, bootloader))
                               else Some (0, Some (tfn w, wrap_image bootloader k i (barg w))))
                in case ifn w of
                     None \<Rightarrow> run None
                   | Some name \<Rightarrow> (case files name of None \<Rightarrow> None | Some f \<Rightarrow> if length f \<le> 10 * 1024 then Some (1, None) else run (Some f)))"

subsection \<open>The loader\<close>

text \<open>The static variables beside those of the record \<open>boot\<close>.\<close>

record 's net =
  net_boot :: "'s boot"
  net_src :: u64
  kern_src :: u64
  ird_src :: u64
  header_size :: int
  kern_size :: int
  ird_size :: int

definition net_memory :: "'s net \<Rightarrow> mem" where "net_memory s = memory (loader (net_boot s))"

definition set_net_memory :: "mem \<Rightarrow> 's net \<Rightarrow> 's net" where
  "set_net_memory m s = s\<lparr>net_boot := (net_boot s)\<lparr>loader := (loader (net_boot s))\<lparr>memory := m\<rparr>\<rparr>\<rparr>"

definition net_free_ptr :: "'s net \<Rightarrow> u64" where "net_free_ptr s = free_mem_ptr (elf (loader (net_boot s)))"

definition set_net_free_ptr :: "u64 \<Rightarrow> 's net \<Rightarrow> 's net" where
  "set_net_free_ptr p s = s\<lparr>net_boot := (net_boot s)\<lparr>loader := (loader (net_boot s))\<lparr>elf := (elf (loader (net_boot s)))\<lparr>free_mem_ptr := p\<rparr>\<rparr>\<rparr>\<rparr>"

definition net_blocksize :: int where "net_blocksize = 512"

definition net_bread :: "int \<Rightarrow> u64 \<Rightarrow> 's net \<Rightarrow> int \<times> 's net" where
  "net_bread nblks buf s =
     (let nbytes = sint (word_of_int (net_blocksize * nblks) :: u32); n = word_of_int nbytes :: u64;
          s = set_net_memory (memcpy (unat buf) (unat (net_src s)) (unat n) (net_memory s)) s
      in (nbytes, s\<lparr>net_src := net_src s + n\<rparr>))"

definition net_read_initrd :: "'s net \<Rightarrow> int \<times> 's net" where
  "net_read_initrd s =
     (let sz = word_of_int (ird_size s) :: u64; start = net_free_ptr s - align_pagesize sz;
          s = s\<lparr>net_boot := (net_boot s)\<lparr>initrd_start := start, initrd_size := sz\<rparr>\<rparr>;
          s = set_net_free_ptr start s;
          nblocks = sint (ucast (align_512 sz div 512) :: u32)
      in (0, snd (net_bread nblocks start s)))"

text \<open>\<open>load_kernel\<close> up to the call of \<open>uncompress_kernel\<close>.  \<open>end_addr\<close> is the address of \<open>_end\<close>; \<^const>\<open>None\<close>: the name of the boot file does not fit its array.\<close>

definition read_header :: "u64 \<Rightarrow> 's net \<Rightarrow> 's net" where
  "read_header header s =
     (let m = net_memory s; hs = sint (get_le32 m (unat header)); ks = sint (get_le32 m (unat (header + 4))); is = sint (get_le32 m (unat (header + 8)));
          k = align_512 (header + word_of_int hs)
      in s\<lparr>header_size := hs, kern_src := k, kern_size := ks, ird_src := align_512 (k + word_of_int ks), ird_size := is\<rparr>)"

definition net_find_kernel :: "memclust_struct list \<Rightarrow> u64 \<Rightarrow> 's net \<Rightarrow> 's net option" where
  "net_find_kernel mem_clusters end_addr s =
     (let s = read_header (align_512 end_addr) s;
          s = (if net_free_ptr s = 0 then set_net_free_ptr (memory_end mem_clusters) s else s);
          s = set_net_free_ptr (net_free_ptr s AND NOT (PAGE_SIZE - 1)) s;
          s = (if ird_size s \<noteq> 0 then snd (net_read_initrd (s\<lparr>net_src := ird_src s\<rparr>)) else s)
      in case put_str (boot_file (net_boot s)) 0 (str ''network'') of
           None \<Rightarrow> None
         | Some name \<Rightarrow>
             let s = s\<lparr>net_boot := (net_boot s)\<lparr>boot_file := name\<rparr>\<rparr>;
                 p = net_free_ptr s - align_pagesize (word_of_int (kern_size s));
                 s = set_net_free_ptr p (s\<lparr>net_src := p\<rparr>)
             in Some (set_net_memory (memcpy (unat p) (unat (kern_src s)) (unat (word_of_int (kern_size s) :: u64)) (net_memory s)) s))"

text \<open>\<open>load_kernel\<close> from the clearing of the BSS on.  The bytes that \<open>strncpy\<close> writes:\<close>

primrec strncpy_bytes :: "nat \<Rightarrow> nat \<Rightarrow> mem \<Rightarrow> bytes" where
  "strncpy_bytes 0 a m = []"
| "strncpy_bytes (Suc n) a m = (if m a = 0 then [0] else m a # strncpy_bytes n (Suc a) m)"

definition copy_boot_arg :: "u64 \<Rightarrow> 's net \<Rightarrow> ('s boot, unit) prog" where
  "copy_boot_arg header s b =
     (let m = memory (loader b); a = unat (header + of_nat BOOT_ARG)
      in if kernel_args b ! 0 = 0 \<and> m a \<noteq> 0 then
           let x = strncpy_bytes (unat (word_of_int (header_size s) - of_nat BOOT_ARG :: u64)) a m
           in if length x > length (kernel_args b) then (Crash, b) else (Ret (), b\<lparr>kernel_args := overwrite x (kernel_args b)\<rparr>)
         else (Ret (), b))"

primrec ask_args :: "nat \<Rightarrow> ('s boot, unit) prog" where
  "ask_args 0 b = (Timeout, b)"
| "ask_args (Suc n) b =
     (if kernel_args b ! 0 = 105 \<and> kernel_args b ! 1 = 0
      then bind_gz (read_line (kernel_args b)) (\<lambda>ka. bind_gz (modify_gz (\<lambda>b. b\<lparr>kernel_args := ka\<rparr>)) (\<lambda>_. ask_args n)) b
      else (Ret (), b))"

text \<open>Every round of \<open>ask_args\<close> takes a character of the input.\<close>

definition net_finish :: "u64 \<Rightarrow> 's net \<Rightarrow> ('s boot, int) prog" where
  "net_finish end_addr s =
     bind_gz (modify_gz (\<lambda>b. b\<lparr>loader := clear_bss (loader b)\<rparr>)) (\<lambda>_.
     bind_gz (copy_boot_arg (align_512 end_addr) s) (\<lambda>_.
     bind_gz (gets_gz input) (\<lambda>inp.
     bind_gz (ask_args (Suc (length inp))) (\<lambda>_. ret_gz 0))))"


subsection \<open>Facts on alignment\<close>

definition up :: "nat \<Rightarrow> nat \<Rightarrow> nat" where "up c n = (n + (c - 1)) div c * c"

lemma up_ge: "0 < c \<Longrightarrow> n \<le> up c n" and up_less: "0 < c \<Longrightarrow> up c n < n + c"
proof -
  assume c: "0 < c"
  have "n + (c - 1) < (n + (c - 1)) div c * c + c" using dividend_less_div_times [OF c, of "n + (c - 1)"] by (simp add: add.commute)
  then show "n \<le> up c n" using c unfolding up_def by linarith
  have "(n + (c - 1)) div c * c \<le> n + (c - 1)" by (rule div_times_less_eq_dividend)
  then show "up c n < n + c" using c unfolding up_def by linarith
qed

lemma up_mod: "up c n mod c = 0" by (simp add: up_def)

lemma up_add:
  assumes "base mod c = 0" "0 < c"
  shows "up c (base + n) = base + up c n"
proof -
  obtain q where q: "base = c * q" using assms(1) by (auto simp: mod_eq_0_iff_dvd)
  have "(base + n + (c - 1)) div c = q + (n + (c - 1)) div c" using div_mult_self4 [of c q "n + (c - 1)"] assms(2) unfolding q add.assoc by simp
  then show ?thesis by (simp add: up_def q algebra_simps)
qed

lemma unat_align:
  assumes "unat (mask n :: u64) = 2 ^ n - 1" "unat v + 2 ^ n < 2 ^ 64"
  shows "unat ((v + mask n) AND NOT (mask n) :: u64) = up (2 ^ n) (unat v)"
proof -
  have "unat (v + mask n) = unat v + (2 ^ n - 1)" using assms by (subst unat_add_lem [THEN iffD1]) auto
  then show ?thesis by (simp add: unat_and_not_mask up_def minus_mod_eq_div_mult)
qed

lemma unat_align_512: "unat v + 512 < 2 ^ 64 \<Longrightarrow> unat (align_512 v) = up 512 (unat v)"
  using unat_align [of 9 v] by (simp add: align_512_def mask_eq_exp_minus_1)

lemma unat_align_pagesize: "unat v + 8192 < 2 ^ 64 \<Longrightarrow> unat (align_pagesize v) = up 8192 (unat v)"
  using unat_align [of 13 v] by (simp add: align_pagesize_def mask_eq_exp_minus_1 PAGE_SIZE_def PAGE_SHIFT_def)

lemma seek_512_eq: "n + 512 < 2 ^ 64 \<Longrightarrow> seek_512 n = up 512 n"
  by (simp add: seek_512_def unat_align_512 unat_of_nat)


subsection \<open>The layout of the file\<close>

declare append_file.simps [simp del]

lemma append_file_eq: "data \<noteq> [] \<Longrightarrow> append_file data pos img = (pos + length data, file_write pos data img)"
proof (induction data arbitrary: pos img rule: length_induct)
  case (1 data)
  let ?d = "take 4096 data" and ?r = "drop 4096 data"
  have a: "append_file data pos img = append_file ?r (pos + length ?d) (file_write pos ?d img)" using 1 by (subst append_file.simps) (simp add: Let_def)
  show ?case
  proof (cases "?r = []")
    case True
    then show ?thesis unfolding a by (subst append_file.simps) simp
  next
    case False
    then have "append_file ?r (pos + length ?d) (file_write pos ?d img) = (pos + length ?d + length ?r, file_write (pos + length ?d) ?r (file_write pos ?d img))" using 1 by auto
    then show ?thesis unfolding a file_write_append using False by simp
  qed
qed

lemma slice_file_write_below: "a + n \<le> length f \<Longrightarrow> a + n \<le> off \<Longrightarrow> slice a n (file_write off x f) = slice a n f"
  by (simp add: slice_def file_write_def drop_take min_def)

lemma length_file_write_behind: "length f \<le> off \<Longrightarrow> length (file_write off x f) = off + length x"
  by (simp add: file_write_def)

definition header_pos :: "bytes \<Rightarrow> nat" where "header_pos bl = up 512 (length bl)"
definition kernel_pos :: "bytes \<Rightarrow> bytes \<Rightarrow> bytes option \<Rightarrow> bytes option \<Rightarrow> nat" where "kernel_pos bl k i arg = up 512 (header_pos bl + length (wrap_header k i arg))"
definition initrd_pos :: "bytes \<Rightarrow> bytes \<Rightarrow> bytes option \<Rightarrow> bytes option \<Rightarrow> nat" where "initrd_pos bl k i arg = up 512 (kernel_pos bl k i arg + length k)"

definition sizes_small :: "bytes \<Rightarrow> bytes \<Rightarrow> bytes option \<Rightarrow> bytes option \<Rightarrow> bool" where
  "sizes_small bl k i arg \<longleftrightarrow> length bl < 2 ^ 30 \<and> k \<noteq> [] \<and> length k < 2 ^ 30 \<and> (case i of None \<Rightarrow> True | Some f \<Rightarrow> f \<noteq> [] \<and> length f < 2 ^ 30)
     \<and> (case arg of None \<Rightarrow> True | Some s \<Rightarrow> length s < 200)"

lemma length_wrap_header: "length (wrap_header k i arg) = 12 + (case arg of None \<Rightarrow> 0 | Some s \<Rightarrow> length s + 1)"
  by (cases arg) (simp_all add: wrap_header_def Let_def)

lemma wrap_layout:
  assumes small: "sizes_small bl k i arg" and img_def: "img = wrap_image bl k i arg"
  shows "slice (header_pos bl) (length (wrap_header k i arg)) img = wrap_header k i arg"
    "slice (kernel_pos bl k i arg) (length k) img = k"
    "i = Some f \<Longrightarrow> slice (initrd_pos bl k i arg) (length f) img = f"
    "arg = None \<Longrightarrow> slice (header_pos bl + 12) 1 img = [0]"
    "length img = (case i of None \<Rightarrow> kernel_pos bl k i arg + length k | Some f \<Rightarrow> initrd_pos bl k i arg + length f)"
proof -
  let ?h = "wrap_header k i arg" and ?A = "header_pos bl" and ?K = "kernel_pos bl k i arg" and ?I = "initrd_pos bl k i arg"
  have lh: "length ?h < 256" using small by (auto simp: length_wrap_header sizes_small_def split: option.splits)
  have b: "length bl < 2 ^ 30" "length k < 2 ^ 30" "k \<noteq> []" using small by (simp_all add: sizes_small_def)
  have o: "length bl \<le> ?A" "?A < length bl + 512" "?A + length ?h \<le> ?K" "?K < ?A + length ?h + 512" "?K + length k \<le> ?I" "?I < ?K + length k + 512"
    unfolding initrd_pos_def kernel_pos_def header_pos_def by (rule up_ge up_less, simp)+
  have s: "seek_512 (length bl) = ?A" "seek_512 (?A + length ?h) = ?K" "seek_512 (?K + length k) = ?I"
    using o b lh by (simp_all add: seek_512_eq header_pos_def kernel_pos_def initrd_pos_def)
  define i1 where "i1 = file_write ?A ?h bl"
  define i2 where "i2 = file_write ?K k i1"
  have e: "img = (case i of None \<Rightarrow> i2 | Some f \<Rightarrow> file_write ?I f i2)"
    unfolding img_def wrap_image_def Let_def s append_file_eq [OF b(3)] prod.case i2_def i1_def
    by (rule option.case_cong) (use small in \<open>simp_all add: sizes_small_def append_file_eq\<close>)
  have l1: "length i1 = ?A + length ?h" unfolding i1_def by (rule length_file_write_behind [OF o(1)])
  have l2: "length i2 = ?K + length k" unfolding i2_def by (rule length_file_write_behind) (use l1 o in simp)
  have lo: "slice a n img = slice a n i2" if "a + n \<le> ?K + length k" for a n
    using that l2 o by (auto simp: e slice_file_write_below split: option.splits)
  have "slice ?A (length ?h) i2 = ?h" unfolding i2_def using l1 o by (simp add: slice_file_write_below) (simp add: i1_def slice_file_write)
  then show "slice ?A (length ?h) img = ?h" using o by (simp add: lo)
  have "slice ?K (length k) i2 = k" unfolding i2_def by (rule slice_file_write)
  then show "slice ?K (length k) img = k" by (simp add: lo)
  show "i = Some f \<Longrightarrow> slice ?I (length f) img = f" by (simp add: e slice_file_write)
  show "length img = (case i of None \<Rightarrow> ?K + length k | Some f \<Rightarrow> ?I + length f)"
    using l2 o by (auto simp: e length_file_write_behind split: option.splits)
  assume n: "arg = None"
  then have h: "length ?h = 12" by (simp add: length_wrap_header)
  have "?K = up 512 (?A + 12)" by (simp add: kernel_pos_def h)
  also have "\<dots> = ?A + 512" by (subst up_add) (simp_all add: header_pos_def up_mod, simp add: up_def)
  finally have k: "?K = ?A + 512" .
  then have "slice (?A + 12) 1 i2 = [0]" using l1 h by (simp add: i2_def slice_def file_write_def take_Suc)
  then show "slice (?A + 12) 1 img = [0]" using lo [of "?A + 12" 1] k by simp
qed


subsection \<open>The file in memory\<close>

lemma bytes_at_part: "bytes_at m base (length img) = img \<Longrightarrow> a + n \<le> length img \<Longrightarrow> bytes_at m (base + a) n = slice a n img"
proof (rule nth_equalityI)
  fix j assume "bytes_at m base (length img) = img" "a + n \<le> length img" "j < length (bytes_at m (base + a) n)"
  then show "bytes_at m (base + a) n ! j = slice a n img ! j"
    using nth_bytes_at [of "a + j" "length img" m base] by (simp add: nth_slice add.assoc)
qed (simp add: length_slice)

lemma sint_of_nat_small: "n < 2 ^ 31 \<Longrightarrow> sint (of_nat n :: u32) = int n"
  using sint_word_of_int_pos [of "int n"] by simp

lemma header_words:
  "slice 0 4 (wrap_header k i arg) = le_encode 4 (of_nat (length (wrap_header k i arg)) :: u32)" "slice 4 4 (wrap_header k i arg) = le_encode 4 (of_nat (length k) :: u32)"
  "slice 8 4 (wrap_header k i arg) = le_encode 4 (of_nat (case i of None \<Rightarrow> 0 | Some f \<Rightarrow> length f) :: u32)"
  unfolding length_wrap_header by (cases arg; cases i; simp add: wrap_header_def Let_def slice_def int_size_def BOOT_ARG_def)+

lemma read_header_image:
  assumes small: "sizes_small bl k i arg" and img: "img = wrap_image bl k i arg" and mem: "bytes_at (net_memory s) base (length img) = img"
    and base: "base mod 512 = 0" "base < 2 ^ 63" and h: "unat header = base + header_pos bl"
  shows "read_header header s = s\<lparr>header_size := int (length (wrap_header k i arg)), kern_src := of_nat (base + kernel_pos bl k i arg), kern_size := int (length k),
           ird_src := of_nat (base + initrd_pos bl k i arg), ird_size := (case i of None \<Rightarrow> 0 | Some f \<Rightarrow> int (length f))\<rparr>"
proof -
  let ?h = "wrap_header k i arg" and ?A = "header_pos bl" and ?K = "kernel_pos bl k i arg" and ?I = "initrd_pos bl k i arg"
  note L = wrap_layout [OF small img]
  have lh: "12 \<le> length ?h" "length ?h < 256" using small by (auto simp: length_wrap_header sizes_small_def split: option.splits)
  have b: "length bl < 2 ^ 30" "length k < 2 ^ 30" using small by (simp_all add: sizes_small_def)
  have o: "length bl \<le> ?A" "?A < length bl + 512" "?A + length ?h \<le> ?K" "?K < ?A + length ?h + 512" "?K + length k \<le> ?I" "?I < ?K + length k + 512"
    unfolding initrd_pos_def kernel_pos_def header_pos_def by (rule up_ge up_less, simp)+
  have w: "get_le32 (net_memory s) (unat (header + of_nat a)) = le_word (slice a 4 ?h)" if "a \<le> 8" for a
  proof -
    have "unat (header + of_nat a) = base + (?A + a)" using h that base b o by (subst unat_add_lem [THEN iffD1]) (auto simp: unat_of_nat)
    moreover have "?A + a + 4 \<le> length img" using that lh o L(5) by (auto split: option.splits)
    moreover have "slice (?A + a) 4 img = slice a 4 ?h" using that lh slice_slice [of a 4 "length ?h" ?A img] L(1) by simp
    ultimately show ?thesis by (simp add: get_le32_def bytes_at_part [OF mem])
  qed
  have isz: "(case i of None \<Rightarrow> 0 | Some f \<Rightarrow> length f) < 2 ^ 30" using small by (auto simp: sizes_small_def split: option.splits)
  have f0: "sint (get_le32 (net_memory s) (unat header)) = int (length ?h)" using w [of 0] lh by (simp add: header_words le_word_encode sint_of_nat_small)
  have f4: "sint (get_le32 (net_memory s) (unat (header + 4))) = int (length k)" using w [of 4] b by (simp add: header_words le_word_encode sint_of_nat_small)
  have f8: "sint (get_le32 (net_memory s) (unat (header + 8))) = (case i of None \<Rightarrow> 0 | Some f \<Rightarrow> int (length f))"
    using w [of 8] isz by (cases i) (simp_all add: header_words le_word_encode sint_of_nat_small)
  have k: "align_512 (header + word_of_int (int (length ?h))) = of_nat (base + ?K)"
  proof (rule word_unat_eq_iff [THEN iffD2])
    have "unat (header + of_nat (length ?h)) = base + (?A + length ?h)" using h lh base b o by (subst unat_add_lem [THEN iffD1]) (auto simp: unat_of_nat)
    then have "unat (align_512 (header + of_nat (length ?h))) = base + ?K" using lh base b o by (simp add: unat_align_512 up_add kernel_pos_def)
    then show "unat (align_512 (header + word_of_int (int (length ?h)))) = unat (of_nat (base + ?K) :: u64)" using base b o lh by (simp add: unat_of_nat del: of_nat_add)
  qed
  have q: "align_512 (of_nat (base + ?K) + word_of_int (int (length k))) = of_nat (base + ?I)"
  proof (rule word_unat_eq_iff [THEN iffD2])
    have "of_nat (base + ?K) + word_of_int (int (length k)) = (of_nat (base + (?K + length k)) :: u64)" by simp
    moreover have "unat (of_nat (base + (?K + length k)) :: u64) = base + (?K + length k)" using base b o lh by (simp add: unat_of_nat del: of_nat_add)
    ultimately have "unat (align_512 (of_nat (base + ?K) + word_of_int (int (length k)))) = base + ?I" using base b o lh by (simp only:) (simp add: unat_align_512 up_add initrd_pos_def)
    then show "unat (align_512 (of_nat (base + ?K) + word_of_int (int (length k)))) = unat (of_nat (base + ?I) :: u64)" using base b o lh by (simp add: unat_of_nat del: of_nat_add)
  qed
  show ?thesis unfolding read_header_def Let_def f0 f4 f8 k q ..
qed


subsection \<open>Finding and moving the parts\<close>

lemma net_state [simp]:
  "set_net_free_ptr p (set_net_free_ptr p' s) = set_net_free_ptr p s" "net_memory (set_net_memory m s) = m" "net_free_ptr (set_net_memory m s) = net_free_ptr s" "net_memory (set_net_free_ptr p s) = net_memory s" "net_free_ptr (set_net_free_ptr p s) = p"
  "net_memory (s\<lparr>net_src := a\<rparr>) = net_memory s" "net_free_ptr (s\<lparr>net_src := a\<rparr>) = net_free_ptr s"
  "net_memory (s\<lparr>net_boot := (net_boot s)\<lparr>boot_file := n\<rparr>\<rparr>) = net_memory s" "net_free_ptr (s\<lparr>net_boot := (net_boot s)\<lparr>boot_file := n\<rparr>\<rparr>) = net_free_ptr s"
  "net_memory (s\<lparr>net_boot := (net_boot s)\<lparr>initrd_start := x, initrd_size := y\<rparr>\<rparr>) = net_memory s"
  by (simp_all add: net_memory_def set_net_memory_def net_free_ptr_def set_net_free_ptr_def)

lemma net_fields [simp]:
  "kern_src (set_net_memory m s) = kern_src s" "kern_size (set_net_memory m s) = kern_size s" "header_size (set_net_memory m s) = header_size s" "ird_size (set_net_memory m s) = ird_size s" "ird_src (set_net_memory m s) = ird_src s"
  "kern_src (set_net_free_ptr p s) = kern_src s" "kern_size (set_net_free_ptr p s) = kern_size s" "header_size (set_net_free_ptr p s) = header_size s" "ird_size (set_net_free_ptr p s) = ird_size s" "ird_src (set_net_free_ptr p s) = ird_src s"
  "net_src (set_net_memory m s) = net_src s" "net_src (set_net_free_ptr p s) = net_src s"
  "boot_file (net_boot (set_net_memory m s)) = boot_file (net_boot s)" "boot_file (net_boot (set_net_free_ptr p s)) = boot_file (net_boot s)"
  "initrd_start (net_boot (set_net_memory m s)) = initrd_start (net_boot s)" "initrd_start (net_boot (set_net_free_ptr p s)) = initrd_start (net_boot s)"
  "initrd_size (net_boot (set_net_memory m s)) = initrd_size (net_boot s)" "initrd_size (net_boot (set_net_free_ptr p s)) = initrd_size (net_boot s)"
  by (simp_all add: set_net_memory_def set_net_free_ptr_def)

lemma memcpy_below: "src + n \<le> dest \<Longrightarrow> memcpy dest src n m = poke m dest (bytes_at m src n)"
  by (simp add: memcpy_def memcpy_loop_eq)

lemma up_small: "0 < c \<Longrightarrow> n < 2 ^ 30 \<Longrightarrow> c \<le> 8192 \<Longrightarrow> up c n < 2 ^ 30 + 8192"
  using up_less [of c n] by simp

lemma net_read_initrd_moves:
  assumes f: "length f < 2 ^ 30" "ird_size s = int (length f)" and src: "unat (net_src s) = a" "a + up 512 (length f) \<le> d"
    and d: "unat (net_free_ptr s) = d + up 8192 (length f)" and s'_def: "s' = snd (net_read_initrd s)"
  shows "net_memory s' = poke (net_memory s) d (bytes_at (net_memory s) a (up 512 (length f)))" "unat (net_free_ptr s') = d" "unat (initrd_start (net_boot s')) = d"
    "unat (initrd_size (net_boot s')) = length f" "kern_src s' = kern_src s" "kern_size s' = kern_size s" "header_size s' = header_size s" "boot_file (net_boot s') = boot_file (net_boot s)"
proof -
  let ?n = "up 512 (length f)"
  have n: "?n < 2 ^ 30 + 8192" by (rule up_small) (use f in simp_all)
  have sz: "unat (of_nat (length f) :: u64) = length f" using f(1) by (simp add: unat_of_nat)
  have p: "unat (align_pagesize (of_nat (length f))) = up 8192 (length f)" and q: "unat (align_512 (of_nat (length f))) = ?n" using f(1) by (simp_all add: unat_align_pagesize unat_align_512 sz)
  have st: "unat (net_free_ptr s - align_pagesize (of_nat (length f))) = d" using d p by (subst unat_sub) (simp_all add: word_le_nat_alt)
  have "unat (align_512 (of_nat (length f)) div 512) = ?n div 512" by (simp add: unat_div q)
  then have "of_nat (unat (align_512 (of_nat (length f)) div 512)) = (of_nat (?n div 512) :: u32)" by (simp only:)
  then have "ucast (align_512 (of_nat (length f)) div 512) = (of_nat (?n div 512) :: u32)" by (simp only: of_nat_unat)
  moreover have "sint (of_nat (?n div 512) :: u32) = int (?n div 512)" by (rule sint_of_nat_small) (use n in \<open>simp add: less_mult_imp_div_less\<close>)
  ultimately have b: "sint (ucast (align_512 (of_nat (length f)) div 512) :: u32) = int (?n div 512)" by simp
  have "?n div 512 * 512 = ?n" by (simp add: up_def)
  then have e: "net_blocksize * int (?n div 512) = int ?n" unfolding net_blocksize_def by (metis of_nat_mult of_nat_numeral mult.commute)
  have w: "sint (of_nat ?n :: u32) = int ?n" by (rule sint_of_nat_small) (use n in simp_all)
  have u: "unat (of_nat ?n :: u64) = ?n" using n by (simp add: unat_of_nat)
  have m: "memcpy d a ?n (net_memory s) = poke (net_memory s) d (bytes_at (net_memory s) a ?n)" by (rule memcpy_below [OF src(2)])
  show "net_memory s' = poke (net_memory s) d (bytes_at (net_memory s) a ?n)" "unat (net_free_ptr s') = d" "unat (initrd_start (net_boot s')) = d" "unat (initrd_size (net_boot s')) = length f"
    "kern_src s' = kern_src s" "kern_size s' = kern_size s" "header_size s' = header_size s" "boot_file (net_boot s') = boot_file (net_boot s)"
    unfolding s'_def net_read_initrd_def net_bread_def Let_def f(2) of_int_of_nat_eq b e w by (simp_all add: u st m src(1) sz)
qed


definition initrd_room :: "bytes option \<Rightarrow> nat" where "initrd_room i = (case i of None \<Rightarrow> 0 | Some f \<Rightarrow> up 8192 (length f))"

lemma up_page: "k \<noteq> [] \<Longrightarrow> 8192 \<le> up 8192 (length k)"
  by (cases "up 8192 (length k) div 8192") (use up_ge [of 8192 "length k"] in \<open>auto simp: up_def\<close>)

lemma initrd_stage:
  assumes small: "sizes_small bl k i arg" and img: "img = wrap_image bl k i arg" and mem: "bytes_at (net_memory s) base (length img) = img" and base: "base < 2 ^ 63"
    and s: "ird_src s = of_nat (base + initrd_pos bl k i arg)" "ird_size s = (case i of None \<Rightarrow> 0 | Some f \<Rightarrow> int (length f))"
    and room: "unat (net_free_ptr s) = q + initrd_room i" "base + length img + up 8192 (length k) \<le> q"
    and s'_def: "s' = (if ird_size s \<noteq> 0 then snd (net_read_initrd (s\<lparr>net_src := ird_src s\<rparr>)) else s)"
  shows "bytes_at (net_memory s') base (length img) = img" "unat (net_free_ptr s') = q" "kern_src s' = kern_src s" "kern_size s' = kern_size s" "boot_file (net_boot s') = boot_file (net_boot s)"
    "i = Some f \<Longrightarrow> bytes_at (net_memory s') q (length f) = f \<and> unat (initrd_start (net_boot s')) = q \<and> unat (initrd_size (net_boot s')) = length f"
proof -
  have A: "bytes_at (net_memory s') base (length img) = img \<and> unat (net_free_ptr s') = q \<and> kern_src s' = kern_src s \<and> kern_size s' = kern_size s \<and> boot_file (net_boot s') = boot_file (net_boot s)
     \<and> (\<forall>f. i = Some f \<longrightarrow> bytes_at (net_memory s') q (length f) = f \<and> unat (initrd_start (net_boot s')) = q \<and> unat (initrd_size (net_boot s')) = length f)"
  proof (cases i)
    case None
    then show ?thesis using s s'_def mem room by (simp add: initrd_room_def)
  next
    case (Some f)
    let ?I = "initrd_pos bl k i arg" and ?s = "s\<lparr>net_src := ird_src s\<rparr>"
    note L = wrap_layout [OF small img]
    have f: "f \<noteq> []" "length f < 2 ^ 30" "k \<noteq> []" using small Some by (simp_all add: sizes_small_def)
    have li: "length img = ?I + length f" using L(5) Some by simp
    have pg: "8192 \<le> up 8192 (length k)" by (rule up_page [OF f(3)])
    have up: "length f \<le> up 512 (length f)" "up 512 (length f) < length f + 512" by (rule up_ge up_less, simp)+
    have qb: "q + initrd_room i < 2 ^ 64" using unsigned_less [of "net_free_ptr s", where ?'a = nat] room(1) by simp
    have a: "unat (ird_src s) = base + ?I" unfolding s(1) using base room(2) li qb by (simp add: unat_of_nat del: of_nat_add)
    note r = net_read_initrd_moves [of f ?s "base + ?I" q, OF f(2) _ _ _ _ refl]
    have e: "s' = snd (net_read_initrd ?s)" using s'_def s(2) f(1) Some by simp
    have x: "ird_size ?s = int (length f)" "unat (net_src ?s) = base + ?I" "base + ?I + up 512 (length f) \<le> q" "unat (net_free_ptr ?s) = q + up 8192 (length f)"
      using s(2) Some a room li pg up by (simp_all add: initrd_room_def)
    note r = r [OF x]
    have "bytes_at (net_memory s) (base + ?I) (up 512 (length f)) = f @ bytes_at (net_memory s) (base + ?I + length f) (up 512 (length f) - length f)"
      using bytes_at_add [of "net_memory s" "base + ?I" "length f" "up 512 (length f) - length f"] up bytes_at_part [OF mem, of ?I "length f"] L(3) [OF Some] li by simp
    then have m: "net_memory s' = poke (net_memory s) q (f @ bytes_at (net_memory s) (base + ?I + length f) (up 512 (length f) - length f))" using r(1) e by simp
    have "bytes_at (net_memory s') q (length f) = f" unfolding m by (rule nth_equalityI) (simp_all add: poke_def nth_append)
    moreover have "bytes_at (net_memory s') base (length img) = img" unfolding m by (subst bytes_at_poke_other) (use mem room in simp_all)
    ultimately show ?thesis using r e Some by simp
  qed
  then show "bytes_at (net_memory s') base (length img) = img" "unat (net_free_ptr s') = q" "kern_src s' = kern_src s" "kern_size s' = kern_size s" "boot_file (net_boot s') = boot_file (net_boot s)"
    "i = Some f \<Longrightarrow> bytes_at (net_memory s') q (length f) = f \<and> unat (initrd_start (net_boot s')) = q \<and> unat (initrd_size (net_boot s')) = length f" by blast+
qed


lemma find_kernel_image:
  assumes small: "sizes_small bl k i arg" and img: "img = wrap_image bl k i arg" and mem: "bytes_at (net_memory s) base (length img) = img" and base: "base mod 512 = 0" "base < 2 ^ 63"
    and h: "unat (align_512 end_addr) = base + header_pos bl"
    and ptr: "ptr = (if net_free_ptr s = 0 then memory_end cl else net_free_ptr s) AND NOT (PAGE_SIZE - 1)" "base + length img + up 8192 (length k) + initrd_room i \<le> unat ptr"
    and name: "8 \<le> length (boot_file (net_boot s))"
  shows "\<exists>s'. net_find_kernel cl end_addr s = Some s' \<and> bytes_at (net_memory s') (unat (net_src s')) (length k) = k \<and> kern_size s' = int (length k)
     \<and> header_size s' = int (length (wrap_header k i arg)) \<and> bytes_at (net_memory s') base (length img) = img
     \<and> (\<forall>f. i = Some f \<longrightarrow> bytes_at (net_memory s') (unat (initrd_start (net_boot s'))) (length f) = f \<and> unat (initrd_size (net_boot s')) = length f)"
proof -
  let ?K = "kernel_pos bl k i arg" and ?q = "unat ptr - initrd_room i"
  note L = wrap_layout [OF small img]
  have b: "k \<noteq> []" "length k < 2 ^ 30" using small by (simp_all add: sizes_small_def)
  define s0 where "s0 = read_header (align_512 end_addr) s"
  note e0 = read_header_image [OF small img mem base h, folded s0_def]
  have n0: "net_memory s0 = net_memory s" "net_free_ptr s0 = net_free_ptr s" "net_boot s0 = net_boot s" by (simp_all add: e0 net_memory_def net_free_ptr_def)
  define s1 where "s1 = set_net_free_ptr ptr s0"
  have p1: "set_net_free_ptr (net_free_ptr (if net_free_ptr s0 = 0 then set_net_free_ptr (memory_end cl) s0 else s0) AND NOT (PAGE_SIZE - 1)) (if net_free_ptr s0 = 0 then set_net_free_ptr (memory_end cl) s0 else s0) = s1"
    by (simp add: s1_def ptr(1) n0)
  have f1: "ird_src s1 = of_nat (base + initrd_pos bl k i arg)" "ird_size s1 = (case i of None \<Rightarrow> 0 | Some f \<Rightarrow> int (length f))" "kern_src s1 = of_nat (base + ?K)" "kern_size s1 = int (length k)"
    "header_size s1 = int (length (wrap_header k i arg))" "bytes_at (net_memory s1) base (length img) = img" "net_free_ptr s1 = ptr" "boot_file (net_boot s1) = boot_file (net_boot s)"
    using mem by (simp_all add: s1_def n0) (simp_all add: e0)
  define s2 where "s2 = (if ird_size s1 \<noteq> 0 then snd (net_read_initrd (s1\<lparr>net_src := ird_src s1\<rparr>)) else s1)"
  have room: "unat (net_free_ptr s1) = ?q + initrd_room i" "base + length img + up 8192 (length k) \<le> ?q" using ptr(2) f1(7) by simp_all
  note r = initrd_stage [OF small img f1(6) base(2) f1(1,2) room s2_def]
  have hs: "header_size s2 = header_size s1" by (simp add: s2_def net_read_initrd_def net_bread_def Let_def)
  obtain nm where nm: "put_str (boot_file (net_boot s2)) 0 (str ''network'') = Some nm" using name r(5) f1(8) by (simp add: put_str_def str_def)
  let ?p = "net_free_ptr s2 - align_pagesize (word_of_int (kern_size s2))"
  have kz: "kern_size s2 = int (length k)" "kern_src s2 = of_nat (base + ?K)" using r(3,4) f1(3,4) by simp_all
  have u: "unat (of_nat (length k) :: u64) = length k" using b by (simp add: unat_of_nat)
  have "unat (align_pagesize (of_nat (length k))) = up 8192 (length k)" using b u by (simp add: unat_align_pagesize)
  then have p: "unat ?p = ?q - up 8192 (length k)" using r(2) room(2) kz(1) by (simp add: unat_sub word_le_nat_alt)
  have ki: "?K + length k \<le> length img" using L(5) up_ge [of 512 "?K + length k"] by (cases i) (simp_all add: initrd_pos_def)
  have ks: "unat (kern_src s2) = base + ?K" unfolding kz(2) using base(2) ki room(2) unsigned_less [of ptr, where ?'a = nat] by (simp add: unat_of_nat del: of_nat_add)
  have src: "bytes_at (net_memory s2) (base + ?K) (length k) = k" using bytes_at_part [OF r(1) ki] L(2) by simp
  let ?m = "poke (net_memory s2) (unat ?p) k"
  have m: "memcpy (unat ?p) (unat (kern_src s2)) (unat (word_of_int (kern_size s2) :: u64)) (net_memory s2) = ?m"
    by (subst memcpy_below) (use p ks kz(1) u ki room(2) src in simp_all)
  define s3 where "s3 = set_net_memory ?m (set_net_free_ptr ?p (s2\<lparr>net_boot := (net_boot s2)\<lparr>boot_file := nm\<rparr>, net_src := ?p\<rparr>))"
  have "net_find_kernel cl end_addr s = Some s3"
    unfolding net_find_kernel_def Let_def s0_def [symmetric] p1 s2_def [symmetric] nm option.case using m by (simp add: s3_def)
  moreover have "bytes_at ?m base (length img) = img" 
  proof -
    have "base + length img \<le> unat ?p" using p room(2) by linarith
    then show ?thesis using bytes_at_poke_other [of base "length img" "unat ?p" k "net_memory s2"] r(1) by simp
  qed
  moreover have "bytes_at ?m ?q n = bytes_at (net_memory s2) ?q n" for n 
  proof -
    have "unat ?p + length k \<le> ?q" using p room(2) up_ge [of 8192 "length k"] by linarith
    then show ?thesis by (simp add: bytes_at_poke_other)
  qed
  ultimately show ?thesis using r(6) hs f1(5) kz(1) bytes_at_poke [of "net_memory s2" "unat ?p" k] by (intro exI [of _ s3]) (auto simp: s3_def)
qed


subsection \<open>The arguments\<close>

lemma strncpy_bytes_cstr: "cstr m a x \<Longrightarrow> length x < n \<Longrightarrow> strncpy_bytes n a m = x @ [0]"
proof (induction x arbitrary: n a)
  case Nil
  then show ?case by (cases n) (simp_all add: cstr_Nil)
next
  case (Cons c x)
  then show ?case by (cases n) (auto simp: cstr_Cons)
qed

lemma c_string_overwrite: "0 \<notin> set x \<Longrightarrow> c_string (overwrite (x @ [0]) buf) = x"
  unfolding c_string_def overwrite_def append.assoc by (subst takeWhile_append2) auto

text \<open>The arguments in the header; \<open>b\<close> is the state after the call of the decompressor.\<close>

lemma boot_arg_copied:
  assumes small: "sizes_small bl k i (Some x)" and img: "img = wrap_image bl k i (Some x)" and mem: "bytes_at (memory (loader b)) base (length img) = img" and base: "base < 2 ^ 63"
    and h: "unat header = base + header_pos bl" and hs: "header_size s = int (length (wrap_header k i (Some x)))"
    and x: "0 \<notin> set x" "x \<noteq> []" and ka: "length (kernel_args b) = 256" "kernel_args b ! 0 = 0"
  shows "copy_boot_arg header s b = (Ret (), b\<lparr>kernel_args := overwrite (x @ [0]) (kernel_args b)\<rparr>)"
proof -
  let ?h = "wrap_header k i (Some x)" and ?m = "memory (loader b)" and ?A = "header_pos bl"
  note L = wrap_layout [OF small img]
  have lx: "length x < 200" "length bl < 2 ^ 30" using small by (simp_all add: sizes_small_def)
  have lh: "length ?h = 13 + length x" by (simp add: length_wrap_header)
  have A: "?A < length bl + 512" "?A + length ?h \<le> kernel_pos bl k i (Some x)" "kernel_pos bl k i (Some x) + length k \<le> initrd_pos bl k i (Some x)"
    unfolding kernel_pos_def header_pos_def initrd_pos_def by (rule up_ge up_less, simp)+
  have a: "unat (header + of_nat BOOT_ARG) = base + (?A + 12)" unfolding BOOT_ARG_def using h base lx A(1) by (subst unat_add_lem [THEN iffD1]) auto
  have le: "?A + length ?h \<le> length img" using L(5) A by (auto split: option.splits)
  have "slice (?A + 12) (length x + 1) img = slice 12 (length x + 1) ?h" using slice_slice [of 12 "length x + 1" "length ?h" ?A img] L(1) lh by simp
  also have "\<dots> = x @ [0]" by (simp add: wrap_header_def Let_def slice_def)
  finally have m: "bytes_at ?m (base + (?A + 12)) (length x + 1) = x @ [0]" using bytes_at_part [OF mem, of "?A + 12" "length x + 1"] le lh by simp
  then have c: "cstr ?m (base + (?A + 12)) x" using x(1) bytes_at_add [of ?m "base + (?A + 12)" "length x" 1] by (simp add: cstr_def bytes_at_Suc)
  then have nz: "?m (base + (?A + 12)) \<noteq> 0" using x(2) by (cases x) (auto simp: cstr_Cons)
  have n: "unat (word_of_int (header_size s) - of_nat BOOT_ARG :: u64) = length x + 1"
  proof -
    have "word_of_int (header_size s) - of_nat BOOT_ARG = (of_nat (length x + 1) :: u64)" unfolding hs lh BOOT_ARG_def by simp
    then show ?thesis using lx by (simp add: unat_of_nat del: of_nat_add of_nat_Suc)
  qed
  show ?thesis unfolding copy_boot_arg_def Let_def a n strncpy_bytes_cstr [OF c less_add_one] using ka nz lx by simp
qed


lemma netabootwrap_image:
  assumes "netabootwrap files bl args = Some (0, Some (t, img))"
  shows "\<exists>w k. wrap_args args wrap_default = Some w \<and> files (kfn w) = Some k \<and> 10240 < length k \<and> (\<forall>x. barg w = Some x \<longrightarrow> length x < 200)
     \<and> (\<forall>n. ifn w = Some n \<longrightarrow> (\<exists>f. files n = Some f \<and> 10240 < length f)) \<and> img = wrap_image bl k (Option.bind (ifn w) files) (barg w)"
  using assms by (auto simp: netabootwrap_def Let_def split: option.splits if_splits)

lemma wrap_sizes:
  assumes img: "netabootwrap files bl args = Some (0, Some (t, img))" and w: "wrap_args args wrap_default = Some w" and k: "files (kfn w) = Some k" and i: "i = Option.bind (ifn w) files"
    and sizes: "length bl < 2 ^ 30" "length k < 2 ^ 30" "case i of None \<Rightarrow> True | Some f \<Rightarrow> length f < 2 ^ 30"
  shows "img = wrap_image bl k i (barg w)" "sizes_small bl k i (barg w)"
  using netabootwrap_image [OF img] w k sizes by (auto simp: i sizes_small_def bind_eq_Some_conv split: option.splits)

subsection \<open>The array of the loader\<close>

declare b2c_words.simps [simp del]

lemma b2c_words_bytes: "concat (map (le_encode 4) (b2c_words f)) = take (4 * (length f div 4)) f"
proof (induction f rule: length_induct)
  case (1 f)
  show ?case
  proof (cases "f = []")
    case True
    then show ?thesis by (subst b2c_words.simps) simp
  next
    case False
    let ?b = "take 4096 f" and ?r = "drop 4096 f"
    have w: "le_encode 4 (le_word x :: u32) = x" if "length x = 4" for x
    proof (rule nth_equalityI)
      fix j assume "j < length (le_encode 4 (le_word x :: u32))"
      then have j: "j < 4" by simp
      have "bit ((le_encode 4 (le_word x :: u32)) ! j) n = bit (x ! j) n" if "n < 8" for n
        using that j \<open>length x = 4\<close> bit_le_word_len [of x "8 * j + n", where ?'a = 32] by (simp add: le_encode_def bit_simps)
      then show "le_encode 4 (le_word x :: u32) ! j = x ! j" by (intro bit_word_eqI) simp
    qed (simp add: that)
    have "concat (map (le_encode 4) (map (\<lambda>i. le_word (slice (4 * i) 4 ?b) :: u32) [0..<length ?b div 4])) = concat (map (\<lambda>i. slice (4 * i) 4 ?b) [0..<length ?b div 4])"

    proof (unfold map_map, intro arg_cong [where f = concat] map_cong refl)
      fix j assume "j \<in> set [0..<length ?b div 4]"
      then have "4 * j + 4 \<le> length ?b" by auto
      then show "(le_encode 4 \<circ> (\<lambda>i. le_word (slice (4 * i) 4 ?b) :: u32)) j = slice (4 * j) 4 ?b" by (simp add: w length_slice del: length_take)
    qed
    also have "\<dots> = take (4 * (length ?b div 4)) ?b" by (rule concat_slices)
    finally have "concat (map (le_encode 4) (b2c_words f)) = take (4 * (length ?b div 4)) ?b @ take (4 * (length ?r div 4)) ?r"
      using False 1 by (subst b2c_words.simps) (simp add: Let_def)
    also have "\<dots> = take (4 * (length f div 4)) f"
    proof (cases "length f \<le> 4096")
      case False
      then have "length f div 4 = 1024 + (length f - 4096) div 4" by simp
      then show ?thesis using False by (simp add: take_add)
    qed simp
    finally show ?thesis .
  qed
qed


definition hex_value :: "string \<Rightarrow> nat" where
  "hex_value s = foldl (\<lambda>n c. 16 * n + (if of_char c < (58 :: nat) then of_char c - 48 else of_char c - 87)) 0 s"

declare hex_digits.simps [simp del]

lemma hex_value_digit: "n < 16 \<Longrightarrow> (if of_char (''0123456789abcdef'' ! n) < (58 :: nat) then of_char (''0123456789abcdef'' ! n) - 48 else of_char (''0123456789abcdef'' ! n) - 87) = n"
  by (simp add: numeral_eq_Suc less_Suc_eq) (elim disjE; simp)

lemma hex_value_digits: "hex_value (hex_digits n) = n"
proof (induction n rule: less_induct)
  case (less n)
  show ?case
  proof (cases "n < 16")
    case True
    then show ?thesis using hex_value_digit [OF True] by (subst hex_digits.simps) (simp add: hex_value_def)
  next
    case False
    then have "hex_value (hex_digits n) = 16 * hex_value (hex_digits (n div 16)) + n mod 16"
      using hex_value_digit [of "n mod 16"] by (subst hex_digits.simps) (simp add: hex_value_def)
    then show ?thesis using less [of "n div 16"] False by simp
  qed
qed

subsection \<open>Properties\<close>

text \<open>
  C10.  The loader finds what \<open>netabootwrap\<close> has put together: when the file is in memory with the header at the aligned end of the loader, the first part of \<open>load_kernel\<close> leaves the kernel file at
  the place from which the decompressor reads and the ramdisk at the address for the kernel, each complete, and the file itself is intact.
\<close>

theorem netboot_finds_files:
  assumes img: "netabootwrap files bl args = Some (0, Some (t, img))" and w: "wrap_args args wrap_default = Some w" and k: "files (kfn w) = Some k" and i: "i = Option.bind (ifn w) files"
    and sizes: "length bl < 2 ^ 30" "length k < 2 ^ 30" "case i of None \<Rightarrow> True | Some f \<Rightarrow> length f < 2 ^ 30"
    and mem: "bytes_at (net_memory s) base (length img) = img" and base: "base mod 512 = 0" "base < 2 ^ 63" and h: "unat (align_512 end_addr) = base + header_pos bl"
    and ptr: "ptr = (if net_free_ptr s = 0 then memory_end cl else net_free_ptr s) AND NOT (PAGE_SIZE - 1)" "base + length img + up 8192 (length k) + initrd_room i \<le> unat ptr"
    and name: "8 \<le> length (boot_file (net_boot s))"
  shows "\<exists>s'. net_find_kernel cl end_addr s = Some s' \<and> bytes_at (net_memory s') (unat (net_src s')) (length k) = k \<and> kern_size s' = int (length k)
     \<and> header_size s' = int (length (wrap_header k i (barg w))) \<and> bytes_at (net_memory s') base (length img) = img
     \<and> (\<forall>f. i = Some f \<longrightarrow> bytes_at (net_memory s') (unat (initrd_start (net_boot s'))) (length f) = f \<and> unat (initrd_size (net_boot s')) = length f)"
  by (rule find_kernel_image [OF wrap_sizes(2,1) [OF img w k i sizes] mem base h ptr name])

text \<open>
  C38.  The kernel arguments given to \<open>netabootwrap\<close> arrive: when the console has passed none, the second part of \<open>load_kernel\<close> takes those of the header, as long as the file has not been
  overwritten.
\<close>

theorem netboot_arguments:
  assumes img: "netabootwrap files bl args = Some (0, Some (t, img))" and w: "wrap_args args wrap_default = Some w" "barg w = Some x" and k: "files (kfn w) = Some k" and i: "i = Option.bind (ifn w) files"
    and sizes: "length bl < 2 ^ 30" "length k < 2 ^ 30" "case i of None \<Rightarrow> True | Some f \<Rightarrow> length f < 2 ^ 30"
    and mem: "bytes_at (memory (loader b)) base (length img) = img" and base: "base < 2 ^ 63" and h: "unat (align_512 end_addr) = base + header_pos bl"
    and bss: "unat (bss_start (elf (loader b))) + unat (bss_size (elf (loader b))) \<le> base \<or> base + length img \<le> unat (bss_start (elf (loader b)))"
    and hs: "header_size s = int (length (wrap_header k i (Some x)))" and x: "0 \<notin> set x" "x \<noteq> []" "x \<noteq> [105]" and ka: "length (kernel_args b) = 256" "kernel_args b ! 0 = 0"
  shows "\<exists>b'. net_finish end_addr s b = (Ret 0, b') \<and> c_string (kernel_args b') = x \<and> loader b' = clear_bss (loader b) \<and> input b' = input b"
proof -
  have e: "img = wrap_image bl k i (Some x)" and small: "sizes_small bl k i (Some x)" using wrap_sizes [OF img w(1) k i sizes] w(2) by simp_all
  let ?b = "b\<lparr>loader := clear_bss (loader b)\<rparr>" and ?ka = "overwrite (x @ [0]) (kernel_args b)"
  have "bytes_at (memory (loader ?b)) base (length img) = img"
    using bytes_at_poke_other [of base "length img" "unat (bss_start (elf (loader b)))" "replicate (unat (bss_size (elf (loader b)))) 0" "memory (loader b)"] bss mem
    by (auto simp: clear_bss_def memset_def memset_loop_eq)
  note c = boot_arg_copied [OF small e this base h hs x(1,2)]
  have "copy_boot_arg (align_512 end_addr) s ?b = (Ret (), ?b\<lparr>kernel_args := ?ka\<rparr>)" using c ka by simp
  moreover have "\<not> (?ka ! 0 = 105 \<and> ?ka ! 1 = 0)"
  proof (cases x)
    case (Cons y ys)
    then show ?thesis using x by (cases ys) (auto simp: overwrite_def)
  qed (use x in simp)
  then have "ask_args (Suc n) (?b\<lparr>kernel_args := ?ka\<rparr>) = (Ret (), ?b\<lparr>kernel_args := ?ka\<rparr>)" for n by auto
  ultimately have "net_finish end_addr s b = (Ret 0, ?b\<lparr>kernel_args := ?ka\<rparr>)"
    by (simp add: net_finish_def bind_gz_def modify_gz_def gets_gz_def ret_gz_def del: ask_args.simps)
  then show ?thesis using c_string_overwrite [OF x(1)] by simp
qed

text \<open>
  The array that \<open>b2c\<close> writes has the bytes of its input, up to the last whole word: the hexadecimal numbers of the text, as words in memory, are the file.
\<close>

theorem b2c_roundtrip:
  "concat (map (\<lambda>w. le_encode 4 (of_nat (hex_value (hex_digits (unat w))) :: u32)) (b2c_words f)) = take (4 * (length f div 4)) f"
  using b2c_words_bytes [of f] by (simp add: hex_value_digits)


text \<open>A loader of one sector at the address \<^verbatim>\<open>0x20000000\<close>, with a kernel, a ramdisk and an argument.\<close>

definition net_kernel :: bytes where "net_kernel = replicate 10241 1"
definition net_ramdisk :: bytes where "net_ramdisk = replicate 10242 2"
definition net_files :: "bytes \<Rightarrow> bytes option" where "net_files n = (if n = str ''ird'' then Some net_ramdisk else Some net_kernel)"
definition net_args :: "bytes list" where "net_args = [str ''-iird'', str ''-aro'']"
definition net_image :: bytes where "net_image = wrap_image (replicate 512 7) net_kernel (Some net_ramdisk) (Some (str ''ro''))"
definition net_example :: "fs_state net" where
  "net_example = set_net_memory (poke (\<lambda>_. 0) 0x20000000 net_image) (set_net_free_ptr 0x40000000
     \<lparr>net_boot = example_boot\<lparr>kernel_args := replicate 256 0\<rparr>, net_src = 0, kern_src = 0, ird_src = 0, header_size = 15, kern_size = 0, ird_size = 0\<rparr>)"

lemma net_args_parsed: "wrap_args net_args wrap_default = Some (wrap_default\<lparr>ifn := Some (str ''ird''), barg := Some (str ''ro'')\<rparr>)"
  by (simp add: net_args_def str_def switch_value_def)

lemma net_wrapped: "netabootwrap net_files (replicate 512 7) net_args = Some (0, Some (str ''netboot.img'', net_image))"
  unfolding netabootwrap_def net_args_parsed by (simp add: net_files_def wrap_default_def str_def net_kernel_def net_ramdisk_def net_image_def Let_def)

lemma net_image_length: "length net_image = 22018"
proof -
  have small: "sizes_small (replicate 512 7) net_kernel (Some net_ramdisk) (Some (str ''ro''))" by (simp add: sizes_small_def net_kernel_def net_ramdisk_def str_def)
  show ?thesis
    using wrap_layout(5) [OF small refl] by (simp add: net_image_def initrd_pos_def kernel_pos_def header_pos_def up_def length_wrap_header str_def net_kernel_def net_ramdisk_def)
qed

lemma net_example_memory: "bytes_at (net_memory net_example) 0x20000000 (length net_image) = net_image"
  by (simp add: net_example_def bytes_at_poke)

lemma net_example_end: "unat (align_512 0x20000200) = 0x20000000 + header_pos (replicate 512 7)"
  by (simp add: unat_align_512 header_pos_def up_def)

theorem netboot_finds_files_witness:
  "\<exists>s'. net_find_kernel [] 0x20000200 net_example = Some s' \<and> bytes_at (net_memory s') (unat (net_src s')) 10241 = net_kernel
     \<and> bytes_at (net_memory s') (unat (initrd_start (net_boot s'))) 10242 = net_ramdisk"
proof -
  have p: "(if net_free_ptr net_example = 0 then memory_end [] else net_free_ptr net_example) AND NOT (PAGE_SIZE - 1) = 0x40000000"
    by (simp add: net_example_def PAGE_SIZE_def PAGE_SHIFT_def)
  have l: "length net_kernel = 10241" "length net_ramdisk = 10242" by (simp_all add: net_kernel_def net_ramdisk_def)
  have "\<exists>s'. net_find_kernel [] 0x20000200 net_example = Some s' \<and> bytes_at (net_memory s') (unat (net_src s')) (length net_kernel) = net_kernel \<and> kern_size s' = int (length net_kernel)
     \<and> header_size s' = int (length (wrap_header net_kernel (Some net_ramdisk) (barg (wrap_default\<lparr>ifn := Some (str ''ird''), barg := Some (str ''ro'')\<rparr>))))
     \<and> bytes_at (net_memory s') 0x20000000 (length net_image) = net_image
     \<and> (\<forall>f. Some net_ramdisk = Some f \<longrightarrow> bytes_at (net_memory s') (unat (initrd_start (net_boot s'))) (length f) = f \<and> unat (initrd_size (net_boot s')) = length f)"
    by (rule netboot_finds_files [OF net_wrapped net_args_parsed _ _ _ _ _ net_example_memory _ _ net_example_end p [symmetric]])
      (simp_all add: net_files_def wrap_default_def str_def l net_image_length initrd_room_def up_def net_example_def example_boot_def)
  then show ?thesis using l by metis
qed

theorem netboot_arguments_witness:
  "\<exists>b'. net_finish 0x20000200 net_example (net_boot net_example) = (Ret 0, b') \<and> c_string (kernel_args b') = str ''ro''"
proof -
  have l: "length net_kernel = 10241" "length net_ramdisk = 10242" by (simp_all add: net_kernel_def net_ramdisk_def)
  have "\<exists>b'. net_finish 0x20000200 net_example (net_boot net_example) = (Ret 0, b') \<and> c_string (kernel_args b') = str ''ro'' \<and> loader b' = clear_bss (loader (net_boot net_example)) \<and> input b' = input (net_boot net_example)"
    by (rule netboot_arguments [OF net_wrapped net_args_parsed _ _ refl _ _ _ net_example_memory [unfolded net_memory_def] _ net_example_end, where k = net_kernel])
      (simp_all add: net_files_def wrap_default_def str_def l net_image_length net_example_def example_boot_def set_net_memory_def set_net_free_ptr_def length_wrap_header kernel_gz_def example_globals_def)
  then show ?thesis by blast
qed

end
